(* ===== verification/N8n_Prelude.thy ===== *)
theory N8n_Prelude
  imports Complex_Main "HOL-Library.Sublist" "HOL-Library.Multiset"
begin

text \<open>
  Shared vocabulary of the development.

  \<^item> Exceptions: a computation that may throw has type \<open>'a res\<close>, the sum of a
    \<open>js_error\<close> and a value; \<open>bind_res\<close> sequences two of them and \<open>fold_res\<close> is a
    \<open>for ... of\<close> loop whose body may throw.
  \<^item> Containers: a JavaScript \<^verbatim>\<open>Map\<close> is an association list in insertion order
    (\<open>map_set\<close>, \<open>map_get\<close>, \<open>map_delete\<close>); a plain object is an association list in the
    order in which \<^verbatim>\<open>Object.keys\<close> lists it (\<open>obj_set\<close> keeps array-index keys first
    and ascending, all other keys in insertion order); a \<^verbatim>\<open>Set\<close> is a list without
    repetitions in insertion order (\<open>set_add\<close>).
    The locale \<open>keyed_store\<close> states what the code relies on of the first two, and both
    are interpreted.
  \<^item> Graph search: the locale \<open>graph_search\<close> states the recursion that the depth-first
    collectors of the program share and proves once that such a collector returns, that
    it never throws on a well-formed graph, and that it returns exactly the reachable
    elements.
  \<^item> Sorting with a comparator: \<open>js_sort\<close>.
  \<^item> State machines: the locales \<open>state_machine\<close> and \<open>refined_machine\<close> prove once that an
    invariant holds in every reachable state and that a simulation maps runs to runs.
  \<^item> Numbers printed in template literals: \<open>nat_str\<close>.
\<close>

named_theorems res_simps \<open>evaluation of computations that may throw\<close>
named_theorems store_simps \<open>lookup and keys after an update of a Map or of an object\<close>

section \<open>Exceptions as values\<close>

datatype js_error =
    AssertionError
  | JsTypeError
  | UserError string
  | OperationalError string
  | UnexpectedError string
  | InvalidConcurrencyLimitError
  | UnknownExecutionModeError
  | ApplicationError string
  | ThrownError string string
  | WorkflowHasIssuesError "string list"

type_synonym 'a res = "js_error + 'a"

definition bind_res :: "'a res \<Rightarrow> ('a \<Rightarrow> 'b res) \<Rightarrow> 'b res" where
  "bind_res r f = (case r of Inl e \<Rightarrow> Inl e | Inr x \<Rightarrow> f x)"

lemma bind_res_simps [simp, res_simps, code]:
  "bind_res (Inl e) f = Inl e"
  "bind_res (Inr x) f = f x"
  by (simp_all add: bind_res_def)

lemma bind_res_cong [fundef_cong]:
  assumes "r = r'" and "\<And>x. r' = Inr x \<Longrightarrow> f x = f' x"
  shows "bind_res r f = bind_res r' f'"
  using assms by (cases r') (simp_all add: bind_res_def)

lemma bind_res_eq_Inr:
  "bind_res r f = Inr y \<longleftrightarrow> (\<exists>x. r = Inr x \<and> f x = Inr y)"
  by (cases r) simp_all

lemma bind_res_eq_Inl:
  "bind_res r f = Inl e \<longleftrightarrow> r = Inl e \<or> (\<exists>x. r = Inr x \<and> f x = Inl e)"
  by (cases r) simp_all

lemma bind_res_assoc: "bind_res (bind_res r f) g = bind_res r (\<lambda>x. bind_res (f x) g)"
  by (cases r) simp_all

text \<open>Node's \<^verbatim>\<open>assert.ok\<close>.\<close>

definition assert_ok :: "bool \<Rightarrow> unit res" where
  "assert_ok b = (if b then Inr () else Inl AssertionError)"

lemma assert_ok_simps [simp, res_simps]:
  "assert_ok True = Inr ()"
  "assert_ok False = Inl AssertionError"
  by (simp_all add: assert_ok_def)

lemma assert_ok_eq_Inr [simp]: "assert_ok b = Inr u \<longleftrightarrow> b"
  by (simp add: assert_ok_def)

lemma bind_assert_ok:
  "bind_res (assert_ok b) f = (if b then f () else Inl AssertionError)"
  by (simp add: assert_ok_def)

fun fold_res :: "('a \<Rightarrow> 's \<Rightarrow> 's res) \<Rightarrow> 'a list \<Rightarrow> 's \<Rightarrow> 's res" where
  "fold_res f [] s = Inr s"
| "fold_res f (x # xs) s = bind_res (f x s) (fold_res f xs)"

text \<open>\<^verbatim>\<open>xs.map(f)\<close> with a function that may throw.\<close>

fun map_res :: "('a \<Rightarrow> 'b res) \<Rightarrow> 'a list \<Rightarrow> 'b list res" where
  "map_res f [] = Inr []"
| "map_res f (x # xs) = bind_res (f x) (\<lambda>y. bind_res (map_res f xs) (\<lambda>ys. Inr (y # ys)))"

lemma map_res_pure: "(\<And>x. x \<in> set xs \<Longrightarrow> f x = Inr (g x)) \<Longrightarrow> map_res f xs = Inr (map g xs)"
  by (induction xs) (auto simp: bind_res_def)

lemma map_res_total: "(\<And>x. x \<in> set xs \<Longrightarrow> \<exists>y. f x = Inr y) \<Longrightarrow> \<exists>ys. map_res f xs = Inr ys"
  by (induction xs) (fastforce simp: bind_res_def)+

lemma map_res_eq_Inr: "map_res f xs = Inr ys \<longleftrightarrow> list_all2 (\<lambda>x y. f x = Inr y) xs ys"
proof (induction xs arbitrary: ys)
  case (Cons x xs)
  then show ?case by (cases "f x"; cases "map_res f xs") (auto simp: bind_res_def list_all2_Cons1)
qed auto

lemma fold_res_append:
  "fold_res f (xs @ ys) s = bind_res (fold_res f xs s) (fold_res f ys)"
  by (induction xs arbitrary: s) (auto simp: bind_res_def split: sum.splits)

lemma fold_res_cong [fundef_cong]:
  assumes "xs = ys" and "s = t" and "\<And>x u. x \<in> set ys \<Longrightarrow> f x u = g x u"
  shows "fold_res f xs s = fold_res g ys t"
  using assms
proof (induction ys arbitrary: xs s t)
  case Nil
  then show ?case by simp
next
  case (Cons y ys)
  have "f y t = g y t" using Cons.prems(3) by simp
  moreover have "fold_res f ys = fold_res g ys"
    using Cons.IH [of ys] Cons.prems(3) by (simp add: fun_eq_iff)
  ultimately show ?case using Cons.prems(1,2) by simp
qed

text \<open>
  The rule for loops: an invariant of the accumulator that every iteration keeps holds
  at the end; and a loop whose every iteration succeeds under the invariant succeeds.
\<close>

lemma fold_res_invariant:
  assumes "fold_res f xs s = Inr t" and "P s"
    and "\<And>x u v. x \<in> set xs \<Longrightarrow> P u \<Longrightarrow> f x u = Inr v \<Longrightarrow> P v"
  shows "P t"
  using assms by (induction xs arbitrary: s) (auto simp: bind_res_eq_Inr)

lemma fold_res_total:
  assumes "P s" and "\<And>x u. x \<in> set xs \<Longrightarrow> P u \<Longrightarrow> \<exists>v. f x u = Inr v \<and> P v"
  shows "\<exists>t. fold_res f xs s = Inr t \<and> P t"
  using assms
proof (induction xs arbitrary: s)
  case Nil
  then show ?case by simp
next
  case (Cons x xs)
  from Cons.prems obtain v where v: "f x s = Inr v" "P v" by auto
  with Cons.IH [OF v(2)] Cons.prems(2) show ?case by simp
qed

lemma fold_res_pure:
  "fold_res (\<lambda>x s. Inr (f x s)) xs s = Inr (fold f xs s)"
  by (induction xs arbitrary: s) simp_all

text \<open>Nested loops as one loop over the flattened list.\<close>

lemma fold_res_concat: "fold_res f (concat (map g xs)) = fold_res (\<lambda>x. fold_res f (g x)) xs"
  by (induction xs; rule ext) (simp_all add: fold_res_append)

lemma fold_res_map: "fold_res f (map g xs) = fold_res (\<lambda>x. f (g x)) xs"
  by (induction xs; rule ext) simp_all

lemma fold_res_pure_on:
  assumes "\<And>x s. x \<in> set xs \<Longrightarrow> P s \<Longrightarrow> f x s = Inr (h x s) \<and> P (h x s)" and "P s"
  shows "fold_res f xs s = Inr (fold h xs s) \<and> P (fold h xs s)"
  using assms by (induction xs arbitrary: s) auto

text \<open>
  The shape of a loop that collects elements: every iteration adds at least \<open>L x\<close> and at most
  \<open>U x\<close> to the content of the accumulator, and so does the loop with the unions.
\<close>

lemma fold_res_collect:
  assumes "\<And>x s. x \<in> set xs \<Longrightarrow> P s \<Longrightarrow>
      \<exists>t. f x s = Inr t \<and> P t \<and> cont s \<union> L x \<subseteq> cont t \<and> cont t \<subseteq> cont s \<union> U x"
    and "P s"
  shows "\<exists>t. fold_res f xs s = Inr t \<and> P t \<and> cont s \<union> (\<Union>x \<in> set xs. L x) \<subseteq> cont t
    \<and> cont t \<subseteq> cont s \<union> (\<Union>x \<in> set xs. U x)"
  using assms
proof (induction xs arbitrary: s)
  case Nil
  then show ?case by simp
next
  case (Cons x xs)
  from Cons.prems(1) [of x s] Cons.prems(2) obtain u where u: "f x s = Inr u" "P u"
    "cont s \<union> L x \<subseteq> cont u" "cont u \<subseteq> cont s \<union> U x" by auto
  from Cons.IH [OF Cons.prems(1) u(2)] obtain t where t: "fold_res f xs u = Inr t" "P t"
    "cont u \<union> (\<Union>x \<in> set xs. L x) \<subseteq> cont t" "cont t \<subseteq> cont u \<union> (\<Union>x \<in> set xs. U x)" by auto
  have "cont s \<union> (\<Union>x \<in> set (x # xs). L x) \<subseteq> cont t" "cont t \<subseteq> cont s \<union> (\<Union>x \<in> set (x # xs). U x)"
    using u(3,4) t(3,4) by auto
  with u(1) t(1,2) show ?case by auto
qed

section \<open>Sets in insertion order\<close>

definition set_add :: "'a \<Rightarrow> 'a list \<Rightarrow> 'a list" where
  "set_add x xs = (if x \<in> set xs then xs else xs @ [x])"

definition set_delete :: "'a \<Rightarrow> 'a list \<Rightarrow> 'a list" where
  "set_delete x xs = filter (\<lambda>y. y \<noteq> x) xs"

definition set_of :: "'a list \<Rightarrow> 'a list" where
  "set_of xs = fold set_add xs []"

lemma set_set_add [simp, store_simps]: "set (set_add x xs) = insert x (set xs)"
  by (auto simp: set_add_def)

lemma distinct_set_add [simp]: "distinct (set_add x xs) = distinct xs"
  by (simp add: set_add_def)

lemma set_set_delete [simp, store_simps]: "set (set_delete x xs) = set xs - {x}"
  by (auto simp: set_delete_def)

lemma distinct_set_delete [simp]: "distinct xs \<Longrightarrow> distinct (set_delete x xs)"
  by (simp add: set_delete_def)

lemma fold_set_add:
  "set (fold set_add xs ys) = set xs \<union> set ys"
  "distinct (fold set_add xs ys) = distinct ys"
  by (induction xs arbitrary: ys) auto

lemma set_of_props [simp]: "set (set_of xs) = set xs" "distinct (set_of xs)"
  by (simp_all add: set_of_def fold_set_add)

lemma fold_set_add_distinct:
  "distinct (ys @ xs) \<Longrightarrow> fold set_add xs ys = ys @ xs"
  by (induction xs arbitrary: ys) (simp_all add: set_add_def)

lemma set_of_distinct: "distinct xs \<Longrightarrow> set_of xs = xs"
  by (simp add: set_of_def fold_set_add_distinct)

section \<open>Maps in insertion order\<close>

abbreviation map_get :: "('k \<times> 'v) list \<Rightarrow> 'k \<Rightarrow> 'v option" where
  "map_get \<equiv> map_of"

abbreviation keys_of :: "('k \<times> 'v) list \<Rightarrow> 'k list" where
  "keys_of m \<equiv> map fst m"

abbreviation values_of :: "('k \<times> 'v) list \<Rightarrow> 'v list" where
  "values_of m \<equiv> map snd m"

fun map_update :: "'k \<Rightarrow> 'v \<Rightarrow> ('k \<times> 'v) list \<Rightarrow> ('k \<times> 'v) list" where
  "map_update k v [] = []"
| "map_update k v (e # es) = (if fst e = k then (k, v) # es else e # map_update k v es)"

definition map_set :: "'k \<Rightarrow> 'v \<Rightarrow> ('k \<times> 'v) list \<Rightarrow> ('k \<times> 'v) list" where
  "map_set k v m = (if k \<in> set (keys_of m) then map_update k v m else m @ [(k, v)])"

definition map_delete :: "'k \<Rightarrow> ('k \<times> 'v) list \<Rightarrow> ('k \<times> 'v) list" where
  "map_delete k m = filter (\<lambda>e. fst e \<noteq> k) m"

lemma keys_map_update [simp]: "keys_of (map_update k v m) = keys_of m"
  by (induction m) auto

lemma map_of_map_update:
  "k \<in> set (keys_of m) \<Longrightarrow> map_of (map_update k v m) = (map_of m)(k \<mapsto> v)"
proof (induction m)
  case Nil
  then show ?case by simp
next
  case (Cons e m)
  then show ?case by (cases "fst e = k") (simp_all add: fun_eq_iff)
qed

lemma set_map_update:
  "distinct (keys_of m) \<Longrightarrow> k \<in> set (keys_of m) \<Longrightarrow>
     set (map_update k v m) = insert (k, v) {e \<in> set m. fst e \<noteq> k}"
  by (induction m) (auto simp: image_iff)

lemma map_of_map_delete: "map_of (map_delete k m) = (map_of m)(k := None)"
  by (induction m) (auto simp: map_delete_def fun_eq_iff)

lemma keys_map_delete [simp]: "keys_of (map_delete k m) = filter (\<lambda>x. x \<noteq> k) (keys_of m)"
  by (induction m) (auto simp: map_delete_def)

lemma set_map_delete [simp]: "set (map_delete k m) = {e \<in> set m. fst e \<noteq> k}"
  by (auto simp: map_delete_def)

section \<open>Plain objects: the order of \<^verbatim>\<open>Object.keys\<close>\<close>

text \<open>
  Property keys that are canonical array indices (\<^verbatim>\<open>"0"\<close>, \<^verbatim>\<open>"12"\<close>, not \<^verbatim>\<open>"007"\<close>,
  below \<open>2 ^ 32 - 1\<close>) are listed first, in numeric order; all others follow in the order of
  their creation.
\<close>

definition is_digit :: "char \<Rightarrow> bool" where
  "is_digit c \<longleftrightarrow> of_char c \<ge> (48 :: nat) \<and> of_char c \<le> (57 :: nat)"

definition digits_val :: "string \<Rightarrow> nat" where
  "digits_val s = foldl (\<lambda>acc c. 10 * acc + (of_char c - 48)) 0 s"

definition is_array_index :: "string \<Rightarrow> bool" where
  "is_array_index s \<longleftrightarrow> s \<noteq> [] \<and> list_all is_digit s \<and> (s = ''0'' \<or> hd s \<noteq> CHR ''0'')
     \<and> digits_val s < 2 ^ 32 - 1"

definition obj_before :: "string \<Rightarrow> string \<times> 'v \<Rightarrow> bool" where
  "obj_before k e \<longleftrightarrow> is_array_index (fst e) \<and> digits_val (fst e) < digits_val k"

definition obj_set :: "string \<Rightarrow> 'v \<Rightarrow> (string \<times> 'v) list \<Rightarrow> (string \<times> 'v) list" where
  "obj_set k v m =
     (if k \<in> set (keys_of m) then map_update k v m
      else if is_array_index k
           then takeWhile (obj_before k) m @ (k, v) # dropWhile (obj_before k) m
           else m @ [(k, v)])"

lemma obj_set_single [simp]: "obj_set k v [(k, u)] = [(k, v)]"
  by (simp add: obj_set_def)

abbreviation obj_get :: "(string \<times> 'v) list \<Rightarrow> string \<Rightarrow> 'v option" where
  "obj_get \<equiv> map_of"

abbreviation obj_delete :: "string \<Rightarrow> (string \<times> 'v) list \<Rightarrow> (string \<times> 'v) list" where
  "obj_delete \<equiv> map_delete"

lemma find_in: "find P xs = Some x \<Longrightarrow> x \<in> set xs \<and> P x"
  by (induction xs) (auto split: if_splits)

lemma map_set_values: "snd ` set (map_set k v m) \<subseteq> insert v (snd ` set m)"
proof -
  have "snd ` set (map_update k v m) \<subseteq> insert v (snd ` set m)" by (induction m) auto
  then show ?thesis by (auto simp: map_set_def)
qed

lemma fold_map_set_values: "snd ` set (fold (\<lambda>x. map_set (f x) (g x)) xs m) \<subseteq> g ` set xs \<union> snd ` set m"
proof (induction xs arbitrary: m)
  case (Cons x xs)
  show ?case using Cons [of "map_set (f x) (g x) m"] map_set_values [of "f x" "g x" m] by auto
qed simp

lemma fold_keeps: "(\<And>x m. P m \<Longrightarrow> P (f x m)) \<Longrightarrow> P m \<Longrightarrow> P (fold f xs m)"
  by (induction xs arbitrary: m) auto

section \<open>What the code relies on of a keyed store\<close>

locale keyed_store =
  fixes put :: "'k \<Rightarrow> 'v \<Rightarrow> ('k \<times> 'v) list \<Rightarrow> ('k \<times> 'v) list"
    and del :: "'k \<Rightarrow> ('k \<times> 'v) list \<Rightarrow> ('k \<times> 'v) list"
  assumes get_put: "map_of (put k v m) = (map_of m)(k \<mapsto> v)"
    and get_del: "map_of (del k m) = (map_of m)(k := None)"
    and set_keys_put: "set (keys_of (put k v m)) = insert k (set (keys_of m))"
    and distinct_put: "distinct (keys_of m) \<Longrightarrow> distinct (keys_of (put k v m))"
    and distinct_del: "distinct (keys_of m) \<Longrightarrow> distinct (keys_of (del k m))"
begin

text \<open>Entries after an update, for a store with distinct keys.\<close>

lemma entries_put:
  assumes "distinct (keys_of m)"
  shows "set (put k v m) = insert (k, v) {e \<in> set m. fst e \<noteq> k}"
proof -
  have "(a, b) \<in> set (put k v m) \<longleftrightarrow> (a, b) \<in> insert (k, v) {e \<in> set m. fst e \<noteq> k}" for a b
    using map_of_eq_Some_iff [OF distinct_put [OF assms], of k v a b]
      map_of_eq_Some_iff [OF assms, of a b]
    by (cases "a = k") (auto simp: get_put)
  then show ?thesis by auto
qed

lemma values_put:
  assumes "distinct (keys_of m)"
  shows "set (values_of (put k v m)) = insert v {x. \<exists>j. (j, x) \<in> set m \<and> j \<noteq> k}"
  using entries_put [OF assms, of k v] by (force simp: image_iff)

lemma mset_put:
  assumes "distinct (keys_of m)"
  shows "mset (put k v m) = add_mset (k, v) (mset (filter (\<lambda>e. fst e \<noteq> k) m))"
proof -
  have "mset (put k v m) = mset_set (insert (k, v) {e \<in> set m. fst e \<noteq> k})"
    using mset_set_set [of "put k v m"] distinct_put [OF assms, of k v] by (simp add: entries_put [OF assms] distinct_map)
  also have "\<dots> = add_mset (k, v) (mset_set {e \<in> set m. fst e \<noteq> k})" by simp
  also have "mset_set {e \<in> set m. fst e \<noteq> k} = mset (filter (\<lambda>e. fst e \<noteq> k) m)"
    using mset_set_set [of "filter (\<lambda>e. fst e \<noteq> k) m"] assms by (simp add: distinct_map)
  finally show ?thesis .
qed

text \<open>Putting a list of entries: the keys it holds, and that later entries win.\<close>

lemma fold_put_keys:
  "set (keys_of (fold (\<lambda>x. put (key x) (val x)) xs m)) = key ` set xs \<union> set (keys_of m)"
proof (induction xs arbitrary: m)
  case Nil
  then show ?case by simp
next
  case (Cons x xs)
  then show ?case by (simp add: set_keys_put del: set_map)
qed

lemma fold_put_distinct:
  "distinct (keys_of m) \<Longrightarrow> distinct (keys_of (fold (\<lambda>x. put (key x) (val x)) xs m))"
  by (induction xs arbitrary: m) (simp_all add: distinct_put)

lemma fold_put_get_other:
  "k \<notin> key ` set xs \<Longrightarrow> map_of (fold (\<lambda>x. put (key x) (val x)) xs m) k = map_of m k"
  by (induction xs arbitrary: m) (simp_all add: get_put)

lemma fold_put_get_last:
  assumes "x \<in> set xs" and "\<And>y. y \<in> set xs \<Longrightarrow> key y = key x \<Longrightarrow> val y = val x"
  shows "map_of (fold (\<lambda>x. put (key x) (val x)) xs m) (key x) = Some (val x)"
  using assms
proof (induction xs rule: rev_induct)
  case Nil
  then show ?case by simp
next
  case (snoc y ys)
  show ?case
  proof (cases "key y = key x")
    case True
    with snoc.prems(2) [of y] show ?thesis by (simp add: get_put)
  next
    case False
    with snoc.prems(1) have x: "x \<in> set ys" by auto
    have "\<And>z. z \<in> set ys \<Longrightarrow> key z = key x \<Longrightarrow> val z = val x"
      using snoc.prems(2) by simp
    from snoc.IH [OF x this] False show ?thesis by (simp add: get_put)
  qed
qed

lemma fold_put_get_inj:
  assumes "inj_on key (set xs)"
  shows "map_of (fold (\<lambda>x. put (key x) (val x)) xs []) k = Some v \<longleftrightarrow> (\<exists>x \<in> set xs. key x = k \<and> val x = v)"
proof (cases "k \<in> key ` set xs")
  case True
  then obtain x where x: "x \<in> set xs" "k = key x" by blast
  have "y = x" if "y \<in> set xs" "key y = key x" for y using that x(1) assms by (auto dest: inj_onD)
  then have "map_of (fold (\<lambda>x. put (key x) (val x)) xs []) (key x) = Some (val x)"
    using fold_put_get_last [OF x(1), of key val "[]"] by blast
  with \<open>\<And>y. y \<in> set xs \<Longrightarrow> key y = key x \<Longrightarrow> y = x\<close> x show ?thesis by auto
next
  case False
  with fold_put_get_other [OF False, of val "[]"] show ?thesis by auto
qed

end

lemma map_of_insert_middle:
  "k \<notin> set (keys_of (xs @ ys)) \<Longrightarrow> map_of (xs @ (k, v) # ys) = (map_of (xs @ ys))(k \<mapsto> v)"
  by (induction xs) (auto simp: fun_upd_twist)

text \<open>The entry of a key, and the others.\<close>

lemma mset_split_key:
  assumes "distinct (keys_of m)"
  shows "mset m = (case map_of m k of None \<Rightarrow> {#} | Some v \<Rightarrow> {#(k, v)#}) + mset (filter (\<lambda>e. fst e \<noteq> k) m)"
  using assms
proof (induction m)
  case (Cons e m)
  show ?case
  proof (cases "fst e = k")
    case True
    then have "k \<notin> set (keys_of m)" using Cons.prems by auto
    then have "filter (\<lambda>e. fst e \<noteq> k) m = m" by (intro filter_True) force
    with True show ?thesis by (cases e) simp
  next
    case False
    with Cons show ?thesis by (cases e) auto
  qed
qed simp

interpretation js_map: keyed_store map_set map_delete
proof (unfold_locales, goal_cases)
  case (1 k v m)
  have "k \<notin> set (keys_of m) \<Longrightarrow> map_of (m @ [(k, v)]) = (map_of (m @ []))(k \<mapsto> v)"
    by (intro map_of_insert_middle) simp
  then show ?case by (simp add: map_set_def map_of_map_update del: map_of_append)
next
  case (2 k m)
  then show ?case by (rule map_of_map_delete)
next
  case (3 k v m)
  then show ?case by (auto simp: map_set_def simp del: set_map)
next
  case (4 m k v)
  then show ?case by (auto simp: map_set_def simp del: set_map)
next
  case (5 m k)
  then show ?case by simp
qed

lemma distinct_insert_middle:
  "distinct (xs @ ys) \<Longrightarrow> k \<notin> set (xs @ ys) \<Longrightarrow> distinct (xs @ k # ys)"
  by auto

interpretation js_obj: keyed_store obj_set map_delete
proof (unfold_locales, goal_cases)
  case (1 k v m)
  show ?case
  proof (cases "k \<in> set (keys_of m)")
    case True
    then show ?thesis by (simp add: obj_set_def map_of_map_update)
  next
    case False
    let ?t = "takeWhile (obj_before k) m" and ?d = "dropWhile (obj_before k) m"
    have "map_of (?t @ (k, v) # ?d) = (map_of (?t @ ?d))(k \<mapsto> v)"
      using False by (intro map_of_insert_middle) simp
    moreover have "map_of (m @ [(k, v)]) = (map_of (m @ []))(k \<mapsto> v)"
      using False by (intro map_of_insert_middle) simp
    ultimately show ?thesis using False by (simp add: obj_set_def del: map_of_append)
  qed
next
  case (2 k m)
  then show ?case by (rule map_of_map_delete)
next
  case (3 k v m)
  let ?t = "keys_of (takeWhile (obj_before k) m)" and ?d = "keys_of (dropWhile (obj_before k) m)"
  have "?t @ ?d = keys_of m" by (simp flip: map_append)
  then have "set (?t @ k # ?d) = insert k (set (keys_of m))"
    by (metis Un_insert_right list.simps(15) set_append)
  then show ?case by (auto simp: obj_set_def simp del: set_map)
next
  case (4 m k v)
  let ?t = "keys_of (takeWhile (obj_before k) m)" and ?d = "keys_of (dropWhile (obj_before k) m)"
  have td: "?t @ ?d = keys_of m" by (simp flip: map_append)
  have "k \<notin> set (keys_of m) \<Longrightarrow> distinct (?t @ k # ?d)"
    using 4 td by (metis distinct_insert_middle)
  with 4 show ?case by (auto simp: obj_set_def simp del: set_map)
next
  case (5 m k)
  then show ?case by simp
qed

text \<open>An object or array whose keys are indices: \<^verbatim>\<open>Object.keys\<close> lists them in ascending order.\<close>

definition idx_set :: "nat \<Rightarrow> 'v \<Rightarrow> (nat \<times> 'v) list \<Rightarrow> (nat \<times> 'v) list" where
  "idx_set k v m =
     (if k \<in> set (keys_of m) then map_update k v m
      else takeWhile (\<lambda>e. fst e < k) m @ (k, v) # dropWhile (\<lambda>e. fst e < k) m)"

interpretation js_idx: keyed_store idx_set map_delete
proof (unfold_locales, goal_cases)
  case (1 k v m)
  have "k \<notin> set (keys_of m) \<Longrightarrow> map_of (takeWhile (\<lambda>e. fst e < k) m @ (k, v) # dropWhile (\<lambda>e. fst e < k) m)
      = (map_of (takeWhile (\<lambda>e. fst e < k) m @ dropWhile (\<lambda>e. fst e < k) m))(k \<mapsto> v)"
    by (intro map_of_insert_middle) simp
  then show ?case by (simp add: idx_set_def map_of_map_update del: map_of_append)
next
  case (2 k m)
  then show ?case by (rule map_of_map_delete)
next
  case (3 k v m)
  let ?t = "keys_of (takeWhile (\<lambda>e. fst e < k) m)" and ?d = "keys_of (dropWhile (\<lambda>e. fst e < k) m)"
  have "?t @ ?d = keys_of m" by (simp flip: map_append)
  then have "set (?t @ k # ?d) = insert k (set (keys_of m))"
    by (metis Un_insert_right list.simps(15) set_append)
  then show ?case by (auto simp: idx_set_def simp del: set_map)
next
  case (4 m k v)
  let ?t = "keys_of (takeWhile (\<lambda>e. fst e < k) m)" and ?d = "keys_of (dropWhile (\<lambda>e. fst e < k) m)"
  have td: "?t @ ?d = keys_of m" by (simp flip: map_append)
  have "k \<notin> set (keys_of m) \<Longrightarrow> distinct (?t @ k # ?d)"
    using 4 td by (metis distinct_insert_middle)
  with 4 show ?case by (auto simp: idx_set_def simp del: set_map)
next
  case (5 m k)
  then show ?case by simp
qed

lemmas map_store_simps [store_simps] =
  js_map.get_put js_map.get_del js_map.set_keys_put js_map.distinct_put js_map.distinct_del

lemmas obj_store_simps [store_simps] =
  js_obj.get_put js_obj.set_keys_put js_obj.distinct_put

section \<open>Depth-first collection\<close>

text \<open>
  Several routines of the program collect what is reachable in a graph by the same
  recursion: go through a list of edges; skip an edge whose target was collected already;
  otherwise add the target to the (shared, mutable) set, collect from the edges that leave
  the target, and go on with the rest. The locale fixes such a routine \<open>loop\<close> by its
  recursion equations and states what it needs of the graph: a finite universe in which
  looking up the outgoing edges never throws and never leads outside.
\<close>

locale graph_search =
  fixes loop :: "'g \<Rightarrow> 'e list \<Rightarrow> 'a list \<Rightarrow> 'a list res"
    and tgt :: "'e \<Rightarrow> 'a"
    and succs :: "'g \<Rightarrow> 'a \<Rightarrow> 'e list res"
    and univ :: "'g \<Rightarrow> 'a set"
    and invar :: "'g \<Rightarrow> bool"
  assumes loop_Nil: "loop g [] S = Inr S"
    and loop_Cons: "loop g (c # cs) S =
          (if tgt c \<in> set S then loop g cs S
           else bind_res (succs g (tgt c)) (\<lambda>ds.
                bind_res (loop g ds (S @ [tgt c])) (loop g cs)))"
    and finite_univ: "invar g \<Longrightarrow> finite (univ g)"
    and succs_total: "invar g \<Longrightarrow> x \<in> univ g \<Longrightarrow>
          \<exists>ds. succs g x = Inr ds \<and> tgt ` set ds \<subseteq> univ g"
begin

definition edges :: "'g \<Rightarrow> ('a \<times> 'a) set" where
  "edges g = {(x, y). \<exists>ds d. succs g x = Inr ds \<and> d \<in> set ds \<and> y = tgt d}"

lemma edgesI: "succs g x = Inr ds \<Longrightarrow> d \<in> set ds \<Longrightarrow> (x, tgt d) \<in> edges g"
  by (auto simp: edges_def)

text \<open>What one run of the loop does, from any set collected so far.\<close>

definition run_ok :: "'g \<Rightarrow> 'e list \<Rightarrow> 'a list \<Rightarrow> 'a list \<Rightarrow> bool" where
  "run_ok g cs S R \<longleftrightarrow> distinct R \<and> set S \<subseteq> set R \<and> set R \<subseteq> univ g \<and> tgt ` set cs \<subseteq> set R
     \<and> set R \<subseteq> set S \<union> (edges g)\<^sup>* `` (tgt ` set cs)
     \<and> (\<forall>x y. x \<in> set R - set S \<longrightarrow> (x, y) \<in> edges g \<longrightarrow> y \<in> set R)"

lemma run_ok_closed:
  assumes "run_ok g cs S R" and "x \<in> set R" and "x \<notin> set S" and "(x, y) \<in> edges g"
  shows "y \<in> set R"
  using assms by (simp add: run_ok_def)

lemma run_ok_subset:
  assumes "run_ok g cs S R"
  shows "set S \<subseteq> set R" and "tgt ` set cs \<subseteq> set R" and "set R \<subseteq> univ g" and "distinct R"
  using assms by (simp_all add: run_ok_def)

lemma run_ok_skip:
  "run_ok g cs S R \<Longrightarrow> tgt c \<in> set S \<Longrightarrow> run_ok g (c # cs) S R"
proof -
  assume R: "run_ok g cs S R" and c: "tgt c \<in> set S"
  have "(edges g)\<^sup>* `` (tgt ` set cs) \<subseteq> (edges g)\<^sup>* `` (tgt ` set (c # cs))"
    by (rule Image_mono) auto
  with R c show ?thesis unfolding run_ok_def by (simp add: subset_iff) metis
qed

lemma run_ok_step:
  assumes ds: "succs g (tgt c) = Inr ds" and new: "tgt c \<notin> set S"
    and R1: "run_ok g ds (S @ [tgt c]) R1" and R: "run_ok g cs R1 R"
  shows "run_ok g (c # cs) S R"
proof -
  let ?E = "(edges g)\<^sup>*" and ?x = "tgt c"
  define A where "A = ?E `` {?x}"
  define B where "B = ?E `` (tgt ` set cs)"
  have AB: "A \<union> B = ?E `` (tgt ` set (c # cs))" "?x \<in> A" by (auto simp: A_def B_def)
  define D where "D = ?E `` (tgt ` set ds)"
  have "D \<subseteq> A"
    unfolding A_def D_def using ds by (auto intro: converse_rtrancl_into_rtrancl edgesI)
  moreover have "set R1 \<subseteq> insert ?x (set S \<union> D)"
    using R1 unfolding run_ok_def D_def by simp
  ultimately have "set R1 \<subseteq> set S \<union> A" using AB(2) by auto
  moreover have "set R \<subseteq> set R1 \<union> B" using R unfolding run_ok_def B_def by simp
  ultimately have "set R \<subseteq> set S \<union> (A \<union> B)" by auto
  then have reach: "set R \<subseteq> set S \<union> ?E `` (tgt ` set (c # cs))" by (simp only: AB(1))
  have closed: "y \<in> set R" if "x \<in> set R - set S" "(x, y) \<in> edges g" for x y
  proof (cases "x \<in> set R1")
    case False
    with that R show ?thesis by (auto intro: run_ok_closed)
  next
    case True
    have "y \<in> set R1"
    proof (cases "x = ?x")
      case True
      with that ds have "y \<in> tgt ` set ds" by (auto simp: edges_def)
      with run_ok_subset(2) [OF R1] show ?thesis by auto
    next
      case False
      with \<open>x \<in> set R1\<close> that show ?thesis using run_ok_closed [OF R1] by simp
    qed
    with run_ok_subset(1) [OF R] show ?thesis by auto
  qed
  have "set S \<subseteq> set R1" "?x \<in> set R1" using R1 unfolding run_ok_def by simp_all
  moreover have "distinct R" "set R1 \<subseteq> set R" "set R \<subseteq> univ g" "tgt ` set cs \<subseteq> set R"
    using R unfolding run_ok_def by simp_all
  ultimately show ?thesis using reach closed unfolding run_ok_def by (auto simp del: Un_iff)
qed

lemma loop_run_ok:
  assumes "invar g" and "tgt ` set cs \<subseteq> univ g" and "set S \<subseteq> univ g" and "distinct S"
  shows "\<exists>R. loop g cs S = Inr R \<and> run_ok g cs S R"
  using assms(2-)
proof (induction "card (univ g - set S)" arbitrary: cs S rule: less_induct)
  case less
  from less.prems show ?case
  proof (induction cs)
    case Nil
    then show ?case by (auto simp: loop_Nil run_ok_def)
  next
    case (Cons c cs)
    show ?case
    proof (cases "tgt c \<in> set S")
      case True
      with Cons show ?thesis by (auto simp: loop_Cons intro: run_ok_skip)
    next
      case False
      from Cons.prems have c: "tgt c \<in> univ g" by simp
      from succs_total [OF assms(1) this] obtain ds
        where ds: "succs g (tgt c) = Inr ds" "tgt ` set ds \<subseteq> univ g" by blast
      have "univ g - set (S @ [tgt c]) \<subset> univ g - set S" using c False by auto
      then have "card (univ g - set (S @ [tgt c])) < card (univ g - set S)"
        by (intro psubset_card_mono) (simp_all add: finite_univ assms(1))
      from less.hyps [OF this ds(2)] Cons.prems c False obtain R1
        where R1: "loop g ds (S @ [tgt c]) = Inr R1" "run_ok g ds (S @ [tgt c]) R1" by auto
      have sub: "set (S @ [tgt c]) \<subseteq> set R1" "set R1 \<subseteq> univ g" "distinct R1"
        using R1(2) unfolding run_ok_def by simp_all
      then have "univ g - set R1 \<subset> univ g - set S" using c False by auto
      then have "card (univ g - set R1) < card (univ g - set S)"
        by (intro psubset_card_mono) (simp_all add: finite_univ assms(1))
      moreover have "tgt ` set cs \<subseteq> univ g" using Cons.prems by simp
      ultimately have "\<exists>R. loop g cs R1 = Inr R \<and> run_ok g cs R1 R"
        using sub(2,3) by (rule less.hyps)
      then obtain R where R: "loop g cs R1 = Inr R" "run_ok g cs R1 R" by blast
      have "loop g (c # cs) S = Inr R" using R1(1) R(1) ds(1) False by (simp add: loop_Cons)
      with run_ok_step [OF ds(1) False R1(2) R(2)] show ?thesis by blast
    qed
  qed
qed

theorem search_reachable:
  assumes "invar g" and "tgt ` set cs \<subseteq> univ g"
  shows "\<exists>R. loop g cs [] = Inr R \<and> distinct R \<and> set R = (edges g)\<^sup>* `` (tgt ` set cs)"
proof -
  from loop_run_ok [OF assms, of "[]"] obtain R
    where R: "loop g cs [] = Inr R" "run_ok g cs [] R" by auto
  have "y \<in> set R" if "(x, y) \<in> (edges g)\<^sup>*" "x \<in> set R" for x y
    using that R(2) by induction (auto simp: run_ok_def)
  then have "(edges g)\<^sup>* `` (tgt ` set cs) \<subseteq> set R"
    using run_ok_subset(2) [OF R(2)] by (auto elim!: ImageE)
  moreover have "set R \<subseteq> (edges g)\<^sup>* `` (tgt ` set cs)" "distinct R"
    using R(2) unfolding run_ok_def by simp_all
  ultimately show ?thesis using R(1) by blast
qed

end

section \<open>Paths\<close>

text \<open>A path that leaves \<open>x\<close> does so a last time.\<close>

lemma last_visit:
  assumes "(x, n) \<in> r\<^sup>*" and "n \<noteq> x"
  shows "\<exists>b. (x, b) \<in> r \<and> (b, n) \<in> {(a, c) \<in> r. a \<noteq> x}\<^sup>*"
  using assms
proof induction
  case base
  then show ?case by simp
next
  case (step y z)
  show ?case
  proof (cases "y = x")
    case True
    with step show ?thesis by blast
  next
    case False
    with step obtain b where "(x, b) \<in> r" "(b, y) \<in> {(a, c) \<in> r. a \<noteq> x}\<^sup>*" by blast
    moreover have "(y, z) \<in> {(a, c) \<in> r. a \<noteq> x}" using step(2) False by simp
    ultimately show ?thesis by (meson rtrancl.rtrancl_into_rtrancl)
  qed
qed

text \<open>The edges of a relation that do not leave a node of \<open>X\<close>.\<close>

abbreviation avoiding :: "('a \<times> 'a) set \<Rightarrow> 'a set \<Rightarrow> ('a \<times> 'a) set" where
  "avoiding r X \<equiv> {(a, b) \<in> r. a \<notin> X}"

text \<open>A path into \<open>y\<close> arrives there a first time.\<close>

lemma first_visit:
  assumes "(x, y) \<in> r\<^sup>*" and "x \<noteq> y"
  shows "\<exists>b. (b, y) \<in> r \<and> b \<noteq> y \<and> (x, b) \<in> (avoiding r {y})\<^sup>*"
  using assms
proof (induction rule: converse_rtrancl_induct)
  case base
  then show ?case by simp
next
  case (step x z)
  show ?case
  proof (cases "z = y")
    case True
    with step show ?thesis by blast
  next
    case False
    with step obtain b where "(b, y) \<in> r" "b \<noteq> y" "(z, b) \<in> (avoiding r {y})\<^sup>*" by blast
    moreover have "(x, z) \<in> avoiding r {y}" using step by simp
    ultimately show ?thesis by (meson converse_rtrancl_into_rtrancl)
  qed
qed

section \<open>Sorting with a comparator\<close>

text \<open>
  \<^verbatim>\<open>Array.prototype.sort\<close> is stable: an element stays before the later elements that do not compare as less. Like
  the merge sort of the engine it only asks whether the comparator is negative, so that it sorts whenever
  this is an order, also for a comparator that answers 0 instead of a positive number.
\<close>

fun sort_insert :: "('a \<Rightarrow> 'a \<Rightarrow> int) \<Rightarrow> 'a \<Rightarrow> 'a list \<Rightarrow> 'a list" where
  "sort_insert cmp x [] = [x]"
| "sort_insert cmp x (y # ys) = (if cmp y x < 0 then y # sort_insert cmp x ys else x # y # ys)"

definition js_sort :: "('a \<Rightarrow> 'a \<Rightarrow> int) \<Rightarrow> 'a list \<Rightarrow> 'a list" where
  "js_sort cmp xs = foldr (sort_insert cmp) xs []"

lemma mset_sort_insert [simp]: "mset (sort_insert cmp x xs) = add_mset x (mset xs)"
  by (induction xs) auto

lemma mset_js_sort [simp]: "mset (js_sort cmp xs) = mset xs"
  unfolding js_sort_def by (induction xs) auto

lemma set_js_sort [simp]: "set (js_sort cmp xs) = set xs"
  by (metis mset_js_sort set_mset_mset)

lemma js_sort_sort_key:
  fixes key :: "'a \<Rightarrow> 'k :: linorder"
  assumes "\<And>a b. cmp a b < 0 \<longleftrightarrow> key a < key b"
  shows "js_sort cmp xs = sort_key key xs"
proof -
  have "sort_insert cmp x ys = insort_key key x ys" for x ys
    by (induction ys) (auto simp: assms not_less)
  then have "sort_insert cmp = insort_key key" by (simp add: fun_eq_iff)
  then show ?thesis by (simp add: js_sort_def sort_key_def)
qed

section \<open>Strings\<close>

text \<open>\<^verbatim>\<open>trim\<close> and \<^verbatim>\<open>toLowerCase\<close> on characters below 256.\<close>

definition is_space :: "char \<Rightarrow> bool" where
  "is_space c \<longleftrightarrow> (of_char c :: nat) \<in> {9, 10, 11, 12, 13, 32, 160}"

definition trim :: "string \<Rightarrow> string" where
  "trim s = rev (dropWhile is_space (rev (dropWhile is_space s)))"

definition is_upper :: "char \<Rightarrow> bool" where
  "is_upper c \<longleftrightarrow> (let n = of_char c :: nat in n \<ge> 65 \<and> n \<le> 90 \<or> n \<ge> 192 \<and> n \<le> 222 \<and> n \<noteq> 215)"

definition toLowerCase :: "string \<Rightarrow> string" where
  "toLowerCase s = map (\<lambda>c. if is_upper c then char_of (of_char c + (32 :: nat)) else c) s"

lemma trim_trim [simp]: "trim (trim s) = trim s"
proof -
  have idem: "dropWhile is_space (dropWhile is_space t) = dropWhile is_space t" for t by (induction t) auto
  have "dropWhile is_space (rev (dropWhile is_space (rev t))) = rev (dropWhile is_space (rev t))" if "dropWhile is_space t = t" for t
    using that by (induction t rule: rev_induct) (auto simp: dropWhile_append split: if_splits)
  with idem show ?thesis unfolding trim_def by (metis rev_rev_ident)
qed

section \<open>Numbers in template literals\<close>

text \<open>The decimal digits of a natural number, as string interpolation prints it.\<close>

definition digit_chars :: string where
  "digit_chars = ''0123456789''"

fun nat_str :: "nat \<Rightarrow> string" where
  "nat_str n = (if n < 10 then [digit_chars ! n] else nat_str (n div 10) @ [digit_chars ! (n mod 10)])"

declare nat_str.simps [simp del]

lemma digit_chars_eq: "d < 10 \<Longrightarrow> e < 10 \<Longrightarrow> digit_chars ! d = digit_chars ! e \<longleftrightarrow> d = e"
  by (rule nth_eq_iff_index_eq) (simp_all add: digit_chars_def)

lemma nat_str_digits: "set (nat_str n) \<subseteq> set digit_chars"
proof (induction n rule: nat_str.induct)
  case (1 n)
  have d: "k < 10 \<Longrightarrow> digit_chars ! k \<in> set digit_chars" for k
    by (rule nth_mem) (simp add: digit_chars_def)
  show ?case
    using "1.IH" d [of n] d [of "n mod 10"]
    by (cases "n < 10") (simp_all add: nat_str.simps [of n])
qed

lemma nat_str_no_dash: "CHR ''-'' \<notin> set (nat_str n)"
  using nat_str_digits [of n] by (auto simp: digit_chars_def)

lemma nat_str_length1: "length (nat_str n) = 1 \<longleftrightarrow> n < 10"
proof (cases "n < 10")
  case True
  then show ?thesis by (simp add: nat_str.simps [of n])
next
  case False
  have "nat_str (n div 10) \<noteq> []" by (simp add: nat_str.simps [of "n div 10"])
  with False show ?thesis by (simp add: nat_str.simps [of n])
qed

lemma nat_str_inject [simp]: "nat_str m = nat_str n \<longleftrightarrow> m = n"
proof (induction m arbitrary: n rule: nat_str.induct)
  case (1 m)
  consider (small) "m < 10" "n < 10" | (mixed) "(m < 10) \<noteq> (n < 10)" | (big) "\<not> m < 10" "\<not> n < 10"
    by blast
  then show ?case
  proof cases
    case small
    then show ?thesis by (simp add: nat_str.simps [of m] nat_str.simps [of n] digit_chars_eq)
  next
    case mixed
    then show ?thesis using nat_str_length1 [of m] nat_str_length1 [of n] by auto
  next
    case big
    then have "nat_str m = nat_str n \<longleftrightarrow> nat_str (m div 10) = nat_str (n div 10) \<and> m mod 10 = n mod 10"
      by (simp add: nat_str.simps [of m] nat_str.simps [of n] digit_chars_eq)
    also have "\<dots> \<longleftrightarrow> m div 10 = n div 10 \<and> m mod 10 = n mod 10"
      using "1.IH" big by simp
    also have "\<dots> \<longleftrightarrow> m = n" by (metis div_mult_mod_eq)
    finally show ?thesis .
  qed
qed

section \<open>State machines\<close>

text \<open>
  An initial state, a step relation and an invariant; a refinement adds an abstraction function
  that maps every step to an abstract step.
\<close>

locale state_machine =
  fixes start :: 's
    and step :: "'s \<Rightarrow> 's \<Rightarrow> bool"
    and inv :: "'s \<Rightarrow> bool"
  assumes start_inv: "inv start"
    and step_inv: "step s t \<Longrightarrow> inv s \<Longrightarrow> inv t"
begin

lemma reach_inv: "step\<^sup>*\<^sup>* start s \<Longrightarrow> inv s"
  by (induction rule: rtranclp_induct) (auto intro: start_inv step_inv)

end

text \<open>
  Machines driven by labels, with an output in every step: a simulation carries the outputs of every sequence of labels from the abstract
  machine to the concrete one.
\<close>

fun run_all :: "('l \<Rightarrow> 's \<Rightarrow> 's \<times> 'o) \<Rightarrow> 'l list \<Rightarrow> 's \<Rightarrow> 's \<times> 'o list" where
  "run_all perform [] s = (s, [])"
| "run_all perform (l # ls) s = (let (t, x) = perform l s; (u, xs) = run_all perform ls t in (u, x # xs))"

locale refined_machine = state_machine start step inv
  for start :: 's and step :: "'s \<Rightarrow> 's \<Rightarrow> bool" and inv :: "'s \<Rightarrow> bool" +
  fixes perform :: "'l \<Rightarrow> 's \<Rightarrow> 's \<times> 'o"
    and abs_of :: "'s \<Rightarrow> 'a"
    and aperform :: "'l \<Rightarrow> 'a \<Rightarrow> 'a \<times> 'o"
  assumes performs: "step\<^sup>*\<^sup>* s (fst (perform l s))"
    and simulates: "inv s \<Longrightarrow> aperform l (abs_of s) = map_prod abs_of id (perform l s)"
begin

lemma run_refines:
  assumes "step\<^sup>*\<^sup>* start s"
  shows "run_all aperform ls (abs_of s) = map_prod abs_of id (run_all perform ls s)"
  using assms
proof (induction ls arbitrary: s)
  case (Cons l ls)
  have "step\<^sup>*\<^sup>* start (fst (perform l s))" using Cons.prems performs by (rule rtranclp_trans)
  from Cons.IH [OF this] simulates [OF reach_inv [OF Cons.prems], of l] show ?case
    by (simp add: case_prod_beta map_prod_def)
qed simp

end

end
