(* ===== verification/Workflow_Types.thy ===== *)
theory Workflow_Types
  imports N8n_Prelude
begin

text \<open>
  The data of \<^verbatim>\<open>packages/workflow/src/interfaces.ts\<close> that the components share: nodes,
  connections, run data, pin data, waiting executions.

  Conventions. A JavaScript number that is an index or a count is a \<open>nat\<close>; a number that is
  only stored and compared is a \<open>rat\<close>. A connection type is the string the code uses as a
  property key (\<^verbatim>\<open>'main'\<close>, \<^verbatim>\<open>'ai_tool'\<close>, ...). A property that may be absent is an
  \<open>option\<close>. Property names that every object inherits from \<^verbatim>\<open>Object.prototype\<close> are not
  used as node names.

  Object identity. A node value carries the address \<open>node_ref\<close> of the object it stands for;
  all node values of a run are read from one heap, so two of them are the same object
  (\<^verbatim>\<open>===\<close>) exactly when they are equal records.
\<close>

section \<open>Values\<close>

datatype jsval =
    JUndefined
  | JNull
  | JBool bool
  | JNum rat
  | JStr string
  | JArr "jsval list"
  | JObj "(string \<times> jsval) list"

type_synonym IDataObject = "(string \<times> jsval) list"

section \<open>Nodes\<close>

record INode =
  node_ref :: nat
  node_id :: string
  node_name :: string
  node_typeVersion :: rat
  node_type :: string
  node_position :: "rat \<times> rat"
  node_disabled :: "bool option"
  node_executeOnce :: "bool option"
  node_alwaysOutputData :: "bool option"
  node_retryOnFail :: "bool option"
  node_maxTries :: "int option"
  node_onError :: "string option"
  node_continueOnFail :: "bool option"
  node_parameters :: IDataObject
  node_credentials :: "(string \<times> jsval) list option"
  node_rewireOutputLogTo :: "string option"
  node_forceCustomOperation :: "IDataObject option"

text \<open>JavaScript's truthiness of the optional flag \<^verbatim>\<open>disabled\<close>.\<close>

definition is_disabled :: "INode \<Rightarrow> bool" where
  "is_disabled n \<longleftrightarrow> node_disabled n = Some True"

type_synonym INodes = "(string \<times> INode) list"

section \<open>Connections\<close>

abbreviation Main :: string where
  "Main \<equiv> ''main''"

abbreviation AiTool :: string where
  "AiTool \<equiv> ''ai_tool''"

record IConnection =
  con_node :: string
  con_type :: string
  con_index :: nat

text \<open>
  An entry of \<^verbatim>\<open>NodeInputConnections\<close> is an array of connections or \<^verbatim>\<open>null\<close>; a hole of a
  sparse array reads as \<^verbatim>\<open>undefined\<close>, which the code treats as it treats \<^verbatim>\<open>null\<close>, so both are
  \<open>None\<close>.
\<close>

type_synonym NodeInputConnections = "IConnection list option list"
type_synonym INodeConnections = "(string \<times> NodeInputConnections) list"
type_synonym IConnections = "(string \<times> INodeConnections) list"

section \<open>Run data\<close>

text \<open>
  An element of an array that may be sparse: a hole, which reads as \<^verbatim>\<open>undefined\<close>, \<^verbatim>\<open>null\<close>, or a value. The
  engine distinguishes the first two (\<^verbatim>\<open>=== null\<close>).
\<close>

datatype 'a cell = Hole | Null | Cell 'a

definition cell_get :: "'a cell list \<Rightarrow> nat \<Rightarrow> 'a cell" where
  "cell_get xs i = (if i < length xs then xs ! i else Hole)"

definition cell_set :: "nat \<Rightarrow> 'a cell \<Rightarrow> 'a cell list \<Rightarrow> 'a cell list" where
  "cell_set i v xs =
     (if i < length xs then xs[i := v] else xs @ replicate (i - length xs) Hole @ [v])"

text \<open>\<^verbatim>\<open>c ?? null\<close>, and a value or \<^verbatim>\<open>null\<close> as an element.\<close>

fun cell_option :: "'a cell \<Rightarrow> 'a option" where
  "cell_option (Cell x) = Some x"
| "cell_option Hole = None"
| "cell_option Null = None"

fun option_cell :: "'a option \<Rightarrow> 'a cell" where
  "option_cell (Some x) = Cell x"
| "option_cell None = Null"

lemma cell_get_set [simp]: "cell_get (cell_set i v xs) j = (if j = i then v else cell_get xs j)"
  by (auto simp: cell_get_def cell_set_def nth_append nth_Cons' nth_list_update)

lemma length_cell_set [simp]: "length (cell_set i v xs) = max (length xs) (Suc i)"
  by (simp add: cell_set_def max_def)

lemma cell_get_Nil [simp]: "cell_get [] i = Hole"
  by (simp add: cell_get_def)

text \<open>An item is an object with the properties \<^verbatim>\<open>json\<close>, \<^verbatim>\<open>pairedItem\<close>, \<^verbatim>\<open>error\<close> and others.\<close>

type_synonym INodeExecutionData = IDataObject
type_synonym ITaskDataConnections = "(string \<times> INodeExecutionData list cell list) list"

record ISourceData =
  src_previousNode :: string
  src_previousNodeOutput :: "nat option"
  src_previousNodeRun :: "nat option"

type_synonym ITaskDataConnectionsSource = "(string \<times> ISourceData cell list) list"

datatype execution_status = StatusCanceled | StatusCrashed | StatusError | StatusNew | StatusRunning | StatusSuccess
  | StatusUnknown | StatusWaiting

text \<open>What a node asks the engine to run for it, and the metadata of a run; \<open>tm_other\<close> holds the properties that the engine does not read.\<close>

record EngineAction =
  ea_nodeName :: string
  ea_input :: IDataObject
  ea_type :: string
  ea_id :: string
  ea_parentNodeName :: "string option"
  ea_itemIndex :: "nat option"

record EngineRequest =
  er_actions :: "EngineAction list"
  er_metadata :: jsval

record SubNodeExecutionDataAction =
  sna_action :: EngineAction
  sna_nodeName :: string
  sna_runIndex :: nat

record ITaskMetadata =
  tm_subNodeExecutionData :: "(SubNodeExecutionDataAction list \<times> jsval) option"
  tm_preserveSourceOverwrite :: "bool option"
  tm_preservedSourceOverwrite :: "jsval option"
  tm_nodeWasResumed :: "bool option"
  tm_other :: IDataObject

record ExecutionError =
  err_name :: string
  err_message :: string

record ITaskData =
  td_executionIndex :: "nat option"
  td_source :: "ISourceData cell list"
  td_executionStatus :: "execution_status option"
  td_metadata :: "ITaskMetadata option"
  td_inputOverride :: "ITaskDataConnections option"
  td_error :: "ExecutionError option"
  td_data :: "ITaskDataConnections option"

type_synonym IRunData = "(string \<times> ITaskData list) list"
type_synonym IPinData = "(string \<times> INodeExecutionData list) list"

record IExecuteData =
  ed_node :: INode
  ed_data :: ITaskDataConnections
  ed_source :: "ITaskDataConnectionsSource option"
  ed_runIndex :: "nat option"
  ed_metadata :: "ITaskMetadata option"

type_synonym IWaitingForExecution = "(string \<times> (nat \<times> ITaskDataConnections) list) list"
type_synonym IWaitingForExecutionSource =
  "(string \<times> (nat \<times> ITaskDataConnectionsSource) list) list"

text \<open>Where an execution stops.\<close>

datatype destination_mode = Inclusive | Exclusive

record IDestinationNode =
  dn_nodeName :: string
  dn_mode :: destination_mode

text \<open>The single empty item \<^verbatim>\<open>{ json: {} }\<close>.\<close>

definition empty_item :: INodeExecutionData where
  "empty_item = [(''json'', JObj [])]"

section \<open>Arrays\<close>

text \<open>
  \<^verbatim>\<open>xs[i] = v\<close>: writing past the end extends the array, leaving holes in between.
\<close>

definition arr_set :: "nat \<Rightarrow> 'a option \<Rightarrow> 'a option list \<Rightarrow> 'a option list" where
  "arr_set i v xs =
     (if i < length xs then xs[i := v] else xs @ replicate (i - length xs) None @ [v])"

text \<open>\<^verbatim>\<open>xs[i] ?? null\<close> for an array of arrays or nulls.\<close>

definition arr_get :: "'a option list \<Rightarrow> nat \<Rightarrow> 'a option" where
  "arr_get xs i = (if i < length xs then xs ! i else None)"

lemma arr_get_set [simp]: "arr_get (arr_set i v xs) j = (if j = i then v else arr_get xs j)"
  by (auto simp: arr_get_def arr_set_def nth_append nth_Cons' nth_list_update)

lemma length_arr_set [simp]: "length (arr_set i v xs) = max (length xs) (Suc i)"
  by (simp add: arr_set_def max_def)

lemma arr_get_Nil [simp]: "arr_get [] i = None"
  by (simp add: arr_get_def)

text \<open>
  \<^verbatim>\<open>Array.prototype.at\<close> with an integer argument: a negative index counts from the end,
  and an index outside the array gives \<^verbatim>\<open>undefined\<close>.
\<close>

definition arr_at :: "'a list \<Rightarrow> int \<Rightarrow> 'a option" where
  "arr_at xs i =
     (let n = int (length xs); j = (if i < 0 then n + i else i)
      in if 0 \<le> j \<and> j < n then Some (xs ! nat j) else None)"

lemma arr_at_nat [simp]: "arr_at xs (int i) = (if i < length xs then Some (xs ! i) else None)"
  by (simp add: arr_at_def)

lemma arr_at_last: "xs \<noteq> [] \<Longrightarrow> arr_at xs (- 1) = Some (last xs)"
  by (cases xs) (simp_all add: arr_at_def last_conv_nth)

end
