(* ===== verification/Directed_Graph.thy ===== *)
theory Directed_Graph
  imports Workflow_Types
begin

text \<open>
  The class \<^verbatim>\<open>DirectedGraph\<close> of
  \<^verbatim>\<open>packages/core/src/execution-engine/partial-execution-utils/directed-graph.ts\<close>:
  its two Maps as a record, one definition per method, the well-formedness invariant
  \<open>wf_graph\<close> that the methods keep, and the correctness of the graph searches, which are
  interpretations of the locale \<open>graph_search\<close>.

  Indices of outputs and inputs are natural numbers; a negative input index, which a workflow cannot have but a graph built by hand can, is excluded.
  A failing \<^verbatim>\<open>a.ok\<close> is the value \<open>Inl AssertionError\<close>.
\<close>

section \<open>The data\<close>

record GraphConnection =
  gc_from :: INode
  gc_to :: INode
  gc_type :: string
  gc_outputIndex :: nat
  gc_inputIndex :: nat

record DirectedGraph =
  dg_nodes :: "(string \<times> INode) list"
  dg_connections :: "(string \<times> GraphConnection) list"

definition empty_graph :: DirectedGraph where
  "empty_graph = \<lparr>dg_nodes = [], dg_connections = []\<rparr>"

text \<open>\<^verbatim>\<open>this.nodes.get(node.name) === node\<close>\<close>

definition has_node_obj :: "DirectedGraph \<Rightarrow> INode \<Rightarrow> bool" where
  "has_node_obj g n \<longleftrightarrow> map_get (dg_nodes g) (node_name n) = Some n"

definition makeKey :: "GraphConnection \<Rightarrow> string" where
  "makeKey c =
     node_name (gc_from c) @ ''-'' @ gc_type c @ ''-'' @ nat_str (gc_outputIndex c) @ ''-''
       @ nat_str (gc_inputIndex c) @ ''-'' @ node_name (gc_to c)"

section \<open>Reading the graph\<close>

definition hasNode :: "DirectedGraph \<Rightarrow> string \<Rightarrow> bool" where
  "hasNode g nodeName \<longleftrightarrow> map_get (dg_nodes g) nodeName \<noteq> None"

definition getNodes :: "DirectedGraph \<Rightarrow> (string \<times> INode) list" where
  "getNodes g = dg_nodes g"

definition getNodesByNames :: "DirectedGraph \<Rightarrow> string list \<Rightarrow> INode list" where
  "getNodesByNames g names =
     fold (\<lambda>name nodes. case map_get (dg_nodes g) name of
                          None \<Rightarrow> nodes
                        | Some node \<Rightarrow> set_add node nodes) names []"

definition getConnections :: "DirectedGraph \<Rightarrow> INode option \<Rightarrow> GraphConnection list" where
  "getConnections g filter_to =
     filter (\<lambda>c. case filter_to of None \<Rightarrow> True | Some n \<Rightarrow> gc_to c = n)
       (values_of (dg_connections g))"

definition getDirectChildConnections :: "DirectedGraph \<Rightarrow> INode \<Rightarrow> GraphConnection list res" where
  "getDirectChildConnections g node =
     bind_res (assert_ok (has_node_obj g node)) (\<lambda>_.
       Inr (filter (\<lambda>c. gc_from c = node) (values_of (dg_connections g))))"

definition getDirectParentConnections :: "DirectedGraph \<Rightarrow> INode \<Rightarrow> GraphConnection list res" where
  "getDirectParentConnections g node =
     bind_res (assert_ok (has_node_obj g node)) (\<lambda>_.
       Inr (filter (\<lambda>c. gc_to c = node) (values_of (dg_connections g))))"

definition getConnection ::
  "DirectedGraph \<Rightarrow> INode \<Rightarrow> nat \<Rightarrow> string \<Rightarrow> nat \<Rightarrow> INode \<Rightarrow> GraphConnection option" where
  "getConnection g from outputIndex type inputIndex to =
     map_get (dg_connections g)
       (makeKey \<lparr>gc_from = from, gc_to = to, gc_type = type, gc_outputIndex = outputIndex,
                 gc_inputIndex = inputIndex\<rparr>)"

section \<open>Changing the graph\<close>

definition addNode :: "INode \<Rightarrow> DirectedGraph \<Rightarrow> DirectedGraph" where
  "addNode node g = g\<lparr>dg_nodes := map_set (node_name node) node (dg_nodes g)\<rparr>"

definition addNodes :: "INode list \<Rightarrow> DirectedGraph \<Rightarrow> DirectedGraph" where
  "addNodes nodes g = fold addNode nodes g"

record connection_input =
  ci_from :: INode
  ci_to :: INode
  ci_type :: "string option"
  ci_outputIndex :: "nat option"
  ci_inputIndex :: "nat option"

definition set_connection :: "GraphConnection \<Rightarrow> DirectedGraph \<Rightarrow> DirectedGraph" where
  "set_connection c g = g\<lparr>dg_connections := map_set (makeKey c) c (dg_connections g)\<rparr>"

definition addConnection :: "connection_input \<Rightarrow> DirectedGraph \<Rightarrow> DirectedGraph res" where
  "addConnection inp g =
     bind_res (assert_ok (has_node_obj g (ci_from inp))) (\<lambda>_.
     bind_res (assert_ok (has_node_obj g (ci_to inp))) (\<lambda>_.
       Inr (set_connection
         \<lparr>gc_from = ci_from inp, gc_to = ci_to inp,
          gc_type = (case ci_type inp of None \<Rightarrow> Main | Some t \<Rightarrow> t),
          gc_outputIndex = (case ci_outputIndex inp of None \<Rightarrow> 0 | Some i \<Rightarrow> i),
          gc_inputIndex = (case ci_inputIndex inp of None \<Rightarrow> 0 | Some i \<Rightarrow> i)\<rparr> g)))"

text \<open>A full connection used as the input of \<open>addConnection\<close>.\<close>

definition as_input :: "GraphConnection \<Rightarrow> connection_input" where
  "as_input c = \<lparr>ci_from = gc_from c, ci_to = gc_to c, ci_type = Some (gc_type c),
     ci_outputIndex = Some (gc_outputIndex c), ci_inputIndex = Some (gc_inputIndex c)\<rparr>"

definition addConnections :: "connection_input list \<Rightarrow> DirectedGraph \<Rightarrow> DirectedGraph res" where
  "addConnections inps g = fold_res addConnection inps g"

definition drop_connections_of :: "INode \<Rightarrow> DirectedGraph \<Rightarrow> DirectedGraph" where
  "drop_connections_of node g =
     g\<lparr>dg_connections :=
         filter (\<lambda>e. \<not> (gc_to (snd e) = node \<or> gc_from (snd e) = node)) (dg_connections g)\<rparr>"

definition delete_node_name :: "string \<Rightarrow> DirectedGraph \<Rightarrow> DirectedGraph" where
  "delete_node_name name g = g\<lparr>dg_nodes := map_delete name (dg_nodes g)\<rparr>"

text \<open>The new connections: every kept incoming connection joined with every kept outgoing one.\<close>

definition join_connections ::
  "(GraphConnection \<Rightarrow> bool) \<Rightarrow> GraphConnection list \<Rightarrow> GraphConnection list \<Rightarrow> GraphConnection list" where
  "join_connections skip ins outs =
     concat (map (\<lambda>i. if skip i then []
                      else concat (map (\<lambda>out. if skip out then []
                        else [i\<lparr>gc_to := gc_to out, gc_inputIndex := gc_inputIndex out\<rparr>]) outs)) ins)"

definition removeNode ::
  "INode \<Rightarrow> bool \<Rightarrow> (GraphConnection \<Rightarrow> bool) option \<Rightarrow> DirectedGraph
     \<Rightarrow> (DirectedGraph \<times> GraphConnection list option) res" where
  "removeNode node reconnectConnections skipConnectionFn g =
     (if reconnectConnections then
        bind_res (getDirectParentConnections g node) (\<lambda>incomingConnections.
        bind_res (getDirectChildConnections g node) (\<lambda>outgoingConnections.
          let skip = (case skipConnectionFn of None \<Rightarrow> (\<lambda>_. False) | Some f \<Rightarrow> f);
              newConnections = join_connections skip incomingConnections outgoingConnections
          in Inr (delete_node_name (node_name node)
                    (fold set_connection newConnections (drop_connections_of node g)),
                  Some newConnections)))
      else Inr (delete_node_name (node_name node) (drop_connections_of node g), None))"

definition clone :: "DirectedGraph \<Rightarrow> DirectedGraph res" where
  "clone g =
     addConnections (map as_input (getConnections g None))
       (addNodes (values_of (getNodes g)) empty_graph)"

section \<open>Searching the graph\<close>

function getChildrenRecursive :: "DirectedGraph \<Rightarrow> INode \<Rightarrow> INode list \<Rightarrow> INode list res"
  and getChildrenLoop :: "DirectedGraph \<Rightarrow> GraphConnection list \<Rightarrow> INode list \<Rightarrow> INode list res"
where
  "getChildrenRecursive g node children =
     bind_res (getDirectChildConnections g node) (\<lambda>directChildren.
       getChildrenLoop g directChildren children)"
| "getChildrenLoop g [] children = Inr children"
| "getChildrenLoop g (c # cs) children =
     (if gc_to c \<in> set children then getChildrenLoop g cs children
      else bind_res (getChildrenRecursive g (gc_to c) (set_add (gc_to c) children)) (\<lambda>children'.
             getChildrenLoop g cs children'))"
  by pat_completeness auto

lemma getDirectChildConnections_eq_Inr:
  "getDirectChildConnections g node = Inr cs \<longleftrightarrow>
     has_node_obj g node \<and> cs = filter (\<lambda>c. gc_from c = node) (values_of (dg_connections g))"
  by (auto simp: getDirectChildConnections_def bind_assert_ok)

lemma getDirectParentConnections_eq_Inr:
  "getDirectParentConnections g node = Inr cs \<longleftrightarrow>
     has_node_obj g node \<and> cs = filter (\<lambda>c. gc_to c = node) (values_of (dg_connections g))"
  by (auto simp: getDirectParentConnections_def bind_assert_ok)

definition node_objs :: "DirectedGraph \<Rightarrow> INode set" where
  "node_objs g = {n. has_node_obj g n}"

lemma finite_node_objs [simp]: "finite (node_objs g)"
proof (rule finite_subset)
  show "node_objs g \<subseteq> snd ` set (dg_nodes g)"
    by (auto simp: node_objs_def has_node_obj_def dest!: map_of_SomeD intro: rev_image_eqI)
qed simp

lemma getChildrenRecursive_mono:
  "getChildrenRecursive_getChildrenLoop_dom (Inl (g, node, S)) \<Longrightarrow>
     getChildrenRecursive g node S = Inr R \<Longrightarrow> set S \<subseteq> set R"
  "getChildrenRecursive_getChildrenLoop_dom (Inr (g, cs, S)) \<Longrightarrow>
     getChildrenLoop g cs S = Inr R \<Longrightarrow> set S \<subseteq> set R"
proof (induction g node S and g cs S arbitrary: R and R
    rule: getChildrenRecursive_getChildrenLoop.pinduct)
  case (1 g node S)
  then show ?case by (auto simp: getChildrenRecursive.psimps bind_res_eq_Inr)
next
  case (2 g S)
  then show ?case by (simp add: getChildrenLoop.psimps)
next
  case (3 g c cs S)
  then show ?case
    by (fastforce simp: getChildrenLoop.psimps bind_res_eq_Inr split: if_splits)
qed

lemma card_node_objs_less:
  assumes "x \<in> node_objs g" and "x \<notin> set S" and "insert x (set S) \<subseteq> set T"
  shows "card (node_objs g - set T) < card (node_objs g - set S)"
  using assms by (intro psubset_card_mono) auto

lemma card_node_objs_le:
  "set S \<subseteq> set T \<Longrightarrow> card (node_objs g - set T) \<le> card (node_objs g - set S)"
  by (intro card_mono) auto

text \<open>
  Termination: every call adds a node object of the graph to the collected set, or shortens
  the list of connections still to follow; a call on a node that is not in the graph throws.
\<close>

definition children_measure1 ::
  "(DirectedGraph \<times> INode \<times> INode list) + (DirectedGraph \<times> GraphConnection list \<times> INode list) \<Rightarrow> nat" where
  "children_measure1 x = (case x of
     Inl (g, node, S) \<Rightarrow> if has_node_obj g node then card (node_objs g - set S) else 0
   | Inr (g, cs, S) \<Rightarrow> card (node_objs g - set S))"

definition children_measure2 ::
  "(DirectedGraph \<times> INode \<times> INode list) + (DirectedGraph \<times> GraphConnection list \<times> INode list) \<Rightarrow> nat" where
  "children_measure2 x = (case x of
     Inl (g, node, S) \<Rightarrow> if has_node_obj g node
       then Suc (Suc (length (filter (\<lambda>c. gc_from c = node) (values_of (dg_connections g))))) else 0
   | Inr (g, cs, S) \<Rightarrow> Suc (length cs))"

termination getChildrenRecursive
proof (relation "measures [children_measure1, children_measure2]", goal_cases)
  case 1
  then show ?case by simp
next
  case (2 g node S ds)
  then show ?case
    by (simp add: children_measure1_def children_measure2_def getDirectChildConnections_eq_Inr)
next
  case (3 g c cs S)
  then show ?case by (simp add: children_measure1_def children_measure2_def)
next
  case (4 g c cs S)
  show ?case
  proof (cases "has_node_obj g (gc_to c)")
    case True
    then have "card (node_objs g - set (set_add (gc_to c) S)) < card (node_objs g - set S)"
      using 4 by (intro card_node_objs_less) (auto simp: node_objs_def)
    with True show ?thesis by (simp add: children_measure1_def)
  next
    case False
    then show ?thesis by (auto simp: children_measure1_def children_measure2_def)
  qed
next
  case (5 g c cs S S')
  then have "set S \<subseteq> set S'" using getChildrenRecursive_mono(1) by fastforce
  from card_node_objs_le [OF this, of g] show ?case
    by (auto simp: children_measure1_def children_measure2_def)
qed

declare getChildrenRecursive.simps [simp del] getChildrenLoop.simps [simp del]

definition getChildren :: "DirectedGraph \<Rightarrow> INode \<Rightarrow> INode list res" where
  "getChildren g node = getChildrenRecursive g node []"

function getParentConnectionsRecursive ::
    "DirectedGraph \<Rightarrow> INode \<Rightarrow> GraphConnection list \<Rightarrow> GraphConnection list res"
  and getParentConnectionsLoop ::
    "DirectedGraph \<Rightarrow> GraphConnection list \<Rightarrow> GraphConnection list \<Rightarrow> GraphConnection list res"
where
  "getParentConnectionsRecursive g node connections =
     bind_res (getDirectParentConnections g node) (\<lambda>parentConnections.
       getParentConnectionsLoop g parentConnections connections)"
| "getParentConnectionsLoop g [] connections = Inr connections"
| "getParentConnectionsLoop g (c # cs) connections =
     (if c \<in> set connections then getParentConnectionsLoop g cs connections
      else bind_res (getParentConnectionsRecursive g (gc_from c) (set_add c connections))
             (\<lambda>connections'. getParentConnectionsLoop g cs connections'))"
  by pat_completeness auto

lemma getParentConnectionsRecursive_mono:
  "getParentConnectionsRecursive_getParentConnectionsLoop_dom (Inl (g, node, S)) \<Longrightarrow>
     getParentConnectionsRecursive g node S = Inr R \<Longrightarrow> set S \<subseteq> set R"
  "getParentConnectionsRecursive_getParentConnectionsLoop_dom (Inr (g, cs, S)) \<Longrightarrow>
     getParentConnectionsLoop g cs S = Inr R \<Longrightarrow> set S \<subseteq> set R"
proof (induction g node S and g cs S arbitrary: R and R
    rule: getParentConnectionsRecursive_getParentConnectionsLoop.pinduct)
  case (1 g node S)
  then show ?case by (auto simp: getParentConnectionsRecursive.psimps bind_res_eq_Inr)
next
  case (2 g S)
  then show ?case by (simp add: getParentConnectionsLoop.psimps)
next
  case (3 g c cs S)
  then show ?case
    by (fastforce simp: getParentConnectionsLoop.psimps bind_res_eq_Inr split: if_splits)
qed

definition conn_objs :: "DirectedGraph \<Rightarrow> GraphConnection set" where
  "conn_objs g = set (values_of (dg_connections g))"

lemma finite_conn_objs [simp]: "finite (conn_objs g)"
  by (simp add: conn_objs_def)

lemma conn_objs_entry: "c \<in> conn_objs g \<longleftrightarrow> (\<exists>k. (k, c) \<in> set (dg_connections g))"
  by (force simp: conn_objs_def)

lemma conn_objs_fold [simp]: "snd ` set (dg_connections g) = conn_objs g"
  by (simp add: conn_objs_def)

text \<open>
  Termination: a call collects a new connection of the graph, or uses up one of finitely many
  connections that are not in the graph, or shortens the list.
\<close>

definition parents_measure ::
  "nat \<Rightarrow> (DirectedGraph \<times> INode \<times> GraphConnection list)
     + (DirectedGraph \<times> GraphConnection list \<times> GraphConnection list) \<Rightarrow> nat" where
  "parents_measure k x = (case x of
     Inl (g, node, S) \<Rightarrow>
       (if k = 0 then card (conn_objs g - set S) else if k = 1 then 0
        else Suc (Suc (length (filter (\<lambda>c. gc_to c = node) (values_of (dg_connections g))))))
   | Inr (g, cs, S) \<Rightarrow>
       (if k = 0 then card (conn_objs g - set S)
        else if k = 1 then length (filter (\<lambda>c. c \<notin> conn_objs g) cs) else Suc (length cs)))"

termination getParentConnectionsRecursive
proof (relation "measures [parents_measure 0, parents_measure 1, parents_measure 2]", goal_cases)
  case 1
  then show ?case by simp
next
  case (2 g node S ds)
  then have "filter (\<lambda>c. c \<notin> conn_objs g) ds = []"
    by (auto simp: getDirectParentConnections_eq_Inr)
  with 2 show ?case by (simp add: parents_measure_def getDirectParentConnections_eq_Inr)
next
  case (3 g c cs S)
  then show ?case by (simp add: parents_measure_def)
next
  case (4 g c cs S)
  show ?case
  proof (cases "c \<in> conn_objs g")
    case True
    then have "card (conn_objs g - set (set_add c S)) < card (conn_objs g - set S)"
      using 4 by (intro psubset_card_mono) auto
    then show ?thesis by (simp add: parents_measure_def del: set_map set_set_add)
  next
    case False
    then have "conn_objs g - set (set_add c S) = conn_objs g - set S" by auto
    with False show ?thesis by (simp add: parents_measure_def del: set_map set_set_add)
  qed
next
  case (5 g c cs S S')
  then have "set S \<subseteq> set S'" using getParentConnectionsRecursive_mono(1) by fastforce
  then have "card (conn_objs g - set S') \<le> card (conn_objs g - set S)"
    by (intro card_mono) auto
  then show ?case by (auto simp: parents_measure_def)
qed

declare getParentConnectionsRecursive.simps [simp del] getParentConnectionsLoop.simps [simp del]

definition getParentConnections :: "DirectedGraph \<Rightarrow> INode \<Rightarrow> GraphConnection list res" where
  "getParentConnections g node = getParentConnectionsRecursive g node []"

text \<open>
  \<^verbatim>\<open>depthFirstSearchRecursive\<close> returns the node found, if any, and mutates \<^verbatim>\<open>seen\<close>: the
  model returns both.
\<close>

function depthFirstSearchRecursive ::
    "DirectedGraph \<Rightarrow> INode \<Rightarrow> (INode \<Rightarrow> bool) \<Rightarrow> INode list \<Rightarrow> (INode option \<times> INode list) res"
  and depthFirstSearchLoop ::
    "DirectedGraph \<Rightarrow> GraphConnection list \<Rightarrow> (INode \<Rightarrow> bool) \<Rightarrow> INode list
       \<Rightarrow> (INode option \<times> INode list) res"
where
  "depthFirstSearchRecursive g from fn seen =
     (if from \<in> set seen then Inr (None, seen)
      else if fn from then Inr (Some from, set_add from seen)
      else bind_res (getDirectChildConnections g from) (\<lambda>cs.
             depthFirstSearchLoop g cs fn (set_add from seen)))"
| "depthFirstSearchLoop g [] fn seen = Inr (None, seen)"
| "depthFirstSearchLoop g (c # cs) fn seen =
     bind_res (depthFirstSearchRecursive g (gc_to c) fn seen) (\<lambda>r.
       case r of (Some found, seen') \<Rightarrow> Inr (Some found, seen')
               | (None, seen') \<Rightarrow> depthFirstSearchLoop g cs fn seen')"
  by pat_completeness auto

lemma depthFirstSearchRecursive_mono:
  "depthFirstSearchRecursive_depthFirstSearchLoop_dom (Inl (g, from, fn, S)) \<Longrightarrow>
     depthFirstSearchRecursive g from fn S = Inr (r, R) \<Longrightarrow> set S \<subseteq> set R"
  "depthFirstSearchRecursive_depthFirstSearchLoop_dom (Inr (g, cs, fn, S)) \<Longrightarrow>
     depthFirstSearchLoop g cs fn S = Inr (r, R) \<Longrightarrow> set S \<subseteq> set R"
proof (induction g "from" fn S and g cs fn S arbitrary: r R and r R
    rule: depthFirstSearchRecursive_depthFirstSearchLoop.pinduct)
  case (1 g "from" fn S)
  then show ?case
    by (auto simp: depthFirstSearchRecursive.psimps bind_res_eq_Inr split: if_splits)
next
  case (2 g fn S)
  then show ?case by (simp add: depthFirstSearchLoop.psimps)
next
  case (3 g c cs fn S)
  then show ?case
    by (fastforce simp: depthFirstSearchLoop.psimps bind_res_eq_Inr
        split: option.splits prod.splits)
qed

termination depthFirstSearchRecursive
proof (relation "measures
    [\<lambda>x. case x of Inl (g, from, fn, S) \<Rightarrow> card (node_objs g - set S)
                | Inr (g, cs, fn, S) \<Rightarrow> card (node_objs g - set S),
     \<lambda>x. case x of Inl (g, from, fn, S) \<Rightarrow> 0 | Inr (g, cs, fn, S) \<Rightarrow> Suc (length cs)]",
    goal_cases)
  case 1
  then show ?case by simp
next
  case (2 g "from" fn S cs)
  then have "card (node_objs g - set (set_add from S)) < card (node_objs g - set S)"
    by (intro card_node_objs_less [where x = "from"])
      (auto simp: node_objs_def getDirectChildConnections_eq_Inr)
  then show ?case by simp
next
  case (3 g c cs fn S)
  then show ?case by simp
next
  case (4 g c cs fn S r o1 S')
  then have "set S \<subseteq> set S'" using depthFirstSearchRecursive_mono(1) by fastforce
  from card_node_objs_le [OF this, of g] show ?case by auto
qed

declare depthFirstSearchRecursive.simps [simp del] depthFirstSearchLoop.simps [simp del]

definition depthFirstSearch ::
  "DirectedGraph \<Rightarrow> INode \<Rightarrow> (INode \<Rightarrow> bool) \<Rightarrow> INode option res" where
  "depthFirstSearch g from fn =
     bind_res (depthFirstSearchRecursive g from fn []) (\<lambda>(found, _). Inr found)"

section \<open>Well-formed graphs\<close>

definition wf_graph :: "DirectedGraph \<Rightarrow> bool" where
  "wf_graph g \<longleftrightarrow>
     distinct (keys_of (dg_nodes g)) \<and> (\<forall>e \<in> set (dg_nodes g). fst e = node_name (snd e)) \<and>
     distinct (keys_of (dg_connections g)) \<and>
     (\<forall>e \<in> set (dg_connections g). fst e = makeKey (snd e)
        \<and> has_node_obj g (gc_from (snd e)) \<and> has_node_obj g (gc_to (snd e)))"

definition dg_edges :: "DirectedGraph \<Rightarrow> (INode \<times> INode) set" where
  "dg_edges g = (\<lambda>c. (gc_from c, gc_to c)) ` conn_objs g"

definition main_edges :: "DirectedGraph \<Rightarrow> (INode \<times> INode) set" where
  "main_edges g = (\<lambda>c. (gc_from c, gc_to c)) ` {c \<in> conn_objs g. gc_type c = Main}"

lemma wf_node_objs:
  assumes "wf_graph g"
  shows "node_objs g = set (values_of (dg_nodes g))"
proof -
  have "n \<in> node_objs g \<longleftrightarrow> (node_name n, n) \<in> set (dg_nodes g)" for n
    using assms by (simp add: node_objs_def has_node_obj_def wf_graph_def)
  with assms show ?thesis by (force simp: wf_graph_def)
qed

lemma wf_conn_nodes:
  assumes "wf_graph g" and "c \<in> conn_objs g"
  shows "has_node_obj g (gc_from c)" and "has_node_obj g (gc_to c)"
  using assms by (auto simp: wf_graph_def conn_objs_entry)

lemma wf_edge_nodes:
  assumes "wf_graph g" and "(x, y) \<in> dg_edges g"
  shows "has_node_obj g x" and "has_node_obj g y"
  using assms wf_conn_nodes by (auto simp: dg_edges_def)

lemma wf_conn_key:
  "wf_graph g \<Longrightarrow> map_get (dg_connections g) k = Some c \<longleftrightarrow> c \<in> conn_objs g \<and> k = makeKey c"
  by (auto simp: wf_graph_def conn_objs_entry)

lemma wf_empty_graph: "wf_graph empty_graph"
  by (simp add: wf_graph_def empty_graph_def)

lemma dg_edgesI: "c \<in> conn_objs g \<Longrightarrow> (gc_from c, gc_to c) \<in> dg_edges g"
  by (auto simp: dg_edges_def)

subsection \<open>Every method keeps well-formedness\<close>

lemma has_node_obj_addNode:
  "has_node_obj (addNode n g) m \<longleftrightarrow> m = n \<or> has_node_obj g m \<and> node_name m \<noteq> node_name n"
  by (auto simp: has_node_obj_def addNode_def js_map.get_put)

lemma addNode_wf:
  assumes "wf_graph g" and "hasNode g (node_name n) \<Longrightarrow> has_node_obj g n"
  shows "wf_graph (addNode n g)"
proof -
  have keep: "has_node_obj (addNode n g) m" if "has_node_obj g m" for m
    unfolding has_node_obj_addNode using that assms(2) by (auto simp: has_node_obj_def hasNode_def)
  from assms(1) show ?thesis
    unfolding wf_graph_def
    by (auto simp: keep js_map.distinct_put addNode_def js_map.entries_put simp del: set_map)
      (auto simp: keep addNode_def simp flip: addNode_def)
qed

lemma conn_objs_addNode [simp]: "dg_connections (addNode n g) = dg_connections g"
  by (simp add: addNode_def)

lemma has_node_obj_set_connection [simp]:
  "has_node_obj (set_connection c g) n = has_node_obj g n"
  by (simp add: has_node_obj_def set_connection_def)

lemma conn_objs_set_connection:
  assumes "wf_graph g"
  shows "conn_objs (set_connection c g) = insert c {d \<in> conn_objs g. makeKey d \<noteq> makeKey c}"
proof -
  have d: "distinct (keys_of (dg_connections g))" using assms by (simp add: wf_graph_def)
  show ?thesis
    unfolding set_connection_def using assms
    by (auto simp: conn_objs_def js_map.values_put [OF d] wf_graph_def simp del: set_map conn_objs_fold)
      (force simp: image_iff simp del: conn_objs_fold)+
qed

lemma set_connection_wf:
  assumes "wf_graph g" and "has_node_obj g (gc_from c)" and "has_node_obj g (gc_to c)"
  shows "wf_graph (set_connection c g)"
proof -
  have d: "distinct (keys_of (dg_connections g))" using assms by (simp add: wf_graph_def)
  have "dg_nodes (set_connection c g) = dg_nodes g" by (simp add: set_connection_def)
  moreover have "set (dg_connections (set_connection c g))
      = insert (makeKey c, c) {e \<in> set (dg_connections g). fst e \<noteq> makeKey c}"
    by (simp add: set_connection_def js_map.entries_put [OF d])
  moreover have "distinct (keys_of (dg_connections (set_connection c g)))"
    by (simp add: set_connection_def js_map.distinct_put [OF d] del: set_map)
  ultimately show ?thesis using assms by (auto simp: wf_graph_def)
qed

lemma addConnection_eq_Inr:
  "addConnection inp g = Inr g' \<longleftrightarrow> has_node_obj g (ci_from inp) \<and> has_node_obj g (ci_to inp) \<and>
     g' = set_connection
         \<lparr>gc_from = ci_from inp, gc_to = ci_to inp,
          gc_type = (case ci_type inp of None \<Rightarrow> Main | Some t \<Rightarrow> t),
          gc_outputIndex = (case ci_outputIndex inp of None \<Rightarrow> 0 | Some i \<Rightarrow> i),
          gc_inputIndex = (case ci_inputIndex inp of None \<Rightarrow> 0 | Some i \<Rightarrow> i)\<rparr> g"
  by (auto simp: addConnection_def bind_assert_ok)

lemma addConnection_wf: "wf_graph g \<Longrightarrow> addConnection inp g = Inr g' \<Longrightarrow> wf_graph g'"
  by (auto simp: addConnection_eq_Inr intro: set_connection_wf)

lemma addConnection_as_input:
  "addConnection (as_input c) g =
     (if has_node_obj g (gc_from c) \<and> has_node_obj g (gc_to c)
      then Inr (set_connection c g) else Inl AssertionError)"
  by (cases c) (simp add: addConnection_def as_input_def bind_assert_ok)

section \<open>The searches\<close>

lemma getDirectChildConnections_ok:
  "has_node_obj g n \<Longrightarrow> getDirectChildConnections g n
     = Inr (filter (\<lambda>c. gc_from c = n) (values_of (dg_connections g)))"
  by (simp add: getDirectChildConnections_eq_Inr)

lemma getDirectParentConnections_ok:
  "has_node_obj g n \<Longrightarrow> getDirectParentConnections g n
     = Inr (filter (\<lambda>c. gc_to c = n) (values_of (dg_connections g)))"
  by (simp add: getDirectParentConnections_eq_Inr)

interpretation children: graph_search getChildrenLoop gc_to getDirectChildConnections node_objs wf_graph
proof (unfold_locales, goal_cases)
  case (1 g S)
  then show ?case by (simp add: getChildrenLoop.simps)
next
  case (2 g c cs S)
  then show ?case
    by (simp add: getChildrenLoop.simps(2) [of g c cs S] getChildrenRecursive.simps set_add_def
        bind_res_assoc)
next
  case (3 g)
  then show ?case by simp
next
  case (4 g x)
  then show ?case
    by (auto simp: node_objs_def getDirectChildConnections_ok dest: wf_conn_nodes)
qed

lemma children_edges: "wf_graph g \<Longrightarrow> children.edges g = dg_edges g"
  by (auto simp: children.edges_def getDirectChildConnections_eq_Inr dg_edges_def
      dest: wf_conn_nodes)

interpretation parents: graph_search getParentConnectionsLoop "\<lambda>c. c"
  "\<lambda>g c. getDirectParentConnections g (gc_from c)" conn_objs wf_graph
proof (unfold_locales, goal_cases)
  case (1 g S)
  then show ?case by (simp add: getParentConnectionsLoop.simps)
next
  case (2 g c cs S)
  then show ?case
    by (simp add: getParentConnectionsLoop.simps(2) [of g c cs S] set_add_def bind_res_assoc
        getParentConnectionsRecursive.simps)
next
  case (3 g)
  then show ?case by simp
next
  case (4 g c)
  then show ?case using wf_conn_nodes(1) [of g c] by (auto simp: getDirectParentConnections_ok)
qed

lemma parents_edges:
  "wf_graph g \<Longrightarrow> (c, d) \<in> parents.edges g \<longleftrightarrow>
     has_node_obj g (gc_from c) \<and> d \<in> conn_objs g \<and> gc_to d = gc_from c"
  by (auto simp: parents.edges_def getDirectParentConnections_eq_Inr)

text \<open>
  The connections collected from the parents of \<open>n\<close> are exactly those that lie on a path
  into \<open>n\<close>.
\<close>

lemma parents_reach:
  assumes wf: "wf_graph g"
  shows "(parents.edges g)\<^sup>* `` {c \<in> conn_objs g. gc_to c = n}
           = {c \<in> conn_objs g. (gc_to c, n) \<in> (dg_edges g)\<^sup>*}" (is "?L = ?R")
proof
  have "d \<in> ?R" if "(c, d) \<in> (parents.edges g)\<^sup>*" "c \<in> conn_objs g" "gc_to c = n" for c d
    using that
  proof induction
    case base
    then show ?case by simp
  next
    case (step d e)
    then have "(gc_to e, gc_to d) \<in> dg_edges g" using dg_edgesI [of d g] parents_edges [OF wf] by auto
    with step show ?case using parents_edges [OF wf] by (auto intro: converse_rtrancl_into_rtrancl)
  qed
  then show "?L \<subseteq> ?R" by blast
next
  have "d \<in> ?L" if "(gc_to d, n) \<in> (dg_edges g)\<^sup>*" "d \<in> conn_objs g" for d
    using that
  proof (induction "gc_to d" arbitrary: d rule: converse_rtrancl_induct)
    case base
    then show ?case by blast
  next
    case (step z)
    then obtain e where e: "e \<in> conn_objs g" "gc_from e = gc_to d" "gc_to e = z"
      by (auto simp: dg_edges_def)
    with step have "e \<in> ?L" by blast
    moreover have "(e, d) \<in> parents.edges g"
      using parents_edges [OF wf] e step.prems wf_conn_nodes [OF wf] by auto
    ultimately show ?case by (auto intro: rtrancl_into_rtrancl)
  qed
  then show "?R \<subseteq> ?L" by blast
qed

lemma getChildren_reachable:
  assumes "wf_graph g" and "has_node_obj g n"
  shows "\<exists>R. getChildren g n = Inr R \<and> distinct R \<and> set R = (dg_edges g)\<^sup>+ `` {n}"
proof -
  let ?cs = "filter (\<lambda>c. gc_from c = n) (values_of (dg_connections g))"
  have "gc_to ` set ?cs \<subseteq> node_objs g"
    using wf_conn_nodes [OF assms(1)] by (auto simp: node_objs_def)
  from children.search_reachable [OF assms(1) this] obtain R
    where R: "getChildrenLoop g ?cs [] = Inr R" "distinct R"
      "set R = (dg_edges g)\<^sup>* `` (gc_to ` set ?cs)"
    by (auto simp: children_edges [OF assms(1)])
  have "gc_to ` set ?cs = dg_edges g `` {n}" by (force simp: dg_edges_def)
  then have "set R = (dg_edges g)\<^sup>+ `` {n}"
    using R(3) by (simp add: trancl_unfold_left relcomp_Image)
  with R show ?thesis
    by (simp add: getChildren_def getChildrenRecursive.simps getDirectChildConnections_ok assms)
qed

lemma getParentConnections_reaching:
  assumes "wf_graph g" and "has_node_obj g n"
  shows "\<exists>R. getParentConnections g n = Inr R \<and> distinct R
           \<and> set R = {c \<in> conn_objs g. (gc_to c, n) \<in> (dg_edges g)\<^sup>*}"
proof -
  let ?cs = "filter (\<lambda>c. gc_to c = n) (values_of (dg_connections g))"
  have "(\<lambda>c. c) ` set ?cs \<subseteq> conn_objs g" by auto
  from parents.search_reachable [OF assms(1) this] obtain R
    where R: "getParentConnectionsLoop g ?cs [] = Inr R" "distinct R"
      "set R = (parents.edges g)\<^sup>* `` set ?cs"
    by auto
  have "set ?cs = {c \<in> conn_objs g. gc_to c = n}" by simp
  with R parents_reach [OF assms(1), of n] show ?thesis
    by (simp add: getParentConnections_def getParentConnectionsRecursive.simps
        getDirectParentConnections_ok assms)
qed

subsection \<open>Depth-first search for one node\<close>

definition dfs_post ::
  "DirectedGraph \<Rightarrow> (INode \<Rightarrow> bool) \<Rightarrow> INode set \<Rightarrow> INode list \<Rightarrow> INode option \<Rightarrow> INode list \<Rightarrow> bool" where
  "dfs_post g fn X S r R \<longleftrightarrow> set S \<subseteq> set R \<and>
     (case r of
        Some m \<Rightarrow> fn m \<and> m \<in> (dg_edges g)\<^sup>* `` X
      | None \<Rightarrow> X \<subseteq> set R \<and> (\<forall>x \<in> set R - set S. \<not> fn x \<and> dg_edges g `` {x} \<subseteq> set R))"

lemma dfs_post_loop:
  assumes "dfs_post g fn {gc_to c} S None S'" and "dfs_post g fn (gc_to ` set cs) S' r R"
  shows "dfs_post g fn (gc_to ` set (c # cs)) S r R"
proof (cases r)
  case None
  have "\<not> fn x \<and> dg_edges g `` {x} \<subseteq> set R" if "x \<in> set R - set S" for x
  proof (cases "x \<in> set S'")
    case True
    with that assms(1) have "\<not> fn x \<and> dg_edges g `` {x} \<subseteq> set S'" by (simp add: dfs_post_def)
    with assms(2) show ?thesis by (auto simp: dfs_post_def)
  next
    case False
    with that assms(2) None show ?thesis by (simp add: dfs_post_def)
  qed
  with assms None show ?thesis by (auto simp: dfs_post_def)
next
  case (Some m)
  with assms show ?thesis by (auto simp: dfs_post_def)
qed

lemma dfs_post_node:
  assumes "dfs_post g fn (dg_edges g `` {x}) (set_add x S) r R" and "\<not> fn x"
  shows "dfs_post g fn {x} S r R"
proof (cases r)
  case None
  with assms show ?thesis by (auto simp: dfs_post_def)
next
  case (Some m)
  with assms show ?thesis by (auto simp: dfs_post_def intro: converse_rtrancl_into_rtrancl)
qed

lemma children_targets:
  "gc_to ` set (filter (\<lambda>c. gc_from c = x) (values_of (dg_connections g))) = dg_edges g `` {x}"
  by (force simp: dg_edges_def)

lemma depthFirstSearch_post:
  "wf_graph g \<Longrightarrow> has_node_obj g from \<Longrightarrow>
     \<exists>r R. depthFirstSearchRecursive g from fn S = Inr (r, R) \<and> dfs_post g fn {from} S r R"
  "wf_graph g \<Longrightarrow> set cs \<subseteq> conn_objs g \<Longrightarrow>
     \<exists>r R. depthFirstSearchLoop g cs fn S = Inr (r, R) \<and> dfs_post g fn (gc_to ` set cs) S r R"
proof (induction g "from" fn S and g cs fn S
    rule: depthFirstSearchRecursive_depthFirstSearchLoop.induct)
  case (1 g "from" fn S)
  show ?case
  proof (cases "from \<in> set S \<or> fn from")
    case True
    then show ?thesis by (auto simp: depthFirstSearchRecursive.simps [of g] dfs_post_def)
  next
    case False
    let ?cs = "filter (\<lambda>c. gc_from c = from) (values_of (dg_connections g))"
    have "set ?cs \<subseteq> conn_objs g" by auto
    with 1 False obtain r R where R: "depthFirstSearchLoop g ?cs fn (set_add from S) = Inr (r, R)"
      "dfs_post g fn (gc_to ` set ?cs) (set_add from S) r R"
      by (force simp: getDirectChildConnections_ok)
    then have "dfs_post g fn {from} S r R"
      using False dfs_post_node [OF R(2) [unfolded children_targets]] by simp
    with False R(1) 1 show ?thesis
      by (simp add: depthFirstSearchRecursive.simps [of g] getDirectChildConnections_ok)
  qed
next
  case (2 g fn S)
  then show ?case by (auto simp: depthFirstSearchLoop.simps dfs_post_def)
next
  case (3 g c cs fn S)
  from 3 wf_conn_nodes(2) obtain r S' where r: "depthFirstSearchRecursive g (gc_to c) fn S = Inr (r, S')"
    "dfs_post g fn {gc_to c} S r S'" by force
  show ?case
  proof (cases r)
    case (Some m)
    with r show ?thesis by (auto simp: depthFirstSearchLoop.simps dfs_post_def)
  next
    case None
    with 3 r obtain r2 R where "depthFirstSearchLoop g cs fn S' = Inr (r2, R)"
      "dfs_post g fn (gc_to ` set cs) S' r2 R" by fastforce
    with None r show ?thesis
      using dfs_post_loop [of g fn c S S' cs r2 R] by (auto simp: depthFirstSearchLoop.simps)
  qed
qed

lemma depthFirstSearch_result:
  assumes "wf_graph g" and "has_node_obj g from"
  shows "\<exists>r. depthFirstSearch g from fn = Inr r
    \<and> (case r of Some m \<Rightarrow> fn m \<and> (from, m) \<in> (dg_edges g)\<^sup>*
               | None \<Rightarrow> \<forall>m. (from, m) \<in> (dg_edges g)\<^sup>* \<longrightarrow> \<not> fn m)"
proof -
  from depthFirstSearch_post(1) [OF assms] obtain r R
    where r: "depthFirstSearchRecursive g from fn [] = Inr (r, R)" "dfs_post g fn {from} [] r R"
    by blast
  have "m \<in> set R" if "r = None" "(from, m) \<in> (dg_edges g)\<^sup>*" for m
    using that(2,1) r(2) by induction (auto simp: dfs_post_def)
  with r show ?thesis
    by (auto simp: depthFirstSearch_def dfs_post_def split: option.splits)
qed

section \<open>Removing nodes\<close>

lemma has_node_obj_delete:
  "has_node_obj (delete_node_name name g) m \<longleftrightarrow> has_node_obj g m \<and> node_name m \<noteq> name"
  by (auto simp: has_node_obj_def delete_node_name_def js_map.get_del)

lemma has_node_obj_drop [simp]: "has_node_obj (drop_connections_of n g) m = has_node_obj g m"
  by (simp add: has_node_obj_def drop_connections_of_def)

lemma conn_objs_drop:
  "conn_objs (drop_connections_of n g) = {c \<in> conn_objs g. gc_from c \<noteq> n \<and> gc_to c \<noteq> n}"
  by (force simp: conn_objs_entry drop_connections_of_def)

lemma conn_objs_delete [simp]: "conn_objs (delete_node_name name g) = conn_objs g"
  by (simp add: conn_objs_def delete_node_name_def del: conn_objs_fold)

lemma drop_connections_wf: "wf_graph g \<Longrightarrow> wf_graph (drop_connections_of n g)"
  unfolding wf_graph_def
  by (auto simp: drop_connections_of_def has_node_obj_def distinct_map_filter)

lemma delete_node_wf:
  assumes "wf_graph g" and "\<And>c. c \<in> conn_objs g \<Longrightarrow> node_name (gc_from c) \<noteq> name \<and> node_name (gc_to c) \<noteq> name"
  shows "wf_graph (delete_node_name name g)"
proof -
  have "has_node_obj (delete_node_name name g) (gc_from c) \<and> has_node_obj (delete_node_name name g) (gc_to c)"
    if "(k, c) \<in> set (dg_connections g)" for k c
    using that assms by (auto simp: has_node_obj_delete conn_objs_entry wf_graph_def)
  moreover have "dg_connections (delete_node_name name g) = dg_connections g"
    "dg_nodes (delete_node_name name g) = map_delete name (dg_nodes g)"
    by (simp_all add: delete_node_name_def)
  ultimately show ?thesis using assms(1) by (auto simp: wf_graph_def)
qed

lemma has_node_obj_name_inj:
  "has_node_obj g a \<Longrightarrow> has_node_obj g b \<Longrightarrow> node_name a = node_name b \<Longrightarrow> a = b"
  by (simp add: has_node_obj_def)

text \<open>Setting a list of connections between nodes of the graph.\<close>

lemma fold_set_connection:
  assumes "wf_graph g" and "\<And>c. c \<in> set cs \<Longrightarrow> has_node_obj g (gc_from c) \<and> has_node_obj g (gc_to c)"
  shows "wf_graph (fold set_connection cs g)"
    and "has_node_obj (fold set_connection cs g) n = has_node_obj g n"
    and "conn_objs (fold set_connection cs g) \<subseteq> conn_objs g \<union> set cs"
    and "inj_on makeKey (conn_objs g \<union> set cs) \<Longrightarrow>
           conn_objs (fold set_connection cs g) = conn_objs g \<union> set cs"
  using assms
proof (induction cs arbitrary: g)
  case (Cons c cs)
  {
    case 1
    with Cons.IH(1) show ?case by (simp add: set_connection_wf)
  next
    case 2
    with Cons.IH(2) show ?case by (simp add: set_connection_wf)
  next
    case 3
    with Cons.IH(3) [of "set_connection c g"] show ?case
      by (auto simp: set_connection_wf conn_objs_set_connection)
  next
    case 4
    have "makeKey d \<noteq> makeKey c" if "d \<in> conn_objs g" "d \<noteq> c" for d
      using inj_onD [OF 4(1), of d c] that by auto
    then have "conn_objs (set_connection c g) = insert c (conn_objs g)"
      using conn_objs_set_connection [OF 4(2)] by auto
    with 4 Cons.IH(4) [of "set_connection c g"] show ?case
      by (simp add: set_connection_wf)
  }
qed simp_all

lemma set_join_connections:
  "set (join_connections skip ins outs) =
     {i\<lparr>gc_to := gc_to out, gc_inputIndex := gc_inputIndex out\<rparr> | i out.
        i \<in> set ins \<and> out \<in> set outs \<and> \<not> skip i \<and> \<not> skip out}"
  by (auto simp: join_connections_def)

text \<open>
  Removing a node with reconnection. Every parent connection that is kept is joined with every
  child connection that is kept; nothing else changes. The node must have no self-loop that is
  kept, since the joined connections of a self-loop mention the node itself.
\<close>

lemma removeNode_reconnect:
  assumes wf: "wf_graph g" and n: "has_node_obj g n"
    and loops: "\<And>c. c \<in> conn_objs g \<Longrightarrow> gc_from c = n \<Longrightarrow> gc_to c = n \<Longrightarrow> skip c"
  obtains g' new where "removeNode n True (Some skip) g = Inr (g', Some new)"
    and "set new = {i\<lparr>gc_to := gc_to out, gc_inputIndex := gc_inputIndex out\<rparr> | i out.
          i \<in> conn_objs g \<and> gc_to i = n \<and> \<not> skip i \<and>
          out \<in> conn_objs g \<and> gc_from out = n \<and> \<not> skip out}"
    and "wf_graph g'" and "\<And>m. has_node_obj g' m \<longleftrightarrow> has_node_obj g m \<and> m \<noteq> n"
    and "conn_objs g' \<subseteq> {c \<in> conn_objs g. gc_from c \<noteq> n \<and> gc_to c \<noteq> n} \<union> set new"
    and "inj_on makeKey (conn_objs g \<union> set new) \<Longrightarrow>
          conn_objs g' = {c \<in> conn_objs g. gc_from c \<noteq> n \<and> gc_to c \<noteq> n} \<union> set new"
proof -
  let ?ins = "filter (\<lambda>c. gc_to c = n) (values_of (dg_connections g))"
  let ?outs = "filter (\<lambda>c. gc_from c = n) (values_of (dg_connections g))"
  define new where "new = join_connections skip ?ins ?outs"
  define d where "d = drop_connections_of n g"
  define f where "f = fold set_connection new d"
  have set_new: "set new = {i\<lparr>gc_to := gc_to out, gc_inputIndex := gc_inputIndex out\<rparr> | i out.
          i \<in> conn_objs g \<and> gc_to i = n \<and> \<not> skip i \<and>
          out \<in> conn_objs g \<and> gc_from out = n \<and> \<not> skip out}"
    unfolding new_def set_join_connections by auto
  have ends: "has_node_obj d (gc_from c) \<and> has_node_obj d (gc_to c)
      \<and> gc_from c \<noteq> n \<and> gc_to c \<noteq> n" if "c \<in> set new" for c
    using that loops wf_conn_nodes [OF wf] unfolding set_new d_def by auto
  have wfd: "wf_graph d" unfolding d_def by (rule drop_connections_wf [OF wf])
  have f: "wf_graph f" "\<And>m. has_node_obj f m = has_node_obj g m"
    "conn_objs f \<subseteq> conn_objs d \<union> set new"
    "inj_on makeKey (conn_objs d \<union> set new) \<Longrightarrow> conn_objs f = conn_objs d \<union> set new"
    unfolding f_def using fold_set_connection [OF wfd, of new] ends
    by (auto simp: d_def)
  have cd: "conn_objs d = {c \<in> conn_objs g. gc_from c \<noteq> n \<and> gc_to c \<noteq> n}"
    by (simp add: d_def conn_objs_drop)
  have names: "node_name m \<noteq> node_name n" if "has_node_obj g m" "m \<noteq> n" for m
    using that n has_node_obj_name_inj by blast
  have wff: "wf_graph (delete_node_name (node_name n) f)"
  proof (rule delete_node_wf [OF f(1)])
    fix c
    assume c: "c \<in> conn_objs f"
    then have "c \<in> conn_objs d \<or> c \<in> set new" using f(3) by blast
    then have "gc_from c \<noteq> n \<and> gc_to c \<noteq> n" using ends by (auto simp: cd)
    then show "node_name (gc_from c) \<noteq> node_name n \<and> node_name (gc_to c) \<noteq> node_name n"
      using names wf_conn_nodes [OF f(1) c] by (simp add: f(2))
  qed
  have inj: "inj_on makeKey (conn_objs g \<union> set new) \<Longrightarrow> inj_on makeKey (conn_objs d \<union> set new)"
    by (erule inj_on_subset) (auto simp: cd)
  show thesis
  proof (rule that [of "delete_node_name (node_name n) f" new])
    show "removeNode n True (Some skip) g = Inr (delete_node_name (node_name n) f, Some new)"
      by (simp add: removeNode_def getDirectParentConnections_ok getDirectChildConnections_ok n
          new_def d_def f_def Let_def)
  qed (use set_new wff f cd inj names in \<open>auto simp: has_node_obj_delete\<close>)
qed

lemma removeNode_plain:
  assumes "wf_graph g" and "has_node_obj g n"
  obtains g' where "removeNode n False s g = Inr (g', None)" and "wf_graph g'"
    and "\<And>m. has_node_obj g' m \<longleftrightarrow> has_node_obj g m \<and> m \<noteq> n"
    and "conn_objs g' = {c \<in> conn_objs g. gc_from c \<noteq> n \<and> gc_to c \<noteq> n}"
proof -
  let ?g = "delete_node_name (node_name n) (drop_connections_of n g)"
  have names: "node_name m \<noteq> node_name n" if "has_node_obj g m" "m \<noteq> n" for m
    using that assms(2) has_node_obj_name_inj by blast
  have "wf_graph ?g"
  proof (rule delete_node_wf)
    fix c
    assume "c \<in> conn_objs (drop_connections_of n g)"
    then show "node_name (gc_from c) \<noteq> node_name n \<and> node_name (gc_to c) \<noteq> node_name n"
      using names wf_conn_nodes [OF assms(1)] by (auto simp: conn_objs_drop)
  qed (rule drop_connections_wf [OF assms(1)])
  then show thesis
    using names by (intro that [of ?g]) (auto simp: removeNode_def has_node_obj_delete conn_objs_drop)
qed

section \<open>Keys of connections\<close>

lemma dash_split:
  assumes "CHR ''-'' \<notin> set a" and "CHR ''-'' \<notin> set b"
  shows "a @ CHR ''-'' # x = b @ CHR ''-'' # y \<longleftrightarrow> a = b \<and> x = y"
  using assms
proof (induction a arbitrary: b)
  case Nil
  then show ?case by (cases b) auto
next
  case (Cons c a)
  then show ?case by (cases b) auto
qed

lemma makeKey_inject:
  assumes "makeKey c = makeKey d"
    and "CHR ''-'' \<notin> set (node_name (gc_from c))" and "CHR ''-'' \<notin> set (node_name (gc_from d))"
    and "CHR ''-'' \<notin> set (gc_type c)" and "CHR ''-'' \<notin> set (gc_type d)"
  shows "node_name (gc_from c) = node_name (gc_from d)" and "gc_type c = gc_type d"
    and "gc_outputIndex c = gc_outputIndex d" and "gc_inputIndex c = gc_inputIndex d"
    and "node_name (gc_to c) = node_name (gc_to d)"
  using assms by (simp_all add: makeKey_def dash_split nat_str_no_dash)

text \<open>Names and connection types without a dash: then no two connections share a key.\<close>

definition plain_names :: "DirectedGraph \<Rightarrow> bool" where
  "plain_names g \<longleftrightarrow> (\<forall>n \<in> node_objs g. CHR ''-'' \<notin> set (node_name n))
     \<and> (\<forall>c \<in> conn_objs g. CHR ''-'' \<notin> set (gc_type c))"

lemma plain_names_inj:
  assumes "\<And>n. n \<in> node_objs g \<Longrightarrow> CHR ''-'' \<notin> set (node_name n)"
    and "\<And>c. c \<in> C \<Longrightarrow> has_node_obj g (gc_from c) \<and> has_node_obj g (gc_to c)
           \<and> CHR ''-'' \<notin> set (gc_type c)"
  shows "inj_on makeKey C"
proof (rule inj_onI)
  fix c d
  assume cd: "c \<in> C" "d \<in> C" "makeKey c = makeKey d"
  note eqs = makeKey_inject [OF cd(3)]
  from cd assms have "gc_from c = gc_from d" "gc_to c = gc_to d" "gc_type c = gc_type d"
    "gc_outputIndex c = gc_outputIndex d" "gc_inputIndex c = gc_inputIndex d"
    by (auto intro!: eqs has_node_obj_name_inj [of g] simp: node_objs_def)
  then show "c = d" by simp
qed

section \<open>Cloning\<close>

lemma map_set_new: "k \<notin> set (keys_of m) \<Longrightarrow> map_set k v m = m @ [(k, v)]"
  by (simp add: map_set_def)

lemma addNodes_new:
  assumes "distinct (keys_of (dg_nodes g) @ map node_name ns)"
  shows "addNodes ns g = g\<lparr>dg_nodes := dg_nodes g @ map (\<lambda>n. (node_name n, n)) ns\<rparr>"
  using assms
proof (induction ns arbitrary: g)
  case Nil
  then show ?case by (simp add: addNodes_def)
next
  case (Cons n ns)
  then have "addNode n g = g\<lparr>dg_nodes := dg_nodes g @ [(node_name n, n)]\<rparr>"
    by (simp add: addNode_def map_set_new del: set_map)
  with Cons.IH [of "addNode n g"] Cons.prems show ?case by (simp add: addNodes_def)
qed

lemma addConnections_new:
  assumes "distinct (keys_of (dg_connections g) @ map makeKey cs)"
    and "\<And>c. c \<in> set cs \<Longrightarrow> has_node_obj g (gc_from c) \<and> has_node_obj g (gc_to c)"
  shows "addConnections (map as_input cs) g
    = Inr (g\<lparr>dg_connections := dg_connections g @ map (\<lambda>c. (makeKey c, c)) cs\<rparr>)"
  using assms
proof (induction cs arbitrary: g)
  case Nil
  then show ?case by (simp add: addConnections_def)
next
  case (Cons c cs)
  have s: "set_connection c g = g\<lparr>dg_connections := dg_connections g @ [(makeKey c, c)]\<rparr>"
    using Cons.prems(1) by (simp add: set_connection_def map_set_new del: set_map)
  have "addConnections (map as_input cs) (set_connection c g)
      = Inr (g\<lparr>dg_connections := dg_connections g @ map (\<lambda>c. (makeKey c, c)) (c # cs)\<rparr>)"
    using Cons.IH [of "set_connection c g"] Cons.prems
    by (simp add: s has_node_obj_def)
  with Cons.prems(2) show ?case by (simp add: addConnections_def addConnection_as_input)
qed

lemma map_entries_id: "(\<And>e. e \<in> set m \<Longrightarrow> fst e = k (snd e)) \<Longrightarrow> map (\<lambda>v. (k v, v)) (values_of m) = m"
  by (induction m) (auto simp: prod_eq_iff)

lemma addNodes_entries:
  assumes "distinct (keys_of N)" and "\<And>e. e \<in> set N \<Longrightarrow> fst e = node_name (snd e)"
  shows "addNodes (values_of N) empty_graph = empty_graph\<lparr>dg_nodes := N\<rparr>"
proof -
  have nodes: "map (\<lambda>n. (node_name n, n)) (values_of N) = N" using assms(2) by (rule map_entries_id)
  have "keys_of N = map node_name (values_of N)" using assms(2) by simp
  with assms(1) have "distinct (map node_name (values_of N))" by (simp only:)
  then show ?thesis by (subst addNodes_new) (simp_all add: empty_graph_def nodes del: map_map)
qed

lemma rebuild_nodes:
  assumes "wf_graph g"
  shows "addNodes (values_of (dg_nodes g)) empty_graph = empty_graph\<lparr>dg_nodes := dg_nodes g\<rparr>"
  using assms by (intro addNodes_entries) (simp_all add: wf_graph_def)

lemma clone_id:
  assumes "wf_graph g"
  shows "clone g = Inr g"
proof -
  have conns: "map (\<lambda>c. (makeKey c, c)) (values_of (dg_connections g)) = dg_connections g"
    using assms by (intro map_entries_id) (simp add: wf_graph_def)
  have "keys_of (dg_connections g) = map makeKey (values_of (dg_connections g))"
    using assms by (simp add: wf_graph_def)
  moreover have "distinct (keys_of (dg_connections g))" using assms by (simp add: wf_graph_def)
  ultimately have d: "distinct (map makeKey (values_of (dg_connections g)))" by (simp only:)
  have "addConnections (map as_input (values_of (dg_connections g))) (empty_graph\<lparr>dg_nodes := dg_nodes g\<rparr>)
      = Inr (empty_graph\<lparr>dg_nodes := dg_nodes g, dg_connections := dg_connections g\<rparr>)"
    using d wf_conn_nodes [OF assms]
    by (subst addConnections_new) (auto simp: empty_graph_def has_node_obj_def conns simp del: map_map)
  then show ?thesis
    by (simp add: clone_def getNodes_def getConnections_def rebuild_nodes [OF assms] del: map_map)
qed

section \<open>An example graph\<close>

definition ex_node :: "nat \<Rightarrow> string \<Rightarrow> INode" where
  "ex_node i name = \<lparr>node_ref = i, node_id = name, node_name = name, node_typeVersion = 1,
     node_type = ''n8n-nodes-base.set'', node_position = (0, 0), node_disabled = None,
     node_executeOnce = None, node_alwaysOutputData = None, node_retryOnFail = None, node_maxTries = None,
     node_onError = None, node_continueOnFail = None, node_parameters = [], node_credentials = None,
     node_rewireOutputLogTo = None, node_forceCustomOperation = None\<rparr>"

definition ex_conn :: "INode \<Rightarrow> INode \<Rightarrow> GraphConnection" where
  "ex_conn a b = \<lparr>gc_from = a, gc_to = b, gc_type = Main, gc_outputIndex = 0, gc_inputIndex = 0\<rparr>"

abbreviation ex_t :: INode where "ex_t \<equiv> ex_node 0 ''t''"
abbreviation ex_a :: INode where "ex_a \<equiv> ex_node 1 ''a''"
abbreviation ex_b :: INode where "ex_b \<equiv> ex_node 2 ''b''"
abbreviation ex_c :: INode where "ex_c \<equiv> ex_node 3 ''c''"

definition graph_of :: "INode list \<Rightarrow> GraphConnection list \<Rightarrow> DirectedGraph" where
  "graph_of ns cs = \<lparr>dg_nodes = map (\<lambda>n. (node_name n, n)) ns, dg_connections = map (\<lambda>c. (makeKey c, c)) cs\<rparr>"

text \<open>The trigger \<open>t\<close> leads to \<open>a\<close>, \<open>a\<close> and \<open>b\<close> form a loop, \<open>b\<close> leads to \<open>c\<close>.\<close>

definition ex_graph :: DirectedGraph where
  "ex_graph = graph_of [ex_t, ex_a, ex_b, ex_c]
     [ex_conn ex_t ex_a, ex_conn ex_a ex_b, ex_conn ex_b ex_a, ex_conn ex_b ex_c]"

lemma ex_graph_wf: "wf_graph ex_graph"
  by code_simp

lemma ex_graph_nodes: "has_node_obj ex_graph ex_t" "has_node_obj ex_graph ex_a" "has_node_obj ex_graph ex_b"
  "has_node_obj ex_graph ex_c"
  by code_simp+

section \<open>Properties\<close>

text \<open>
  \<^verbatim>\<open>getChildren\<close> of a node of a well-formed graph returns, and the set it returns holds
  exactly the nodes that a nonempty path of connections leads to (the node itself when it is on
  a cycle).
\<close>

lemma getChildren_correct:
  assumes "wf_graph g" and "has_node_obj g n"
  shows "\<exists>R. getChildren g n = Inr R \<and> distinct R \<and> set R = (dg_edges g)\<^sup>+ `` {n}"
  by (rule getChildren_reachable [OF assms])

text \<open>
  \<^verbatim>\<open>getParentConnections\<close> returns exactly the connections whose target reaches the node:
  the whole upstream of the node, and nothing else, each connection once.
\<close>

lemma getParentConnections_correct:
  assumes "wf_graph g" and "has_node_obj g n"
  shows "\<exists>R. getParentConnections g n = Inr R \<and> distinct R
           \<and> set R = {c \<in> conn_objs g. (gc_to c, n) \<in> (dg_edges g)\<^sup>*}"
  by (rule getParentConnections_reaching [OF assms])

text \<open>
  \<^verbatim>\<open>depthFirstSearch\<close> terminates on every well-formed graph, also with cycles: a node it
  returns satisfies the predicate and is reachable, and when it returns \<^verbatim>\<open>undefined\<close> no reachable
  node satisfies it.
\<close>

lemma depthFirstSearch_correct:
  assumes "wf_graph g" and "has_node_obj g from"
  shows "\<exists>r. depthFirstSearch g from fn = Inr r
    \<and> (case r of Some m \<Rightarrow> fn m \<and> (from, m) \<in> (dg_edges g)\<^sup>*
               | None \<Rightarrow> \<forall>m. (from, m) \<in> (dg_edges g)\<^sup>* \<longrightarrow> \<not> fn m)"
  by (rule depthFirstSearch_result [OF assms])

text \<open>
  \<^verbatim>\<open>removeNode\<close> with \<^verbatim>\<open>reconnectConnections\<close>, on a node with no self-loop among the kept
  connections: it returns as new connections every kept incoming connection joined with every
  kept outgoing one; the graph afterwards is well-formed, has all nodes but the removed one, and
  (when no two of the keys involved collide) exactly the old connections that did not touch the
  node together with the new ones.
\<close>

lemma removeNode_correct:
  assumes "wf_graph g" and "has_node_obj g n"
    and "\<And>c. c \<in> conn_objs g \<Longrightarrow> gc_from c = n \<Longrightarrow> gc_to c = n \<Longrightarrow> skip c"
  shows "\<exists>g' new. removeNode n True (Some skip) g = Inr (g', Some new)
    \<and> set new = {i\<lparr>gc_to := gc_to out, gc_inputIndex := gc_inputIndex out\<rparr> | i out.
          i \<in> conn_objs g \<and> gc_to i = n \<and> \<not> skip i \<and>
          out \<in> conn_objs g \<and> gc_from out = n \<and> \<not> skip out}
    \<and> wf_graph g' \<and> node_objs g' = node_objs g - {n}
    \<and> (inj_on makeKey (conn_objs g \<union> set new) \<longrightarrow>
          conn_objs g' = {c \<in> conn_objs g. gc_from c \<noteq> n \<and> gc_to c \<noteq> n} \<union> set new)"
  by (rule removeNode_reconnect [OF assms]; assumption?) (auto simp: node_objs_def)

text \<open>
  \<^verbatim>\<open>clone\<close> of a well-formed graph is the graph itself: same nodes, same connections, same
  iteration order; none of its assertions can fail.
\<close>

lemma clone_correct:
  assumes "wf_graph g"
  shows "clone g = Inr g"
  by (rule clone_id [OF assms])

end
