(* ===== verification/Tarjan_Components.thy ===== *)
theory Tarjan_Components
  imports Directed_Graph
begin

text \<open>
  \<^verbatim>\<open>DirectedGraph.getStronglyConnectedComponents\<close>
  (\<^verbatim>\<open>partial-execution-utils/directed-graph.ts\<close>): the local variables of the method as a
  record, the local function \<^verbatim>\<open>followNode\<close> and its loop as a pair of mutually recursive
  functions, and what the method returns: pairwise disjoint sets of mutually reachable nodes.
  The sets need not be whole components, and a node may be in none of them
  (\<open>getStronglyConnectedComponents_incomplete\<close>).
\<close>

section \<open>The algorithm\<close>

text \<open>The array \<^verbatim>\<open>stack\<close> is kept with its top first.\<close>

record tarjan =
  t_id :: nat
  t_visited :: "INode list"
  t_ids :: "(INode \<times> nat) list"
  t_low :: "(INode \<times> nat) list"
  t_stack :: "INode list"
  t_sccs :: "INode list list"

definition tarjan_init :: tarjan where
  "tarjan_init = \<lparr>t_id = 0, t_visited = [], t_ids = [], t_low = [], t_stack = [], t_sccs = []\<rparr>"

definition enter_node :: "INode \<Rightarrow> tarjan \<Rightarrow> tarjan" where
  "enter_node node st = st\<lparr>
     t_visited := set_add node (t_visited st),
     t_low := map_set node (t_id st) (t_low st),
     t_ids := map_set node (t_id st) (t_ids st),
     t_id := t_id st + 1,
     t_stack := node # t_stack st\<rparr>"

definition min_low :: "INode \<Rightarrow> INode \<Rightarrow> tarjan \<Rightarrow> tarjan res" where
  "min_low node child st =
     (if child \<in> set (t_stack st) then
        (case (map_get (t_low st) child, map_get (t_low st) node) of
           (Some childLowLinkValue, Some ownLowLinkValue) \<Rightarrow>
             Inr (st\<lparr>t_low := map_set node (min childLowLinkValue ownLowLinkValue) (t_low st)\<rparr>)
         | _ \<Rightarrow> Inl AssertionError)
      else Inr st)"

fun pop_scc :: "(INode \<times> nat) list \<Rightarrow> nat \<Rightarrow> INode list \<Rightarrow> INode list \<Rightarrow> INode list \<times> INode list" where
  "pop_scc low ownId [] scc = ([], scc)"
| "pop_scc low ownId (next # stack) scc =
     (if map_get low next = Some ownId then pop_scc low ownId stack (set_add next scc)
      else (next # stack, scc))"

definition close_node :: "INode \<Rightarrow> tarjan \<Rightarrow> tarjan res" where
  "close_node node st =
     (case (map_get (t_ids st) node, map_get (t_low st) node) of
        (Some ownId, Some ownLowLinkValue) \<Rightarrow>
          (if ownId = ownLowLinkValue then
             let (stack, scc) = pop_scc (t_low st) ownId (t_stack st) []
             in Inr (st\<lparr>t_stack := stack,
                        t_sccs := (if scc \<noteq> [] then t_sccs st @ [scc] else t_sccs st)\<rparr>)
           else Inr st)
      | _ \<Rightarrow> Inl AssertionError)"

function followNode :: "DirectedGraph \<Rightarrow> INode \<Rightarrow> tarjan \<Rightarrow> tarjan res"
  and followChildren :: "DirectedGraph \<Rightarrow> INode \<Rightarrow> INode list \<Rightarrow> tarjan \<Rightarrow> tarjan res"
where
  "followNode g node st =
     (if node \<in> set (t_visited st) then Inr st
      else bind_res (getDirectChildConnections g node) (\<lambda>cs.
           bind_res (followChildren g node (map gc_to cs) (enter_node node st)) (\<lambda>st'.
             close_node node st')))"
| "followChildren g node [] st = Inr st"
| "followChildren g node (child # children) st =
     bind_res (followNode g child st) (\<lambda>st1.
     bind_res (min_low node child st1) (\<lambda>st2.
       followChildren g node children st2))"
  by pat_completeness auto

lemma visited_simps [simp]:
  "t_visited (enter_node node st) = set_add node (t_visited st)"
  "min_low node child st = Inr st1 \<Longrightarrow> t_visited st1 = t_visited st"
  "close_node node st = Inr st2 \<Longrightarrow> t_visited st2 = t_visited st"
  by (auto simp: enter_node_def min_low_def close_node_def Let_def split: if_splits option.splits prod.splits)

lemma followNode_mono:
  "followNode_followChildren_dom (Inl (g, node, st)) \<Longrightarrow>
     followNode g node st = Inr st' \<Longrightarrow> set (t_visited st) \<subseteq> set (t_visited st')"
  "followNode_followChildren_dom (Inr (g, node, cs, st)) \<Longrightarrow>
     followChildren g node cs st = Inr st' \<Longrightarrow> set (t_visited st) \<subseteq> set (t_visited st')"
proof (induction g node st and g node cs st arbitrary: st' and st'
    rule: followNode_followChildren.pinduct)
  case (1 g node st)
  then show ?case
    by (fastforce simp: followNode.psimps bind_res_eq_Inr split: if_splits)
next
  case (2 g node st)
  then show ?case by (simp add: followChildren.psimps)
next
  case (3 g node child children st)
  from 3(1) "3.prems" obtain st1 st2 where st: "followNode g child st = Inr st1"
    "min_low node child st1 = Inr st2" "followChildren g node children st2 = Inr st'"
    by (auto simp: followChildren.psimps bind_res_eq_Inr)
  from "3.IH"(1) [OF st(1)] "3.IH"(2) [OF st(1,2,3)] st(2) show ?case by auto
qed

termination followNode
proof (relation "measures
    [\<lambda>x. case x of Inl (g, node, st) \<Rightarrow> card (node_objs g - set (t_visited st))
                | Inr (g, node, cs, st) \<Rightarrow> card (node_objs g - set (t_visited st)),
     \<lambda>x. case x of Inl (g, node, st) \<Rightarrow> 0 | Inr (g, node, cs, st) \<Rightarrow> Suc (length cs)]", goal_cases)
  case 1
  then show ?case by simp
next
  case (2 g node st cs)
  then have "card (node_objs g - set (t_visited (enter_node node st))) < card (node_objs g - set (t_visited st))"
    by (intro card_node_objs_less [where x = node])
      (auto simp: node_objs_def getDirectChildConnections_eq_Inr)
  then show ?case by simp
next
  case (3 g node child children st)
  then show ?case by simp
next
  case (4 g node child children st st1 st2)
  then have "set (t_visited st) \<subseteq> set (t_visited st2)" using followNode_mono(1) by fastforce
  from card_node_objs_le [OF this, of g] show ?case by auto
qed

declare followNode.simps [simp del] followChildren.simps [simp del]

definition getStronglyConnectedComponents :: "DirectedGraph \<Rightarrow> INode list list res" where
  "getStronglyConnectedComponents g =
     bind_res (fold_res (followNode g) (values_of (dg_nodes g)) tarjan_init) (\<lambda>st. Inr (t_sccs st))"

section \<open>What the components are\<close>

text \<open>
  The invariant of the method's local variables. A low-link value of a node is the id of some
  node it reaches, and at most its own id.
\<close>

definition mutually_reachable :: "DirectedGraph \<Rightarrow> INode set \<Rightarrow> bool" where
  "mutually_reachable g X \<longleftrightarrow> (\<forall>x \<in> X. \<forall>y \<in> X. (x, y) \<in> (dg_edges g)\<^sup>*)"

definition link_inv :: "DirectedGraph \<Rightarrow> nat \<Rightarrow> (INode \<rightharpoonup> nat) \<Rightarrow> (INode \<rightharpoonup> nat) \<Rightarrow> bool" where
  "link_inv g i ids low \<longleftrightarrow>
     (\<forall>u k. ids u = Some k \<longrightarrow> k < i) \<and>
     (\<forall>u v k. ids u = Some k \<longrightarrow> ids v = Some k \<longrightarrow> u = v) \<and>
     (\<forall>v k. low v = Some k \<longrightarrow>
        (\<exists>u. ids u = Some k \<and> (v, u) \<in> (dg_edges g)\<^sup>*) \<and> (\<forall>j. ids v = Some j \<longrightarrow> k \<le> j))"

definition scc_inv :: "DirectedGraph \<Rightarrow> INode list \<Rightarrow> INode list \<Rightarrow> INode list list \<Rightarrow> bool" where
  "scc_inv g visited stack sccs \<longleftrightarrow>
     distinct stack \<and> set stack \<subseteq> set visited \<and> distinct (concat sccs) \<and>
     set (concat sccs) \<subseteq> set visited - set stack \<and>
     (\<forall>scc \<in> set sccs. scc \<noteq> [] \<and> mutually_reachable g (set scc))"

definition tarjan_inv :: "DirectedGraph \<Rightarrow> tarjan \<Rightarrow> bool" where
  "tarjan_inv g st \<longleftrightarrow>
     set (t_visited st) \<subseteq> node_objs g \<and>
     dom (map_get (t_ids st)) = set (t_visited st) \<and> dom (map_get (t_low st)) = set (t_visited st) \<and>
     link_inv g (t_id st) (map_get (t_ids st)) (map_get (t_low st)) \<and>
     scc_inv g (t_visited st) (t_stack st) (t_sccs st)"

text \<open>What a call may change: it visits more nodes, all of them reachable from \<open>X\<close>.\<close>

definition tarjan_ext :: "DirectedGraph \<Rightarrow> INode set \<Rightarrow> tarjan \<Rightarrow> tarjan \<Rightarrow> bool" where
  "tarjan_ext g X st st' \<longleftrightarrow>
     set (t_visited st) \<subseteq> set (t_visited st') \<and>
     (\<forall>u \<in> set (t_visited st). map_get (t_ids st') u = map_get (t_ids st) u) \<and>
     set (t_visited st') - set (t_visited st) \<subseteq> (dg_edges g)\<^sup>* `` X"

lemma tarjan_ext_refl: "tarjan_ext g X st st"
  by (simp add: tarjan_ext_def)

lemma tarjan_ext_trans:
  assumes "tarjan_ext g X st st1" and "tarjan_ext g Y st1 st2"
    and "(dg_edges g)\<^sup>* `` X \<union> (dg_edges g)\<^sup>* `` Y \<subseteq> (dg_edges g)\<^sup>* `` Z"
  shows "tarjan_ext g Z st st2"
proof -
  have "set (t_visited st) \<subseteq> set (t_visited st1)" "set (t_visited st1) \<subseteq> set (t_visited st2)"
    "set (t_visited st1) \<subseteq> set (t_visited st) \<union> (dg_edges g)\<^sup>* `` X"
    "set (t_visited st2) \<subseteq> set (t_visited st1) \<union> (dg_edges g)\<^sup>* `` Y"
    using assms(1,2) unfolding tarjan_ext_def by auto
  moreover from this(1) assms(1,2)
  have "\<forall>u \<in> set (t_visited st). map_get (t_ids st2) u = map_get (t_ids st) u"
    unfolding tarjan_ext_def by auto
  moreover have "A2 - A \<subseteq> ZZ" if "A1 \<subseteq> A \<union> XX" "A2 \<subseteq> A1 \<union> YY" "XX \<union> YY \<subseteq> ZZ" for A A1 A2 XX YY ZZ :: "INode set"
    using that by blast
  ultimately show ?thesis using assms(3) unfolding tarjan_ext_def by (meson order_trans)
qed

lemma link_invD:
  assumes "link_inv g i ids low" and "low v = Some k"
  obtains u where "ids u = Some k" and "(v, u) \<in> (dg_edges g)\<^sup>*" and "\<And>j. ids v = Some j \<Longrightarrow> k \<le> j"
proof -
  have "(\<exists>u. ids u = Some k \<and> (v, u) \<in> (dg_edges g)\<^sup>*) \<and> (\<forall>j. ids v = Some j \<longrightarrow> k \<le> j)"
    using assms unfolding link_inv_def by simp
  with that show thesis by blast
qed

lemma tarjan_inv_init: "tarjan_inv g tarjan_init"
  by (simp add: tarjan_inv_def tarjan_init_def link_inv_def scc_inv_def)

lemma link_inv_enter:
  assumes "link_inv g i ids low" and "ids node = None"
  shows "link_inv g (Suc i) (ids(node \<mapsto> i)) (low(node \<mapsto> i))"
proof -
  have "\<exists>u. (ids(node \<mapsto> i)) u = Some k \<and> (v, u) \<in> (dg_edges g)\<^sup>*"
    if low: "(low(node \<mapsto> i)) v = Some k" for v k
  proof (cases "v = node")
    case True
    with low show ?thesis by (intro exI [of _ node]) simp
  next
    case False
    with low have "low v = Some k" by simp
    with assms(1) obtain u where "ids u = Some k" "(v, u) \<in> (dg_edges g)\<^sup>*" by (rule link_invD)
    with assms(2) show ?thesis by (intro exI [of _ u]) auto
  qed
  moreover have "k < Suc i" if "(ids(node \<mapsto> i)) v = Some k" for v k
    using that assms(1) unfolding link_inv_def by (auto simp: less_Suc_eq split: if_splits)
  moreover have "u = v" if "(ids(node \<mapsto> i)) u = Some k" "(ids(node \<mapsto> i)) v = Some k" for u v k
    using that assms(1) unfolding link_inv_def by (auto split: if_splits)
  moreover have "k \<le> j" if "(low(node \<mapsto> i)) v = Some k" "(ids(node \<mapsto> i)) v = Some j" for v k j
    using that assms(1) unfolding link_inv_def by (auto split: if_splits)
  ultimately show ?thesis unfolding link_inv_def by blast
qed

lemma link_inv_min:
  assumes "link_inv g i ids low" and "ids u = Some k" and "(node, u) \<in> (dg_edges g)\<^sup>*"
    and "\<And>j. ids node = Some j \<Longrightarrow> k \<le> j"
  shows "link_inv g i ids (low(node \<mapsto> k))"
  using assms unfolding link_inv_def by auto

lemma enter_node_inv:
  assumes "tarjan_inv g st" and "node \<notin> set (t_visited st)" and "node \<in> node_objs g"
  shows "tarjan_inv g (enter_node node st)"
proof -
  have "map_get (t_ids st) node = None" using assms(1,2) unfolding tarjan_inv_def by blast
  with link_inv_enter assms(1) have "link_inv g (Suc (t_id st)) ((map_get (t_ids st))(node \<mapsto> t_id st))
      ((map_get (t_low st))(node \<mapsto> t_id st))" unfolding tarjan_inv_def by blast
  moreover have "scc_inv g (set_add node (t_visited st)) (node # t_stack st) (t_sccs st)"
    using assms(1,2) unfolding tarjan_inv_def scc_inv_def by auto
  ultimately show ?thesis
    using assms unfolding tarjan_inv_def by (simp add: enter_node_def js_map.get_put)
qed

lemma min_low_inv:
  assumes inv: "tarjan_inv g st" and node: "node \<in> set (t_visited st)" and edge: "(node, child) \<in> dg_edges g"
  shows "\<exists>st'. min_low node child st = Inr st' \<and> tarjan_inv g st'
    \<and> t_visited st' = t_visited st \<and> t_ids st' = t_ids st"
proof (cases "child \<in> set (t_stack st)")
  case False
  then have "min_low node child st = Inr st" by (simp add: min_low_def)
  with inv show ?thesis by blast
next
  case True
  with inv have "child \<in> dom (map_get (t_low st))" "node \<in> dom (map_get (t_low st))"
    using node unfolding tarjan_inv_def scc_inv_def by auto
  then obtain lc ln where low: "map_get (t_low st) child = Some lc" "map_get (t_low st) node = Some ln" by auto
  let ?m = "min lc ln"
  have link: "link_inv g (t_id st) (map_get (t_ids st)) (map_get (t_low st))"
    using inv unfolding tarjan_inv_def by simp
  from link low(1) obtain uc where uc: "map_get (t_ids st) uc = Some lc" "(child, uc) \<in> (dg_edges g)\<^sup>*"
    by (rule link_invD)
  from link low(2) obtain un where un: "map_get (t_ids st) un = Some ln" "(node, un) \<in> (dg_edges g)\<^sup>*"
    "\<And>j. map_get (t_ids st) node = Some j \<Longrightarrow> ln \<le> j" by (rule link_invD) blast
  have "(node, uc) \<in> (dg_edges g)\<^sup>*" using edge uc(2) by (rule converse_rtrancl_into_rtrancl)
  then obtain u0 where "map_get (t_ids st) u0 = Some ?m" "(node, u0) \<in> (dg_edges g)\<^sup>*"
    using uc un that by (cases "lc \<le> ln") (simp_all add: min_def)
  with link have "link_inv g (t_id st) (map_get (t_ids st)) ((map_get (t_low st))(node \<mapsto> ?m))"
    using un(3) by (intro link_inv_min) (auto simp: min_le_iff_disj)
  then have "tarjan_inv g (st\<lparr>t_low := map_set node ?m (t_low st)\<rparr>)"
    using inv node unfolding tarjan_inv_def by (simp add: js_map.get_put insert_absorb)
  moreover have "min_low node child st = Inr (st\<lparr>t_low := map_set node ?m (t_low st)\<rparr>)"
    using True low by (simp add: min_low_def)
  ultimately show ?thesis by auto
qed

lemma pop_scc_spec:
  "distinct (scc @ stack) \<Longrightarrow> \<exists>pre. stack = pre @ fst (pop_scc low k stack scc)
     \<and> snd (pop_scc low k stack scc) = scc @ pre \<and> (\<forall>x \<in> set pre. map_get low x = Some k)"
proof (induction stack arbitrary: scc)
  case Nil
  then show ?case by simp
next
  case (Cons n stack)
  show ?case
  proof (cases "map_get low n = Some k")
    case True
    from Cons.prems have "distinct ((scc @ [n]) @ stack)" by simp
    from Cons.IH [OF this] obtain pre where "stack = pre @ fst (pop_scc low k stack (scc @ [n]))"
      "snd (pop_scc low k stack (scc @ [n])) = (scc @ [n]) @ pre" "\<forall>x \<in> set pre. map_get low x = Some k"
      by blast
    with True Cons.prems show ?thesis by (intro exI [of _ "n # pre"]) (simp add: set_add_def)
  next
    case False
    then show ?thesis by (intro exI [of _ "[]"]) simp
  qed
qed

text \<open>
  Closing a node: the popped nodes reach it by their low-link value, and it reaches them since
  they were visited after it.
\<close>

lemma close_node_inv:
  assumes inv: "tarjan_inv g st" and id: "map_get (t_ids st) node = Some i"
    and later: "\<And>v j. map_get (t_ids st) v = Some j \<Longrightarrow> i \<le> j \<Longrightarrow> (node, v) \<in> (dg_edges g)\<^sup>*"
  shows "\<exists>st'. close_node node st = Inr st' \<and> tarjan_inv g st'
    \<and> t_visited st' = t_visited st \<and> t_ids st' = t_ids st"
proof -
  from inv have scc: "scc_inv g (t_visited st) (t_stack st) (t_sccs st)"
    and link: "link_inv g (t_id st) (map_get (t_ids st)) (map_get (t_low st))"
    and dom: "dom (map_get (t_ids st)) = dom (map_get (t_low st))"
    unfolding tarjan_inv_def by simp_all
  from dom id obtain l where l: "map_get (t_low st) node = Some l" by blast
  obtain stack' scc' where pop: "pop_scc (t_low st) i (t_stack st) [] = (stack', scc')" by fastforce
  have "distinct ([] @ t_stack st)" using scc by (simp add: scc_inv_def)
  from pop_scc_spec [OF this, of "t_low st" i] pop
  have stk: "t_stack st = scc' @ stack'" and low: "\<forall>x \<in> set scc'. map_get (t_low st) x = Some i" by auto
  have "(x, node) \<in> (dg_edges g)\<^sup>* \<and> (node, x) \<in> (dg_edges g)\<^sup>*" if "x \<in> set scc'" for x
  proof -
    have "map_get (t_low st) x = Some i" using low that by blast
    moreover from this dom obtain j where "map_get (t_ids st) x = Some j" by blast
    ultimately show ?thesis using link id later unfolding link_inv_def by metis
  qed
  then have "mutually_reachable g (set scc')"
    unfolding mutually_reachable_def by (meson rtrancl_trans)
  with scc stk have "scc_inv g (t_visited st) stack' (if scc' \<noteq> [] then t_sccs st @ [scc'] else t_sccs st)"
    unfolding scc_inv_def by auto
  with inv have "tarjan_inv g (st\<lparr>t_stack := stack', t_sccs := (if scc' \<noteq> [] then t_sccs st @ [scc'] else t_sccs st)\<rparr>)"
    unfolding tarjan_inv_def by simp
  moreover have "close_node node st = Inr (if i = l then st\<lparr>t_stack := stack',
      t_sccs := (if scc' \<noteq> [] then t_sccs st @ [scc'] else t_sccs st)\<rparr> else st)"
    using id l pop by (cases "i = l") (simp_all add: close_node_def)
  ultimately show ?thesis using inv by auto
qed


lemma follow_sound:
  "wf_graph g \<Longrightarrow> tarjan_inv g st \<Longrightarrow> node \<in> node_objs g \<Longrightarrow>
     \<exists>st'. followNode g node st = Inr st' \<and> tarjan_inv g st' \<and> tarjan_ext g {node} st st'
       \<and> node \<in> set (t_visited st')"
  "wf_graph g \<Longrightarrow> tarjan_inv g st \<Longrightarrow> node \<in> set (t_visited st) \<Longrightarrow> set cs \<subseteq> dg_edges g `` {node} \<Longrightarrow>
     \<exists>st'. followChildren g node cs st = Inr st' \<and> tarjan_inv g st' \<and> tarjan_ext g (set cs) st st'"
proof (induction g node st and g node cs st rule: followNode_followChildren.induct)
  case (1 g node st)
  show ?case
  proof (cases "node \<in> set (t_visited st)")
    case True
    with 1 show ?thesis by (simp add: followNode.simps [of g node] tarjan_ext_refl)
  next
    case False
    let ?st = "enter_node node st"
    from 1 have "has_node_obj g node" by (simp add: node_objs_def)
    note ds = getDirectChildConnections_ok [OF this]
    have inv: "tarjan_inv g ?st" using enter_node_inv "1.prems" False by blast
    have cs: "set (map gc_to (filter (\<lambda>c. gc_from c = node) (values_of (dg_connections g)))) = dg_edges g `` {node}"
      using children_targets [of node g] by simp
    from "1.IH" [OF False ds "1.prems"(1) inv] obtain st1 where
      st1: "followChildren g node (map gc_to (filter (\<lambda>c. gc_from c = node) (values_of (dg_connections g)))) ?st = Inr st1"
      "tarjan_inv g st1" "tarjan_ext g (dg_edges g `` {node}) ?st st1" unfolding cs by auto
    have old: "k < t_id st" if "map_get (t_ids st) v = Some k" for v k
      using that "1.prems"(2) unfolding tarjan_inv_def link_inv_def by blast
    have id: "map_get (t_ids st1) node = Some (t_id st)"
      using st1(3) unfolding tarjan_ext_def by (simp add: enter_node_def js_map.get_put)
    have ent: "tarjan_ext g {node} st ?st"
      using False "1.prems"(2) unfolding tarjan_ext_def by (auto simp: enter_node_def js_map.get_put)
    have reach: "(dg_edges g)\<^sup>* `` (dg_edges g `` {node}) \<subseteq> (dg_edges g)\<^sup>* `` {node}"
      by (auto intro: converse_rtrancl_into_rtrancl)
    have ext: "tarjan_ext g {node} st st1" using tarjan_ext_trans [OF ent st1(3)] reach by blast
    have "(node, v) \<in> (dg_edges g)\<^sup>*" if v: "map_get (t_ids st1) v = Some j" "t_id st \<le> j" for v j
    proof -
      have "v \<in> set (t_visited st1)" using v(1) st1(2) unfolding tarjan_inv_def by blast
      moreover have "v \<notin> set (t_visited st)"
        using v old [of v j] ext unfolding tarjan_ext_def by auto
      ultimately show ?thesis using ext unfolding tarjan_ext_def by auto
    qed
    then have later: "\<And>v j. map_get (t_ids st1) v = Some j \<Longrightarrow> t_id st \<le> j \<Longrightarrow> (node, v) \<in> (dg_edges g)\<^sup>*"
      by blast
    from close_node_inv [OF st1(2) id] later obtain st2 where st2: "close_node node st1 = Inr st2" "tarjan_inv g st2"
      "t_visited st2 = t_visited st1" "t_ids st2 = t_ids st1" by blast
    have "node \<in> set (t_visited st1)" using st1(3) unfolding tarjan_ext_def by auto
    with ext st1 st2 ds False show ?thesis
      by (simp add: followNode.simps [of g node] tarjan_ext_def)
  qed
next
  case (2 g node st)
  then show ?case by (simp add: followChildren.simps tarjan_ext_refl)
next
  case (3 g node child children st)
  have e: "(node, child) \<in> dg_edges g" using "3.prems"(4) by simp
  have "child \<in> node_objs g" using wf_edge_nodes(2) [OF "3.prems"(1) e] by (simp add: node_objs_def)
  from "3.IH"(1) [OF "3.prems"(1,2) this] obtain st1 where st1: "followNode g child st = Inr st1"
    "tarjan_inv g st1" "tarjan_ext g {child} st st1" by blast
  have n1: "node \<in> set (t_visited st1)" using st1(3) "3.prems"(3) unfolding tarjan_ext_def by blast
  from min_low_inv [OF st1(2) n1 e] obtain st2 where st2: "min_low node child st1 = Inr st2"
    "tarjan_inv g st2" "t_visited st2 = t_visited st1" "t_ids st2 = t_ids st1" by blast
  have n2: "node \<in> set (t_visited st2)" "set children \<subseteq> dg_edges g `` {node}"
    using n1 st2(3) "3.prems"(4) by auto
  from "3.IH"(2) [OF st1(1) st2(1) "3.prems"(1) st2(2) n2] obtain st3 where
    st3: "followChildren g node children st2 = Inr st3" "tarjan_inv g st3"
    "tarjan_ext g (set children) st2 st3" by blast
  have "tarjan_ext g {child} st st2" using st1(3) st2(3,4) by (simp add: tarjan_ext_def)
  from tarjan_ext_trans [OF this st3(3), of "set (child # children)"]
  have "tarjan_ext g (set (child # children)) st st3" by auto
  with st1(1) st2(1) st3 show ?case by (simp add: followChildren.simps)
qed

lemma components_sound:
  assumes "wf_graph g"
  shows "\<exists>sccs. getStronglyConnectedComponents g = Inr sccs \<and> distinct (concat sccs)
    \<and> set (concat sccs) \<subseteq> node_objs g \<and> (\<forall>scc \<in> set sccs. scc \<noteq> [] \<and> mutually_reachable g (set scc))"
proof -
  have "\<exists>st. fold_res (followNode g) (values_of (dg_nodes g)) tarjan_init = Inr st \<and> tarjan_inv g st"
  proof (rule fold_res_total)
    fix x u assume "x \<in> set (values_of (dg_nodes g))" "tarjan_inv g u"
    with follow_sound(1) [OF assms, of u x] wf_node_objs [OF assms]
    show "\<exists>v. followNode g x u = Inr v \<and> tarjan_inv g v" by auto
  qed (rule tarjan_inv_init)
  then obtain st where "fold_res (followNode g) (values_of (dg_nodes g)) tarjan_init = Inr st" "tarjan_inv g st"
    by blast
  then show ?thesis
    unfolding getStronglyConnectedComponents_def tarjan_inv_def scc_inv_def by auto
qed

section \<open>Properties\<close>

text \<open>
  \<^verbatim>\<open>getStronglyConnectedComponents\<close> returns on every well-formed graph; the components it
  returns are nonempty, pairwise disjoint sets of nodes of the graph, and any two nodes of one
  component reach each other.
\<close>

lemma getStronglyConnectedComponents_sound:
  assumes "wf_graph g"
  shows "\<exists>sccs. getStronglyConnectedComponents g = Inr sccs \<and> distinct (concat sccs)
    \<and> set (concat sccs) \<subseteq> node_objs g \<and> (\<forall>scc \<in> set sccs. scc \<noteq> [] \<and> mutually_reachable g (set scc))"
  by (rule components_sound [OF assms])

definition ex_cycle :: DirectedGraph where
  "ex_cycle = graph_of [ex_t, ex_a, ex_b]
     [ex_conn ex_t ex_a, ex_conn ex_a ex_b, ex_conn ex_b ex_a, ex_conn ex_a ex_t]"

lemma ex_cycle_reach: "{ex_t, ex_a, ex_b} \<times> {ex_t, ex_a, ex_b} \<subseteq> (dg_edges ex_cycle)\<^sup>*"
proof -
  have e: "(ex_t, ex_a) \<in> (dg_edges ex_cycle)\<^sup>*" "(ex_a, ex_b) \<in> (dg_edges ex_cycle)\<^sup>*"
    "(ex_b, ex_a) \<in> (dg_edges ex_cycle)\<^sup>*" "(ex_a, ex_t) \<in> (dg_edges ex_cycle)\<^sup>*"
    by (auto simp: dg_edges_def conn_objs_def ex_cycle_def graph_of_def ex_conn_def simp del: conn_objs_fold)
  note rtrancl_trans [OF e(1,2)] rtrancl_trans [OF e(3,4)]
  with e show ?thesis by auto
qed

text \<open>
  The converse fails: a strongly connected component can be missed. In the graph with the
  connections t-a, a-b, b-a and a-t all three nodes reach each other, and yet the method returns
  no component at all: \<open>b\<close> keeps the low-link value that \<open>a\<close> had when \<open>b\<close> was left, before \<open>a\<close>
  met \<open>t\<close>, so the loop that empties the stack stops at \<open>b\<close>.
\<close>

lemma getStronglyConnectedComponents_incomplete:
  "wf_graph ex_cycle \<and> {ex_t, ex_a, ex_b} \<times> {ex_t, ex_a, ex_b} \<subseteq> (dg_edges ex_cycle)\<^sup>*
     \<and> getStronglyConnectedComponents ex_cycle = Inr []"
proof (intro conjI ex_cycle_reach)
  show "wf_graph ex_cycle" by code_simp
  show "getStronglyConnectedComponents ex_cycle = Inr []" by code_simp
qed

end
