(* ===== verification/Partial_Execution.thy ===== *)
theory Partial_Execution
  imports Tarjan_Components
begin

text \<open>
  The steps of a partial execution, one section per file of
  \<^verbatim>\<open>packages/core/src/execution-engine/partial-execution-utils\<close>: which data a node produced in
  an earlier run (\<^verbatim>\<open>get-incoming-data.ts\<close>, \<^verbatim>\<open>run-data-utils.ts\<close>), the removal of disabled
  nodes, the sub-graph between the trigger and the destination, the start nodes, the treatment
  of cycles and the cleaning of run data.
\<close>

section \<open>Data of earlier runs\<close>

text \<open>
  \<^verbatim>\<open>getIncomingData\<close>. The optional chain stops at a missing node, run or \<^verbatim>\<open>data\<close>; the
  property read \<^verbatim>\<open>[connectionType]\<close> is not optional, so \<^verbatim>\<open>.at\<close> on a missing type throws.
\<close>

definition getIncomingData ::
  "IRunData \<Rightarrow> string \<Rightarrow> int \<Rightarrow> string \<Rightarrow> nat \<Rightarrow> INodeExecutionData list option res" where
  "getIncomingData runData nodeName runIndex connectionType outputIndex =
     (case obj_get runData nodeName of
        None \<Rightarrow> Inr None
      | Some runs \<Rightarrow>
         (case arr_at runs runIndex of
            None \<Rightarrow> Inr None
          | Some taskData \<Rightarrow>
             (case td_data taskData of
                None \<Rightarrow> Inr None
              | Some d \<Rightarrow>
                 (case obj_get d connectionType of
                    None \<Rightarrow> Inl JsTypeError
                  | Some outputs \<Rightarrow> Inr (cell_option (cell_get outputs outputIndex))))))"

definition getRunIndexLength :: "IRunData \<Rightarrow> string \<Rightarrow> nat" where
  "getRunIndexLength runData nodeName =
     (case obj_get runData nodeName of None \<Rightarrow> 0 | Some runs \<Rightarrow> length runs)"

function incomingDataFrom ::
  "IRunData \<Rightarrow> string \<Rightarrow> string \<Rightarrow> nat \<Rightarrow> nat \<Rightarrow> nat \<Rightarrow> (INodeExecutionData list \<times> nat) option res" where
  "incomingDataFrom runData nodeName connectionType outputIndex maxRunIndexes runIndex =
     (if runIndex < maxRunIndexes then
        bind_res (getIncomingData runData nodeName (int runIndex) connectionType outputIndex) (\<lambda>data.
          case data of
            Some items \<Rightarrow>
              (if length items > 0 then Inr (Some (items, runIndex))
               else incomingDataFrom runData nodeName connectionType outputIndex maxRunIndexes (runIndex + 1))
          | None \<Rightarrow> incomingDataFrom runData nodeName connectionType outputIndex maxRunIndexes (runIndex + 1))
      else Inr None)"
  by pat_completeness auto

termination incomingDataFrom
  by (relation "measure (\<lambda>(rd, n, t, out, maxRunIndexes, runIndex). maxRunIndexes - runIndex)") auto

declare incomingDataFrom.simps [simp del]

definition getIncomingDataFromAnyRun ::
  "IRunData \<Rightarrow> string \<Rightarrow> string \<Rightarrow> nat \<Rightarrow> (INodeExecutionData list \<times> nat) option res" where
  "getIncomingDataFromAnyRun runData nodeName connectionType outputIndex =
     incomingDataFrom runData nodeName connectionType outputIndex
       (getRunIndexLength runData nodeName) 0"

definition getNextExecutionIndex :: "IRunData \<Rightarrow> nat" where
  "getNextExecutionIndex runData =
     (if runData = [] then 0
      else let previousIndices = List.map_filter td_executionIndex (concat (values_of runData))
           in if previousIndices = [] then 0
              else fold max (tl previousIndices) (hd previousIndices) + 1)"

section \<open>Disabled nodes\<close>

text \<open>
  The loop iterates over the Map of the graph it changes; every iteration deletes at most the
  entry it visits, so the iteration visits the nodes of the clone in order.
\<close>

definition filterDisabledNodes :: "DirectedGraph \<Rightarrow> DirectedGraph res" where
  "filterDisabledNodes graph =
     bind_res (clone graph) (\<lambda>filteredGraph.
       fold_res (\<lambda>node g.
           if is_disabled node then
             bind_res (removeNode node True (Some (\<lambda>c. gc_type c \<noteq> Main)) g) (\<lambda>(g', _). Inr g')
           else Inr g)
         (values_of (getNodes filteredGraph)) filteredGraph)"

section \<open>Start nodes\<close>

definition isDirty :: "INode \<Rightarrow> IRunData \<Rightarrow> IPinData \<Rightarrow> bool" where
  "isDirty node runData pinData =
     (let hasAnError = (case obj_get runData (node_name node) of
                          None \<Rightarrow> False
                        | Some runs \<Rightarrow> list_ex (\<lambda>taskData. td_error taskData \<noteq> None) runs)
      in if hasAnError then True
         else if obj_get pinData (node_name node) \<noteq> None then False
         else if obj_get runData (node_name node) \<noteq> None then False
         else True)"

definition isALoop :: "DirectedGraph \<Rightarrow> INode \<Rightarrow> bool res" where
  "isALoop graph node = bind_res (getChildren graph node) (\<lambda>children. Inr (node \<in> set children))"

text \<open>The test on a loop node: the output that matters has no data on the last run.\<close>

definition loopUnfinished :: "DirectedGraph \<Rightarrow> INode \<Rightarrow> IRunData \<Rightarrow> bool res" where
  "loopUnfinished graph current runData =
     (if node_type current = ''n8n-nodes-base.splitInBatches'' then
        bind_res (isALoop graph current) (\<lambda>l.
        bind_res (getIncomingData runData (node_name current) (- 1) Main (if l then 0 else 1)) (\<lambda>nodeRunData.
          Inr (case nodeRunData of None \<Rightarrow> True | Some items \<Rightarrow> length items = 0)))
      else Inr False)"

text \<open>Whether an output is followed: it has run data in some run, or its node has pinned data.\<close>

definition followOutput :: "GraphConnection \<Rightarrow> IRunData \<Rightarrow> IPinData \<Rightarrow> bool res" where
  "followOutput c runData pinData =
     bind_res (getIncomingDataFromAnyRun runData (node_name (gc_from c)) (gc_type c) (gc_outputIndex c))
       (\<lambda>nodeRunData.
         let hasNoRunData = (case nodeRunData of None \<Rightarrow> True | Some (items, _) \<Rightarrow> length items = 0);
             hasNoPinnedData = (obj_get pinData (node_name (gc_from c)) = None)
         in Inr (\<not> (hasNoRunData \<and> hasNoPinnedData)))"

function findStartNodesRecursive ::
  "DirectedGraph \<Rightarrow> INode \<Rightarrow> INode \<Rightarrow> IRunData \<Rightarrow> IPinData \<Rightarrow> INode list \<Rightarrow> INode list \<Rightarrow> INode list res" where
  "findStartNodesRecursive graph current destination runData pinData startNodes seen =
     (if isDirty current runData pinData then Inr (set_add current startNodes)
      else if current = destination then Inr (set_add current startNodes)
      else bind_res (loopUnfinished graph current runData) (\<lambda>unfinished.
        if unfinished then Inr (set_add current startNodes)
        else if current \<in> set seen then Inr startNodes
        else bind_res (getDirectChildConnections graph current) (\<lambda>outGoingConnections.
          fold_res (\<lambda>c startNodes'.
              bind_res (followOutput c runData pinData) (\<lambda>follow.
                if \<not> follow then Inr startNodes'
                else findStartNodesRecursive graph (gc_to c) destination runData pinData startNodes'
                       (set_add current seen)))
            outGoingConnections startNodes)))"
  by pat_completeness auto

termination findStartNodesRecursive
proof (relation "measure (\<lambda>(g, current, dest, rd, pd, startNodes, seen). card (node_objs g - set seen))",
    goal_cases)
  case 1
  then show ?case by simp
next
  case (2 graph current destination runData pinData startNodes seen unfinished cs c s' follow)
  then have "card (node_objs graph - set (set_add current seen)) < card (node_objs graph - set seen)"
    by (intro card_node_objs_less [where x = current])
      (auto simp: node_objs_def getDirectChildConnections_eq_Inr)
  then show ?case by simp
qed

declare findStartNodesRecursive.simps [simp del]

definition findStartNodes ::
  "DirectedGraph \<Rightarrow> INode \<Rightarrow> INode \<Rightarrow> IPinData \<Rightarrow> IRunData \<Rightarrow> INode list res" where
  "findStartNodes graph trigger destination pinData runData =
     findStartNodesRecursive graph trigger destination runData pinData [] []"

section \<open>The sub-graph\<close>

text \<open>\<^verbatim>\<open>for (const connection of currentBranch) { addNodes; addConnection }\<close>\<close>

definition keepConnection :: "GraphConnection \<Rightarrow> DirectedGraph \<Rightarrow> DirectedGraph res" where
  "keepConnection c newGraph =
     addConnection (as_input c) (addNodes [gc_from c, gc_to c] newGraph)"

definition keepBranch :: "GraphConnection list \<Rightarrow> DirectedGraph \<Rightarrow> DirectedGraph res" where
  "keepBranch currentBranch newGraph = fold_res keepConnection currentBranch newGraph"

function findSubgraphRecursive ::
  "DirectedGraph \<Rightarrow> INode \<Rightarrow> INode \<Rightarrow> INode \<Rightarrow> DirectedGraph \<Rightarrow> GraphConnection list \<Rightarrow> DirectedGraph res" where
  "findSubgraphRecursive graph destinationNode current trigger newGraph currentBranch =
     (if current = trigger then keepBranch currentBranch (addNode trigger newGraph)
      else bind_res (getDirectParentConnections graph current) (\<lambda>parentConnections.
        if length parentConnections = 0 then Inr newGraph
        else if current = destinationNode \<and> list_ex (\<lambda>c. gc_to c = destinationNode) currentBranch
          then Inr newGraph
        else if list_ex (\<lambda>c. gc_to c = current) currentBranch then keepBranch currentBranch newGraph
        else fold_res (\<lambda>parentConnection newGraph'.
               if gc_type parentConnection \<noteq> Main then Inr newGraph'
               else findSubgraphRecursive graph destinationNode (gc_from parentConnection) trigger newGraph'
                      (currentBranch @ [parentConnection]))
             parentConnections newGraph))"
  by pat_completeness auto

termination findSubgraphRecursive
proof (relation "measure (\<lambda>(g, dest, current, trigger, ng, branch). card (node_objs g - gc_to ` set branch))",
    goal_cases)
  case 1
  then show ?case by simp
next
  case (2 graph dest current trigger ng branch cs pc ng')
  then have "gc_to pc = current" "current \<in> node_objs graph" "current \<notin> gc_to ` set branch"
    by (auto simp: getDirectParentConnections_eq_Inr node_objs_def list_ex_iff)
  then have "node_objs graph - gc_to ` set (branch @ [pc]) \<subset> node_objs graph - gc_to ` set branch" by auto
  then have "card (node_objs graph - gc_to ` set (branch @ [pc])) < card (node_objs graph - gc_to ` set branch)"
    by (intro psubset_card_mono) simp_all
  then show ?case by simp
qed

declare findSubgraphRecursive.simps [simp del]

text \<open>The second loop goes through the nodes that the sub-graph has at its start: \<^verbatim>\<open>getNodes\<close> returns a copy of the Map.\<close>

definition addUtilityNodes :: "DirectedGraph \<Rightarrow> INode \<Rightarrow> DirectedGraph \<Rightarrow> DirectedGraph res" where
  "addUtilityNodes graph node subgraph =
     bind_res (getParentConnections graph node) (\<lambda>parentConnections.
       fold_res (\<lambda>connection g. if gc_type connection = Main then Inr g else keepConnection connection g)
         parentConnections subgraph)"


definition addUtilityNodesLoop :: "DirectedGraph \<Rightarrow> DirectedGraph \<Rightarrow> DirectedGraph res" where
  "addUtilityNodesLoop graph subgraph = fold_res (addUtilityNodes graph) (values_of (getNodes subgraph)) subgraph"

definition findSubgraph :: "DirectedGraph \<Rightarrow> INode \<Rightarrow> INode \<Rightarrow> DirectedGraph res" where
  "findSubgraph graph destination trigger =
     bind_res (findSubgraphRecursive graph destination destination trigger empty_graph [])
       (addUtilityNodesLoop graph)"

section \<open>Cleaning run data\<close>

definition delete_names :: "string list \<Rightarrow> (string \<times> 'v) list \<Rightarrow> (string \<times> 'v) list" where
  "delete_names names m = fold obj_delete names m"

definition cleanNode :: "DirectedGraph \<Rightarrow> INode \<Rightarrow> IRunData \<Rightarrow> IRunData res" where
  "cleanNode graph node newRunData =
     bind_res (getParentConnections graph node) (\<lambda>subNodeConnections.
       Inr (delete_names
         (map (\<lambda>c. node_name (gc_from c)) (filter (\<lambda>c. gc_type c \<noteq> Main) subNodeConnections))
         (obj_delete (node_name node) newRunData)))"

definition cleanRunData :: "IRunData \<Rightarrow> DirectedGraph \<Rightarrow> INode list \<Rightarrow> IRunData res" where
  "cleanRunData runData graph nodesToClean =
     bind_res (fold_res (\<lambda>nodeToClean newRunData.
         bind_res (getChildren graph nodeToClean) (\<lambda>children.
           fold_res (cleanNode graph) (nodeToClean # children)
             (obj_delete (node_name nodeToClean) newRunData))) nodesToClean runData)
       (\<lambda>newRunData. Inr (delete_names
          (filter (\<lambda>nodeName. \<not> hasNode graph nodeName) (keys_of newRunData)) newRunData))"

section \<open>Cycles\<close>

definition replaceByCycleStart ::
  "DirectedGraph \<Rightarrow> INode \<Rightarrow> INode \<Rightarrow> INode list \<Rightarrow> INode list \<Rightarrow> INode list res" where
  "replaceByCycleStart graph trigger startNode cycle newStartNodes =
     (if startNode \<in> set cycle then
        bind_res (depthFirstSearch graph trigger (\<lambda>node. node \<in> set cycle)) (\<lambda>firstNode.
          case firstNode of
            None \<Rightarrow> Inl AssertionError
          | Some n \<Rightarrow> Inr (set_add n (set_delete startNode newStartNodes)))
      else Inr newStartNodes)"

definition handleCycles :: "DirectedGraph \<Rightarrow> INode list \<Rightarrow> INode \<Rightarrow> INode list res" where
  "handleCycles graph startNodes trigger =
     bind_res (getStronglyConnectedComponents graph) (\<lambda>sccs.
       let cycles = filter (\<lambda>cycle. length cycle \<ge> 1) sccs
       in if length cycles = 0 then Inr startNodes
          else fold_res (\<lambda>startNode.
                 fold_res (replaceByCycleStart graph trigger startNode) cycles) startNodes startNodes)"

end
