(* ===== verification/Partial_Execution_Correct.thy ===== *)
theory Partial_Execution_Correct
  imports Partial_Execution
begin

text \<open>
  Correctness of the steps of a partial execution: the next execution index is fresh, cleaning
  deletes exactly the stale run data, cycles are replaced by their first node, the start nodes
  are the first nodes to run again on every branch with data, the sub-graph holds every path
  from the trigger to the destination, and removing disabled nodes keeps the paths through
  them.
\<close>

section \<open>The next execution index\<close>

lemma fold_max: "fold max xs x = Max (insert x (set xs))" for x :: "'a :: linorder"
proof (induction xs arbitrary: x)
  case Nil
  then show ?case by simp
next
  case (Cons y ys)
  show ?case
    by (cases "ys = []") (simp_all add: Cons Max_insert max.assoc max.commute max.left_commute)
qed

definition indices_of :: "IRunData \<Rightarrow> nat set" where
  "indices_of runData = {i. \<exists>runs td. runs \<in> snd ` set runData \<and> td \<in> set runs \<and> td_executionIndex td = Some i}"

lemma indices_of_set: "indices_of runData = set (List.map_filter td_executionIndex (concat (values_of runData)))"
proof -
  have "set (List.map_filter f xs) = {y. \<exists>x \<in> set xs. f x = Some y}" for f :: "ITaskData \<Rightarrow> nat option" and xs
    by (induction xs) (auto simp: List.map_filter_simps split: option.splits)
  then show ?thesis by (auto simp: indices_of_def)
qed

lemma getNextExecutionIndex_max:
  "getNextExecutionIndex runData = (if indices_of runData = {} then 0 else Max (indices_of runData) + 1)"
proof -
  let ?is = "List.map_filter td_executionIndex (concat (values_of runData))"
  have s: "set ?is = indices_of runData"
    by (rule indices_of_set [symmetric])
  show ?thesis
  proof (cases "?is")
    case Nil
    with s show ?thesis by (auto simp: getNextExecutionIndex_def)
  next
    case (Cons i js)
    then have "runData \<noteq> []" by (auto simp: List.map_filter_def)
    with Cons s show ?thesis by (auto simp: getNextExecutionIndex_def fold_max)
  qed
qed

text \<open>
  \<^verbatim>\<open>getNextExecutionIndex\<close> returns one more than the largest execution index of the run data,
  and 0 when no run has an index: the index it returns is fresh.
\<close>

lemma getNextExecutionIndex_correct:
  "getNextExecutionIndex runData = (if indices_of runData = {} then 0 else Max (indices_of runData) + 1)"
  by (rule getNextExecutionIndex_max)

lemma finite_indices: "finite (indices_of runData)"
  by (simp add: indices_of_set)

section \<open>Cleaning run data\<close>

lemma get_delete_names: "map_get (delete_names names m) = map_get m |` (- set names)"
  unfolding delete_names_def
  by (induction names arbitrary: m) (auto simp: js_obj.get_del restrict_map_def fun_eq_iff)

text \<open>
  A loop each of whose iterations deletes the keys \<open>D x\<close> deletes their union.
\<close>

lemma fold_res_delete:
  assumes "\<And>x s. x \<in> set xs \<Longrightarrow> \<exists>s'. f x s = Inr s' \<and> map_get s' = map_get s |` (- D x)"
  shows "\<exists>s'. fold_res f xs s = Inr s' \<and> map_get s' = map_get s |` (- (\<Union>x \<in> set xs. D x))"
  using assms
proof (induction xs arbitrary: s)
  case Nil
  then show ?case by (simp add: fun_eq_iff restrict_map_def)
next
  case (Cons x xs)
  from Cons.prems [of x] obtain s1 where s1: "f x s = Inr s1" "map_get s1 = map_get s |` (- D x)" by auto
  from Cons.IH [of s1] Cons.prems obtain s2 where
    "fold_res f xs s1 = Inr s2" "map_get s2 = map_get s1 |` (- (\<Union>x \<in> set xs. D x))" by auto
  with s1 show ?case by (auto simp: fun_eq_iff restrict_map_def)
qed

text \<open>
  The names whose run data goes with a node: its own and those of the nodes with a connection of another type than main into the node or into
  any ancestor of it. The code asks \<^verbatim>\<open>getParentConnections\<close>, which follows all connections upwards, and skips the main ones only when it
  deletes, so that the utility nodes of all nodes upstream go, too.
\<close>

definition own_names :: "DirectedGraph \<Rightarrow> INode \<Rightarrow> string set" where
  "own_names g n = insert (node_name n)
     {node_name (gc_from c) | c. c \<in> conn_objs g \<and> gc_type c \<noteq> Main \<and> (gc_to c, n) \<in> (dg_edges g)\<^sup>*}"

definition stale_names :: "DirectedGraph \<Rightarrow> INode set \<Rightarrow> string set" where
  "stale_names g X = (\<Union>n \<in> (dg_edges g)\<^sup>* `` X. own_names g n)"

lemma cleanNode_spec:
  assumes "wf_graph g" and "has_node_obj g n"
  shows "\<exists>rd'. cleanNode g n rd = Inr rd' \<and> map_get rd' = map_get rd |` (- own_names g n)"
proof -
  from getParentConnections_reaching [OF assms] obtain R where
    R: "getParentConnections g n = Inr R" "set R = {c \<in> conn_objs g. (gc_to c, n) \<in> (dg_edges g)\<^sup>*}"
    by blast
  have "own_names g n = insert (node_name n) (node_name ` gc_from ` {c \<in> set R. gc_type c \<noteq> Main})"
    by (auto simp: own_names_def R(2))
  with R(1) show ?thesis
    by (auto simp: cleanNode_def get_delete_names js_obj.get_del fun_eq_iff restrict_map_def)
qed

lemma cleanRunData_spec:
  assumes wf: "wf_graph g" and nodes: "\<And>n. n \<in> set ns \<Longrightarrow> has_node_obj g n"
  shows "\<exists>rd'. cleanRunData rd g ns = Inr rd' \<and>
    map_get rd' = map_get rd |` ({k. hasNode g k} - stale_names g (set ns))"
proof -
  let ?f = "\<lambda>n rd. bind_res (getChildren g n) (\<lambda>children.
    fold_res (cleanNode g) (n # children) (obj_delete (node_name n) rd))"
  have "\<exists>rd'. ?f n rd = Inr rd' \<and> map_get rd' = map_get rd |` (- stale_names g {n})"
    if n: "n \<in> set ns" for n rd
  proof -
    from getChildren_reachable [OF wf nodes [OF n]] obtain R where
      R: "getChildren g n = Inr R" "set R = (dg_edges g)\<^sup>+ `` {n}" by blast
    have all: "set (n # R) = (dg_edges g)\<^sup>* `` {n}" by (auto simp: R(2) rtrancl_eq_or_trancl)
    have "has_node_obj g m" if "m \<in> set (n # R)" for m
      using that nodes [OF n] wf_edge_nodes(2) [OF wf] unfolding all by (auto elim: rtranclE)
    then obtain rd' where "fold_res (cleanNode g) (n # R) (obj_delete (node_name n) rd) = Inr rd'"
      "map_get rd' = map_get (obj_delete (node_name n) rd) |` (- (\<Union>x \<in> set (n # R). own_names g x))"
      using fold_res_delete [of "n # R" "cleanNode g" "own_names g"] cleanNode_spec [OF wf] by blast
    moreover have "node_name n \<in> stale_names g {n}" by (auto simp: stale_names_def own_names_def)
    ultimately show ?thesis using R(1) unfolding all
      by (auto simp: stale_names_def js_obj.get_del fun_eq_iff restrict_map_def)
  qed
  then obtain rd1 where rd1: "fold_res ?f ns rd = Inr rd1"
    "map_get rd1 = map_get rd |` (- (\<Union>n \<in> set ns. stale_names g {n}))"
    using fold_res_delete [of ns ?f "\<lambda>n. stale_names g {n}"] by blast
  have U: "(\<Union>n \<in> set ns. stale_names g {n}) = stale_names g (set ns)" by (auto simp: stale_names_def)
  have "map_get (delete_names (filter (\<lambda>k. \<not> hasNode g k) (keys_of rd1)) rd1) = map_get rd1 |` {k. hasNode g k}"
    unfolding get_delete_names by (auto simp: fun_eq_iff restrict_map_def map_of_eq_None_iff)
  with rd1 show ?thesis
    by (auto simp: cleanRunData_def U fun_eq_iff restrict_map_def)
qed

text \<open>
  C26. \<^verbatim>\<open>cleanRunData\<close> returns for any nodes of the graph, and the run data it returns is the old
  one restricted to the nodes of the graph that are not stale: stale are the given nodes, all
  their descendants, and the utility nodes that feed one of these or any ancestor of one of these. The comment in
  the code, that connections that go upstream are filtered out, holds of the main connections themselves, not of the
  utility nodes behind them; the witness has such a utility node, whose run data is lost although it feeds only the trigger.
\<close>

theorem cleanRunData_correct:
  assumes wf: "wf_graph g" and nodes: "\<And>n. n \<in> set ns \<Longrightarrow> has_node_obj g n"
  shows "\<exists>rd'. cleanRunData rd g ns = Inr rd' \<and>
    map_get rd' = map_get rd |` ({k. hasNode g k} - stale_names g (set ns))"
  using assms by (rule cleanRunData_spec)

definition ex_run :: ITaskData where
  "ex_run = \<lparr>td_executionIndex = Some 0, td_source = [], td_executionStatus = Some StatusSuccess, td_metadata = None,
     td_inputOverride = None, td_error = None, td_data = Some [(Main, [Cell [empty_item]])]\<rparr>"

text \<open>The trigger of the example with a utility node of its own.\<close>

definition ex_fed_graph :: DirectedGraph where
  "ex_fed_graph = graph_of [ex_t, ex_a, ex_b, ex_c]
     [ex_conn ex_t ex_b, \<lparr>gc_from = ex_a, gc_to = ex_t, gc_type = ''ai_tool'', gc_outputIndex = 0, gc_inputIndex = 0\<rparr>, ex_conn ex_b ex_c]"

theorem cleanRunData_correct_witness:
  "cleanRunData [(''t'', [ex_run]), (''a'', [ex_run]), (''gone'', [ex_run]), (''c'', [ex_run])] ex_fed_graph [ex_b] = Inr [(''t'', [ex_run])]
     \<and> ''c'' \<in> stale_names ex_fed_graph {ex_b} \<and> ''a'' \<in> stale_names ex_fed_graph {ex_b}"
proof -
  let ?rd = "[(''t'', [ex_run]), (''a'', [ex_run]), (''gone'', [ex_run]), (''c'', [ex_run])]"
  have r: "cleanRunData ?rd ex_fed_graph [ex_b] = Inr [(''t'', [ex_run])]" by code_simp
  have ok: "wf_graph ex_fed_graph" "has_node_obj ex_fed_graph ex_b" by code_simp+
  have "\<exists>rd'. cleanRunData ?rd ex_fed_graph [ex_b] = Inr rd' \<and>
    map_get rd' = map_get ?rd |` ({k. hasNode ex_fed_graph k} - stale_names ex_fed_graph (set [ex_b]))"
    by (rule cleanRunData_correct [OF ok(1)]) (simp add: ok(2))
  with r have "map_get [(''t'', [ex_run])] k = (map_get ?rd |` ({k. hasNode ex_fed_graph k} - stale_names ex_fed_graph {ex_b})) k" for k
    by auto
  from this [of "''c''"] this [of "''a''"] have "''c'' \<in> stale_names ex_fed_graph {ex_b} \<or> \<not> hasNode ex_fed_graph ''c''"
    "''a'' \<in> stale_names ex_fed_graph {ex_b} \<or> \<not> hasNode ex_fed_graph ''a''" by (auto simp: restrict_map_def split: if_splits)
  moreover have "hasNode ex_fed_graph ''c''" "hasNode ex_fed_graph ''a''" by code_simp+
  ultimately show ?thesis using r by blast
qed

section \<open>Cycles\<close>

text \<open>What a start node is replaced by: the first node of its component that a search from the
  trigger finds; a node in no component stays.\<close>

definition cycle_start :: "DirectedGraph \<Rightarrow> INode \<Rightarrow> INode list list \<Rightarrow> INode \<Rightarrow> INode" where
  "cycle_start g trigger sccs s =
     (case find (\<lambda>cycle. s \<in> set cycle) sccs of
        None \<Rightarrow> s
      | Some cycle \<Rightarrow>
         (case depthFirstSearch g trigger (\<lambda>n. n \<in> set cycle) of Inr (Some n) \<Rightarrow> n | _ \<Rightarrow> s))"

lemma find_disjoint:
  assumes "distinct (concat xss)" and "xs \<in> set xss" and "x \<in> set xs"
  shows "find (\<lambda>ys. x \<in> set ys) xss = Some xs"
  using assms by (induction xss) auto

lemma find_not_in: "x \<notin> set (concat xss) \<Longrightarrow> find (\<lambda>ys. x \<in> set ys) xss = None"
  by (induction xss) auto

lemma search_cycle:
  assumes "wf_graph g" and "has_node_obj g trigger" and "(trigger, s) \<in> (dg_edges g)\<^sup>*" and "s \<in> set cycle"
  obtains n where "depthFirstSearch g trigger (\<lambda>n. n \<in> set cycle) = Inr (Some n)" and "n \<in> set cycle"
    and "(trigger, n) \<in> (dg_edges g)\<^sup>*"
proof -
  from depthFirstSearch_result [OF assms(1,2), of "\<lambda>n. n \<in> set cycle"] obtain r where
    r: "depthFirstSearch g trigger (\<lambda>n. n \<in> set cycle) = Inr r"
    "case r of Some m \<Rightarrow> m \<in> set cycle \<and> (trigger, m) \<in> (dg_edges g)\<^sup>*
      | None \<Rightarrow> \<forall>m. (trigger, m) \<in> (dg_edges g)\<^sup>* \<longrightarrow> m \<notin> set cycle" by blast
  with assms(3,4) that show thesis by (cases r) auto
qed

lemma cycle_start_in:
  assumes "wf_graph g" and "has_node_obj g trigger" and "(trigger, s) \<in> (dg_edges g)\<^sup>*"
    and "distinct (concat sccs)" and "cycle \<in> set sccs" and "s \<in> set cycle"
  shows "depthFirstSearch g trigger (\<lambda>n. n \<in> set cycle) = Inr (Some (cycle_start g trigger sccs s))"
    and "cycle_start g trigger sccs s \<in> set cycle"
    and "(trigger, cycle_start g trigger sccs s) \<in> (dg_edges g)\<^sup>*"
proof -
  from search_cycle [OF assms(1-3) assms(6)] obtain n where
    n: "depthFirstSearch g trigger (\<lambda>n. n \<in> set cycle) = Inr (Some n)" "n \<in> set cycle"
    "(trigger, n) \<in> (dg_edges g)\<^sup>*" .
  moreover from n(1) have "cycle_start g trigger sccs s = n"
    by (simp add: cycle_start_def find_disjoint [OF assms(4-6)])
  ultimately show "depthFirstSearch g trigger (\<lambda>n. n \<in> set cycle) = Inr (Some (cycle_start g trigger sccs s))"
    "cycle_start g trigger sccs s \<in> set cycle" "(trigger, cycle_start g trigger sccs s) \<in> (dg_edges g)\<^sup>*"
    by simp_all
qed

lemma replace_none:
  "s \<notin> set (concat cycles) \<Longrightarrow> fold_res (replaceByCycleStart g trigger s) cycles R = Inr R"
  by (induction cycles) (simp_all add: replaceByCycleStart_def)

lemma replace_in_cycles:
  assumes "wf_graph g" and "has_node_obj g trigger" and "(trigger, s) \<in> (dg_edges g)\<^sup>*"
    and "distinct (concat cycles)" and "s \<in> set R"
  shows "\<exists>R'. fold_res (replaceByCycleStart g trigger s) cycles R = Inr R'
    \<and> set R' = insert (cycle_start g trigger cycles s) (set R - {s}) \<and> (distinct R \<longrightarrow> distinct R')"
proof (cases "s \<in> set (concat cycles)")
  case False
  then have "cycle_start g trigger cycles s = s"
    using find_not_in [of s cycles] by (simp add: cycle_start_def)
  with replace_none [OF False] assms(5) show ?thesis by (auto simp: insert_absorb)
next
  case True
  then obtain cycle where c: "cycle \<in> set cycles" "s \<in> set cycle" by auto
  from split_list [OF c(1)] obtain pre post where cycles: "cycles = pre @ cycle # post" by blast
  have "s \<notin> set (concat pre)" "s \<notin> set (concat post)"
    using assms(4) c(2) unfolding cycles by auto
  then have "fold_res (replaceByCycleStart g trigger s) cycles R
      = Inr (set_add (cycle_start g trigger cycles s) (set_delete s R))"
    using cycle_start_in(1) [OF assms(1-4) c] c(2)
    by (simp add: cycles fold_res_append replace_none replaceByCycleStart_def)
  then show ?thesis by simp
qed

lemma cycle_start_idem:
  assumes "wf_graph g" and "has_node_obj g trigger" and "(trigger, s) \<in> (dg_edges g)\<^sup>*"
    and "distinct (concat cycles)"
  shows "cycle_start g trigger cycles (cycle_start g trigger cycles s) = cycle_start g trigger cycles s"
proof (cases "s \<in> set (concat cycles)")
  case False
  then show ?thesis using find_not_in [of s cycles] by (simp add: cycle_start_def)
next
  case True
  then obtain cycle where c: "cycle \<in> set cycles" "s \<in> set cycle" by auto
  note f = cycle_start_in [OF assms c]
  from find_disjoint [OF assms(4) c(1) f(2)] f(1) show ?thesis
    by (subst cycle_start_def) simp
qed

lemma replace_all:
  assumes "wf_graph g" and "has_node_obj g trigger" and "distinct (concat cycles)"
    and "\<And>s. s \<in> set (ds @ S) \<Longrightarrow> (trigger, s) \<in> (dg_edges g)\<^sup>*" and "distinct (ds @ S)" and "distinct R"
    and "set R = cycle_start g trigger cycles ` set ds \<union> set S"
  shows "\<exists>R'. fold_res (\<lambda>s. fold_res (replaceByCycleStart g trigger s) cycles) S R = Inr R'
    \<and> distinct R' \<and> set R' = cycle_start g trigger cycles ` set (ds @ S)"
  using assms(4-)
proof (induction S arbitrary: ds R)
  case Nil
  then show ?case by simp
next
  case (Cons s S)
  let ?f = "cycle_start g trigger cycles"
  from Cons.prems have s: "s \<in> set R" "(trigger, s) \<in> (dg_edges g)\<^sup>*" by simp_all
  from replace_in_cycles [OF assms(1,2) s(2) assms(3) s(1)] Cons.prems(3) obtain R1 where
    R1: "fold_res (replaceByCycleStart g trigger s) cycles R = Inr R1"
    "set R1 = insert (?f s) (set R - {s})" "distinct R1" by blast
  have "?f s = s" if "s \<in> ?f ` set ds"
    using that cycle_start_idem [OF assms(1,2) _ assms(3)] Cons.prems(1) by auto
  then have "set R1 = ?f ` set (ds @ [s]) \<union> set S"
    using R1(2) Cons.prems(2,4) by auto
  with Cons.IH [of "ds @ [s]" R1] Cons.prems R1 show ?case by simp
qed

lemma handleCycles_spec:
  assumes wf: "wf_graph g" and t: "has_node_obj g trigger" and S: "distinct S"
    and reach: "\<And>s. s \<in> set S \<Longrightarrow> (trigger, s) \<in> (dg_edges g)\<^sup>*"
  obtains sccs R where "getStronglyConnectedComponents g = Inr sccs" and "distinct (concat sccs)"
    and "\<And>scc. scc \<in> set sccs \<Longrightarrow> mutually_reachable g (set scc)"
    and "handleCycles g S trigger = Inr R" and "distinct R"
    and "set R = cycle_start g trigger sccs ` set S"
proof -
  from components_sound [OF wf] obtain sccs where sccs: "getStronglyConnectedComponents g = Inr sccs"
    "distinct (concat sccs)" "\<forall>scc \<in> set sccs. scc \<noteq> [] \<and> mutually_reachable g (set scc)" by blast
  have cycles: "filter (\<lambda>cycle. length cycle \<ge> 1) sccs = sccs"
    using sccs(3) by (auto simp: filter_id_conv Suc_le_eq)
  have idle: "fold_res (\<lambda>s. fold_res (replaceByCycleStart g trigger s) []) S' S = Inr S" for S'
    by (induction S') simp_all
  from replace_all [OF wf t sccs(2), of "[]" S S] reach S obtain R where
    "fold_res (\<lambda>s. fold_res (replaceByCycleStart g trigger s) sccs) S S = Inr R"
    "distinct R" "set R = cycle_start g trigger sccs ` set S" by auto
  moreover from this have "handleCycles g S trigger = Inr R"
    using idle [of S] unfolding handleCycles_def sccs(1) bind_res_simps cycles Let_def
    by (cases "sccs = []") simp_all
  ultimately show thesis using sccs(3) by (intro that [OF sccs(1,2)]) auto
qed

section \<open>Start nodes\<close>

lemma arr_at_in_set: "arr_at xs i = Some x \<Longrightarrow> x \<in> set xs"
  by (auto simp: arr_at_def Let_def split: if_splits)

text \<open>
  What the code relies on of run data: the data of a run of a node has an entry for every type
  of connection that leaves the node, and a main entry if the node is a loop node.
\<close>

definition data_has_type :: "string \<Rightarrow> ITaskData \<Rightarrow> bool" where
  "data_has_type t td \<longleftrightarrow> (case td_data td of None \<Rightarrow> True | Some d \<Rightarrow> map_get d t \<noteq> None)"

definition node_runs :: "IRunData \<Rightarrow> INode \<Rightarrow> ITaskData list" where
  "node_runs rd n = (case map_get rd (node_name n) of None \<Rightarrow> [] | Some runs \<Rightarrow> runs)"

definition run_data_typed :: "DirectedGraph \<Rightarrow> IRunData \<Rightarrow> bool" where
  "run_data_typed g rd \<longleftrightarrow>
     (\<forall>c \<in> set (values_of (dg_connections g)). list_all (data_has_type (gc_type c)) (node_runs rd (gc_from c))) \<and>
     (\<forall>n \<in> set (values_of (dg_nodes g)). node_type n = ''n8n-nodes-base.splitInBatches'' \<longrightarrow>
        list_all (data_has_type Main) (node_runs rd n))"

definition run_output :: "string \<Rightarrow> nat \<Rightarrow> ITaskData \<Rightarrow> INodeExecutionData list option" where
  "run_output t k td = (case td_data td of None \<Rightarrow> None | Some d \<Rightarrow>
     (case map_get d t of None \<Rightarrow> None | Some outs \<Rightarrow> cell_option (cell_get outs k)))"

lemma getIncomingData_ok:
  assumes "list_all (data_has_type t) (case map_get rd n of None \<Rightarrow> [] | Some runs \<Rightarrow> runs)"
  shows "getIncomingData rd n i t k = Inr (case map_get rd n of None \<Rightarrow> None | Some runs \<Rightarrow>
    (case arr_at runs i of None \<Rightarrow> None | Some td \<Rightarrow> run_output t k td))"
  using assms
  by (fastforce simp: getIncomingData_def run_output_def list_all_iff data_has_type_def
      split: option.splits dest: arr_at_in_set)

text \<open>An output has data if some run of its node produced items there.\<close>

definition has_output :: "IRunData \<Rightarrow> GraphConnection \<Rightarrow> bool" where
  "has_output rd c \<longleftrightarrow> (\<exists>td \<in> set (node_runs rd (gc_from c)). \<exists>items.
     run_output (gc_type c) (gc_outputIndex c) td = Some items \<and> items \<noteq> [])"

lemma incomingDataFrom_ok:
  assumes "map_get rd n = Some runs" and "list_all (data_has_type t) runs"
  shows "\<exists>r. incomingDataFrom rd n t k (length runs) i = Inr r \<and>
    (case r of None \<Rightarrow> (\<forall>td \<in> set (drop i runs). run_output t k td \<in> {None, Some []})
             | Some (items, j) \<Rightarrow> i \<le> j \<and> j < length runs \<and> run_output t k (runs ! j) = Some items \<and> items \<noteq> [])"
proof (induction "length runs - i" arbitrary: i)
  case 0
  then show ?case by (simp add: incomingDataFrom.simps)
next
  case (Suc x)
  then have i: "i < length runs" by simp
  have step: "getIncomingData rd n (int i) t k = Inr (run_output t k (runs ! i))"
    using getIncomingData_ok [of t rd n "int i" k] assms i by simp
  have d: "drop i runs = runs ! i # drop (Suc i) runs" using i by (rule Cons_nth_drop_Suc [symmetric])
  have "x = length runs - Suc i" using Suc.hyps(2) by simp
  from Suc.hyps(1) [OF this] obtain r where r: "incomingDataFrom rd n t k (length runs) (Suc i) = Inr r"
    "case r of None \<Rightarrow> (\<forall>td \<in> set (drop (Suc i) runs). run_output t k td \<in> {None, Some []})
       | Some (items, j) \<Rightarrow> Suc i \<le> j \<and> j < length runs \<and> run_output t k (runs ! j) = Some items \<and> items \<noteq> []"
    by blast
  show ?case
    using i r by (subst incomingDataFrom.simps)
      (auto simp: step d split: option.splits)
qed

lemma followOutput_ok:
  assumes "list_all (data_has_type (gc_type c)) (node_runs rd (gc_from c))"
  shows "followOutput c rd pd = Inr (has_output rd c \<or> map_get pd (node_name (gc_from c)) \<noteq> None)"
proof (cases "map_get rd (node_name (gc_from c))")
  case None
  then show ?thesis
    by (simp add: followOutput_def getIncomingDataFromAnyRun_def getRunIndexLength_def
        incomingDataFrom.simps has_output_def node_runs_def)
next
  case (Some runs)
  with assms have "list_all (data_has_type (gc_type c)) runs" by (simp add: node_runs_def)
  from incomingDataFrom_ok [OF Some this, of "gc_outputIndex c" 0] Some show ?thesis
    by (fastforce simp: followOutput_def getIncomingDataFromAnyRun_def getRunIndexLength_def
        has_output_def node_runs_def split: option.splits)
qed

text \<open>
  A node at which a branch stops: it must run again, since a run failed or since it has neither run
  data nor pinned data, it is the destination, or it is a loop node whose last run did not finish the loop.
\<close>

definition must_rerun :: "IRunData \<Rightarrow> IPinData \<Rightarrow> INode \<Rightarrow> bool" where
  "must_rerun rd pd n \<longleftrightarrow> (\<exists>td \<in> set (node_runs rd n). td_error td \<noteq> None)
     \<or> node_name n \<notin> dom (map_get rd) \<union> dom (map_get pd)"

lemma isDirty_iff: "isDirty n rd pd = must_rerun rd pd n"
  by (auto simp: isDirty_def must_rerun_def node_runs_def list_ex_iff Let_def dom_def split: option.splits)

definition is_stop :: "DirectedGraph \<Rightarrow> INode \<Rightarrow> IRunData \<Rightarrow> IPinData \<Rightarrow> INode \<Rightarrow> bool" where
  "is_stop g dest rd pd n \<longleftrightarrow> must_rerun rd pd n \<or> n = dest \<or>
     node_type n = ''n8n-nodes-base.splitInBatches'' \<and>
       (case map_get rd (node_name n) of None \<Rightarrow> True | Some runs \<Rightarrow>
         (case arr_at runs (- 1) of None \<Rightarrow> True | Some td \<Rightarrow>
           run_output Main (if (n, n) \<in> (dg_edges g)\<^sup>+ then 0 else 1) td \<in> {None, Some []}))"

text \<open>The steps of the traversal: from a node that is no stop along an output with data.\<close>

definition live_edges :: "DirectedGraph \<Rightarrow> INode \<Rightarrow> IRunData \<Rightarrow> IPinData \<Rightarrow> (INode \<times> INode) set" where
  "live_edges g dest rd pd = {(gc_from c, gc_to c) | c. c \<in> conn_objs g \<and> \<not> is_stop g dest rd pd (gc_from c)
     \<and> (has_output rd c \<or> map_get pd (node_name (gc_from c)) \<noteq> None)}"

lemma loopUnfinished_ok:
  assumes "wf_graph g" and "has_node_obj g n" and "run_data_typed g rd" and "\<not> isDirty n rd pd" and "n \<noteq> dest"
  shows "loopUnfinished g n rd = Inr (is_stop g dest rd pd n)"
proof (cases "node_type n = ''n8n-nodes-base.splitInBatches''")
  case False
  with assms(4,5) show ?thesis by (simp add: loopUnfinished_def is_stop_def isDirty_iff)
next
  case True
  from getChildren_reachable [OF assms(1,2)] have loop: "isALoop g n = Inr ((n, n) \<in> (dg_edges g)\<^sup>+)"
    by (auto simp: isALoop_def)
  have "n \<in> set (values_of (dg_nodes g))" using assms(1,2) wf_node_objs by (auto simp: node_objs_def)
  with assms(3) True have "list_all (data_has_type Main) (node_runs rd n)"
    unfolding run_data_typed_def by blast
  from getIncomingData_ok [OF this [unfolded node_runs_def]] True assms(4,5) loop show ?thesis
    by (auto simp: loopUnfinished_def is_stop_def isDirty_iff split: option.splits)
qed

lemma stops_step:
  assumes "\<not> P x" and "x \<notin> X"
  shows "{n. (x, n) \<in> (avoiding r X)\<^sup>* \<and> P n}
    \<subseteq> (\<Union>b \<in> r `` {x}. {n. (b, n) \<in> (avoiding r (insert x X))\<^sup>* \<and> P n})"
proof
  fix n
  assume n: "n \<in> {n. (x, n) \<in> (avoiding r X)\<^sup>* \<and> P n}"
  then have "n \<noteq> x" using assms(1) by auto
  with n last_visit [of x n "avoiding r X"] obtain b where
    b: "(x, b) \<in> avoiding r X" "(b, n) \<in> {(a, c) \<in> avoiding r X. a \<noteq> x}\<^sup>*" by blast
  have "{(a, c) \<in> avoiding r X. a \<noteq> x} = avoiding r (insert x X)" by auto
  with b n show "n \<in> (\<Union>b \<in> r `` {x}. {n. (b, n) \<in> (avoiding r (insert x X))\<^sup>* \<and> P n})" by auto
qed

lemma stops_seen: "\<not> P x \<Longrightarrow> x \<in> X \<Longrightarrow> {n. (x, n) \<in> (avoiding r X)\<^sup>* \<and> P n} = {}"
  by (auto elim: converse_rtranclE)

text \<open>What a call with the nodes \<open>seen\<close> on its path adds to the start nodes.\<close>

definition start_post ::
  "(INode \<times> INode) set \<Rightarrow> (INode \<Rightarrow> bool) \<Rightarrow> INode set \<Rightarrow> INode \<Rightarrow> INode list \<Rightarrow> INode list res \<Rightarrow> bool" where
  "start_post live stop seen cur S r \<longleftrightarrow> (\<exists>R. r = Inr R \<and> distinct R
     \<and> set S \<union> {n. (cur, n) \<in> (avoiding live seen)\<^sup>* \<and> stop n} \<subseteq> set R
     \<and> set R \<subseteq> set S \<union> {n. (cur, n) \<in> live\<^sup>* \<and> stop n})"

lemma start_post_stop:
  assumes "stop cur" and "\<And>b. (cur, b) \<notin> live" and "distinct S"
  shows "start_post live stop seen cur S (Inr (set_add cur S))"
proof -
  have "{n. (cur, n) \<in> r\<^sup>* \<and> stop n} \<subseteq> {cur}" if "r \<subseteq> live" for r
    using that assms(2) by (blast elim: converse_rtranclE)
  from this [of live] this [of "avoiding live seen"] assms(1,3) show ?thesis
    unfolding start_post_def by auto
qed

lemma start_post_seen:
  assumes "\<not> stop cur" and "cur \<in> seen" and "distinct S"
  shows "start_post live stop seen cur S (Inr S)"
  using stops_seen [of stop cur seen live] assms unfolding start_post_def by auto

text \<open>The loop over the outgoing connections \<open>cs\<close>, of which those in \<open>F\<close> are followed.\<close>

lemma start_post_loop:
  assumes cur: "\<not> stop cur" "cur \<notin> seen" and live: "live `` {cur} = gc_to ` {c \<in> set cs. F c}"
    and skip: "\<And>c S. c \<in> set cs \<Longrightarrow> \<not> F c \<Longrightarrow> f c S = Inr S"
    and follow: "\<And>c S. c \<in> set cs \<Longrightarrow> F c \<Longrightarrow> distinct S \<Longrightarrow>
      start_post live stop (insert cur seen) (gc_to c) S (f c S)"
    and S: "distinct S"
  shows "start_post live stop seen cur S (fold_res f cs S)"
proof -
  let ?L = "\<lambda>c. if F c then {n. (gc_to c, n) \<in> (avoiding live (insert cur seen))\<^sup>* \<and> stop n} else {}"
  let ?U = "\<lambda>c. if F c then {n. (gc_to c, n) \<in> live\<^sup>* \<and> stop n} else {}"
  have "\<exists>R. f c S' = Inr R \<and> distinct R \<and> set S' \<union> ?L c \<subseteq> set R \<and> set R \<subseteq> set S' \<union> ?U c"
    if "c \<in> set cs" "distinct S'" for c S'
    using skip [OF that(1)] follow [OF that(1) _ that(2)] that(2) unfolding start_post_def
    by (cases "F c") auto
  from fold_res_collect [where P = distinct and cont = set, of cs f ?L ?U S, OF this S] obtain R where
    R: "fold_res f cs S = Inr R" "distinct R" "set S \<union> (\<Union>c \<in> set cs. ?L c) \<subseteq> set R"
    "set R \<subseteq> set S \<union> (\<Union>c \<in> set cs. ?U c)" by blast
  have "{n. (cur, n) \<in> (avoiding live seen)\<^sup>* \<and> stop n}
      \<subseteq> (\<Union>b \<in> live `` {cur}. {n. (b, n) \<in> (avoiding live (insert cur seen))\<^sup>* \<and> stop n})"
    using cur by (rule stops_step)
  also have "\<dots> = (\<Union>c \<in> set cs. ?L c)" unfolding live by auto
  finally have low: "{n. (cur, n) \<in> (avoiding live seen)\<^sup>* \<and> stop n} \<subseteq> (\<Union>c \<in> set cs. ?L c)" .
  have "(\<Union>c \<in> set cs. ?U c) = (\<Union>b \<in> live `` {cur}. {n. (b, n) \<in> live\<^sup>* \<and> stop n})"
    unfolding live by auto
  also have "\<dots> \<subseteq> {n. (cur, n) \<in> live\<^sup>* \<and> stop n}" by (auto intro: converse_rtrancl_into_rtrancl)
  finally have "set R \<subseteq> set S \<union> {n. (cur, n) \<in> live\<^sup>* \<and> stop n}"
    using R(4) by (rule subset_trans [OF _ Un_mono [OF order_refl], rotated])
  with R(1-3) low show ?thesis unfolding start_post_def by (intro exI [of _ R]) (simp add: subset_trans)
qed

lemma findStartNodesRecursive_spec:
  assumes wf: "wf_graph g" and typed: "run_data_typed g rd"
  shows "has_node_obj g cur \<Longrightarrow> distinct S \<Longrightarrow>
    start_post (live_edges g dest rd pd) (is_stop g dest rd pd) (set seen) cur S
      (findStartNodesRecursive g cur dest rd pd S seen)"
proof (induction "card (node_objs g - set seen)" arbitrary: cur S seen rule: less_induct)
  case less
  let ?stop = "is_stop g dest rd pd" and ?live = "live_edges g dest rd pd"
  let ?F = "\<lambda>c. has_output rd c \<or> map_get pd (node_name (gc_from c)) \<noteq> None"
  note unfold = findStartNodesRecursive.simps [of g cur dest rd pd S seen]
  note lu = loopUnfinished_ok [OF wf less.prems(1) typed, of pd dest]
  show ?case
  proof (cases "?stop cur")
    case True
    have "(cur, b) \<notin> ?live" for b using True by (auto simp: live_edges_def)
    moreover have "findStartNodesRecursive g cur dest rd pd S seen = Inr (set_add cur S)"
      using True lu by (cases "isDirty cur rd pd \<or> cur = dest") (auto simp: unfold)
    ultimately show ?thesis using True less.prems(2) by (simp add: start_post_stop)
  next
    case False
    then have nd: "\<not> isDirty cur rd pd" "cur \<noteq> dest" by (auto simp: is_stop_def isDirty_iff)
    show ?thesis
    proof (cases "cur \<in> set seen")
      case True
      with nd lu False less.prems(2) show ?thesis by (simp add: unfold start_post_seen)
    next
      case new: False
      have "card (node_objs g - set (set_add cur seen)) < card (node_objs g - set seen)"
        using less.prems(1) new by (intro card_node_objs_less) (auto simp: node_objs_def)
      note IH = less.hyps [OF this]
      have fo: "followOutput c rd pd = Inr (?F c)" if "c \<in> conn_objs g" for c
        using that typed unfolding run_data_typed_def conn_objs_def by (intro followOutput_ok) blast
      let ?f = "\<lambda>c S. bind_res (followOutput c rd pd) (\<lambda>follow. if \<not> follow then Inr S
        else findStartNodesRecursive g (gc_to c) dest rd pd S (set_add cur seen))"
      let ?cs = "filter (\<lambda>c. gc_from c = cur) (values_of (dg_connections g))"
      have "start_post ?live ?stop (set seen) cur S (fold_res ?f ?cs S)"
      proof (rule start_post_loop [where F = ?F])
        show "?live `` {cur} = gc_to ` {c \<in> set ?cs. ?F c}" using False by (auto simp: live_edges_def)
      qed (use fo IH wf_conn_nodes(2) [OF wf] less.prems(2) False new in auto)
      then show ?thesis
        using nd lu False new less.prems(1) by (simp add: unfold getDirectChildConnections_ok)
    qed
  qed
qed

lemma findStartNodes_spec:
  assumes "wf_graph g" and "has_node_obj g trigger" and "run_data_typed g rd"
  shows "\<exists>R. findStartNodes g trigger dest pd rd = Inr R \<and> distinct R \<and>
    set R = {n. (trigger, n) \<in> (live_edges g dest rd pd)\<^sup>* \<and> is_stop g dest rd pd n}"
  using findStartNodesRecursive_spec [OF assms(1,3,2), of "[]" dest pd "[]"]
  by (auto simp: findStartNodes_def start_post_def)

text \<open>
  C23. \<^verbatim>\<open>findStartNodes\<close> returns exactly the nodes at which the walk from the trigger stops: the
  nodes that must run again, or the destination, or an unfinished loop node, and that the trigger
  reaches through nodes that are none of these, along outputs that have run data in some run or
  whose node has pinned data.
\<close>

theorem findStartNodes_correct:
  assumes "wf_graph g" and "has_node_obj g trigger" and "run_data_typed g rd"
  shows "\<exists>R. findStartNodes g trigger dest pd rd = Inr R \<and> distinct R \<and>
    set R = {n. (trigger, n) \<in> (live_edges g dest rd pd)\<^sup>* \<and> is_stop g dest rd pd n}"
  by (rule findStartNodes_spec [OF assms])

theorem findStartNodes_correct_witness:
  "findStartNodes ex_graph ex_t ex_c [] [(''t'', [ex_run])] = Inr [ex_a]
     \<and> (ex_t, ex_a) \<in> (live_edges ex_graph ex_c [(''t'', [ex_run])] [])\<^sup>*"
proof -
  have "run_data_typed ex_graph [(''t'', [ex_run])]" by code_simp
  note findStartNodes_correct [OF ex_graph_wf ex_graph_nodes(1) this, of ex_c "[]"]
  moreover have "findStartNodes ex_graph ex_t ex_c [] [(''t'', [ex_run])] = Inr [ex_a]" by code_simp
  ultimately show ?thesis by auto
qed

text \<open>
  C29. \<^verbatim>\<open>handleCycles\<close>, given start nodes that the trigger reaches, never fails its assertion: it
  replaces each start node that lies in a returned component by the first node of the component
  that the search from the trigger meets, keeps the others, and lists no node twice.
\<close>

theorem handleCycles_correct:
  assumes "wf_graph g" and "has_node_obj g trigger" and "distinct S"
    and "\<And>s. s \<in> set S \<Longrightarrow> (trigger, s) \<in> (dg_edges g)\<^sup>*"
  shows "\<exists>sccs R. getStronglyConnectedComponents g = Inr sccs \<and> handleCycles g S trigger = Inr R
    \<and> distinct R \<and> set R = cycle_start g trigger sccs ` set S"
  by (rule handleCycles_spec [OF assms]; assumption?) blast

theorem handleCycles_correct_witness:
  "handleCycles ex_graph [ex_b] ex_t = Inr [ex_a] \<and> cycle_start ex_graph ex_t [[ex_c], [ex_b, ex_a], [ex_t]] ex_b = ex_a"
proof -
  have "(ex_t, ex_b) \<in> (dg_edges ex_graph)\<^sup>*"
  proof (rule rtrancl_trans)
    show "(ex_t, ex_a) \<in> (dg_edges ex_graph)\<^sup>*" "(ex_a, ex_b) \<in> (dg_edges ex_graph)\<^sup>*"
      by (auto simp: dg_edges_def conn_objs_def ex_graph_def graph_of_def ex_conn_def simp del: conn_objs_fold)
  qed
  with handleCycles_correct [OF ex_graph_wf ex_graph_nodes(1), of "[ex_b]"] obtain sccs R where
    "getStronglyConnectedComponents ex_graph = Inr sccs" "handleCycles ex_graph [ex_b] ex_t = Inr R"
    "set R = {cycle_start ex_graph ex_t sccs ex_b}" by auto
  moreover have "getStronglyConnectedComponents ex_graph = Inr [[ex_c], [ex_b, ex_a], [ex_t]]" by code_simp
  moreover have "handleCycles ex_graph [ex_b] ex_t = Inr [ex_a]" by code_simp
  ultimately show ?thesis by auto
qed

end
