(* ===== verification/Subgraph_Correct.thy ===== *)
theory Subgraph_Correct
  imports Partial_Execution_Correct
begin

text \<open>
  Correctness of \<^verbatim>\<open>findSubgraph\<close>: it returns a well-formed part of the graph; the part holds
  every main connection on a way from the trigger to the destination, only main connections that
  lead to the destination, and exactly the non-main connections that feed its nodes.
\<close>

section \<open>Keeping connections\<close>

definition sub_inv :: "DirectedGraph \<Rightarrow> DirectedGraph \<Rightarrow> bool" where
  "sub_inv g sub \<longleftrightarrow> wf_graph sub \<and> conn_objs sub \<subseteq> conn_objs g \<and> node_objs sub \<subseteq> node_objs g"

lemma sub_inv_addNode:
  assumes "sub_inv g sub" and "has_node_obj g n"
  shows "sub_inv g (addNode n sub)" and "node_objs (addNode n sub) = insert n (node_objs sub)"
    and "conn_objs (addNode n sub) = conn_objs sub"
    and "\<exists>more. dg_nodes (addNode n sub) = dg_nodes sub @ more"
proof -
  have same: "has_node_obj sub n" if "hasNode sub (node_name n)"
  proof -
    from that obtain m where m: "map_get (dg_nodes sub) (node_name n) = Some m" by (auto simp: hasNode_def)
    then have "(node_name n, m) \<in> set (dg_nodes sub)" by (rule map_of_SomeD)
    then have "node_name m = node_name n" using assms(1) by (auto simp: sub_inv_def wf_graph_def)
    with m have "m \<in> node_objs sub" by (simp add: node_objs_def has_node_obj_def)
    with assms have "m = n" using has_node_obj_name_inj \<open>node_name m = node_name n\<close>
      by (auto simp: sub_inv_def node_objs_def)
    with m show ?thesis by (simp add: has_node_obj_def)
  qed
  from same have "wf_graph (addNode n sub)" using assms(1) by (intro addNode_wf) (auto simp: sub_inv_def)
  moreover show n: "node_objs (addNode n sub) = insert n (node_objs sub)"
    using same unfolding node_objs_def has_node_obj_addNode
    by (auto simp: has_node_obj_def hasNode_def)
  moreover show c: "conn_objs (addNode n sub) = conn_objs sub" by (simp add: conn_objs_def del: conn_objs_fold)
  ultimately show "sub_inv g (addNode n sub)" using assms by (auto simp: sub_inv_def node_objs_def)
  have "map_update k v m = m" if "map_get m k = Some v" for k v and m :: "(string \<times> INode) list"
    using that by (induction m) (auto split: if_splits)
  moreover have "hasNode sub (node_name n) \<longleftrightarrow> node_name n \<in> set (keys_of (dg_nodes sub))"
    by (simp add: hasNode_def map_of_eq_None_iff)
  ultimately show "\<exists>more. dg_nodes (addNode n sub) = dg_nodes sub @ more"
    using same unfolding addNode_def map_set_def has_node_obj_def by (simp del: set_map)
qed

lemma sub_inv_keepConnection:
  assumes "wf_graph g" and "sub_inv g sub" and "c \<in> conn_objs g"
  shows "\<exists>sub'. keepConnection c sub = Inr sub' \<and> sub_inv g sub' \<and> conn_objs sub' = insert c (conn_objs sub)
    \<and> node_objs sub' = node_objs sub \<union> {gc_from c, gc_to c} \<and> (\<exists>more. dg_nodes sub' = dg_nodes sub @ more)"
proof -
  note ends = wf_conn_nodes [OF assms(1,3)]
  let ?s = "addNode (gc_to c) (addNode (gc_from c) sub)"
  note a = sub_inv_addNode [OF assms(2) ends(1)]
  note b = sub_inv_addNode [OF a(1) ends(2)]
  have wfs: "wf_graph ?s" using b(1) by (simp add: sub_inv_def)
  have obj: "has_node_obj ?s (gc_from c)" "has_node_obj ?s (gc_to c)"
    using a(2) b(2) by (auto simp: node_objs_def)
  then have k: "keepConnection c sub = Inr (set_connection c ?s)"
    by (simp add: keepConnection_def addNodes_def addConnection_as_input)
  have "makeKey d \<noteq> makeKey c" if "d \<in> conn_objs g" "d \<noteq> c" for d
    using that assms(3) wf_conn_key [OF assms(1), of "makeKey d" d] wf_conn_key [OF assms(1), of "makeKey c" c]
    by auto
  then have conn: "conn_objs (set_connection c ?s) = insert c (conn_objs sub)"
    using conn_objs_set_connection [OF wfs, of c] assms(2) a(3) b(3) by (auto simp: sub_inv_def)
  have nodes: "node_objs (set_connection c ?s) = node_objs sub \<union> {gc_from c, gc_to c}"
    using a(2) b(2) by (auto simp: node_objs_def)
  have "wf_graph (set_connection c ?s)" using wfs obj by (rule set_connection_wf)
  then have "sub_inv g (set_connection c ?s)"
    using conn nodes assms ends by (auto simp: sub_inv_def node_objs_def)
  moreover have "\<exists>more. dg_nodes (set_connection c ?s) = dg_nodes sub @ more"
    using a(4) b(4) by (auto simp: set_connection_def)
  ultimately show ?thesis using k conn nodes by blast
qed

text \<open>Both loops that keep connections, as one lemma: the connections of \<open>cs\<close> that pass \<open>F\<close>.\<close>

definition conn_ends :: "GraphConnection set \<Rightarrow> INode set" where
  "conn_ends C = gc_from ` C \<union> gc_to ` C"

lemma conn_ends_simps [simp]:
  "conn_ends {} = {}" "conn_ends (insert c C) = {gc_from c, gc_to c} \<union> conn_ends C" "conn_ends (C \<union> D) = conn_ends C \<union> conn_ends D"
  by (auto simp: conn_ends_def)

lemma keep_loop:
  assumes wf: "wf_graph g" and "sub_inv g sub" and "set cs \<subseteq> conn_objs g"
    and "\<And>c s. c \<in> set cs \<Longrightarrow> f c s = (if F c then keepConnection c s else Inr s)"
  shows "\<exists>sub'. fold_res f cs sub = Inr sub' \<and> sub_inv g sub'
    \<and> conn_objs sub' = conn_objs sub \<union> {c \<in> set cs. F c} \<and> node_objs sub' = node_objs sub \<union> conn_ends {c \<in> set cs. F c}"
  using assms(2-)
proof (induction cs arbitrary: sub)
  case Nil
  then show ?case by simp
next
  case (Cons c cs)
  have set: "{d \<in> set (c # cs). F d} = (if F c then {c} else {}) \<union> {d \<in> set cs. F d}" by auto
  have "\<exists>s1. f c sub = Inr s1 \<and> sub_inv g s1 \<and> conn_objs s1 = conn_objs sub \<union> (if F c then {c} else {})
      \<and> node_objs s1 = node_objs sub \<union> conn_ends (if F c then {c} else {})"
    using sub_inv_keepConnection [OF wf Cons.prems(1), of c] Cons.prems by (cases "F c") auto
  then obtain s1 where s1: "f c sub = Inr s1" "sub_inv g s1" "conn_objs s1 = conn_objs sub \<union> (if F c then {c} else {})"
    "node_objs s1 = node_objs sub \<union> conn_ends (if F c then {c} else {})" by blast
  from Cons.IH [OF s1(2)] Cons.prems obtain s2 where
    "fold_res f cs s1 = Inr s2" "sub_inv g s2" "conn_objs s2 = conn_objs s1 \<union> {c \<in> set cs. F c}"
    "node_objs s2 = node_objs s1 \<union> conn_ends {c \<in> set cs. F c}" by auto
  with s1 show ?case unfolding set conn_ends_simps(3) by (simp add: Un_assoc)
qed

lemma keepBranch_spec:
  assumes "wf_graph g" and "sub_inv g sub" and "set branch \<subseteq> conn_objs g"
  shows "\<exists>sub'. keepBranch branch sub = Inr sub' \<and> sub_inv g sub' \<and> conn_objs sub' = conn_objs sub \<union> set branch"
  using keep_loop [OF assms, of keepConnection "\<lambda>_. True"] by (auto simp: keepBranch_def)

section \<open>The branches that are kept\<close>

text \<open>A node that the trigger reaches without passing the destination, and a main connection
  that leads to the destination without passing the trigger.\<close>

definition from_trigger :: "DirectedGraph \<Rightarrow> INode \<Rightarrow> INode \<Rightarrow> INode \<Rightarrow> bool" where
  "from_trigger g dest trigger n \<longleftrightarrow> n \<noteq> dest \<and> (trigger, n) \<in> (avoiding (main_edges g) {dest})\<^sup>*"

definition leads_to :: "DirectedGraph \<Rightarrow> INode \<Rightarrow> INode \<Rightarrow> GraphConnection \<Rightarrow> bool" where
  "leads_to g dest trigger c \<longleftrightarrow> gc_type c = Main \<and> gc_to c \<noteq> trigger
     \<and> (gc_to c, dest) \<in> (avoiding (main_edges g) {trigger})\<^sup>*"

text \<open>
  The connections that the call at \<open>cur\<close> with the branch \<open>branch\<close> is sure to keep: the branch
  itself if the trigger reaches \<open>cur\<close>, and every connection from which \<open>cur\<close> is reached
  without meeting the branch again.
\<close>

definition sure_kept ::
  "DirectedGraph \<Rightarrow> INode \<Rightarrow> INode \<Rightarrow> INode \<Rightarrow> GraphConnection list \<Rightarrow> GraphConnection set" where
  "sure_kept g dest trigger cur branch =
     (if from_trigger g dest trigger cur then set branch else {}) \<union>
     {c \<in> conn_objs g. gc_type c = Main \<and> cur \<noteq> trigger \<and> cur \<notin> gc_to ` set branch
        \<and> gc_to c \<notin> insert trigger (gc_to ` set branch)
        \<and> (gc_to c, cur) \<in> (avoiding (main_edges g) (insert trigger (gc_to ` set branch)))\<^sup>*
        \<and> from_trigger g dest trigger (gc_from c)}"

lemma main_edgeE:
  assumes "(x, y) \<in> main_edges g"
  obtains c where "c \<in> conn_objs g" "gc_from c = x" "gc_to c = y" "gc_type c = Main"
  using assms by (auto simp: main_edges_def)

lemma from_trigger_parent:
  assumes "from_trigger g dest trigger cur" and "cur \<noteq> trigger"
  obtains c where "c \<in> conn_objs g" "gc_to c = cur" "gc_type c = Main" "from_trigger g dest trigger (gc_from c)"
proof -
  from assms obtain x where "(trigger, x) \<in> (avoiding (main_edges g) {dest})\<^sup>*" "(x, cur) \<in> main_edges g" "x \<noteq> dest"
    unfolding from_trigger_def by (auto elim: rtranclE)
  then show thesis using that by (auto simp: from_trigger_def elim!: main_edgeE)
qed

lemma sure_kept_step:
  assumes "c \<in> sure_kept g dest trigger cur branch" and "cur \<noteq> trigger"
  obtains p where "p \<in> conn_objs g" "gc_to p = cur" "gc_type p = Main"
    "c \<in> sure_kept g dest trigger (gc_from p) (branch @ [p])"
proof -
  let ?r = "avoiding (main_edges g) (insert trigger (gc_to ` set branch))"
  consider (branch) "from_trigger g dest trigger cur" "c \<in> set branch"
    | (direct) "gc_to c = cur" "c \<in> conn_objs g" "gc_type c = Main" "from_trigger g dest trigger (gc_from c)"
    | (far) "gc_to c \<noteq> cur" "(gc_to c, cur) \<in> ?r\<^sup>*" "c \<in> conn_objs g" "gc_type c = Main"
      "from_trigger g dest trigger (gc_from c)" "gc_to c \<notin> insert trigger (gc_to ` set branch)"
    using assms(1) unfolding sure_kept_def by (auto split: if_splits)
  then show thesis
  proof cases
    case branch
    from from_trigger_parent [OF branch(1) assms(2)] obtain p where
      "p \<in> conn_objs g" "gc_to p = cur" "gc_type p = Main" "from_trigger g dest trigger (gc_from p)" .
    with branch(2) show thesis by (intro that [of p]) (auto simp: sure_kept_def)
  next
    case direct
    then show thesis by (intro that [of c]) (auto simp: sure_kept_def)
  next
    case far
    from first_visit [OF far(2,1)] obtain b where b: "(b, cur) \<in> ?r" "b \<noteq> cur" "(gc_to c, b) \<in> (avoiding ?r {cur})\<^sup>*"
      by blast
    from b(1) obtain p where p: "p \<in> conn_objs g" "gc_from p = b" "gc_to p = cur" "gc_type p = Main"
      by (auto elim: main_edgeE)
    have "avoiding ?r {cur} = avoiding (main_edges g) (insert trigger (gc_to ` set (branch @ [p])))"
      using p(3) by auto
    with b far p have "c \<in> sure_kept g dest trigger (gc_from p) (branch @ [p])"
      unfolding sure_kept_def by auto
    with p show thesis by (intro that [of p]) auto
  qed
qed

lemma sure_kept_cycle:
  assumes "cur \<in> gc_to ` set branch" and "cur \<noteq> trigger"
  shows "sure_kept g dest trigger cur branch \<subseteq> (if cur = dest then {} else set branch)"
  using assms by (auto simp: sure_kept_def from_trigger_def)

lemma leads_to_parent:
  assumes "p \<in> conn_objs g" and "gc_type p = Main" and "gc_to p \<noteq> trigger"
    and "(gc_to p, dest) \<in> (avoiding (main_edges g) {trigger})\<^sup>*"
  shows "leads_to g dest trigger p"
    and "gc_from p \<noteq> trigger \<Longrightarrow> (gc_from p, dest) \<in> (avoiding (main_edges g) {trigger})\<^sup>*"
proof -
  show "leads_to g dest trigger p" using assms by (simp add: leads_to_def)
  assume "gc_from p \<noteq> trigger"
  then have "(gc_from p, gc_to p) \<in> avoiding (main_edges g) {trigger}"
    using assms(1,2) by (auto simp: main_edges_def)
  then show "(gc_from p, dest) \<in> (avoiding (main_edges g) {trigger})\<^sup>*"
    using assms(4) by (rule converse_rtrancl_into_rtrancl)
qed

definition branch_ok :: "DirectedGraph \<Rightarrow> INode \<Rightarrow> INode \<Rightarrow> INode \<Rightarrow> GraphConnection list \<Rightarrow> bool" where
  "branch_ok g dest trigger cur branch \<longleftrightarrow> has_node_obj g cur
     \<and> set branch \<subseteq> {c \<in> conn_objs g. leads_to g dest trigger c}
     \<and> (cur \<noteq> trigger \<longrightarrow> (cur, dest) \<in> (avoiding (main_edges g) {trigger})\<^sup>*)"

definition subgraph_post ::
  "DirectedGraph \<Rightarrow> INode \<Rightarrow> INode \<Rightarrow> INode \<Rightarrow> GraphConnection list \<Rightarrow> DirectedGraph \<Rightarrow> DirectedGraph res \<Rightarrow> bool" where
  "subgraph_post g dest trigger cur branch sub r \<longleftrightarrow> (\<exists>sub'. r = Inr sub' \<and> sub_inv g sub'
     \<and> conn_objs sub \<union> sure_kept g dest trigger cur branch \<subseteq> conn_objs sub'
     \<and> conn_objs sub' \<subseteq> conn_objs sub \<union> {c \<in> conn_objs g. leads_to g dest trigger c})"

lemma subgraph_post_keep:
  assumes "wf_graph g" and "branch_ok g dest trigger cur branch" and "sub_inv g sub"
    and "sure_kept g dest trigger cur branch \<subseteq> set branch"
  shows "subgraph_post g dest trigger cur branch sub (keepBranch branch sub)"
proof -
  have b: "set branch \<subseteq> conn_objs g" "set branch \<subseteq> {c \<in> conn_objs g. leads_to g dest trigger c}"
    using assms(2) by (auto simp: branch_ok_def)
  from keepBranch_spec [OF assms(1,3) b(1)] obtain sub' where
    "keepBranch branch sub = Inr sub'" "sub_inv g sub'" "conn_objs sub' = conn_objs sub \<union> set branch" by blast
  with b(2) assms(4) show ?thesis unfolding subgraph_post_def by (intro exI [of _ sub']) auto
qed

lemma subgraph_post_loop:
  assumes wf: "wf_graph g" and ok: "branch_ok g dest trigger cur branch" and cur: "cur \<noteq> trigger"
    and inv: "sub_inv g sub"
    and ps: "set ps = {p \<in> conn_objs g. gc_to p = cur}"
    and rec: "\<And>p s. p \<in> set ps \<Longrightarrow> gc_type p = Main \<Longrightarrow> sub_inv g s \<Longrightarrow>
      branch_ok g dest trigger (gc_from p) (branch @ [p]) \<Longrightarrow>
      subgraph_post g dest trigger (gc_from p) (branch @ [p]) s (f p s)"
  shows "subgraph_post g dest trigger cur branch sub
    (fold_res (\<lambda>p s. if gc_type p \<noteq> Main then Inr s else f p s) ps sub)"
proof -
  let ?L = "\<lambda>p. if gc_type p = Main then sure_kept g dest trigger (gc_from p) (branch @ [p]) else {}"
  let ?U = "\<lambda>p :: GraphConnection. {c \<in> conn_objs g. leads_to g dest trigger c}"
  let ?f = "\<lambda>p s. if gc_type p \<noteq> Main then Inr s else f p s"
  have "\<exists>t. ?f p s = Inr t \<and> sub_inv g t \<and> conn_objs s \<union> ?L p \<subseteq> conn_objs t \<and> conn_objs t \<subseteq> conn_objs s \<union> ?U p"
    if p: "p \<in> set ps" and s: "sub_inv g s" for p s
  proof (cases "gc_type p = Main")
    case False
    with s show ?thesis by simp
  next
    case True
    with p ps ok cur leads_to_parent [of p g trigger dest] wf_conn_nodes(1) [OF wf, of p]
    have "branch_ok g dest trigger (gc_from p) (branch @ [p])" unfolding branch_ok_def by auto
    from rec [OF p True s this] True show ?thesis unfolding subgraph_post_def by auto
  qed
  from fold_res_collect [where P = "sub_inv g" and cont = conn_objs, of ps ?f ?L ?U, OF this inv]
  obtain t where t: "fold_res ?f ps sub = Inr t" "sub_inv g t"
    "conn_objs sub \<union> (\<Union>p \<in> set ps. ?L p) \<subseteq> conn_objs t" "conn_objs t \<subseteq> conn_objs sub \<union> (\<Union>p \<in> set ps. ?U p)"
    by blast
  have "sure_kept g dest trigger cur branch \<subseteq> (\<Union>p \<in> set ps. ?L p)"
  proof
    fix c
    assume "c \<in> sure_kept g dest trigger cur branch"
    then obtain p where "p \<in> conn_objs g" "gc_to p = cur" "gc_type p = Main"
      "c \<in> sure_kept g dest trigger (gc_from p) (branch @ [p])"
      using cur by (rule sure_kept_step)
    then show "c \<in> (\<Union>p \<in> set ps. ?L p)" by (intro UN_I [of p]) (simp_all add: ps)
  qed
  then have "conn_objs sub \<union> sure_kept g dest trigger cur branch \<subseteq> conn_objs t"
    using t(3) by (rule subset_trans [OF Un_mono [OF order_refl]])
  moreover have "(\<Union>p \<in> set ps. ?U p) \<subseteq> {c \<in> conn_objs g. leads_to g dest trigger c}" by auto
  with t(4) have "conn_objs t \<subseteq> conn_objs sub \<union> {c \<in> conn_objs g. leads_to g dest trigger c}"
    by (rule subset_trans [OF _ Un_mono [OF order_refl]])
  ultimately show ?thesis unfolding subgraph_post_def using t(1,2) by blast
qed

lemma sure_kept_no_parents:
  assumes "cur \<noteq> trigger" and "\<And>p. p \<in> conn_objs g \<Longrightarrow> gc_to p \<noteq> cur"
  shows "sure_kept g dest trigger cur branch = {}"
proof -
  have False if "c \<in> sure_kept g dest trigger cur branch" for c
    by (rule sure_kept_step [OF that assms(1)]) (use assms(2) in simp)
  then show ?thesis by blast
qed

lemma sure_kept_trigger: "sure_kept g dest trigger trigger branch \<subseteq> set branch"
  by (auto simp: sure_kept_def)

lemma findSubgraphRecursive_spec:
  assumes wf: "wf_graph g"
  shows "branch_ok g dest trigger cur branch \<Longrightarrow> sub_inv g sub \<Longrightarrow> has_node_obj g trigger \<Longrightarrow>
    subgraph_post g dest trigger cur branch sub (findSubgraphRecursive g dest cur trigger sub branch)"
proof (induction "card (node_objs g - gc_to ` set branch)" arbitrary: cur branch sub rule: less_induct)
  case less
  note unfold = findSubgraphRecursive.simps [of g dest cur trigger sub branch]
  show ?case
  proof (cases "cur = trigger")
    case True
    have "subgraph_post g dest trigger cur branch (addNode trigger sub) (keepBranch branch (addNode trigger sub))"
      using less.prems sub_inv_addNode(1) sure_kept_trigger True by (intro subgraph_post_keep [OF wf]) auto
    moreover have "findSubgraphRecursive g dest cur trigger sub branch = keepBranch branch (addNode trigger sub)"
      by (subst unfold) (simp add: True)
    ultimately show ?thesis
      using sub_inv_addNode(3) [OF less.prems(2,3)] by (simp add: subgraph_post_def)
  next
    case False
    let ?ps = "filter (\<lambda>c. gc_to c = cur) (values_of (dg_connections g))"
    have cur: "has_node_obj g cur" using less.prems(1) by (simp add: branch_ok_def)
    then have cur': "cur \<in> node_objs g" by (simp add: node_objs_def)
    consider (none) "?ps = []" | (cycle) "?ps \<noteq> []" "cur \<in> gc_to ` set branch"
      | (rec) "?ps \<noteq> []" "cur \<notin> gc_to ` set branch" by blast
    then show ?thesis
    proof cases
      case none
      then have "p \<in> conn_objs g \<Longrightarrow> gc_to p \<noteq> cur" for p by (auto simp: filter_empty_conv)
      with none False less.prems(2) cur show ?thesis
        by (simp add: unfold getDirectParentConnections_ok subgraph_post_def sure_kept_no_parents)
    next
      case cycle
      have "list_ex (\<lambda>c. gc_to c = cur) branch" using cycle(2) by (auto simp: list_ex_iff)
      moreover have "subgraph_post g dest trigger cur branch sub (if cur = dest then Inr sub else keepBranch branch sub)"
        using subgraph_post_keep [OF wf less.prems(1,2)] sure_kept_cycle [OF cycle(2) False, of g dest] less.prems(2)
        by (auto simp: subgraph_post_def)
      ultimately show ?thesis
        using False cycle(1) cur by (subst unfold) (auto simp: getDirectParentConnections_ok split: if_splits)
    next
      case rec
      have dec: "card (node_objs g - gc_to ` set (branch @ [p])) < card (node_objs g - gc_to ` set branch)"
        if "p \<in> set ?ps" for p
        using that rec(2) cur' by (intro psubset_card_mono) auto
      have "\<not> list_ex (\<lambda>c. gc_to c = cur) branch" using rec(2) by (auto simp: list_ex_iff)
      then have "findSubgraphRecursive g dest cur trigger sub branch =
        fold_res (\<lambda>p s. if gc_type p \<noteq> Main then Inr s
          else findSubgraphRecursive g dest (gc_from p) trigger s (branch @ [p])) ?ps sub"
        using False rec(1) cur by (auto simp: unfold getDirectParentConnections_ok)
      moreover have "subgraph_post g dest trigger cur branch sub \<dots>"
        using less.hyps [OF dec] less.prems by (intro subgraph_post_loop [OF wf _ False]) auto
      ultimately show ?thesis by simp
    qed
  qed
qed

section \<open>The utility nodes\<close>

text \<open>The non-main connections that feed a node, directly or from upstream.\<close>

definition feeding :: "DirectedGraph \<Rightarrow> INode set \<Rightarrow> GraphConnection set" where
  "feeding g X = {c \<in> conn_objs g. gc_type c \<noteq> Main \<and> gc_to c \<in> ((dg_edges g)\<^sup>*)\<inverse> `` X}"

lemma feeding_empty [simp]: "feeding g {} = {}"
  by (simp add: feeding_def)

lemma feeding_insert: "feeding g (insert n X) = feeding g {n} \<union> feeding g X"
  by (auto simp: feeding_def)

lemma addUtilityNodes_spec:
  assumes "wf_graph g" and "sub_inv g sub" and "has_node_obj g n"
  shows "\<exists>sub'. addUtilityNodes g n sub = Inr sub' \<and> sub_inv g sub'
    \<and> conn_objs sub' = conn_objs sub \<union> feeding g {n} \<and> node_objs sub' = node_objs sub \<union> conn_ends (feeding g {n})"
proof -
  from getParentConnections_reaching [OF assms(1,3)] obtain R where
    R: "getParentConnections g n = Inr R" "set R = {c \<in> conn_objs g. (gc_to c, n) \<in> (dg_edges g)\<^sup>*}" by blast
  have feed: "feeding g {n} = {c \<in> set R. gc_type c \<noteq> Main}" by (auto simp: feeding_def R(2))
  have sub: "set R \<subseteq> conn_objs g" by (auto simp: R(2))
  have "(if gc_type c = Main then Inr s else keepConnection c s)
      = (if gc_type c \<noteq> Main then keepConnection c s else Inr s)" for c s by simp
  from keep_loop [OF assms(1,2) sub this] show ?thesis
    unfolding addUtilityNodes_def R(1) bind_res_simps feed by blast
qed

lemma addUtilityNodes_all:
  assumes "wf_graph g" and "sub_inv g sub" and "\<And>n. n \<in> set ns \<Longrightarrow> has_node_obj g n"
  shows "\<exists>sub'. fold_res (addUtilityNodes g) ns sub = Inr sub' \<and> sub_inv g sub'
    \<and> conn_objs sub' = conn_objs sub \<union> feeding g (set ns) \<and> node_objs sub' = node_objs sub \<union> conn_ends (feeding g (set ns))"
  using assms(2,3)
proof (induction ns arbitrary: sub)
  case (Cons n ns)
  from addUtilityNodes_spec [OF assms(1) Cons.prems(1), of n] Cons.prems(2) obtain s1 where
    s1: "addUtilityNodes g n sub = Inr s1" "sub_inv g s1" "conn_objs s1 = conn_objs sub \<union> feeding g {n}"
      "node_objs s1 = node_objs sub \<union> conn_ends (feeding g {n})" by auto
  from Cons.IH [OF s1(2)] Cons.prems(2) obtain s2 where "fold_res (addUtilityNodes g) ns s1 = Inr s2" "sub_inv g s2"
      "conn_objs s2 = conn_objs s1 \<union> feeding g (set ns)" "node_objs s2 = node_objs s1 \<union> conn_ends (feeding g (set ns))" by auto
  moreover have f: "feeding g (set (n # ns)) = feeding g {n} \<union> feeding g (set ns)" using feeding_insert [of g n "set ns"] by simp
  ultimately show ?case using s1 unfolding f conn_ends_simps(3) by (simp add: Un_assoc)
qed simp

text \<open>
  Since \<^verbatim>\<open>getParentConnections\<close> goes all the way up, the nodes that the loop adds need no utility nodes but those that it has added.
\<close>

lemma feeding_ends:
  assumes "wf_graph g"
  shows "feeding g (X \<union> conn_ends (feeding g X)) = feeding g X"
proof -
  have "\<exists>n \<in> X. (x, n) \<in> (dg_edges g)\<^sup>*" if "x \<in> conn_ends (feeding g X)" for x
  proof -
    from that obtain c where c: "c \<in> conn_objs g" "x = gc_from c \<or> x = gc_to c" "gc_to c \<in> ((dg_edges g)\<^sup>*)\<inverse> `` X"
      by (auto simp: conn_ends_def feeding_def)
    moreover have "(gc_from c, gc_to c) \<in> dg_edges g" using c(1) by (auto simp: dg_edges_def)
    ultimately show ?thesis by (auto intro: converse_rtrancl_into_rtrancl)
  qed
  then have "((dg_edges g)\<^sup>*)\<inverse> `` (X \<union> conn_ends (feeding g X)) = ((dg_edges g)\<^sup>*)\<inverse> `` X" by (blast intro: rtrancl_trans)
  then show ?thesis by (simp add: feeding_def)
qed

lemma addUtilityNodesLoop_spec:
  assumes wf: "wf_graph g" and sub: "sub_inv g sub"
  shows "\<exists>sub'. addUtilityNodesLoop g sub = Inr sub' \<and> sub_inv g sub'
      \<and> conn_objs sub' \<subseteq> conn_objs sub \<union> {c \<in> conn_objs g. gc_type c \<noteq> Main}
      \<and> conn_objs sub \<subseteq> conn_objs sub' \<and> feeding g (node_objs sub') \<subseteq> conn_objs sub'
      \<and> node_objs sub \<subseteq> node_objs sub'"
proof -
  have ns: "set (values_of (getNodes sub)) = node_objs sub" using sub wf_node_objs [of sub] by (simp add: sub_inv_def getNodes_def)
  then have "has_node_obj g n" if "n \<in> set (values_of (getNodes sub))" for n using that sub by (auto simp: sub_inv_def node_objs_def)
  from addUtilityNodes_all [OF wf sub this, of "values_of (getNodes sub)"] obtain s where
    s: "addUtilityNodesLoop g sub = Inr s" "sub_inv g s" "conn_objs s = conn_objs sub \<union> feeding g (node_objs sub)"
      "node_objs s = node_objs sub \<union> conn_ends (feeding g (node_objs sub))"
    unfolding addUtilityNodesLoop_def ns by blast
  moreover have "feeding g (node_objs s) \<subseteq> conn_objs s" unfolding s(4) feeding_ends [OF wf] s(3) by blast
  moreover have "feeding g (node_objs sub) \<subseteq> {c \<in> conn_objs g. gc_type c \<noteq> Main}" by (auto simp: feeding_def)
  ultimately show ?thesis by auto
qed

lemma sub_inv_empty: "sub_inv g empty_graph"
  by (simp add: sub_inv_def wf_empty_graph)
    (simp add: conn_objs_def node_objs_def has_node_obj_def empty_graph_def del: conn_objs_fold)

lemma findSubgraph_spec:
  assumes wf: "wf_graph g" and nodes: "has_node_obj g dest" "has_node_obj g trigger"
  obtains sub where "findSubgraph g dest trigger = Inr sub" and "sub_inv g sub"
    and "{c \<in> conn_objs sub. gc_type c = Main} \<subseteq> {c \<in> conn_objs g. leads_to g dest trigger c}"
    and "{c \<in> conn_objs g. leads_to g dest trigger c \<and> from_trigger g dest trigger (gc_from c)} \<subseteq> conn_objs sub"
    and "{c \<in> conn_objs sub. gc_type c \<noteq> Main} = feeding g (node_objs sub)"
    and "trigger = dest \<Longrightarrow> has_node_obj sub trigger"
proof -
  have "branch_ok g dest trigger dest []" using nodes(1) by (simp add: branch_ok_def)
  from findSubgraphRecursive_spec [OF wf this sub_inv_empty nodes(2)] obtain s1 where
    s1: "findSubgraphRecursive g dest dest trigger empty_graph [] = Inr s1" "sub_inv g s1"
    "sure_kept g dest trigger dest [] \<subseteq> conn_objs s1" "conn_objs s1 \<subseteq> {c \<in> conn_objs g. leads_to g dest trigger c}"
    by (auto simp: subgraph_post_def conn_objs_def empty_graph_def simp del: conn_objs_fold)
  from addUtilityNodesLoop_spec [OF wf s1(2)] obtain s2 where
    s2: "addUtilityNodesLoop g s1 = Inr s2" "sub_inv g s2"
    "conn_objs s2 \<subseteq> conn_objs s1 \<union> {c \<in> conn_objs g. gc_type c \<noteq> Main}" "conn_objs s1 \<subseteq> conn_objs s2"
    "feeding g (node_objs s2) \<subseteq> conn_objs s2" "node_objs s1 \<subseteq> node_objs s2" by blast
  have "{c \<in> conn_objs g. leads_to g dest trigger c \<and> from_trigger g dest trigger (gc_from c)}
      \<subseteq> sure_kept g dest trigger dest []"
    by (auto simp: sure_kept_def leads_to_def from_trigger_def elim: converse_rtranclE)
  then show thesis
  proof (intro that [of s2])
    show "findSubgraph g dest trigger = Inr s2" by (simp add: findSubgraph_def s1(1) s2(1))
    show "{c \<in> conn_objs s2. gc_type c \<noteq> Main} = feeding g (node_objs s2)"
      using s2(2,5) wf_conn_nodes(2) by (auto simp: feeding_def sub_inv_def node_objs_def)
    show "has_node_obj s2 trigger" if "trigger = dest"
    proof -
      have "s1 = addNode trigger empty_graph"
        using s1(1) that by (simp add: findSubgraphRecursive.simps keepBranch_def)
      then have "trigger \<in> node_objs s1" by (simp add: node_objs_def has_node_obj_addNode)
      with s2(6) show ?thesis by (auto simp: node_objs_def)
    qed
  qed (use s1 s2 in \<open>auto simp: leads_to_def\<close>)
qed

section \<open>Properties\<close>

text \<open>
  C24. \<^verbatim>\<open>findSubgraph\<close> returns for any two nodes of a well-formed graph, also one with cycles. The
  result is a well-formed sub-graph. Each of its main connections leads to the destination
  without passing the trigger again; every main connection on a way from the trigger to the
  destination that does not go through the destination is in it; its other connections are
  exactly those that feed, directly or through other nodes, a node of the sub-graph.
\<close>

theorem findSubgraph_correct:
  assumes "wf_graph g" and "has_node_obj g dest" and "has_node_obj g trigger"
  shows "\<exists>sub. findSubgraph g dest trigger = Inr sub \<and> sub_inv g sub
    \<and> {c \<in> conn_objs sub. gc_type c = Main} \<subseteq> {c \<in> conn_objs g. leads_to g dest trigger c}
    \<and> {c \<in> conn_objs g. leads_to g dest trigger c \<and> from_trigger g dest trigger (gc_from c)} \<subseteq> conn_objs sub
    \<and> {c \<in> conn_objs sub. gc_type c \<noteq> Main} = feeding g (node_objs sub)"
  by (rule findSubgraph_spec [OF assms]) blast

theorem findSubgraph_correct_witness:
  "findSubgraph ex_graph ex_b ex_t
     = Inr (graph_of [ex_t, ex_a, ex_b] [ex_conn ex_a ex_b, ex_conn ex_t ex_a])
   \<and> leads_to ex_graph ex_b ex_t (ex_conn ex_t ex_a)"
proof -
  have r: "findSubgraph ex_graph ex_b ex_t
     = Inr (graph_of [ex_t, ex_a, ex_b] [ex_conn ex_a ex_b, ex_conn ex_t ex_a])" by code_simp
  moreover have "ex_conn ex_t ex_a \<in> {c \<in> conn_objs (graph_of [ex_t, ex_a, ex_b] [ex_conn ex_a ex_b, ex_conn ex_t ex_a]). gc_type c = Main}"
    by (simp add: conn_objs_def graph_of_def ex_conn_def del: conn_objs_fold)
  ultimately show ?thesis using findSubgraph_correct [OF ex_graph_wf ex_graph_nodes(3,1)] by auto
qed

end
