(* ===== verification/Disabled_Nodes.thy ===== *)
theory Disabled_Nodes
  imports Partial_Execution
begin

text \<open>
  Correctness of \<^verbatim>\<open>filterDisabledNodes\<close>: on a graph without a cycle of disabled nodes it removes
  every disabled node, keeps every other node, and two remaining nodes are joined by a main
  connection exactly if they were before, directly or through disabled nodes only.
\<close>

section \<open>Paths through a set of nodes\<close>

definition thru :: "('a \<times> 'a) set \<Rightarrow> 'a set \<Rightarrow> ('a \<times> 'a) set" where
  "thru E D = {(a, b). a \<notin> D \<and> b \<notin> D \<and> (a, b) \<in> E O (Id_on D O E)\<^sup>*}"

lemma thru_empty [simp]: "thru E {} = E"
  by (auto simp: thru_def)

lemma walk_trans:
  assumes "(a, d) \<in> E O (Id_on D O E)\<^sup>*" and "d \<in> D" and "(d, b) \<in> E O (Id_on D O E)\<^sup>*"
  shows "(a, b) \<in> E O (Id_on D O E)\<^sup>*"
proof -
  from assms(3) obtain x where x: "(d, x) \<in> E" "(x, b) \<in> (Id_on D O E)\<^sup>*" by blast
  from x(1) assms(2) have "(d, x) \<in> Id_on D O E" by blast
  from assms(1) obtain y where y: "(a, y) \<in> E" "(y, d) \<in> (Id_on D O E)\<^sup>*" by blast
  from y(2) \<open>(d, x) \<in> Id_on D O E\<close> x(2) have "(y, b) \<in> (Id_on D O E)\<^sup>*" by (meson rtrancl_trans rtrancl.rtrancl_into_rtrancl)
  with y(1) show ?thesis by blast
qed

lemma walk_step: "(y, z) \<in> E \<Longrightarrow> y \<in> D \<Longrightarrow> (a, y) \<in> E O (Id_on D O E)\<^sup>* \<Longrightarrow> (a, z) \<in> E O (Id_on D O E)\<^sup>*"
  by (rule walk_trans) auto

lemma walk_mono: "D \<subseteq> D' \<Longrightarrow> E O (Id_on D O E)\<^sup>* \<subseteq> E O (Id_on D' O E)\<^sup>*"
  by (intro relcomp_mono order_refl rtrancl_mono) auto

lemma walk_split:
  assumes "(a, z) \<in> E O (Id_on (insert d D) O E)\<^sup>*"
  shows "(a, z) \<in> E O (Id_on D O E)\<^sup>* \<or> (a, d) \<in> E O (Id_on D O E)\<^sup>* \<and> (d, z) \<in> E O (Id_on D O E)\<^sup>*"
proof -
  from assms obtain x where x: "(a, x) \<in> E" "(x, z) \<in> (Id_on (insert d D) O E)\<^sup>*" by blast
  from x(2) show ?thesis
  proof induction
    case base
    with x(1) show ?case by blast
  next
    case (step y z)
    from step(2) have y: "y = d \<or> y \<in> D" "(y, z) \<in> E" by auto
    then have "(y, z) \<in> E O (Id_on D O E)\<^sup>*" by blast
    with y step.IH walk_step [OF y(2)] show ?case by blast
  qed
qed

lemma thru_insert:
  assumes "d \<notin> D"
  shows "thru E (insert d D) = {(a, b). a \<noteq> d \<and> b \<noteq> d
    \<and> ((a, b) \<in> thru E D \<or> (a, d) \<in> thru E D \<and> (d, b) \<in> thru E D)}" (is "?L = ?R")
proof
  show "?L \<subseteq> ?R"
  proof clarify
    fix a b
    assume "(a, b) \<in> ?L"
    then show "a \<noteq> d \<and> b \<noteq> d \<and> ((a, b) \<in> thru E D \<or> (a, d) \<in> thru E D \<and> (d, b) \<in> thru E D)"
      using walk_split [of a b E d D] assms by (auto simp: thru_def simp del: relcomp.relcompI)
  qed
  have "(a, b) \<in> E O (Id_on (insert d D) O E)\<^sup>*" if "(a, b) \<in> ?R" for a b
    using that walk_mono [of D "insert d D" E] walk_trans [of a d E "insert d D" b] unfolding thru_def by auto
  moreover have "a \<notin> insert d D \<and> b \<notin> insert d D" if "(a, b) \<in> ?R" for a b
    using that unfolding thru_def by auto
  ultimately show "?R \<subseteq> ?L" unfolding thru_def [of E "insert d D"] by blast
qed

lemma walk_cycle:
  assumes "(d, z) \<in> E O (Id_on D O E)\<^sup>*" and "D \<subseteq> X" and "d \<in> X" and "z \<in> X"
  shows "(d, z) \<in> (E \<inter> X \<times> X)\<^sup>+"
proof -
  from assms(1) obtain x where x: "(d, x) \<in> E" "(x, z) \<in> (Id_on D O E)\<^sup>*" by blast
  from x(2) assms(4) show ?thesis
  proof induction
    case base
    with x(1) assms(3) show ?case by auto
  next
    case (step y z)
    then have "(y, z) \<in> E \<inter> X \<times> X" "y \<in> X" using assms(2) by auto
    with step.IH show ?case by (meson trancl.trancl_into_trancl)
  qed
qed

section \<open>Removing one disabled node\<close>

definition disabled_objs :: "DirectedGraph \<Rightarrow> INode set" where
  "disabled_objs g = {n \<in> node_objs g. is_disabled n}"

text \<open>The outputs that carry a connection: source node and type.\<close>

definition conn_outputs :: "DirectedGraph \<Rightarrow> (INode \<times> string) set" where
  "conn_outputs g = (\<lambda>c. (gc_from c, gc_type c)) ` conn_objs g"

lemma remove_disabled:
  assumes wf: "wf_graph g" and plain: "plain_names g" and d: "has_node_obj g d" and loop: "(d, d) \<notin> main_edges g"
  obtains g' new where "removeNode d True (Some (\<lambda>c. gc_type c \<noteq> Main)) g = Inr (g', Some new)"
    and "wf_graph g'" and "plain_names g'" and "node_objs g' = node_objs g - {d}"
    and "main_edges g' = {(a, b). a \<noteq> d \<and> b \<noteq> d
       \<and> ((a, b) \<in> main_edges g \<or> (a, d) \<in> main_edges g \<and> (d, b) \<in> main_edges g)}"
    and "conn_outputs g' \<subseteq> conn_outputs g"
proof -
  have loops: "gc_type c \<noteq> Main" if "c \<in> conn_objs g" "gc_from c = d" "gc_to c = d" for c
    using that loop by (auto simp: main_edges_def)
  obtain g' new where rm: "removeNode d True (Some (\<lambda>c. gc_type c \<noteq> Main)) g = Inr (g', Some new)"
    and new: "set new = {i\<lparr>gc_to := gc_to out, gc_inputIndex := gc_inputIndex out\<rparr> | i out.
          i \<in> conn_objs g \<and> gc_to i = d \<and> \<not> gc_type i \<noteq> Main \<and>
          out \<in> conn_objs g \<and> gc_from out = d \<and> \<not> gc_type out \<noteq> Main}"
    and wf': "wf_graph g'" and nodes: "\<And>m. has_node_obj g' m \<longleftrightarrow> has_node_obj g m \<and> m \<noteq> d"
    and "conn_objs g' \<subseteq> {c \<in> conn_objs g. gc_from c \<noteq> d \<and> gc_to c \<noteq> d} \<union> set new"
    and inj: "inj_on makeKey (conn_objs g \<union> set new) \<Longrightarrow>
          conn_objs g' = {c \<in> conn_objs g. gc_from c \<noteq> d \<and> gc_to c \<noteq> d} \<union> set new"
  proof (rule removeNode_reconnect [where skip = "\<lambda>c. gc_type c \<noteq> Main", OF wf d], goal_cases)
    case (1 c)
    show ?case by (rule loops) (fact 1)+
  next
    case (2 g' new)
    show ?case by (rule that) (fact 2)+
  qed
  have "inj_on makeKey (conn_objs g \<union> set new)"
    using plain wf_conn_nodes [OF wf]
    by (intro plain_names_inj [of g]) (auto simp: plain_names_def new)
  then have conn: "conn_objs g' = {c \<in> conn_objs g. gc_from c \<noteq> d \<and> gc_to c \<noteq> d} \<union> set new" by (rule inj)
  have no: "node_objs g' = node_objs g - {d}" using nodes by (auto simp: node_objs_def)
  have pl: "plain_names g'" using plain unfolding plain_names_def no conn by (auto simp: new)
  have joined: "(\<exists>c \<in> set new. gc_from c = a \<and> gc_to c = b) \<longleftrightarrow> (a, d) \<in> main_edges g \<and> (d, b) \<in> main_edges g" for a b
    unfolding new main_edges_def by force
  have main: "c \<in> set new \<Longrightarrow> gc_type c = Main" for c by (auto simp: new)
  have edge: "(a, b) \<in> main_edges h \<longleftrightarrow> (\<exists>c \<in> conn_objs h. gc_type c = Main \<and> gc_from c = a \<and> gc_to c = b)" for a b h
    by (auto simp: main_edges_def)
  have "(a, b) \<in> main_edges g' \<longleftrightarrow> a \<noteq> d \<and> b \<noteq> d \<and> (a, b) \<in> main_edges g
      \<or> (a, d) \<in> main_edges g \<and> (d, b) \<in> main_edges g" for a b
    unfolding edge [of a b] conn joined [symmetric] using main by blast
  then have "main_edges g' = {(a, b). a \<noteq> d \<and> b \<noteq> d
       \<and> ((a, b) \<in> main_edges g \<or> (a, d) \<in> main_edges g \<and> (d, b) \<in> main_edges g)}"
    using loop by auto
  moreover have "conn_outputs g' \<subseteq> conn_outputs g"
    unfolding conn_outputs_def conn by (force simp: new)
  ultimately show thesis using that [OF rm wf' pl no] by blast
qed

section \<open>Removing all of them\<close>

definition filter_step :: "INode \<Rightarrow> DirectedGraph \<Rightarrow> DirectedGraph res" where
  "filter_step node g =
     (if is_disabled node then
        bind_res (removeNode node True (Some (\<lambda>c. gc_type c \<noteq> Main)) g) (\<lambda>(g', _). Inr g')
      else Inr g)"

lemma filter_steps:
  assumes acyclic: "acyclic (main_edges g \<inter> disabled_objs g \<times> disabled_objs g)"
  shows "distinct ns \<Longrightarrow> set ns \<subseteq> node_objs h \<Longrightarrow> D \<subseteq> disabled_objs g \<Longrightarrow> D \<inter> set ns = {} \<Longrightarrow>
      wf_graph h \<Longrightarrow> plain_names h \<Longrightarrow> node_objs h = node_objs g - D \<Longrightarrow> main_edges h = thru (main_edges g) D \<Longrightarrow>
      conn_outputs h \<subseteq> conn_outputs g \<Longrightarrow>
    \<exists>h' D'. fold_res filter_step ns h = Inr h' \<and> wf_graph h' \<and> plain_names h'
      \<and> D' = D \<union> {n \<in> set ns. is_disabled n} \<and> node_objs h' = node_objs g - D' \<and> main_edges h' = thru (main_edges g) D'
      \<and> conn_outputs h' \<subseteq> conn_outputs g"
proof (induction ns arbitrary: h D)
  case Nil
  then show ?case by simp
next
  case (Cons d ns)
  show ?case
  proof (cases "is_disabled d")
    case False
    then have "D \<union> {n \<in> set (d # ns). is_disabled n} = D \<union> {n \<in> set ns. is_disabled n}" by auto
    with Cons.IH [of h D] Cons.prems False show ?thesis by (simp add: filter_step_def)
  next
    case True
    have d: "d \<in> disabled_objs g" "d \<notin> D" "has_node_obj h d"
      using Cons.prems(2,4,7) True by (auto simp: disabled_objs_def node_objs_def)
    have "(d, d) \<notin> main_edges h"
      using acyclic walk_cycle [OF _ Cons.prems(3) d(1) d(1), of "main_edges g"]
      unfolding Cons.prems(8) acyclic_def thru_def by blast
    from remove_disabled [OF Cons.prems(5,6) d(3) this] obtain h1 new where
      h1: "removeNode d True (Some (\<lambda>c. gc_type c \<noteq> Main)) h = Inr (h1, Some new)" "wf_graph h1" "plain_names h1"
      "node_objs h1 = node_objs h - {d}" "main_edges h1 = {(a, b). a \<noteq> d \<and> b \<noteq> d
       \<and> ((a, b) \<in> main_edges h \<or> (a, d) \<in> main_edges h \<and> (d, b) \<in> main_edges h)}"
      "conn_outputs h1 \<subseteq> conn_outputs h" .
    have E: "main_edges h1 = thru (main_edges g) (insert d D)"
      unfolding thru_insert [OF d(2)] h1(5) Cons.prems(8) ..
    have "insert d D \<union> {n \<in> set ns. is_disabled n} = D \<union> {n \<in> set (d # ns). is_disabled n}"
      using True by auto
    moreover have "set ns \<subseteq> node_objs h1" "node_objs h1 = node_objs g - insert d D"
      using Cons.prems(1,2,7) h1(4) by auto
    moreover have "filter_step d h = Inr h1" using True h1(1) by (simp add: filter_step_def)
    ultimately show ?thesis
      using Cons.IH [of h1 "insert d D"] Cons.prems(1,3,4,9) d(1) h1(2,3,6) E by auto
  qed
qed

lemma filterDisabledNodes_spec:
  assumes wf: "wf_graph g" and plain: "plain_names g"
    and acyclic: "acyclic (main_edges g \<inter> disabled_objs g \<times> disabled_objs g)"
  shows "\<exists>h. filterDisabledNodes g = Inr h \<and> wf_graph h \<and> node_objs h = node_objs g - disabled_objs g
    \<and> main_edges h = thru (main_edges g) (disabled_objs g) \<and> conn_outputs h \<subseteq> conn_outputs g"
proof -
  let ?ns = "values_of (dg_nodes g)"
  have ns: "set ?ns = node_objs g" using wf_node_objs [OF wf] by simp
  have "map node_name ?ns = keys_of (dg_nodes g)" using wf by (simp add: wf_graph_def)
  moreover have "distinct (keys_of (dg_nodes g))" using wf by (simp add: wf_graph_def)
  ultimately have "distinct (map node_name ?ns)" by (simp only:)
  then have "distinct ?ns" by (auto simp: distinct_map intro: inj_on_imageI2)
  moreover have "{} \<union> {n \<in> set ?ns. is_disabled n} = disabled_objs g" unfolding ns by (auto simp: disabled_objs_def)
  ultimately have "\<exists>h. fold_res filter_step ?ns g = Inr h \<and> wf_graph h
      \<and> node_objs h = node_objs g - disabled_objs g \<and> main_edges h = thru (main_edges g) (disabled_objs g)
      \<and> conn_outputs h \<subseteq> conn_outputs g"
    using filter_steps [OF acyclic, of ?ns g "{}"] wf plain ns by auto
  moreover have "filterDisabledNodes g = fold_res filter_step ?ns g"
    by (simp add: filterDisabledNodes_def clone_id [OF wf] getNodes_def filter_step_def [abs_def])
  ultimately show ?thesis by simp
qed

text \<open>
  C25. \<^verbatim>\<open>filterDisabledNodes\<close>, on a graph whose names hold no dash and whose disabled nodes form no
  main cycle among themselves: it removes exactly the disabled nodes, and two remaining nodes are
  connected by a main edge afterwards exactly when a main path led from the one to the other all
  of whose inner nodes were disabled.
\<close>

theorem filterDisabledNodes_correct:
  assumes wf: "wf_graph g" and plain: "plain_names g"
    and acyclic: "acyclic (main_edges g \<inter> disabled_objs g \<times> disabled_objs g)"
  shows "\<exists>h. filterDisabledNodes g = Inr h \<and> wf_graph h \<and> node_objs h = node_objs g - disabled_objs g
    \<and> main_edges h = thru (main_edges g) (disabled_objs g)"
  using filterDisabledNodes_spec [OF assms] by blast

definition ex_disabled :: DirectedGraph where
  "ex_disabled = (let d = ex_a\<lparr>node_disabled := Some True\<rparr>
     in graph_of [ex_t, d, ex_b] [ex_conn ex_t d, ex_conn d ex_b])"

lemma ex_disabled_wf: "wf_graph ex_disabled"
  by code_simp

lemma ex_disabled_edges: "main_edges ex_disabled = {(ex_t, ex_a\<lparr>node_disabled := Some True\<rparr>), (ex_a\<lparr>node_disabled := Some True\<rparr>, ex_b)}"
  by (force simp: main_edges_def conn_objs_def ex_disabled_def graph_of_def ex_conn_def Let_def simp del: conn_objs_fold)

lemma ex_disabled_objs: "disabled_objs ex_disabled = {ex_a\<lparr>node_disabled := Some True\<rparr>}"
  unfolding disabled_objs_def wf_node_objs [OF ex_disabled_wf]
  by (auto simp: ex_disabled_def graph_of_def is_disabled_def ex_node_def Let_def)

lemma ex_disabled_acyclic: "acyclic (main_edges ex_disabled \<inter> disabled_objs ex_disabled \<times> disabled_objs ex_disabled)"
proof -
  have "main_edges ex_disabled \<inter> disabled_objs ex_disabled \<times> disabled_objs ex_disabled = {}"
    unfolding ex_disabled_edges ex_disabled_objs by (auto simp: ex_node_def)
  then show ?thesis by (simp add: acyclic_def)
qed

lemma ex_disabled_plain: "plain_names ex_disabled"
  unfolding plain_names_def wf_node_objs [OF ex_disabled_wf]
  by (auto simp: conn_objs_def ex_disabled_def graph_of_def ex_conn_def ex_node_def Let_def simp del: conn_objs_fold)

theorem filterDisabledNodes_correct_witness:
  "filterDisabledNodes ex_disabled = Inr (graph_of [ex_t, ex_b] [ex_conn ex_t ex_b])
   \<and> thru (main_edges ex_disabled) (disabled_objs ex_disabled) = {(ex_t, ex_b)}"
proof -
  have r: "filterDisabledNodes ex_disabled = Inr (graph_of [ex_t, ex_b] [ex_conn ex_t ex_b])" by code_simp
  have "main_edges (graph_of [ex_t, ex_b] [ex_conn ex_t ex_b]) = {(ex_t, ex_b)}"
    by (force simp: main_edges_def conn_objs_def graph_of_def ex_conn_def simp del: conn_objs_fold)
  with filterDisabledNodes_correct [OF ex_disabled_wf ex_disabled_plain ex_disabled_acyclic] r show ?thesis by auto
qed

end
