(* ===== verification/Source_Groups.thy ===== *)
theory Source_Groups
  imports Partial_Execution_Correct
begin

text \<open>
  \<^verbatim>\<open>get-source-data-groups.ts\<close> and \<^verbatim>\<open>recreate-node-execution-stack.ts\<close>: how the incoming
  connections of a start node are grouped into complete and incomplete sets of inputs, and how
  the execution stack and the waiting executions are rebuilt from them.

  \<^verbatim>\<open>String.prototype.localeCompare\<close> depends on the locale of the host; it is the argument
  \<open>localeCompare\<close> of the definitions that sort.
\<close>

section \<open>Grouping the incoming connections\<close>

definition sortByInputIndexThenByName ::
  "(string \<Rightarrow> string \<Rightarrow> int) \<Rightarrow> GraphConnection \<Rightarrow> GraphConnection \<Rightarrow> int" where
  "sortByInputIndexThenByName localeCompare connection1 connection2 =
     (if gc_inputIndex connection1 = gc_inputIndex connection2
      then localeCompare (node_name (gc_from connection1)) (node_name (gc_from connection2))
      else int (gc_inputIndex connection1) - int (gc_inputIndex connection2))"

record SourceConnectionGroup =
  sg_complete :: bool
  sg_connections :: "GraphConnection list"

definition newGroup :: SourceConnectionGroup where
  "newGroup = \<lparr>sg_complete = True, sg_connections = []\<rparr>"

text \<open>\<^verbatim>\<open>Math.min(...)\<close> over the input indices of both lists, of which one is not empty.\<close>

definition minInputIndex :: "GraphConnection list \<Rightarrow> int" where
  "minInputIndex cs = int (fold min (map gc_inputIndex (tl cs)) (gc_inputIndex (hd cs)))"

text \<open>\<^verbatim>\<open>findIndex\<close> and \<^verbatim>\<open>splice\<close>: the first connection of an input, taken out of the list.\<close>

fun take_first :: "int \<Rightarrow> GraphConnection list \<Rightarrow> (GraphConnection \<times> GraphConnection list) option" where
  "take_first i [] = None"
| "take_first i (c # cs) =
     (if int (gc_inputIndex c) = i then Some (c, cs)
      else map_option (\<lambda>(d, ds). (d, c # ds)) (take_first i cs))"

lemma take_first_Some:
  "take_first i cs = Some (c, cs') \<Longrightarrow> int (gc_inputIndex c) = i \<and> mset cs = add_mset c (mset cs') \<and> length cs = Suc (length cs')"
  by (induction cs arbitrary: cs') (auto split: if_splits)

lemma take_first_None: "take_first i cs = None \<longleftrightarrow> (\<forall>c \<in> set cs. int (gc_inputIndex c) \<noteq> i)"
  by (induction cs) auto

lemma fold_min_member: "fold min xs x \<in> insert x (set xs)" for x :: nat
proof (induction xs arbitrary: x)
  case Nil
  then show ?case by simp
next
  case (Cons y ys)
  from Cons [of "min y x"] show ?case by (auto simp: min_def split: if_splits)
qed

lemma minInputIndex_member: "cs \<noteq> [] \<Longrightarrow> minInputIndex cs \<in> (\<lambda>c. int (gc_inputIndex c)) ` set cs"
  using fold_min_member [of "map gc_inputIndex (tl cs)" "gc_inputIndex (hd cs)"]
  by (cases cs) (auto simp: minInputIndex_def)

function groupLoop ::
  "GraphConnection list \<Rightarrow> GraphConnection list \<Rightarrow> int \<Rightarrow> SourceConnectionGroup
     \<Rightarrow> SourceConnectionGroup list \<Rightarrow> SourceConnectionGroup list" where
  "groupLoop withData withoutData currentInputIndex currentGroup groups =
     (if length withData > 0 \<or> length withoutData > 0 then
        (case take_first (currentInputIndex + 1) withData of
           Some (connection, withData') \<Rightarrow>
             groupLoop withData' withoutData (currentInputIndex + 1)
               (currentGroup\<lparr>sg_connections := sg_connections currentGroup @ [connection]\<rparr>) groups
         | None \<Rightarrow>
            (case take_first (currentInputIndex + 1) withoutData of
               Some (connection, withoutData') \<Rightarrow>
                 groupLoop withData withoutData' (currentInputIndex + 1)
                   \<lparr>sg_complete = False, sg_connections = sg_connections currentGroup @ [connection]\<rparr> groups
             | None \<Rightarrow>
                 groupLoop withData withoutData (minInputIndex (withData @ withoutData) - 1)
                   newGroup (groups @ [currentGroup])))
      else groups @ [currentGroup])"
  by pat_completeness auto

text \<open>
  Termination: an iteration takes a connection out of a list, or moves the index in front of an
  input that has a connection.
\<close>

termination groupLoop
proof (relation "measure (\<lambda>(withData, withoutData, i, cur, groups).
    2 * (length withData + length withoutData)
    + (if \<exists>c \<in> set (withData @ withoutData). int (gc_inputIndex c) = i + 1 then 0 else 1))", goal_cases)
  case 1
  then show ?case by simp
next
  case (2 wd wod i cur groups)
  then have "wd @ wod \<noteq> []" by auto
  from minInputIndex_member [OF this]
  have "\<exists>c \<in> set (wd @ wod). int (gc_inputIndex c) = (minInputIndex (wd @ wod) - 1) + 1" by auto
  moreover have "\<not> (\<exists>c \<in> set (wd @ wod). int (gc_inputIndex c) = i + 1)"
    using 2(2,3) unfolding take_first_None by auto
  ultimately show ?case by simp
qed (auto dest!: take_first_Some)

declare groupLoop.simps [simp del]

definition has_data :: "IRunData \<Rightarrow> IPinData \<Rightarrow> GraphConnection \<Rightarrow> bool" where
  "has_data runData pinnedData c \<longleftrightarrow>
     obj_get runData (node_name (gc_from c)) \<noteq> None \<or> obj_get pinnedData (node_name (gc_from c)) \<noteq> None"

definition getSourceDataGroups ::
  "(string \<Rightarrow> string \<Rightarrow> int) \<Rightarrow> DirectedGraph \<Rightarrow> INode \<Rightarrow> IRunData \<Rightarrow> IPinData \<Rightarrow> SourceConnectionGroup list" where
  "getSourceDataGroups localeCompare graph node runData pinnedData =
     (let connections = getConnections graph (Some node);
          withData = filter (has_data runData pinnedData) connections;
          withoutData = filter (\<lambda>c. \<not> has_data runData pinnedData c \<and> gc_type c = Main) connections
      in if length withData = 0 \<and> length withoutData = 0 then []
         else let sortedWithData = js_sort (sortByInputIndexThenByName localeCompare) withData;
                  sortedWithoutData = js_sort (sortByInputIndexThenByName localeCompare) withoutData
              in groupLoop sortedWithData sortedWithoutData
                   (minInputIndex (sortedWithData @ sortedWithoutData) - 1) newGroup [])"

section \<open>Rebuilding the execution stack\<close>

definition addWaitingExecution ::
  "string \<Rightarrow> nat \<Rightarrow> string \<Rightarrow> nat \<Rightarrow> INodeExecutionData list option
     \<Rightarrow> IWaitingForExecution \<Rightarrow> IWaitingForExecution" where
  "addWaitingExecution nodeName runIndex inputType inputIndex executionData waitingExecution =
     (let waitingExecutionObject = (case obj_get waitingExecution nodeName of None \<Rightarrow> [] | Some x \<Rightarrow> x);
          taskDataConnections = (case map_get waitingExecutionObject runIndex of None \<Rightarrow> [] | Some x \<Rightarrow> x);
          executionDataList = (case obj_get taskDataConnections inputType of None \<Rightarrow> [] | Some x \<Rightarrow> x);
          executionDataList' = cell_set inputIndex (option_cell executionData) executionDataList
      in obj_set nodeName
           (map_set runIndex (obj_set inputType executionDataList' taskDataConnections) waitingExecutionObject)
           waitingExecution)"

definition addWaitingExecutionSource ::
  "string \<Rightarrow> nat \<Rightarrow> string \<Rightarrow> nat \<Rightarrow> ISourceData option
     \<Rightarrow> IWaitingForExecutionSource \<Rightarrow> IWaitingForExecutionSource" where
  "addWaitingExecutionSource nodeName runIndex inputType inputIndex sourceData waitingExecutionSource =
     (let waitingExecutionSourceObject = (case obj_get waitingExecutionSource nodeName of None \<Rightarrow> [] | Some x \<Rightarrow> x);
          taskDataConnectionsSource = (case map_get waitingExecutionSourceObject runIndex of None \<Rightarrow> [] | Some x \<Rightarrow> x);
          sourceDataList = (case obj_get taskDataConnectionsSource inputType of None \<Rightarrow> [] | Some x \<Rightarrow> x);
          sourceDataList' = cell_set inputIndex (option_cell sourceData) sourceDataList
      in obj_set nodeName
           (map_set runIndex (obj_set inputType sourceDataList' taskDataConnectionsSource) waitingExecutionSourceObject)
           waitingExecutionSource)"

record stack_state =
  ss_nodeExecutionStack :: "IExecuteData list"
  ss_waitingExecution :: IWaitingForExecution
  ss_waitingExecutionSource :: IWaitingForExecutionSource

text \<open>One connection of a complete group: its data, if any, and its source.\<close>

definition addCompleteInput ::
  "IRunData \<Rightarrow> IPinData \<Rightarrow> GraphConnection \<Rightarrow> INodeExecutionData list list \<times> ISourceData list
     \<Rightarrow> (INodeExecutionData list list \<times> ISourceData list) res" where
  "addCompleteInput runData pinData incomingConnection acc =
     (let (incomingData, sources) = acc; sourceName = node_name (gc_from incomingConnection)
      in bind_res
        (case obj_get pinData sourceName of
           Some pinned \<Rightarrow> Inr (0, incomingData @ [pinned])
         | None \<Rightarrow>
             bind_res (assert_ok (obj_get runData sourceName \<noteq> None)) (\<lambda>_.
             bind_res (getIncomingDataFromAnyRun runData sourceName (gc_type incomingConnection)
                         (gc_outputIndex incomingConnection)) (\<lambda>nodeIncomingData.
               Inr (case nodeIncomingData of
                      Some (items, runIndex) \<Rightarrow> (runIndex, incomingData @ [items])
                    | None \<Rightarrow> (0, incomingData)))))
        (\<lambda>(runIndex, incomingData').
          Inr (incomingData', sources @ [\<lparr>src_previousNode = sourceName,
             src_previousNodeOutput = Some (gc_outputIndex incomingConnection),
             src_previousNodeRun = Some runIndex\<rparr>])))"

text \<open>One connection of an incomplete group.\<close>

definition addIncompleteInput ::
  "IRunData \<Rightarrow> string \<Rightarrow> nat \<Rightarrow> GraphConnection \<Rightarrow> stack_state \<Rightarrow> stack_state res" where
  "addIncompleteInput runData nodeName nextRunIndex incomingConnection st =
     bind_res (getIncomingDataFromAnyRun runData (node_name (gc_from incomingConnection))
                 (gc_type incomingConnection) (gc_outputIndex incomingConnection)) (\<lambda>maybeNodeIncomingData.
       Inr (case map_option fst maybeNodeIncomingData of
          None \<Rightarrow> st
        | Some items \<Rightarrow>
            st\<lparr>ss_waitingExecution := addWaitingExecution nodeName nextRunIndex (gc_type incomingConnection)
                 (gc_inputIndex incomingConnection) (Some items) (ss_waitingExecution st),
               ss_waitingExecutionSource := addWaitingExecutionSource nodeName nextRunIndex
                 (gc_type incomingConnection) (gc_inputIndex incomingConnection)
                 (Some \<lparr>src_previousNode = node_name (gc_from incomingConnection),
                        src_previousNodeOutput = Some (gc_outputIndex incomingConnection),
                        src_previousNodeRun = Some nextRunIndex\<rparr>)
                 (ss_waitingExecutionSource st)\<rparr>))"

definition addSourceGroup ::
  "IRunData \<Rightarrow> IPinData \<Rightarrow> INode \<Rightarrow> SourceConnectionGroup \<Rightarrow> stack_state \<Rightarrow> stack_state res" where
  "addSourceGroup runData pinData startNode sourceData st =
     (if sg_complete sourceData then
        bind_res (fold_res (addCompleteInput runData pinData) (sg_connections sourceData) ([], []))
          (\<lambda>(incomingData, sources).
            Inr (st\<lparr>ss_nodeExecutionStack := ss_nodeExecutionStack st @
              [\<lparr>ed_node = startNode, ed_data = [(Main, map Cell incomingData)],
                ed_source = Some [(Main, map Cell sources)], ed_runIndex = None, ed_metadata = None\<rparr>]\<rparr>))
      else
        let nodeName = node_name startNode;
            nextRunIndex = (case obj_get (ss_waitingExecution st) nodeName of
                              Some w \<Rightarrow> length (keys_of w) | None \<Rightarrow> 0)
        in fold_res (addIncompleteInput runData nodeName nextRunIndex) (sg_connections sourceData) st)"

definition addStartNode ::
  "(string \<Rightarrow> string \<Rightarrow> int) \<Rightarrow> DirectedGraph \<Rightarrow> IRunData \<Rightarrow> IPinData \<Rightarrow> INode \<Rightarrow> stack_state \<Rightarrow> stack_state res" where
  "addStartNode localeCompare graph runData pinData startNode st =
     bind_res (getDirectParentConnections graph startNode) (\<lambda>parents.
       if length (filter (\<lambda>c. gc_type c = Main) parents) = 0 then
         Inr (st\<lparr>ss_nodeExecutionStack := ss_nodeExecutionStack st @
           [\<lparr>ed_node = startNode, ed_data = [(Main, [Cell [empty_item]])], ed_source = None, ed_runIndex = None, ed_metadata = None\<rparr>]\<rparr>)
       else fold_res (addSourceGroup runData pinData startNode)
              (getSourceDataGroups localeCompare graph startNode runData pinData) st)"

definition recreateNodeExecutionStack ::
  "(string \<Rightarrow> string \<Rightarrow> int) \<Rightarrow> DirectedGraph \<Rightarrow> INode list \<Rightarrow> IRunData \<Rightarrow> IPinData \<Rightarrow> stack_state res" where
  "recreateNodeExecutionStack localeCompare graph startNodes runData pinData =
     bind_res (fold_res (\<lambda>node _. assert_ok (node_disabled node \<noteq> Some True)) (values_of (getNodes graph)) ())
       (\<lambda>_. fold_res (addStartNode localeCompare graph runData pinData) startNodes
          \<lparr>ss_nodeExecutionStack = [], ss_waitingExecution = [], ss_waitingExecutionSource = []\<rparr>)"

section \<open>What the groups are\<close>

text \<open>
  A group serves consecutive inputs, one connection each, and is complete exactly if all its
  connections have data.
\<close>

definition group_ok :: "(GraphConnection \<Rightarrow> bool) \<Rightarrow> SourceConnectionGroup \<Rightarrow> bool" where
  "group_ok H gr \<longleftrightarrow> (sg_complete gr \<longleftrightarrow> (\<forall>c \<in> set (sg_connections gr). H c)) \<and>
     (\<forall>j. Suc j < length (sg_connections gr) \<longrightarrow>
        gc_inputIndex (sg_connections gr ! Suc j) = Suc (gc_inputIndex (sg_connections gr ! j)))"

lemma group_ok_new: "group_ok H newGroup"
  by (simp add: group_ok_def newGroup_def)

lemma group_ok_snoc:
  assumes "group_ok H gr" and "int (gc_inputIndex c) = i + 1"
    and "sg_connections gr \<noteq> [] \<Longrightarrow> int (gc_inputIndex (last (sg_connections gr))) = i"
    and "b \<longleftrightarrow> sg_complete gr \<and> H c"
  shows "group_ok H \<lparr>sg_complete = b, sg_connections = sg_connections gr @ [c]\<rparr>"
proof -
  let ?cs = "sg_connections gr"
  have "gc_inputIndex ((?cs @ [c]) ! Suc j) = Suc (gc_inputIndex ((?cs @ [c]) ! j))" if "Suc j < Suc (length ?cs)" for j
  proof (cases "Suc j < length ?cs")
    case True
    with assms(1) show ?thesis by (simp add: group_ok_def nth_append)
  next
    case False
    with that have j: "Suc j = length ?cs" by simp
    then have "?cs \<noteq> []" "j = length ?cs - 1" by auto
    with assms(2,3) j show ?thesis by (auto simp: nth_append last_conv_nth)
  qed
  with assms(1,4) show ?thesis by (auto simp: group_ok_def)
qed

definition group_conns :: "SourceConnectionGroup list \<Rightarrow> GraphConnection multiset" where
  "group_conns groups = mset (concat (map sg_connections groups))"

definition cur_ok :: "(GraphConnection \<Rightarrow> bool) \<Rightarrow> int \<Rightarrow> GraphConnection list \<Rightarrow> SourceConnectionGroup \<Rightarrow> bool" where
  "cur_ok H i rest cur \<longleftrightarrow> group_ok H cur \<and>
     (sg_connections cur \<noteq> [] \<longrightarrow> int (gc_inputIndex (last (sg_connections cur))) = i) \<and>
     (sg_connections cur \<noteq> [] \<or> (\<exists>c \<in> set rest. int (gc_inputIndex c) = i + 1))"

lemma cur_ok_new: "cs \<noteq> [] \<Longrightarrow> cur_ok H (minInputIndex cs - 1) cs newGroup"
  using minInputIndex_member [of cs] by (auto simp: cur_ok_def group_ok_new) (auto simp: newGroup_def)

lemma cur_ok_snoc:
  assumes "cur_ok H i rest cur" and "int (gc_inputIndex c) = i + 1" and "b \<longleftrightarrow> sg_complete cur \<and> H c"
  shows "cur_ok H (i + 1) rest' \<lparr>sg_complete = b, sg_connections = sg_connections cur @ [c]\<rparr>"
  using group_ok_snoc [of H cur c i b] assms by (auto simp: cur_ok_def)

lemma groupLoop_spec:
  "\<forall>c \<in> set wd. H c \<Longrightarrow> \<forall>c \<in> set wod. \<not> H c \<Longrightarrow> cur_ok H i (wd @ wod) cur \<Longrightarrow>
   \<forall>gr \<in> set groups. group_ok H gr \<and> sg_connections gr \<noteq> [] \<Longrightarrow>
     (\<forall>gr \<in> set (groupLoop wd wod i cur groups). group_ok H gr \<and> sg_connections gr \<noteq> []) \<and>
     group_conns (groupLoop wd wod i cur groups) = group_conns groups + mset (sg_connections cur) + mset wd + mset wod"
proof (induction wd wod i cur groups rule: groupLoop.induct)
  case (1 wd wod i cur groups)
  note unfold = groupLoop.simps [of wd wod i cur groups]
  consider (empty) "wd = []" "wod = []"
    | (data) c wd' where "take_first (i + 1) wd = Some (c, wd')"
    | (nodata) c wod' where "take_first (i + 1) wd = None" "take_first (i + 1) wod = Some (c, wod')"
    | (break) "wd \<noteq> [] \<or> wod \<noteq> []" "take_first (i + 1) wd = None" "take_first (i + 1) wod = None"
    by (metis not_None_eq surj_pair)
  then show ?case
  proof cases
    case empty
    then have "groupLoop wd wod i cur groups = groups @ [cur]" by (subst unfold) simp
    with empty "1.prems"(3,4) show ?thesis by (auto simp: cur_ok_def group_conns_def)
  next
    case data
    let ?cur = "cur\<lparr>sg_connections := sg_connections cur @ [c]\<rparr>"
    note t = take_first_Some [OF data]
    have pos: "length wd > 0 \<or> length wod > 0" using t by auto
    have "set wd = insert c (set wd')" using t by (metis set_mset_add_mset_insert set_mset_mset)
    with "1.prems"(1) have "H c" "\<forall>c \<in> set wd'. H c" by auto
    moreover from this have "cur_ok H (i + 1) (wd' @ wod) ?cur"
      using cur_ok_snoc [OF "1.prems"(3), of c "sg_complete cur" "wd' @ wod"] t by (cases cur) simp
    ultimately show ?thesis
      using "1.IH"(3) [OF pos data refl _ "1.prems"(2) _ "1.prems"(4)] pos data t by (simp add: unfold)
  next
    case nodata
    let ?cur = "\<lparr>sg_complete = False, sg_connections = sg_connections cur @ [c]\<rparr>"
    note t = take_first_Some [OF nodata(2)]
    have pos: "length wd > 0 \<or> length wod > 0" using t by auto
    have "set wod = insert c (set wod')" using t by (metis set_mset_add_mset_insert set_mset_mset)
    with "1.prems"(2) have "\<not> H c" "\<forall>c \<in> set wod'. \<not> H c" by auto
    moreover from this have "cur_ok H (i + 1) (wd @ wod') ?cur"
      using cur_ok_snoc [OF "1.prems"(3), of c False "wd @ wod'"] t by simp
    ultimately show ?thesis
      using "1.IH"(2) [OF pos nodata refl "1.prems"(1) _ _ "1.prems"(4)] pos nodata t by (simp add: unfold)
  next
    case break
    then have pos: "length wd > 0 \<or> length wod > 0" by auto
    from break(2,3) have "sg_connections cur \<noteq> []"
      using "1.prems"(3) unfolding cur_ok_def take_first_None by auto
    then have "\<forall>gr \<in> set (groups @ [cur]). group_ok H gr \<and> sg_connections gr \<noteq> []"
      using "1.prems"(3,4) by (auto simp: cur_ok_def)
    moreover have "cur_ok H (minInputIndex (wd @ wod) - 1) (wd @ wod) newGroup"
      using break(1) by (intro cur_ok_new) auto
    ultimately show ?thesis
      using "1.IH"(1) [OF pos break(2,3) "1.prems"(1,2)] pos break(2,3)
      by (simp add: unfold group_conns_def newGroup_def)
  qed
qed

lemma getSourceDataGroups_spec:
  fixes lc g n rd pd
  defines "groups \<equiv> getSourceDataGroups lc g n rd pd"
  shows "group_conns groups
      = mset (filter (\<lambda>c. has_data rd pd c \<or> gc_type c = Main) (getConnections g (Some n)))"
    and "\<And>gr. gr \<in> set groups \<Longrightarrow> group_ok (has_data rd pd) gr \<and> sg_connections gr \<noteq> []"
proof -
  define H where "H = has_data rd pd"
  define cs where "cs = getConnections g (Some n)"
  define wd where "wd = filter H cs"
  define wod where "wod = filter (\<lambda>c. \<not> H c \<and> gc_type c = Main) cs"
  have split: "mset wd + mset wod = mset (filter (\<lambda>c. H c \<or> gc_type c = Main) cs)"
    unfolding wd_def wod_def by (induction cs) auto
  define swd where "swd = js_sort (sortByInputIndexThenByName lc) wd"
  define swod where "swod = js_sort (sortByInputIndexThenByName lc) wod"
  have m: "mset swd = mset wd" "mset swod = mset wod" "set swd = set wd" "set swod = set wod"
    by (simp_all add: swd_def swod_def)
  have gr: "groups = (if wd = [] \<and> wod = [] then [] else groupLoop swd swod (minInputIndex (swd @ swod) - 1) newGroup [])"
    by (simp add: groups_def getSourceDataGroups_def Let_def wd_def wod_def swd_def swod_def cs_def H_def)
  have "(\<forall>gr \<in> set groups. group_ok H gr \<and> sg_connections gr \<noteq> []) \<and> group_conns groups = mset wd + mset wod"
  proof (cases "wd = [] \<and> wod = []")
    case True
    then show ?thesis by (simp add: gr group_conns_def)
  next
    case False
    then have "swd @ swod \<noteq> []" using m by auto
    note cur = cur_ok_new [OF this, of H]
    have "\<forall>c \<in> set swd. H c" "\<forall>c \<in> set swod. \<not> H c" by (simp_all add: m wd_def wod_def)
    from groupLoop_spec [OF this cur, of "[]"]
    have "(\<forall>gr \<in> set groups. group_ok H gr \<and> sg_connections gr \<noteq> []) \<and>
        group_conns groups = group_conns [] + mset (sg_connections newGroup) + mset swd + mset swod"
      unfolding gr if_not_P [OF False] by simp
    then show ?thesis by (simp add: group_conns_def newGroup_def m)
  qed
  then show "group_conns groups = mset (filter (\<lambda>c. has_data rd pd c \<or> gc_type c = Main) (getConnections g (Some n)))"
    "\<And>gr. gr \<in> set groups \<Longrightarrow> group_ok (has_data rd pd) gr \<and> sg_connections gr \<noteq> []"
    using split by (simp_all add: H_def cs_def)
qed

text \<open>
  How the groups are chosen. A group begins with the smallest input that is left and goes on as long as the next input has a connection that is left;
  for each input the connections are taken in a fixed order.
\<close>

definition at_input :: "int \<Rightarrow> GraphConnection list \<Rightarrow> GraphConnection list" where
  "at_input j cs = filter (\<lambda>c. int (gc_inputIndex c) = j) cs"

lemma at_input_simps [simp]:
  "at_input j [] = []" "at_input j (c # cs) = (if int (gc_inputIndex c) = j then c # at_input j cs else at_input j cs)"
  "at_input j (cs @ ds) = at_input j cs @ at_input j ds"
  by (simp_all add: at_input_def)

lemma at_input_Nil: "at_input j cs = [] \<longleftrightarrow> (\<forall>c \<in> set cs. int (gc_inputIndex c) \<noteq> j)"
  by (auto simp: at_input_def filter_empty_conv)

lemma at_input_set: "(\<And>j. at_input j cs = at_input j ds) \<Longrightarrow> set cs = set ds"
proof -
  assume eq: "\<And>j. at_input j cs = at_input j ds"
  have "c \<in> set xs \<longleftrightarrow> c \<in> set (at_input (int (gc_inputIndex c)) xs)" for c xs by (simp add: at_input_def)
  then have "c \<in> set cs \<longleftrightarrow> c \<in> set ds" for c using eq by metis
  then show ?thesis by blast
qed

definition conns_of :: "SourceConnectionGroup list \<Rightarrow> GraphConnection list" where
  "conns_of groups = concat (map sg_connections groups)"

fun greedy_groups :: "SourceConnectionGroup list \<Rightarrow> bool" where
  "greedy_groups [] = True"
| "greedy_groups (gr # groups) = (sg_connections gr \<noteq> []
     \<and> (\<forall>c \<in> set (conns_of groups). gc_inputIndex (hd (sg_connections gr)) \<le> gc_inputIndex c
          \<and> gc_inputIndex c \<noteq> Suc (gc_inputIndex (last (sg_connections gr))))
     \<and> greedy_groups groups)"

lemma take_first_at:
  "take_first i cs = Some (c, cs') \<Longrightarrow> at_input j cs = (if j = i then c # at_input j cs' else at_input j cs')"
proof (induction cs arbitrary: cs')
  case (Cons d ds)
  then show ?case by (auto split: if_splits)
qed simp

lemma minInputIndex_le: "c \<in> set cs \<Longrightarrow> minInputIndex cs \<le> int (gc_inputIndex c)"
proof -
  have "fold min xs x \<le> y" if "y \<in> insert x (set xs)" for xs and x y :: nat
    using that
  proof (induction xs arbitrary: x y)
    case (Cons z zs)
    from Cons.IH [of y "min z x"] Cons.IH [of "min z x" "min z x"] Cons.prems show ?case by auto
  qed simp
  then show "c \<in> set cs \<Longrightarrow> minInputIndex cs \<le> int (gc_inputIndex c)"
    by (cases cs) (auto simp: minInputIndex_def)
qed

lemma first_group_greedy:
  assumes "cs \<noteq> []" and ext: "\<forall>k < length ext. int (gc_inputIndex (ext ! k)) = minInputIndex cs + int k"
    and order: "\<And>j. at_input j (ext @ conns_of grs) = at_input j cs"
    and rest: "\<forall>c \<in> set (conns_of grs). int (gc_inputIndex c) \<noteq> minInputIndex cs + int (length ext)" "greedy_groups grs"
  shows "greedy_groups (\<lparr>sg_complete = b, sg_connections = ext\<rparr> # grs)"
proof -
  have all: "set (ext @ conns_of grs) = set cs" using order by (rule at_input_set)
  obtain c where c: "c \<in> set cs" "int (gc_inputIndex c) = minInputIndex cs" using minInputIndex_member [OF assms(1)] by auto
  have "ext \<noteq> []" using rest(1) c all by auto
  then have hd: "int (gc_inputIndex (hd ext)) = minInputIndex cs"
    and last: "int (gc_inputIndex (last ext)) = minInputIndex cs + int (length ext) - 1"
    using ext [rule_format, of 0] ext [rule_format, of "length ext - 1"] by (simp_all add: hd_conv_nth last_conv_nth of_nat_diff Suc_le_eq)
  have "gc_inputIndex (hd ext) \<le> gc_inputIndex d \<and> gc_inputIndex d \<noteq> Suc (gc_inputIndex (last ext))" if "d \<in> set (conns_of grs)" for d
  proof -
    have "d \<in> set cs" using that all by auto
    then have "minInputIndex cs \<le> int (gc_inputIndex d)" by (rule minInputIndex_le)
    moreover have "int (gc_inputIndex d) \<noteq> minInputIndex cs + int (length ext)" using rest(1) that by blast
    ultimately show ?thesis using hd last by auto
  qed
  then show ?thesis using rest(2) \<open>ext \<noteq> []\<close> by simp
qed

lemma groupLoop_greedy:
  "\<exists>ext b grs. groupLoop wd wod i cur groups = groups @ \<lparr>sg_complete = b, sg_connections = sg_connections cur @ ext\<rparr> # grs
     \<and> (\<forall>k < length ext. int (gc_inputIndex (ext ! k)) = i + 1 + int k)
     \<and> (\<forall>j. at_input j (ext @ conns_of grs) = at_input j (wd @ wod))
     \<and> (\<forall>c \<in> set (conns_of grs). int (gc_inputIndex c) \<noteq> i + 1 + int (length ext)) \<and> greedy_groups grs"
proof (induction wd wod i cur groups rule: groupLoop.induct)
  case (1 wd wod i cur groups)
  note unfold = groupLoop.simps [of wd wod i cur groups]
  consider (empty) "wd = []" "wod = []"
    | (data) c wd' where "take_first (i + 1) wd = Some (c, wd')"
    | (nodata) c wod' where "take_first (i + 1) wd = None" "take_first (i + 1) wod = Some (c, wod')"
    | (break) "wd \<noteq> [] \<or> wod \<noteq> []" "take_first (i + 1) wd = None" "take_first (i + 1) wod = None"
    by (metis not_None_eq surj_pair)
  then show ?case
  proof cases
    case empty
    then have "groupLoop wd wod i cur groups = groups @ [cur]" by (subst unfold) simp
    with empty show ?thesis by (intro exI [of _ "[]"] exI [of _ "sg_complete cur"]) (simp add: conns_of_def)
  next
    case data
    note t = take_first_Some [OF data]
    have pos: "length wd > 0 \<or> length wod > 0" using t by auto
    from "1.IH"(3) [OF pos data refl] obtain ext b grs where
      r: "groupLoop wd wod i cur groups = groups @ \<lparr>sg_complete = b, sg_connections = sg_connections cur @ c # ext\<rparr> # grs"
      and ext: "\<forall>k < length ext. int (gc_inputIndex (ext ! k)) = i + 2 + int k"
        "\<forall>j. at_input j (ext @ conns_of grs) = at_input j (wd' @ wod)"
        "\<forall>c \<in> set (conns_of grs). int (gc_inputIndex c) \<noteq> i + 2 + int (length ext)" "greedy_groups grs"
      using pos data by (auto simp: unfold add.assoc)
    have "at_input j ((c # ext) @ conns_of grs) = at_input j (wd @ wod)" for j
      using ext(2) take_first_at [OF data, of j] t by simp
    with r ext t show ?thesis
      by (intro exI [of _ "c # ext"] exI [of _ b] exI [of _ grs]) (auto simp: nth_Cons split: nat.split)
  next
    case nodata
    note t = take_first_Some [OF nodata(2)]
    have pos: "length wd > 0 \<or> length wod > 0" using t by auto
    from "1.IH"(2) [OF pos nodata refl] obtain ext b grs where
      r: "groupLoop wd wod i cur groups = groups @ \<lparr>sg_complete = b, sg_connections = sg_connections cur @ c # ext\<rparr> # grs"
      and ext: "\<forall>k < length ext. int (gc_inputIndex (ext ! k)) = i + 2 + int k"
        "\<forall>j. at_input j (ext @ conns_of grs) = at_input j (wd @ wod')"
        "\<forall>c \<in> set (conns_of grs). int (gc_inputIndex c) \<noteq> i + 2 + int (length ext)" "greedy_groups grs"
      using pos nodata by (auto simp: unfold add.assoc)
    have "at_input (i + 1) wd = []" using nodata(1) by (simp add: take_first_None at_input_Nil)
    then have "at_input j ((c # ext) @ conns_of grs) = at_input j (wd @ wod)" for j
      using ext(2) take_first_at [OF nodata(2), of j] t by auto
    with r ext t show ?thesis
      by (intro exI [of _ "c # ext"] exI [of _ b] exI [of _ grs]) (auto simp: nth_Cons split: nat.split)
  next
    case break
    then have pos: "length wd > 0 \<or> length wod > 0" by auto
    let ?m = "minInputIndex (wd @ wod)"
    from "1.IH"(1) [OF pos break(2,3)] obtain ext b grs where
      r: "groupLoop wd wod i cur groups = groups @ [cur, \<lparr>sg_complete = b, sg_connections = ext\<rparr>] @ grs"
      and ext: "\<forall>k < length ext. int (gc_inputIndex (ext ! k)) = ?m + int k"
        "\<And>j. at_input j (ext @ conns_of grs) = at_input j (wd @ wod)"
        "\<forall>c \<in> set (conns_of grs). int (gc_inputIndex c) \<noteq> ?m + int (length ext)" "greedy_groups grs"
      using pos break(2,3) by (auto simp: unfold newGroup_def)
    let ?gr = "\<lparr>sg_complete = b, sg_connections = ext\<rparr>"
    have all: "set (ext @ conns_of grs) = set (wd @ wod)" using ext(2) by (rule at_input_set)
    have "greedy_groups (?gr # grs)" using break(1) ext by (intro first_group_greedy [of "wd @ wod"]) auto
    moreover have "conns_of (?gr # grs) = ext @ conns_of grs" by (simp add: conns_of_def)
    moreover have "\<forall>c \<in> set (wd @ wod). int (gc_inputIndex c) \<noteq> i + 1" using break(2,3) by (auto simp: take_first_None)
    ultimately show ?thesis using r ext(2) all
      by (intro exI [of _ "[]"] exI [of _ "sg_complete cur"] exI [of _ "?gr # grs"]) simp
  qed
qed

text \<open>The connections of an input in the order in which they are taken: those with data first, each part ordered by the names of the sources.\<close>

definition byName :: "(string \<Rightarrow> string \<Rightarrow> int) \<Rightarrow> GraphConnection \<Rightarrow> GraphConnection \<Rightarrow> int" where
  "byName lc c d = lc (node_name (gc_from c)) (node_name (gc_from d))"

definition candidates ::
  "(string \<Rightarrow> string \<Rightarrow> int) \<Rightarrow> DirectedGraph \<Rightarrow> INode \<Rightarrow> IRunData \<Rightarrow> IPinData \<Rightarrow> int \<Rightarrow> GraphConnection list" where
  "candidates lc g n rd pd j =
     js_sort (byName lc) (filter (has_data rd pd) (at_input j (getConnections g (Some n))))
     @ js_sort (byName lc) (filter (\<lambda>c. \<not> has_data rd pd c \<and> gc_type c = Main) (at_input j (getConnections g (Some n))))"

lemma at_input_sort_insert:
  assumes "sorted (map gc_inputIndex cs)"
  shows "sorted (map gc_inputIndex (sort_insert (sortByInputIndexThenByName lc) c cs))
    \<and> at_input j (sort_insert (sortByInputIndexThenByName lc) c cs)
       = (if int (gc_inputIndex c) = j then sort_insert (byName lc) c (at_input j cs) else at_input j cs)"
  using assms
proof (induction cs)
  case (Cons d ds)
  have none: "at_input j ds = []" if "int (gc_inputIndex d) > j" using Cons.prems that by (force simp: at_input_Nil)
  have later: "gc_inputIndex x \<le> gc_inputIndex y" if "x = d \<or> gc_inputIndex x \<le> gc_inputIndex d" "y \<in> set ds" for x y
    using Cons.prems that by force
  have less: "sortByInputIndexThenByName lc d c < 0
      \<longleftrightarrow> gc_inputIndex d < gc_inputIndex c \<or> gc_inputIndex d = gc_inputIndex c \<and> byName lc d c < 0"
    by (simp add: sortByInputIndexThenByName_def byName_def)
  have set: "set (sort_insert (sortByInputIndexThenByName lc) c ds) = insert c (set ds)" by (induction ds) auto
  from Cons show ?case
    by (auto simp: less set none later split: if_splits)
qed (simp add: byName_def)

lemma at_input_js_sort: "at_input j (js_sort (sortByInputIndexThenByName lc) cs) = js_sort (byName lc) (at_input j cs)"
proof -
  have "sorted (map gc_inputIndex (js_sort (sortByInputIndexThenByName lc) cs))
    \<and> at_input j (js_sort (sortByInputIndexThenByName lc) cs) = js_sort (byName lc) (at_input j cs)"
    by (induction cs) (auto simp: js_sort_def at_input_sort_insert)
  then show ?thesis ..
qed

lemma at_input_filter: "at_input j (filter P cs) = filter P (at_input j cs)"
  by (simp add: at_input_def conj_commute)

lemma getSourceDataGroups_greedy:
  "greedy_groups (getSourceDataGroups lc g n rd pd)
   \<and> (\<forall>j. at_input j (conns_of (getSourceDataGroups lc g n rd pd)) = candidates lc g n rd pd j)"
proof -
  let ?sort = "js_sort (sortByInputIndexThenByName lc)"
  let ?cs = "getConnections g (Some n)"
  let ?wd = "filter (has_data rd pd) ?cs" and ?wod = "filter (\<lambda>c. \<not> has_data rd pd c \<and> gc_type c = Main) ?cs"
  show ?thesis
  proof (cases "?wd = [] \<and> ?wod = []")
    case True
    then show ?thesis
      by (simp add: getSourceDataGroups_def Let_def candidates_def conns_of_def js_sort_def flip: at_input_filter)
  next
    case False
    let ?m = "minInputIndex (?sort ?wd @ ?sort ?wod)"
    have ne: "?sort ?wd @ ?sort ?wod \<noteq> []" using False by (simp flip: set_empty)
    have gr: "getSourceDataGroups lc g n rd pd = groupLoop (?sort ?wd) (?sort ?wod) (?m - 1) newGroup []"
      using False by (auto simp: getSourceDataGroups_def Let_def)
    from groupLoop_greedy [of "?sort ?wd" "?sort ?wod" "?m - 1" newGroup "[]"] obtain ext b grs where
      r: "getSourceDataGroups lc g n rd pd = \<lparr>sg_complete = b, sg_connections = ext\<rparr> # grs"
      and ext: "\<forall>k < length ext. int (gc_inputIndex (ext ! k)) = ?m + int k"
        "\<And>j. at_input j (ext @ conns_of grs) = at_input j (?sort ?wd @ ?sort ?wod)"
        "\<forall>c \<in> set (conns_of grs). int (gc_inputIndex c) \<noteq> ?m + int (length ext)" "greedy_groups grs"
      unfolding gr by (auto simp: newGroup_def)
    from first_group_greedy [OF ne ext] ext(2) show ?thesis
      by (simp add: r candidates_def conns_of_def at_input_js_sort at_input_filter)
  qed
qed

section \<open>What the rebuilt stack is\<close>

text \<open>
  The input a connection gives: pinned data of its source, else the items of the first run of the source
  that produced any at this output, with the number of that run.
\<close>

fun first_output :: "string \<Rightarrow> nat \<Rightarrow> nat \<Rightarrow> ITaskData list \<Rightarrow> (INodeExecutionData list \<times> nat) option" where
  "first_output t k i [] = None"
| "first_output t k i (td # tds) =
     (if run_output t k td \<in> {None, Some []} then first_output t k (i + 1) tds
      else Some (the (run_output t k td), i))"

definition conn_input :: "IRunData \<Rightarrow> IPinData \<Rightarrow> GraphConnection \<Rightarrow> INodeExecutionData list list \<times> nat" where
  "conn_input rd pd c =
     (case map_get pd (node_name (gc_from c)) of
        Some pinned \<Rightarrow> ([pinned], 0)
      | None \<Rightarrow> (case first_output (gc_type c) (gc_outputIndex c) 0 (node_runs rd (gc_from c)) of
                   Some (items, i) \<Rightarrow> ([items], i)
                 | None \<Rightarrow> ([], 0)))"

definition conn_source :: "IRunData \<Rightarrow> IPinData \<Rightarrow> GraphConnection \<Rightarrow> ISourceData" where
  "conn_source rd pd c = \<lparr>src_previousNode = node_name (gc_from c), src_previousNodeOutput = Some (gc_outputIndex c),
     src_previousNodeRun = Some (snd (conn_input rd pd c))\<rparr>"

text \<open>The entry of a complete group, and the entries of a start node.\<close>

definition group_entry :: "IRunData \<Rightarrow> IPinData \<Rightarrow> INode \<Rightarrow> SourceConnectionGroup \<Rightarrow> IExecuteData" where
  "group_entry rd pd n gr = \<lparr>ed_node = n,
     ed_data = [(Main, map Cell (concat (map (fst \<circ> conn_input rd pd) (sg_connections gr))))],
     ed_source = Some [(Main, map (Cell \<circ> conn_source rd pd) (sg_connections gr))], ed_runIndex = None, ed_metadata = None\<rparr>"

definition start_node_entries ::
  "(string \<Rightarrow> string \<Rightarrow> int) \<Rightarrow> DirectedGraph \<Rightarrow> IRunData \<Rightarrow> IPinData \<Rightarrow> INode \<Rightarrow> IExecuteData list" where
  "start_node_entries lc g rd pd n =
     (if \<exists>c \<in> conn_objs g. gc_to c = n \<and> gc_type c = Main
      then map (group_entry rd pd n) (filter sg_complete (getSourceDataGroups lc g n rd pd))
      else [\<lparr>ed_node = n, ed_data = [(Main, [Cell [empty_item]])], ed_source = None, ed_runIndex = None, ed_metadata = None\<rparr>])"

lemma incomingDataFrom_first:
  assumes "map_get rd n = Some runs" and "list_all (data_has_type t) runs"
  shows "incomingDataFrom rd n t k (length runs) i = Inr (first_output t k i (drop i runs))"
proof (induction "length runs - i" arbitrary: i)
  case 0
  then show ?case by (simp add: incomingDataFrom.simps)
next
  case (Suc x)
  then have i: "i < length runs" by simp
  have step: "getIncomingData rd n (int i) t k = Inr (run_output t k (runs ! i))"
    using getIncomingData_ok [of t rd n "int i" k] assms i by simp
  have d: "drop i runs = runs ! i # drop (Suc i) runs" using i by (rule Cons_nth_drop_Suc [symmetric])
  have "incomingDataFrom rd n t k (length runs) (Suc i) = Inr (first_output t k (Suc i) (drop (Suc i) runs))"
    using Suc by simp
  then show ?case
    using i by (subst incomingDataFrom.simps) (auto simp: step d split: option.splits)
qed

lemma getIncomingDataFromAnyRun_first:
  assumes "list_all (data_has_type (gc_type c)) (node_runs rd (gc_from c))"
  shows "getIncomingDataFromAnyRun rd (node_name (gc_from c)) (gc_type c) k
    = Inr (first_output (gc_type c) k 0 (node_runs rd (gc_from c)))"
  using assms incomingDataFrom_first [of rd "node_name (gc_from c)" _ "gc_type c" k 0]
  by (cases "map_get rd (node_name (gc_from c))")
    (simp_all add: getIncomingDataFromAnyRun_def getRunIndexLength_def node_runs_def incomingDataFrom.simps)

lemma addCompleteInput_ok:
  assumes "has_data rd pd c" and "list_all (data_has_type (gc_type c)) (node_runs rd (gc_from c))"
  shows "addCompleteInput rd pd c (ds, ss) = Inr (ds @ fst (conn_input rd pd c), ss @ [conn_source rd pd c])"
  using assms(1) getIncomingDataFromAnyRun_first [OF assms(2), of "gc_outputIndex c"]
  by (auto simp: addCompleteInput_def has_data_def Let_def conn_input_def conn_source_def split: option.splits)

lemma addCompleteInputs_ok:
  assumes "\<And>c. c \<in> set cs \<Longrightarrow> has_data rd pd c \<and> list_all (data_has_type (gc_type c)) (node_runs rd (gc_from c))"
  shows "fold_res (addCompleteInput rd pd) cs (ds, ss)
    = Inr (ds @ concat (map (fst \<circ> conn_input rd pd) cs), ss @ map (conn_source rd pd) cs)"
  using assms by (induction cs arbitrary: ds ss) (simp_all add: addCompleteInput_ok)

lemma addIncompleteInputs_ok:
  assumes "\<And>c. c \<in> set cs \<Longrightarrow> list_all (data_has_type (gc_type c)) (node_runs rd (gc_from c))"
  shows "\<exists>st'. fold_res (addIncompleteInput rd name k) cs st = Inr st'
    \<and> ss_nodeExecutionStack st' = ss_nodeExecutionStack st
    \<and> set (keys_of (ss_waitingExecution st')) \<subseteq> insert name (set (keys_of (ss_waitingExecution st)))"
  using assms
proof (induction cs arbitrary: st)
  case Nil
  then show ?case by auto
next
  case (Cons c cs)
  have "\<exists>st1. addIncompleteInput rd name k c st = Inr st1 \<and> ss_nodeExecutionStack st1 = ss_nodeExecutionStack st
      \<and> set (keys_of (ss_waitingExecution st1)) \<subseteq> insert name (set (keys_of (ss_waitingExecution st)))"
    using getIncomingDataFromAnyRun_first [of c rd "gc_outputIndex c"] Cons.prems [of c]
    by (auto simp: addIncompleteInput_def addWaitingExecution_def Let_def js_obj.set_keys_put
        simp del: set_map split: option.splits)
  with Cons.IH Cons.prems show ?case by (fastforce simp del: set_map)
qed

lemma addSourceGroup_ok:
  assumes "group_ok (has_data rd pd) gr"
    and "\<And>c. c \<in> set (sg_connections gr) \<Longrightarrow> list_all (data_has_type (gc_type c)) (node_runs rd (gc_from c))"
  shows "\<exists>st'. addSourceGroup rd pd n gr st = Inr st'
    \<and> ss_nodeExecutionStack st' = ss_nodeExecutionStack st
        @ (if sg_complete gr then [group_entry rd pd n gr] else [])
    \<and> set (keys_of (ss_waitingExecution st')) \<subseteq> insert (node_name n) (set (keys_of (ss_waitingExecution st)))"
proof (cases "sg_complete gr")
  case True
  with assms have "has_data rd pd c \<and> list_all (data_has_type (gc_type c)) (node_runs rd (gc_from c))"
    if "c \<in> set (sg_connections gr)" for c using that by (auto simp: group_ok_def)
  from addCompleteInputs_ok [OF this, of "sg_connections gr" "[]" "[]"] True show ?thesis
    by (auto simp: addSourceGroup_def group_entry_def comp_def)
next
  case False
  let ?k = "case obj_get (ss_waitingExecution st) (node_name n) of Some w \<Rightarrow> length (keys_of w) | None \<Rightarrow> 0"
  have "addSourceGroup rd pd n gr st
      = fold_res (addIncompleteInput rd (node_name n) ?k) (sg_connections gr) st"
    using False by (simp add: addSourceGroup_def Let_def)
  with addIncompleteInputs_ok [OF assms(2), of "sg_connections gr" "node_name n" ?k st] False show ?thesis
    by (auto simp del: set_map)
qed

lemma addSourceGroups_ok:
  assumes "\<And>gr. gr \<in> set grs \<Longrightarrow> group_ok (has_data rd pd) gr
    \<and> (\<forall>c \<in> set (sg_connections gr). list_all (data_has_type (gc_type c)) (node_runs rd (gc_from c)))"
  shows "\<exists>st'. fold_res (addSourceGroup rd pd n) grs st = Inr st'
    \<and> ss_nodeExecutionStack st' = ss_nodeExecutionStack st
        @ map (group_entry rd pd n) (filter sg_complete grs)
    \<and> set (keys_of (ss_waitingExecution st')) \<subseteq> insert (node_name n) (set (keys_of (ss_waitingExecution st)))"
  using assms
proof (induction grs arbitrary: st)
  case Nil
  then show ?case by auto
next
  case (Cons gr grs)
  from addSourceGroup_ok [of rd pd gr n st] Cons.prems [of gr] obtain st1 where
    st1: "addSourceGroup rd pd n gr st = Inr st1"
    "ss_nodeExecutionStack st1 = ss_nodeExecutionStack st
        @ (if sg_complete gr then [group_entry rd pd n gr] else [])"
    "set (keys_of (ss_waitingExecution st1)) \<subseteq> insert (node_name n) (set (keys_of (ss_waitingExecution st)))" by auto
  from Cons.IH [of st1] Cons.prems obtain st2 where
    "fold_res (addSourceGroup rd pd n) grs st1 = Inr st2"
    "ss_nodeExecutionStack st2 = ss_nodeExecutionStack st1
        @ map (group_entry rd pd n) (filter sg_complete grs)"
    "set (keys_of (ss_waitingExecution st2)) \<subseteq> insert (node_name n) (set (keys_of (ss_waitingExecution st1)))" by auto
  with st1 show ?case by (auto simp del: set_map)
qed

lemma source_groups_typed:
  assumes "run_data_typed g rd" and "gr \<in> set (getSourceDataGroups lc g n rd pd)"
  shows "group_ok (has_data rd pd) gr
    \<and> (\<forall>c \<in> set (sg_connections gr). list_all (data_has_type (gc_type c)) (node_runs rd (gc_from c)))"
proof -
  have "mset (sg_connections gr) \<subseteq># group_conns (getSourceDataGroups lc g n rd pd)"
    using split_list [OF assms(2)] by (auto simp: group_conns_def)
  from set_mset_mono [OF this] have "set (sg_connections gr) \<subseteq> conn_objs g"
    unfolding getSourceDataGroups_spec(1) by (auto simp: getConnections_def)
  with getSourceDataGroups_spec(2) [OF assms(2)] assms(1) show ?thesis
    unfolding run_data_typed_def conn_objs_def by blast
qed

lemma addStartNode_ok:
  assumes "has_node_obj g n" and "run_data_typed g rd"
  shows "\<exists>st'. addStartNode lc g rd pd n st = Inr st'
    \<and> ss_nodeExecutionStack st' = ss_nodeExecutionStack st @ start_node_entries lc g rd pd n
    \<and> set (keys_of (ss_waitingExecution st')) \<subseteq> insert (node_name n) (set (keys_of (ss_waitingExecution st)))"
proof -
  let ?ps = "filter (\<lambda>c. gc_type c = Main) (filter (\<lambda>c. gc_to c = n) (values_of (dg_connections g)))"
  have ps: "?ps = [] \<longleftrightarrow> \<not> (\<exists>c \<in> conn_objs g. gc_to c = n \<and> gc_type c = Main)"
    by (auto simp: filter_empty_conv)
  show ?thesis
  proof (cases "?ps = []")
    case True
    with ps have "start_node_entries lc g rd pd n = [\<lparr>ed_node = n, ed_data = [(Main, [Cell [empty_item]])], ed_source = None, ed_runIndex = None, ed_metadata = None\<rparr>]"
      unfolding start_node_entries_def by metis
    with True assms(1) show ?thesis
      by (auto simp: addStartNode_def getDirectParentConnections_ok)
  next
    case False
    let ?grs = "getSourceDataGroups lc g n rd pd"
    from False ps have "start_node_entries lc g rd pd n
        = map (group_entry rd pd n) (filter sg_complete ?grs)"
      by (simp add: start_node_entries_def)
    with False assms(1) addSourceGroups_ok [of ?grs rd pd n st] source_groups_typed [OF assms(2), of _ lc n pd] show ?thesis
      by (auto simp: addStartNode_def getDirectParentConnections_ok simp del: set_map)
  qed
qed

lemma recreateNodeExecutionStack_spec:
  assumes wf: "wf_graph g" and starts: "\<And>n. n \<in> set ns \<Longrightarrow> has_node_obj g n" and typed: "run_data_typed g rd"
    and enabled: "\<And>n. n \<in> node_objs g \<Longrightarrow> \<not> is_disabled n"
  shows "\<exists>st. recreateNodeExecutionStack lc g ns rd pd = Inr st
    \<and> ss_nodeExecutionStack st = concat (map (start_node_entries lc g rd pd) ns)
    \<and> set (keys_of (ss_waitingExecution st)) \<subseteq> node_name ` set ns"
proof -
  have "fold_res (\<lambda>node _. assert_ok (node_disabled node \<noteq> Some True)) xs () = Inr ()"
    if "\<forall>n \<in> set xs. \<not> is_disabled n" for xs
    using that by (induction xs) (auto simp: is_disabled_def)
  moreover have "\<forall>n \<in> set (values_of (dg_nodes g)). \<not> is_disabled n"
    using enabled wf_node_objs [OF wf] by simp
  ultimately have check: "fold_res (\<lambda>node _. assert_ok (node_disabled node \<noteq> Some True)) (values_of (getNodes g)) () = Inr ()"
    by (simp only: getNodes_def)
  have "\<exists>st'. fold_res (addStartNode lc g rd pd) ns st = Inr st'
    \<and> ss_nodeExecutionStack st' = ss_nodeExecutionStack st @ concat (map (start_node_entries lc g rd pd) ns)
    \<and> set (keys_of (ss_waitingExecution st')) \<subseteq> node_name ` set ns \<union> set (keys_of (ss_waitingExecution st))" for st
    using starts
  proof (induction ns arbitrary: st)
    case Nil
    then show ?case by auto
  next
    case (Cons n ns)
    from addStartNode_ok [OF _ typed, of n lc pd st] Cons.prems obtain st1 where
      "addStartNode lc g rd pd n st = Inr st1"
      "ss_nodeExecutionStack st1 = ss_nodeExecutionStack st @ start_node_entries lc g rd pd n"
      "set (keys_of (ss_waitingExecution st1)) \<subseteq> insert (node_name n) (set (keys_of (ss_waitingExecution st)))" by auto
    with Cons.IH [of st1] Cons.prems show ?case by (fastforce simp del: set_map)
  qed
  from this [of "\<lparr>ss_nodeExecutionStack = [], ss_waitingExecution = [], ss_waitingExecutionSource = []\<rparr>"] check
  show ?thesis by (auto simp: recreateNodeExecutionStack_def)
qed

text \<open>
  C27. \<^verbatim>\<open>recreateNodeExecutionStack\<close> returns on a graph without disabled nodes: for each start node,
  in order, the stack gets one entry per complete source group, with, for each input of the group, the
  pinned data of the source or the items of its first run that has some, and with the source node, output and
  run they come from; a node without main parents gets one entry with an empty item and no sources;
  only start nodes wait for further input.
\<close>

theorem recreateNodeExecutionStack_correct:
  assumes wf: "wf_graph g" and starts: "\<And>n. n \<in> set ns \<Longrightarrow> has_node_obj g n" and typed: "run_data_typed g rd"
    and enabled: "\<And>n. n \<in> node_objs g \<Longrightarrow> \<not> is_disabled n"
  shows "\<exists>st. recreateNodeExecutionStack lc g ns rd pd = Inr st
    \<and> ss_nodeExecutionStack st = concat (map (start_node_entries lc g rd pd) ns)
    \<and> set (keys_of (ss_waitingExecution st)) \<subseteq> node_name ` set ns"
  using assms by (rule recreateNodeExecutionStack_spec)

definition ex_empty_run :: ITaskData where
  "ex_empty_run = ex_run\<lparr>td_data := Some [(Main, [Cell []])]\<rparr>"

theorem recreateNodeExecutionStack_correct_witness:
  "\<exists>st. recreateNodeExecutionStack (\<lambda>_ _. 0) ex_graph [ex_t, ex_b] [(''a'', [ex_empty_run, ex_run])] [] = Inr st
     \<and> map ed_node (ss_nodeExecutionStack st) = [ex_t, ex_b]
     \<and> map ed_source (ss_nodeExecutionStack st) = [None, Some [(Main, [Cell \<lparr>src_previousNode = ''a'',
         src_previousNodeOutput = Some 0, src_previousNodeRun = Some 1\<rparr>])]]"
proof -
  let ?rd = "[(''a'', [ex_empty_run, ex_run])]"
  have typed: "run_data_typed ex_graph ?rd" by code_simp
  have "map ed_node (concat (map (start_node_entries (\<lambda>_ _. 0) ex_graph ?rd []) [ex_t, ex_b])) = [ex_t, ex_b]"
    "map ed_source (concat (map (start_node_entries (\<lambda>_ _. 0) ex_graph ?rd []) [ex_t, ex_b]))
      = [None, Some [(Main, [Cell \<lparr>src_previousNode = ''a'', src_previousNodeOutput = Some 0, src_previousNodeRun = Some 1\<rparr>])]]"
    by code_simp+
  moreover have "\<exists>st. recreateNodeExecutionStack (\<lambda>_ _. 0) ex_graph [ex_t, ex_b] ?rd [] = Inr st
    \<and> ss_nodeExecutionStack st = concat (map (start_node_entries (\<lambda>_ _. 0) ex_graph ?rd []) [ex_t, ex_b])
    \<and> set (keys_of (ss_waitingExecution st)) \<subseteq> node_name ` set [ex_t, ex_b]"
  proof (rule recreateNodeExecutionStack_correct [OF ex_graph_wf _ typed])
    show "\<not> is_disabled n" if "n \<in> node_objs ex_graph" for n
      using that unfolding wf_node_objs [OF ex_graph_wf]
      by (auto simp: ex_graph_def graph_of_def is_disabled_def ex_node_def)
  qed (auto simp: ex_graph_nodes)
  ultimately show ?thesis by metis
qed

text \<open>
  C28. \<^verbatim>\<open>getSourceDataGroups\<close> splits the connections into the node that have data or are main connections: every one of them is in exactly one
  group, no group is empty, the inputs of a group are consecutive, and a group is complete exactly when all its sources have run or pinned data.
  A group begins with the smallest input that no earlier group has used up and ends only where no later group has a connection for the next
  input; for each input, earlier groups get the connections with data first, in the order of the names of their sources
  (\<^verbatim>\<open>candidates\<close>, with the comparison of strings as a parameter).
\<close>

theorem getSourceDataGroups_correct:
  "group_conns (getSourceDataGroups lc g n rd pd)
      = mset (filter (\<lambda>c. has_data rd pd c \<or> gc_type c = Main) (getConnections g (Some n)))
   \<and> list_all (\<lambda>gr. group_ok (has_data rd pd) gr \<and> sg_connections gr \<noteq> []) (getSourceDataGroups lc g n rd pd)
   \<and> greedy_groups (getSourceDataGroups lc g n rd pd)
   \<and> (\<forall>j. at_input j (conns_of (getSourceDataGroups lc g n rd pd)) = candidates lc g n rd pd j)"
  using getSourceDataGroups_spec [where lc = lc and g = g and n = n and rd = rd and pd = pd]
    getSourceDataGroups_greedy [of lc g n rd pd] by (simp add: list_all_iff)

end
