(* ===== verification/Connection_Maps.thy ===== *)
theory Connection_Maps
  imports Workflow_Types
begin

text \<open>
  The pure functions on connection maps of \<^verbatim>\<open>packages/workflow/src/common\<close>:
  \<^verbatim>\<open>mapConnectionsByDestination\<close>, \<^verbatim>\<open>getConnectedNodes\<close> with its two wrappers,
  \<^verbatim>\<open>getNodeByName\<close> and \<^verbatim>\<open>findAiRootNodeNames\<close>; that the first reverses every connection and
  is an involution on connections, and that the second returns exactly the nodes within the
  given depth.
\<close>

section \<open>The definitions\<close>

abbreviation or_empty :: "'a list option \<Rightarrow> 'a list" where
  "or_empty l \<equiv> (case l of None \<Rightarrow> [] | Some xs \<Rightarrow> xs)"

text \<open>The body of the innermost loop of \<^verbatim>\<open>mapConnectionsByDestination\<close>.\<close>

definition addByDestination :: "string \<Rightarrow> string \<Rightarrow> nat \<Rightarrow> IConnection \<Rightarrow> IConnections \<Rightarrow> IConnections" where
  "addByDestination sourceNode type inputIndex connectionInfo returnConnection =
     (let byType = or_empty (obj_get returnConnection (con_node connectionInfo));
          inputs = or_empty (obj_get byType (con_type connectionInfo));
          padded = inputs @ replicate (Suc (con_index connectionInfo) - length inputs) (Some []);
          entry = \<lparr>con_node = sourceNode, con_type = type, con_index = inputIndex\<rparr>;
          inputs' = (case padded ! con_index connectionInfo of
                       None \<Rightarrow> padded
                     | Some l \<Rightarrow> padded[con_index connectionInfo := Some (l @ [entry])])
      in obj_set (con_node connectionInfo)
           (obj_set (con_type connectionInfo) inputs' byType) returnConnection)"

definition mapConnectionsByDestination :: "IConnections \<Rightarrow> IConnections" where
  "mapConnectionsByDestination connections =
     fold (\<lambda>(sourceNode, byType).
       fold (\<lambda>(type, outputs).
         fold (\<lambda>(inputIndex, infos).
           fold (addByDestination sourceNode type inputIndex) (or_empty infos))
         (enumerate 0 outputs))
       byType)
     connections []"

text \<open>Moving a name to the front of the result: \<^verbatim>\<open>indexOf\<close>, \<^verbatim>\<open>splice\<close> and \<^verbatim>\<open>unshift\<close>.\<close>

definition move_front :: "string \<Rightarrow> string list \<Rightarrow> string list" where
  "move_front x xs = x # remove1 x xs"

definition connection_types :: "string \<Rightarrow> INodeConnections \<Rightarrow> string list" where
  "connection_types connectionType byType =
     (if connectionType = ''ALL'' then keys_of byType
      else if connectionType = ''ALL_NON_MAIN'' then filter (\<lambda>type. type \<noteq> Main) (keys_of byType)
      else [connectionType])"

function getConnectedNodes :: "IConnections \<Rightarrow> string \<Rightarrow> string \<Rightarrow> int \<Rightarrow> string list \<Rightarrow> string list" where
  "getConnectedNodes connections nodeName connectionType depth checkedNodesIncoming =
     (let newDepth = (if depth = - 1 then depth else depth - 1) in
      if depth = 0 then []
      else case obj_get connections nodeName of
        None \<Rightarrow> []
      | Some byType \<Rightarrow>
          fold (\<lambda>type returnNodes.
            case obj_get byType type of
              None \<Rightarrow> returnNodes
            | Some outputs \<Rightarrow>
                if nodeName \<in> set checkedNodesIncoming then returnNodes
                else fold (\<lambda>connectionsByIndex.
                       fold (\<lambda>connection returnNodes'.
                         if con_node connection \<in> set (checkedNodesIncoming @ [nodeName]) then returnNodes'
                         else foldr move_front
                                (getConnectedNodes connections (con_node connection) connectionType newDepth
                                   (checkedNodesIncoming @ [nodeName]))
                                (move_front (con_node connection) returnNodes'))
                       (or_empty connectionsByIndex))
                     outputs returnNodes)
          (connection_types connectionType byType) [])"
  by pat_completeness auto

termination getConnectedNodes
proof (relation "measure (\<lambda>(connections, nodeName, ctype, depth, checked).
    card (set (keys_of connections) - set checked))", goal_cases)
  case 1
  then show ?case by simp
next
  case (2 connections nodeName ctype depth checked)
  then have "nodeName \<in> set (keys_of connections)" by (auto dest!: map_of_SomeD intro: rev_image_eqI)
  with 2 have "set (keys_of connections) - set (checked @ [nodeName]) \<subset> set (keys_of connections) - set checked"
    by auto
  then have "card (set (keys_of connections) - set (checked @ [nodeName]))
      < card (set (keys_of connections) - set checked)"
    by (intro psubset_card_mono) simp_all
  then show ?case by (simp del: set_map)
qed

declare getConnectedNodes.simps [simp del]

definition getChildNodes :: "IConnections \<Rightarrow> string \<Rightarrow> string \<Rightarrow> int \<Rightarrow> string list" where
  "getChildNodes connectionsBySourceNode nodeName type depth =
     getConnectedNodes connectionsBySourceNode nodeName type depth []"

definition getParentNodes :: "IConnections \<Rightarrow> string \<Rightarrow> string \<Rightarrow> int \<Rightarrow> string list" where
  "getParentNodes connectionsByDestinationNode nodeName type depth =
     getConnectedNodes connectionsByDestinationNode nodeName type depth []"

text \<open>\<^verbatim>\<open>getNodeByName\<close> takes the nodes as an object or as an array.\<close>

definition getNodeByName :: "INodes + INode list \<Rightarrow> string \<Rightarrow> INode option" where
  "getNodeByName nodes name =
     (case nodes of
        Inr arr \<Rightarrow> find (\<lambda>node. node_name node = name) arr
      | Inl obj \<Rightarrow> obj_get obj name)"

section \<open>AI root nodes\<close>

definition isObjectRecord :: "jsval \<Rightarrow> bool" where
  "isObjectRecord v = (case v of JObj _ \<Rightarrow> True | JArr _ \<Rightarrow> True | _ \<Rightarrow> False)"

definition isUnknownArray :: "jsval \<Rightarrow> bool" where
  "isUnknownArray v = (case v of JArr _ \<Rightarrow> True | _ \<Rightarrow> False)"

text \<open>\<^verbatim>\<open>Object.entries\<close> and a property read, on an object or an array.\<close>

definition obj_entries :: "jsval \<Rightarrow> (string \<times> jsval) list" where
  "obj_entries v = (case v of JObj kvs \<Rightarrow> kvs
     | JArr xs \<Rightarrow> map (\<lambda>(i, x). (nat_str i, x)) (enumerate 0 xs) | _ \<Rightarrow> [])"

definition arr_elems :: "jsval \<Rightarrow> jsval list" where
  "arr_elems v = (case v of JArr xs \<Rightarrow> xs | _ \<Rightarrow> [])"

definition prop_get :: "jsval \<Rightarrow> string \<Rightarrow> jsval" where
  "prop_get v k = (case map_of (obj_entries v) k of None \<Rightarrow> JUndefined | Some x \<Rightarrow> x)"

definition starts_with :: "string \<Rightarrow> string \<Rightarrow> bool" where
  "starts_with p s \<longleftrightarrow> take (length p) s = p"

definition addRootOf :: "jsval \<Rightarrow> string list \<Rightarrow> string list" where
  "addRootOf conn roots =
     (if isObjectRecord conn
      then (case prop_get conn ''node'' of JStr name \<Rightarrow> set_add name roots | _ \<Rightarrow> roots) else roots)"

definition addRootsOfGroup :: "jsval \<Rightarrow> string list \<Rightarrow> string list" where
  "addRootsOfGroup conns roots =
     (if \<not> isUnknownArray conns then roots else fold addRootOf (arr_elems conns) roots)"

definition addRootsOfOutputs :: "string \<times> jsval \<Rightarrow> string list \<Rightarrow> string list" where
  "addRootsOfOutputs entry roots =
     (let (connType, outputs) = entry
      in if \<not> starts_with ''ai_'' connType \<or> \<not> isUnknownArray outputs then roots
         else fold addRootsOfGroup (arr_elems outputs) roots)"

definition addRootsOfNode :: "jsval \<Rightarrow> string list \<Rightarrow> string list" where
  "addRootsOfNode nodeConns roots =
     (if \<not> isObjectRecord nodeConns then roots else fold addRootsOfOutputs (obj_entries nodeConns) roots)"

definition findAiRootNodeNames :: "jsval \<Rightarrow> string list" where
  "findAiRootNodeNames connections =
     (if \<not> isObjectRecord connections then []
      else fold addRootsOfNode (values_of (obj_entries connections)) [])"

section \<open>Reversing connections\<close>

text \<open>The connections stored at one index of one type of one node.\<close>

definition conns_at :: "IConnections \<Rightarrow> string \<Rightarrow> string \<Rightarrow> nat \<Rightarrow> IConnection list" where
  "conns_at m n t i = (case map_get m n of None \<Rightarrow> [] | Some byType \<Rightarrow>
     (case map_get byType t of None \<Rightarrow> [] | Some outs \<Rightarrow> or_empty (arr_get outs i)))"

definition wf_conns :: "IConnections \<Rightarrow> bool" where
  "wf_conns m \<longleftrightarrow> distinct (keys_of m) \<and> (\<forall>bt \<in> set (values_of m). distinct (keys_of bt))"

definition no_holes :: "IConnections \<Rightarrow> bool" where
  "no_holes m \<longleftrightarrow> (\<forall>n bt t outs. map_get m n = Some bt \<longrightarrow> map_get bt t = Some outs \<longrightarrow> None \<notin> set outs)"

text \<open>All connections in the order in which the loops visit them.\<close>

definition flat_conns :: "IConnections \<Rightarrow> (string \<times> string \<times> nat \<times> IConnection) list" where
  "flat_conns m = concat (map (\<lambda>(n, bt). concat (map (\<lambda>(t, outs).
     concat (map (\<lambda>(i, cs). map (\<lambda>c. (n, t, i, c)) (or_empty cs)) (enumerate 0 outs))) bt)) m)"

lemma fold_concat_map: "fold f (concat (map g xs)) = fold (\<lambda>x. fold f (g x)) xs"
proof
  show "fold f (concat (map g xs)) s = fold (\<lambda>x. fold f (g x)) xs s" for s
    by (induction xs arbitrary: s) simp_all
qed

lemma fold_map_fun: "fold f (map g xs) = fold (\<lambda>x. f (g x)) xs"
  by (simp add: fold_map comp_def)

lemma mapConnectionsByDestination_flat:
  "mapConnectionsByDestination m = fold (\<lambda>(n, t, i, c). addByDestination n t i c) (flat_conns m) []"
  unfolding mapConnectionsByDestination_def flat_conns_def
  by (simp add: fold_concat_map fold_map_fun split_beta' cong: fold_cong)

lemma set_flat_conns:
  assumes "wf_conns m"
  shows "(n, t, i, c) \<in> set (flat_conns m) \<longleftrightarrow> c \<in> set (conns_at m n t i)"
proof -
  have outs: "(n, t, i, c) \<in> set (concat (map (\<lambda>(i, cs). map (\<lambda>c. (n', t', i, c)) (or_empty cs)) (enumerate 0 outs)))
      \<longleftrightarrow> n = n' \<and> t = t' \<and> c \<in> set (or_empty (arr_get outs i))" for n' t' outs
  proof -
    have "(\<exists>x \<in> set (enumerate 0 outs). fst x = i \<and> c \<in> set (or_empty (snd x))) \<longleftrightarrow> c \<in> set (or_empty (arr_get outs i))"
      by (auto simp: in_set_enumerate_eq arr_get_def Bex_def split: option.splits)
    moreover have "(n, t, i, c) \<in> set (concat (map (\<lambda>(i, cs). map (\<lambda>c. (n', t', i, c)) (or_empty cs)) (enumerate 0 outs)))
      \<longleftrightarrow> n = n' \<and> t = t' \<and> (\<exists>x \<in> set (enumerate 0 outs). fst x = i \<and> c \<in> set (or_empty (snd x)))"
      by (simp add: split_beta) blast
    ultimately show ?thesis by simp
  qed
  have "(n, t, i, c) \<in> set (flat_conns m) \<longleftrightarrow> (\<exists>e \<in> set m. \<exists>e' \<in> set (snd e). (n, t, i, c) \<in>
      set (concat (map (\<lambda>(i, cs). map (\<lambda>c. (fst e, fst e', i, c)) (or_empty cs)) (enumerate 0 (snd e')))))"
    unfolding flat_conns_def by (simp add: split_beta)
  also have "\<dots> \<longleftrightarrow> (\<exists>bt outs. (n, bt) \<in> set m \<and> (t, outs) \<in> set bt \<and> c \<in> set (or_empty (arr_get outs i)))"
    unfolding outs by force
  finally have "(n, t, i, c) \<in> set (flat_conns m) \<longleftrightarrow>
      (\<exists>bt outs. (n, bt) \<in> set m \<and> (t, outs) \<in> set bt \<and> c \<in> set (or_empty (arr_get outs i)))" .
  also have "\<dots> \<longleftrightarrow> (\<exists>bt outs. map_get m n = Some bt \<and> map_get bt t = Some outs \<and> c \<in> set (or_empty (arr_get outs i)))"
  proof -
    have "(n, bt) \<in> set m \<longleftrightarrow> map_get m n = Some bt" for bt using assms by (simp add: wf_conns_def)
    moreover have "(t, outs) \<in> set bt \<longleftrightarrow> map_get bt t = Some outs" if "(n, bt) \<in> set m" for bt outs
      using that assms by (force simp: wf_conns_def)
    ultimately show ?thesis by metis
  qed
  also have "\<dots> \<longleftrightarrow> c \<in> set (conns_at m n t i)"
    by (cases "map_get m n"; cases "map_get (the (map_get m n)) t") (simp_all add: conns_at_def)
  finally show ?thesis .
qed

lemma padded_entries:
  "i < length (xs @ replicate (Suc i - length xs) (Some []))"
  "or_empty (arr_get (xs @ replicate k (Some [])) j) = or_empty (arr_get xs j)"
  "None \<notin> set xs \<Longrightarrow> None \<notin> set (xs @ replicate k (Some []))"
  by (auto simp: arr_get_def nth_append)

lemma padded_get:
  assumes "None \<notin> set xs"
  shows "(xs @ replicate (Suc i - length xs) (Some [])) ! i = Some (or_empty (arr_get xs i))"
proof (cases "i < length xs")
  case True
  with assms have "xs ! i \<noteq> None" by (metis nth_mem)
  with True show ?thesis by (auto simp: nth_append arr_get_def)
next
  case False
  then show ?thesis by (simp add: nth_append arr_get_def)
qed

text \<open>What one connection adds: the reversed entry, at the input it leads to.\<close>

lemma addByDestination_spec:
  assumes "no_holes m"
  shows "no_holes (addByDestination n t i c m)"
    and "conns_at (addByDestination n t i c m) n' t' j = conns_at m n' t' j
      @ (if c = \<lparr>con_node = n', con_type = t', con_index = j\<rparr>
         then [\<lparr>con_node = n, con_type = t, con_index = i\<rparr>] else [])"
proof -
  let ?bt = "or_empty (map_get m (con_node c))"
  let ?in = "or_empty (map_get ?bt (con_type c))"
  let ?pad = "?in @ replicate (Suc (con_index c) - length ?in) (Some [])"
  let ?e = "\<lparr>con_node = n, con_type = t, con_index = i\<rparr>"
  let ?l = "or_empty (arr_get ?in (con_index c))"
  let ?new = "?pad[con_index c := Some (?l @ [?e])]"
  have full: "None \<notin> set ?in" using assms by (auto simp: no_holes_def split: option.splits)
  have add: "addByDestination n t i c m = obj_set (con_node c) (obj_set (con_type c) ?new ?bt) m"
    by (simp add: addByDestination_def Let_def padded_get [OF full])
  have "None \<notin> set ?new"
    using padded_entries(3) [OF full] by (auto dest!: subsetD [OF set_update_subset_insert])
  then show "no_holes (addByDestination n t i c m)"
    using assms unfolding add no_holes_def by (auto simp: js_obj.get_put split: option.splits if_splits)
  have c: "c = \<lparr>con_node = n', con_type = t', con_index = j\<rparr>
      \<longleftrightarrow> n' = con_node c \<and> t' = con_type c \<and> j = con_index c" by (cases c) auto
  have new: "or_empty (arr_get ?new j) = or_empty (arr_get ?in j) @ (if j = con_index c then [?e] else [])"
  proof (cases "j = con_index c")
    case True
    then show ?thesis using padded_entries(1) [of "con_index c" ?in] by (simp add: arr_get_def)
  next
    case False
    then have "arr_get ?new j = arr_get ?pad j" by (simp add: arr_get_def)
    with False padded_entries(2) show ?thesis by simp
  qed
  have old: "conns_at m (con_node c) (con_type c) j = or_empty (arr_get ?in j)"
    by (simp add: conns_at_def split: option.splits)
  consider "n' = con_node c" "t' = con_type c" | "n' = con_node c" "t' \<noteq> con_type c" | "n' \<noteq> con_node c" by blast
  then show "conns_at (addByDestination n t i c m) n' t' j = conns_at m n' t' j
      @ (if c = \<lparr>con_node = n', con_type = t', con_index = j\<rparr> then [?e] else [])"
  proof cases
    case 1
    then have "conns_at (addByDestination n t i c m) n' t' j = or_empty (arr_get ?new j)"
      by (simp add: add conns_at_def js_obj.get_put)
    with 1 show ?thesis unfolding new c by (simp add: old)
  next
    case 2
    then show ?thesis unfolding add c by (simp add: conns_at_def js_obj.get_put split: option.splits)
  next
    case 3
    then show ?thesis unfolding add c by (simp add: conns_at_def js_obj.get_put)
  qed
qed

lemma addByDestination_wf:
  assumes "wf_conns m"
  shows "wf_conns (addByDestination n t i c m)"
proof -
  have "distinct (keys_of (or_empty (map_get m (con_node c))))"
    using assms by (auto simp: wf_conns_def split: option.splits dest!: map_of_SomeD)
  then have bt: "distinct (keys_of (obj_set (con_type c) x (or_empty (map_get m (con_node c)))))" for x
    by (rule js_obj.distinct_put)
  have m: "distinct (keys_of m)" using assms by (simp add: wf_conns_def)
  show ?thesis
    using assms bt js_obj.distinct_put [OF m] js_obj.values_put [OF m]
    unfolding wf_conns_def addByDestination_def Let_def by force
qed

lemma conns_at_byDestination:
  "conns_at (mapConnectionsByDestination m) n t j =
     map (\<lambda>(s, t, i, c). \<lparr>con_node = s, con_type = t, con_index = i\<rparr>)
       (filter (\<lambda>(_, _, _, c). c = \<lparr>con_node = n, con_type = t, con_index = j\<rparr>) (flat_conns m))"
proof -
  have "no_holes r \<Longrightarrow> conns_at (fold (\<lambda>(n, t, i, c). addByDestination n t i c) xs r) n t j = conns_at r n t j @
     map (\<lambda>(s, t, i, c). \<lparr>con_node = s, con_type = t, con_index = i\<rparr>)
       (filter (\<lambda>(_, _, _, c). c = \<lparr>con_node = n, con_type = t, con_index = j\<rparr>) xs)" for r xs
    by (induction xs arbitrary: r) (auto simp: addByDestination_spec)
  from this [of "[]"] show ?thesis
    unfolding mapConnectionsByDestination_flat by (simp add: no_holes_def conns_at_def)
qed

lemma byDestination_wf: "wf_conns (mapConnectionsByDestination m)"
proof -
  have "wf_conns r \<Longrightarrow> wf_conns (fold (\<lambda>(n, t, i, c). addByDestination n t i c) xs r)" for r xs
    by (induction xs arbitrary: r) (auto simp: addByDestination_wf)
  moreover have "wf_conns []" by (simp add: wf_conns_def)
  ultimately show ?thesis unfolding mapConnectionsByDestination_flat by blast
qed

lemma byDestination_reverses:
  assumes "wf_conns m"
  shows "\<lparr>con_node = s, con_type = t, con_index = i\<rparr> \<in> set (conns_at (mapConnectionsByDestination m) n t' j)
    \<longleftrightarrow> \<lparr>con_node = n, con_type = t', con_index = j\<rparr> \<in> set (conns_at m s t i)"
  unfolding conns_at_byDestination set_flat_conns [OF assms, symmetric] by force

section \<open>The connected nodes\<close>

text \<open>The edges that a connection type follows.\<close>

definition type_targets :: "IConnections \<Rightarrow> string \<Rightarrow> string \<Rightarrow> string list" where
  "type_targets m ctype n = (case map_get m n of None \<Rightarrow> [] | Some bt \<Rightarrow>
     concat (map (\<lambda>t. case map_get bt t of None \<Rightarrow> [] | Some outs \<Rightarrow>
       concat (map (\<lambda>cs. map con_node (or_empty cs)) outs)) (connection_types ctype bt)))"

definition type_edges :: "IConnections \<Rightarrow> string \<Rightarrow> (string \<times> string) set" where
  "type_edges m ctype = {(a, b). b \<in> set (type_targets m ctype a)}"

lemma move_front_set [simp]: "distinct xs \<Longrightarrow> set (move_front x xs) = insert x (set xs) \<and> distinct (move_front x xs)"
  by (auto simp: move_front_def)

lemma foldr_move_front:
  "distinct xs \<Longrightarrow> set (foldr move_front ys xs) = set ys \<union> set xs \<and> distinct (foldr move_front ys xs)"
  by (induction ys) auto

text \<open>The function as one loop over the targets.\<close>

definition connected_step :: "(string \<Rightarrow> string list) \<Rightarrow> string list \<Rightarrow> string \<Rightarrow> string list \<Rightarrow> string list" where
  "connected_step rec checked b ret = (if b \<in> set checked then ret else foldr move_front (rec b) (move_front b ret))"

lemma getConnectedNodes_unfold:
  "getConnectedNodes m n ctype depth checked =
     (if depth = 0 \<or> n \<in> set checked then []
      else fold (connected_step (\<lambda>b. getConnectedNodes m b ctype (if depth = - 1 then depth else depth - 1) (checked @ [n]))
                  (checked @ [n])) (type_targets m ctype n) [])"
proof -
  let ?rec = "\<lambda>b. getConnectedNodes m b ctype (if depth = - 1 then depth else depth - 1) (checked @ [n])"
  let ?step = "connected_step ?rec (checked @ [n])"
  note unfold = getConnectedNodes.simps [of m n ctype depth checked]
  have skip: "fold (\<lambda>x s. case map_get bt x of None \<Rightarrow> s | _ \<Rightarrow> s) xs s = s"
    for xs :: "string list" and s :: "string list" and bt :: INodeConnections
    by (induction xs) (simp_all split: option.split)
  show ?thesis
  proof (cases "map_get m n")
    case None
    then show ?thesis by (simp add: unfold type_targets_def)
  next
    case (Some bt)
    have body: "(case map_get bt t of None \<Rightarrow> ret | Some outs \<Rightarrow>
        fold (\<lambda>cs. fold (\<lambda>c ret. if con_node c \<in> set (checked @ [n]) then ret
          else foldr move_front (?rec (con_node c)) (move_front (con_node c) ret)) (or_empty cs)) outs ret)
      = fold ?step (case map_get bt t of None \<Rightarrow> [] | Some outs \<Rightarrow> concat (map (\<lambda>cs. map con_node (or_empty cs)) outs)) ret"
      for t ret
      by (simp add: fold_concat_map fold_map_fun connected_step_def [abs_def] split: option.split)
    show ?thesis
    proof (cases "depth = 0 \<or> n \<in> set checked")
      case True
      then show ?thesis by (auto simp: unfold Some skip cong: option.case_cong)
    next
      case False
      then show ?thesis
        unfolding unfold type_targets_def Some option.case fold_concat_map Let_def
        by (simp only: if_False body simp_thms de_Morgan_disj)
    qed
  qed
qed

text \<open>A walk of at most the given number of steps; a negative depth is no bound.\<close>

definition in_depth :: "int \<Rightarrow> nat \<Rightarrow> bool" where
  "in_depth depth k \<longleftrightarrow> depth < 0 \<or> int k \<le> depth"

lemma in_depth_Suc: "depth \<noteq> 0 \<Longrightarrow> in_depth (if depth = - 1 then depth else depth - 1) k \<longleftrightarrow> in_depth depth (Suc k)"
  by (auto simp: in_depth_def)

lemma last_visit_steps:
  assumes "(x, n) \<in> r ^^ k" and "n \<noteq> x"
  shows "\<exists>b j. j < k \<and> (x, b) \<in> r \<and> (b, n) \<in> avoiding r {x} ^^ j"
  using assms
proof (induction k arbitrary: n)
  case 0
  then show ?case by simp
next
  case (Suc k)
  then obtain y where y: "(x, y) \<in> r ^^ k" "(y, n) \<in> r" by auto
  show ?case
  proof (cases "y = x")
    case True
    with y(2) show ?thesis by (intro exI [of _ n] exI [of _ 0]) simp
  next
    case False
    from Suc.IH [OF y(1) False] obtain b j where b: "j < k" "(x, b) \<in> r" "(b, y) \<in> avoiding r {x} ^^ j" by blast
    moreover from b(3) y(2) False have "(b, n) \<in> avoiding r {x} ^^ Suc j" by auto
    ultimately show ?thesis by (intro exI [of _ b] exI [of _ "Suc j"]) simp
  qed
qed


lemma connected_steps:
  assumes "distinct ret" and "\<And>b. distinct (rec b)"
  shows "distinct (fold (connected_step rec checked) bs ret) \<and>
    set (fold (connected_step rec checked) bs ret) = set ret \<union> (\<Union>b \<in> set bs - set checked. insert b (set (rec b)))"
  using assms(1)
proof (induction bs arbitrary: ret)
  case Nil
  then show ?case by simp
next
  case (Cons b bs)
  have "distinct (connected_step rec checked b ret) \<and> set (connected_step rec checked b ret)
      = set ret \<union> (if b \<in> set checked then {} else insert b (set (rec b)))"
    using Cons.prems foldr_move_front [of "move_front b ret" "rec b"] by (auto simp: connected_step_def)
  with Cons.IH [of "connected_step rec checked b ret"] show ?case by auto
qed

lemma within_step:
  assumes "depth \<noteq> 0" and "(n, b) \<in> E"
    and "x = b \<or> (\<exists>k. in_depth (if depth = - 1 then depth else depth - 1) k \<and> (b, x) \<in> E ^^ k)"
  shows "\<exists>k. in_depth depth k \<and> (n, x) \<in> E ^^ k"
proof -
  have "in_depth (if depth = - 1 then depth else depth - 1) 0" using assms(1) by (auto simp: in_depth_def)
  with assms(3) obtain k where "in_depth (if depth = - 1 then depth else depth - 1) k" "(b, x) \<in> E ^^ k" by fastforce
  with assms(2) in_depth_Suc [OF assms(1)] show ?thesis by (blast intro: relpow_Suc_I2)
qed

lemma within_split:
  assumes "depth \<noteq> 0" and x: "x \<notin> insert n C" and "in_depth depth k" and "(n, x) \<in> avoiding E C ^^ k"
  shows "\<exists>b. (n, b) \<in> E \<and> b \<notin> insert n C \<and> (x \<noteq> b \<longrightarrow> (\<exists>j. in_depth (if depth = - 1 then depth else depth - 1) j
    \<and> (b, x) \<in> avoiding E (insert n C) ^^ j))"
proof -
  from last_visit_steps [OF assms(4)] x obtain b j where b: "j < k" "(n, b) \<in> avoiding E C"
    "(b, x) \<in> avoiding (avoiding E C) {n} ^^ j" by auto
  have av: "avoiding (avoiding E C) {n} = avoiding E (insert n C)" by auto
  have "b \<notin> insert n C"
    using b(3) x unfolding av by (cases j) (auto dest!: relpow_Suc_D2 simp del: relpow.simps(2))
  moreover have "in_depth depth (Suc j)" using b(1) assms(3) by (auto simp: in_depth_def)
  ultimately show ?thesis
    using b(2,3) in_depth_Suc [OF assms(1)] unfolding av by blast
qed

text \<open>
  With the nodes of the path so far in \<open>checked\<close>: everything returned lies within the depth,
  and everything within the depth that is reached without them is returned.
\<close>

lemma getConnectedNodes_bounds:
  fixes m ctype
  defines "E \<equiv> type_edges m ctype"
  shows "distinct (getConnectedNodes m n ctype depth checked)
    \<and> set (getConnectedNodes m n ctype depth checked)
        \<subseteq> {x. x \<notin> insert n (set checked) \<and> (\<exists>k. in_depth depth k \<and> (n, x) \<in> E ^^ k)}
    \<and> (n \<notin> set checked \<longrightarrow> {x. x \<notin> insert n (set checked) \<and> (\<exists>k. in_depth depth k \<and> (n, x) \<in> avoiding E (set checked) ^^ k)}
        \<subseteq> set (getConnectedNodes m n ctype depth checked))"
proof (induction "card (set (keys_of m) - set checked)" arbitrary: n depth checked rule: less_induct)
  case less
  let ?d = "if depth = - 1 then depth else depth - 1" and ?c = "checked @ [n]"
  let ?rec = "\<lambda>b. getConnectedNodes m b ctype ?d ?c"
  let ?T = "type_targets m ctype n"
  note unfold = getConnectedNodes_unfold [of m n ctype depth checked]
  consider (stop) "depth = 0 \<or> n \<in> set checked" | (leaf) "depth \<noteq> 0" "n \<notin> set checked" "?T = []"
    | (go) "depth \<noteq> 0" "n \<notin> set checked" "?T \<noteq> []" by blast
  then show ?case
  proof cases
    case stop
    then show ?thesis by (auto simp: unfold in_depth_def)
  next
    case leaf
    then have "(n, b) \<notin> E" for b by (simp add: E_def type_edges_def)
    then have "(n, x) \<in> avoiding E X ^^ k \<Longrightarrow> x = n" for x k X
      by (cases k) (auto dest!: relpow_Suc_D2 simp del: relpow.simps(2))
    with leaf show ?thesis by (auto simp: unfold)
  next
    case go
    then have "n \<in> set (keys_of m)"
      by (auto simp: type_targets_def split: option.splits dest!: map_of_SomeD intro: rev_image_eqI)
    with go(2) have "set (keys_of m) - set ?c \<subset> set (keys_of m) - set checked" by auto
    then have "card (set (keys_of m) - set ?c) < card (set (keys_of m) - set checked)"
      by (intro psubset_card_mono) simp_all
    note IH = less.hyps [OF this]
    have R: "distinct (getConnectedNodes m n ctype depth checked)"
      "set (getConnectedNodes m n ctype depth checked) = (\<Union>b \<in> set ?T - set ?c. insert b (set (?rec b)))"
      using connected_steps [of "[]" ?rec ?c ?T] IH go(1,2) by (simp_all add: unfold)
    have T: "b \<in> set ?T \<longleftrightarrow> (n, b) \<in> E" for b by (simp add: E_def type_edges_def)
    have up: "x \<notin> insert n (set checked) \<and> (\<exists>k. in_depth depth k \<and> (n, x) \<in> E ^^ k)"
      if "b \<in> set ?T - set ?c" and "x \<in> insert b (set (?rec b))" for x b
      using that IH [of b ?d] within_step [OF go(1), of n b E x] by (auto simp: T)
    have low: "\<exists>b \<in> set ?T - set ?c. x \<in> insert b (set (?rec b))"
      if x: "x \<notin> insert n (set checked)" "in_depth depth k" "(n, x) \<in> avoiding E (set checked) ^^ k" for x k
    proof -
      from within_split [OF go(1) x] obtain b where b: "(n, b) \<in> E" "b \<notin> insert n (set checked)"
        "x \<noteq> b \<longrightarrow> (\<exists>j. in_depth ?d j \<and> (b, x) \<in> avoiding E (insert n (set checked)) ^^ j)" by blast
      have "x \<in> insert b (set (?rec b))" using b(2,3) x(1) IH [of b ?d] by auto
      with b(1,2) show ?thesis by (intro bexI [of _ b]) (simp_all add: T)
    qed
    have "x \<notin> insert n (set checked) \<and> (\<exists>k. in_depth depth k \<and> (n, x) \<in> E ^^ k)"
      if "x \<in> set (getConnectedNodes m n ctype depth checked)" for x
      using that up unfolding R(2) by (elim UN_E)
    moreover have "x \<in> set (getConnectedNodes m n ctype depth checked)"
      if "x \<notin> insert n (set checked)" "in_depth depth k" "(n, x) \<in> avoiding E (set checked) ^^ k" for x k
      using low [OF that] unfolding R(2) by (elim bexE) (rule UN_I)
    ultimately show ?thesis using R(1) by blast
  qed
qed

lemma getConnectedNodes_spec:
  "distinct (getConnectedNodes m n ctype depth [])"
  "set (getConnectedNodes m n ctype depth []) = {x. x \<noteq> n \<and> (\<exists>k. in_depth depth k \<and> (n, x) \<in> type_edges m ctype ^^ k)}"
  using getConnectedNodes_bounds [of m n ctype depth "[]"] by auto

section \<open>The AI root nodes of a typed connection map\<close>

text \<open>A connection map as the JSON value that the function reads.\<close>

definition json_conn :: "IConnection \<Rightarrow> jsval" where
  "json_conn c = JObj [(''node'', JStr (con_node c)), (''type'', JStr (con_type c)), (''index'', JNum (of_nat (con_index c)))]"

definition json_outputs :: "NodeInputConnections \<Rightarrow> jsval" where
  "json_outputs outs = JArr (map (\<lambda>cs. case cs of None \<Rightarrow> JNull | Some l \<Rightarrow> JArr (map json_conn l)) outs)"

definition json_connections :: "IConnections \<Rightarrow> jsval" where
  "json_connections m = JObj (map (\<lambda>(n, bt). (n, JObj (map (\<lambda>(t, outs). (t, json_outputs outs)) bt))) m)"

lemma fold_add_sets:
  assumes "\<And>x r. x \<in> set xs \<Longrightarrow> distinct r \<Longrightarrow> distinct (f x r) \<and> set (f x r) = set r \<union> A x" and "distinct r"
  shows "distinct (fold f xs r) \<and> set (fold f xs r) = set r \<union> (\<Union>x \<in> set xs. A x)"
  using assms
proof (induction xs arbitrary: r)
  case Nil
  then show ?case by simp
next
  case (Cons x xs)
  from Cons.prems(1) [of x r] Cons.prems(2) have x: "distinct (f x r)" "set (f x r) = set r \<union> A x" by simp_all
  from Cons.IH [OF Cons.prems(1) x(1)] x(2) show ?case by auto
qed

text \<open>A function that adds exactly the names \<open>A\<close> to a set of names.\<close>

definition adds :: "(string list \<Rightarrow> string list) \<Rightarrow> string set \<Rightarrow> bool" where
  "adds f A \<longleftrightarrow> (\<forall>r. distinct r \<longrightarrow> distinct (f r) \<and> set (f r) = set r \<union> A)"

lemma adds_fold: "(\<And>x. x \<in> set xs \<Longrightarrow> adds (f x) (A x)) \<Longrightarrow> adds (fold f xs) (\<Union>x \<in> set xs. A x)"
  using fold_add_sets [of xs f A] unfolding adds_def by simp

lemma adds_conn: "adds (addRootOf (json_conn c)) {con_node c}"
  by (simp add: adds_def addRootOf_def json_conn_def isObjectRecord_def prop_get_def obj_entries_def)

lemma adds_group:
  "adds (addRootsOfGroup (case cs of None \<Rightarrow> JNull | Some l \<Rightarrow> JArr (map json_conn l))) (con_node ` set (or_empty cs))"
proof (cases cs)
  case None
  then show ?thesis by (simp add: adds_def addRootsOfGroup_def isUnknownArray_def)
next
  case (Some l)
  have "addRootsOfGroup (JArr (map json_conn l)) = fold (\<lambda>c. addRootOf (json_conn c)) l"
    by (simp add: fun_eq_iff addRootsOfGroup_def isUnknownArray_def arr_elems_def fold_map_fun)
  moreover have "(\<Union>c \<in> set l. {con_node c}) = con_node ` set l" by auto
  ultimately show ?thesis
    using adds_fold [of l "\<lambda>c. addRootOf (json_conn c)" "\<lambda>c. {con_node c}", OF adds_conn] Some by simp
qed

lemma adds_outputs:
  "adds (addRootsOfOutputs (t, json_outputs outs))
     (if starts_with ''ai_'' t then \<Union>cs \<in> set outs. con_node ` set (or_empty cs) else {})"
proof (cases "starts_with ''ai_'' t")
  case True
  then have "addRootsOfOutputs (t, json_outputs outs) = fold (\<lambda>cs. addRootsOfGroup
      (case cs of None \<Rightarrow> JNull | Some l \<Rightarrow> JArr (map json_conn l))) outs"
    by (simp add: fun_eq_iff addRootsOfOutputs_def json_outputs_def isUnknownArray_def arr_elems_def fold_map_fun)
  with True adds_fold [of outs _ "\<lambda>cs. con_node ` set (or_empty cs)", OF adds_group] show ?thesis by simp
next
  case False
  then show ?thesis by (simp add: adds_def addRootsOfOutputs_def)
qed

lemma adds_node:
  "adds (addRootsOfNode (JObj (map (\<lambda>(t, outs). (t, json_outputs outs)) bt)))
     (\<Union>e \<in> set bt. if starts_with ''ai_'' (fst e) then \<Union>cs \<in> set (snd e). con_node ` set (or_empty cs) else {})"
proof -
  have "addRootsOfNode (JObj (map (\<lambda>(t, outs). (t, json_outputs outs)) bt))
      = fold (\<lambda>e. addRootsOfOutputs (fst e, json_outputs (snd e))) bt"
    by (simp add: fun_eq_iff addRootsOfNode_def isObjectRecord_def obj_entries_def fold_map_fun split_beta)
  with adds_fold [of bt "\<lambda>e. addRootsOfOutputs (fst e, json_outputs (snd e))", OF adds_outputs] show ?thesis by simp
qed

text \<open>
  \<^verbatim>\<open>findAiRootNodeNames\<close>, on the JSON form of a connections object, returns each target of a
  connection whose type starts with \<^verbatim>\<open>ai_\<close> once, and nothing else.
\<close>

lemma findAiRootNodeNames_correct:
  "distinct (findAiRootNodeNames (json_connections m)) \<and>
   set (findAiRootNodeNames (json_connections m))
     = {con_node c | n t i c. (n, t, i, c) \<in> set (flat_conns m) \<and> starts_with ''ai_'' t}"
proof -
  let ?A = "\<lambda>bt. \<Union>e \<in> set bt. if starts_with ''ai_'' (fst e) then \<Union>cs \<in> set (snd e). con_node ` set (or_empty cs) else {}"
  have "findAiRootNodeNames (json_connections m) = fold (\<lambda>e. addRootsOfNode
      (JObj (map (\<lambda>(t, outs). (t, json_outputs outs)) (snd e)))) m []"
    by (simp add: findAiRootNodeNames_def json_connections_def isObjectRecord_def obj_entries_def fold_map_fun split_beta)
  moreover have "adds (fold (\<lambda>e. addRootsOfNode (JObj (map (\<lambda>(t, outs). (t, json_outputs outs)) (snd e)))) m)
      (\<Union>e \<in> set m. ?A (snd e))"
    by (rule adds_fold) (rule adds_node)
  moreover have "(\<Union>e \<in> set m. ?A (snd e))
      = {con_node c | n t i c. (n, t, i, c) \<in> set (flat_conns m) \<and> starts_with ''ai_'' t}" (is "?L = ?R")
  proof -
    have R: "x \<in> ?R \<longleftrightarrow> (\<exists>e \<in> set m. \<exists>e' \<in> set (snd e). starts_with ''ai_'' (fst e') \<and>
        (\<exists>ie \<in> set (enumerate 0 (snd e')). x \<in> con_node ` set (or_empty (snd ie))))" for x
      unfolding flat_conns_def by (simp add: split_beta) blast
    have E: "(\<exists>ie \<in> set (enumerate 0 outs). x \<in> con_node ` set (or_empty (snd ie)))
        \<longleftrightarrow> (\<exists>cs \<in> set outs. x \<in> con_node ` set (or_empty cs))" for x outs
    proof -
      have "snd ` set (enumerate 0 outs) = set outs" by (metis list.set_map map_snd_enumerate)
      then show ?thesis by (metis (no_types, lifting) image_iff)
    qed
    have L: "x \<in> ?L \<longleftrightarrow> (\<exists>e \<in> set m. \<exists>e' \<in> set (snd e). starts_with ''ai_'' (fst e') \<and>
        (\<exists>cs \<in> set (snd e'). x \<in> con_node ` set (or_empty cs)))" for x
      by (simp only: UN_iff if_distrib [of "\<lambda>A. x \<in> A"] empty_iff if_bool_eq_conj simp_thms) blast
    show ?thesis by (intro set_eqI) (simp only: L R E)
  qed
  ultimately show ?thesis by (simp add: adds_def)
qed

section \<open>Properties\<close>

text \<open>
  C31. \<^verbatim>\<open>mapConnectionsByDestination\<close>: the connections into an input of a node are, in the order
  in which the loops visit them, exactly the connections of the given object that end there, with
  their source node, output type and output index.
\<close>

theorem mapConnectionsByDestination_correct:
  "conns_at (mapConnectionsByDestination m) n t j =
     map (\<lambda>(s, t, i, c). \<lparr>con_node = s, con_type = t, con_index = i\<rparr>)
       (filter (\<lambda>(_, _, _, c). c = \<lparr>con_node = n, con_type = t, con_index = j\<rparr>) (flat_conns m))"
  by (rule conns_at_byDestination)

text \<open>
  Mapping the connections by destination twice gives the same connections back, for every
  connections object with distinct keys.
\<close>

lemma mapConnectionsByDestination_roundtrip:
  assumes "wf_conns m"
  shows "set (conns_at (mapConnectionsByDestination (mapConnectionsByDestination m)) s t i) = set (conns_at m s t i)"
proof (intro set_eqI)
  fix c :: IConnection
  have c: "c = \<lparr>con_node = con_node c, con_type = con_type c, con_index = con_index c\<rparr>" by simp
  show "c \<in> set (conns_at (mapConnectionsByDestination (mapConnectionsByDestination m)) s t i) \<longleftrightarrow> c \<in> set (conns_at m s t i)"
    by (subst (1 2) c) (simp only: byDestination_reverses [OF byDestination_wf] byDestination_reverses [OF assms])
qed

text \<open>
  \<^verbatim>\<open>getConnectedNodes\<close> terminates on every connections object, also with cycles, and returns
  each node other than the start that a walk of at most \<^verbatim>\<open>depth\<close> connections of the requested type
  reaches (any length for a negative depth), once each, and no other node.
\<close>

lemma getConnectedNodes_correct:
  "distinct (getConnectedNodes m n ctype depth []) \<and>
   set (getConnectedNodes m n ctype depth []) = {x. x \<noteq> n \<and> (\<exists>k. in_depth depth k \<and> (n, x) \<in> type_edges m ctype ^^ k)}"
  using getConnectedNodes_spec by blast

end
