(* ===== verification/Workflow_Graph.thy ===== *)
theory Workflow_Graph
  imports Connection_Maps
begin

text \<open>
  The class \<^verbatim>\<open>Workflow\<close> of \<^verbatim>\<open>packages/workflow/src/workflow.ts\<close>: its nodes, its connections by
  source and by destination, its pinned data, and the methods that read and change them.

  Parameters. \<open>nodeTypes\<close> is \<^verbatim>\<open>this.nodeTypes.getByNameAndVersion\<close> (the registry of installed
  node packages); \<open>getNodeParameters\<close> fills in default values; \<open>applyAccessPatterns\<close> is the function of that name of
  \<^verbatim>\<open>node-reference-parser-utils.ts\<close> that rewrites references inside an expression with regular
  expressions.
\<close>

section \<open>The state\<close>

datatype node_output = OutputType string | OutputConfiguration string

datatype node_outputs = StaticOutputs "node_output list" | OutputsExpression string

text \<open>\<^verbatim>\<open>requiredInputs\<close>: an expression, the indices of the inputs, or their number.\<close>

datatype required_inputs = RequiredExpression string | RequiredIndexes "nat list" | RequiredCount nat

record INodeType =
  nt_name :: string
  nt_group :: "string list"
  nt_outputs :: node_outputs
  nt_inputs :: node_outputs
  nt_requiredInputs :: "required_inputs option"
  nt_trigger :: bool
  nt_poll :: bool
  nt_execute :: bool
  nt_webhook :: bool
  nt_supplyData :: bool
  nt_requestDefaults :: bool
  nt_customOperations :: "(string \<times> string list) list option"

type_synonym NodeTypes = "string \<Rightarrow> rat \<Rightarrow> INodeType option"

record Workflow =
  wf_nodes :: INodes
  wf_connectionsBySourceNode :: IConnections
  wf_connectionsByDestinationNode :: IConnections
  wf_pinData :: "IPinData option"
  wf_executionOrder :: "string option"

definition setNodes :: "INode list \<Rightarrow> Workflow \<Rightarrow> Workflow" where
  "setNodes nodes w = w\<lparr>wf_nodes := fold (\<lambda>node. obj_set (node_name node) node) nodes []\<rparr>"

definition setConnections :: "IConnections \<Rightarrow> Workflow \<Rightarrow> Workflow" where
  "setConnections connections w =
     w\<lparr>wf_connectionsBySourceNode := connections,
        wf_connectionsByDestinationNode := mapConnectionsByDestination connections\<rparr>"

definition setPinData :: "IPinData option \<Rightarrow> Workflow \<Rightarrow> Workflow" where
  "setPinData pinData w = w\<lparr>wf_pinData := pinData\<rparr>"

text \<open>Of the settings the model keeps the execution order.\<close>

definition setSettings :: "string option \<Rightarrow> Workflow \<Rightarrow> Workflow" where
  "setSettings executionOrder w = w\<lparr>wf_executionOrder := executionOrder\<rparr>"

text \<open>
  The constructor. It first adds the default values of the parameters of every node whose type is
  known; \<open>getNodeParameters\<close> is \<^verbatim>\<open>NodeHelpers.getNodeParameters\<close>, \<open>None\<close> for \<^verbatim>\<open>null\<close>.
\<close>

type_synonym GetNodeParameters = "INodeType \<Rightarrow> INode \<Rightarrow> (string \<times> jsval) list option"

definition addDefaultValues :: "NodeTypes \<Rightarrow> GetNodeParameters \<Rightarrow> INode \<Rightarrow> INode" where
  "addDefaultValues nodeTypes getNodeParameters node =
     (case nodeTypes (node_type node) (node_typeVersion node) of
        None \<Rightarrow> node
      | Some nodeType \<Rightarrow> node\<lparr>node_parameters :=
          (case getNodeParameters nodeType node of None \<Rightarrow> [] | Some nodeParameters \<Rightarrow> nodeParameters)\<rparr>)"

definition new_workflow ::
  "NodeTypes \<Rightarrow> GetNodeParameters \<Rightarrow> INode list \<Rightarrow> IConnections \<Rightarrow> IPinData option \<Rightarrow> string option \<Rightarrow> Workflow" where
  "new_workflow nodeTypes getNodeParameters nodes connections pinData executionOrder =
     setSettings executionOrder (setPinData pinData (setConnections connections
       (setNodes (map (addDefaultValues nodeTypes getNodeParameters) nodes)
         \<lparr>wf_nodes = [], wf_connectionsBySourceNode = [], wf_connectionsByDestinationNode = [], wf_pinData = None,
          wf_executionOrder = None\<rparr>)))"

section \<open>Queries\<close>

definition getNode :: "Workflow \<Rightarrow> string \<Rightarrow> INode option" where
  "getNode w nodeName = obj_get (wf_nodes w) nodeName"

definition workflow_getNodes :: "Workflow \<Rightarrow> string list \<Rightarrow> INode list" where
  "workflow_getNodes w nodeNames =
     fold (\<lambda>name nodes. case getNode w name of None \<Rightarrow> nodes | Some node \<Rightarrow> nodes @ [node]) nodeNames []"

definition getPinDataOfNode :: "Workflow \<Rightarrow> string \<Rightarrow> INodeExecutionData list option" where
  "getPinDataOfNode w nodeName =
     (case wf_pinData w of None \<Rightarrow> None | Some pinData \<Rightarrow> obj_get pinData nodeName)"

definition queryNodes :: "NodeTypes \<Rightarrow> Workflow \<Rightarrow> (INodeType \<Rightarrow> bool) \<Rightarrow> INode list" where
  "queryNodes nodeTypes w checkFunction =
     filter (\<lambda>node. node_disabled node \<noteq> Some True \<and>
         (case nodeTypes (node_type node) (node_typeVersion node) of
            None \<Rightarrow> False
          | Some nodeType \<Rightarrow> checkFunction nodeType))
       (values_of (wf_nodes w))"

definition getTriggerNodes :: "NodeTypes \<Rightarrow> Workflow \<Rightarrow> INode list" where
  "getTriggerNodes nodeTypes w = queryNodes nodeTypes w nt_trigger"

definition getPollNodes :: "NodeTypes \<Rightarrow> Workflow \<Rightarrow> INode list" where
  "getPollNodes nodeTypes w = queryNodes nodeTypes w nt_poll"

definition workflow_getChildNodes :: "Workflow \<Rightarrow> string \<Rightarrow> string \<Rightarrow> int \<Rightarrow> string list" where
  "workflow_getChildNodes w nodeName type depth =
     getChildNodes (wf_connectionsBySourceNode w) nodeName type depth"

definition workflow_getParentNodes :: "Workflow \<Rightarrow> string \<Rightarrow> string \<Rightarrow> int \<Rightarrow> string list" where
  "workflow_getParentNodes w nodeName type depth =
     getParentNodes (wf_connectionsByDestinationNode w) nodeName type depth"

definition getConnectionsBetweenNodes ::
  "Workflow \<Rightarrow> string list \<Rightarrow> string list \<Rightarrow> (IConnection \<times> IConnection) list" where
  "getConnectionsBetweenNodes w sources targets =
     concat (map (\<lambda>source.
       concat (map (\<lambda>(type, outputs).
         concat (map (\<lambda>(sourceIndex, conns).
           concat (map (\<lambda>targetConnectionData.
             if con_node targetConnectionData \<in> set targets
             then [(\<lparr>con_node = source, con_type = type, con_index = sourceIndex\<rparr>, targetConnectionData)]
             else []) (or_empty conns)))
         (enumerate 0 outputs)))
       (or_empty (obj_get (wf_connectionsBySourceNode w) source))))
     sources)"

section \<open>Renaming a node\<close>

fun renameNodeInParameterValue ::
  "(string \<Rightarrow> string \<Rightarrow> string \<Rightarrow> string) \<Rightarrow> jsval \<Rightarrow> string \<Rightarrow> string \<Rightarrow> bool \<Rightarrow> jsval" where
  "renameNodeInParameterValue applyAccessPatterns (JStr s) currentName newName hasRenamableContent =
     (if (s \<noteq> [] \<and> hd s = CHR ''='') \<or> hasRenamableContent
      then JStr (applyAccessPatterns s currentName newName) else JStr s)"
| "renameNodeInParameterValue applyAccessPatterns (JArr vs) currentName newName hasRenamableContent =
     JArr (map (\<lambda>v. renameNodeInParameterValue applyAccessPatterns v currentName newName False) vs)"
| "renameNodeInParameterValue applyAccessPatterns (JObj kvs) currentName newName hasRenamableContent =
     JObj (map (\<lambda>(k, v). (k, renameNodeInParameterValue applyAccessPatterns v currentName newName hasRenamableContent)) kvs)"
| "renameNodeInParameterValue applyAccessPatterns JNull currentName newName hasRenamableContent = JObj []"
| "renameNodeInParameterValue applyAccessPatterns JUndefined currentName newName hasRenamableContent = JUndefined"
| "renameNodeInParameterValue applyAccessPatterns (JBool b) currentName newName hasRenamableContent = JBool b"
| "renameNodeInParameterValue applyAccessPatterns (JNum x) currentName newName hasRenamableContent = JNum x"

definition CODE_NODE_TYPES :: "string list" where
  "CODE_NODE_TYPES = [''n8n-nodes-base.code'', ''n8n-nodes-base.function'', ''n8n-nodes-base.functionItem'',
     ''n8n-nodes-base.aiTransform'']"

definition TOPLEVEL_HTML_NODE_TYPES :: "string list" where
  "TOPLEVEL_HTML_NODE_TYPES = [''n8n-nodes-base.mailgun'', ''n8n-nodes-base.html'']"

definition FORM_HTML_NODE_TYPES :: "string list" where
  "FORM_HTML_NODE_TYPES = [''n8n-nodes-base.form'']"

definition param_get :: "(string \<times> jsval) list \<Rightarrow> string \<Rightarrow> jsval" where
  "param_get params k = (case obj_get params k of None \<Rightarrow> JUndefined | Some v \<Rightarrow> v)"

definition renameFormField :: "(jsval \<Rightarrow> jsval) \<Rightarrow> jsval \<Rightarrow> jsval" where
  "renameFormField renameField formFieldValue =
     (case formFieldValue of
        JObj kvs \<Rightarrow>
          if obj_get kvs ''fieldType'' = Some (JStr ''html'') then
            (case obj_get kvs ''html'' of
               None \<Rightarrow> JObj kvs
             | Some html \<Rightarrow> JObj (obj_set ''html'' (renameField html) kvs))
          else JObj kvs
      | v \<Rightarrow> v)"

definition renameFormFields :: "(jsval \<Rightarrow> jsval) \<Rightarrow> (string \<times> jsval) list \<Rightarrow> (string \<times> jsval) list" where
  "renameFormFields renameField params =
     (case obj_get params ''formFields'' of
        Some (JObj ff) \<Rightarrow>
          (case obj_get ff ''values'' of
             Some (JArr vs) \<Rightarrow>
               obj_set ''formFields'' (JObj (obj_set ''values'' (JArr (map (renameFormField renameField) vs)) ff)) params
           | _ \<Rightarrow> params)
      | _ \<Rightarrow> params)"

definition renameInNode ::
  "(string \<Rightarrow> string \<Rightarrow> string \<Rightarrow> string) \<Rightarrow> string \<Rightarrow> string \<Rightarrow> INode \<Rightarrow> INode" where
  "renameInNode applyAccessPatterns currentName newName node =
     (let rename = (\<lambda>v h. renameNodeInParameterValue applyAccessPatterns v currentName newName h);
          params = map (\<lambda>(k, v). (k, rename v False)) (node_parameters node);
          params1 = (if node_type node \<in> set CODE_NODE_TYPES
                     then obj_set ''jsCode'' (rename (param_get params ''jsCode'') True) params else params);
          params2 = (if node_type node \<in> set TOPLEVEL_HTML_NODE_TYPES
                     then obj_set ''html'' (rename (param_get params1 ''html'') True) params1 else params1);
          params3 = (if node_type node \<in> set FORM_HTML_NODE_TYPES
                     then renameFormFields (\<lambda>p. rename p True) params2 else params2)
      in node\<lparr>node_parameters := params3\<rparr>)"

definition renameTarget :: "string \<Rightarrow> string \<Rightarrow> IConnection \<Rightarrow> IConnection" where
  "renameTarget currentName newName c = (if con_node c = currentName then c\<lparr>con_node := newName\<rparr> else c)"

definition renameTargets :: "string \<Rightarrow> string \<Rightarrow> IConnections \<Rightarrow> IConnections" where
  "renameTargets currentName newName m =
     map (\<lambda>(n, byType). (n, map (\<lambda>(t, outputs).
       (t, map (map_option (map (renameTarget currentName newName))) outputs)) byType)) m"

definition restrictedKeys :: "string list" where
  "restrictedKeys = [''hasOwnProperty'', ''isPrototypeOf'', ''propertyIsEnumerable'', ''toLocaleString'',
     ''toString'', ''valueOf'', ''constructor'', ''prototype'', ''__proto__'', ''__defineGetter__'',
     ''__defineSetter__'', ''__lookupGetter__'', ''__lookupSetter__'']"

text \<open>\<^verbatim>\<open>toLowerCase\<close> on the letters that matter for a comparison with the keys above.\<close>

definition to_lower :: "char \<Rightarrow> char" where
  "to_lower c = (if of_char c \<ge> (65 :: nat) \<and> of_char c \<le> (90 :: nat) then char_of (of_char c + (32 :: nat)) else c)"

definition moveKey :: "string \<Rightarrow> string \<Rightarrow> ('v \<Rightarrow> 'v) \<Rightarrow> (string \<times> 'v) list \<Rightarrow> (string \<times> 'v) list" where
  "moveKey currentName newName f m =
     (case obj_get m currentName of
        None \<Rightarrow> m
      | Some v \<Rightarrow> obj_delete currentName (obj_set newName (f v) m))"

definition renameNode ::
  "(string \<Rightarrow> string \<Rightarrow> string \<Rightarrow> string) \<Rightarrow> string \<Rightarrow> string \<Rightarrow> Workflow \<Rightarrow> Workflow res" where
  "renameNode applyAccessPatterns currentName newName w =
     (if map to_lower newName \<in> set (map (map to_lower) restrictedKeys) then
        Inl (UserError (''Node name \"'' @ newName @ ''\" is a restricted name.''))
      else
        let nodes = moveKey currentName newName (\<lambda>n. n\<lparr>node_name := newName\<rparr>) (wf_nodes w);
            nodes' = map (\<lambda>(k, n). (k, renameInNode applyAccessPatterns currentName newName n)) nodes;
            conns = moveKey currentName newName (\<lambda>v. v) (wf_connectionsBySourceNode w)
        in Inr (w\<lparr>wf_nodes := nodes',
                   wf_connectionsBySourceNode := renameTargets currentName newName conns\<rparr>))"

section \<open>The highest parents of a node\<close>

definition main_parents :: "Workflow \<Rightarrow> string \<Rightarrow> nat option \<Rightarrow> IConnection list" where
  "main_parents w nodeName nodeConnectionIndex =
     concat (map (\<lambda>(connectionIndex, connectionsByIndex).
         if nodeConnectionIndex \<noteq> None \<and> nodeConnectionIndex \<noteq> Some connectionIndex then []
         else or_empty connectionsByIndex)
       (enumerate 0 (or_empty (obj_get (or_empty (obj_get (wf_connectionsByDestinationNode w) nodeName)) Main))))"

text \<open>
  \<^verbatim>\<open>checkedNodes\<close> is one array shared by the whole recursion: the functions return it beside
  their result.
\<close>

function getHighestNode :: "Workflow \<Rightarrow> string \<Rightarrow> nat option \<Rightarrow> string list \<Rightarrow> string list \<times> string list"
  and highestLoop :: "Workflow \<Rightarrow> IConnection list \<Rightarrow> string list \<Rightarrow> string list \<Rightarrow> string list \<times> string list"
where
  "getHighestNode w nodeName nodeConnectionIndex checkedNodes =
     (case obj_get (wf_nodes w) nodeName of
        None \<Rightarrow> ([], checkedNodes)
      | Some node \<Rightarrow>
          let currentHighest = (if node_disabled node = Some False then [nodeName] else []) in
          case obj_get (wf_connectionsByDestinationNode w) nodeName of
            None \<Rightarrow> (currentHighest, checkedNodes)
          | Some byType \<Rightarrow>
             (case obj_get byType Main of
                None \<Rightarrow> (currentHighest, checkedNodes)
              | Some _ \<Rightarrow>
                 if nodeName \<in> set checkedNodes then (currentHighest, checkedNodes)
                 else highestLoop w (main_parents w nodeName nodeConnectionIndex) [] (checkedNodes @ [nodeName])))"
| "highestLoop w [] returnNodes checkedNodes = (returnNodes, checkedNodes)"
| "highestLoop w (connection # connections) returnNodes checkedNodes =
     (if con_node connection \<in> set checkedNodes then highestLoop w connections returnNodes checkedNodes
      else case obj_get (wf_nodes w) (con_node connection) of
        None \<Rightarrow> highestLoop w connections returnNodes checkedNodes
      | Some node \<Rightarrow>
         (case getHighestNode w (con_node connection) None checkedNodes of
            (addNodes, checkedNodes') \<Rightarrow>
              let addNodes' = (if addNodes = [] \<and> node_disabled node \<noteq> Some True
                               then [con_node connection] else addNodes)
              in highestLoop w connections (fold set_add addNodes' returnNodes) checkedNodes'))"
  by pat_completeness auto

lemma highest_checked_mono:
  "getHighestNode_highestLoop_dom (Inl (w, n, i, checked)) \<Longrightarrow>
     set checked \<subseteq> set (snd (getHighestNode w n i checked))"
  "getHighestNode_highestLoop_dom (Inr (w, cs, ret, checked)) \<Longrightarrow>
     set checked \<subseteq> set (snd (highestLoop w cs ret checked))"
proof (induction w n i checked and w cs ret checked rule: getHighestNode_highestLoop.pinduct)
  case (1 w n i checked)
  then show ?case by (auto simp: getHighestNode.psimps Let_def split: option.splits)
next
  case (2 w ret checked)
  then show ?case by (simp add: highestLoop.psimps)
next
  case (3 w c cs ret checked)
  show ?case
  proof (cases "con_node c \<in> set checked \<or> obj_get (wf_nodes w) (con_node c) = None")
    case True
    with 3(1-3) show ?thesis by (auto simp: highestLoop.psimps)
  next
    case False
    then obtain node where node: "con_node c \<notin> set checked" "obj_get (wf_nodes w) (con_node c) = Some node" by auto
    obtain add checked' where r: "getHighestNode w (con_node c) None checked = (add, checked')" by fastforce
    from 3(4) [OF node] 3(5) [OF node r [symmetric] refl] show ?thesis
      using node r by (simp add: highestLoop.psimps(2) [OF 3(1)] Let_def)
  qed
qed

termination getHighestNode
proof (relation "measures
    [\<lambda>x. case x of Inl (w, n, i, checked) \<Rightarrow> card (set (keys_of (wf_connectionsByDestinationNode w)) - set checked)
        | Inr (w, cs, ret, checked) \<Rightarrow> card (set (keys_of (wf_connectionsByDestinationNode w)) - set checked),
     \<lambda>x. case x of Inl _ \<Rightarrow> 0 | Inr (w, cs, ret, checked) \<Rightarrow> Suc (length cs)]", goal_cases)
  case 1
  then show ?case by simp
next
  case (2 w n i checked)
  let ?K = "set (keys_of (wf_connectionsByDestinationNode w))"
  have "n \<in> ?K" using 2 by (auto dest!: map_of_SomeD intro: rev_image_eqI)
  with 2 have "?K - set (checked @ [n]) \<subset> ?K - set checked" by auto
  then have "card (?K - set (checked @ [n])) < card (?K - set checked)" by (intro psubset_card_mono) simp_all
  then show ?case by (simp del: set_map)
next
  case (6 w c cs ret checked node add checked')
  from highest_checked_mono(1) [OF 6(5)] 6(3) have "set checked \<subseteq> set checked'" by (metis snd_conv)
  then have "card (set (keys_of (wf_connectionsByDestinationNode w)) - set checked')
      \<le> card (set (keys_of (wf_connectionsByDestinationNode w)) - set checked)" by (intro card_mono) auto
  then show ?case by (auto simp del: set_map)
qed simp_all

declare getHighestNode.simps [simp del] highestLoop.simps [simp del]

section \<open>Breadth-first search\<close>

record IConnectedNode =
  cn_name :: string
  cn_indicies :: "nat list"
  cn_depth :: nat

definition main_conns :: "IConnections \<Rightarrow> string \<Rightarrow> IConnection list" where
  "main_conns connections name =
     concat (map or_empty (or_empty (obj_get (or_empty (obj_get connections name)) Main)))"

text \<open>
  One element of \<^verbatim>\<open>toAdd\<close>. The objects in \<^verbatim>\<open>returnConns\<close> are those in \<^verbatim>\<open>visited\<close>, so the
  model keeps only their names there and reads them back at the end.
\<close>

type_synonym bfs_state = "(string \<times> IConnectedNode) list \<times> string list \<times> IConnectedNode list"

definition bfsVisit :: "IConnections \<Rightarrow> string \<Rightarrow> nat \<Rightarrow> IConnectedNode \<Rightarrow> bfs_state \<Rightarrow> bfs_state" where
  "bfsVisit connections sourceNode depth current st =
     (case st of (visited, returnConns, queue) \<Rightarrow>
       (case obj_get visited (cn_name current) of
          Some v \<Rightarrow>
            (obj_set (cn_name current) (v\<lparr>cn_indicies := set_of (cn_indicies v @ cn_indicies current)\<rparr>) visited,
             returnConns, queue)
        | None \<Rightarrow>
            (obj_set (cn_name current) current visited,
             if cn_name current \<noteq> sourceNode then returnConns @ [cn_name current] else returnConns,
             queue @ map (\<lambda>c. \<lparr>cn_name = con_node c, cn_indicies = [con_index c], cn_depth = depth\<rparr>)
               (main_conns connections (cn_name current)))))"

definition target_names :: "IConnections \<Rightarrow> string set" where
  "target_names conns = (\<Union>n. con_node ` set (main_conns conns n))"

lemma target_namesI: "c \<in> set (main_conns conns n) \<Longrightarrow> con_node c \<in> target_names conns"
  by (auto simp: target_names_def)

lemma bfsVisit_keys:
  assumes "fold (bfsVisit conns src d) cs (visited, ret, q) = (visited', ret', q')"
  shows "set (keys_of visited') = set (keys_of visited) \<union> cn_name ` set cs"
    and "cn_name ` set q' \<subseteq> cn_name ` set q \<union> target_names conns"
    and "cn_name ` set cs \<subseteq> set (keys_of visited) \<Longrightarrow> q' = q"
proof -
  have "set (keys_of visited') = set (keys_of visited) \<union> cn_name ` set cs \<and>
      cn_name ` set q' \<subseteq> cn_name ` set q \<union> target_names conns \<and>
      (cn_name ` set cs \<subseteq> set (keys_of visited) \<longrightarrow> q' = q)"
    using assms
  proof (induction cs arbitrary: visited ret q)
    case Nil
    then show ?case by simp
  next
    case (Cons c cs)
    obtain v1 r1 q1 where st: "bfsVisit conns src d c (visited, ret, q) = (v1, r1, q1)" by (metis prod_cases3)
    have k: "cn_name c \<in> set (keys_of visited) \<longleftrightarrow> obj_get visited (cn_name c) \<noteq> None"
      by (simp add: map_of_eq_None_iff)
    have a: "set (keys_of v1) = insert (cn_name c) (set (keys_of visited))"
      using st by (auto simp: bfsVisit_def js_obj.set_keys_put simp del: set_map split: option.splits)
    have b: "cn_name ` set q1 \<subseteq> cn_name ` set q \<union> target_names conns"
    proof -
      have "con_node ` set (main_conns conns (cn_name c)) \<subseteq> target_names conns" by (auto simp: target_names_def)
      then have "cn_name ` set (q @ map (\<lambda>c. \<lparr>cn_name = con_node c, cn_indicies = [con_index c], cn_depth = d\<rparr>)
          (main_conns conns (cn_name c))) \<subseteq> cn_name ` set q \<union> target_names conns"
        by (simp add: image_Un image_image) blast
      with st show ?thesis by (cases "obj_get visited (cn_name c)") (simp_all add: bfsVisit_def)
    qed
    have q: "cn_name c \<in> set (keys_of visited) \<longrightarrow> q1 = q"
      using st unfolding k by (auto simp: bfsVisit_def split: option.splits)
    from Cons.prems st have "fold (bfsVisit conns src d) cs (v1, r1, q1) = (visited', ret', q')" by simp
    note IH = Cons.IH [OF this]
    have "set (keys_of visited') = set (keys_of visited) \<union> cn_name ` set (c # cs)"
      using IH a by (simp del: set_map) 
    moreover have "cn_name ` set q' \<subseteq> cn_name ` set q \<union> target_names conns"
      using IH b by (simp only: subset_iff Un_iff) blast
    moreover have "q' = q" if "cn_name ` set (c # cs) \<subseteq> set (keys_of visited)"
    proof -
      have "q1 = q" using q that by (simp del: set_map)
      moreover have "cn_name ` set cs \<subseteq> set (keys_of v1)" using that unfolding a by (simp del: set_map) blast
      ultimately show ?thesis using IH by blast
    qed
    ultimately show ?case by blast
  qed
  then show "set (keys_of visited') = set (keys_of visited) \<union> cn_name ` set cs"
    and "cn_name ` set q' \<subseteq> cn_name ` set q \<union> target_names conns"
    and "cn_name ` set cs \<subseteq> set (keys_of visited) \<Longrightarrow> q' = q" by blast+
qed

lemma finite_targets: "finite (target_names conns)"
proof (rule finite_subset)
  show "target_names conns \<subseteq> con_node ` (\<Union>n \<in> set (keys_of conns). set (main_conns conns n))"
  proof
    fix x
    assume "x \<in> target_names conns"
    then obtain n c where n: "c \<in> set (main_conns conns n)" "x = con_node c" by (auto simp: target_names_def)
    then have "obj_get conns n \<noteq> None" by (auto simp: main_conns_def split: option.splits)
    then have "n \<in> set (keys_of conns)" by (simp add: map_of_eq_None_iff)
    with n show "x \<in> con_node ` (\<Union>n \<in> set (keys_of conns). set (main_conns conns n))" by blast
  qed
qed simp

function bfsLoop ::
  "IConnections \<Rightarrow> string \<Rightarrow> int \<Rightarrow> IConnectedNode list \<Rightarrow> (string \<times> IConnectedNode) list
     \<Rightarrow> string list \<Rightarrow> nat \<Rightarrow> IConnectedNode list" where
  "bfsLoop connections sourceNode maxDepth queue visited returnConns depth =
     (if queue = [] \<or> maxDepth \<noteq> - 1 \<and> int depth > maxDepth
      then List.map_filter (obj_get visited) returnConns
      else case fold (bfsVisit connections sourceNode (depth + 1)) queue (visited, returnConns, []) of
        (visited', returnConns', queue') \<Rightarrow>
          bfsLoop connections sourceNode maxDepth queue' visited' returnConns' (depth + 1))"
  by pat_completeness auto

text \<open>
  Termination: a round visits a new name, or leaves the queue empty.
\<close>

termination bfsLoop
proof (relation "measure (\<lambda>(conns, src, m, queue, visited, ret, d).
    2 * card ((target_names conns \<union> cn_name ` set queue) - set (keys_of visited))
    + (if queue = [] then 0 else 1))", goal_cases)
  case 1
  then show ?case by simp
next
  case (2 conns src m queue visited ret d visited' rq ret' queue')
  let ?T = "target_names conns"
  let ?A = "(?T \<union> cn_name ` set queue) - set (keys_of visited)"
  let ?B = "(?T \<union> cn_name ` set queue') - set (keys_of visited')"
  have "fold (bfsVisit conns src (d + 1)) queue (visited, ret, []) = (visited', ret', queue')"
    using 2(2,3) by simp
  note k = bfsVisit_keys [OF this]
  have fin: "finite ?A" using finite_targets by simp
  have sub: "?B \<subseteq> ?A - cn_name ` set queue" using k(1,2) by auto
  show ?case
  proof (cases "cn_name ` set queue \<subseteq> set (keys_of visited)")
    case True
    with k(3) have "queue' = []" by blast
    moreover have "card ?B \<le> card ?A" using sub fin by (intro card_mono) auto
    ultimately show ?thesis using 2(1) by (simp del: set_map)
  next
    case False
    then obtain n where n: "n \<in> cn_name ` set queue" "n \<in> ?A" by blast
    then have "n \<notin> ?B" using sub by blast
    with n(2) sub have "?B \<subset> ?A" by (metis Diff_subset psubsetI subset_trans)
    then have "card ?B < card ?A" using fin by (intro psubset_card_mono)
    then show ?thesis using 2(1) by (cases "queue' = []") (simp_all del: set_map)
  qed
qed

declare bfsLoop.simps [simp del]

definition searchNodesBFS :: "IConnections \<Rightarrow> string \<Rightarrow> int \<Rightarrow> IConnectedNode list" where
  "searchNodesBFS connections sourceNode maxDepth =
     bfsLoop connections sourceNode maxDepth
       [\<lparr>cn_name = sourceNode, cn_indicies = [], cn_depth = 0\<rparr>] [] [] 0"

definition getParentNodesByDepth :: "Workflow \<Rightarrow> string \<Rightarrow> int \<Rightarrow> IConnectedNode list" where
  "getParentNodesByDepth w nodeName maxDepth =
     searchNodesBFS (wf_connectionsByDestinationNode w) nodeName maxDepth"

section \<open>How a node is connected with a parent\<close>

record INodeConnection =
  nc_sourceIndex :: nat
  nc_destinationIndex :: nat

text \<open>The two inner loops over the connections of one node: the connection to the parent, or the
  extended queue.\<close>

fun scanConnections ::
  "string \<Rightarrow> string list \<Rightarrow> (nat \<times> IConnection) list \<Rightarrow> string list \<Rightarrow> INodeConnection + string list" where
  "scanConnections parentNodeName visitedNodes [] queue = Inr queue"
| "scanConnections parentNodeName visitedNodes ((destinationIndex, connection) # rest) queue =
     (if parentNodeName = con_node connection
      then Inl \<lparr>nc_sourceIndex = con_index connection, nc_destinationIndex = destinationIndex\<rparr>
      else scanConnections parentNodeName visitedNodes rest
             (if con_node connection \<in> set visitedNodes then queue else queue @ [con_node connection]))"

definition indexed_conns :: "IConnections \<Rightarrow> string \<Rightarrow> string \<Rightarrow> (nat \<times> IConnection) list" where
  "indexed_conns conns name type =
     concat (map (\<lambda>cs. enumerate 0 (or_empty cs)) (or_empty (obj_get (or_empty (obj_get conns name)) type)))"

function connectionIndexLoop ::
  "IConnections \<Rightarrow> string \<Rightarrow> string \<Rightarrow> string list \<Rightarrow> string list \<Rightarrow> INodeConnection option" where
  "connectionIndexLoop conns parentNodeName type visitedNodes [] = None"
| "connectionIndexLoop conns parentNodeName type visitedNodes (currentNodeName # queue) =
     (if currentNodeName \<in> set visitedNodes
      then connectionIndexLoop conns parentNodeName type visitedNodes queue
      else case scanConnections parentNodeName (set_add currentNodeName visitedNodes)
                  (indexed_conns conns currentNodeName type) queue of
        Inl found \<Rightarrow> Some found
      | Inr queue' \<Rightarrow> connectionIndexLoop conns parentNodeName type (set_add currentNodeName visitedNodes) queue')"
  by pat_completeness auto

lemma indexed_conns_key: "indexed_conns conns n type \<noteq> [] \<Longrightarrow> n \<in> set (keys_of conns)"
proof -
  assume "indexed_conns conns n type \<noteq> []"
  then have "obj_get conns n \<noteq> None" by (cases "obj_get conns n") (simp_all add: indexed_conns_def)
  then show ?thesis by (simp add: map_of_eq_None_iff)
qed

termination connectionIndexLoop
proof (relation "measures
    [\<lambda>(conns, p, t, visited, queue). card (set (keys_of conns) - set visited),
     \<lambda>(conns, p, t, visited, queue). length queue]", goal_cases)
  case (3 conns p t visited n queue queue')
  let ?K = "set (keys_of conns)"
  show ?case
  proof (cases "indexed_conns conns n t = []")
    case True
    then have "queue' = queue" using 3(2) by simp
    moreover have "card (?K - set (set_add n visited)) \<le> card (?K - set visited)" by (intro card_mono) auto
    ultimately show ?thesis by (auto simp del: set_map)
  next
    case False
    have "?K - set (set_add n visited) \<subset> ?K - set visited" using indexed_conns_key [OF False] 3(1) by auto
    then have "card (?K - set (set_add n visited)) < card (?K - set visited)" by (intro psubset_card_mono) simp_all
    then show ?thesis by (simp del: set_map)
  qed
qed simp_all

declare connectionIndexLoop.simps(2) [simp del]

definition getNodeConnectionIndexes ::
  "Workflow \<Rightarrow> string \<Rightarrow> string \<Rightarrow> string \<Rightarrow> INodeConnection option" where
  "getNodeConnectionIndexes w nodeName parentNodeName type =
     (case getNode w parentNodeName of
        None \<Rightarrow> None
      | Some _ \<Rightarrow> connectionIndexLoop (wf_connectionsByDestinationNode w) parentNodeName type [] [nodeName])"

section \<open>The start node\<close>

definition STARTING_NODE_TYPES :: "string list" where
  "STARTING_NODE_TYPES = [''n8n-nodes-base.manualTrigger'', ''n8n-nodes-base.executeWorkflowTrigger'',
     ''n8n-nodes-base.errorTrigger'', ''n8n-nodes-base.evaluationTrigger'', ''n8n-nodes-base.formTrigger'']"

text \<open>\<^verbatim>\<open>Array.prototype.indexOf\<close>: \<open>- 1\<close> if the element is not there.\<close>

fun index_of :: "'a \<Rightarrow> 'a list \<Rightarrow> int" where
  "index_of x [] = - 1"
| "index_of x (y # ys) = (if x = y then 0 else let i = index_of x ys in if i = - 1 then - 1 else i + 1)"

fun firstTrigger :: "NodeTypes \<Rightarrow> Workflow \<Rightarrow> string list \<Rightarrow> INode option res" where
  "firstTrigger nodeTypes w [] = Inr None"
| "firstTrigger nodeTypes w (nodeName # nodeNames) =
     (case obj_get (wf_nodes w) nodeName of
        None \<Rightarrow> Inl JsTypeError
      | Some node \<Rightarrow>
         (case nodeTypes (node_type node) (node_typeVersion node) of
            None \<Rightarrow> Inl JsTypeError
          | Some nodeType \<Rightarrow>
             if nt_name nodeType = ''@n8n/n8n-nodes-langchain.manualChatTrigger''
             then firstTrigger nodeTypes w nodeNames
             else if nt_trigger nodeType \<or> nt_poll nodeType then
               if node_disabled node = Some True then firstTrigger nodeTypes w nodeNames
               else Inr (Some node)
             else firstTrigger nodeTypes w nodeNames))"

fun firstStartingNode :: "Workflow \<Rightarrow> string list \<Rightarrow> INode option res" where
  "firstStartingNode w [] = Inr None"
| "firstStartingNode w (nodeName # nodeNames) =
     (case obj_get (wf_nodes w) nodeName of
        None \<Rightarrow> Inl JsTypeError
      | Some node \<Rightarrow>
          if node_type node \<in> set STARTING_NODE_TYPES \<and> node_disabled node \<noteq> Some True then Inr (Some node)
          else firstStartingNode w nodeNames)"

definition sortedNodeNames :: "Workflow \<Rightarrow> string list" where
  "sortedNodeNames w = map node_name
     (js_sort (\<lambda>a b. index_of (node_type a) STARTING_NODE_TYPES - index_of (node_type b) STARTING_NODE_TYPES)
       (values_of (wf_nodes w)))"

definition getStartNodeOf :: "NodeTypes \<Rightarrow> Workflow \<Rightarrow> string list \<Rightarrow> INode option res" where
  "getStartNodeOf nodeTypes w nodeNames =
     (case (case nodeNames of
              [single] \<Rightarrow> (case obj_get (wf_nodes w) single of
                             Some node \<Rightarrow> if is_disabled node then None else Some node
                           | None \<Rightarrow> None)
            | _ \<Rightarrow> None) of
        Some node \<Rightarrow> Inr (Some node)
      | None \<Rightarrow>
          bind_res (firstTrigger nodeTypes w nodeNames) (\<lambda>found.
            case found of Some node \<Rightarrow> Inr (Some node) | None \<Rightarrow> firstStartingNode w (sortedNodeNames w)))"

definition getStartNode :: "NodeTypes \<Rightarrow> Workflow \<Rightarrow> string option \<Rightarrow> INode option res" where
  "getStartNode nodeTypes w destinationNode =
     (case destinationNode of
        Some destination \<Rightarrow>
          if destination \<noteq> [] then
            let found = fst (getHighestNode w destination None []);
                nodeNames = (if found = [] then [destination] else found)
            in bind_res (getStartNodeOf nodeTypes w nodeNames) (\<lambda>node.
                 case node of Some n \<Rightarrow> Inr (Some n) | None \<Rightarrow> Inr (obj_get (wf_nodes w) (hd nodeNames)))
          else getStartNodeOf nodeTypes w (keys_of (wf_nodes w))
      | None \<Rightarrow> getStartNodeOf nodeTypes w (keys_of (wf_nodes w)))"

end
