(* ===== verification/Graph_Conversion.thy ===== *)
theory Graph_Conversion
  imports Directed_Graph Workflow_Graph
begin

text \<open>
  The conversions between \<^verbatim>\<open>Workflow\<close> and \<^verbatim>\<open>DirectedGraph\<close> of \<^verbatim>\<open>directed-graph.ts\<close>, and the
  functions of \<^verbatim>\<open>find-trigger-for-partial-execution.ts\<close>, which use both. A graph whose nodes have
  outputs of one connection type each survives the round trip through \<^verbatim>\<open>IConnections\<close>; on a node
  with two output types \<^verbatim>\<open>toIConnections\<close> throws.
\<close>

section \<open>The conversions\<close>

definition addWorkflowConnection ::
  "(string \<Rightarrow> INode option) \<Rightarrow> INode \<Rightarrow> string \<Rightarrow> nat \<Rightarrow> IConnection \<Rightarrow> DirectedGraph \<Rightarrow> DirectedGraph res" where
  "addWorkflowConnection getNodeFn from outputType outputIndex conn graph =
     (case getNodeFn (con_node conn) of
        None \<Rightarrow> Inl AssertionError
      | Some to \<Rightarrow> addConnection \<lparr>ci_from = from, ci_to = to, ci_type = Some outputType,
          ci_outputIndex = Some outputIndex, ci_inputIndex = Some (con_index conn)\<rparr> graph)"

definition addWorkflowConnections ::
  "(string \<Rightarrow> INode option) \<Rightarrow> IConnections \<Rightarrow> DirectedGraph \<Rightarrow> DirectedGraph res" where
  "addWorkflowConnections getNodeFn connections graph =
     fold_res (\<lambda>(fromNodeName, iConnection) graph.
       case getNodeFn fromNodeName of
         None \<Rightarrow> Inl AssertionError
       | Some from \<Rightarrow>
           fold_res (\<lambda>(outputType, outputs).
             fold_res (\<lambda>(outputIndex, conns).
               fold_res (addWorkflowConnection getNodeFn from outputType outputIndex) (or_empty conns))
             (enumerate 0 outputs))
           iConnection graph)
     connections graph"

definition fromWorkflow :: "Workflow \<Rightarrow> DirectedGraph res" where
  "fromWorkflow w =
     addWorkflowConnections (getNode w) (wf_connectionsBySourceNode w)
       (addNodes (values_of (wf_nodes w)) empty_graph)"

definition fromNodesAndConnections :: "INode list \<Rightarrow> IConnections \<Rightarrow> DirectedGraph res" where
  "fromNodesAndConnections nodes connections =
     (let nodeMap = fold (\<lambda>node. map_set (node_name node) node) nodes []
      in addWorkflowConnections (map_get nodeMap) connections (addNodes nodes empty_graph))"

definition addIConnection :: "GraphConnection \<Rightarrow> IConnections \<Rightarrow> IConnections res" where
  "addIConnection connection result =
     (let fromName = node_name (gc_from connection); type = gc_type connection;
          resultConnection = (case obj_get result fromName of None \<Rightarrow> [(type, [])] | Some r \<Rightarrow> r)
      in case obj_get resultConnection type of
           None \<Rightarrow> Inl JsTypeError
         | Some outputs \<Rightarrow>
             let conns = or_empty (arr_get outputs (gc_outputIndex connection));
                 conns' = conns @ [\<lparr>con_node = node_name (gc_to connection), con_type = type,
                                    con_index = gc_inputIndex connection\<rparr>]
             in Inr (obj_set fromName
                  (obj_set type (arr_set (gc_outputIndex connection) (Some conns') outputs) resultConnection) result))"

definition toIConnections :: "DirectedGraph \<Rightarrow> IConnections res" where
  "toIConnections graph = fold_res addIConnection (values_of (dg_connections graph)) []"

definition toWorkflow ::
  "NodeTypes \<Rightarrow> GetNodeParameters \<Rightarrow> IPinData option \<Rightarrow> string option \<Rightarrow> DirectedGraph \<Rightarrow> Workflow res" where
  "toWorkflow nodeTypes getNodeParameters pinData executionOrder graph =
     bind_res (toIConnections graph) (\<lambda>connections.
       Inr (new_workflow nodeTypes getNodeParameters (values_of (dg_nodes graph)) connections pinData executionOrder))"

section \<open>The trigger of a partial execution\<close>

definition isTriggerNode :: "INodeType \<Rightarrow> bool" where
  "isTriggerNode nodeType \<longleftrightarrow> ''trigger'' \<in> set (nt_group nodeType)"

text \<open>\<^verbatim>\<open>nodeType.description\<close> of an unknown type throws.\<close>

definition is_trigger :: "NodeTypes \<Rightarrow> INode \<Rightarrow> bool res" where
  "is_trigger nodeTypes node =
     (case nodeTypes (node_type node) (node_typeVersion node) of
        None \<Rightarrow> Inl JsTypeError
      | Some nodeType \<Rightarrow> Inr (isTriggerNode nodeType))"

fun filter_res :: "('a \<Rightarrow> bool res) \<Rightarrow> 'a list \<Rightarrow> 'a list res" where
  "filter_res p [] = Inr []"
| "filter_res p (x # xs) =
     bind_res (p x) (\<lambda>b. bind_res (filter_res p xs) (\<lambda>ys. Inr (if b then x # ys else ys)))"

definition findAllParentTriggers :: "NodeTypes \<Rightarrow> Workflow \<Rightarrow> string \<Rightarrow> INode list res" where
  "findAllParentTriggers nodeTypes w destinationNodeName =
     bind_res (map_res (\<lambda>name. case getNode w name of None \<Rightarrow> Inl AssertionError | Some node \<Rightarrow> Inr node)
                (workflow_getParentNodes w destinationNodeName Main (- 1)))
       (filter_res (is_trigger nodeTypes))"

definition ends_with :: "string \<Rightarrow> string \<Rightarrow> bool" where
  "ends_with s suf \<longleftrightarrow> drop (length s - length suf) s = suf"

definition anyReachableRootHasRunData :: "DirectedGraph \<Rightarrow> string \<Rightarrow> IRunData \<Rightarrow> bool res" where
  "anyReachableRootHasRunData graph destinationNodeName runData =
     (case map_get (getNodes graph) destinationNodeName of
        None \<Rightarrow> Inr False
      | Some destinationNode \<Rightarrow>
          bind_res (getParentConnections graph destinationNode) (\<lambda>parentConnections.
            let parentNodes = set_of (map gc_from parentConnections)
            in bind_res (filter_res (\<lambda>parentNode.
                   bind_res (getDirectParentConnections graph parentNode) (\<lambda>cs.
                     Inr (\<not> list_ex (\<lambda>c. gc_type c = Main) cs))) parentNodes)
                 (\<lambda>rootNodes. Inr (list_ex (\<lambda>rootNode. obj_get runData (node_name rootNode) \<noteq> None) rootNodes))))"

definition findTriggerForPartialExecution ::
  "NodeTypes \<Rightarrow> Workflow \<Rightarrow> string \<Rightarrow> IRunData \<Rightarrow> INode option res" where
  "findTriggerForPartialExecution nodeTypes w destinationNodeName runData =
     (case getNode w destinationNodeName of
        None \<Rightarrow> Inr None
      | Some destinationNode \<Rightarrow>
          bind_res (is_trigger nodeTypes destinationNode) (\<lambda>trigger.
            if trigger \<and> \<not> is_disabled destinationNode then Inr (Some destinationNode)
            else bind_res (findAllParentTriggers nodeTypes w destinationNodeName) (\<lambda>triggers.
              let parentTriggers = filter (\<lambda>trigger. \<not> is_disabled trigger) triggers in
              case find (\<lambda>trigger. obj_get runData (node_name trigger) \<noteq> None) parentTriggers of
                Some trigger \<Rightarrow> Inr (Some trigger)
              | None \<Rightarrow>
                  let pinnedTriggers = js_sort (\<lambda>a b. if ends_with (node_type a) ''webhook'' then - 1
                                                  else if ends_with (node_type b) ''webhook'' then 1 else 0)
                        (filter (\<lambda>trigger. getPinDataOfNode w (node_name trigger) \<noteq> None) parentTriggers)
                  in if length pinnedTriggers > 0 then Inr (Some (hd pinnedTriggers))
                     else let webhookTriggers = filter (\<lambda>trigger. ends_with (node_type trigger) ''webhook'') parentTriggers
                          in Inr (if length webhookTriggers > 0 then Some (hd webhookTriggers)
                                  else arr_at parentTriggers 0))))"

section \<open>From a graph to connections\<close>

definition conn_view :: "GraphConnection \<Rightarrow> IConnection" where
  "conn_view c = \<lparr>con_node = node_name (gc_to c), con_type = gc_type c, con_index = gc_inputIndex c\<rparr>"

abbreviation from_name :: "GraphConnection \<Rightarrow> string" where
  "from_name c \<equiv> node_name (gc_from c)"

text \<open>What the object holds after the connections \<open>ps\<close>: one output type per source name.\<close>

definition conv_inv :: "GraphConnection list \<Rightarrow> IConnections \<Rightarrow> bool" where
  "conv_inv ps m \<longleftrightarrow> wf_conns m
     \<and> (\<forall>n r. map_get m n = Some r \<longrightarrow> (\<exists>x \<in> set ps. from_name x = n) \<and> (\<exists>t outs. r = [(t, outs)]))
     \<and> (\<forall>x \<in> set ps. \<exists>outs. map_get m (from_name x) = Some [(gc_type x, outs)])
     \<and> (\<forall>n t i. set (conns_at m n t i)
          = conn_view ` {x \<in> set ps. from_name x = n \<and> gc_type x = t \<and> gc_outputIndex x = i})"

lemma conv_inv_Nil: "conv_inv [] []"
  by (simp add: conv_inv_def wf_conns_def conns_at_def)

lemma conv_inv_put:
  assumes inv: "conv_inv ps m" and outs: "map_get m (from_name x) = None \<and> outs = [] \<or> map_get m (from_name x) = Some [(gc_type x, outs)]"
  shows "conv_inv (ps @ [x]) (obj_set (from_name x)
     [(gc_type x, arr_set (gc_outputIndex x) (Some (or_empty (arr_get outs (gc_outputIndex x)) @ [conn_view x])) outs)] m)"
    (is "conv_inv _ ?m")
proof -
  let ?outs = "arr_set (gc_outputIndex x) (Some (or_empty (arr_get outs (gc_outputIndex x)) @ [conn_view x])) outs"
  have get: "map_get ?m = (map_get m)(from_name x \<mapsto> [(gc_type x, ?outs)])" by (simp add: js_obj.get_put)
  have dm: "distinct (keys_of m)" using inv by (simp add: conv_inv_def wf_conns_def)
  have "wf_conns ?m"
    using inv js_obj.distinct_put [OF dm] js_obj.values_put [OF dm]
    by (force simp: conv_inv_def wf_conns_def)
  moreover have "gc_type y = gc_type x" if "y \<in> set ps" "from_name y = from_name x" for y
    using that inv outs by (auto simp: conv_inv_def)
  moreover have "set (conns_at ?m n t i) = (if n = from_name x \<and> t = gc_type x \<and> i = gc_outputIndex x
      then {conn_view x} else {}) \<union> set (conns_at m n t i)" for n t i
    using outs by (auto simp: conns_at_def get split: option.splits)
  ultimately show ?thesis
    using inv by (fastforce simp: conv_inv_def get)
qed

lemma addIConnection_step:
  assumes "conv_inv ps m"
  shows "if \<exists>y \<in> set ps. from_name y = from_name x \<and> gc_type y \<noteq> gc_type x
    then addIConnection x m = Inl JsTypeError
    else \<exists>m'. addIConnection x m = Inr m' \<and> conv_inv (ps @ [x]) m'"
proof (cases "map_get m (from_name x)")
  case None
  then have "\<not> (\<exists>y \<in> set ps. from_name y = from_name x)" using assms by (auto simp: conv_inv_def)
  with None conv_inv_put [OF assms, of x "[]"] show ?thesis
    by (auto simp: addIConnection_def conn_view_def Let_def)
next
  case (Some r)
  then obtain y outs where y: "y \<in> set ps" "from_name y = from_name x" "r = [(gc_type y, outs)]"
    using assms by (fastforce simp: conv_inv_def)
  have same: "gc_type z = gc_type y" if "z \<in> set ps" "from_name z = from_name x" for z
    using that assms Some y(3) by (auto simp: conv_inv_def)
  show ?thesis
  proof (cases "gc_type y = gc_type x")
    case True
    with Some y same conv_inv_put [OF assms, of x outs] show ?thesis
      by (auto simp: addIConnection_def conn_view_def Let_def)
  next
    case False
    with Some y show ?thesis by (auto simp: addIConnection_def)
  qed
qed

definition single_typed :: "GraphConnection list \<Rightarrow> bool" where
  "single_typed cs \<longleftrightarrow> (\<forall>c \<in> set cs. \<forall>d \<in> set cs. from_name c = from_name d \<longrightarrow> gc_type c = gc_type d)"

lemma single_typed_snoc:
  "single_typed (ps @ [x]) \<longleftrightarrow> single_typed ps \<and> (\<forall>y \<in> set ps. from_name y = from_name x \<longrightarrow> gc_type y = gc_type x)"
proof -
  have s: "set (ps @ [x]) = insert x (set ps)" by simp
  show ?thesis unfolding single_typed_def s by (simp only: ball_simps simp_thms) (blast dest: sym intro: sym)
qed

lemma single_typed_Nil: "single_typed []"
  by (simp add: single_typed_def)

lemma single_typed_prefix: "single_typed (xs @ ys) \<Longrightarrow> single_typed xs"
  unfolding single_typed_def set_append by blast

lemma fold_addIConnection:
  assumes "conv_inv ps m" and "single_typed ps"
  shows "if single_typed (ps @ cs) then \<exists>m'. fold_res addIConnection cs m = Inr m' \<and> conv_inv (ps @ cs) m'
    else fold_res addIConnection cs m = Inl JsTypeError"
  using assms
proof (induction cs arbitrary: ps m)
  case Nil
  then show ?case by simp
next
  case (Cons x cs)
  show ?case
  proof (cases "single_typed (ps @ [x])")
    case True
    then have "\<not> (\<exists>y \<in> set ps. from_name y = from_name x \<and> gc_type y \<noteq> gc_type x)"
      by (simp only: single_typed_snoc) blast
    with addIConnection_step [OF Cons.prems(1), of x] obtain m' where
      "addIConnection x m = Inr m'" "conv_inv (ps @ [x]) m'" by auto
    with Cons.IH [of "ps @ [x]" m'] True show ?thesis by (simp split: if_split_asm)
  next
    case False
    with Cons.prems(2) have "\<exists>y \<in> set ps. from_name y = from_name x \<and> gc_type y \<noteq> gc_type x"
      by (simp only: single_typed_snoc) blast
    with addIConnection_step [OF Cons.prems(1), of x] have "addIConnection x m = Inl JsTypeError" by simp
    moreover have "\<not> single_typed (ps @ x # cs)" using False single_typed_prefix [of "ps @ [x]" cs] by auto
    ultimately show ?thesis by simp
  qed
qed

section \<open>From connections to a graph\<close>

definition graph_conn :: "(string \<Rightarrow> INode) \<Rightarrow> string \<times> string \<times> nat \<times> IConnection \<Rightarrow> GraphConnection" where
  "graph_conn nd = (\<lambda>(s, t, i, c). \<lparr>gc_from = nd s, gc_to = nd (con_node c), gc_type = t,
     gc_outputIndex = i, gc_inputIndex = con_index c\<rparr>)"

lemma addWorkflowConnections_ok:
  assumes src: "\<And>s. s \<in> set (keys_of m) \<Longrightarrow> F s = Some (nd s) \<and> has_node_obj g (nd s)"
    and tgt: "\<And>s t i c. (s, t, i, c) \<in> set (flat_conns m) \<Longrightarrow> F (con_node c) = Some (nd (con_node c)) \<and> has_node_obj g (nd (con_node c))"
  shows "addWorkflowConnections F m g = Inr (fold set_connection (map (graph_conn nd) (flat_conns m)) g)"
proof -
  let ?f = "\<lambda>(s, t, i, c). addWorkflowConnection F (nd s) t i c"
  have "addWorkflowConnections F m g = fold_res (\<lambda>(s, bt). fold_res (\<lambda>(t, outs). fold_res (\<lambda>(i, conns).
      fold_res (addWorkflowConnection F (nd s) t i) (or_empty conns)) (enumerate 0 outs)) bt) m g"
    unfolding addWorkflowConnections_def by (intro fold_res_cong refl) (use src in \<open>force split: prod.split\<close>)
  also have "\<dots> = fold_res ?f (flat_conns m) g"
    by (simp add: flat_conns_def fold_res_concat fold_res_map split_def)
  also have "\<dots> = Inr (fold (\<lambda>x. set_connection (graph_conn nd x)) (flat_conns m) g)"
  proof (rule fold_res_pure_on [where P = "\<lambda>h. has_node_obj h = has_node_obj g", THEN conjunct1])
    fix x h assume x: "x \<in> set (flat_conns m)" and h: "has_node_obj h = has_node_obj g"
    obtain s t i c where x': "x = (s, t, i, c)" by (cases x) auto
    have "s \<in> set (keys_of m)" using x unfolding x' flat_conns_def by force
    with x h src tgt show "?f x h = Inr (set_connection (graph_conn nd x) h)
        \<and> has_node_obj (set_connection (graph_conn nd x) h) = has_node_obj g"
      by (simp add: x' addWorkflowConnection_def addConnection_def bind_assert_ok graph_conn_def fun_eq_iff)
  qed simp
  finally show ?thesis by (simp add: fold_map o_def)
qed

section \<open>The round trip\<close>

lemma setNodes_entries:
  fixes ns w
  assumes "inj_on node_name (set ns)"
  defines "N \<equiv> wf_nodes (setNodes ns w)"
  shows "map_get N k = Some n \<longleftrightarrow> n \<in> set ns \<and> node_name n = k" and "distinct (keys_of N)"
    and "\<And>e. e \<in> set N \<Longrightarrow> fst e = node_name (snd e)"
proof -
  have N: "N = fold (\<lambda>n. obj_set (node_name n) n) ns []" by (simp add: N_def setNodes_def)
  show get: "map_get N k = Some n \<longleftrightarrow> n \<in> set ns \<and> node_name n = k" for k n
    unfolding N by (subst js_obj.fold_put_get_inj [OF assms(1)]) auto
  show d: "distinct (keys_of N)" unfolding N by (rule js_obj.fold_put_distinct) simp
  show "fst e = node_name (snd e)" if "e \<in> set N" for e
    using get [of "fst e" "snd e"] map_of_is_SomeI [OF d, of "fst e" "snd e"] that by simp
qed

lemma wf_names_inj: "wf_graph g \<Longrightarrow> inj_on node_name (set (values_of (dg_nodes g)))"
  using wf_node_objs [of g] has_node_obj_name_inj [of g] by (auto simp: inj_on_def node_objs_def simp del: set_map)

lemma toIConnections_ok:
  assumes "single_typed (values_of (dg_connections g))"
  shows "\<exists>m. toIConnections g = Inr m \<and> conv_inv (values_of (dg_connections g)) m"
  using fold_addIConnection [OF conv_inv_Nil single_typed_Nil, of "values_of (dg_connections g)"] assms
  by (simp add: toIConnections_def)

lemma conv_inv_flat:
  assumes "conv_inv cs m"
  shows "set (flat_conns m) = (\<lambda>c. (from_name c, gc_type c, gc_outputIndex c, conn_view c)) ` set cs"
proof -
  have "(n, t, i, c) \<in> set (flat_conns m) \<longleftrightarrow> (n, t, i, c) \<in> (\<lambda>c. (from_name c, gc_type c, gc_outputIndex c, conn_view c)) ` set cs" for n t i c
    using assms unfolding conv_inv_def by (subst set_flat_conns) auto
  then show ?thesis by auto
qed

lemma conv_inv_keys:
  assumes "conv_inv cs m" and "s \<in> set (keys_of m)"
  obtains c where "c \<in> set cs" and "from_name c = s"
proof -
  from assms(2) obtain r where "map_get m s = Some r"
    by (cases "map_get m s") (auto simp: map_of_eq_None_iff)
  with assms(1) that show thesis unfolding conv_inv_def by blast
qed

text \<open>
  \<^verbatim>\<open>toIConnections\<close> returns exactly when no node has outgoing connections of two types; otherwise
  it throws a \<^verbatim>\<open>TypeError\<close>, since it creates the array of an output type only together with the
  entry of the node.
\<close>

lemma toIConnections_throws:
  "if single_typed (getConnections g None) then \<exists>m. toIConnections g = Inr m
   else toIConnections g = Inl JsTypeError"
  using fold_addIConnection [OF conv_inv_Nil single_typed_Nil, of "values_of (dg_connections g)"]
  by (auto simp: toIConnections_def getConnections_def split: if_splits)

text \<open>
  C32. The round trip of a graph through a workflow: for a well-formed graph without dashes in its
  names whose nodes have one output type each and carry their default parameters, \<^verbatim>\<open>toWorkflow\<close> followed by \<^verbatim>\<open>fromWorkflow\<close> returns a
  well-formed graph with the same nodes and the same connections.
\<close>

theorem toWorkflow_fromWorkflow:
  assumes "wf_graph g" and "plain_names g" and "single_typed (getConnections g None)"
    and defaults: "\<And>n. n \<in> node_objs g \<Longrightarrow> addDefaultValues nodeTypes getNodeParameters n = n"
  shows "\<exists>w h. toWorkflow nodeTypes getNodeParameters pinData order g = Inr w \<and> fromWorkflow w = Inr h \<and> wf_graph h
    \<and> node_objs h = node_objs g \<and> conn_objs h = conn_objs g"
proof -
  let ?cs = "values_of (dg_connections g)" and ?ns = "values_of (dg_nodes g)"
  have conns: "getConnections g None = ?cs" "set ?cs = conn_objs g" by (simp_all add: getConnections_def)
  obtain m where m: "toIConnections g = Inr m" "conv_inv ?cs m"
    using toIConnections_ok assms(3) unfolding conns by blast
  define w where "w = new_workflow nodeTypes getNodeParameters ?ns m pinData order"
  have ns: "map (addDefaultValues nodeTypes getNodeParameters) ?ns = ?ns"
    using defaults wf_node_objs [OF assms(1)] by (intro map_idI) (simp del: set_map)
  have w: "toWorkflow nodeTypes getNodeParameters pinData order g = Inr w" "wf_connectionsBySourceNode w = m"
    by (simp_all add: toWorkflow_def m(1) w_def new_workflow_def setSettings_def setPinData_def setConnections_def setNodes_def)
  have N: "wf_nodes w = wf_nodes (setNodes ?ns v)" for v
    by (simp add: w_def new_workflow_def ns setSettings_def setPinData_def setConnections_def setNodes_def del: map_map)
  note entries = setNodes_entries [OF wf_names_inj [OF assms(1)], where w = w, folded N]
  define g0 where "g0 = empty_graph\<lparr>dg_nodes := wf_nodes w\<rparr>"
  have g0: "addNodes (values_of (wf_nodes w)) empty_graph = g0"
    unfolding g0_def by (rule addNodes_entries [OF entries(2,3)])
  have obj: "has_node_obj g0 n \<longleftrightarrow> has_node_obj g n" for n
    using wf_node_objs [OF assms(1)] entries(1) [of "node_name n" n]
    by (auto simp: has_node_obj_def g0_def node_objs_def simp del: set_map)
  have wf0: "wf_graph g0" using entries(2,3) by (simp add: wf_graph_def g0_def empty_graph_def)
  define nd where "nd s = the (getNode w s)" for s
  have nd: "getNode w (node_name n) = Some (nd (node_name n)) \<and> nd (node_name n) = n" if "has_node_obj g n" for n
    using that obj [of n] by (simp add: nd_def getNode_def has_node_obj_def g0_def)
  have "addWorkflowConnections (getNode w) m g0 = Inr (fold set_connection (map (graph_conn nd) (flat_conns m)) g0)"
  proof (rule addWorkflowConnections_ok)
    fix s assume "s \<in> set (keys_of m)"
    then obtain c where "c \<in> conn_objs g" "from_name c = s" using conv_inv_keys [OF m(2)] conns(2) by metis
    then show "getNode w s = Some (nd s) \<and> has_node_obj g0 (nd s)" using wf_conn_nodes(1) [OF assms(1)] nd obj by auto
  next
    fix s t i c assume "(s, t, i, c) \<in> set (flat_conns m)"
    then obtain d where "d \<in> conn_objs g" "c = conn_view d" unfolding conv_inv_flat [OF m(2)] conns(2) by auto
    then show "getNode w (con_node c) = Some (nd (con_node c)) \<and> has_node_obj g0 (nd (con_node c))"
      using wf_conn_nodes(2) [OF assms(1)] nd obj by (auto simp: conn_view_def)
  qed
  moreover have conv: "set (map (graph_conn nd) (flat_conns m)) = conn_objs g"
  proof -
    have "graph_conn nd (from_name c, gc_type c, gc_outputIndex c, conn_view c) = c" if "c \<in> conn_objs g" for c
      using nd wf_conn_nodes [OF assms(1) that] by (simp add: graph_conn_def conn_view_def)
    then show ?thesis
      unfolding list.set_map [of "graph_conn nd"] conv_inv_flat [OF m(2)] conns(2) image_image by simp
  qed
  moreover have "inj_on makeKey (conn_objs g)"
    using assms(2) wf_conn_nodes [OF assms(1)] by (intro plain_names_inj [of g]) (auto simp: plain_names_def)
  moreover have "conn_objs g0 = {}" by (simp add: conn_objs_def g0_def empty_graph_def del: conn_objs_fold)
  ultimately have "fromWorkflow w = Inr (fold set_connection (map (graph_conn nd) (flat_conns m)) g0)"
    "conn_objs (fold set_connection (map (graph_conn nd) (flat_conns m)) g0) = conn_objs g"
    "wf_graph (fold set_connection (map (graph_conn nd) (flat_conns m)) g0)"
    "has_node_obj (fold set_connection (map (graph_conn nd) (flat_conns m)) g0) n = has_node_obj g n" for n
    using fold_set_connection [OF wf0, of "map (graph_conn nd) (flat_conns m)"] wf_conn_nodes [OF assms(1)] w(2) g0 obj
    by (simp_all add: fromWorkflow_def)
  with w(1) show ?thesis by (auto simp: node_objs_def)
qed

theorem toWorkflow_fromWorkflow_witness:
  "\<exists>w h. toWorkflow (\<lambda>_ _. None) (\<lambda>_ _. None) None None ex_graph = Inr w \<and> fromWorkflow w = Inr h \<and> conn_objs h = conn_objs ex_graph"
proof -
  have "plain_names ex_graph"
    unfolding plain_names_def wf_node_objs [OF ex_graph_wf]
    by (auto simp: conn_objs_def ex_graph_def graph_of_def ex_conn_def ex_node_def simp del: conn_objs_fold)
  moreover have "single_typed (getConnections ex_graph None)" by code_simp
  ultimately show ?thesis
    using toWorkflow_fromWorkflow [OF ex_graph_wf, of "\<lambda>_ _. None" "\<lambda>_ _. None" None None] by (auto simp: addDefaultValues_def)
qed

section \<open>The trigger\<close>

lemma filter_res_eq_Inr:
  "filter_res p xs = Inr ys \<longleftrightarrow> (\<forall>x \<in> set xs. \<exists>b. p x = Inr b) \<and> ys = filter (\<lambda>x. p x = Inr True) xs"
proof (induction xs arbitrary: ys)
  case Nil
  then show ?case by auto
next
  case (Cons x xs)
  show ?case
  proof (cases "p x")
    case (Inr b)
    with Cons show ?thesis by (cases b) (auto simp: bind_res_eq_Inr)
  qed simp
qed

text \<open>The enabled trigger nodes among the ancestors of the destination.\<close>

definition parent_triggers :: "NodeTypes \<Rightarrow> Workflow \<Rightarrow> string \<Rightarrow> INode set" where
  "parent_triggers nodeTypes w dest = {t. is_trigger nodeTypes t = Inr True \<and> \<not> is_disabled t
     \<and> (\<exists>name \<in> set (workflow_getParentNodes w dest Main (- 1)). getNode w name = Some t)}"

lemma findAllParentTriggers_enabled:
  assumes "findAllParentTriggers nodeTypes w dest = Inr ts"
  shows "set (filter (\<lambda>t. \<not> is_disabled t) ts) = parent_triggers nodeTypes w dest"
proof -
  have get: "(case getNode w x of None \<Rightarrow> Inl AssertionError | Some n \<Rightarrow> Inr n) = Inr y \<longleftrightarrow> getNode w x = Some y" for x y
    by (simp split: option.split)
  from assms obtain ns where
    ns: "list_all2 (\<lambda>name n. getNode w name = Some n) (workflow_getParentNodes w dest Main (- 1)) ns"
    and ts: "ts = filter (\<lambda>n. is_trigger nodeTypes n = Inr True) ns"
    by (auto simp: findAllParentTriggers_def bind_res_eq_Inr map_res_eq_Inr filter_res_eq_Inr get)
  have "n \<in> set ns \<longleftrightarrow> (\<exists>name \<in> set (workflow_getParentNodes w dest Main (- 1)). getNode w name = Some n)" for n
    using ns by induction auto
  then show ?thesis by (auto simp: ts parent_triggers_def)
qed

lemma findTriggerForPartialExecution_spec:
  assumes "findTriggerForPartialExecution nodeTypes w dest rd = Inr r" and "getNode w dest = Some d"
  shows "if is_trigger nodeTypes d = Inr True \<and> \<not> is_disabled d then r = Some d
    else (case r of
        None \<Rightarrow> parent_triggers nodeTypes w dest = {}
      | Some t \<Rightarrow> t \<in> parent_triggers nodeTypes w dest
          \<and> (obj_get rd (node_name t) = None \<longrightarrow>
              (\<forall>u \<in> parent_triggers nodeTypes w dest. obj_get rd (node_name u) = None)
              \<and> (getPinDataOfNode w (node_name t) = None \<longrightarrow>
                   (\<forall>u \<in> parent_triggers nodeTypes w dest. getPinDataOfNode w (node_name u) = None))))"
proof (cases "is_trigger nodeTypes d = Inr True \<and> \<not> is_disabled d")
  case True
  with assms show ?thesis by (simp add: findTriggerForPartialExecution_def)
next
  case False
  from assms False obtain ts where ts: "findAllParentTriggers nodeTypes w dest = Inr ts"
    by (auto simp: findTriggerForPartialExecution_def bind_res_eq_Inr split: if_splits)
  define ps where "ps = filter (\<lambda>t. \<not> is_disabled t) ts"
  have ps: "set ps = parent_triggers nodeTypes w dest"
    unfolding ps_def by (rule findAllParentTriggers_enabled [OF ts])
  let ?webhook = "\<lambda>t. ends_with (node_type t) ''webhook''"
  let ?pinned = "js_sort (\<lambda>a b. if ?webhook a then - 1 else if ?webhook b then 1 else 0)
    (filter (\<lambda>t. getPinDataOfNode w (node_name t) \<noteq> None) ps)"
  from assms False ts have r: "r = (case find (\<lambda>t. obj_get rd (node_name t) \<noteq> None) ps of
      Some t \<Rightarrow> Some t
    | None \<Rightarrow> if ?pinned \<noteq> [] then Some (hd ?pinned)
        else if filter ?webhook ps \<noteq> [] then Some (hd (filter ?webhook ps)) else arr_at ps 0)"
    by (auto simp: findTriggerForPartialExecution_def bind_res_eq_Inr ps_def Let_def split: if_splits option.splits)
  have hd_in: "hd xs \<in> set xs" if "xs \<noteq> []" for xs :: "INode list" using that by simp
  have pinned: "set ?pinned = {t \<in> set ps. getPinDataOfNode w (node_name t) \<noteq> None}" by simp
  show ?thesis
  proof (cases "find (\<lambda>t. obj_get rd (node_name t) \<noteq> None) ps")
    case (Some t)
    then have "t \<in> set ps \<and> obj_get rd (node_name t) \<noteq> None" by (auto simp: find_Some_iff)
    with Some r False show ?thesis unfolding ps [symmetric] by auto
  next
    case None
    then have no: "\<forall>u \<in> set ps. obj_get rd (node_name u) = None" by (auto simp: find_None_iff)
    show ?thesis
    proof (cases "?pinned = []")
      case False
      with r None have "r = Some (hd ?pinned)" by simp
      moreover from hd_in [OF False] have "hd ?pinned \<in> set ps" "getPinDataOfNode w (node_name (hd ?pinned)) \<noteq> None"
        unfolding pinned by auto
      ultimately show ?thesis
        using no \<open>\<not> (is_trigger nodeTypes d = Inr True \<and> \<not> is_disabled d)\<close> unfolding ps [symmetric] by auto
    next
      case True
      then have "\<forall>u \<in> set ps. getPinDataOfNode w (node_name u) = None" using pinned by auto
      moreover have "case r of None \<Rightarrow> set ps = {} | Some t \<Rightarrow> t \<in> set ps"
        using r None True hd_in [of "filter ?webhook ps"] by (auto simp: arr_at_def Let_def split: if_splits)
      ultimately show ?thesis using no False unfolding ps [symmetric] by (cases r) auto
    qed
  qed
qed

text \<open>
  C30. \<^verbatim>\<open>findTriggerForPartialExecution\<close>: the node it returns is an enabled trigger, the destination
  itself or one of its ancestors; it is the destination if that is one; otherwise a trigger with
  run data is returned if any enabled parent trigger has run data, else one with pinned data if
  any has pinned data; and nothing is returned only if there is no enabled parent trigger.
\<close>

theorem findTriggerForPartialExecution_correct:
  assumes "findTriggerForPartialExecution nodeTypes w dest rd = Inr r" and "getNode w dest = Some d"
  shows "if is_trigger nodeTypes d = Inr True \<and> \<not> is_disabled d then r = Some d
    else (case r of
        None \<Rightarrow> parent_triggers nodeTypes w dest = {}
      | Some t \<Rightarrow> t \<in> parent_triggers nodeTypes w dest
          \<and> (obj_get rd (node_name t) = None \<longrightarrow>
              (\<forall>u \<in> parent_triggers nodeTypes w dest. obj_get rd (node_name u) = None)
              \<and> (getPinDataOfNode w (node_name t) = None \<longrightarrow>
                   (\<forall>u \<in> parent_triggers nodeTypes w dest. getPinDataOfNode w (node_name u) = None))))"
  using assms by (rule findTriggerForPartialExecution_spec)

definition ex_trigger_types :: NodeTypes where
  "ex_trigger_types _ version = Some \<lparr>nt_name = ''n8n-nodes-base.set'', nt_group = (if version = 2 then [''trigger''] else []),
     nt_outputs = StaticOutputs [OutputType Main], nt_inputs = StaticOutputs [OutputType Main], nt_requiredInputs = None,
     nt_trigger = False, nt_poll = False,
     nt_execute = True, nt_webhook = False, nt_supplyData = False, nt_requestDefaults = False, nt_customOperations = None\<rparr>"

definition ex_trigger_workflow :: Workflow where
  "ex_trigger_workflow = new_workflow ex_trigger_types (\<lambda>_ n. Some (node_parameters n)) [ex_t\<lparr>node_typeVersion := 2\<rparr>, ex_a]
     [(''t'', [(Main, [Some [\<lparr>con_node = ''a'', con_type = Main, con_index = 0\<rparr>]])])] None None"

theorem findTriggerForPartialExecution_correct_witness:
  "findTriggerForPartialExecution ex_trigger_types ex_trigger_workflow ''a'' [] = Inr (Some (ex_t\<lparr>node_typeVersion := 2\<rparr>))
     \<and> ex_t\<lparr>node_typeVersion := 2\<rparr> \<in> parent_triggers ex_trigger_types ex_trigger_workflow ''a''"
proof -
  have r: "findTriggerForPartialExecution ex_trigger_types ex_trigger_workflow ''a'' [] = Inr (Some (ex_t\<lparr>node_typeVersion := 2\<rparr>))"
    by code_simp
  have "getNode ex_trigger_workflow ''a'' = Some ex_a" "is_trigger ex_trigger_types ex_a = Inr False" by code_simp+
  with findTriggerForPartialExecution_correct [OF r] r show ?thesis by auto
qed

end
