(* ===== verification/Partial_Run.thy ===== *)
theory Partial_Run
  imports Subgraph_Correct Disabled_Nodes Source_Groups Graph_Conversion
begin

text \<open>
  \<^verbatim>\<open>WorkflowExecute.runPartialWorkflow2\<close> of \<^verbatim>\<open>packages/core/src/execution-engine/workflow-execute.ts\<close> up to the
  call of \<^verbatim>\<open>processRunExecutionData\<close>: it composes the functions of a partial execution. \<^verbatim>\<open>rewireGraph\<close> of
  \<^verbatim>\<open>rewire-graph.ts\<close> and \<^verbatim>\<open>isTool\<close> of \<^verbatim>\<open>node-helpers.ts\<close> prepare the execution of a tool node.

  The property: on a well-formed graph in which the trigger leads to the destination, the composition never fails,
  and what it hands to the execution is consistent.
\<close>

section \<open>Tools\<close>

text \<open>\<^verbatim>\<open>String.prototype.includes\<close>\<close>

definition str_includes :: "string \<Rightarrow> string \<Rightarrow> bool" where
  "str_includes s part \<longleftrightarrow> list_ex (\<lambda>i. take (length part) (drop i s) = part) [0..<length s + 1]"

fun tool_output :: "node_output list \<Rightarrow> bool" where
  "tool_output [] = False"
| "tool_output (OutputType t # outputs) = (t = AiTool)"
| "tool_output (OutputConfiguration t # outputs) = (if t = AiTool then True else tool_output outputs)"

definition isTool :: "INodeType \<Rightarrow> (string \<times> jsval) list \<Rightarrow> bool" where
  "isTool nodeTypeDescription parameters =
     (if str_includes (nt_name nodeTypeDescription) ''vectorStore''
      then obj_get parameters ''mode'' = Some (JStr ''retrieve-as-tool'')
      else case nt_outputs nodeTypeDescription of
             StaticOutputs outputs \<Rightarrow> tool_output outputs
           | OutputsExpression _ \<Rightarrow> False)"

text \<open>A request of an agent: the query as JSON text, and the name of the tool.\<close>

record AiAgentRequest =
  ar_queryJson :: string
  ar_toolName :: string

definition TOOL_EXECUTOR_NODE_NAME :: string where
  "TOOL_EXECUTOR_NODE_NAME = ''PartialExecutionToolExecutor''"

text \<open>An assignment to a property of a node object shows wherever the graph refers to it.\<close>

definition set_node_obj :: "INode \<Rightarrow> INode \<Rightarrow> DirectedGraph \<Rightarrow> DirectedGraph" where
  "set_node_obj old new g =
     (let upd = (\<lambda>n. if n = old then new else n)
      in g\<lparr>dg_nodes := map (\<lambda>(k, n). (k, upd n)) (dg_nodes g),
           dg_connections := map (\<lambda>(k, c). (k, c\<lparr>gc_from := upd (gc_from c), gc_to := upd (gc_to c)\<rparr>)) (dg_connections g)\<rparr>)"

text \<open>\<open>ref\<close> is the address of the new node.\<close>

definition toolExecutor :: "nat \<Rightarrow> AiAgentRequest option \<Rightarrow> INode \<Rightarrow> INode \<Rightarrow> INode" where
  "toolExecutor ref agentRequest tool rootNode =
     \<lparr>node_ref = ref, node_id = node_id rootNode, node_name = TOOL_EXECUTOR_NODE_NAME, node_typeVersion = 0,
      node_type = ''@n8n/n8n-nodes-langchain.toolExecutor'', node_position = (0, 0), node_disabled = Some False,
      node_executeOnce = None, node_alwaysOutputData = None, node_retryOnFail = None, node_maxTries = None,
     node_onError = None, node_continueOnFail = None,
      node_parameters = [(''query'', JStr (case agentRequest of Some r \<Rightarrow> ar_queryJson r | None \<Rightarrow> ''{}'')),
        (''toolName'', JStr (case agentRequest of Some r \<Rightarrow> ar_toolName r | None \<Rightarrow> [])),
        (''node'', JStr (node_name tool))],
      node_credentials = None, node_rewireOutputLogTo = None, node_forceCustomOperation = None\<rparr>"

definition rewireGraph ::
  "nat \<Rightarrow> AiAgentRequest option \<Rightarrow> INode \<Rightarrow> DirectedGraph \<Rightarrow> DirectedGraph res" where
  "rewireGraph ref agentRequest tool graph =
     bind_res (clone graph) (\<lambda>modifiedGraph.
     bind_res (getChildren modifiedGraph tool) (\<lambda>children.
       if length children = 0 then Inr graph
       else let rootNode = last children in
         bind_res (getDirectParentConnections modifiedGraph rootNode) (\<lambda>parentConnections.
           let allIncomingConnection = filter (\<lambda>cn. gc_type cn = Main) parentConnections;
               executor = toolExecutor ref agentRequest tool rootNode;
               tool' = tool\<lparr>node_rewireOutputLogTo := Some AiTool\<rparr>;
               upd = (\<lambda>n. if n = tool then tool' else n)
           in bind_res (addConnection \<lparr>ci_from = tool', ci_to = executor, ci_type = Some AiTool, ci_outputIndex = None,
                   ci_inputIndex = None\<rparr> (set_node_obj tool tool' (addNode executor modifiedGraph))) (\<lambda>g1.
              bind_res (fold_res (\<lambda>cn. addConnection \<lparr>ci_from = upd (gc_from cn), ci_to = executor, ci_type = Some (gc_type cn),
                   ci_outputIndex = None, ci_inputIndex = None\<rparr>) allIncomingConnection g1) (\<lambda>g2.
              bind_res (removeNode (upd rootNode) False None g2) (\<lambda>(g3, _). Inr g3))))))"

section \<open>Preparing a partial execution\<close>

record partial_plan =
  pp_graph :: DirectedGraph
  pp_startNodes :: "INode list"
  pp_runData :: IRunData
  pp_stack :: stack_state
  pp_executionIndex :: nat

text \<open>Steps 2 to 7, from the graph, the trigger and the destination.\<close>

definition plan_execution ::
  "(string \<Rightarrow> string \<Rightarrow> int) \<Rightarrow> DirectedGraph \<Rightarrow> INode \<Rightarrow> INode \<Rightarrow> IRunData \<Rightarrow> IPinData \<Rightarrow> string list \<Rightarrow> partial_plan res" where
  "plan_execution localeCompare graph0 trigger destination runData0 pinData dirtyNodeNames =
     bind_res (filterDisabledNodes graph0) (\<lambda>filtered.
     bind_res (findSubgraph filtered destination trigger) (\<lambda>graph.
     bind_res (cleanRunData runData0 graph (getNodesByNames graph dirtyNodeNames)) (\<lambda>runData1.
     bind_res (findStartNodes graph trigger destination pinData runData1) (\<lambda>startNodes0.
     bind_res (handleCycles graph startNodes0 trigger) (\<lambda>startNodes.
     bind_res (cleanRunData runData1 graph startNodes) (\<lambda>runData.
     bind_res (recreateNodeExecutionStack localeCompare graph startNodes runData pinData) (\<lambda>stack.
       Inr \<lparr>pp_graph = graph, pp_startNodes = startNodes, pp_runData = runData, pp_stack = stack,
            pp_executionIndex = getNextExecutionIndex runData\<rparr>)))))))"

text \<open>Step 1: the trigger, or else the closest parent with run data.\<close>

definition find_start :: "NodeTypes \<Rightarrow> Workflow \<Rightarrow> string \<Rightarrow> IRunData \<Rightarrow> INode res" where
  "find_start nodeTypes workflow destinationName runData =
     bind_res (findTriggerForPartialExecution nodeTypes workflow destinationName runData) (\<lambda>trigger.
       case trigger of
         Some t \<Rightarrow> Inr t
       | None \<Rightarrow>
           (case find (\<lambda>nodeName. obj_get runData nodeName \<noteq> None)
                   (workflow_getParentNodes workflow destinationName Main (- 1)) of
              None \<Rightarrow> Inl (UserError ''Connect a trigger to run this node'')
            | Some nodeName \<Rightarrow>
                (case getNode workflow nodeName of
                   None \<Rightarrow> Inl (UserError ''Connect a trigger to run this node'')
                 | Some startNode \<Rightarrow> Inr startNode)))"

text \<open>What the method stores before it runs the workflow.\<close>

record partial_run =
  pr_workflow :: Workflow
  pr_destinationNode :: IDestinationNode
  pr_originalDestinationNode :: IDestinationNode
  pr_runNodeFilter :: "string list"
  pr_plan :: partial_plan

definition use_as_tool ::
  "nat \<Rightarrow> AiAgentRequest option \<Rightarrow> NodeTypes \<Rightarrow> GetNodeParameters \<Rightarrow> Workflow \<Rightarrow> INode \<Rightarrow> DirectedGraph
     \<Rightarrow> (DirectedGraph \<times> Workflow \<times> INode) res" where
  "use_as_tool ref agentRequest nodeTypes getNodeParameters workflow destination graph =
     bind_res (rewireGraph ref agentRequest destination graph) (\<lambda>graph'.
     bind_res (toWorkflow nodeTypes getNodeParameters (wf_pinData workflow) (wf_executionOrder workflow) graph') (\<lambda>workflow'.
       case getNode workflow' TOOL_EXECUTOR_NODE_NAME of
         None \<Rightarrow> Inl (OperationalError ''ToolExecutor can not be found'')
       | Some toolExecutorNode \<Rightarrow> Inr (graph', workflow', toolExecutorNode)))"

definition runPartialWorkflow2 ::
  "(string \<Rightarrow> string \<Rightarrow> int) \<Rightarrow> NodeTypes \<Rightarrow> GetNodeParameters \<Rightarrow> nat \<Rightarrow> Workflow \<Rightarrow> IRunData \<Rightarrow> IPinData \<Rightarrow> string list
     \<Rightarrow> IDestinationNode \<Rightarrow> AiAgentRequest option \<Rightarrow> partial_run res" where
  "runPartialWorkflow2 localeCompare nodeTypes getNodeParameters ref workflow0 runData pinData dirtyNodeNames destinationNode0 agentRequest =
     (case getNode workflow0 (dn_nodeName destinationNode0) of
        None \<Rightarrow> Inl AssertionError
      | Some destination0 \<Rightarrow>
          bind_res (fromWorkflow workflow0) (\<lambda>graph0.
          case nodeTypes (node_type destination0) (node_typeVersion destination0) of
            None \<Rightarrow> Inl JsTypeError
          | Some destinationNodeType \<Rightarrow>
              bind_res
                (if isTool destinationNodeType (node_parameters destination0)
                 then bind_res (use_as_tool ref agentRequest nodeTypes getNodeParameters workflow0 destination0 graph0)
                   (\<lambda>(g, w, d). Inr (g, w, d, \<lparr>dn_nodeName = node_name d, dn_mode = Inclusive\<rparr>))
                 else Inr (graph0, workflow0, destination0, destinationNode0))
                (\<lambda>(graph, workflow, destination, destinationNode).
              bind_res (find_start nodeTypes workflow (dn_nodeName destinationNode) runData) (\<lambda>trigger.
              bind_res (plan_execution localeCompare graph trigger destination runData pinData dirtyNodeNames) (\<lambda>plan.
                Inr \<lparr>pr_workflow = workflow, pr_destinationNode = destinationNode,
                     pr_originalDestinationNode = destinationNode0,
                     pr_runNodeFilter = map node_name (values_of (getNodes (pp_graph plan))), pr_plan = plan\<rparr>)))))"

section \<open>What the steps hand on\<close>

text \<open>A path between nodes that stay survives the removal of the other nodes.\<close>

lemma rtrancl_thru:
  assumes "(x, b) \<in> E\<^sup>*" and "b \<notin> D"
  shows "(x \<notin> D \<longrightarrow> (x, b) \<in> (thru E D)\<^sup>*)
    \<and> (x \<in> D \<longrightarrow> (\<forall>a. a \<notin> D \<longrightarrow> (a, x) \<in> E O (Id_on D O E)\<^sup>* \<longrightarrow> (a, b) \<in> (thru E D)\<^sup>*))"
  using assms
proof (induction rule: converse_rtrancl_induct)
  case base
  then show ?case by simp
next
  case (step x y)
  have xy: "(x, y) \<in> E O (Id_on D O E)\<^sup>*" using step(1) by blast
  have edge: "(a, y) \<in> thru E D" if "(a, y) \<in> E O (Id_on D O E)\<^sup>*" "a \<notin> D" "y \<notin> D" for a
    using that by (simp add: thru_def)
  have on: "(a, b) \<in> (thru E D)\<^sup>*" if "(a, y) \<in> E O (Id_on D O E)\<^sup>*" "a \<notin> D" for a
    using that edge [OF that(1,2)] step.IH [OF step.prems] by (cases "y \<in> D") (auto intro: converse_rtrancl_into_rtrancl)
  show ?case using on [OF xy] on walk_step [OF step(1)] by blast
qed

lemma run_data_typed_mono:
  assumes "run_data_typed g rd" and "wf_graph g" and "wf_graph h"
    and "conn_outputs h \<subseteq> conn_outputs g" and "node_objs h \<subseteq> node_objs g" and "map_get rd' \<subseteq>\<^sub>m map_get rd"
  shows "run_data_typed h rd'"
proof -
  have runs: "set (node_runs rd' n) \<subseteq> set (node_runs rd n)" for n
  proof (cases "map_get rd' (node_name n)")
    case (Some runs)
    then have "map_get rd (node_name n) = Some runs" using assms(6) by (metis domI map_le_def)
    with Some show ?thesis by (simp add: node_runs_def)
  qed (simp add: node_runs_def)
  have "list_all (data_has_type (gc_type c)) (node_runs rd' (gc_from c))" if "c \<in> conn_objs h" for c
  proof -
    from that assms(4) have "(gc_from c, gc_type c) \<in> conn_outputs g" by (auto simp: conn_outputs_def)
    then obtain c' where "c' \<in> conn_objs g" "gc_from c' = gc_from c" "gc_type c' = gc_type c" by (auto simp: conn_outputs_def)
    with assms(1) have "list_all (data_has_type (gc_type c)) (node_runs rd (gc_from c))"
      unfolding run_data_typed_def conn_objs_def by metis
    with runs show ?thesis by (auto simp: list_all_iff)
  qed
  moreover have "list_all (data_has_type Main) (node_runs rd' n)"
    if "n \<in> node_objs h" "node_type n = ''n8n-nodes-base.splitInBatches''" for n
  proof -
    have "n \<in> set (values_of (dg_nodes g))" using that(1) assms(5) wf_node_objs [OF assms(2)] by blast
    with assms(1) that(2) have "list_all (data_has_type Main) (node_runs rd n)" unfolding run_data_typed_def by blast
    with runs show ?thesis by (auto simp: list_all_iff)
  qed
  ultimately show ?thesis
    unfolding run_data_typed_def conn_objs_def [symmetric] wf_node_objs [OF assms(3), symmetric] by blast
qed

lemma findSubgraph_trigger:
  assumes wf: "wf_graph g" and nodes: "has_node_obj g dest" "has_node_obj g trigger"
    and path: "(trigger, dest) \<in> (main_edges g)\<^sup>*"
  obtains sub where "findSubgraph g dest trigger = Inr sub" and "sub_inv g sub" and "has_node_obj sub trigger"
proof (rule findSubgraph_spec [OF wf nodes])
  fix sub
  assume sub: "findSubgraph g dest trigger = Inr sub" "sub_inv g sub"
    and kept: "{c \<in> conn_objs g. leads_to g dest trigger c \<and> from_trigger g dest trigger (gc_from c)} \<subseteq> conn_objs sub"
    and same: "trigger = dest \<Longrightarrow> has_node_obj sub trigger"
  have "has_node_obj sub trigger"
  proof (cases "trigger = dest")
    case True
    then show ?thesis by (rule same)
  next
    case False
    from last_visit [OF path] False obtain b where
      b: "(trigger, b) \<in> main_edges g" "(b, dest) \<in> {(a, c) \<in> main_edges g. a \<noteq> trigger}\<^sup>*" by auto
    then obtain c where c: "c \<in> conn_objs g" "gc_type c = Main" "gc_from c = trigger" "gc_to c = b"
      by (auto simp: main_edges_def)
    have "b \<noteq> trigger" using b(2) False by (auto elim: converse_rtranclE)
    moreover have "{(a, c) \<in> main_edges g. a \<noteq> trigger} = avoiding (main_edges g) {trigger}" by auto
    ultimately have "leads_to g dest trigger c" using b(2) c by (simp add: leads_to_def)
    moreover have "from_trigger g dest trigger (gc_from c)" using False c(3) by (simp add: from_trigger_def)
    ultimately have "c \<in> conn_objs sub" using kept c(1) by blast
    with sub(2) c(3) show ?thesis using wf_conn_nodes(1) by (auto simp: sub_inv_def)
  qed
  with sub show thesis by (rule that)
qed

lemma getNodesByNames_set:
  assumes "wf_graph g"
  shows "set (getNodesByNames g names) = {n \<in> node_objs g. node_name n \<in> set names}"
proof -
  let ?f = "\<lambda>name nodes. case map_get (dg_nodes g) name of None \<Rightarrow> nodes | Some node \<Rightarrow> set_add node nodes"
  have get: "map_get (dg_nodes g) k = Some n \<longleftrightarrow> k = node_name n \<and> n \<in> node_objs g" for k n
    using assms by (auto simp: wf_graph_def node_objs_def has_node_obj_def dest: map_of_SomeD)
  have "set (fold ?f names nodes) = {n \<in> node_objs g. node_name n \<in> set names} \<union> set nodes" for nodes
  proof (induction names arbitrary: nodes)
    case (Cons name names)
    have "{n \<in> node_objs g. node_name n = name} = (case map_get (dg_nodes g) name of None \<Rightarrow> {} | Some n \<Rightarrow> {n})"
      using get [of name] by (cases "map_get (dg_nodes g) name") (auto split: option.split, metis+)
    then show ?case
      unfolding fold_Cons comp_apply Cons.IH by (cases "map_get (dg_nodes g) name") auto
  qed simp
  then show ?thesis by (simp add: getNodesByNames_def)
qed

lemma stale_names_Un: "stale_names g (X \<union> Y) = stale_names g X \<union> stale_names g Y"
  by (auto simp: stale_names_def)

lemma next_index_bound:
  "(n, runs) \<in> set rd \<Longrightarrow> td \<in> set runs \<Longrightarrow> td_executionIndex td = Some i \<Longrightarrow> i < getNextExecutionIndex rd"
  using Max_ge [OF finite_indices, of i rd] unfolding getNextExecutionIndex_max by (force simp: indices_of_def)

lemma live_edges_subset: "live_edges g dest rd pd \<subseteq> dg_edges g"
  by (auto simp: live_edges_def dg_edges_def)

lemma cycle_start_reach:
  assumes "wf_graph g" and "has_node_obj g trigger" and "(trigger, s) \<in> (dg_edges g)\<^sup>*" and "distinct (concat sccs)"
  shows "(trigger, cycle_start g trigger sccs s) \<in> (dg_edges g)\<^sup>*"
proof (cases "\<exists>cycle \<in> set sccs. s \<in> set cycle")
  case True
  then obtain cycle where "cycle \<in> set sccs" "s \<in> set cycle" by blast
  from cycle_start_in(3) [OF assms this] show ?thesis .
next
  case False
  then have "find (\<lambda>cycle. s \<in> set cycle) sccs = None" by (auto simp: find_None_iff)
  with assms(3) show ?thesis by (simp add: cycle_start_def)
qed

lemma plan_execution_spec:
  assumes wf: "wf_graph g" and plain: "plain_names g"
    and acyclic: "acyclic (main_edges g \<inter> disabled_objs g \<times> disabled_objs g)"
    and ends: "has_node_obj g trigger" "has_node_obj g dest" "\<not> is_disabled trigger" "\<not> is_disabled dest"
    and path: "(trigger, dest) \<in> (main_edges g)\<^sup>*" and typed: "run_data_typed g rd"
  shows "\<exists>p. plan_execution lc g trigger dest rd pd dirty = Inr p \<and> wf_graph (pp_graph p)
    \<and> trigger \<in> node_objs (pp_graph p) \<and> node_objs (pp_graph p) \<subseteq> node_objs g - disabled_objs g
    \<and> distinct (pp_startNodes p) \<and> set (pp_startNodes p) \<subseteq> (dg_edges (pp_graph p))\<^sup>* `` {trigger}
    \<and> map_get (pp_runData p) = map_get rd |` ({k. hasNode (pp_graph p) k}
        - stale_names (pp_graph p) ({n \<in> node_objs (pp_graph p). node_name n \<in> set dirty} \<union> set (pp_startNodes p)))
    \<and> ss_nodeExecutionStack (pp_stack p)
        = concat (map (start_node_entries lc (pp_graph p) (pp_runData p) pd) (pp_startNodes p))
    \<and> set (keys_of (ss_waitingExecution (pp_stack p))) \<subseteq> node_name ` set (pp_startNodes p)
    \<and> pp_executionIndex p = getNextExecutionIndex (pp_runData p)"
proof -
  let ?D = "disabled_objs g"
  from filterDisabledNodes_spec [OF wf plain acyclic] obtain h where
    h: "filterDisabledNodes g = Inr h" "wf_graph h" "node_objs h = node_objs g - ?D" "main_edges h = thru (main_edges g) ?D"
      "conn_outputs h \<subseteq> conn_outputs g" by blast
  have in_h: "has_node_obj h trigger" "has_node_obj h dest" "trigger \<notin> ?D" "dest \<notin> ?D"
    using h(3) ends by (auto simp: node_objs_def disabled_objs_def)
  have "(trigger, dest) \<in> (main_edges h)\<^sup>*"
    unfolding h(4) using rtrancl_thru [OF path in_h(4)] in_h(3) by blast
  then obtain sub where sub: "findSubgraph h dest trigger = Inr sub" "sub_inv h sub" "has_node_obj sub trigger"
    by (rule findSubgraph_trigger [OF h(2) in_h(2,1)])
  then have wfs: "wf_graph sub" and nodes: "node_objs sub \<subseteq> node_objs g - ?D" "conn_outputs sub \<subseteq> conn_outputs g"
    using h(3,5) image_mono [of "conn_objs sub" "conn_objs h" "\<lambda>c. (gc_from c, gc_type c)"]
    unfolding sub_inv_def conn_outputs_def by blast+
  have sub_typed: "run_data_typed sub rd'" if "map_get rd' \<subseteq>\<^sub>m map_get rd" for rd'
    using run_data_typed_mono [OF typed wf wfs nodes(2) _ that] nodes(1) by blast
  let ?dirty = "{n \<in> node_objs sub. node_name n \<in> set dirty}"
  note dirty = getNodesByNames_set [OF wfs, of dirty]
  obtain rd1 where rd1: "cleanRunData rd sub (getNodesByNames sub dirty) = Inr rd1"
      "map_get rd1 = map_get rd |` ({k. hasNode sub k} - stale_names sub ?dirty)"
    using cleanRunData_spec [OF wfs, of "getNodesByNames sub dirty" rd] unfolding dirty by (auto simp: node_objs_def)
  have "map_get rd1 \<subseteq>\<^sub>m map_get rd" unfolding rd1(2) by (auto simp: map_le_def)
  from findStartNodes_spec [OF wfs sub(3) sub_typed [OF this], of dest pd] obtain S where
    S: "findStartNodes sub trigger dest pd rd1 = Inr S" "distinct S" "set S \<subseteq> (live_edges sub dest rd1 pd)\<^sup>* `` {trigger}" by blast
  have reach: "(trigger, s) \<in> (dg_edges sub)\<^sup>*" if "s \<in> set S" for s
    using that S(3) rtrancl_mono [OF live_edges_subset] by blast
  obtain sccs R where R: "handleCycles sub S trigger = Inr R" "distinct R" "set R = cycle_start sub trigger sccs ` set S"
      "distinct (concat sccs)"
    by (rule handleCycles_spec [OF wfs sub(3) S(2) reach]) blast+
  have R_reach: "(trigger, n) \<in> (dg_edges sub)\<^sup>*" if "n \<in> set R" for n
    using that cycle_start_reach [OF wfs sub(3) reach R(4)] by (auto simp: R(3))
  have R_node: "has_node_obj sub n" if "n \<in> set R" for n
    using R_reach [OF that] sub(3) wf_edge_nodes(2) [OF wfs] by (auto elim: rtranclE)
  from cleanRunData_spec [OF wfs R_node, of R rd1] obtain rd2 where rd2: "cleanRunData rd1 sub R = Inr rd2"
      "map_get rd2 = map_get rd1 |` ({k. hasNode sub k} - stale_names sub (set R))" by blast
  have rd2': "map_get rd2 = map_get rd |` ({k. hasNode sub k} - stale_names sub (?dirty \<union> set R))"
    unfolding rd2(2) rd1(2) restrict_restrict stale_names_Un by (rule arg_cong [where f = "restrict_map _"]) blast
  then have "map_get rd2 \<subseteq>\<^sub>m map_get rd" by (auto simp: map_le_def)
  note typed2 = sub_typed [OF this]
  have "\<not> is_disabled n" if "n \<in> node_objs sub" for n
    using that nodes(1) by (auto simp: disabled_objs_def)
  from recreateNodeExecutionStack_spec [OF wfs R_node typed2 this, of R lc pd] obtain st where
    st: "recreateNodeExecutionStack lc sub R rd2 pd = Inr st"
      "ss_nodeExecutionStack st = concat (map (start_node_entries lc sub rd2 pd) R)"
      "set (keys_of (ss_waitingExecution st)) \<subseteq> node_name ` set R" by blast
  show ?thesis
    using h(1) sub(1,3) rd1(1) S(1) R(1,2) rd2(1) rd2' st wfs nodes(1) R_reach
    by (simp add: plan_execution_def node_objs_def subset_iff)
qed

end
