(* ===== verification/Execution_Stack.thy ===== *)
theory Execution_Stack
  imports Workflow_Graph "HOL-Library.Product_Lexorder"
begin

text \<open>
  The execution stack of \<^verbatim>\<open>WorkflowExecute\<close> (\<^verbatim>\<open>packages/core/src/execution-engine/workflow-execute.ts\<close>): how the data
  that a node outputs reaches the next nodes. \<^verbatim>\<open>addNodeToBeExecuted\<close> puts a node with one input on the stack and lets a
  node with several inputs wait until all of them have data; when the stack is empty, a waiting node that does not need
  all its inputs is released.

  An object of \<^verbatim>\<open>waitingExecution[nodeName]\<close> has indices as keys, which are listed in ascending order. A stack entry
  whose node does not exist is not built: the definition raises the \<^verbatim>\<open>TypeError\<close> at once that the code raises when it reads
  the entry.
\<close>

section \<open>The state\<close>

record run_state =
  rs_runData :: IRunData
  rs_nodeExecutionStack :: "IExecuteData list"
  rs_waitingExecution :: IWaitingForExecution
  rs_waitingExecutionSource :: "IWaitingForExecutionSource option"

definition isLegacyExecutionOrder :: "Workflow \<Rightarrow> bool" where
  "isLegacyExecutionOrder w \<longleftrightarrow> wf_executionOrder w \<noteq> Some ''v1''"

text \<open>\<^verbatim>\<open>nodeExecutionStack[enqueueFn](entry)\<close>\<close>

definition enqueue_entry :: "Workflow \<Rightarrow> IExecuteData \<Rightarrow> run_state \<Rightarrow> run_state" where
  "enqueue_entry w entry st =
     st\<lparr>rs_nodeExecutionStack := (if wf_executionOrder w = Some ''v1''
       then entry # rs_nodeExecutionStack st else rs_nodeExecutionStack st @ [entry])\<rparr>"

text \<open>\<^verbatim>\<open>get(runData, [node, runIndex, 'data', 'main', index])\<close>\<close>

definition output_data :: "IRunData \<Rightarrow> IConnection \<Rightarrow> nat \<Rightarrow> INodeExecutionData list cell" where
  "output_data runData inputConnection runIndex =
     (case obj_get runData (con_node inputConnection) of
        None \<Rightarrow> Hole
      | Some runs \<Rightarrow>
          if runIndex < length runs
          then (case td_data (runs ! runIndex) of
                  None \<Rightarrow> Hole
                | Some d \<Rightarrow> (case obj_get d Main of None \<Rightarrow> Hole | Some outputs \<Rightarrow> cell_get outputs (con_index inputConnection)))
          else Hole)"

fun incomingConnectionIsEmpty :: "IRunData \<Rightarrow> IConnection list \<Rightarrow> nat \<Rightarrow> bool res" where
  "incomingConnectionIsEmpty runData [] runIndex = Inr True"
| "incomingConnectionIsEmpty runData (inputConnection # inputConnections) runIndex =
     (case output_data runData inputConnection runIndex of
        Hole \<Rightarrow> incomingConnectionIsEmpty runData inputConnections runIndex
      | Null \<Rightarrow> Inl JsTypeError
      | Cell items \<Rightarrow> if items \<noteq> [] then Inr False
                     else incomingConnectionIsEmpty runData inputConnections runIndex)"

definition prepareWaitingToExecution :: "string \<Rightarrow> nat \<Rightarrow> nat \<Rightarrow> run_state \<Rightarrow> run_state" where
  "prepareWaitingToExecution nodeName numberOfConnections runIndex st =
     (let waiting = rs_waitingExecution st;
          source = or_empty (rs_waitingExecutionSource st);
          nodeWaiting = or_empty (obj_get waiting nodeName);
          nodeWaitingSource = or_empty (obj_get source nodeName)
      in st\<lparr>rs_waitingExecution :=
              obj_set nodeName (idx_set runIndex [(Main, replicate numberOfConnections Null)] nodeWaiting) waiting,
            rs_waitingExecutionSource :=
              Some (obj_set nodeName (idx_set runIndex [(Main, replicate numberOfConnections Null)] nodeWaitingSource) source)\<rparr>)"

section \<open>Nodes with several inputs\<close>

text \<open>\<^verbatim>\<open>workflow.connectionsByDestinationNode[nodeName]?.main ?? []\<close>\<close>

definition main_inputs :: "Workflow \<Rightarrow> string \<Rightarrow> NodeInputConnections" where
  "main_inputs w nodeName = or_empty (obj_get (or_empty (obj_get (wf_connectionsByDestinationNode w) nodeName)) Main)"

text \<open>The first waiting entry that has no data for the input.\<close>

fun findWaitingIndex :: "nat \<Rightarrow> (nat \<times> ITaskDataConnections) list \<Rightarrow> nat option res" where
  "findWaitingIndex inputIndex [] = Inr None"
| "findWaitingIndex inputIndex ((index, entry) # entries) =
     (case obj_get entry Main of
        None \<Rightarrow> Inl JsTypeError
      | Some cells \<Rightarrow>
          if cell_option (cell_get cells inputIndex) = None then Inr (Some index)
          else findWaitingIndex inputIndex entries)"

text \<open>\<^verbatim>\<open>waiting[nodeName][index].main[inputIndex] = v\<close>, and reading \<^verbatim>\<open>waiting[nodeName][index]\<close>\<close>

definition waiting_at :: "(string \<times> (nat \<times> (string \<times> 'a cell list) list) list) list \<Rightarrow> string \<Rightarrow> nat
    \<Rightarrow> (string \<times> 'a cell list) list res" where
  "waiting_at waiting nodeName index =
     (case obj_get waiting nodeName of
        None \<Rightarrow> Inl JsTypeError
      | Some entries \<Rightarrow> (case map_get entries index of None \<Rightarrow> Inl JsTypeError | Some entry \<Rightarrow> Inr entry))"

definition main_of :: "(string \<times> 'a cell list) list \<Rightarrow> 'a cell list res" where
  "main_of entry = (case obj_get entry Main of None \<Rightarrow> Inl JsTypeError | Some cells \<Rightarrow> Inr cells)"

definition set_waiting_entry :: "string \<Rightarrow> nat \<Rightarrow> (string \<times> 'a cell list) list
    \<Rightarrow> (string \<times> (nat \<times> (string \<times> 'a cell list) list) list) list
    \<Rightarrow> (string \<times> (nat \<times> (string \<times> 'a cell list) list) list) list" where
  "set_waiting_entry nodeName index entry waiting =
     obj_set nodeName (idx_set index entry (or_empty (obj_get waiting nodeName))) waiting"

definition set_waiting_input :: "string \<Rightarrow> nat \<Rightarrow> nat \<Rightarrow> 'a cell
    \<Rightarrow> (string \<times> (nat \<times> (string \<times> 'a cell list) list) list) list
    \<Rightarrow> (string \<times> (nat \<times> (string \<times> 'a cell list) list) list) list res" where
  "set_waiting_input nodeName index inputIndex v waiting =
     bind_res (waiting_at waiting nodeName index) (\<lambda>entry.
     bind_res (main_of entry) (\<lambda>cells.
       Inr (set_waiting_entry nodeName index (obj_set Main (cell_set inputIndex v cells) entry) waiting)))"

text \<open>\<^verbatim>\<open>delete waiting[nodeName][index]\<close>, and the node too when it was the last entry.\<close>

definition delete_waiting :: "string \<Rightarrow> nat \<Rightarrow> (string \<times> (nat \<times> 'e) list) list \<Rightarrow> (string \<times> (nat \<times> 'e) list) list" where
  "delete_waiting nodeName index waiting =
     obj_set nodeName (map_delete index (or_empty (obj_get waiting nodeName))) waiting"

definition remove_waiting :: "string \<Rightarrow> nat \<Rightarrow> run_state \<Rightarrow> run_state" where
  "remove_waiting nodeName index st =
     (let waiting = delete_waiting nodeName index (rs_waitingExecution st);
          source = delete_waiting nodeName index (or_empty (rs_waitingExecutionSource st))
      in if or_empty (obj_get waiting nodeName) = []
         then st\<lparr>rs_waitingExecution := obj_delete nodeName waiting,
                 rs_waitingExecutionSource := Some (obj_delete nodeName source)\<rparr>
         else st\<lparr>rs_waitingExecution := waiting, rs_waitingExecutionSource := Some source\<rparr>)"

section \<open>Parents that were not visited (legacy order)\<close>

text \<open>\<^verbatim>\<open>workflow.connectionsByDestinationNode[nodeName].main[0] ?? []\<close>\<close>

definition first_input :: "Workflow \<Rightarrow> string \<Rightarrow> IConnection list res" where
  "first_input w nodeName =
     (case obj_get (wf_connectionsByDestinationNode w) nodeName of
        None \<Rightarrow> Inl JsTypeError
      | Some byType \<Rightarrow> (case obj_get byType Main of None \<Rightarrow> Inl JsTypeError | Some inputs \<Rightarrow> Inr (or_empty (arr_get inputs 0))))"

fun findNodeToAdd :: "IRunData \<Rightarrow> string \<Rightarrow> string list \<Rightarrow> string list \<Rightarrow> string option \<Rightarrow> string list \<Rightarrow> string option" where
  "findNodeToAdd runData inputNode checkOutputNodes executionStackNodes nodeToAdd [] = nodeToAdd"
| "findNodeToAdd runData inputNode checkOutputNodes executionStackNodes nodeToAdd (parentNode # parentNodes) =
     (if inputNode \<noteq> parentNode \<and> parentNode \<in> set checkOutputNodes then None
      else if parentNode \<in> set executionStackNodes then None
      else if obj_get runData parentNode \<noteq> None then nodeToAdd
      else findNodeToAdd runData inputNode checkOutputNodes executionStackNodes (Some parentNode) parentNodes)"

definition source_of :: "string \<Rightarrow> nat \<Rightarrow> nat \<Rightarrow> ISourceData" where
  "source_of parentNodeName outputIndex runIndex =
     \<lparr>src_previousNode = parentNodeName, src_previousNodeOutput = Some outputIndex, src_previousNodeRun = Some runIndex\<rparr>"

definition addEmptyNode :: "Workflow \<Rightarrow> nat \<Rightarrow> string \<Rightarrow> nat \<Rightarrow> string \<Rightarrow> run_state \<Rightarrow> run_state res" where
  "addEmptyNode w outputIndex parentNodeName runIndex nodeToAdd st =
     bind_res
       (if obj_get (wf_connectionsByDestinationNode w) nodeToAdd = None then Inr True
        else bind_res (first_input w nodeToAdd) (\<lambda>conns. incomingConnectionIsEmpty (rs_runData st) conns runIndex))
       (\<lambda>addEmptyItem.
         if addEmptyItem
         then (case getNode w nodeToAdd of
                 None \<Rightarrow> Inl JsTypeError
               | Some node \<Rightarrow> Inr (enqueue_entry w \<lparr>ed_node = node, ed_data = [(Main, [Cell [empty_item]])],
                   ed_source = Some [(Main, [Cell (source_of parentNodeName outputIndex runIndex)])],
                   ed_runIndex = None, ed_metadata = None\<rparr> st))
         else Inr st)"

definition addMissingParent ::
  "Workflow \<Rightarrow> nat \<Rightarrow> string \<Rightarrow> INodeExecutionData list cell list option \<Rightarrow> nat \<Rightarrow> string list \<Rightarrow> IConnection
     \<Rightarrow> run_state \<Rightarrow> run_state res" where
  "addMissingParent w outputIndex parentNodeName nodeSuccessData runIndex checkOutputNodes inputData st =
     (if con_node inputData = parentNodeName then Inr st
      else let executionStackNodes = map (node_name \<circ> ed_node) (rs_nodeExecutionStack st) in
        bind_res
          (if con_node inputData \<in> set checkOutputNodes
           then bind_res (first_input w (con_node inputData)) (\<lambda>conns.
                bind_res (incomingConnectionIsEmpty (rs_runData st) conns runIndex) (\<lambda>isEmpty. Inr (\<not> isEmpty)))
           else Inr False)
          (\<lambda>runsAnyway.
            if runsAnyway \<or> con_node inputData \<in> set executionStackNodes
              \<or> obj_get (rs_runData st) (con_node inputData) \<noteq> None \<or> \<not> isLegacyExecutionOrder w
            then Inr st
            else let parentNodes = rev (workflow_getParentNodes w (con_node inputData) Main (- 1) @ [con_node inputData]);
                     nodeToAdd = findNodeToAdd (rs_runData st) (con_node inputData) checkOutputNodes executionStackNodes
                       (Some (con_node inputData)) parentNodes;
                     parentNodesNodeToAdd = workflow_getParentNodes w
                       (case nodeToAdd of None \<Rightarrow> ''undefined'' | Some n \<Rightarrow> n) Main (- 1)
                 in bind_res
                   (if parentNodeName \<in> set parentNodesNodeToAdd
                    then (case map_option (\<lambda>outputs. cell_get outputs outputIndex) nodeSuccessData of
                            Some (Cell items) \<Rightarrow> Inr (items = [])
                          | _ \<Rightarrow> Inl JsTypeError)
                    else Inr False)
                   (\<lambda>noData. case (if noData then None else nodeToAdd) of
                       None \<Rightarrow> Inr st
                     | Some n \<Rightarrow> addEmptyNode w outputIndex parentNodeName runIndex n st)))"

definition addMissingParents ::
  "Workflow \<Rightarrow> string \<Rightarrow> nat \<Rightarrow> string \<Rightarrow> INodeExecutionData list cell list option \<Rightarrow> nat \<Rightarrow> run_state \<Rightarrow> run_state res" where
  "addMissingParents w nodeName outputIndex parentNodeName nodeSuccessData runIndex st =
     (case obj_get (wf_connectionsBySourceNode w) parentNodeName of
        None \<Rightarrow> Inl JsTypeError
      | Some byType \<Rightarrow>
          let checkOutputNodes = map con_node (concat (map or_empty (or_empty (obj_get byType Main))))
          in fold_res (addMissingParent w outputIndex parentNodeName nodeSuccessData runIndex checkOutputNodes)
               (concat (map or_empty (main_inputs w nodeName))) st)"

section \<open>Adding a node\<close>

text \<open>The data that arrives: \<^verbatim>\<open>null\<close>, or \<^verbatim>\<open>nodeSuccessData[outputIndex]\<close>.\<close>

definition arriving :: "INodeExecutionData list cell list option \<Rightarrow> nat \<Rightarrow> INodeExecutionData list cell" where
  "arriving nodeSuccessData outputIndex = (case nodeSuccessData of None \<Rightarrow> Null | Some outputs \<Rightarrow> cell_get outputs outputIndex)"

text \<open>All data is there: the entry moves from the waiting ones to the stack.\<close>

definition startWaiting ::
  "Workflow \<Rightarrow> string \<Rightarrow> nat \<Rightarrow> ITaskDataConnections \<Rightarrow> ITaskDataConnectionsSource \<Rightarrow> run_state \<Rightarrow> run_state res" where
  "startWaiting w nodeName index entry source st =
     (case obj_get (wf_nodes w) nodeName of
        None \<Rightarrow> Inl JsTypeError
      | Some node \<Rightarrow> Inr (remove_waiting nodeName index (enqueue_entry w \<lparr>ed_node = node, ed_data = entry,
          ed_source = Some source, ed_runIndex = None, ed_metadata = None\<rparr> st)))"

definition addToWaiting ::
  "Workflow \<Rightarrow> IConnection \<Rightarrow> nat \<Rightarrow> string \<Rightarrow> INodeExecutionData list cell list option \<Rightarrow> nat \<Rightarrow> run_state \<Rightarrow> run_state res" where
  "addToWaiting w connectionData outputIndex parentNodeName nodeSuccessData runIndex st0 =
     (let nodeName = con_node connectionData; inputIndex = con_index connectionData;
          v = arriving nodeSuccessData outputIndex;
          numberOfInputs = length (main_inputs w nodeName);
          nodeWasWaiting = (obj_get (rs_waitingExecution st0) nodeName \<noteq> None);
          source0 = or_empty (rs_waitingExecutionSource st0);
          st1 = (if nodeWasWaiting then st0\<lparr>rs_waitingExecutionSource := Some source0\<rparr>
                 else st0\<lparr>rs_waitingExecution := obj_set nodeName [] (rs_waitingExecution st0),
                          rs_waitingExecutionSource := Some (obj_set nodeName [] source0)\<rparr>);
          entries = or_empty (obj_get (rs_waitingExecution st1) nodeName)
      in bind_res (findWaitingIndex inputIndex entries) (\<lambda>found.
         let waitingNodeIndex = (case found of Some i \<Rightarrow> i | None \<Rightarrow> length entries);
             st2 = (if found = None then prepareWaitingToExecution nodeName numberOfInputs waitingNodeIndex st1 else st1)
         in bind_res (set_waiting_input nodeName waitingNodeIndex inputIndex v (rs_waitingExecution st2)) (\<lambda>waiting.
            bind_res (set_waiting_input nodeName waitingNodeIndex inputIndex
                (if nodeSuccessData = None then Null else Cell (source_of parentNodeName outputIndex runIndex))
                (or_empty (rs_waitingExecutionSource st2))) (\<lambda>source.
            let st3 = st2\<lparr>rs_waitingExecution := waiting, rs_waitingExecutionSource := Some source\<rparr>
            in bind_res (waiting_at waiting nodeName waitingNodeIndex) (\<lambda>entry.
               bind_res (main_of entry) (\<lambda>cells.
               bind_res (waiting_at source nodeName waitingNodeIndex) (\<lambda>sourceEntry.
                 if Null \<notin> set cells
                 then startWaiting w nodeName waitingNodeIndex entry sourceEntry st3
                 else bind_res (if nodeWasWaiting then Inr st3
                        else addMissingParents w nodeName outputIndex parentNodeName nodeSuccessData runIndex st3) (\<lambda>st4.
                      bind_res (main_of sourceEntry) (\<lambda>sourceCells.
                        Inr (st4\<lparr>rs_waitingExecution :=
                                set_waiting_entry nodeName waitingNodeIndex [(Main, cell_set inputIndex v cells)] (rs_waitingExecution st4),
                              rs_waitingExecutionSource :=
                                Some (set_waiting_entry nodeName waitingNodeIndex [(Main, sourceCells)]
                                  (or_empty (rs_waitingExecutionSource st4)))\<rparr>))))))))))"

definition addNodeToBeExecuted ::
  "Workflow \<Rightarrow> IConnection \<Rightarrow> nat \<Rightarrow> string \<Rightarrow> INodeExecutionData list cell list option \<Rightarrow> nat \<Rightarrow> nat option \<Rightarrow> ITaskMetadata option
     \<Rightarrow> run_state \<Rightarrow> run_state res" where
  "addNodeToBeExecuted w connectionData outputIndex parentNodeName nodeSuccessData runIndex newRunIndex metadata st =
     (if length (main_inputs w (con_node connectionData)) > 1
      then addToWaiting w connectionData outputIndex parentNodeName nodeSuccessData runIndex st
      else case obj_get (wf_nodes w) (con_node connectionData) of
        None \<Rightarrow> Inr st
      | Some node \<Rightarrow> Inr (enqueue_entry w \<lparr>ed_node = node,
          ed_data = [(Main, replicate (con_index connectionData) Null @ [arriving nodeSuccessData outputIndex])],
          ed_source = Some [(Main, [Cell (source_of parentNodeName outputIndex runIndex)])],
          ed_runIndex = newRunIndex, ed_metadata = metadata\<rparr> st))"

section \<open>The nodes after a node\<close>

record node_to_add =
  na_position :: "rat \<times> rat"
  na_connection :: IConnection
  na_outputIndex :: nat

text \<open>
  The comparator of the nodes to add: it answers 0 where it should answer 1, for a node further to the left.
\<close>

definition compare_positions :: "node_to_add \<Rightarrow> node_to_add \<Rightarrow> int" where
  "compare_positions a b =
     (if snd (na_position a) < snd (na_position b) then 1
      else if snd (na_position a) > snd (na_position b) then - 1
      else if fst (na_position a) > fst (na_position b) then - 1
      else 0)"

text \<open>
  One connection of the node that ran; \<open>nodesToAdd\<close> collects the nodes for the order \<^verbatim>\<open>v1\<close>, the legacy
  order adds them at once.
\<close>

definition addSuccessor ::
  "Workflow \<Rightarrow> string \<Rightarrow> INodeExecutionData list cell list \<Rightarrow> nat \<Rightarrow> nat \<times> IConnection
     \<Rightarrow> node_to_add list \<times> run_state \<Rightarrow> (node_to_add list \<times> run_state) res" where
  "addSuccessor w nodeName nodeSuccessData runIndex target acc =
     (let (outputIndex, connectionData) = target; (nodesToAdd, st) = acc
      in case obj_get (wf_nodes w) (con_node connectionData) of
           None \<Rightarrow> Inl (ApplicationError ''Destination node not found'')
         | Some node \<Rightarrow>
             (case cell_get nodeSuccessData outputIndex of
                Cell items \<Rightarrow>
                  if items \<noteq> [] \<or> (con_index connectionData > 0 \<and> isLegacyExecutionOrder w)
                  then if wf_executionOrder w = Some ''v1''
                       then Inr (nodesToAdd @ [\<lparr>na_position = node_position node, na_connection = connectionData,
                              na_outputIndex = outputIndex\<rparr>], st)
                       else bind_res (addNodeToBeExecuted w connectionData outputIndex nodeName (Some nodeSuccessData) runIndex
                              None None st) (\<lambda>st'. Inr (nodesToAdd, st'))
                  else Inr (nodesToAdd, st)
              | _ \<Rightarrow> Inr (nodesToAdd, st)))"

text \<open>\<^verbatim>\<open>for (outputIndex in ...) for (connectionData of ...)\<close>\<close>

definition main_targets_of :: "Workflow \<Rightarrow> string \<Rightarrow> (nat \<times> IConnection) list" where
  "main_targets_of w nodeName =
     concat (map (\<lambda>(outputIndex, conns). map (Pair outputIndex) (or_empty conns))
       (enumerate 0 (or_empty (obj_get (or_empty (obj_get (wf_connectionsBySourceNode w) nodeName)) Main))))"

definition addSuccessors ::
  "Workflow \<Rightarrow> string \<Rightarrow> INodeExecutionData list cell list \<Rightarrow> nat \<Rightarrow> run_state \<Rightarrow> run_state res" where
  "addSuccessors w nodeName nodeSuccessData runIndex st =
     bind_res (fold_res (addSuccessor w nodeName nodeSuccessData runIndex) (main_targets_of w nodeName) ([], st))
       (\<lambda>(nodesToAdd, st1).
         if wf_executionOrder w = Some ''v1''
         then fold_res (\<lambda>nodeData. addNodeToBeExecuted w (na_connection nodeData) (na_outputIndex nodeData) nodeName
                (Some nodeSuccessData) runIndex None None) (js_sort compare_positions nodesToAdd) st1
         else Inr st1)"

section \<open>Releasing a waiting node\<close>

text \<open>\<^verbatim>\<open>nodeType.description.inputs.length\<close>: of an expression, the length of its text.\<close>

fun inputs_length :: "node_outputs \<Rightarrow> nat" where
  "inputs_length (StaticOutputs inputs) = length inputs"
| "inputs_length (OutputsExpression s) = length s"

text \<open>
  The required inputs of a node; \<open>evalInputs\<close> is \<^verbatim>\<open>workflow.expression.getSimpleParameterValue\<close>, which evaluates an
  expression of the description.
\<close>

definition required_of ::
  "(INode \<Rightarrow> string \<Rightarrow> required_inputs option) \<Rightarrow> Workflow \<Rightarrow> INode \<Rightarrow> INodeType \<Rightarrow> required_inputs option" where
  "required_of evalInputs w node nodeType =
     (if wf_executionOrder w = Some ''v1''
      then (case nt_requiredInputs nodeType of
              Some (RequiredExpression e) \<Rightarrow> evalInputs node e
            | r \<Rightarrow> r)
      else None)"

fun all_required :: "required_inputs option \<Rightarrow> nat \<Rightarrow> bool" where
  "all_required (Some (RequiredIndexes is)) n \<longleftrightarrow> length is = n"
| "all_required (Some (RequiredCount k)) n \<longleftrightarrow> k = n"
| "all_required _ n \<longleftrightarrow> False"

text \<open>\<^verbatim>\<open>inputsWithData\<close>, and whether required inputs have no data.\<close>

definition inputs_with_data :: "'a cell list \<Rightarrow> nat list" where
  "inputs_with_data cells = filter (\<lambda>i. cell_option (cells ! i) \<noteq> None) [0..<length cells]"

fun input_missing :: "required_inputs option \<Rightarrow> nat list \<Rightarrow> bool" where
  "input_missing (Some (RequiredIndexes is)) inputsWithData \<longleftrightarrow> \<not> set is \<subseteq> set inputsWithData"
| "input_missing (Some (RequiredCount k)) inputsWithData \<longleftrightarrow> length inputsWithData < k"
| "input_missing _ inputsWithData \<longleftrightarrow> False"

text \<open>\<^verbatim>\<open>Object.keys(...).sort()[0]\<close>: the keys are sorted as strings.\<close>

fun str_less :: "string \<Rightarrow> string \<Rightarrow> bool" where
  "str_less s [] \<longleftrightarrow> False"
| "str_less [] (d # t) \<longleftrightarrow> True"
| "str_less (c # s) (d # t) \<longleftrightarrow> of_char c < (of_char d :: nat) \<or> c = d \<and> str_less s t"

definition compare_keys :: "nat \<Rightarrow> nat \<Rightarrow> int" where
  "compare_keys i j = (if str_less (nat_str i) (nat_str j) then - 1 else if i = j then 0 else 1)"

text \<open>\<^verbatim>\<open>data === null ? [] : data\<close>, and the padding with empty arrays.\<close>

fun fill_input :: "INodeExecutionData list cell \<Rightarrow> INodeExecutionData list cell" where
  "fill_input Null = Cell []"
| "fill_input Hole = Hole"
| "fill_input (Cell items) = Cell items"

definition has_items :: "INodeExecutionData list cell list \<Rightarrow> bool" where
  "has_items cells \<longleftrightarrow> list_ex (\<lambda>c. cell_option c \<noteq> None \<and> cell_option c \<noteq> Some []) cells"

datatype release_result = Blocked | Released run_state | Dropped run_state

definition releaseNode ::
  "NodeTypes \<Rightarrow> (INode \<Rightarrow> string \<Rightarrow> required_inputs option) \<Rightarrow> Workflow \<Rightarrow> string list \<Rightarrow> string \<Rightarrow> run_state
     \<Rightarrow> release_result res" where
  "releaseNode nodeTypes evalInputs w waitingNodes nodeName st =
     (case getNode w nodeName of
        None \<Rightarrow> Inr Blocked
      | Some checkNode \<Rightarrow>
         (case nodeTypes (node_type checkNode) (node_typeVersion checkNode) of
            None \<Rightarrow> Inl JsTypeError
          | Some nodeType \<Rightarrow>
              let requiredInputs = required_of evalInputs w checkNode nodeType;
                  numberOfInputs = inputs_length (nt_inputs nodeType)
              in if all_required requiredInputs numberOfInputs then Inr Blocked
                 else if \<exists>value \<in> set (workflow_getParentNodes w nodeName Main (- 1)). value \<in> set waitingNodes
                 then Inr Blocked
                 else let runIndexes = js_sort compare_keys (keys_of (or_empty (obj_get (rs_waitingExecution st) nodeName)))
                   in if runIndexes = [] then Inl JsTypeError
                   else let firstRunIndex = hd runIndexes in
                     bind_res (waiting_at (rs_waitingExecution st) nodeName firstRunIndex) (\<lambda>entry.
                     bind_res (main_of entry) (\<lambda>cells.
                       if input_missing requiredInputs (inputs_with_data cells) then Inr Blocked
                       else let taskDataMain = map fill_input cells in
                         case rs_waitingExecutionSource st of
                           None \<Rightarrow> Inl JsTypeError
                         | Some source \<Rightarrow>
                            (case obj_get source nodeName of
                               None \<Rightarrow> Inl JsTypeError
                             | Some sources \<Rightarrow>
                                 Inr (if has_items taskDataMain
                                   then Released (remove_waiting nodeName firstRunIndex
                                     (st\<lparr>rs_nodeExecutionStack := rs_nodeExecutionStack st @ [\<lparr>ed_node = checkNode,
                                       ed_data = [(Main, taskDataMain @ replicate (numberOfInputs - length taskDataMain) (Cell []))],
                                       ed_source = map_get sources firstRunIndex, ed_runIndex = None, ed_metadata = None\<rparr>]\<rparr>))
                                   else Dropped (remove_waiting nodeName firstRunIndex st)))))))"

text \<open>
  The loop over the waiting nodes: an entry without any items is dropped, and the loop starts over with the nodes that
  still wait.
\<close>

definition waiting_count :: "IWaitingForExecution \<Rightarrow> nat" where
  "waiting_count waiting = sum_list (map (length \<circ> snd) waiting)"

function releaseLoop ::
  "NodeTypes \<Rightarrow> (INode \<Rightarrow> string \<Rightarrow> required_inputs option) \<Rightarrow> Workflow \<Rightarrow> string list \<Rightarrow> string list \<Rightarrow> run_state
     \<Rightarrow> run_state res" where
  "releaseLoop nodeTypes evalInputs w waitingNodes [] st = Inr st"
| "releaseLoop nodeTypes evalInputs w waitingNodes (nodeName # rest) st =
     (case releaseNode nodeTypes evalInputs w waitingNodes nodeName st of
        Inl e \<Rightarrow> Inl e
      | Inr Blocked \<Rightarrow> releaseLoop nodeTypes evalInputs w waitingNodes rest st
      | Inr (Released st') \<Rightarrow> Inr st'
      | Inr (Dropped st') \<Rightarrow> releaseLoop nodeTypes evalInputs w
          (keys_of (rs_waitingExecution st')) (keys_of (rs_waitingExecution st')) st')"
  by pat_completeness auto

lemma waiting_count_update:
  "map_get m k = Some es \<Longrightarrow> length es' < length es \<Longrightarrow> waiting_count (map_update k es' m) < waiting_count m"
  by (induction m) (auto simp: waiting_count_def)

lemma waiting_count_delete: "waiting_count (map_delete k m) \<le> waiting_count m"
  by (induction m) (auto simp: waiting_count_def map_delete_def)

lemma length_map_delete_less: "map_get m k = Some e \<Longrightarrow> length (map_delete k m) < length m"
proof (induction m)
  case (Cons x m)
  have "length (map_delete k m) \<le> length m" by (simp add: map_delete_def)
  with Cons show ?case by (cases "fst x = k") (auto simp: map_delete_def less_Suc_eq_le)
qed simp

lemma waiting_count_remove:
  assumes "waiting_at (rs_waitingExecution st) nodeName i = Inr entry"
  shows "waiting_count (rs_waitingExecution (remove_waiting nodeName i st)) < waiting_count (rs_waitingExecution st)"
proof -
  from assms obtain es where es: "map_get (rs_waitingExecution st) nodeName = Some es" "map_get es i = Some entry"
    by (auto simp: waiting_at_def split: option.splits)
  have key: "nodeName \<in> set (keys_of (rs_waitingExecution st))" using map_of_SomeD [OF es(1)] by force
  let ?w = "delete_waiting nodeName i (rs_waitingExecution st)"
  have "?w = map_update nodeName (map_delete i es) (rs_waitingExecution st)"
    using key by (simp add: delete_waiting_def es(1) obj_set_def)
  with waiting_count_update [OF es(1) length_map_delete_less [OF es(2)]]
  have "waiting_count ?w < waiting_count (rs_waitingExecution st)" by simp
  with waiting_count_delete [of nodeName ?w] show ?thesis by (auto simp: remove_waiting_def Let_def)
qed

lemma releaseNode_dropped:
  assumes "releaseNode nodeTypes evalInputs w waitingNodes nodeName st = Inr (Dropped st')"
  shows "waiting_count (rs_waitingExecution st') < waiting_count (rs_waitingExecution st)"
proof -
  from assms obtain i entry where "waiting_at (rs_waitingExecution st) nodeName i = Inr entry" "st' = remove_waiting nodeName i st"
    by (auto simp: releaseNode_def Let_def bind_res_eq_Inr split: option.splits if_splits)
  with waiting_count_remove show ?thesis by blast
qed

termination releaseLoop
  by (relation "measures [\<lambda>(types, ev, w, waitingNodes, rest, st). waiting_count (rs_waitingExecution st),
      \<lambda>(types, ev, w, waitingNodes, rest, st). length rest]")
    (auto dest: releaseNode_dropped)

definition releaseWaiting ::
  "NodeTypes \<Rightarrow> (INode \<Rightarrow> string \<Rightarrow> required_inputs option) \<Rightarrow> Workflow \<Rightarrow> run_state \<Rightarrow> run_state res" where
  "releaseWaiting nodeTypes evalInputs w st =
     (let waitingNodes = keys_of (rs_waitingExecution st)
      in if rs_nodeExecutionStack st = [] \<and> waitingNodes \<noteq> []
         then releaseLoop nodeTypes evalInputs w waitingNodes waitingNodes st else Inr st)"

section \<open>Checking the input data\<close>

text \<open>One input of the loop of \<^verbatim>\<open>ensureInputData\<close>: \<open>Some\<close> answer ends the loop.\<close>

definition checkInput :: "Workflow \<Rightarrow> IExecuteData \<Rightarrow> nat \<Rightarrow> bool option" where
  "checkInput w executionData connectionIndex =
     (if fst (getHighestNode w (node_name (ed_node executionData)) (Some connectionIndex) []) = [] then Some True
      else case obj_get (ed_data executionData) Main of
        None \<Rightarrow> Some False
      | Some cells \<Rightarrow>
          if isLegacyExecutionOrder w \<and> (length cells < connectionIndex \<or> cell_get cells connectionIndex = Null)
          then Some False else None)"

fun checkInputs :: "Workflow \<Rightarrow> IExecuteData \<Rightarrow> nat list \<Rightarrow> bool" where
  "checkInputs w executionData [] = True"
| "checkInputs w executionData (connectionIndex # connectionIndexes) =
     (case checkInput w executionData connectionIndex of
        Some answer \<Rightarrow> answer
      | None \<Rightarrow> checkInputs w executionData connectionIndexes)"

definition ensureInputData :: "Workflow \<Rightarrow> IExecuteData \<Rightarrow> run_state \<Rightarrow> bool \<times> run_state" where
  "ensureInputData w executionData st =
     (if checkInputs w executionData [0..<length (main_inputs w (node_name (ed_node executionData)))]
      then (True, st)
      else (False, st\<lparr>rs_nodeExecutionStack := rs_nodeExecutionStack st @ [executionData]\<rparr>))"

end
