(* ===== verification/Execution_Items.thy ===== *)
theory Execution_Items
  imports Execution_Stack
begin

text \<open>
  What \<^verbatim>\<open>WorkflowExecute\<close> does with the items that flow through a node: the paired items that tell from which input item an
  output item comes, the items of disabled nodes and of nodes that run once, errors that nodes report in their items.

  Values. The model passes items by value. The engine changes items in place only while it owns them: the items of a node's input are
  copied when its stack entry is taken, and the changes to the output happen before it is stored.
\<close>

section \<open>Properties of objects\<close>

definition get_prop :: "IDataObject \<Rightarrow> string \<Rightarrow> jsval" where
  "get_prop obj k = (case obj_get obj k of None \<Rightarrow> JUndefined | Some v \<Rightarrow> v)"

text \<open>\<^verbatim>\<open>v.k\<close>, where \<^verbatim>\<open>k\<close> is not a property of strings, numbers and arrays.\<close>

definition read_prop :: "jsval \<Rightarrow> string \<Rightarrow> jsval res" where
  "read_prop v k = (case v of
      JUndefined \<Rightarrow> Inl JsTypeError
    | JNull \<Rightarrow> Inl JsTypeError
    | JObj obj \<Rightarrow> Inr (get_prop obj k)
    | _ \<Rightarrow> Inr JUndefined)"

fun truthy :: "jsval \<Rightarrow> bool" where
  "truthy JUndefined \<longleftrightarrow> False"
| "truthy JNull \<longleftrightarrow> False"
| "truthy (JBool b) \<longleftrightarrow> b"
| "truthy (JNum x) \<longleftrightarrow> x \<noteq> 0"
| "truthy (JStr s) \<longleftrightarrow> s \<noteq> []"
| "truthy (JArr _) \<longleftrightarrow> True"
| "truthy (JObj _) \<longleftrightarrow> True"

text \<open>\<^verbatim>\<open>{ ...a, ...b }\<close>; only objects have properties to spread.\<close>

fun spread :: "jsval \<Rightarrow> IDataObject" where
  "spread (JObj obj) = obj"
| "spread _ = []"

definition merge_objects :: "IDataObject \<Rightarrow> IDataObject \<Rightarrow> IDataObject" where
  "merge_objects a b = fold (\<lambda>(k, v). obj_set k v) b a"

section \<open>Paired items\<close>

definition resolveSourceOverwrite :: "INodeExecutionData \<Rightarrow> IExecuteData \<Rightarrow> jsval res" where
  "resolveSourceOverwrite item executionData =
     (case ed_metadata executionData of
        None \<Rightarrow> Inr JNull
      | Some metadata \<Rightarrow>
          if tm_preserveSourceOverwrite metadata \<noteq> Some True then Inr JNull
          else if \<exists>v \<in> set_option (tm_preservedSourceOverwrite metadata). truthy v
          then Inr (the (tm_preservedSourceOverwrite metadata))
          else (case get_prop item ''pairedItem'' of
                  JNull \<Rightarrow> Inl JsTypeError
                | JObj paired \<Rightarrow> Inr (case obj_get paired ''sourceOverwrite'' of None \<Rightarrow> JNull | Some v \<Rightarrow> v)
                | _ \<Rightarrow> Inr JNull))"

text \<open>\<^verbatim>\<open>{ ...item, pairedItem: { item: itemIndex, input: inputIndex || undefined, ... } }\<close>\<close>

definition pair_item :: "IExecuteData \<Rightarrow> nat \<Rightarrow> nat \<times> INodeExecutionData \<Rightarrow> INodeExecutionData res" where
  "pair_item executionData inputIndex = (\<lambda>(itemIndex, item).
     bind_res (resolveSourceOverwrite item executionData) (\<lambda>sourceOverwrite.
       let paired = [(''item'', JNum (of_nat itemIndex)), (''input'', if inputIndex = 0 then JUndefined else JNum (of_nat inputIndex))]
       in Inr (obj_set ''pairedItem''
            (JObj (if truthy sourceOverwrite then paired @ [(''sourceOverwrite'', sourceOverwrite)] else paired)) item)))"

definition pair_input :: "IExecuteData \<Rightarrow> nat \<times> INodeExecutionData list cell \<Rightarrow> INodeExecutionData list cell res" where
  "pair_input executionData = (\<lambda>(inputIndex, input). case input of
      Cell items \<Rightarrow> bind_res (map_res (pair_item executionData inputIndex) (enumerate 0 items)) (\<lambda>items'. Inr (Cell items'))
    | _ \<Rightarrow> Inr input)"

definition updatePairedItems :: "IExecuteData \<Rightarrow> IExecuteData res" where
  "updatePairedItems executionData =
     bind_res (map_res (\<lambda>(connectionType, inputs).
         bind_res (map_res (pair_input executionData) (enumerate 0 inputs)) (\<lambda>inputs'. Inr (connectionType, inputs')))
       (ed_data executionData))
       (\<lambda>newTaskDataConnections. Inr (executionData\<lparr>ed_data := newTaskDataConnections\<rparr>))"

text \<open>
  The index of the input item that an output item without \<^verbatim>\<open>pairedItem\<close> is paired with; \<open>None\<close> when it cannot be known.
\<close>

fun cell_length :: "'a list cell \<Rightarrow> nat option" where
  "cell_length (Cell xs) = Some (length xs)"
| "cell_length Hole = None"
| "cell_length Null = None"

definition paired_index :: "INodeExecutionData list cell list \<Rightarrow> INodeExecutionData list cell list \<Rightarrow> (nat \<Rightarrow> nat option) res" where
  "paired_index outputs inputs =
     (let isSingleInputAndOutput = (length inputs = 1 \<and> cell_length (cell_get inputs 0) = Some 1) in
      if length outputs = 1 \<and> length inputs = 1 \<and> cell_length (cell_get outputs 0) = None then Inl JsTypeError
      else let isSameNumberOfItems = (length outputs = 1 \<and> length inputs = 1
                 \<and> cell_length (cell_get inputs 0) = cell_length (cell_get outputs 0));
               isSingleOutput = (length outputs = 1 \<and> cell_length (cell_get outputs 0) = Some 1 \<and> length inputs = 1
                 \<and> (case cell_length (cell_get inputs 0) of None \<Rightarrow> False | Some n \<Rightarrow> 1 < n))
           in Inr (\<lambda>index. if isSingleInputAndOutput then Some 0 else if isSameNumberOfItems then Some index
                else if isSingleOutput then Some 0 else None))"

text \<open>The items of one output; the flag tells whether the loop ended because an item cannot be paired.\<close>

fun pair_output_items :: "(nat \<Rightarrow> nat option) \<Rightarrow> nat \<Rightarrow> INodeExecutionData list \<Rightarrow> INodeExecutionData list \<times> bool" where
  "pair_output_items origin index [] = ([], False)"
| "pair_output_items origin index (item # items) =
     (if get_prop item ''pairedItem'' \<noteq> JUndefined
      then (case pair_output_items origin (Suc index) items of (items', stopped) \<Rightarrow> (item # items', stopped))
      else case origin index of
        None \<Rightarrow> (item # items, True)
      | Some k \<Rightarrow> (case pair_output_items origin (Suc index) items of (items', stopped) \<Rightarrow>
          (obj_set ''pairedItem'' (JObj [(''item'', JNum (of_nat k))]) item # items', stopped)))"

fun pair_outputs :: "(nat \<Rightarrow> nat option) \<Rightarrow> INodeExecutionData list cell list \<Rightarrow> INodeExecutionData list cell list res" where
  "pair_outputs origin [] = Inr []"
| "pair_outputs origin (Null # outputs) = bind_res (pair_outputs origin outputs) (\<lambda>outputs'. Inr (Null # outputs'))"
| "pair_outputs origin (Hole # outputs) = Inl JsTypeError"
| "pair_outputs origin (Cell items # outputs) =
     (case pair_output_items origin 0 items of (items', stopped) \<Rightarrow>
        if stopped then Inr (Cell items' # outputs)
        else bind_res (pair_outputs origin outputs) (\<lambda>outputs'. Inr (Cell items' # outputs')))"

text \<open>What a node outputs: \<^verbatim>\<open>undefined\<close>, \<^verbatim>\<open>null\<close> or an array of outputs.\<close>

type_synonym node_data = "INodeExecutionData list cell list cell"

definition assignPairedItems :: "node_data \<Rightarrow> IExecuteData \<Rightarrow> node_data res" where
  "assignPairedItems nodeSuccessData executionData =
     (case nodeSuccessData of
        Cell outputs \<Rightarrow>
          if outputs = [] then Inr nodeSuccessData
          else bind_res (main_of (ed_data executionData)) (\<lambda>inputs.
               bind_res (paired_index outputs inputs) (\<lambda>origin.
               bind_res (pair_outputs origin outputs) (\<lambda>outputs'. Inr (Cell outputs'))))
      | _ \<Rightarrow> Inr Null)"

section \<open>Input of a node\<close>

definition handleDisabledNode :: "ITaskDataConnections \<Rightarrow> node_data" where
  "handleDisabledNode inputData =
     (case obj_get inputData Main of
        Some (input # _) \<Rightarrow> if input = Null then Hole else Cell [input]
      | _ \<Rightarrow> Hole)"

definition prepareConnectionInputData :: "Workflow \<Rightarrow> INodeType \<Rightarrow> bool \<Rightarrow> ITaskDataConnections \<Rightarrow> INodeExecutionData list option" where
  "prepareConnectionInputData w nodeType customOperation inputData =
     (if nt_execute nodeType \<or> customOperation \<or> \<not> nt_poll nodeType \<and> \<not> nt_trigger nodeType \<and> \<not> nt_webhook nodeType
      then (case obj_get inputData Main of
              Some (input # inputs) \<Rightarrow>
                let connectionInputData = (if isLegacyExecutionOrder w then input
                      else case find (\<lambda>mainData. has_items [mainData]) (input # inputs) of
                        None \<Rightarrow> input | Some mainData \<Rightarrow> mainData)
                in if has_items [connectionInputData] then cell_option connectionInputData else None
            | _ \<Rightarrow> None)
      else Some [])"

definition handleExecuteOnce :: "INode \<Rightarrow> ITaskDataConnections \<Rightarrow> ITaskDataConnections" where
  "handleExecuteOnce node inputData =
     (if node_executeOnce node = Some True
      then map (\<lambda>(connectionType, inputs). (connectionType, map (map_cell (take 1)) inputs)) inputData
      else inputData)"

text \<open>The resource and the operation that a node names, where its type has a function for them.\<close>

definition getCustomOperation :: "INode \<Rightarrow> INodeType \<Rightarrow> bool" where
  "getCustomOperation node nodeType =
     (case nt_customOperations nodeType of
        None \<Rightarrow> False
      | Some customOperations \<Rightarrow>
          let selected = (case node_forceCustomOperation node of Some f \<Rightarrow> f | None \<Rightarrow> node_parameters node)
          in (case (get_prop selected ''resource'', get_prop selected ''operation'') of
                (JStr resource, JStr operation) \<Rightarrow> operation \<in> set (or_empty (obj_get customOperations resource))
              | _ \<Rightarrow> False))"

section \<open>Output of a node\<close>

definition first_item :: "node_data \<Rightarrow> INodeExecutionData option" where
  "first_item nodeSuccessData =
     (case nodeSuccessData of Cell (Cell (item # _) # _) \<Rightarrow> Some item | _ \<Rightarrow> None)"

text \<open>\<^verbatim>\<open>checkFailure\<close>: the first item reports an error.\<close>

definition checkFailure :: "node_data \<Rightarrow> bool" where
  "checkFailure nodeSuccessData =
     (case first_item nodeSuccessData of
        None \<Rightarrow> False
      | Some item \<Rightarrow> (case get_prop item ''json'' of
            JObj json \<Rightarrow> get_prop json ''error'' \<notin> {JUndefined, JNull, JBool False}
          | _ \<Rightarrow> False))"

text \<open>The empty item of \<^verbatim>\<open>alwaysOutputData\<close>, paired with all input items.\<close>

definition input_pairs :: "INodeExecutionData list cell list \<Rightarrow> jsval list" where
  "input_pairs inputs = concat (map (\<lambda>(inputIndex, input). case input of
       Cell items \<Rightarrow> map (\<lambda>itemIndex. JObj [(''item'', JNum (of_nat itemIndex)), (''input'', JNum (of_nat inputIndex))]) [0..<length items]
     | _ \<Rightarrow> []) (enumerate 0 inputs))"

definition alwaysOutput :: "IExecuteData \<Rightarrow> node_data \<Rightarrow> node_data res" where
  "alwaysOutput executionData nodeSuccessData =
     (if first_item nodeSuccessData = None \<and> node_alwaysOutputData (ed_node executionData) = Some True
      then bind_res (main_of (ed_data executionData)) (\<lambda>inputs.
        Inr (Cell (cell_set 0 (Cell [[(''json'', JObj []), (''pairedItem'', JArr (input_pairs inputs))]])
          (case nodeSuccessData of Cell outputs \<Rightarrow> outputs | _ \<Rightarrow> []))))
      else Inr nodeSuccessData)"

text \<open>Errors that a node reports in its items become the \<^verbatim>\<open>json\<close> of the items.\<close>

definition merge_error :: "INodeExecutionData \<Rightarrow> INodeExecutionData res" where
  "merge_error item =
     bind_res (if get_prop item ''json'' = JUndefined then Inr (JUndefined, JUndefined)
               else bind_res (read_prop (get_prop item ''json'') ''$error'') (\<lambda>e.
                    bind_res (read_prop (get_prop item ''json'') ''$json'') (\<lambda>j. Inr (e, j)))) (\<lambda>(e, j).
       if e \<noteq> JUndefined \<and> j \<noteq> JUndefined
       then bind_res (read_prop e ''message'') (\<lambda>message.
              Inr (obj_set ''json'' (JObj [(''error'', message)]) (obj_set ''error'' e item)))
       else if get_prop item ''error'' \<noteq> JUndefined
       then bind_res (read_prop (get_prop item ''error'') ''message'') (\<lambda>message. Inr (obj_set ''json'' (JObj [(''error'', message)]) item))
       else Inr item)"

definition merge_errors :: "node_data \<Rightarrow> INodeExecutionData list cell list res" where
  "merge_errors nodeSuccessData =
     (case nodeSuccessData of
        Cell outputs \<Rightarrow> map_res (\<lambda>execution. case execution of
            Cell items \<Rightarrow> bind_res (map_res merge_error items) (\<lambda>items'. Inr (Cell items'))
          | _ \<Rightarrow> Inl JsTypeError) outputs
      | _ \<Rightarrow> Inl JsTypeError)"

section \<open>The error output\<close>

text \<open>
  \<^verbatim>\<open>NodeHelpers.getNodeOutputs\<close> and \<^verbatim>\<open>getConnectionTypes\<close>; \<open>evalOutputs\<close> is the evaluation of an expression, with the empty
  array where it fails.
\<close>

fun output_type :: "node_output \<Rightarrow> string" where
  "output_type (OutputType t) = t"
| "output_type (OutputConfiguration t) = t"

definition getConnectionTypes :: "node_output list \<Rightarrow> string list" where
  "getConnectionTypes connections = map output_type connections"

definition getNodeOutputs :: "(INode \<Rightarrow> string \<Rightarrow> node_output list) \<Rightarrow> INode \<Rightarrow> INodeType \<Rightarrow> node_output list" where
  "getNodeOutputs evalOutputs node nodeType =
     (let outputs = (case nt_outputs nodeType of StaticOutputs outputs \<Rightarrow> outputs | OutputsExpression e \<Rightarrow> evalOutputs node e)
      in if node_onError node = Some ''continueErrorOutput''
         then (case outputs of [OutputType t] \<Rightarrow> [OutputConfiguration t] | _ \<Rightarrow> outputs) @ [OutputConfiguration Main]
         else outputs)"

text \<open>Whether an item reports an error: \<^verbatim>\<open>errorData\<close> is truthy.\<close>

definition error_item :: "INodeExecutionData \<Rightarrow> bool res" where
  "error_item item =
     (if truthy (get_prop item ''error'') then Inr True
      else bind_res (read_prop (get_prop item ''json'') ''error'') (\<lambda>e.
        if \<not> truthy e then Inr False
        else case get_prop item ''json'' of
          JObj json \<Rightarrow> Inr (length json = 1 \<or> truthy (get_prop json ''message'') \<and> length json = 2)
        | _ \<Rightarrow> Inr False))"

text \<open>
  The error item with the data of its input item; \<open>getPairedItem\<close> is \<^verbatim>\<open>dataProxy.$getPairedItem\<close>.
\<close>

definition index_value :: "jsval \<Rightarrow> nat option" where
  "index_value v = (if \<not> truthy v then Some 0
     else case v of JNum x \<Rightarrow> if 0 \<le> x \<and> of_int \<lfloor>x\<rfloor> = x then Some (nat \<lfloor>x\<rfloor>) else None | _ \<Rightarrow> None)"

definition source_at :: "ITaskDataConnectionsSource \<Rightarrow> jsval \<Rightarrow> ISourceData res" where
  "source_at source input =
     bind_res (main_of source) (\<lambda>sources. case index_value input of
         None \<Rightarrow> Inl JsTypeError
       | Some i \<Rightarrow> (case cell_get sources i of Cell src \<Rightarrow> Inr src | _ \<Rightarrow> Inl JsTypeError))"

definition enrich_error_item ::
  "(string \<Rightarrow> ISourceData \<Rightarrow> jsval \<Rightarrow> INodeExecutionData option res) \<Rightarrow> IExecuteData \<Rightarrow> INodeExecutionData \<Rightarrow> INodeExecutionData res" where
  "enrich_error_item getPairedItem executionData item =
     (let pairedItemData = (case get_prop item ''pairedItem'' of
            JArr (p # _) \<Rightarrow> p | JObj p \<Rightarrow> JObj p | _ \<Rightarrow> JUndefined)
      in case ed_source executionData of
           None \<Rightarrow> Inr item
         | Some source \<Rightarrow>
             if pairedItemData = JUndefined then Inr item
             else bind_res (read_prop pairedItemData ''input'') (\<lambda>input.
                  bind_res (source_at source input) (\<lambda>sourceData.
                  bind_res (getPairedItem (src_previousNode sourceData) sourceData pairedItemData) (\<lambda>constPairedItem.
                    Inr (case constPairedItem of
                      None \<Rightarrow> item
                    | Some p \<Rightarrow> obj_set ''json'' (JObj (merge_objects (spread (get_prop p ''json'')) (spread (get_prop item ''json'')))) item)))))"

fun split_errors ::
  "(string \<Rightarrow> ISourceData \<Rightarrow> jsval \<Rightarrow> INodeExecutionData option res) \<Rightarrow> IExecuteData \<Rightarrow> INodeExecutionData list
     \<Rightarrow> (INodeExecutionData list \<times> INodeExecutionData list) res" where
  "split_errors getPairedItem executionData [] = Inr ([], [])"
| "split_errors getPairedItem executionData (item # items) =
     bind_res (error_item item) (\<lambda>isError.
       if isError
       then bind_res (enrich_error_item getPairedItem executionData item) (\<lambda>item'.
            bind_res (split_errors getPairedItem executionData items) (\<lambda>(successItems, errorItems). Inr (successItems, item' # errorItems)))
       else bind_res (split_errors getPairedItem executionData items) (\<lambda>(successItems, errorItems). Inr (item # successItems, errorItems)))"

definition split_output ::
  "(string \<Rightarrow> ISourceData \<Rightarrow> jsval \<Rightarrow> INodeExecutionData option res) \<Rightarrow> IExecuteData \<Rightarrow> nat
     \<Rightarrow> INodeExecutionData list cell list \<times> INodeExecutionData list \<Rightarrow> (INodeExecutionData list cell list \<times> INodeExecutionData list) res" where
  "split_output getPairedItem executionData outputIndex = (\<lambda>(outputs, errorItems).
     bind_res (split_errors getPairedItem executionData (or_empty (cell_option (cell_get outputs outputIndex)))) (\<lambda>(success, errors).
       Inr (cell_set outputIndex (Cell success) outputs, errorItems @ errors)))"

definition handleNodeErrorOutput ::
  "NodeTypes \<Rightarrow> (INode \<Rightarrow> string \<Rightarrow> node_output list) \<Rightarrow> (string \<Rightarrow> ISourceData \<Rightarrow> jsval \<Rightarrow> INodeExecutionData option res)
     \<Rightarrow> IExecuteData \<Rightarrow> INodeExecutionData list cell list \<Rightarrow> INodeExecutionData list cell list res" where
  "handleNodeErrorOutput nodeTypes evalOutputs getPairedItem executionData nodeSuccessData =
     (let node = ed_node executionData in
      case nodeTypes (node_type node) (node_typeVersion node) of
        None \<Rightarrow> Inl JsTypeError
      | Some nodeType \<Rightarrow>
          let mainOutputTypes = filter (\<lambda>output. output = Main) (getConnectionTypes (getNodeOutputs evalOutputs node nodeType))
          in bind_res (fold_res (split_output getPairedItem executionData) [0..<length mainOutputTypes - 1] (nodeSuccessData, []))
               (\<lambda>(outputs, errorItems). Inr (if mainOutputTypes = [] then outputs
                  else cell_set (length mainOutputTypes - 1) (Cell errorItems) outputs)))"

end
