(* ===== verification/Engine_Requests.thy ===== *)
theory Engine_Requests
  imports Execution_Items
begin

text \<open>
  Requests of nodes to the engine (\<^verbatim>\<open>packages/core/src/execution-engine/requests-response.ts\<close> and \<^verbatim>\<open>handleEngineRequest\<close> of
  \<^verbatim>\<open>WorkflowExecute\<close>): an agent asks for its tools to be run; the engine puts them on the stack in front of the agent, which
  is run again with their results.

  An exception leaves the changes behind that were made before it, so the definitions return the error beside the state.
  The state is the workflow, whose node objects are marked, and the run state; a marked node object is also the node of the stack entries
  that refer to it. The runs of a node that is named as a parent are not an empty array.
\<close>

record NodeToBeExecuted =
  nb_inputConnectionData :: IConnection
  nb_parentOutputIndex :: nat
  nb_parentNode :: string
  nb_parentOutputData :: "INodeExecutionData list cell list option"
  nb_runIndex :: nat
  nb_nodeRunIndex :: nat
  nb_metadata :: ITaskMetadata

definition no_metadata :: ITaskMetadata where
  "no_metadata = \<lparr>tm_subNodeExecutionData = None, tm_preserveSourceOverwrite = None, tm_preservedSourceOverwrite = None,
     tm_nodeWasResumed = None, tm_other = []\<rparr>"

text \<open>A source as the object that items carry.\<close>

definition source_object :: "string \<Rightarrow> nat \<Rightarrow> nat \<Rightarrow> jsval" where
  "source_object node output run = JObj [(''previousNode'', JStr node), (''previousNodeOutput'', JNum (of_nat output)),
     (''previousNodeRun'', JNum (of_nat run))]"

definition buildParentOutputData :: "IDataObject \<Rightarrow> nat \<Rightarrow> nat \<Rightarrow> string \<Rightarrow> INodeExecutionData list cell list" where
  "buildParentOutputData json parentRunIndex parentOutputIndex parentSourceNode =
     [Cell [[(''json'', JObj json), (''pairedItem'', JObj [(''item'', JNum (of_nat parentRunIndex)),
        (''input'', JNum (of_nat parentOutputIndex)),
        (''sourceOverwrite'', source_object parentSourceNode parentOutputIndex parentRunIndex)])]]]"

definition custom_parent :: "EngineAction \<Rightarrow> bool" where
  "custom_parent action \<longleftrightarrow> or_empty (ea_parentNodeName action) \<noteq> []"

definition initializeNodeRunData ::
  "IRunData \<Rightarrow> string \<Rightarrow> string \<Rightarrow> nat \<Rightarrow> nat \<Rightarrow> EngineAction \<Rightarrow> nat \<Rightarrow> INodeExecutionData list cell list \<Rightarrow> IRunData \<times> nat" where
  "initializeNodeRunData runData nodeName parentNode parentOutputIndex parentRunIndex action runIndex displayOutputData =
     (let nodeRunData = or_empty (obj_get runData nodeName);
          sourceData = \<lparr>src_previousNode = parentNode, src_previousNodeOutput = Some parentOutputIndex,
            src_previousNodeRun = Some (if custom_parent action then parentRunIndex else runIndex)\<rparr>
      in (obj_set nodeName (nodeRunData @ [\<lparr>td_executionIndex = Some 0, td_source = [Cell sourceData], td_executionStatus = None,
            td_metadata = None, td_inputOverride = Some [(AiTool, displayOutputData)], td_error = None, td_data = None\<rparr>]) runData,
          length nodeRunData))"

text \<open>\<^verbatim>\<open>node.rewireOutputLogTo = type\<close> on the node object.\<close>

definition rewire_node :: "INode \<Rightarrow> string \<Rightarrow> Workflow \<times> run_state \<Rightarrow> Workflow \<times> run_state" where
  "rewire_node node type = (\<lambda>(w, st).
     let node' = node\<lparr>node_rewireOutputLogTo := Some type\<rparr>; upd = (\<lambda>n. if n = node then node' else n)
     in (w\<lparr>wf_nodes := map (\<lambda>(k, n). (k, upd n)) (wf_nodes w)\<rparr>,
         st\<lparr>rs_nodeExecutionStack := map (\<lambda>e. e\<lparr>ed_node := upd (ed_node e)\<rparr>) (rs_nodeExecutionStack st)\<rparr>))"

definition source_cell :: "IExecuteData \<Rightarrow> nat \<Rightarrow> ISourceData option" where
  "source_cell executionData i =
     (case ed_source executionData of
        None \<Rightarrow> None
      | Some source \<Rightarrow> (case obj_get source Main of None \<Rightarrow> None | Some sources \<Rightarrow> cell_option (cell_get sources i)))"

definition parent_output :: "IExecuteData \<Rightarrow> nat \<Rightarrow> nat" where
  "parent_output executionData runIndex =
     (case source_cell executionData runIndex of
        Some src \<Rightarrow> (case src_previousNodeOutput src of Some i \<Rightarrow> i | None \<Rightarrow> 0)
      | None \<Rightarrow> 0)"

definition parent_source :: "INode \<Rightarrow> IExecuteData \<Rightarrow> nat \<Rightarrow> string" where
  "parent_source currentNode executionData runIndex =
     (case source_cell executionData runIndex of Some src \<Rightarrow> src_previousNode src | None \<Rightarrow> node_name currentNode)"

definition parent_run :: "IRunData \<Rightarrow> INode \<Rightarrow> IExecuteData \<Rightarrow> nat \<Rightarrow> EngineAction \<Rightarrow> nat" where
  "parent_run runData currentNode executionData runIndex action =
     (if custom_parent action
      then (case obj_get runData (case ea_parentNodeName action of Some p \<Rightarrow> p | None \<Rightarrow> node_name currentNode) of
              None \<Rightarrow> 0 | Some runs \<Rightarrow> length runs - 1)
      else case source_cell executionData runIndex of
             Some src \<Rightarrow> (case src_previousNodeRun src of Some i \<Rightarrow> i | None \<Rightarrow> 0)
           | None \<Rightarrow> 0)"

text \<open>The item that the agent works on.\<close>

definition agent_json :: "IExecuteData \<Rightarrow> EngineAction \<Rightarrow> IDataObject" where
  "agent_json executionData action =
     (case obj_get (ed_data executionData) Main of
        None \<Rightarrow> []
      | Some inputs \<Rightarrow>
          let items = or_empty (cell_option (cell_get inputs 0)); i = (case ea_itemIndex action of Some i \<Rightarrow> i | None \<Rightarrow> 0)
          in if i < length items then spread (get_prop (items ! i) ''json'') else [])"

definition prepareRequestedNode ::
  "INode \<Rightarrow> IExecuteData \<Rightarrow> nat \<Rightarrow> EngineAction \<Rightarrow> INode \<Rightarrow> Workflow \<times> run_state
     \<Rightarrow> (Workflow \<times> run_state) \<times> NodeToBeExecuted \<times> SubNodeExecutionDataAction" where
  "prepareRequestedNode currentNode executionData runIndex action node wst =
     (let (w, st) = rewire_node node (ea_type action) wst;
          parentNode = (case ea_parentNodeName action of Some p \<Rightarrow> p | None \<Rightarrow> node_name currentNode);
          output = parent_output executionData runIndex; source = parent_source currentNode executionData runIndex;
          run = parent_run (rs_runData st) currentNode executionData runIndex action;
          mergedJson = obj_set ''toolCallId'' (JStr (ea_id action)) (merge_objects (agent_json executionData action) (ea_input action));
          (runData, nodeRunIndex) = initializeNodeRunData (rs_runData st) (node_name node) parentNode output run action runIndex
            (buildParentOutputData (ea_input action) run output source)
      in ((w, st\<lparr>rs_runData := runData\<rparr>),
          \<lparr>nb_inputConnectionData = \<lparr>con_node = ea_nodeName action, con_type = ea_type action, con_index = 0\<rparr>,
           nb_parentOutputIndex = 0, nb_parentNode = parentNode,
           nb_parentOutputData = Some (buildParentOutputData mergedJson run output source),
           nb_runIndex = (if custom_parent action then run else runIndex), nb_nodeRunIndex = nodeRunIndex,
           nb_metadata = no_metadata\<lparr>tm_preserveSourceOverwrite := Some True, tm_preservedSourceOverwrite :=
             (case (case ed_metadata executionData of None \<Rightarrow> None | Some m \<Rightarrow> tm_preservedSourceOverwrite m) of
                None \<Rightarrow> Some (source_object source output run) | Some v \<Rightarrow> Some v)\<rparr>\<rparr>,
          \<lparr>sna_action = action, sna_nodeName = ea_nodeName action, sna_runIndex = nodeRunIndex\<rparr>))"

fun prepareRequestedNodesForExecution ::
  "INode \<Rightarrow> IExecuteData \<Rightarrow> nat \<Rightarrow> EngineAction list \<Rightarrow> Workflow \<times> run_state
     \<Rightarrow> js_error option \<times> (Workflow \<times> run_state) \<times> NodeToBeExecuted list \<times> SubNodeExecutionDataAction list" where
  "prepareRequestedNodesForExecution currentNode executionData runIndex [] wst = (None, wst, [], [])"
| "prepareRequestedNodesForExecution currentNode executionData runIndex (action # actions) wst =
     (case getNode (fst wst) (ea_nodeName action) of
        None \<Rightarrow> (Some (UnexpectedError (''Workflow does not contain a node with the name of \"'' @ ea_nodeName action @ ''\".'')), wst, [], [])
      | Some node \<Rightarrow>
          let (wst1, nb, sna) = prepareRequestedNode currentNode executionData runIndex action node wst;
              (err, wst2, nbs, snas) = prepareRequestedNodesForExecution currentNode executionData runIndex actions wst1
          in (err, wst2, nb # nbs, sna # snas))"

text \<open>The connection, the parent and the metadata with which the node itself runs again; \<open>None\<close> ignores the request.\<close>

definition prepareRequestingNodeForResuming :: "IExecuteData \<Rightarrow> (IConnection \<times> string \<times> ITaskMetadata) option" where
  "prepareRequestingNodeForResuming executionData =
     (case source_cell executionData 0 of
        None \<Rightarrow> None
      | Some src \<Rightarrow>
          if src_previousNode src = [] then None
          else Some (\<lparr>con_node = node_name (ed_node executionData), con_type = AiTool, con_index = 0\<rparr>, src_previousNode src,
            case ed_metadata executionData of
              None \<Rightarrow> no_metadata
            | Some m \<Rightarrow>
                if (\<exists>v \<in> set_option (tm_preservedSourceOverwrite m). truthy v) \<and> tm_preserveSourceOverwrite m = Some True
                then no_metadata\<lparr>tm_preserveSourceOverwrite := Some True, tm_preservedSourceOverwrite := tm_preservedSourceOverwrite m\<rparr>
                else no_metadata))"

definition handleRequest ::
  "INode \<Rightarrow> EngineRequest \<Rightarrow> nat \<Rightarrow> IExecuteData \<Rightarrow> Workflow \<times> run_state
     \<Rightarrow> js_error option \<times> (Workflow \<times> run_state) \<times> NodeToBeExecuted list" where
  "handleRequest currentNode request runIndex executionData wst =
     (case prepareRequestedNodesForExecution currentNode executionData runIndex (er_actions request) wst of
        (Some e, wst', _) \<Rightarrow> (Some e, wst', [])
      | (None, wst', nodesToBeExecuted, actions) \<Rightarrow>
          (case prepareRequestingNodeForResuming executionData of
             None \<Rightarrow> (None, wst', [])
           | Some (connectionData, parentNode, metadata) \<Rightarrow>
               (None, wst', \<lparr>nb_inputConnectionData = connectionData, nb_parentOutputIndex = 0, nb_parentNode = parentNode,
                  nb_parentOutputData = obj_get (ed_data executionData) Main, nb_runIndex = runIndex, nb_nodeRunIndex = runIndex,
                  nb_metadata = metadata\<lparr>tm_nodeWasResumed := Some True,
                    tm_subNodeExecutionData := Some (actions, er_metadata request)\<rparr>\<rparr> # nodesToBeExecuted)))"

text \<open>
  \<^verbatim>\<open>handleEngineRequest\<close>: the nodes are added one by one; an exception in \<^verbatim>\<open>addNodeToBeExecuted\<close> leaves the state before that call.
\<close>

fun addRequestedNodes :: "Workflow \<Rightarrow> NodeToBeExecuted list \<Rightarrow> run_state \<Rightarrow> js_error option \<times> run_state" where
  "addRequestedNodes w [] st = (None, st)"
| "addRequestedNodes w (nodeData # nodes) st =
     (case (case nb_parentOutputData nodeData of
              None \<Rightarrow> Inl JsTypeError
            | Some outputData \<Rightarrow> addNodeToBeExecuted w (nb_inputConnectionData nodeData) (nb_parentOutputIndex nodeData)
                (nb_parentNode nodeData) (Some outputData) (nb_runIndex nodeData) (Some (nb_nodeRunIndex nodeData))
                (Some (nb_metadata nodeData)) st) of
        Inl e \<Rightarrow> (Some e, st)
      | Inr st' \<Rightarrow> addRequestedNodes w nodes st')"

definition handleEngineRequest ::
  "INode \<Rightarrow> EngineRequest \<Rightarrow> nat \<Rightarrow> IExecuteData \<Rightarrow> Workflow \<times> run_state \<Rightarrow> js_error option \<times> Workflow \<times> run_state" where
  "handleEngineRequest currentNode request runIndex executionData wst =
     (case handleRequest currentNode request runIndex executionData wst of
        (Some e, wst', _) \<Rightarrow> (Some e, wst')
      | (None, (w, st), nodesToBeExecuted) \<Rightarrow>
          (case addRequestedNodes w nodesToBeExecuted st of (err, st') \<Rightarrow> (err, w, st')))"

end
