(* ===== verification/Execution_Loop.thy ===== *)
theory Execution_Loop
  imports Engine_Requests
begin

text \<open>
  The execution of a workflow (\<^verbatim>\<open>packages/core/src/execution-engine/workflow-execute.ts\<close>): \<^verbatim>\<open>run\<close>, \<^verbatim>\<open>runNode\<close>, the loop of
  \<^verbatim>\<open>processRunExecutionData\<close> that takes entries from the execution stack, runs their nodes with retries, stores the results and adds the nodes that
  follow, and the end of an execution.

  Parameters. What the code of a node does is an answer of the environment: \<open>env_answer k\<close> is what the \<open>k\<close>-th call of such code
  returns or throws, and whether it puts the execution to wait. So are the evaluation of expressions in node descriptions
  (\<open>env_evalInputs\<close>, \<open>env_evalOutputs\<close>), the lookup of paired items in the data proxy, the issues of node parameters, and the
  time: \<open>env_interrupt i\<close> tells whether the execution is canceled or its time has run out when the loop comes to its \<open>i\<close>-th round.

  Cancellation sets the status, which only the head of the loop reads, so it takes effect between two rounds. Hooks, logging, error
  reports, telemetry tags, hints, times and the conversion of binary data to the combined mode are left out; a hook that throws is not modelled.
\<close>

section \<open>The state\<close>

record exec_state =
  es_workflow :: Workflow
  es_run :: run_state
  es_pinData :: "IPinData option"
  es_metadata :: "(string \<times> ITaskMetadata list) list"
  es_lastNodeExecuted :: "string option"
  es_resultError :: "ExecutionError option"
  es_waitTill :: "int option"
  es_destinationNode :: "IDestinationNode option"
  es_runNodeFilter :: "string list option"
  es_executionIndex :: nat
  es_status :: execution_status
  es_timedOut :: bool
  es_lastExecutionTry :: string
  es_executionError :: "ExecutionError option"
  es_calls :: nat

record EngineResponse =
  resp_actionResponses :: "(EngineAction \<times> ITaskData) list"
  resp_metadata :: jsval

definition makeEngineResponse :: EngineResponse where
  "makeEngineResponse = \<lparr>resp_actionResponses = [], resp_metadata = JObj []\<rparr>"

datatype node_result = Thrown ExecutionError | Requested EngineRequest | Response node_data

record node_answer =
  ans_result :: node_result
  ans_waitTill :: "int option"

datatype interrupt = NoInterrupt | Canceled | TimedOut

datatype node_issues = TypeUnknown | ParameterIssues jsval

record engine_env =
  env_nodeTypes :: NodeTypes
  env_manual :: bool
  env_answer :: "nat \<Rightarrow> INode \<Rightarrow> ITaskDataConnections \<Rightarrow> EngineResponse option \<Rightarrow> node_answer"
  env_evalInputs :: "INode \<Rightarrow> string \<Rightarrow> required_inputs option"
  env_evalOutputs :: "INode \<Rightarrow> string \<Rightarrow> node_output list"
  env_getPairedItem :: "string \<Rightarrow> ISourceData \<Rightarrow> jsval \<Rightarrow> INodeExecutionData option res"
  env_error :: "js_error \<Rightarrow> ExecutionError"
  env_interrupt :: "nat \<Rightarrow> interrupt"
  env_issues :: "INodeType \<Rightarrow> INode \<Rightarrow> string list \<Rightarrow> jsval option"

text \<open>The error object of an exception; the text of the engine's own errors is a parameter.\<close>

definition caught :: "engine_env \<Rightarrow> js_error \<Rightarrow> ExecutionError" where
  "caught env e = (case e of ThrownError name message \<Rightarrow> \<lparr>err_name = name, err_message = message\<rparr> | _ \<Rightarrow> env_error env e)"

section \<open>Running a node\<close>

definition call_node ::
  "engine_env \<Rightarrow> INode \<Rightarrow> ITaskDataConnections \<Rightarrow> EngineResponse option \<Rightarrow> exec_state \<Rightarrow> node_result \<times> exec_state" where
  "call_node env node inputData response es =
     (let answer = env_answer env (es_calls es) node inputData response
      in (ans_result answer, es\<lparr>es_calls := Suc (es_calls es),
            es_waitTill := (case ans_waitTill answer of None \<Rightarrow> es_waitTill es | Some t \<Rightarrow> Some t)\<rparr>))"

definition rethrowLastNodeError :: "exec_state \<Rightarrow> INode \<Rightarrow> ExecutionError option" where
  "rethrowLastNodeError es node =
     (if es_lastNodeExecuted es = Some (node_name node)
      then map_option (\<lambda>e. if err_name e \<in> {''NodeOperationError'', ''NodeApiError''} then e
             else \<lparr>err_name = ''Error'', err_message = err_message e\<rparr>) (es_resultError es)
      else None)"

definition runNode :: "engine_env \<Rightarrow> IExecuteData \<Rightarrow> EngineResponse option \<Rightarrow> exec_state \<Rightarrow> node_result \<times> exec_state" where
  "runNode env executionData response es =
     (let node = ed_node executionData; inputData = ed_data executionData in
      if node_disabled node = Some True then (Response (handleDisabledNode inputData), es)
      else case env_nodeTypes env (node_type node) (node_typeVersion node) of
        None \<Rightarrow> (Thrown (caught env JsTypeError), es)
      | Some nodeType \<Rightarrow>
          let customOperation = getCustomOperation node nodeType
          in if prepareConnectionInputData (es_workflow es) nodeType customOperation inputData = None then (Response Hole, es)
             else case rethrowLastNodeError es node of
               Some e \<Rightarrow> (Thrown e, es)
             | None \<Rightarrow>
                 let inputData' = handleExecuteOnce node inputData;
                     passed = (Response (case obj_get inputData' Main of None \<Rightarrow> Hole | Some inputs \<Rightarrow> Cell inputs), es)
                 in if nt_execute nodeType \<or> customOperation then call_node env node inputData' response es
                    else if nt_poll nodeType \<or> nt_trigger nodeType
                    then (if env_manual env then call_node env node inputData' response es else passed)
                    else if nt_supplyData nodeType
                    then (Thrown (caught env (ApplicationError
                      (''The node \"'' @ node_type node @ ''\" has a \"supplyData\" method but no \"execute\" method.''))), es)
                    else if nt_webhook nodeType \<and> \<not> nt_requestDefaults nodeType then passed
                    else call_node env node inputData' response es)"

text \<open>The results of the nodes that the node asked for.\<close>

definition sub_node_results :: "IExecuteData \<Rightarrow> IRunData \<Rightarrow> EngineResponse \<Rightarrow> EngineResponse" where
  "sub_node_results executionData runData response =
     (case (case ed_metadata executionData of None \<Rightarrow> None | Some m \<Rightarrow> tm_subNodeExecutionData m) of
        None \<Rightarrow> response
      | Some (actions, metadata) \<Rightarrow>
          \<lparr>resp_actionResponses = resp_actionResponses response @ concat (map (\<lambda>subNode.
             let nodeRunData = or_empty (obj_get runData (sna_nodeName subNode))
             in if sna_runIndex subNode < length nodeRunData then [(sna_action subNode, nodeRunData ! sna_runIndex subNode)] else []) actions),
           resp_metadata = metadata\<rparr>)"

section \<open>Retries\<close>

definition max_tries :: "INode \<Rightarrow> nat" where
  "max_tries node =
     (if node_retryOnFail node = Some True
      then nat (min 5 (max 2 (case node_maxTries node of None \<Rightarrow> 3 | Some n \<Rightarrow> if n = 0 then 3 else n)))
      else 1)"

fun result_failed :: "node_result \<Rightarrow> bool" where
  "result_failed (Response nodeData) \<longleftrightarrow> checkFailure nodeData"
| "result_failed _ \<longleftrightarrow> False"

text \<open>\<^verbatim>\<open>while (nodeFailed && tryIndex !== maxTries - 1)\<close>\<close>

function retry_failed ::
  "engine_env \<Rightarrow> IExecuteData \<Rightarrow> nat \<Rightarrow> nat \<Rightarrow> node_result \<Rightarrow> exec_state \<Rightarrow> node_result \<times> nat \<times> exec_state" where
  "retry_failed env executionData maxTries tryIndex result es =
     (if result_failed result \<and> Suc tryIndex < maxTries
      then (case runNode env executionData None es of
              (Thrown e, es') \<Rightarrow> (Thrown e, tryIndex, es')
            | (result', es') \<Rightarrow> retry_failed env executionData maxTries (Suc tryIndex) result' es')
      else (result, tryIndex, es))"
  by pat_completeness auto

termination retry_failed
  by (relation "measure (\<lambda>(env, ed, maxTries, tryIndex, result, es). maxTries - tryIndex)") auto

declare retry_failed.simps [simp del]

text \<open>One round of \<^verbatim>\<open>for (let tryIndex = 0; ...)\<close>: it ends with data, ends the branch, or fails.\<close>

datatype attempt = Finished | EndBranch | Failed ExecutionError

definition pinned_items :: "exec_state \<Rightarrow> INode \<Rightarrow> INodeExecutionData list option" where
  "pinned_items es node =
     (case es_pinData es of
        None \<Rightarrow> None
      | Some pinData \<Rightarrow> if node_disabled node = Some True then None else obj_get pinData (node_name node))"

definition complete_attempt ::
  "engine_env \<Rightarrow> IExecuteData \<Rightarrow> node_data \<Rightarrow> exec_state \<Rightarrow> attempt \<times> node_data \<times> exec_state" where
  "complete_attempt env executionData nodeSuccessData es =
     (case assignPairedItems nodeSuccessData executionData of
        Inl e \<Rightarrow> (Failed (caught env e), nodeSuccessData, es)
      | Inr nodeSuccessData1 \<Rightarrow>
          let es1 = (if nodeSuccessData1 = Null then es else es\<lparr>es_lastNodeExecuted := Some (node_name (ed_node executionData))\<rparr>)
          in case alwaysOutput executionData nodeSuccessData1 of
               Inl e \<Rightarrow> (Failed (caught env e), nodeSuccessData1, es1)
             | Inr nodeSuccessData2 \<Rightarrow>
                 (if nodeSuccessData2 = Null \<and> es_waitTill es1 = None then EndBranch else Finished, nodeSuccessData2, es1))"

definition try_node ::
  "engine_env \<Rightarrow> IExecuteData \<Rightarrow> nat \<Rightarrow> nat \<Rightarrow> nat \<Rightarrow> node_data \<Rightarrow> EngineResponse \<Rightarrow> exec_state
     \<Rightarrow> attempt \<times> node_data \<times> nat \<times> EngineResponse \<times> exec_state" where
  "try_node env executionData runIndex maxTries tryIndex nodeSuccessData response es =
     (case pinned_items es (ed_node executionData) of
        Some items \<Rightarrow>
          (case complete_attempt env executionData (Cell [Cell items]) es of (a, d, es1) \<Rightarrow> (a, d, tryIndex, response, es1))
      | None \<Rightarrow>
          let response1 = sub_node_results executionData (rs_runData (es_run es)) response;
              (result0, es0) = runNode env executionData (Some response1) es;
              (result, tryIndex1, es1) = retry_failed env executionData maxTries tryIndex result0 es0
          in case result of
               Thrown e \<Rightarrow> (Failed e, nodeSuccessData, tryIndex1, response1, es1)
             | Requested request \<Rightarrow>
                 (case handleEngineRequest (ed_node executionData) request runIndex executionData (es_workflow es1, es_run es1) of
                    (err, w, st) \<Rightarrow> (case err of None \<Rightarrow> EndBranch | Some e \<Rightarrow> Failed (caught env e), nodeSuccessData, tryIndex1, response1,
                      es1\<lparr>es_workflow := w, es_run := st\<rparr>))
             | Response nodeData \<Rightarrow>
                 (case (case nodeData of
                          Cell outputs \<Rightarrow>
                            if node_onError (ed_node executionData) = Some ''continueErrorOutput''
                            then map_sum id Cell (handleNodeErrorOutput (env_nodeTypes env) (env_evalOutputs env) (env_getPairedItem env)
                              executionData outputs)
                            else Inr nodeData
                        | _ \<Rightarrow> Inr nodeData) of
                    Inl e \<Rightarrow> (Failed (caught env e), nodeData, tryIndex1, response1, es1)
                  | Inr nodeData1 \<Rightarrow>
                      (case complete_attempt env executionData nodeData1 es1 of (a, d, es2) \<Rightarrow> (a, d, tryIndex1, response1, es2))))"

lemma retry_failed_index: "retry_failed env ed maxTries i r es = (r', j, es') \<Longrightarrow> i \<le> j"
proof (induction env ed maxTries i r es rule: retry_failed.induct)
  case (1 env ed maxTries i r es)
  show ?case
  proof (cases "result_failed r \<and> Suc i < maxTries")
    case True
    obtain r1 es1 where run: "runNode env ed None es = (r1, es1)" by (cases "runNode env ed None es")
    show ?thesis
    proof (cases r1)
      case (Thrown e)
      with "1.prems" True run show ?thesis by (simp add: retry_failed.simps [of env ed maxTries i])
    next
      case (Requested q)
      with "1.prems" True run "1.IH"(1) [OF True run [symmetric]] show ?thesis by (simp add: retry_failed.simps [of env ed maxTries i])
    next
      case (Response d)
      with "1.prems" True run "1.IH"(2) [OF True run [symmetric]] show ?thesis by (simp add: retry_failed.simps [of env ed maxTries i])
    qed
  qed (use "1.prems" in \<open>auto simp: retry_failed.simps [of env ed maxTries i] split: if_splits\<close>)
qed

lemma try_node_index:
  assumes "try_node env ed runIndex maxTries i d resp es = (a, d', j, resp', es')"
  shows "i \<le> j"
proof (cases "pinned_items es (ed_node ed)")
  case None
  obtain r0 es0 r i1 es1 where
    r: "runNode env ed (Some (sub_node_results ed (rs_runData (es_run es)) resp)) es = (r0, es0)"
      "retry_failed env ed maxTries i r0 es0 = (r, i1, es1)" by (metis prod.exhaust)
  have "j = i1" using assms None r by (auto simp: try_node_def Let_def split: node_result.splits prod.splits sum.splits)
  with retry_failed_index [OF r(2)] show ?thesis by simp
qed (use assms in \<open>auto simp: try_node_def split: prod.splits\<close>)

text \<open>All tries: the flag tells whether the branch ends here.\<close>

function run_tries ::
  "engine_env \<Rightarrow> IExecuteData \<Rightarrow> nat \<Rightarrow> nat \<Rightarrow> nat \<Rightarrow> node_data \<Rightarrow> EngineResponse \<Rightarrow> exec_state \<Rightarrow> bool \<times> node_data \<times> exec_state" where
  "run_tries env executionData runIndex maxTries tryIndex nodeSuccessData response es =
     (if tryIndex < maxTries
      then (case try_node env executionData runIndex maxTries tryIndex nodeSuccessData response
                   (if tryIndex = 0 then es else es\<lparr>es_executionError := None\<rparr>) of
              (a, nodeSuccessData1, tryIndex1, response1, es1) \<Rightarrow>
                (case a of
                   Finished \<Rightarrow> (False, nodeSuccessData1, es1)
                 | EndBranch \<Rightarrow> (True, nodeSuccessData1, es1)
                 | Failed e \<Rightarrow> run_tries env executionData runIndex maxTries (Suc tryIndex1) nodeSuccessData1 response1
                     (es1\<lparr>es_lastNodeExecuted := Some (node_name (ed_node executionData)), es_executionError := Some e\<rparr>)))
      else (False, nodeSuccessData, es))"
  by pat_completeness auto

termination run_tries
  by (relation "measure (\<lambda>(env, ed, r, maxTries, tryIndex, d, resp, es). maxTries - tryIndex)")
    (auto dest!: sym [of "(_, _)" "try_node _ _ _ _ _ _ _ _"] try_node_index)

declare run_tries.simps [simp del]

section \<open>Storing the result of a node\<close>

definition set_run :: "(run_state \<Rightarrow> run_state) \<Rightarrow> exec_state \<Rightarrow> exec_state" where
  "set_run f es = es\<lparr>es_run := f (es_run es)\<rparr>"

text \<open>The run data of a node; the loop creates its array before it reads it.\<close>

definition runs_of :: "exec_state \<Rightarrow> string \<Rightarrow> ITaskData list" where
  "runs_of es name = or_empty (obj_get (rs_runData (es_run es)) name)"

definition run_at :: "exec_state \<Rightarrow> string \<Rightarrow> nat \<Rightarrow> ITaskData option" where
  "run_at es name runIndex = (if runIndex < length (runs_of es name) then Some (runs_of es name ! runIndex) else None)"

text \<open>\<^verbatim>\<open>Object.assign(currentTaskData, taskData)\<close>: the properties that \<^verbatim>\<open>taskData\<close> has.\<close>

definition assign_task :: "ITaskData \<Rightarrow> ITaskData \<Rightarrow> ITaskData" where
  "assign_task current task =
     task\<lparr>td_inputOverride := (case td_inputOverride task of None \<Rightarrow> td_inputOverride current | Some v \<Rightarrow> Some v),
          td_error := (case td_error task of None \<Rightarrow> td_error current | Some v \<Rightarrow> Some v),
          td_data := (case td_data task of None \<Rightarrow> td_data current | Some v \<Rightarrow> Some v)\<rparr>"

definition store_task :: "string \<Rightarrow> nat \<Rightarrow> ITaskData \<Rightarrow> exec_state \<Rightarrow> exec_state" where
  "store_task name runIndex task es =
     set_run (\<lambda>st. st\<lparr>rs_runData := obj_set name
       (case run_at es name runIndex of
          Some current \<Rightarrow> (runs_of es name)[runIndex := assign_task current task]
        | None \<Rightarrow> runs_of es name @ [task]) (rs_runData st)\<rparr>) es"

definition unshift_entry :: "IExecuteData \<Rightarrow> exec_state \<Rightarrow> exec_state" where
  "unshift_entry executionData = set_run (\<lambda>st. st\<lparr>rs_nodeExecutionStack := executionData # rs_nodeExecutionStack st\<rparr>)"

definition new_task :: "nat \<Rightarrow> IExecuteData \<Rightarrow> exec_state \<Rightarrow> ITaskData" where
  "new_task executionIndex executionData es =
     \<lparr>td_executionIndex = Some executionIndex,
      td_source = (case ed_source executionData of None \<Rightarrow> [] | Some source \<Rightarrow> or_empty (obj_get source Main)),
      td_executionStatus = Some (if es_waitTill es = None then StatusSuccess else StatusWaiting),
      td_metadata = ed_metadata executionData, td_inputOverride = None, td_error = None, td_data = None\<rparr>"

text \<open>The data of a task under the connection type it is logged to; the override of the input is kept.\<close>

definition rewire_task :: "INode \<Rightarrow> nat \<Rightarrow> exec_state \<Rightarrow> INodeExecutionData list cell list \<Rightarrow> ITaskData \<Rightarrow> ITaskData" where
  "rewire_task node runIndex es outputs task =
     (case node_rewireOutputLogTo node of
        None \<Rightarrow> task
      | Some type \<Rightarrow> task\<lparr>td_inputOverride := (case run_at es (node_name node) runIndex of
              None \<Rightarrow> Some [] | Some current \<Rightarrow> Some (or_empty (td_inputOverride current))),
            td_data := Some [(type, outputs)]\<rparr>)"

section \<open>Errors of nodes\<close>

definition stops_on_error :: "INode \<Rightarrow> bool" where
  "stops_on_error node \<longleftrightarrow> node_continueOnFail node \<noteq> Some True
     \<and> node_onError node \<notin> {Some ''continueRegularOutput'', Some ''continueErrorOutput''}
     \<and> \<not> (node_rewireOutputLogTo node = Some AiTool \<and> node_onError node \<noteq> Some ''stopWorkflow'')"

definition error_outputs :: "ExecutionError \<Rightarrow> INodeExecutionData list cell list" where
  "error_outputs e = [Cell [[(''json'', JObj [(''error'', JStr (err_message e))])]]]"

text \<open>What a failed node outputs when the workflow goes on: the error for tools, otherwise its first input.\<close>

definition failed_output :: "IExecuteData \<Rightarrow> ExecutionError \<Rightarrow> node_data \<Rightarrow> node_data" where
  "failed_output executionData e nodeSuccessData =
     (if node_rewireOutputLogTo (ed_node executionData) = Some AiTool then Cell (error_outputs e)
      else case obj_get (ed_data executionData) Main of
        Some (input # _) \<Rightarrow> if input = Null then nodeSuccessData else Cell [input]
      | _ \<Rightarrow> nodeSuccessData)"

section \<open>One round of the loop\<close>

datatype loop_step = Continue exec_state | Break exec_state | Throw js_error exec_state

text \<open>The items of pinned data are changed in place.\<close>

definition keep_pinned :: "INode \<Rightarrow> INodeExecutionData list cell list \<Rightarrow> exec_state \<Rightarrow> exec_state" where
  "keep_pinned node outputs es =
     (if es_executionError es = None \<and> or_empty (pinned_items es node) \<noteq> []
      then es\<lparr>es_pinData := map_option (obj_set (node_name node) (or_empty (cell_option (cell_get outputs 0)))) (es_pinData es)\<rparr>
      else es)"

text \<open>The nodes after the node are added, and a waiting node is released when nothing else is to do.\<close>

definition add_next :: "engine_env \<Rightarrow> string \<Rightarrow> INodeExecutionData list cell list \<Rightarrow> nat \<Rightarrow> exec_state \<Rightarrow> loop_step" where
  "add_next env name outputs runIndex es =
     (case addSuccessors (es_workflow es) name outputs runIndex (es_run es) of
        Inl e \<Rightarrow> Throw e es
      | Inr st \<Rightarrow> (case releaseWaiting (env_nodeTypes env) (env_evalInputs env) (es_workflow es) st of
            Inl e \<Rightarrow> Throw e (es\<lparr>es_run := st\<rparr>)
          | Inr st' \<Rightarrow> Continue (es\<lparr>es_run := st'\<rparr>)))"

definition store_output ::
  "engine_env \<Rightarrow> IExecuteData \<Rightarrow> nat \<Rightarrow> ITaskData \<Rightarrow> node_data \<Rightarrow> exec_state \<Rightarrow> loop_step" where
  "store_output env executionData runIndex task nodeSuccessData es =
     (let node = ed_node executionData in
      case merge_errors nodeSuccessData of
        Inl e \<Rightarrow> Throw e es
      | Inr outputs \<Rightarrow>
          let es1 = store_task (node_name node) runIndex (rewire_task node runIndex es outputs (task\<lparr>td_data := Some [(Main, outputs)]\<rparr>))
                (keep_pinned node outputs es)
          in if es_waitTill es1 \<noteq> None then Break (unshift_entry executionData es1)
             else if map_option dn_nodeName (es_destinationNode es1) = Some (node_name node) then Continue es1
             else add_next env (node_name node) outputs runIndex es1)"

definition finish_node ::
  "engine_env \<Rightarrow> IExecuteData \<Rightarrow> nat \<Rightarrow> nat \<Rightarrow> node_data \<Rightarrow> exec_state \<Rightarrow> loop_step" where
  "finish_node env executionData executionIndex runIndex nodeSuccessData es0 =
     (let node = ed_node executionData;
          es = set_run (\<lambda>st. st\<lparr>rs_runData := (if obj_get (rs_runData st) (node_name node) = None
                 then obj_set (node_name node) [] (rs_runData st) else rs_runData st)\<rparr>) es0;
          task = new_task executionIndex executionData es
      in case es_executionError es of
           None \<Rightarrow> store_output env executionData runIndex task nodeSuccessData es
         | Some e \<Rightarrow>
             let failed = task\<lparr>td_error := Some e, td_executionStatus := Some StatusError\<rparr>
             in if stops_on_error node
                then Break (unshift_entry executionData (store_task (node_name node) runIndex
                       (rewire_task node runIndex es (error_outputs e) failed) es))
                else store_output env executionData runIndex failed (failed_output executionData e nodeSuccessData) es)"

definition run_index :: "IExecuteData \<Rightarrow> exec_state \<Rightarrow> nat" where
  "run_index executionData es =
     (case ed_runIndex executionData of Some i \<Rightarrow> i | None \<Rightarrow> length (runs_of es (node_name (ed_node executionData))))"

definition execute_entry :: "engine_env \<Rightarrow> IExecuteData \<Rightarrow> exec_state \<Rightarrow> loop_step" where
  "execute_entry env entry es0 =
     (let executionIndex = es_executionIndex es0;
          es = es0\<lparr>es_executionIndex := Suc executionIndex, es_executionError := None\<rparr>
      in case updatePairedItems entry of
           Inl e \<Rightarrow> Throw e es
         | Inr executionData \<Rightarrow>
             let name = node_name (ed_node executionData);
                 runIndex = run_index executionData es;
                 currentExecutionTry = name @ '':'' @ nat_str runIndex
             in if currentExecutionTry = es_lastExecutionTry es
                then Throw (ApplicationError ''Stopped execution because it seems to be in an endless loop'') es
                else if \<exists>runNodeFilter \<in> set_option (es_runNodeFilter es). name \<notin> set runNodeFilter then Continue es
                else case ensureInputData (es_workflow es) executionData (es_run es) of
                  (False, st) \<Rightarrow> Continue (es\<lparr>es_run := st, es_lastExecutionTry := currentExecutionTry\<rparr>)
                | (True, _) \<Rightarrow>
                    (case run_tries env executionData runIndex (max_tries (ed_node executionData)) 0 Null makeEngineResponse es of
                       (True, _, es1) \<Rightarrow> Continue es1
                     | (False, nodeSuccessData, es1) \<Rightarrow> finish_node env executionData executionIndex runIndex nodeSuccessData es1))"

section \<open>The loop\<close>

definition updateTaskStatusesToCancelled :: "IRunData \<Rightarrow> IRunData" where
  "updateTaskStatusesToCancelled runData =
     map (\<lambda>(name, runs). (name, map (\<lambda>task. if td_executionStatus task = Some StatusRunning
       then task\<lparr>td_executionStatus := Some StatusCanceled\<rparr> else task) runs)) runData"

definition cancel :: "exec_state \<Rightarrow> exec_state" where
  "cancel es = set_run (\<lambda>st. st\<lparr>rs_runData := updateTaskStatusesToCancelled (rs_runData st)\<rparr>) (es\<lparr>es_status := StatusCanceled\<rparr>)"

text \<open>One pass of \<^verbatim>\<open>executionLoop\<close>, from its condition to its end.\<close>

definition loop_round :: "engine_env \<Rightarrow> nat \<Rightarrow> exec_state \<Rightarrow> loop_step" where
  "loop_round env i es0 =
     (let es1 = (if env_interrupt env i = Canceled then cancel es0 else es0) in
      case rs_nodeExecutionStack (es_run es1) of
        [] \<Rightarrow> Break es1
      | entry # entries \<Rightarrow>
          let es = (if env_interrupt env i = TimedOut then es1\<lparr>es_status := StatusCanceled, es_timedOut := True\<rparr> else es1)
          in if es_status es = StatusCanceled then Break es
             else execute_entry env entry (set_run (\<lambda>st. st\<lparr>rs_nodeExecutionStack := entries\<rparr>) es))"

partial_function (option) executionLoop :: "engine_env \<Rightarrow> nat \<Rightarrow> exec_state \<Rightarrow> (js_error option \<times> exec_state) option" where
  "executionLoop env i es =
     (case loop_round env i es of
        Continue es' \<Rightarrow> executionLoop env (Suc i) es'
      | Break es' \<Rightarrow> Some (None, es')
      | Throw e es' \<Rightarrow> Some (Some e, es'))"

declare executionLoop.simps [code]

section \<open>The end of an execution\<close>

text \<open>\<^verbatim>\<open>{ ...taskData.metadata, ...metaRunData }\<close>\<close>

definition merge_metadata :: "ITaskMetadata option \<Rightarrow> ITaskMetadata \<Rightarrow> ITaskMetadata" where
  "merge_metadata old new =
     (case old of
        None \<Rightarrow> new
      | Some m \<Rightarrow>
         \<lparr>tm_subNodeExecutionData = (case tm_subNodeExecutionData new of None \<Rightarrow> tm_subNodeExecutionData m | v \<Rightarrow> v),
          tm_preserveSourceOverwrite = (case tm_preserveSourceOverwrite new of None \<Rightarrow> tm_preserveSourceOverwrite m | v \<Rightarrow> v),
          tm_preservedSourceOverwrite = (case tm_preservedSourceOverwrite new of None \<Rightarrow> tm_preservedSourceOverwrite m | v \<Rightarrow> v),
          tm_nodeWasResumed = (case tm_nodeWasResumed new of None \<Rightarrow> tm_nodeWasResumed m | v \<Rightarrow> v),
          tm_other = merge_objects (tm_other m) (tm_other new)\<rparr>)"

definition move_metadata :: "string \<Rightarrow> nat \<times> ITaskMetadata \<Rightarrow> IRunData \<Rightarrow> IRunData" where
  "move_metadata nodeName = (\<lambda>(index, metadata) runData.
     case obj_get runData nodeName of
       None \<Rightarrow> runData
     | Some runs \<Rightarrow>
         if index < length runs
         then obj_set nodeName (runs[index := (runs ! index)\<lparr>td_metadata := Some (merge_metadata (td_metadata (runs ! index)) metadata)\<rparr>]) runData
         else runData)"

definition moveNodeMetadata :: "exec_state \<Rightarrow> exec_state" where
  "moveNodeMetadata es =
     set_run (\<lambda>st. st\<lparr>rs_runData := fold (\<lambda>(nodeName, metadatas). fold (move_metadata nodeName) (enumerate 0 metadatas)) (es_metadata es)
       (rs_runData st)\<rparr>) es"

record IRun =
  run_state_of :: exec_state
  run_status :: execution_status
  run_error :: "ExecutionError option"
  run_waitTill :: "int option"
  run_finished :: bool

definition contains :: "string \<Rightarrow> string \<Rightarrow> bool" where
  "contains s part \<longleftrightarrow> sublist part s"

definition final_status :: "exec_state \<Rightarrow> ExecutionError option \<Rightarrow> execution_status" where
  "final_status es executionError =
     (case executionError of
        Some e \<Rightarrow> if contains (err_message e) ''canceled'' \<or> contains (err_name e) ''Cancelled'' then StatusCanceled else StatusError
      | None \<Rightarrow> if es_waitTill es \<noteq> None then StatusWaiting else StatusSuccess)"

definition processSuccessExecution :: "exec_state \<Rightarrow> ExecutionError option \<Rightarrow> IRun" where
  "processSuccessExecution es executionError =
     (let status = final_status es executionError;
          es1 = moveNodeMetadata (es\<lparr>es_status := status\<rparr>)
      in \<lparr>run_state_of = es1, run_status = status, run_error = executionError,
          run_waitTill = (if executionError = None then es_waitTill es1 else None),
          run_finished = (executionError = None \<and> es_waitTill es1 = None)\<rparr>)"

text \<open>The errors of canceled executions; \<open>id\<close> is the execution.\<close>

definition cancelled_error :: "bool \<Rightarrow> ExecutionError" where
  "cancelled_error timedOut =
     (if timedOut then \<lparr>err_name = ''TimeoutExecutionCancelledError'', err_message = ''The execution was cancelled because it timed out''\<rparr>
      else \<lparr>err_name = ''ManualExecutionCancelledError'', err_message = ''The execution was cancelled manually''\<rparr>)"

definition finish_run :: "engine_env \<Rightarrow> js_error option \<Rightarrow> exec_state \<Rightarrow> IRun" where
  "finish_run env thrown es =
     (case thrown of
        None \<Rightarrow> processSuccessExecution es
          (if es_status es = StatusCanceled \<and> es_executionError es = None then Some (cancelled_error (es_timedOut es)) else es_executionError es)
      | Some e \<Rightarrow> \<lparr>run_state_of = moveNodeMetadata es, run_status = es_status es, run_error = Some (caught env e),
            run_waitTill = None, run_finished = False\<rparr>)"

section \<open>The start of an execution\<close>

definition checkReadyForExecution ::
  "engine_env \<Rightarrow> Workflow \<Rightarrow> string option \<Rightarrow> IDestinationNode option \<Rightarrow> string list \<Rightarrow> (string \<times> node_issues) list option" where
  "checkReadyForExecution env w startNode destinationNode pinDataNodeNames =
     (let checkNodes = (case destinationNode of
            Some dest \<Rightarrow> workflow_getParentNodes w (dn_nodeName dest) Main (- 1)
              @ (if dn_mode dest = Inclusive then [dn_nodeName dest] else [])
          | None \<Rightarrow> (case startNode of
              Some name \<Rightarrow> if name = [] then [] else workflow_getChildNodes w name Main (- 1) @ [name]
            | None \<Rightarrow> []));
          workflowIssues = fold (\<lambda>nodeName issues.
            case obj_get (wf_nodes w) nodeName of
              None \<Rightarrow> issues
            | Some node \<Rightarrow>
                if node_disabled node = Some True then issues
                else (case env_nodeTypes env (node_type node) (node_typeVersion node) of
                        None \<Rightarrow> obj_set (node_name node) TypeUnknown issues
                      | Some nodeType \<Rightarrow> (case env_issues env nodeType node pinDataNodeNames of
                            None \<Rightarrow> issues | Some i \<Rightarrow> obj_set (node_name node) (ParameterIssues i) issues))) checkNodes []
      in if workflowIssues = [] then None else Some workflowIssues)"

definition checkForWorkflowIssues :: "engine_env \<Rightarrow> exec_state \<Rightarrow> unit res" where
  "checkForWorkflowIssues env es =
     (case checkReadyForExecution env (es_workflow es)
             (map_option (node_name \<circ> ed_node) (arr_at (rs_nodeExecutionStack (es_run es)) 0)) (es_destinationNode es)
             (keys_of (or_empty (es_pinData es))) of
        None \<Rightarrow> Inr ()
      | Some workflowIssues \<Rightarrow> Inl (WorkflowHasIssuesError (keys_of workflowIssues)))"

text \<open>
  An execution that waited goes on: the node that made it wait is disabled, and its last run is removed. The entry was stored with the
  execution, so its node is not the object of the workflow.
\<close>

definition handleWaitingState :: "exec_state \<Rightarrow> exec_state res" where
  "handleWaitingState es =
     (if es_waitTill es = None then Inr es
      else case rs_nodeExecutionStack (es_run es) of
        [] \<Rightarrow> Inl JsTypeError
      | entry # entries \<Rightarrow>
          (case es_lastNodeExecuted es of
             None \<Rightarrow> Inl JsTypeError
           | Some lastNodeExecuted \<Rightarrow> (case obj_get (rs_runData (es_run es)) lastNodeExecuted of
               None \<Rightarrow> Inl JsTypeError
             | Some runs \<Rightarrow> Inr (set_run (\<lambda>st. st\<lparr>rs_runData := obj_set lastNodeExecuted (butlast runs) (rs_runData st),
                   rs_nodeExecutionStack := entry\<lparr>ed_node := (ed_node entry)\<lparr>node_disabled := Some True\<rparr>\<rparr> # entries\<rparr>)
                 (es\<lparr>es_waitTill := None\<rparr>)))))"

text \<open>\<open>None\<close>: the execution does not end.\<close>

definition processRunExecutionData :: "engine_env \<Rightarrow> exec_state \<Rightarrow> (js_error + IRun option)" where
  "processRunExecutionData env es0 =
     (let es1 = es0\<lparr>es_status := StatusRunning, es_lastExecutionTry := [], es_executionError := None\<rparr>
      in bind_res (checkForWorkflowIssues env es1) (\<lambda>_.
         bind_res (handleWaitingState es1) (\<lambda>es.
           Inr (map_option (\<lambda>(thrown, es'). finish_run env thrown es') (executionLoop env 0 es)))))"

text \<open>\<^verbatim>\<open>createRunExecutionData\<close> with the values that an execution starts with.\<close>

definition createRunExecutionData ::
  "Workflow \<Rightarrow> run_state \<Rightarrow> IPinData option \<Rightarrow> IDestinationNode option \<Rightarrow> string list option \<Rightarrow> nat \<Rightarrow> exec_state" where
  "createRunExecutionData w st pinData destinationNode runNodeFilter executionIndex =
     \<lparr>es_workflow = w, es_run = st, es_pinData = pinData, es_metadata = [], es_lastNodeExecuted = None, es_resultError = None,
      es_waitTill = None, es_destinationNode = destinationNode, es_runNodeFilter = runNodeFilter, es_executionIndex = executionIndex,
      es_status = StatusRunning, es_timedOut = False, es_lastExecutionTry = [], es_executionError = None, es_calls = 0\<rparr>"

definition runNodeFilter_of :: "Workflow \<Rightarrow> IDestinationNode \<Rightarrow> string list option \<Rightarrow> string list" where
  "runNodeFilter_of w destinationNode additionalRunFilterNodes =
     set_of (workflow_getParentNodes w (dn_nodeName destinationNode) Main (- 1)
       @ workflow_getParentNodes w (dn_nodeName destinationNode) ''ALL_NON_MAIN'' (- 1)
       @ (if dn_mode destinationNode = Inclusive then [dn_nodeName destinationNode] else [])
       @ or_empty additionalRunFilterNodes)"

text \<open>\<open>triggerData\<close> is \<^verbatim>\<open>triggerToStartFrom?.data?.data\<close>.\<close>

definition run_workflow ::
  "engine_env \<Rightarrow> Workflow \<Rightarrow> INode option \<Rightarrow> IDestinationNode option \<Rightarrow> IPinData option \<Rightarrow> ITaskDataConnections option
     \<Rightarrow> string list option \<Rightarrow> nat \<Rightarrow> (js_error + IRun option)" where
  "run_workflow env w startNode destinationNode pinData triggerData additionalRunFilterNodes executionIndex =
     bind_res (case startNode of Some n \<Rightarrow> Inr (Some n) | None \<Rightarrow> getStartNode (env_nodeTypes env) w (map_option dn_nodeName destinationNode))
       (\<lambda>start. case start of
          None \<Rightarrow> Inl (ApplicationError ''No node to start the workflow from could be found'')
        | Some node \<Rightarrow> processRunExecutionData env (createRunExecutionData w
            \<lparr>rs_runData = [], rs_nodeExecutionStack = [\<lparr>ed_node = node,
               ed_data = (case triggerData of Some d \<Rightarrow> d | None \<Rightarrow> [(Main, [Cell [empty_item]])]),
               ed_source = None, ed_runIndex = None, ed_metadata = None\<rparr>],
             rs_waitingExecution = [], rs_waitingExecutionSource = Some []\<rparr>
            pinData destinationNode (map_option (\<lambda>d. runNodeFilter_of w d additionalRunFilterNodes) destinationNode) executionIndex))"

end
