(* ===== verification/Execution_Stack_Correct.thy ===== *)
theory Execution_Stack_Correct
  imports Execution_Stack Directed_Graph
begin

text \<open>
  Correctness of the execution stack: what \<^verbatim>\<open>addNodeToBeExecuted\<close> does to the entries that wait, the
  invariant of these entries, which data is kept and which can be lost, and the order in which the nodes
  after a node run.
\<close>

section \<open>Updates of the same key\<close>

lemma map_update_twice [simp]: "map_update k v (map_update k u m) = map_update k v m"
  by (induction m) auto

lemma map_update_middle: "k \<notin> set (keys_of xs) \<Longrightarrow> map_update k v (xs @ (k, u) # ys) = xs @ (k, v) # ys"
  by (induction xs) auto

lemma obj_set_twice [simp]: "obj_set k v (obj_set k u m) = obj_set k v m"
proof (cases "k \<in> set (keys_of m)")
  case True
  then show ?thesis by (simp add: obj_set_def)
next
  case False
  have t: "k \<notin> set (keys_of (takeWhile (obj_before k) m))" using False by (auto dest: set_takeWhileD)
  have "k \<in> set (keys_of (obj_set k u m))" by (simp add: js_obj.set_keys_put del: set_map)
  then have "obj_set k v (obj_set k u m) = map_update k v (obj_set k u m)" by (simp add: obj_set_def)
  also have "\<dots> = obj_set k v m"
    using False map_update_middle [OF t] map_update_middle [of k m v u "[]"] by (simp add: obj_set_def)
  finally show ?thesis .
qed

lemma idx_set_twice [simp]: "idx_set k v (idx_set k u m) = idx_set k v m"
proof (cases "k \<in> set (keys_of m)")
  case True
  then show ?thesis by (simp add: idx_set_def)
next
  case False
  have t: "k \<notin> set (keys_of (takeWhile (\<lambda>e. fst e < k) m))" using False by (auto dest: set_takeWhileD)
  have "k \<in> set (keys_of (idx_set k u m))" by (simp add: js_idx.set_keys_put del: set_map)
  then have "idx_set k v (idx_set k u m) = map_update k v (idx_set k u m)" by (simp add: idx_set_def)
  also have "\<dots> = idx_set k v m"
    using False map_update_middle [OF t] by (simp add: idx_set_def)
  finally show ?thesis .
qed

lemma map_delete_update [simp]: "map_delete k (map_update k v m) = map_delete k m"
  by (induction m) (auto simp: map_delete_def)

lemma map_delete_idx_set [simp]: "map_delete k (idx_set k v m) = map_delete k m"
proof (cases "k \<in> set (keys_of m)")
  case False
  have "map_delete k (idx_set k v m) = map_delete k (takeWhile (\<lambda>e. fst e < k) m @ dropWhile (\<lambda>e. fst e < k) m)"
    using False unfolding idx_set_def map_delete_def filter_append by simp
  then show ?thesis by simp
qed (simp add: idx_set_def)

lemma keys_idx_set:
  "keys_of (idx_set k v m) = (if k \<in> set (keys_of m) then keys_of m
     else takeWhile (\<lambda>x. x < k) (keys_of m) @ k # dropWhile (\<lambda>x. x < k) (keys_of m))"
  by (simp add: idx_set_def takeWhile_map dropWhile_map comp_def del: set_map)

lemma sorted_idx_set:
  assumes "sorted_wrt (<) (keys_of m)"
  shows "sorted_wrt (<) (keys_of (idx_set k v m))"
proof (cases "k \<in> set (keys_of m)")
  case False
  let ?t = "takeWhile (\<lambda>x. x < k) (keys_of m)" and ?d = "dropWhile (\<lambda>x. x < k) (keys_of m)"
  have s: "sorted_wrt (<) (?t @ ?d)" using assms by simp
  have above: "k < x" if x: "x \<in> set ?d" for x
  proof (cases ?d)
    case (Cons d ds)
    have "\<not> d < k" using Cons by (metis hd_dropWhile list.sel(1) list.distinct(1))
    moreover have "d \<in> set (keys_of m)" using Cons set_dropWhileD [of d "\<lambda>x. x < k" "keys_of m"] by (simp del: set_map)
    ultimately have "k < d" using False by (metis linorder_less_linear)
    moreover have "x = d \<or> d < x" using s x Cons by (auto simp: sorted_wrt_append)
    ultimately show ?thesis by auto
  next
    case Nil
    with x show ?thesis by (metis empty_iff list.set(1))
  qed
  have below: "x < k" if "x \<in> set ?t" for x using set_takeWhileD [OF that] by simp
  have cross: "x < y" if "x \<in> set ?t" "y \<in> set ?d" for x y using below [OF that(1)] above [OF that(2)] by (rule less_trans)
  have "sorted_wrt (<) ?t" "sorted_wrt (<) ?d" using s unfolding sorted_wrt_append by blast+
  then have "sorted_wrt (<) (?t @ k # ?d)"
    using above below cross unfolding sorted_wrt_append sorted_wrt.simps list.set by blast
  with False show ?thesis by (simp add: keys_idx_set)
qed (use assms in \<open>simp add: keys_idx_set\<close>)

lemma sorted_keys_delete: "sorted_wrt (<) (keys_of m) \<Longrightarrow> sorted_wrt (<) (keys_of (map_delete k m))"
  by (simp add: sorted_wrt_filter)

lemma cell_set_in: "i < length xs \<Longrightarrow> cell_set i v xs = xs[i := v]"
  by (simp add: cell_set_def)

lemma cell_get_in: "i < length xs \<Longrightarrow> cell_get xs i = xs ! i"
  by (simp add: cell_get_def)

section \<open>The waiting entries\<close>

definition main_cells :: "(string \<times> 'a cell list) list \<Rightarrow> 'a cell list" where
  "main_cells entry = or_empty (obj_get entry Main)"

definition entry_at :: "(string \<times> (nat \<times> 'e) list) list \<Rightarrow> string \<Rightarrow> nat \<Rightarrow> 'e option" where
  "entry_at W n i = (case map_get W n of None \<Rightarrow> None | Some es \<Rightarrow> map_get es i)"

text \<open>
  A waiting entry and its sources: one cell per input of the node, at least one of them without data and at
  least one with; exactly the inputs with data have a source.
\<close>

definition entry_ok :: "Workflow \<Rightarrow> string \<Rightarrow> ITaskDataConnections \<Rightarrow> ITaskDataConnectionsSource \<Rightarrow> bool" where
  "entry_ok w n entry source \<longleftrightarrow> entry = [(Main, main_cells entry)] \<and> source = [(Main, main_cells source)]
     \<and> length (main_cells entry) = length (main_inputs w n) \<and> length (main_cells source) = length (main_inputs w n)
     \<and> Hole \<notin> set (main_cells entry) \<and> Null \<in> set (main_cells entry) \<and> \<not> set (main_cells entry) \<subseteq> {Null}
     \<and> (\<forall>k < length (main_inputs w n). main_cells source ! k \<noteq> Hole \<and> (main_cells source ! k = Null \<longleftrightarrow> main_cells entry ! k = Null))"

definition waiting_inv :: "Workflow \<Rightarrow> run_state \<Rightarrow> bool" where
  "waiting_inv w st \<longleftrightarrow> (let W = rs_waitingExecution st; S = or_empty (rs_waitingExecutionSource st) in
     distinct (keys_of W) \<and> distinct (keys_of S)
     \<and> (\<forall>n. map_option keys_of (map_get W n) = map_option keys_of (map_get S n))
     \<and> (\<forall>n es. map_get W n = Some es \<longrightarrow> es \<noteq> [] \<and> sorted_wrt (<) (keys_of es)
          \<and> obj_get (wf_nodes w) n \<noteq> None \<and> 1 < length (main_inputs w n))
     \<and> (\<forall>n i e s. entry_at W n i = Some e \<longrightarrow> entry_at S n i = Some s \<longrightarrow> entry_ok w n e s))"

section \<open>The reference: joining the inputs of a node\<close>

text \<open>
  Data for input \<open>k\<close> of a node goes to the first waiting entry that has none for this input, or to a new entry, with
  the number of the entries as index. The entry starts when it is complete.
\<close>

definition open_entry :: "IWaitingForExecution \<Rightarrow> string \<Rightarrow> nat \<Rightarrow> (nat \<times> ITaskDataConnections) option" where
  "open_entry W n k = find (\<lambda>(i, e). cell_option (cell_get (main_cells e) k) = None) (or_empty (map_get W n))"

definition join_index :: "IWaitingForExecution \<Rightarrow> string \<Rightarrow> nat \<Rightarrow> nat" where
  "join_index W n k = (case open_entry W n k of Some (i, _) \<Rightarrow> i | None \<Rightarrow> length (or_empty (map_get W n)))"

definition joined_cells ::
  "Workflow \<Rightarrow> IWaitingForExecution \<Rightarrow> string \<Rightarrow> nat \<Rightarrow> INodeExecutionData list \<Rightarrow> INodeExecutionData list cell list" where
  "joined_cells w W n k items =
     (case open_entry W n k of Some (_, e) \<Rightarrow> main_cells e | None \<Rightarrow> replicate (length (main_inputs w n)) Null)[k := Cell items]"

definition joined_sources ::
  "Workflow \<Rightarrow> IWaitingForExecution \<Rightarrow> IWaitingForExecutionSource \<Rightarrow> string \<Rightarrow> nat \<Rightarrow> ISourceData \<Rightarrow> ISourceData cell list" where
  "joined_sources w W S n k src =
     (case open_entry W n k of
        Some (i, _) \<Rightarrow> (case entry_at S n i of None \<Rightarrow> [] | Some s \<Rightarrow> main_cells s)
      | None \<Rightarrow> replicate (length (main_inputs w n)) Null)[k := Cell src]"

definition join_input ::
  "Workflow \<Rightarrow> INode \<Rightarrow> string \<Rightarrow> nat \<Rightarrow> INodeExecutionData list \<Rightarrow> ISourceData \<Rightarrow> run_state \<Rightarrow> run_state" where
  "join_input w node n k items src st =
     (let W = rs_waitingExecution st; S = or_empty (rs_waitingExecutionSource st);
          i = join_index W n k; cells = joined_cells w W n k items; sources = joined_sources w W S n k src
      in if Null \<in> set cells
         then st\<lparr>rs_waitingExecution := set_waiting_entry n i [(Main, cells)] W,
                 rs_waitingExecutionSource := Some (set_waiting_entry n i [(Main, sources)] S)\<rparr>
         else remove_waiting n i (enqueue_entry w \<lparr>ed_node = node, ed_data = [(Main, cells)],
                ed_source = Some [(Main, sources)], ed_runIndex = None, ed_metadata = None\<rparr> st))"

lemma findWaitingIndex_ok:
  assumes "\<And>i e. (i, e) \<in> set es \<Longrightarrow> obj_get e Main \<noteq> None"
  shows "findWaitingIndex k es = Inr (map_option fst (find (\<lambda>(i, e). cell_option (cell_get (main_cells e) k) = None) es))"
  using assms by (induction es) (fastforce simp: main_cells_def split: option.splits)+

section \<open>The parents that the legacy order adds\<close>

text \<open>They only change the stack, and with the order \<^verbatim>\<open>v1\<close> not even that.\<close>

lemma addEmptyNode_inert: "addEmptyNode w oi p r n st = Inr st' \<Longrightarrow> \<exists>es. st' = st\<lparr>rs_nodeExecutionStack := es\<rparr>"
  by (auto simp: addEmptyNode_def bind_res_eq_Inr enqueue_entry_def split: option.splits if_splits)
    (metis (no_types, lifting) run_state.surjective run_state.update_convs(2))+

lemma addMissingParent_inert:
  assumes "addMissingParent w oi p nsd r check c st = Inr st'"
  shows "\<exists>es. st' = st\<lparr>rs_nodeExecutionStack := es\<rparr>"
proof -
  from assms have "st' = st \<or> (\<exists>n. addEmptyNode w oi p r n st = Inr st')"
    by (auto simp: addMissingParent_def Let_def bind_res_eq_Inr split: option.splits if_splits)
  moreover have "st = st\<lparr>rs_nodeExecutionStack := rs_nodeExecutionStack st\<rparr>" by simp
  ultimately show ?thesis using addEmptyNode_inert by blast
qed

lemma addMissingParents_inert:
  assumes "addMissingParents w n oi p nsd r st = Inr st'"
  shows "\<exists>es. st' = st\<lparr>rs_nodeExecutionStack := es\<rparr>"
proof -
  from assms obtain check cs where "fold_res (addMissingParent w oi p nsd r check) cs st = Inr st'"
    by (auto simp: addMissingParents_def Let_def split: option.splits)
  then show ?thesis
  proof (rule fold_res_invariant [where P = "\<lambda>s. \<exists>es. s = st\<lparr>rs_nodeExecutionStack := es\<rparr>"])
    show "\<exists>es. st = st\<lparr>rs_nodeExecutionStack := es\<rparr>" by (rule exI [of _ "rs_nodeExecutionStack st"]) simp
    show "\<exists>es. v = st\<lparr>rs_nodeExecutionStack := es\<rparr>"
      if "\<exists>es. u = st\<lparr>rs_nodeExecutionStack := es\<rparr>" "addMissingParent w oi p nsd r check x u = Inr v" for x u v
      using addMissingParent_inert [OF that(2)] that(1) by fastforce
  qed
qed

section \<open>Equivalence with the reference\<close>

lemma waiting_invD:
  assumes "waiting_inv w st"
  shows "distinct (keys_of (rs_waitingExecution st))" and "distinct (keys_of (or_empty (rs_waitingExecutionSource st)))"
    and "map_option keys_of (map_get (rs_waitingExecution st) n) = map_option keys_of (map_get (or_empty (rs_waitingExecutionSource st)) n)"
    and "map_get (rs_waitingExecution st) n = Some es \<Longrightarrow> es \<noteq> [] \<and> sorted_wrt (<) (keys_of es)
          \<and> obj_get (wf_nodes w) n \<noteq> None \<and> 1 < length (main_inputs w n)"
    and "entry_at (rs_waitingExecution st) n i = Some e \<Longrightarrow> entry_at (or_empty (rs_waitingExecutionSource st)) n i = Some s
          \<Longrightarrow> entry_ok w n e s"
  using assms unfolding waiting_inv_def Let_def by blast+

lemma waiting_inv_entry:
  assumes "waiting_inv w st" and "map_get (rs_waitingExecution st) n = Some es" and "(i, e) \<in> set es"
  obtains ss s where "map_get (or_empty (rs_waitingExecutionSource st)) n = Some ss" "map_get ss i = Some s"
    "map_get es i = Some e" "entry_ok w n e s"
proof -
  note inv = waiting_invD [OF assms(1)]
  have "distinct (keys_of es)" using inv(4) [OF assms(2)] by (simp add: strict_sorted_iff)
  with assms(3) have e: "map_get es i = Some e" by simp
  from inv(3) [of n, symmetric] assms(2) obtain ss where
    ss: "map_get (or_empty (rs_waitingExecutionSource st)) n = Some ss" "keys_of ss = keys_of es" by auto
  have "i \<in> set (keys_of ss)" unfolding ss(2) using assms(3) by force
  then obtain s where s: "map_get ss i = Some s" by (metis map_of_eq_None_iff not_None_eq set_map)
  have "entry_ok w n e s" using inv(5) [of n i e s] assms(2) ss(1) s e by (simp add: entry_at_def)
  with e ss(1) s show thesis by (intro that)
qed

lemma entry_ok_main: "entry_ok w n e s \<Longrightarrow> obj_get e Main \<noteq> None"
  unfolding entry_ok_def by (metis map_of_Cons_code(2) option.distinct(1))

lemma open_entry_Some:
  assumes "waiting_inv w st" and "open_entry (rs_waitingExecution st) n k = Some (i, e)"
  obtains es ss s where "map_get (rs_waitingExecution st) n = Some es" "map_get es i = Some e"
    "map_get (or_empty (rs_waitingExecutionSource st)) n = Some ss" "map_get ss i = Some s" "entry_ok w n e s"
proof -
  from assms(2) obtain es where es: "map_get (rs_waitingExecution st) n = Some es" "(i, e) \<in> set es"
    by (auto simp: open_entry_def find_Some_iff split: option.splits) (metis nth_mem)
  from waiting_inv_entry [OF assms(1) es] es(1) that show thesis by metis
qed

lemma set_waiting_input_at:
  assumes "map_get M n = Some es" and "map_get es i = Some [(Main, cells)]" and "k < length cells"
  shows "set_waiting_input n i k v M = Inr (set_waiting_entry n i [(Main, cells[k := v])] M)"
  using assms by (simp add: set_waiting_input_def waiting_at_def main_of_def cell_set_in)

lemma waiting_at_put [simp]: "waiting_at (set_waiting_entry n i e M) n i = Inr e"
  by (simp add: waiting_at_def set_waiting_entry_def js_obj.get_put js_idx.get_put)

lemma set_waiting_entry_twice [simp]: "set_waiting_entry n i e (set_waiting_entry n i f M) = set_waiting_entry n i e M"
  by (simp add: set_waiting_entry_def js_obj.get_put)

lemma set_waiting_entry_first [simp]: "map_get M n = None \<Longrightarrow> set_waiting_entry n i e (obj_set n [] M) = set_waiting_entry n i e M"
  by (simp add: set_waiting_entry_def js_obj.get_put)

lemma set_waiting_input_put:
  "k < length cells \<Longrightarrow> set_waiting_input n i k v (set_waiting_entry n i [(Main, cells)] M)
     = Inr (set_waiting_entry n i [(Main, cells[k := v])] M)"
  using set_waiting_input_at [of "set_waiting_entry n i [(Main, cells)] M" n "idx_set i [(Main, cells)] (or_empty (map_get M n))" i cells k v]
  by (simp add: js_idx.get_put) (simp add: set_waiting_entry_def js_obj.get_put)

lemma main_of_single [simp]: "main_of [(Main, cells)] = Inr cells"
  by (simp add: main_of_def)

lemma prepareWaiting_put:
  "prepareWaitingToExecution n N i st = st\<lparr>rs_waitingExecution := set_waiting_entry n i [(Main, replicate N Null)] (rs_waitingExecution st),
     rs_waitingExecutionSource := Some (set_waiting_entry n i [(Main, replicate N Null)] (or_empty (rs_waitingExecutionSource st)))\<rparr>"
  by (simp add: prepareWaitingToExecution_def Let_def set_waiting_entry_def)

text \<open>What follows once the entry has the data that arrived.\<close>

definition settle_entry ::
  "Workflow \<Rightarrow> string \<Rightarrow> nat \<Rightarrow> nat \<Rightarrow> nat \<Rightarrow> string \<Rightarrow> INodeExecutionData list cell list \<Rightarrow> nat \<Rightarrow> bool \<Rightarrow> INodeExecutionData list
     \<Rightarrow> INodeExecutionData list cell list \<Rightarrow> ISourceData cell list \<Rightarrow> run_state \<Rightarrow> run_state res" where
  "settle_entry w n i k oi p nsd r wasWaiting items cells sources st3 =
     (if Null \<notin> set cells then startWaiting w n i [(Main, cells)] [(Main, sources)] st3
      else bind_res (if wasWaiting then Inr st3 else addMissingParents w n oi p (Some nsd) r st3) (\<lambda>st4.
        Inr (st4\<lparr>rs_waitingExecution := set_waiting_entry n i [(Main, cell_set k (Cell items) cells)] (rs_waitingExecution st4),
          rs_waitingExecutionSource := Some (set_waiting_entry n i [(Main, sources)] (or_empty (rs_waitingExecutionSource st4)))\<rparr>)))"

lemma settle_entry_join:
  assumes "k < length cells" and "cells ! k = Cell items"
    and "st3 = st\<lparr>rs_waitingExecution := set_waiting_entry n i [(Main, cells)] (rs_waitingExecution st),
           rs_waitingExecutionSource := Some (set_waiting_entry n i [(Main, sources)] (or_empty (rs_waitingExecutionSource st)))\<rparr>"
    and "Null \<in> set cells"
  shows "settle_entry w n i k oi p nsd r wasWaiting items cells sources st3
    = (if wasWaiting then Inr st3 else addMissingParents w n oi p (Some nsd) r st3)"
proof -
  have same: "cell_set k (Cell items) cells = cells" using assms(1,2) by (simp add: cell_set_in list_update_same_conv)
  have "st4 = st4\<lparr>rs_waitingExecution := set_waiting_entry n i [(Main, cells)] (rs_waitingExecution st4),
          rs_waitingExecutionSource := Some (set_waiting_entry n i [(Main, sources)] (or_empty (rs_waitingExecutionSource st4)))\<rparr>"
    if "\<exists>es. st4 = st3\<lparr>rs_nodeExecutionStack := es\<rparr>" for st4
    using that assms(3) by auto
  moreover have "\<exists>es. st3 = st3\<lparr>rs_nodeExecutionStack := es\<rparr>" by (rule exI [of _ "rs_nodeExecutionStack st3"]) simp
  ultimately show ?thesis
    using assms(4) addMissingParents_inert [of w n oi p "Some nsd" r st3]
    by (cases "addMissingParents w n oi p (Some nsd) r st3") (auto simp: settle_entry_def same simp del: run_state.update_convs)
qed

lemma null_left: "k < n \<Longrightarrow> 1 < n \<Longrightarrow> Null \<in> set ((replicate n Null)[k := x])"
  unfolding in_set_conv_nth by (rule exI [of _ "if k = 0 then 1 else 0"]) (auto simp: nth_list_update)


lemma addToWaiting_new:
  assumes "map_get (rs_waitingExecution st) n = None" and "map_get (or_empty (rs_waitingExecutionSource st)) n = None"
    and c: "c = \<lparr>con_node = n, con_type = t, con_index = k\<rparr>" and "k < length (main_inputs w n)"
    and "cell_get nsd oi = Cell items"
  shows "addToWaiting w c oi p (Some nsd) r st
    = settle_entry w n 0 k oi p nsd r False items ((replicate (length (main_inputs w n)) Null)[k := Cell items])
        ((replicate (length (main_inputs w n)) Null)[k := Cell (source_of p oi r)])
        (st\<lparr>rs_waitingExecution := set_waiting_entry n 0 [(Main, (replicate (length (main_inputs w n)) Null)[k := Cell items])] (rs_waitingExecution st),
           rs_waitingExecutionSource := Some (set_waiting_entry n 0 [(Main, (replicate (length (main_inputs w n)) Null)[k := Cell (source_of p oi r)])]
             (or_empty (rs_waitingExecutionSource st)))\<rparr>)"
proof -
  define S where "S = or_empty (rs_waitingExecutionSource st)"
  have S: "map_get S n = None" using assms(2) by (simp add: S_def)
  show ?thesis
    unfolding addToWaiting_def settle_entry_def S_def [symmetric] c
    by (simp add: Let_def assms(1,4,5) S js_obj.get_put prepareWaiting_put set_waiting_input_put arriving_def)
qed

lemma addToWaiting_again:
  assumes W: "map_get (rs_waitingExecution st) n = Some es" and S: "map_get (or_empty (rs_waitingExecutionSource st)) n = Some ss"
    and c: "c = \<lparr>con_node = n, con_type = t, con_index = k\<rparr>" and "k < length (main_inputs w n)"
    and "cell_get nsd oi = Cell items" and full: "findWaitingIndex k es = Inr None"
  shows "addToWaiting w c oi p (Some nsd) r st
    = settle_entry w n (length es) k oi p nsd r True items ((replicate (length (main_inputs w n)) Null)[k := Cell items])
        ((replicate (length (main_inputs w n)) Null)[k := Cell (source_of p oi r)])
        (st\<lparr>rs_waitingExecution := set_waiting_entry n (length es) [(Main, (replicate (length (main_inputs w n)) Null)[k := Cell items])] (rs_waitingExecution st),
           rs_waitingExecutionSource := Some (set_waiting_entry n (length es) [(Main, (replicate (length (main_inputs w n)) Null)[k := Cell (source_of p oi r)])]
             (or_empty (rs_waitingExecutionSource st)))\<rparr>)"
proof -
  define T where "T = or_empty (rs_waitingExecutionSource st)"
  show ?thesis
    unfolding addToWaiting_def settle_entry_def T_def [symmetric] c
    by (simp add: Let_def W assms(4,5) full prepareWaiting_put set_waiting_input_put arriving_def)
qed

lemma addToWaiting_found:
  assumes W: "map_get (rs_waitingExecution st) n = Some es" and S: "map_get (or_empty (rs_waitingExecutionSource st)) n = Some ss"
    and c: "c = \<lparr>con_node = n, con_type = t, con_index = k\<rparr>" 
    and "cell_get nsd oi = Cell items" and found: "findWaitingIndex k es = Inr (Some i)"
    and e: "map_get es i = Some [(Main, cells)]" "k < length cells" and s: "map_get ss i = Some [(Main, sources)]" "k < length sources"
  shows "addToWaiting w c oi p (Some nsd) r st
    = settle_entry w n i k oi p nsd r True items (cells[k := Cell items]) (sources[k := Cell (source_of p oi r)])
        (st\<lparr>rs_waitingExecution := set_waiting_entry n i [(Main, cells[k := Cell items])] (rs_waitingExecution st),
           rs_waitingExecutionSource := Some (set_waiting_entry n i [(Main, sources[k := Cell (source_of p oi r)])]
             (or_empty (rs_waitingExecutionSource st)))\<rparr>)"
proof -
  define T where "T = or_empty (rs_waitingExecutionSource st)"
  have S: "map_get T n = Some ss" using S by (simp add: T_def)
  show ?thesis
    unfolding addToWaiting_def settle_entry_def T_def [symmetric] c
    by (simp add: Let_def W assms(4) found set_waiting_input_at [OF W e] set_waiting_input_at [OF S s] arriving_def)
qed


lemma delete_waiting_put [simp]: "delete_waiting n i (set_waiting_entry n i e M) = delete_waiting n i M"
  by (simp add: delete_waiting_def set_waiting_entry_def js_obj.get_put)

lemma remove_waiting_put:
  "remove_waiting n i (enqueue_entry w x (st\<lparr>rs_waitingExecution := set_waiting_entry n i e (rs_waitingExecution st),
      rs_waitingExecutionSource := Some (set_waiting_entry n i s (or_empty (rs_waitingExecutionSource st)))\<rparr>))
    = remove_waiting n i (enqueue_entry w x st)"
  by (simp add: remove_waiting_def enqueue_entry_def Let_def)

lemma waiting_inv_source_None:
  "waiting_inv w st \<Longrightarrow> map_get (rs_waitingExecution st) n = None \<Longrightarrow> map_get (or_empty (rs_waitingExecutionSource st)) n = None"
  using waiting_invD(3) [of w st n] by (metis map_option_is_None)

lemma addToWaiting_join:
  assumes inv: "waiting_inv w st" and node: "obj_get (wf_nodes w) n = Some node"
    and c: "c = \<lparr>con_node = n, con_type = t, con_index = k\<rparr>" and k: "k < length (main_inputs w n)"
    and many: "1 < length (main_inputs w n)" and data: "cell_get nsd oi = Cell items"
  shows "addToWaiting w c oi p (Some nsd) r st =
    (let J = join_input w node n k items (source_of p oi r) st
     in if map_get (rs_waitingExecution st) n = None then addMissingParents w n oi p (Some nsd) r J else Inr J)"
proof -
  let ?W = "rs_waitingExecution st" and ?nulls = "replicate (length (main_inputs w n)) Null"
  have find: "findWaitingIndex k es = Inr (map_option fst (open_entry ?W n k))" if "map_get ?W n = Some es" for es
  proof -
    have "obj_get e Main \<noteq> None" if "(i, e) \<in> set es" for i e
      using waiting_inv_entry [OF inv \<open>map_get ?W n = Some es\<close> that] entry_ok_main by metis
    from findWaitingIndex_ok [of es k, OF this] show ?thesis by (simp add: open_entry_def that)
  qed
  have len: "k < length (?nulls[k := x])" "(?nulls[k := x]) ! k = x" for x :: "'x cell" using k by simp_all
  note null = null_left [OF k many]
  show ?thesis
  proof (cases "open_entry ?W n k")
    case None
    have J: "join_input w node n k items (source_of p oi r) st
      = st\<lparr>rs_waitingExecution := set_waiting_entry n (length (or_empty (map_get ?W n))) [(Main, ?nulls[k := Cell items])] ?W,
           rs_waitingExecutionSource := Some (set_waiting_entry n (length (or_empty (map_get ?W n))) [(Main, ?nulls[k := Cell (source_of p oi r)])]
             (or_empty (rs_waitingExecutionSource st)))\<rparr>"
      by (simp add: join_input_def Let_def join_index_def joined_cells_def joined_sources_def None null)
    show ?thesis
    proof (cases "map_get ?W n")
      case None': None
      show ?thesis
        unfolding Let_def J addToWaiting_new [OF None' waiting_inv_source_None [OF inv None'] c k data]
        by (subst settle_entry_join [OF len refl null]) (simp add: None')
    next
      case (Some es)
      with waiting_invD(3) [OF inv, of n, symmetric] obtain ss where
        ss: "map_get (or_empty (rs_waitingExecutionSource st)) n = Some ss" by auto
      have full: "findWaitingIndex k es = Inr None" using find [OF Some] None by simp
      show ?thesis
        unfolding Let_def J addToWaiting_again [OF Some ss c k data full]
        by (subst settle_entry_join [OF len]) (simp_all add: Some null)
    qed
  next
    case (Some ie)
    then obtain i e where ie: "open_entry ?W n k = Some (i, e)" by (cases ie) simp
    from open_entry_Some [OF inv ie] obtain es ss s where
      es: "map_get ?W n = Some es" "map_get es i = Some e" and ss: "map_get (or_empty (rs_waitingExecutionSource st)) n = Some ss"
        "map_get ss i = Some s" and ok: "entry_ok w n e s" by blast
    let ?cells = "main_cells e" and ?sources = "main_cells s"
    have e: "map_get es i = Some [(Main, ?cells)]" "k < length ?cells" and s: "map_get ss i = Some [(Main, ?sources)]" "k < length ?sources"
      using es(2) ss(2) ok k by (auto simp: entry_ok_def)
    have found: "findWaitingIndex k es = Inr (Some i)" using find [OF es(1)] ie by simp
    let ?new = "?cells[k := Cell items]" and ?src = "?sources[k := Cell (source_of p oi r)]"
    have idx: "join_index ?W n k = i" "joined_cells w ?W n k items = ?new"
      "joined_sources w ?W (or_empty (rs_waitingExecutionSource st)) n k (source_of p oi r) = ?src"
      by (simp_all add: join_index_def joined_cells_def joined_sources_def ie entry_at_def ss)
    note eq = addToWaiting_found [OF es(1) ss(1) c data found e s, where w = w and p = p and r = r]
    show ?thesis
    proof (cases "Null \<in> set ?new")
      case True
      with e(2) show ?thesis
        unfolding eq by (subst settle_entry_join [OF _ _ refl]) (simp_all add: join_input_def Let_def idx es(1))
    next
      case False
      then show ?thesis
        unfolding eq by (simp add: settle_entry_def startWaiting_def node remove_waiting_put join_input_def Let_def idx es(1))
    qed
  qed
qed


section \<open>The invariant\<close>

lemma get_set_waiting_entry:
  "map_get (set_waiting_entry n i e M) = (map_get M)(n \<mapsto> idx_set i e (or_empty (map_get M n)))"
  by (simp add: set_waiting_entry_def js_obj.get_put)

lemma entry_at_put: "entry_at (set_waiting_entry n i e M) m j = (if m = n \<and> j = i then Some e else entry_at M m j)"
  by (auto simp: entry_at_def get_set_waiting_entry js_idx.get_put split: option.splits)

lemma get_remaining:
  "map_get (if or_empty (map_get (delete_waiting n i M) n) = [] then obj_delete n (delete_waiting n i M) else delete_waiting n i M)
     = (map_get M)(n := (let es = map_delete i (or_empty (map_get M n)) in if es = [] then None else Some es))"
  by (simp add: delete_waiting_def js_obj.get_put js_obj.get_del Let_def)

lemma waiting_inv_cong:
  "rs_waitingExecution st' = rs_waitingExecution st \<Longrightarrow> or_empty (rs_waitingExecutionSource st') = or_empty (rs_waitingExecutionSource st)
     \<Longrightarrow> waiting_inv w st' = waiting_inv w st"
  by (simp add: waiting_inv_def)

lemma waiting_inv_put:
  assumes inv: "waiting_inv w st" and n: "obj_get (wf_nodes w) n \<noteq> None" "1 < length (main_inputs w n)" and ok: "entry_ok w n e s"
  shows "waiting_inv w (st\<lparr>rs_waitingExecution := set_waiting_entry n i e (rs_waitingExecution st),
    rs_waitingExecutionSource := Some (set_waiting_entry n i s (or_empty (rs_waitingExecutionSource st)))\<rparr>)"
proof -
  define S where "S = or_empty (rs_waitingExecutionSource st)"
  let ?W = "rs_waitingExecution st"
  note D = waiting_invD [OF inv, folded S_def]
  let ?es = "idx_set i e (or_empty (map_get ?W n))" and ?ss = "idx_set i s (or_empty (map_get S n))"
  have "keys_of (or_empty (map_get S n)) = keys_of (or_empty (map_get ?W n))"
    using D(3) [of n] by (cases "map_get ?W n"; cases "map_get S n") auto
  then have keys: "keys_of ?es = keys_of ?ss" by (simp only: keys_idx_set)
  define W' where "W' = set_waiting_entry n i e ?W"
  define S' where "S' = set_waiting_entry n i s S"
  have gets: "map_get W' = (map_get ?W)(n \<mapsto> ?es)" "map_get S' = (map_get S)(n \<mapsto> ?ss)"
    by (simp_all add: W'_def S'_def get_set_waiting_entry)
  have at: "entry_at W' m j = (if m = n \<and> j = i then Some e else entry_at ?W m j)"
    "entry_at S' m j = (if m = n \<and> j = i then Some s else entry_at S m j)" for m j
    by (simp_all add: W'_def S'_def entry_at_put)
  have "distinct (keys_of W')" "distinct (keys_of S')"
    using D(1,2) by (simp_all only: W'_def S'_def set_waiting_entry_def js_obj.distinct_put)
  moreover have "map_option keys_of (map_get W' m) = map_option keys_of (map_get S' m)" for m
    using D(3) [of m] keys by (simp add: gets)
  moreover have "es \<noteq> [] \<and> sorted_wrt (<) (keys_of es) \<and> obj_get (wf_nodes w) m \<noteq> None \<and> 1 < length (main_inputs w m)"
    if "map_get W' m = Some es" for m es
  proof (cases "m = n")
    case True
    have "?es \<noteq> []"
      using js_idx.set_keys_put [of i e "or_empty (map_get ?W n)"] by (metis empty_iff insertI1 list.set(1) list.map(1))
    moreover have "sorted_wrt (<) (keys_of ?es)"
      using D(4) [of n] by (intro sorted_idx_set) (simp split: option.split)
    ultimately show ?thesis using that True n by (simp add: gets)
  next
    case False
    with that D(4) [of m es] show ?thesis by (simp add: gets)
  qed
  moreover have "entry_ok w m e' s'" if "entry_at W' m j = Some e'" "entry_at S' m j = Some s'" for m j e' s'
    using that ok D(5) [of m j e' s'] by (auto simp: at split: if_splits)
  ultimately show ?thesis
    unfolding waiting_inv_def Let_def by (simp only: W'_def S'_def S_def) simp
qed

lemma waiting_inv_remove:
  assumes inv: "waiting_inv w st"
  shows "waiting_inv w (remove_waiting n i st)"
proof -
  define S where "S = or_empty (rs_waitingExecutionSource st)"
  let ?W = "rs_waitingExecution st"
  note D = waiting_invD [OF inv, folded S_def]
  let ?es = "map_delete i (or_empty (map_get ?W n))" and ?ss = "map_delete i (or_empty (map_get S n))"
  have keys: "keys_of ?ss = keys_of ?es"
    using D(3) [of n] by (cases "map_get ?W n"; cases "map_get S n") auto
  then have same: "?ss = [] \<longleftrightarrow> ?es = []" by (metis Nil_is_map_conv)
  define W' where "W' = rs_waitingExecution (remove_waiting n i st)"
  define S' where "S' = or_empty (rs_waitingExecutionSource (remove_waiting n i st))"
  have W': "map_get W' = (map_get ?W)(n := (if ?es = [] then None else Some ?es))"
    by (simp add: W'_def remove_waiting_def Let_def delete_waiting_def js_obj.get_put js_obj.get_del)
  have S': "map_get S' = (map_get S)(n := (if ?es = [] then None else Some ?ss))"
    by (simp add: S'_def remove_waiting_def Let_def delete_waiting_def js_obj.get_put js_obj.get_del S_def)
  have "distinct (keys_of W')" "distinct (keys_of S')"
    using D(1,2) unfolding W'_def S'_def
    by (auto simp: remove_waiting_def Let_def delete_waiting_def js_obj.distinct_put S_def simp del: set_map)
  moreover have "map_option keys_of (map_get W' m) = map_option keys_of (map_get S' m)" for m
    using D(3) [of m] keys by (simp add: W' S')
  moreover have "es \<noteq> [] \<and> sorted_wrt (<) (keys_of es) \<and> obj_get (wf_nodes w) m \<noteq> None \<and> 1 < length (main_inputs w m)"
    if es: "map_get W' m = Some es" for m es
  proof (cases "m = n")
    case True
    with es obtain es0 where "map_get ?W n = Some es0" "es = map_delete i es0" "es \<noteq> []"
      by (cases "map_get ?W n") (auto simp: W' map_delete_def split: if_splits)
    with D(4) [of n es0] True show ?thesis by (simp add: sorted_wrt_filter)
  next
    case False
    with es D(4) [of m es] show ?thesis by (simp add: W')
  qed
  moreover have "entry_at W' m j = Some e \<Longrightarrow> entry_at ?W m j = Some e" for m j e
    by (auto simp: entry_at_def W' map_of_map_delete split: if_splits option.splits)
  moreover have "entry_at S' m j = Some e \<Longrightarrow> entry_at S m j = Some e" for m j e
    by (auto simp: entry_at_def S' map_of_map_delete split: if_splits option.splits)
  ultimately show ?thesis
    unfolding waiting_inv_def Let_def W'_def [symmetric] S'_def [symmetric] using D(5) by blast
qed

lemma entry_ok_new:
  assumes "k < length (main_inputs w n)" and "1 < length (main_inputs w n)"
  shows "entry_ok w n [(Main, (replicate (length (main_inputs w n)) Null)[k := Cell x])]
    [(Main, (replicate (length (main_inputs w n)) Null)[k := Cell y])]"
proof -
  have "Cell x \<in> set ((replicate (length (main_inputs w n)) Null)[k := Cell x])"
    using assms(1) by (auto simp: set_update_memI)
  with null_left [OF assms, of "Cell x"] assms show ?thesis
    by (auto simp: entry_ok_def main_cells_def nth_list_update dest: set_update_subset_insert [THEN subsetD])
qed

lemma entry_ok_update:
  assumes "entry_ok w n e s" and "k < length (main_inputs w n)" and "Null \<in> set ((main_cells e)[k := Cell x])"
  shows "entry_ok w n [(Main, (main_cells e)[k := Cell x])] [(Main, (main_cells s)[k := Cell y])]"
proof -
  have "Cell x \<in> set ((main_cells e)[k := Cell x])" using assms(1,2) by (auto simp: set_update_memI entry_ok_def)
  with assms show ?thesis
    by (auto simp: entry_ok_def main_cells_def [of "[_]"] nth_list_update dest: set_update_subset_insert [THEN subsetD])
qed

lemma join_input_inv:
  assumes inv: "waiting_inv w st" and node: "obj_get (wf_nodes w) n = Some node"
    and k: "k < length (main_inputs w n)" "1 < length (main_inputs w n)"
  shows "waiting_inv w (join_input w node n k items src st)"
proof (cases "Null \<in> set (joined_cells w (rs_waitingExecution st) n k items)")
  case True
  have "entry_ok w n [(Main, joined_cells w (rs_waitingExecution st) n k items)]
      [(Main, joined_sources w (rs_waitingExecution st) (or_empty (rs_waitingExecutionSource st)) n k src)]"
  proof (cases "open_entry (rs_waitingExecution st) n k")
    case None
    then show ?thesis using entry_ok_new [OF k] by (simp add: joined_cells_def joined_sources_def)
  next
    case (Some ie)
    then obtain i e where ie: "open_entry (rs_waitingExecution st) n k = Some (i, e)" by (cases ie) simp
    from open_entry_Some [OF inv this] obtain ss s where
      "map_get (or_empty (rs_waitingExecutionSource st)) n = Some ss" "map_get ss i = Some s" "entry_ok w n e s" by blast
    with entry_ok_update [OF this(3) k(1)] True ie show ?thesis
      by (simp add: joined_cells_def joined_sources_def entry_at_def)
  qed
  with waiting_inv_put [OF inv _ k(2)] node True show ?thesis by (simp add: join_input_def Let_def)
next
  case False
  have "waiting_inv w (enqueue_entry w x st)" for x
    using inv waiting_inv_cong [of "enqueue_entry w x st" st] by (simp add: enqueue_entry_def)
  with False waiting_inv_remove show ?thesis by (simp add: join_input_def Let_def)
qed


section \<open>Consistent workflows\<close>

text \<open>
  The connections by destination are those by source reversed, and the connections of a main output lead to main inputs; the run
  data has no \<^verbatim>\<open>null\<close> for a main output.
\<close>

definition consistent :: "Workflow \<Rightarrow> bool" where
  "consistent w \<longleftrightarrow> wf_connectionsByDestinationNode w = mapConnectionsByDestination (wf_connectionsBySourceNode w)
     \<and> wf_conns (wf_connectionsBySourceNode w)
     \<and> (\<forall>(n, byType) \<in> set (wf_connectionsBySourceNode w). \<forall>(t, outputs) \<in> set byType. t = Main \<longrightarrow>
          (\<forall>conns \<in> set outputs. \<forall>c \<in> set (or_empty conns). con_type c = Main))"

definition no_null_outputs :: "IRunData \<Rightarrow> bool" where
  "no_null_outputs rd \<longleftrightarrow> (\<forall>(n, runs) \<in> set rd. \<forall>td \<in> set runs. case td_data td of None \<Rightarrow> True | Some d \<Rightarrow>
     (case map_get d Main of None \<Rightarrow> True | Some outputs \<Rightarrow> Null \<notin> set outputs))"

lemma output_data_not_null:
  assumes "no_null_outputs rd"
  shows "output_data rd c r \<noteq> Null"
proof
  assume "output_data rd c r = Null"
  then obtain runs d outputs where rd: "map_get rd (con_node c) = Some runs" and r: "r < length runs" and d: "td_data (runs ! r) = Some d"
    and o: "map_get d Main = Some outputs" "cell_get outputs (con_index c) = Null"
    by (auto simp: output_data_def split: option.splits if_splits)
  from o(2) have "Null \<in> set outputs" by (metis cell_get_def cell.distinct(1) nth_mem)
  moreover have "case td_data (runs ! r) of None \<Rightarrow> True | Some d \<Rightarrow>
      (case map_get d Main of None \<Rightarrow> True | Some outputs \<Rightarrow> Null \<notin> set outputs)"
    using assms map_of_SomeD [OF rd] nth_mem [OF r] unfolding no_null_outputs_def by blast
  ultimately show False by (simp add: d o(1))
qed

lemma incomingConnectionIsEmpty_total: "no_null_outputs rd \<Longrightarrow> \<exists>b. incomingConnectionIsEmpty rd cs r = Inr b"
  by (induction cs) (auto split: cell.splits dest: output_data_not_null)

lemma in_conns_at:
  "c \<in> set (conns_at m n t i) \<longleftrightarrow> (\<exists>byType outputs. map_get m n = Some byType \<and> map_get byType t = Some outputs
     \<and> i < length outputs \<and> c \<in> set (or_empty (outputs ! i)))"
proof (cases "map_get m n")
  case (Some byType)
  then show ?thesis by (cases "map_get byType t") (simp_all add: conns_at_def arr_get_def)
qed (simp add: conns_at_def)

lemma in_main_targets_of:
  "(oi, c) \<in> set (main_targets_of w p) \<longleftrightarrow> c \<in> set (conns_at (wf_connectionsBySourceNode w) p Main oi)"
proof -
  have flat: "(oi, c) \<in> set (concat (map (\<lambda>(outputIndex, conns). map (Pair outputIndex) (or_empty conns)) (enumerate 0 outputs)))
      \<longleftrightarrow> oi < length outputs \<and> c \<in> set (or_empty (outputs ! oi))" for outputs
    by (auto simp: in_set_enumerate_eq image_iff intro!: bexI [of _ "(oi, outputs ! oi)"])
  show ?thesis
  proof (cases "map_get (wf_connectionsBySourceNode w) p")
    case (Some byType)
    then show ?thesis
      by (cases "map_get byType Main") (simp_all only: main_targets_of_def in_conns_at flat option.case option.inject simp_thms ex_simps, simp_all)
  qed (simp add: main_targets_of_def in_conns_at)
qed

lemma main_target_type:
  assumes "consistent w" and "(oi, c) \<in> set (main_targets_of w p)"
  shows "con_type c = Main"
proof -
  from assms(2) obtain byType outputs where
    "map_get (wf_connectionsBySourceNode w) p = Some byType" "map_get byType Main = Some outputs"
    "oi < length outputs" "c \<in> set (or_empty (outputs ! oi))"
    unfolding in_main_targets_of in_conns_at by blast
  then show ?thesis
    using assms(1) map_of_SomeD [of _ p byType] map_of_SomeD [of byType Main outputs] nth_mem [of oi outputs]
    unfolding consistent_def by blast
qed

lemma main_target_input:
  assumes "consistent w" and "(oi, c) \<in> set (main_targets_of w p)"
  shows "con_index c < length (main_inputs w (con_node c))" and "\<exists>cs. first_input w (con_node c) = Inr cs"
    and "\<lparr>con_node = p, con_type = Main, con_index = oi\<rparr> \<in> set (concat (map or_empty (main_inputs w (con_node c))))"
proof -
  have c: "c = \<lparr>con_node = con_node c, con_type = Main, con_index = con_index c\<rparr>"
    using main_target_type [OF assms] by simp
  have "c \<in> set (conns_at (wf_connectionsBySourceNode w) p Main oi)" using assms(2) by (simp add: in_main_targets_of)
  then have at: "\<lparr>con_node = p, con_type = Main, con_index = oi\<rparr> \<in> set (conns_at (wf_connectionsByDestinationNode w) (con_node c) Main (con_index c))"
    using assms(1) unfolding consistent_def by (subst (asm) c) (simp add: byDestination_reverses)
  then obtain byType inputs where
    D: "map_get (wf_connectionsByDestinationNode w) (con_node c) = Some byType" "map_get byType Main = Some inputs"
      "\<lparr>con_node = p, con_type = Main, con_index = oi\<rparr> \<in> set (or_empty (inputs ! con_index c))"
    and i: "con_index c < length inputs" unfolding in_conns_at by blast
  from D i show "con_index c < length (main_inputs w (con_node c))" by (simp add: main_inputs_def)
  show "\<exists>cs. first_input w (con_node c) = Inr cs" using D by (simp add: first_input_def)
  show "\<lparr>con_node = p, con_type = Main, con_index = oi\<rparr> \<in> set (concat (map or_empty (main_inputs w (con_node c))))"
    using D nth_mem [OF i] by (auto simp: main_inputs_def)
qed

lemma addMissingParents_v1:
  assumes "wf_executionOrder w = Some ''v1''" and "consistent w" and "no_null_outputs (rs_runData st)"
    and "(oi, c) \<in> set (main_targets_of w p)"
  shows "addMissingParents w n oi p nsd r st = Inr st"
proof -
  from assms(4) obtain byType where byType: "obj_get (wf_connectionsBySourceNode w) p = Some byType"
    unfolding in_main_targets_of in_conns_at by blast
  define check where "check = map con_node (concat (map or_empty (or_empty (obj_get byType Main))))"
  have in_check: "\<exists>oi' c'. (oi', c') \<in> set (main_targets_of w p) \<and> con_node c' = m" if "m \<in> set check" for m
  proof -
    from that obtain outputs o' c' where "map_get byType Main = Some outputs" "o' \<in> set outputs" "c' \<in> set (or_empty o')" "m = con_node c'"
      by (cases "map_get byType Main") (auto simp: check_def)
    then show ?thesis unfolding in_main_targets_of in_conns_at using byType by (metis in_set_conv_nth)
  qed
  have step: "addMissingParent w oi p nsd r check x st = Inr st" for x
  proof -
    have "\<exists>b. (if con_node x \<in> set check then bind_res (first_input w (con_node x)) (\<lambda>conns.
        bind_res (incomingConnectionIsEmpty (rs_runData st) conns r) (\<lambda>isEmpty. Inr (\<not> isEmpty))) else Inr False) = Inr b"
    proof (cases "con_node x \<in> set check")
      case True
      from in_check [OF True] obtain cs where cs: "first_input w (con_node x) = Inr cs"
        using main_target_input(2) [OF assms(2)] by metis
      moreover obtain b where "incomingConnectionIsEmpty (rs_runData st) cs r = Inr b"
        using incomingConnectionIsEmpty_total [OF assms(3)] by metis
      ultimately show ?thesis using True by simp
    qed auto
    then show ?thesis
      using assms(1) by (auto simp: addMissingParent_def Let_def isLegacyExecutionOrder_def)
  qed
  have "fold_res (addMissingParent w oi p nsd r check) xs st = Inr st" for xs
    by (induction xs) (simp_all add: step)
  then show ?thesis by (simp add: addMissingParents_def byType check_def Let_def)
qed

text \<open>The state after data has arrived, with the order \<^verbatim>\<open>v1\<close>.\<close>

definition arrive ::
  "Workflow \<Rightarrow> INode \<Rightarrow> IConnection \<Rightarrow> nat \<Rightarrow> string \<Rightarrow> INodeExecutionData list \<Rightarrow> nat \<Rightarrow> nat option \<Rightarrow> ITaskMetadata option
     \<Rightarrow> run_state \<Rightarrow> run_state" where
  "arrive w node c oi p items r newRunIndex metadata st =
     (if 1 < length (main_inputs w (con_node c))
      then join_input w node (con_node c) (con_index c) items (source_of p oi r) st
      else st\<lparr>rs_nodeExecutionStack := \<lparr>ed_node = node, ed_data = [(Main, replicate (con_index c) Null @ [Cell items])],
             ed_source = Some [(Main, [Cell (source_of p oi r)])], ed_runIndex = newRunIndex, ed_metadata = metadata\<rparr>
           # rs_nodeExecutionStack st\<rparr>)"

lemma join_input_runData [simp]: "rs_runData (join_input w node n k items src st) = rs_runData st"
  by (simp add: join_input_def Let_def remove_waiting_def enqueue_entry_def)

lemma arrive_runData [simp]: "rs_runData (arrive w node c oi p items r nri md st) = rs_runData st"
  by (simp add: arrive_def)

lemma addNodeToBeExecuted_v1:
  assumes v1: "wf_executionOrder w = Some ''v1''" and w: "consistent w" and inv: "waiting_inv w st"
    and nulls: "no_null_outputs (rs_runData st)" and target: "(oi, c) \<in> set (main_targets_of w p)"
    and node: "obj_get (wf_nodes w) (con_node c) = Some node" and data: "cell_get nsd oi = Cell items"
  shows "addNodeToBeExecuted w c oi p (Some nsd) r nri md st = Inr (arrive w node c oi p items r nri md st)"
    and "waiting_inv w (arrive w node c oi p items r nri md st)"
proof -
  let ?n = "con_node c" and ?k = "con_index c"
  note k = main_target_input(1) [OF w target]
  have c: "c = \<lparr>con_node = ?n, con_type = con_type c, con_index = ?k\<rparr>" by simp
  show "waiting_inv w (arrive w node c oi p items r nri md st)"
  proof (cases "1 < length (main_inputs w ?n)")
    case True
    with join_input_inv [OF inv node k] show ?thesis by (simp add: arrive_def)
  next
    case False
    then show ?thesis
      using inv waiting_inv_cong [of "arrive w node c oi p items r nri md st" st w] by (simp add: arrive_def)
  qed
  show "addNodeToBeExecuted w c oi p (Some nsd) r nri md st = Inr (arrive w node c oi p items r nri md st)"
  proof (cases "1 < length (main_inputs w ?n)")
    case True
    let ?J = "join_input w node ?n ?k items (source_of p oi r) st"
    have "addMissingParents w ?n oi p (Some nsd) r ?J = Inr ?J"
      using addMissingParents_v1 [OF v1 w _ target] nulls by simp
    with addToWaiting_join [OF inv node c k True data] True show ?thesis
      by (simp add: addNodeToBeExecuted_def arrive_def Let_def)
  next
    case False
    then show ?thesis by (simp add: addNodeToBeExecuted_def arrive_def node arriving_def data enqueue_entry_def v1)
  qed
qed


section \<open>Which data is kept\<close>

text \<open>The data that waits to be processed: node, input and items, on the stack or in a waiting entry.\<close>

definition cell_items :: "string \<Rightarrow> INodeExecutionData list cell list \<Rightarrow> (string \<times> nat \<times> INodeExecutionData list) multiset" where
  "cell_items n cells = mset (List.map_filter (\<lambda>(k, c). map_option (\<lambda>items. (n, k, items)) (cell_option c)) (enumerate 0 cells))"

definition stack_items :: "IExecuteData list \<Rightarrow> (string \<times> nat \<times> INodeExecutionData list) multiset" where
  "stack_items stack = (\<Sum>e \<in># mset stack. cell_items (node_name (ed_node e)) (main_cells (ed_data e)))"

definition node_items :: "string \<Rightarrow> (nat \<times> ITaskDataConnections) list \<Rightarrow> (string \<times> nat \<times> INodeExecutionData list) multiset" where
  "node_items n es = (\<Sum>e \<in># mset es. cell_items n (main_cells (snd e)))"

definition waiting_items :: "IWaitingForExecution \<Rightarrow> (string \<times> nat \<times> INodeExecutionData list) multiset" where
  "waiting_items W = (\<Sum>e \<in># mset W. node_items (fst e) (snd e))"

definition pending :: "run_state \<Rightarrow> (string \<times> nat \<times> INodeExecutionData list) multiset" where
  "pending st = stack_items (rs_nodeExecutionStack st) + waiting_items (rs_waitingExecution st)"

lemma map_filter_enumerate:
  "mset (List.map_filter f (enumerate j xs)) = (\<Sum>i \<in># mset_set {..<length xs}. mset (case f (j + i, xs ! i) of None \<Rightarrow> [] | Some y \<Rightarrow> [y]))"
proof (induction xs arbitrary: j)
  case (Cons x xs)
  have "{..<Suc n} = insert 0 (Suc ` {..<n})" for n by (auto simp: image_iff less_Suc_eq_0_disj)
  then have "mset_set {..<length (x # xs)} = add_mset 0 (image_mset Suc (mset_set {..<length xs}))"
    by (simp add: image_mset_mset_set [symmetric])
  with Cons show ?case by (simp add: List.map_filter_simps image_mset.compositionality comp_def split: option.split)
qed (simp add: List.map_filter_simps)

lemma cell_items_sum:
  "cell_items n cells = (\<Sum>i \<in># mset_set {..<length cells}. case cells ! i of Cell items \<Rightarrow> {#(n, i, items)#} | _ \<Rightarrow> {#})"
  unfolding cell_items_def map_filter_enumerate
  by (intro arg_cong [where f = sum_mset] image_mset_cong) (simp split: cell.split)

lemma cell_items_update:
  assumes "k < length cells" and "cell_option (cells ! k) = None"
  shows "cell_items n (cells[k := Cell items]) = add_mset (n, k, items) (cell_items n cells)"
proof -
  have split: "mset_set {..<length cells} = add_mset k (mset_set ({..<length cells} - {k}))"
    using assms(1) by (metis finite_lessThan lessThan_iff mset_set.remove)
  have "cell_items n (cells[k := Cell items]) = {#(n, k, items)#}
      + (\<Sum>i \<in># mset_set ({..<length cells} - {k}). case cells ! i of Cell items \<Rightarrow> {#(n, i, items)#} | _ \<Rightarrow> {#})"
    using assms(1) unfolding cell_items_sum length_list_update split
    by (auto intro!: arg_cong [where f = sum_mset] image_mset_cong simp: nth_list_update)
  moreover have "cell_items n cells = (\<Sum>i \<in># mset_set ({..<length cells} - {k}). case cells ! i of Cell items \<Rightarrow> {#(n, i, items)#} | _ \<Rightarrow> {#})"
    using assms(2) unfolding cell_items_sum split by (cases "cells ! k") simp_all
  ultimately show ?thesis by simp
qed

lemma cell_items_nulls [simp]: "cell_items n (replicate m Null) = {#}"
  unfolding cell_items_sum by (simp add: sum_mset.neutral)

lemma node_items_split:
  "distinct (keys_of es) \<Longrightarrow> node_items n es
     = (case map_get es i of None \<Rightarrow> {#} | Some e \<Rightarrow> cell_items n (main_cells e)) + node_items n (filter (\<lambda>e. fst e \<noteq> i) es)"
  unfolding node_items_def by (subst mset_split_key [of es i]) (simp_all split: option.split)

lemma waiting_items_split:
  "distinct (keys_of W) \<Longrightarrow> waiting_items W = node_items n (or_empty (map_get W n)) + waiting_items (filter (\<lambda>e. fst e \<noteq> n) W)"
  unfolding waiting_items_def by (subst mset_split_key [of W n]) (simp_all add: node_items_def split: option.split)

lemma waiting_items_obj_set:
  "distinct (keys_of W) \<Longrightarrow> waiting_items (obj_set n es W) = node_items n es + waiting_items (filter (\<lambda>e. fst e \<noteq> n) W)"
  by (simp add: waiting_items_def js_obj.mset_put)


lemma main_cells_single [simp]: "main_cells [(Main, cells)] = cells"
  by (simp add: main_cells_def)

lemma waiting_items_put:
  assumes "distinct (keys_of W)" and "distinct (keys_of (or_empty (map_get W n)))"
  shows "waiting_items (set_waiting_entry n i e W) = cell_items n (main_cells e)
    + node_items n (filter (\<lambda>e. fst e \<noteq> i) (or_empty (map_get W n))) + waiting_items (filter (\<lambda>e. fst e \<noteq> n) W)"
  by (simp add: set_waiting_entry_def waiting_items_obj_set [OF assms(1)] node_items_def js_idx.mset_put [OF assms(2)])

lemma waiting_items_remove:
  assumes "distinct (keys_of (rs_waitingExecution st))"
  shows "waiting_items (rs_waitingExecution (remove_waiting n i st))
    = node_items n (filter (\<lambda>e. fst e \<noteq> i) (or_empty (map_get (rs_waitingExecution st) n)))
      + waiting_items (filter (\<lambda>e. fst e \<noteq> n) (rs_waitingExecution st))"
proof -
  let ?W = "rs_waitingExecution st"
  let ?es = "map_delete i (or_empty (map_get ?W n))"
  have "waiting_items (obj_delete n (obj_set n ?es ?W)) = waiting_items (filter (\<lambda>e. fst e \<noteq> n) ?W)"
    unfolding waiting_items_def map_delete_def [of n] mset_filter js_obj.mset_put [OF assms] by (simp flip: mset_filter)
  moreover have "waiting_items (obj_set n ?es ?W) = node_items n ?es + waiting_items (filter (\<lambda>e. fst e \<noteq> n) ?W)"
    by (rule waiting_items_obj_set [OF assms])
  ultimately show ?thesis
    unfolding map_delete_def [of i, symmetric]
    by (cases "?es = []") (simp_all add: remove_waiting_def Let_def delete_waiting_def js_obj.get_put node_items_def)
qed

lemma stack_items_enqueue [simp]:
  "stack_items (rs_nodeExecutionStack (enqueue_entry w e st))
     = cell_items (node_name (ed_node e)) (main_cells (ed_data e)) + stack_items (rs_nodeExecutionStack st)"
  by (simp add: enqueue_entry_def stack_items_def)

lemma joined_cells_items:
  assumes inv: "waiting_inv w st" and k: "k < length (main_inputs w n)"
    and slot: "open_entry (rs_waitingExecution st) n k = None \<Longrightarrow>
      entry_at (rs_waitingExecution st) n (length (or_empty (map_get (rs_waitingExecution st) n))) = None"
  shows "cell_items n (joined_cells w (rs_waitingExecution st) n k items) = add_mset (n, k, items)
    (case entry_at (rs_waitingExecution st) n (join_index (rs_waitingExecution st) n k) of None \<Rightarrow> {#} | Some e \<Rightarrow> cell_items n (main_cells e))"
proof (cases "open_entry (rs_waitingExecution st) n k")
  case None
  with slot cell_items_update [of k "replicate (length (main_inputs w n)) Null" n items] k show ?thesis
    by (simp add: joined_cells_def join_index_def)
next
  case (Some ie)
  then obtain i e where ie: "open_entry (rs_waitingExecution st) n k = Some (i, e)" by (cases ie) simp
  from open_entry_Some [OF inv ie] obtain es s where
    e: "map_get (rs_waitingExecution st) n = Some es" "map_get es i = Some e" "entry_ok w n e s" by blast
  have "k < length (main_cells e)" using e(3) k by (simp add: entry_ok_def)
  moreover from this have "cell_option (main_cells e ! k) = None"
    using ie by (auto simp: open_entry_def find_Some_iff cell_get_in)
  ultimately show ?thesis
    using cell_items_update [of k "main_cells e" n items] e by (simp add: joined_cells_def join_index_def ie entry_at_def)
qed

lemma join_input_pending:
  assumes inv: "waiting_inv w st" and name: "node_name node = n" and k: "k < length (main_inputs w n)" "1 < length (main_inputs w n)"
    and slot: "open_entry (rs_waitingExecution st) n k = None \<Longrightarrow>
      entry_at (rs_waitingExecution st) n (length (or_empty (map_get (rs_waitingExecution st) n))) = None"
  shows "pending (join_input w node n k items src st) = add_mset (n, k, items) (pending st)"
proof -
  let ?W = "rs_waitingExecution st" and ?i = "join_index (rs_waitingExecution st) n k"
  let ?cells = "joined_cells w ?W n k items"
  note D = waiting_invD(1,4) [OF inv]
  have es: "distinct (keys_of (or_empty (map_get ?W n)))"
    using D(2) [of n] by (cases "map_get ?W n") (simp_all add: strict_sorted_iff)
  let ?rest = "node_items n (filter (\<lambda>e. fst e \<noteq> ?i) (or_empty (map_get ?W n))) + waiting_items (filter (\<lambda>e. fst e \<noteq> n) ?W)"
  have at: "entry_at ?W n ?i = map_get (or_empty (map_get ?W n)) ?i" by (cases "map_get ?W n") (simp_all add: entry_at_def)
  have old: "waiting_items ?W = (case entry_at ?W n ?i of None \<Rightarrow> {#} | Some e \<Rightarrow> cell_items n (main_cells e)) + ?rest"
    unfolding waiting_items_split [OF D(1), of n] at by (subst node_items_split [OF es, of n ?i]) (simp add: ac_simps)
  have new: "cell_items n ?cells + ?rest = add_mset (n, k, items) (waiting_items ?W)"
    using joined_cells_items [OF inv k(1) slot, of items] old by simp
  show ?thesis
  proof (cases "Null \<in> set ?cells")
    case True
    have "pending (join_input w node n k items src st) = stack_items (rs_nodeExecutionStack st) + (cell_items n ?cells + ?rest)"
      using True waiting_items_put [OF D(1) es, of ?i "[(Main, ?cells)]"]
      by (simp add: join_input_def Let_def pending_def ac_simps)
    then show ?thesis unfolding new by (simp add: pending_def)
  next
    case False
    let ?e = "\<lparr>ed_node = node, ed_data = [(Main, ?cells)], ed_source = Some [(Main, joined_sources w ?W
      (or_empty (rs_waitingExecutionSource st)) n k src)], ed_runIndex = None, ed_metadata = None\<rparr>"
    have "pending (join_input w node n k items src st)
        = stack_items (rs_nodeExecutionStack (enqueue_entry w ?e st)) + waiting_items (rs_waitingExecution (remove_waiting n ?i (enqueue_entry w ?e st)))"
      using False by (simp add: join_input_def Let_def pending_def remove_waiting_def)
    also have "waiting_items (rs_waitingExecution (remove_waiting n ?i (enqueue_entry w ?e st))) = ?rest"
      using waiting_items_remove [of "enqueue_entry w ?e st" n ?i] D(1) by (simp add: enqueue_entry_def)
    also have "stack_items (rs_nodeExecutionStack (enqueue_entry w ?e st)) + ?rest
        = stack_items (rs_nodeExecutionStack st) + (cell_items n ?cells + ?rest)" by (simp add: name ac_simps)
    finally show ?thesis unfolding new by (simp add: pending_def)
  qed
qed

lemma arrive_pending:
  assumes inv: "waiting_inv w st" and name: "node_name node = con_node c" and k: "con_index c < length (main_inputs w (con_node c))"
    and slot: "open_entry (rs_waitingExecution st) (con_node c) (con_index c) = None \<Longrightarrow>
      entry_at (rs_waitingExecution st) (con_node c) (length (or_empty (map_get (rs_waitingExecution st) (con_node c)))) = None"
  shows "pending (arrive w node c oi p items r nri md st) = add_mset (con_node c, con_index c, items) (pending st)"
proof (cases "1 < length (main_inputs w (con_node c))")
  case True
  with join_input_pending [OF inv name k True slot] show ?thesis by (simp add: arrive_def)
next
  case False
  then have "con_index c = 0" using k by simp
  moreover have "cell_items n [Cell items] = {#(n, 0, items)#}" for n
    using cell_items_update [of 0 "[Null]" n items] cell_items_nulls [of n 1] by simp
  ultimately show ?thesis using False name by (simp add: arrive_def pending_def stack_items_def)
qed


section \<open>The order of the nodes after a node\<close>

definition has_output :: "INodeExecutionData list cell list \<Rightarrow> nat \<times> IConnection \<Rightarrow> bool" where
  "has_output nsd target \<longleftrightarrow> (case cell_get nsd (fst target) of Cell items \<Rightarrow> items \<noteq> [] | _ \<Rightarrow> False)"

definition to_add :: "Workflow \<Rightarrow> nat \<times> IConnection \<Rightarrow> node_to_add" where
  "to_add w target = \<lparr>na_position = node_position (the (obj_get (wf_nodes w) (con_node (snd target)))),
     na_connection = snd target, na_outputIndex = fst target\<rparr>"

text \<open>From top to bottom, and from left to right.\<close>

definition place :: "INode \<Rightarrow> rat \<times> rat" where
  "place node = (snd (node_position node), fst (node_position node))"

lemma addSuccessor_v1:
  assumes "wf_executionOrder w = Some ''v1''" and "obj_get (wf_nodes w) (con_node (snd target)) \<noteq> None"
  shows "addSuccessor w p nsd r target (acc, st) = Inr (acc @ (if has_output nsd target then [to_add w target] else []), st)"
  using assms by (cases target) (auto simp: addSuccessor_def Let_def has_output_def to_add_def isLegacyExecutionOrder_def split: cell.splits)

lemma addSuccessor_fold:
  assumes "wf_executionOrder w = Some ''v1''" and "\<And>t. t \<in> set ts \<Longrightarrow> obj_get (wf_nodes w) (con_node (snd t)) \<noteq> None"
  shows "fold_res (addSuccessor w p nsd r) ts (acc, st) = Inr (acc @ map (to_add w) (filter (has_output nsd) ts), st)"
  using assms(2) by (induction ts arbitrary: acc) (auto simp: addSuccessor_v1 [OF assms(1)])

lemma js_sort_positions:
  "js_sort compare_positions xs = sort_key (\<lambda>a. (- snd (na_position a), - fst (na_position a))) xs"
  by (rule js_sort_sort_key) (auto simp: compare_positions_def less_prod_simp split: if_splits)

lemma arrive_stack:
  assumes "wf_executionOrder w = Some ''v1''"
  shows "\<exists>es. rs_nodeExecutionStack (arrive w node c oi p items r nri md st) = es @ rs_nodeExecutionStack st
    \<and> (es = [] \<or> (\<exists>e. es = [e] \<and> ed_node e = node))
    \<and> (\<not> 1 < length (main_inputs w (con_node c)) \<longrightarrow> (\<exists>e. es = [e] \<and> ed_data e = [(Main, replicate (con_index c) Null @ [Cell items])]))"
  using assms by (auto simp: arrive_def join_input_def Let_def remove_waiting_def enqueue_entry_def)

lemma add_in_order:
  assumes v1: "wf_executionOrder w = Some ''v1''" and w: "consistent w"
    and ts: "\<And>t. t \<in> set ts \<Longrightarrow> t \<in> set (main_targets_of w p) \<and> has_output nsd t \<and> obj_get (wf_nodes w) (con_node (snd t)) \<noteq> None"
    and inv: "waiting_inv w st" "no_null_outputs (rs_runData st)"
  shows "\<exists>st' es. fold_res (\<lambda>d. addNodeToBeExecuted w (na_connection d) (na_outputIndex d) p (Some nsd) r None None)
        (map (to_add w) ts) st = Inr st'
    \<and> waiting_inv w st' \<and> rs_runData st' = rs_runData st \<and> rs_nodeExecutionStack st' = es @ rs_nodeExecutionStack st
    \<and> subseq (map (place \<circ> ed_node) es) (rev (map (\<lambda>d. (snd (na_position d), fst (na_position d))) (map (to_add w) ts)))
    \<and> (\<forall>t \<in> set ts. \<forall>items. cell_get nsd (fst t) = Cell items \<longrightarrow> length (main_inputs w (con_node (snd t))) = 1 \<longrightarrow>
         (\<exists>e \<in> set es. Some (ed_node e) = obj_get (wf_nodes w) (con_node (snd t)) \<and> ed_data e = [(Main, [Cell items])]))"
  using ts inv
proof (induction ts arbitrary: st)
  case Nil
  then show ?case by auto
next
  case (Cons t ts)
  obtain oi c where t: "t = (oi, c)" by fastforce
  from Cons.prems(1) [of t] t obtain node items where
    target: "(oi, c) \<in> set (main_targets_of w p)" and node: "obj_get (wf_nodes w) (con_node c) = Some node"
    and items: "cell_get nsd oi = Cell items" by (auto simp: has_output_def split: cell.splits)
  let ?st1 = "arrive w node c oi p items r None None st"
  note add = addNodeToBeExecuted_v1 [OF v1 w Cons.prems(2,3) target node items, of r None None]
  from arrive_stack [OF v1, of node c oi p items r None None st] obtain es1 where
    es1: "rs_nodeExecutionStack ?st1 = es1 @ rs_nodeExecutionStack st" "es1 = [] \<or> (\<exists>e. es1 = [e] \<and> ed_node e = node)"
      "\<not> 1 < length (main_inputs w (con_node c)) \<Longrightarrow> \<exists>e. es1 = [e] \<and> ed_data e = [(Main, replicate (con_index c) Null @ [Cell items])]" by blast
  have rest: "\<And>u. u \<in> set ts \<Longrightarrow> u \<in> set (main_targets_of w p) \<and> has_output nsd u \<and> obj_get (wf_nodes w) (con_node (snd u)) \<noteq> None"
    using Cons.prems(1) by simp
  have nulls: "no_null_outputs (rs_runData ?st1)" using Cons.prems(3) by simp
  from Cons.IH [OF rest add(2) nulls] obtain st2 es2 where
    st2: "fold_res (\<lambda>d. addNodeToBeExecuted w (na_connection d) (na_outputIndex d) p (Some nsd) r None None)
        (map (to_add w) ts) ?st1 = Inr st2" "waiting_inv w st2" "rs_runData st2 = rs_runData ?st1"
      "rs_nodeExecutionStack st2 = es2 @ rs_nodeExecutionStack ?st1"
      "subseq (map (place \<circ> ed_node) es2) (rev (map (\<lambda>d. (snd (na_position d), fst (na_position d))) (map (to_add w) ts)))"
      "\<forall>t \<in> set ts. \<forall>items. cell_get nsd (fst t) = Cell items \<longrightarrow> length (main_inputs w (con_node (snd t))) = 1 \<longrightarrow>
         (\<exists>e \<in> set es2. Some (ed_node e) = obj_get (wf_nodes w) (con_node (snd t)) \<and> ed_data e = [(Main, [Cell items])])"
    by blast
  have "subseq (map (place \<circ> ed_node) es1) [(snd (na_position (to_add w t)), fst (na_position (to_add w t)))]"
    using es1(2) by (auto simp: t to_add_def node place_def)
  with st2(5) have order: "subseq (map (place \<circ> ed_node) (es2 @ es1))
      (rev (map (\<lambda>d. (snd (na_position d), fst (na_position d))) (map (to_add w) (t # ts))))"
    by (simp add: list_emb_append_mono)
  have first: "\<exists>e \<in> set (es2 @ es1). Some (ed_node e) = obj_get (wf_nodes w) (con_node (snd t)) \<and> ed_data e = [(Main, [Cell items'])]"
    if "cell_get nsd (fst t) = Cell items'" "length (main_inputs w (con_node (snd t))) = 1" for items'
  proof -
    have "con_index c = 0" using main_target_input(1) [OF w target] that(2) t by simp
    with es1(2,3) that items t node show ?thesis by auto
  qed
  have entries: "\<forall>u \<in> set (t # ts). \<forall>items. cell_get nsd (fst u) = Cell items \<longrightarrow> length (main_inputs w (con_node (snd u))) = 1 \<longrightarrow>
      (\<exists>e \<in> set (es2 @ es1). Some (ed_node e) = obj_get (wf_nodes w) (con_node (snd u)) \<and> ed_data e = [(Main, [Cell items])])"
  proof (intro ballI allI impI)
    fix u items'
    assume u: "u \<in> set (t # ts)" "cell_get nsd (fst u) = Cell items'" "length (main_inputs w (con_node (snd u))) = 1"
    show "\<exists>e \<in> set (es2 @ es1). Some (ed_node e) = obj_get (wf_nodes w) (con_node (snd u)) \<and> ed_data e = [(Main, [Cell items'])]"
    proof (cases "u = t")
      case True
      with first u show ?thesis by blast
    next
      case False
      with u st2(6) have "\<exists>e \<in> set es2. Some (ed_node e) = obj_get (wf_nodes w) (con_node (snd u)) \<and> ed_data e = [(Main, [Cell items'])]"
        by simp
      then show ?thesis by auto
    qed
  qed
  have "fold_res (\<lambda>d. addNodeToBeExecuted w (na_connection d) (na_outputIndex d) p (Some nsd) r None None)
        (map (to_add w) (t # ts)) st = Inr st2"
    using add(1) st2(1) by (simp add: t to_add_def)
  moreover have "rs_nodeExecutionStack st2 = (es2 @ es1) @ rs_nodeExecutionStack st" using st2(4) es1(1) by simp
  moreover have "rs_runData st2 = rs_runData st" using st2(3) by simp
  ultimately show ?case using st2(2) order entries by blast
qed

lemma sorted_wrt_subseq: "subseq xs ys \<Longrightarrow> sorted_wrt P ys \<Longrightarrow> sorted_wrt P xs"
  by (induction rule: list_emb.induct) (auto dest: list_emb_set)

lemma addSuccessors_spec:
  assumes v1: "wf_executionOrder w = Some ''v1''" and w: "consistent w" and inv: "waiting_inv w st" "no_null_outputs (rs_runData st)"
    and closed: "\<And>t. t \<in> set (main_targets_of w p) \<Longrightarrow> obj_get (wf_nodes w) (con_node (snd t)) \<noteq> None"
  shows "\<exists>st' es. addSuccessors w p nsd r st = Inr st' \<and> waiting_inv w st' \<and> rs_runData st' = rs_runData st
    \<and> rs_nodeExecutionStack st' = es @ rs_nodeExecutionStack st \<and> sorted (map (place \<circ> ed_node) es)
    \<and> (\<forall>(oi, c) \<in> set (main_targets_of w p). \<forall>items. cell_get nsd oi = Cell items \<longrightarrow> items \<noteq> [] \<longrightarrow>
         length (main_inputs w (con_node c)) = 1 \<longrightarrow>
         (\<exists>e \<in> set es. Some (ed_node e) = obj_get (wf_nodes w) (con_node c) \<and> ed_data e = [(Main, [Cell items])]))"
proof -
  let ?key = "\<lambda>a. (- snd (na_position a), - fst (na_position a))"
  let ?ts = "filter (has_output nsd) (main_targets_of w p)"
  let ?sorted = "sort_key (?key \<circ> to_add w) ?ts"
  have sort: "js_sort compare_positions (map (to_add w) ?ts) = map (to_add w) ?sorted"
  proof -
    have "insort_key ?key (to_add w x) (map (to_add w) xs) = map (to_add w) (insort_key (?key \<circ> to_add w) x xs)" for x xs
      by (induction xs) auto
    then have "sort_key ?key (map (to_add w) xs) = map (to_add w) (sort_key (?key \<circ> to_add w) xs)" for xs
      by (induction xs) simp_all
    then show ?thesis by (simp add: js_sort_positions)
  qed
  have eq: "addSuccessors w p nsd r st = fold_res (\<lambda>d. addNodeToBeExecuted w (na_connection d) (na_outputIndex d) p (Some nsd) r None None)
      (map (to_add w) ?sorted) st"
    by (simp add: addSuccessors_def addSuccessor_fold [OF v1 closed] v1 sort)
  have "\<And>t. t \<in> set ?sorted \<Longrightarrow> t \<in> set (main_targets_of w p) \<and> has_output nsd t \<and> obj_get (wf_nodes w) (con_node (snd t)) \<noteq> None"
    using closed by auto
  from add_in_order [OF v1 w _ inv, of ?sorted p nsd r, OF this] obtain st' es where
    st': "fold_res (\<lambda>d. addNodeToBeExecuted w (na_connection d) (na_outputIndex d) p (Some nsd) r None None) (map (to_add w) ?sorted) st = Inr st'"
      "waiting_inv w st'" "rs_runData st' = rs_runData st" "rs_nodeExecutionStack st' = es @ rs_nodeExecutionStack st"
      "subseq (map (place \<circ> ed_node) es) (rev (map (\<lambda>d. (snd (na_position d), fst (na_position d))) (map (to_add w) ?sorted)))"
      "\<forall>t \<in> set ?sorted. \<forall>items. cell_get nsd (fst t) = Cell items \<longrightarrow> length (main_inputs w (con_node (snd t))) = 1 \<longrightarrow>
         (\<exists>e \<in> set es. Some (ed_node e) = obj_get (wf_nodes w) (con_node (snd t)) \<and> ed_data e = [(Main, [Cell items])])" by blast
  have flip: "(snd b, fst b) \<le> (snd a, fst a)" if "(- snd a, - fst a) \<le> (- snd b, - fst b)" for a b :: "rat \<times> rat"
    using that by auto
  have "sorted_wrt (\<lambda>x y. ?key (to_add w x) \<le> ?key (to_add w y)) ?sorted"
    using sorted_sort_key [of "?key \<circ> to_add w" ?ts] unfolding sorted_wrt_map comp_def .
  then have "sorted_wrt (\<lambda>a b. b \<le> a) (map (\<lambda>d. (snd (na_position d), fst (na_position d))) (map (to_add w) ?sorted))"
    unfolding sorted_wrt_map by (rule sorted_wrt_mono_rel [rotated]) (rule flip)
  then have "sorted (rev (map (\<lambda>d. (snd (na_position d), fst (na_position d))) (map (to_add w) ?sorted)))"
    by (simp only: sorted_wrt_rev)
  from sorted_wrt_subseq [OF st'(5) this] have "sorted (map (place \<circ> ed_node) es)" .
  moreover have "\<exists>e \<in> set es. Some (ed_node e) = obj_get (wf_nodes w) (con_node c) \<and> ed_data e = [(Main, [Cell items])]"
    if "(oi, c) \<in> set (main_targets_of w p)" "cell_get nsd oi = Cell items" "items \<noteq> []" "length (main_inputs w (con_node c)) = 1" for oi c items
    using that st'(6) by (force simp: has_output_def)
  ultimately show ?thesis unfolding eq using st'(1-4) by blast
qed

section \<open>Properties\<close>

text \<open>
  C6. With the execution order \<^verbatim>\<open>v1\<close>, \<^verbatim>\<open>addNodeToBeExecuted\<close> never fails for a connection of the workflow and data that a
  node output, and is equivalent to the reference: data for a node with one input is put on the stack;
  data for one of several inputs completes the first waiting entry that has none for this input, or opens a new entry, and
  the entry moves to the stack as soon as all its inputs have data. The invariant of the waiting entries is kept: each
  entry has one cell per input of its node, one with and one without data, and exactly the inputs with data have a source.
\<close>

theorem addNodeToBeExecuted_joins:
  assumes "wf_executionOrder w = Some ''v1''" and "consistent w" and "waiting_inv w st"
    and "no_null_outputs (rs_runData st)" and "(oi, c) \<in> set (main_targets_of w p)"
    and "obj_get (wf_nodes w) (con_node c) = Some node" and "cell_get nsd oi = Cell items"
  shows "addNodeToBeExecuted w c oi p (Some nsd) r nri md st = Inr (arrive w node c oi p items r nri md st)
    \<and> waiting_inv w (arrive w node c oi p items r nri md st)"
  using addNodeToBeExecuted_v1 [OF assms] by blast

text \<open>
  C7. No data is lost and none is duplicated: after \<^verbatim>\<open>addNodeToBeExecuted\<close> (order \<^verbatim>\<open>v1\<close>) the data on the stack and in the waiting
  entries is the data before and the items that arrived, at their node and input, unless the number of waiting
  entries of the node, which becomes the index of a new entry, is the index of an entry that still waits.
\<close>

theorem addNodeToBeExecuted_keeps_data:
  assumes "wf_executionOrder w = Some ''v1''" and "consistent w" and "waiting_inv w st"
    and "no_null_outputs (rs_runData st)" and "(oi, c) \<in> set (main_targets_of w p)"
    and "obj_get (wf_nodes w) (con_node c) = Some node" and "node_name node = con_node c" and "cell_get nsd oi = Cell items"
    and "open_entry (rs_waitingExecution st) (con_node c) (con_index c) = None \<Longrightarrow>
      entry_at (rs_waitingExecution st) (con_node c) (length (or_empty (map_get (rs_waitingExecution st) (con_node c)))) = None"
  shows "\<exists>st'. addNodeToBeExecuted w c oi p (Some nsd) r nri md st = Inr st'
    \<and> pending st' = add_mset (con_node c, con_index c, items) (pending st)"
  using addNodeToBeExecuted_v1(1) [OF assms(1-6,8)] arrive_pending [OF assms(3,7) main_target_input(1) [OF assms(2,5)] assms(9)]
  by blast

text \<open>
  C8. After a node has run (order \<^verbatim>\<open>v1\<close>, all targets exist) its successors are added without error, the invariant of the waiting
  entries and the run data are kept, and the new stack entries lie in front of the old ones, sorted by position: first the
  node that is highest, of two at the same height the left one. Each target with one input that gets
  items is among them with these items.
\<close>

theorem addSuccessors_order:
  assumes "wf_executionOrder w = Some ''v1''" and "consistent w" and "waiting_inv w st" and "no_null_outputs (rs_runData st)"
    and "\<And>t. t \<in> set (main_targets_of w p) \<Longrightarrow> obj_get (wf_nodes w) (con_node (snd t)) \<noteq> None"
  shows "\<exists>st' es. addSuccessors w p nsd r st = Inr st' \<and> waiting_inv w st' \<and> rs_runData st' = rs_runData st
    \<and> rs_nodeExecutionStack st' = es @ rs_nodeExecutionStack st \<and> sorted (map (place \<circ> ed_node) es)
    \<and> (\<forall>(oi, c) \<in> set (main_targets_of w p). \<forall>items. cell_get nsd oi = Cell items \<longrightarrow> items \<noteq> [] \<longrightarrow>
         length (main_inputs w (con_node c)) = 1 \<longrightarrow>
         (\<exists>e \<in> set es. Some (ed_node e) = obj_get (wf_nodes w) (con_node c) \<and> ed_data e = [(Main, [Cell items])]))"
  using assms by (rule addSuccessors_spec)

section \<open>Examples\<close>

text \<open>Two nodes lead to the two inputs of a third one; another one leads to two nodes at different heights.\<close>

definition ex_target :: "string \<Rightarrow> nat \<Rightarrow> IConnection" where
  "ex_target name i = \<lparr>con_node = name, con_type = Main, con_index = i\<rparr>"

definition ex_join :: Workflow where
  "ex_join = setConnections
     [(''a'', [(Main, [Some [ex_target ''m'' 0]])]), (''b'', [(Main, [Some [ex_target ''m'' 1]])]),
      (''c'', [(Main, [Some [ex_target ''a'' 0, ex_target ''b'' 0]])])]
     \<lparr>wf_nodes = [(''a'', (ex_node 0 ''a'')\<lparr>node_position := (0, 5)\<rparr>), (''b'', (ex_node 1 ''b'')\<lparr>node_position := (0, 1)\<rparr>),
        (''c'', ex_node 2 ''c''), (''m'', ex_node 3 ''m'')],
      wf_connectionsBySourceNode = [], wf_connectionsByDestinationNode = [], wf_pinData = None, wf_executionOrder = Some ''v1''\<rparr>"

definition ex_idle :: run_state where
  "ex_idle = \<lparr>rs_runData = [], rs_nodeExecutionStack = [], rs_waitingExecution = [], rs_waitingExecutionSource = Some []\<rparr>"

definition ex_item :: "nat \<Rightarrow> INodeExecutionData" where
  "ex_item i = [(''json'', JObj [(''i'', JNum (of_nat i))])]"

lemma ex_join_ok: "wf_executionOrder ex_join = Some ''v1''" "consistent ex_join" "waiting_inv ex_join ex_idle"
  "no_null_outputs (rs_runData ex_idle)"
proof -
  show "waiting_inv ex_join ex_idle" by (simp add: waiting_inv_def ex_idle_def entry_at_def)
  show "consistent ex_join" unfolding consistent_def wf_conns_def by code_simp
qed (simp_all add: ex_join_def setConnections_def ex_idle_def no_null_outputs_def)

theorem addNodeToBeExecuted_joins_witness:
  "addNodeToBeExecuted ex_join (ex_target ''m'' 0) 0 ''a'' (Some [Cell [ex_item 1]]) 0 None None ex_idle
     = Inr (arrive ex_join (ex_node 3 ''m'') (ex_target ''m'' 0) 0 ''a'' [ex_item 1] 0 None None ex_idle)
   \<and> waiting_inv ex_join (arrive ex_join (ex_node 3 ''m'') (ex_target ''m'' 0) 0 ''a'' [ex_item 1] 0 None None ex_idle)"
proof -
  have "(0, ex_target ''m'' 0) \<in> set (main_targets_of ex_join ''a'')" by code_simp
  moreover have "obj_get (wf_nodes ex_join) (con_node (ex_target ''m'' 0)) = Some (ex_node 3 ''m'')" by code_simp
  moreover have "cell_get [Cell [ex_item 1]] 0 = Cell [ex_item 1]" by (simp add: cell_get_def)
  ultimately show ?thesis by (rule addNodeToBeExecuted_joins [OF ex_join_ok])
qed

theorem addNodeToBeExecuted_keeps_data_witness:
  "\<exists>st'. addNodeToBeExecuted ex_join (ex_target ''m'' 0) 0 ''a'' (Some [Cell [ex_item 1]]) 0 None None ex_idle = Inr st'
     \<and> pending st' = {#(''m'', 0, [ex_item 1])#}"
proof -
  have "(0, ex_target ''m'' 0) \<in> set (main_targets_of ex_join ''a'')" by code_simp
  moreover have "obj_get (wf_nodes ex_join) (con_node (ex_target ''m'' 0)) = Some (ex_node 3 ''m'')"
    "node_name (ex_node 3 ''m'') = con_node (ex_target ''m'' 0)" by code_simp+
  moreover have "cell_get [Cell [ex_item 1]] 0 = Cell [ex_item 1]" by (simp add: cell_get_def)
  moreover have "entry_at (rs_waitingExecution ex_idle) n i = None" for n i by (simp add: ex_idle_def entry_at_def)
  ultimately have "\<exists>st'. addNodeToBeExecuted ex_join (ex_target ''m'' 0) 0 ''a'' (Some [Cell [ex_item 1]]) 0 None None ex_idle = Inr st'
     \<and> pending st' = add_mset (con_node (ex_target ''m'' 0), con_index (ex_target ''m'' 0), [ex_item 1]) (pending ex_idle)"
    by (rule addNodeToBeExecuted_keeps_data [OF ex_join_ok])
  moreover have "pending ex_idle = {#}" by (simp add: pending_def ex_idle_def stack_items_def waiting_items_def)
  ultimately show ?thesis by (simp add: ex_target_def)
qed

theorem addSuccessors_order_witness:
  "\<exists>st' es. addSuccessors ex_join ''c'' [Cell [ex_item 1]] 0 ex_idle = Inr st' \<and> rs_nodeExecutionStack st' = es
     \<and> map (node_name \<circ> ed_node) es = [''b'', ''a''] \<and> sorted (map (place \<circ> ed_node) es)"
proof -
  have closed: "obj_get (wf_nodes ex_join) (con_node (snd t)) \<noteq> None" if "t \<in> set (main_targets_of ex_join ''c'')" for t
  proof -
    have "\<forall>t \<in> set (main_targets_of ex_join ''c''). obj_get (wf_nodes ex_join) (con_node (snd t)) \<noteq> None" by code_simp
    with that show ?thesis by blast
  qed
  from addSuccessors_order [where nsd = "[Cell [ex_item 1]]" and r = 0, OF ex_join_ok closed] obtain st' es where
    st': "addSuccessors ex_join ''c'' [Cell [ex_item 1]] 0 ex_idle = Inr st'"
      "rs_nodeExecutionStack st' = es @ rs_nodeExecutionStack ex_idle" "sorted (map (place \<circ> ed_node) es)" by blast
  moreover have "case addSuccessors ex_join ''c'' [Cell [ex_item 1]] 0 ex_idle of
      Inr st' \<Rightarrow> map (node_name \<circ> ed_node) (rs_nodeExecutionStack st') = [''b'', ''a''] | Inl _ \<Rightarrow> False" by code_simp
  ultimately show ?thesis by (auto simp: ex_idle_def)
qed

text \<open>
  Waiting data can be lost. Node \<^verbatim>\<open>m\<close> has two inputs; the first gets data twice, then the second once, so that the first
  of the two waiting entries starts and the entry with index 1 is left. When the first input gets data again, no
  entry is open for it, and the new entry gets the number of waiting entries, 1, as its index: it overwrites the waiting
  entry, whose data never reaches the node although nothing has read it.
\<close>

lemma waiting_entry_overwritten:
  "(case fold_res (\<lambda>(p, k, i) st. addNodeToBeExecuted ex_join (ex_target ''m'' k) 0 p (Some [Cell [ex_item i]]) 0 None None st)
      [(''a'', 0, 1), (''a'', 0, 2), (''b'', 1, 3), (''a'', 0, 4)] ex_idle of
      Inl _ \<Rightarrow> False
    | Inr st \<Rightarrow> pending st = {#(''m'', 0, [ex_item 1]), (''m'', 1, [ex_item 3]), (''m'', 0, [ex_item 4])#}
        \<and> (''m'', 0, [ex_item 2]) \<notin># pending st)"
  by code_simp

end
