(* ===== verification/Waiting_Release.thy ===== *)
theory Waiting_Release
  imports Execution_Stack_Correct
begin

text \<open>
  The release of waiting nodes: when the execution stack is empty, the loop of \<^verbatim>\<open>processRunExecutionData\<close> looks for a
  waiting node that can run although some of its inputs never got data.
\<close>

section \<open>Releasing waiting nodes\<close>

text \<open>
  A node must go on waiting: it needs data on all its inputs, or a required input of its first entry has no data, or one of
  its ancestors waits.
\<close>

definition first_key :: "IWaitingForExecution \<Rightarrow> string \<Rightarrow> nat" where
  "first_key W n = hd (js_sort compare_keys (keys_of (or_empty (map_get W n))))"

definition first_cells :: "IWaitingForExecution \<Rightarrow> string \<Rightarrow> INodeExecutionData list cell list" where
  "first_cells W n = (case entry_at W n (first_key W n) of None \<Rightarrow> [] | Some e \<Rightarrow> main_cells e)"

definition must_wait ::
  "NodeTypes \<Rightarrow> (INode \<Rightarrow> string \<Rightarrow> required_inputs option) \<Rightarrow> Workflow \<Rightarrow> IWaitingForExecution \<Rightarrow> string \<Rightarrow> bool" where
  "must_wait nodeTypes evalInputs w W n \<longleftrightarrow> (\<exists>node nodeType. getNode w n = Some node
     \<and> nodeTypes (node_type node) (node_typeVersion node) = Some nodeType
     \<and> (all_required (required_of evalInputs w node nodeType) (inputs_length (nt_inputs nodeType))
       \<or> (\<exists>m \<in> set (workflow_getParentNodes w n Main (- 1)). m \<in> set (keys_of W))
       \<or> input_missing (required_of evalInputs w node nodeType) (inputs_with_data (first_cells W n))))"

text \<open>The data that holds items.\<close>

definition live_items :: "run_state \<Rightarrow> (string \<times> nat \<times> INodeExecutionData list) multiset" where
  "live_items st = filter_mset (\<lambda>(n, k, items). items \<noteq> []) (pending st)"

lemma js_sort_Nil [simp]: "js_sort cmp xs = [] \<longleftrightarrow> xs = []"
  by (metis mset_js_sort mset_zero_iff)

lemma first_key_entry:
  assumes inv: "waiting_inv w st" and n: "n \<in> set (keys_of (rs_waitingExecution st))"
  obtains es ss e s node where "map_get (rs_waitingExecution st) n = Some es" "es \<noteq> []" "map_get es (first_key (rs_waitingExecution st) n) = Some e"
    "rs_waitingExecutionSource st \<noteq> None" "map_get (or_empty (rs_waitingExecutionSource st)) n = Some ss" "entry_ok w n e s"
    "obj_get (wf_nodes w) n = Some node"
proof -
  from n obtain es where es: "map_get (rs_waitingExecution st) n = Some es" by (metis map_of_eq_None_iff not_None_eq set_map)
  with waiting_invD(4) [OF inv] obtain node where ne: "es \<noteq> []" "obj_get (wf_nodes w) n = Some node" by blast
  have "first_key (rs_waitingExecution st) n \<in> set (js_sort compare_keys (keys_of es))"
    unfolding first_key_def es option.case using ne(1) by (intro hd_in_set) simp
  then have "first_key (rs_waitingExecution st) n \<in> set (keys_of es)" by simp
  then obtain e where "(first_key (rs_waitingExecution st) n, e) \<in> set es" by force
  from waiting_inv_entry [OF inv es this] obtain ss s where
    "map_get (or_empty (rs_waitingExecutionSource st)) n = Some ss" "map_get es (first_key (rs_waitingExecution st) n) = Some e"
    "entry_ok w n e s" by blast
  moreover from this(1) have "rs_waitingExecutionSource st \<noteq> None" by (cases "rs_waitingExecutionSource st") simp_all
  ultimately show thesis using that es ne by blast
qed

lemma live_cells_fill:
  "filter_mset (\<lambda>(n, k, items). items \<noteq> []) (mset (List.map_filter (\<lambda>(k, c). map_option (\<lambda>items. (n, k, items)) (cell_option c))
       (enumerate j (map fill_input cells @ replicate m (Cell [])))))
   = filter_mset (\<lambda>(n, k, items). items \<noteq> []) (mset (List.map_filter (\<lambda>(k, c). map_option (\<lambda>items. (n, k, items)) (cell_option c))
       (enumerate j cells)))"
proof (induction cells arbitrary: j)
  case Nil
  have "filter_mset (\<lambda>(n, k, items). items \<noteq> []) (mset (List.map_filter (\<lambda>(k, c). map_option (\<lambda>items. (n, k, items)) (cell_option c))
       (enumerate j (replicate m (Cell []))))) = {#}"
    by (induction m arbitrary: j) (simp_all add: List.map_filter_simps)
  then show ?case by (simp add: List.map_filter_simps)
next
  case (Cons c cells)
  then show ?case by (cases c) (simp_all add: List.map_filter_simps)
qed

lemma no_live_cells:
  "\<not> has_items (map fill_input cells) \<Longrightarrow> filter_mset (\<lambda>(n, k, items). items \<noteq> []) (mset (List.map_filter (\<lambda>(k, c).
       map_option (\<lambda>items. (n, k, items)) (cell_option c)) (enumerate j cells))) = {#}"
proof (induction cells arbitrary: j)
  case (Cons c cells)
  then show ?case by (cases c) (auto simp: List.map_filter_simps has_items_def)
qed (simp add: List.map_filter_simps)

lemma waiting_items_first:
  assumes inv: "waiting_inv w st" and "map_get (rs_waitingExecution st) n = Some es" and "map_get es i = Some e"
  shows "waiting_items (rs_waitingExecution st)
    = cell_items n (main_cells e) + waiting_items (rs_waitingExecution (remove_waiting n i st))"
proof -
  note D = waiting_invD(1,4) [OF inv]
  have "distinct (keys_of es)" using D(2) [OF assms(2)] by (simp add: strict_sorted_iff)
  then show ?thesis
    using assms(2,3) waiting_items_split [OF D(1), of n] node_items_split [of es n i]
    by (simp add: waiting_items_remove [OF D(1)] ac_simps)
qed

text \<open>What happens to one waiting node.\<close>

lemma releaseNode_cases:
  assumes inv: "waiting_inv w st" and n: "n \<in> set (keys_of (rs_waitingExecution st))"
    and types: "\<And>m node. obj_get (wf_nodes w) m = Some node \<Longrightarrow> node_name node = m \<and> nodeTypes (node_type node) (node_typeVersion node) \<noteq> None"
  shows "releaseNode nodeTypes ev w (keys_of (rs_waitingExecution st)) n st = Inr Blocked \<and> must_wait nodeTypes ev w (rs_waitingExecution st) n
    \<or> (\<exists>st' e. releaseNode nodeTypes ev w (keys_of (rs_waitingExecution st)) n st = Inr (Released st') \<and> waiting_inv w st'
        \<and> rs_runData st' = rs_runData st \<and> live_items st' = live_items st \<and> \<not> must_wait nodeTypes ev w (rs_waitingExecution st) n
        \<and> rs_nodeExecutionStack st' = rs_nodeExecutionStack st @ [e] \<and> node_name (ed_node e) = n
        \<and> has_items (main_cells (ed_data e)) \<and> Null \<notin> set (main_cells (ed_data e)))
    \<or> (\<exists>st'. releaseNode nodeTypes ev w (keys_of (rs_waitingExecution st)) n st = Inr (Dropped st') \<and> waiting_inv w st'
        \<and> rs_runData st' = rs_runData st \<and> live_items st' = live_items st \<and> rs_nodeExecutionStack st' = rs_nodeExecutionStack st)"
proof -
  let ?W = "rs_waitingExecution st" and ?i = "first_key (rs_waitingExecution st) n"
  from first_key_entry [OF inv n] obtain es ss e s node where
    es: "map_get ?W n = Some es" "es \<noteq> []" "map_get es ?i = Some e" and S: "rs_waitingExecutionSource st \<noteq> None"
      "map_get (or_empty (rs_waitingExecutionSource st)) n = Some ss" and ok: "entry_ok w n e s" and node: "obj_get (wf_nodes w) n = Some node"
    by metis
  from types [OF node] obtain nt where nt: "nodeTypes (node_type node) (node_typeVersion node) = Some nt" "node_name node = n" by blast
  from S obtain src where src: "rs_waitingExecutionSource st = Some src" "map_get src n = Some ss" by (cases "rs_waitingExecutionSource st") auto
  let ?req = "required_of ev w node nt" and ?N = "inputs_length (nt_inputs nt)" and ?cells = "main_cells e"
  have cells: "first_cells ?W n = ?cells" by (simp add: first_cells_def entry_at_def es)
  have main: "obj_get e Main = Some ?cells" using entry_ok_main [OF ok] by (auto simp: main_cells_def)
  have wait: "must_wait nodeTypes ev w ?W n \<longleftrightarrow> all_required ?req ?N
      \<or> (\<exists>m \<in> set (workflow_getParentNodes w n Main (- 1)). m \<in> set (keys_of ?W)) \<or> input_missing ?req (inputs_with_data ?cells)"
    by (simp add: must_wait_def getNode_def node nt cells)
  have key: "hd (js_sort compare_keys (keys_of es)) = ?i" by (simp add: first_key_def es(1))
  let ?e = "\<lparr>ed_node = node, ed_data = [(Main, map fill_input ?cells @ replicate (?N - length (map fill_input ?cells)) (Cell []))],
    ed_source = map_get ss ?i, ed_runIndex = None, ed_metadata = None\<rparr>"
  let ?st1 = "st\<lparr>rs_nodeExecutionStack := rs_nodeExecutionStack st @ [?e]\<rparr>"
  have eval: "releaseNode nodeTypes ev w (keys_of ?W) n st = (if must_wait nodeTypes ev w ?W n then Inr Blocked
      else Inr (if has_items (map fill_input ?cells) then Released (remove_waiting n ?i ?st1) else Dropped (remove_waiting n ?i st)))"
  proof -
    have ne: "js_sort compare_keys (keys_of es) \<noteq> []" using es(2) by simp
    have at: "waiting_at ?W n ?i = Inr e" by (simp add: waiting_at_def es(1,3))
    have of: "main_of e = Inr ?cells" by (simp add: main_of_def main)
    show ?thesis
      unfolding releaseNode_def getNode_def node option.case nt(1) es(1) key wait Let_def at of src bind_res_simps
      using ne by presburger
  qed
  have inv1: "waiting_inv w ?st1" using inv waiting_inv_cong [of ?st1 st w] by simp
  have old: "waiting_items ?W = cell_items n ?cells + waiting_items (rs_waitingExecution (remove_waiting n ?i st))"
    by (rule waiting_items_first [OF inv es(1,3)])
  have same: "rs_waitingExecution (remove_waiting n ?i ?st1) = rs_waitingExecution (remove_waiting n ?i st)"
    "rs_nodeExecutionStack (remove_waiting n ?i x) = rs_nodeExecutionStack x" "rs_runData (remove_waiting n ?i x) = rs_runData x" for x
    by (simp_all add: remove_waiting_def Let_def)
  show ?thesis
  proof (cases "must_wait nodeTypes ev w ?W n")
    case True
    then show ?thesis by (simp add: eval)
  next
    case False
    show ?thesis
    proof (cases "has_items (map fill_input ?cells)")
      case True
      have "filter_mset (\<lambda>(n, k, items). items \<noteq> []) (cell_items n (main_cells (ed_data ?e)))
          = filter_mset (\<lambda>(n, k, items). items \<noteq> []) (cell_items n ?cells)"
        by (simp add: cell_items_def live_cells_fill del: length_map)
      then have "live_items (remove_waiting n ?i ?st1) = live_items st"
        by (simp add: live_items_def pending_def same old stack_items_def nt(2) del: length_map)
      moreover have "Null \<notin> set (map fill_input cs @ replicate k (Cell []))" for cs k
      proof -
        have "fill_input c \<noteq> Null" for c by (cases c) simp_all
        then show ?thesis by (auto dest: sym)
      qed
      moreover have "has_items (map fill_input ?cells @ replicate k (Cell []))" for k using True by (simp add: has_items_def)
      ultimately show ?thesis
        using False True waiting_inv_remove [OF inv1, of n ?i] nt(2) by (auto simp: eval same simp del: length_map)
    next
      case empty: False
      from no_live_cells [OF this] have "live_items (remove_waiting n ?i st) = live_items st"
        by (simp add: live_items_def pending_def same old cell_items_def)
      with False empty waiting_inv_remove [OF inv, of n ?i] show ?thesis by (simp add: eval same)
    qed
  qed
qed


text \<open>The whole loop: it returns, and either one node starts or every node that still waits has to.\<close>

lemma releaseLoop_spec:
  assumes "waiting_inv w st" and "rs_nodeExecutionStack st = []" and "waitingNodes = keys_of (rs_waitingExecution st)"
    and "\<And>n. n \<in> set waitingNodes \<Longrightarrow> n \<in> set rest \<or> must_wait nodeTypes ev w (rs_waitingExecution st) n"
    and "set rest \<subseteq> set waitingNodes"
    and "\<And>m node. obj_get (wf_nodes w) m = Some node \<Longrightarrow> node_name node = m \<and> nodeTypes (node_type node) (node_typeVersion node) \<noteq> None"
  shows "\<exists>st'. releaseLoop nodeTypes ev w waitingNodes rest st = Inr st' \<and> waiting_inv w st'
    \<and> rs_runData st' = rs_runData st \<and> live_items st' = live_items st
    \<and> ((\<exists>e. rs_nodeExecutionStack st' = [e] \<and> has_items (main_cells (ed_data e)) \<and> Null \<notin> set (main_cells (ed_data e)))
      \<or> rs_nodeExecutionStack st' = [] \<and> (\<forall>n \<in> set (keys_of (rs_waitingExecution st')). must_wait nodeTypes ev w (rs_waitingExecution st') n))"
  using assms
proof (induction nodeTypes ev w waitingNodes rest st rule: releaseLoop.induct)
  case (1 nodeTypes ev w waitingNodes st)
  then show ?case by auto
next
  case (2 nodeTypes ev w waitingNodes n rest st)
  have n: "n \<in> set (keys_of (rs_waitingExecution st))" using 2(7,5) by (metis list.set_intros(1) subsetD)
  from releaseNode_cases [OF 2(3) n 2(8)] consider
      (wait) "releaseNode nodeTypes ev w (keys_of (rs_waitingExecution st)) n st = Inr Blocked" "must_wait nodeTypes ev w (rs_waitingExecution st) n"
    | (go) st' e where "releaseNode nodeTypes ev w (keys_of (rs_waitingExecution st)) n st = Inr (Released st')" "waiting_inv w st'"
        "rs_runData st' = rs_runData st" "live_items st' = live_items st" "rs_nodeExecutionStack st' = rs_nodeExecutionStack st @ [e]"
        "has_items (main_cells (ed_data e))" "Null \<notin> set (main_cells (ed_data e))"
    | (drop) st' where "releaseNode nodeTypes ev w (keys_of (rs_waitingExecution st)) n st = Inr (Dropped st')" "waiting_inv w st'"
        "rs_runData st' = rs_runData st" "live_items st' = live_items st" "rs_nodeExecutionStack st' = rs_nodeExecutionStack st"
    by blast
  then show ?case
  proof cases
    case wait
    have rel: "releaseNode nodeTypes ev w waitingNodes n st = Inr Blocked" using wait(1) 2(5) by simp
    have "m \<in> set rest \<or> must_wait nodeTypes ev w (rs_waitingExecution st) m" if "m \<in> set waitingNodes" for m
      using 2(6) [OF that] wait(2) by auto
    moreover have "set rest \<subseteq> set waitingNodes" using 2(7) by simp
    ultimately show ?thesis
      using 2(1) [OF rel refl 2(3,4,5)] 2(8) by (simp add: rel)
  next
    case go
    have rel: "releaseNode nodeTypes ev w waitingNodes n st = Inr (Released st')" using go(1) 2(5) by simp
    show ?thesis using go 2(4) by (simp add: rel)
  next
    case drop
    have rel: "releaseNode nodeTypes ev w waitingNodes n st = Inr (Dropped st')" using drop(1) 2(5) by simp
    have "rs_nodeExecutionStack st' = []" using drop(5) 2(4) by simp
    from 2(2) [OF rel refl drop(2) this refl _ subset_refl 2(8)] show ?thesis using drop(3,4) by (simp add: rel)
  qed
qed

lemma releaseWaiting_spec:
  assumes "waiting_inv w st" and "rs_nodeExecutionStack st = []"
    and "\<And>m node. obj_get (wf_nodes w) m = Some node \<Longrightarrow> node_name node = m \<and> nodeTypes (node_type node) (node_typeVersion node) \<noteq> None"
  shows "\<exists>st'. releaseWaiting nodeTypes ev w st = Inr st' \<and> waiting_inv w st'
    \<and> rs_runData st' = rs_runData st \<and> live_items st' = live_items st
    \<and> ((\<exists>e. rs_nodeExecutionStack st' = [e] \<and> has_items (main_cells (ed_data e)) \<and> Null \<notin> set (main_cells (ed_data e)))
      \<or> rs_nodeExecutionStack st' = [] \<and> (\<forall>n \<in> set (keys_of (rs_waitingExecution st')). must_wait nodeTypes ev w (rs_waitingExecution st') n))"
proof (cases "keys_of (rs_waitingExecution st) = []")
  case True
  with assms show ?thesis by (simp add: releaseWaiting_def)
next
  case False
  from releaseLoop_spec [OF assms(1,2) refl _ subset_refl assms(3)] False assms(2) show ?thesis
    by (simp add: releaseWaiting_def Let_def)
qed

section \<open>Properties\<close>

text \<open>
  C9. When the stack is empty, the release of waiting nodes returns on every state that satisfies the invariant (types of all
  nodes known), keeps the invariant, the run data and all data with items, and makes progress: either exactly one entry is put on
  the stack, with items on some input and no input left \<^verbatim>\<open>null\<close>, or every node that still waits has to wait: it needs
  all its inputs, an input it requires has no data, or one of its ancestors waits.
\<close>

theorem releaseWaiting_correct:
  assumes "waiting_inv w st" and "rs_nodeExecutionStack st = []"
    and "\<And>m node. obj_get (wf_nodes w) m = Some node \<Longrightarrow> node_name node = m \<and> nodeTypes (node_type node) (node_typeVersion node) \<noteq> None"
  shows "\<exists>st'. releaseWaiting nodeTypes ev w st = Inr st' \<and> waiting_inv w st'
    \<and> rs_runData st' = rs_runData st \<and> live_items st' = live_items st
    \<and> ((\<exists>e. rs_nodeExecutionStack st' = [e] \<and> has_items (main_cells (ed_data e)) \<and> Null \<notin> set (main_cells (ed_data e)))
      \<or> rs_nodeExecutionStack st' = [] \<and> (\<forall>n \<in> set (keys_of (rs_waitingExecution st')). must_wait nodeTypes ev w (rs_waitingExecution st') n))"
  using assms by (rule releaseWaiting_spec)

definition ex_merge_types :: NodeTypes where
  "ex_merge_types _ _ = Some \<lparr>nt_name = ''n8n-nodes-base.set'', nt_group = [], nt_outputs = StaticOutputs [OutputType Main],
     nt_inputs = StaticOutputs [OutputType Main, OutputType Main], nt_requiredInputs = Some (RequiredCount 1),
     nt_trigger = False, nt_poll = False,
     nt_execute = True, nt_webhook = False, nt_supplyData = False, nt_requestDefaults = False, nt_customOperations = None\<rparr>"

theorem releaseWaiting_correct_witness:
  "\<exists>st st'. addNodeToBeExecuted ex_join (ex_target ''m'' 0) 0 ''a'' (Some [Cell [ex_item 1]]) 0 None None ex_idle = Inr st
     \<and> releaseWaiting ex_merge_types (\<lambda>_ _. None) ex_join st = Inr st' \<and> live_items st' = live_items st
     \<and> map ed_data (rs_nodeExecutionStack st') = [[(Main, [Cell [ex_item 1], Cell []])]] \<and> rs_waitingExecution st' = []"
proof -
  let ?st = "arrive ex_join (ex_node 3 ''m'') (ex_target ''m'' 0) 0 ''a'' [ex_item 1] 0 None None ex_idle"
  have target: "(0, ex_target ''m'' 0) \<in> set (main_targets_of ex_join ''a'')" "obj_get (wf_nodes ex_join) (con_node (ex_target ''m'' 0)) = Some (ex_node 3 ''m'')"
    "cell_get [Cell [ex_item 1]] 0 = Cell [ex_item 1]" by code_simp+
  note add = addNodeToBeExecuted_v1 [OF ex_join_ok target]
  have "node_name node = m" if "obj_get (wf_nodes ex_join) m = Some node" for m node
  proof -
    have "\<forall>(m, node) \<in> set (wf_nodes ex_join). node_name node = m" by code_simp
    with map_of_SomeD [OF that] show ?thesis by blast
  qed
  then have types: "obj_get (wf_nodes ex_join) m = Some node \<Longrightarrow> node_name node = m \<and> ex_merge_types (node_type node) (node_typeVersion node) \<noteq> None"
    for m node by (simp add: ex_merge_types_def)
  have empty: "rs_nodeExecutionStack ?st = []" by code_simp
  from releaseWaiting_correct [OF add(2) empty types, of "\<lambda>_ _. None"] obtain st' where
    "releaseWaiting ex_merge_types (\<lambda>_ _. None) ex_join ?st = Inr st'" "live_items st' = live_items ?st" by blast
  moreover have "case releaseWaiting ex_merge_types (\<lambda>_ _. None) ex_join ?st of Inl _ \<Rightarrow> False
    | Inr st' \<Rightarrow> map ed_data (rs_nodeExecutionStack st') = [[(Main, [Cell [ex_item 1], Cell []])]] \<and> rs_waitingExecution st' = []"
    by code_simp
  ultimately show ?thesis using add(1) by auto
qed

end
