(* ===== verification/Execution_Jobs.thy ===== *)
theory Execution_Jobs
  imports Waiting_Release
begin

text \<open>
  The jobs that an execution still has to do, one for each entry of the stack and each waiting entry: how the operations on
  the stack change them. A job is done once; what it adds are jobs of nodes that follow in the workflow.
\<close>

section \<open>Jobs\<close>

definition waiting_jobs :: "IWaitingForExecution \<Rightarrow> string multiset" where
  "waiting_jobs W = (\<Sum>e \<in># mset W. replicate_mset (length (snd e)) (fst e))"

definition jobs :: "run_state \<Rightarrow> string multiset" where
  "jobs st = image_mset (node_name \<circ> ed_node) (mset (rs_nodeExecutionStack st)) + waiting_jobs (rs_waitingExecution st)"

lemma waiting_jobs_split:
  "distinct (keys_of W) \<Longrightarrow> waiting_jobs W = replicate_mset (length (or_empty (map_get W n))) n + waiting_jobs (filter (\<lambda>e. fst e \<noteq> n) W)"
  unfolding waiting_jobs_def by (subst mset_split_key [of W n]) (simp_all split: option.split)

lemma waiting_jobs_obj_set:
  "distinct (keys_of W) \<Longrightarrow> waiting_jobs (obj_set n es W) = replicate_mset (length es) n + waiting_jobs (filter (\<lambda>e. fst e \<noteq> n) W)"
  by (simp add: waiting_jobs_def js_obj.mset_put)

lemma size_filter_mset [simp]: "size (filter_mset P (mset xs)) = length (filter P xs)"
  by (metis mset_filter size_mset)

lemma length_idx_set: "distinct (keys_of es) \<Longrightarrow> length (idx_set i e es) = (if map_get es i = None then Suc (length es) else length es)"
proof -
  assume d: "distinct (keys_of es)"
  have "length (idx_set i e es) = size (mset (idx_set i e es))" by simp
  also have "\<dots> = Suc (length (filter (\<lambda>e. fst e \<noteq> i) es))" unfolding js_idx.mset_put [OF d] by simp
  also have "\<dots> = (if map_get es i = None then Suc (length es) else length es)"
  proof -
    have "length es = size (mset es)" by simp
    also have "\<dots> = (case map_get es i of None \<Rightarrow> 0 | Some _ \<Rightarrow> 1) + length (filter (\<lambda>e. fst e \<noteq> i) es)"
      by (subst mset_split_key [OF d, of i]) (simp split: option.split)
    finally show ?thesis by (simp split: option.splits)
  qed
  finally show ?thesis .
qed

lemma waiting_jobs_put:
  assumes "distinct (keys_of W)" and "distinct (keys_of (or_empty (map_get W n)))"
  shows "waiting_jobs (set_waiting_entry n i e W) = (if entry_at W n i = None then add_mset n (waiting_jobs W) else waiting_jobs W)"
proof -
  have "map_get (or_empty (map_get W n)) i = entry_at W n i" by (cases "map_get W n") (simp_all add: entry_at_def)
  then show ?thesis
    using length_idx_set [OF assms(2), of i e] waiting_jobs_split [OF assms(1), of n]
    by (simp add: set_waiting_entry_def waiting_jobs_obj_set [OF assms(1)])
qed

lemma length_map_delete: "distinct (keys_of es) \<Longrightarrow> map_get es i \<noteq> None \<Longrightarrow> Suc (length (map_delete i es)) = length es"
proof -
  assume d: "distinct (keys_of es)" and i: "map_get es i \<noteq> None"
  have "length es = size (mset es)" by simp
  also have "\<dots> = Suc (length (filter (\<lambda>e. fst e \<noteq> i) es))" using i by (subst mset_split_key [OF d, of i]) auto
  finally show ?thesis by (simp add: map_delete_def)
qed

lemma waiting_jobs_remove:
  assumes "distinct (keys_of (rs_waitingExecution st))" and "distinct (keys_of (or_empty (map_get (rs_waitingExecution st) n)))"
    and "entry_at (rs_waitingExecution st) n i \<noteq> None"
  shows "waiting_jobs (rs_waitingExecution st) = add_mset n (waiting_jobs (rs_waitingExecution (remove_waiting n i st)))"
proof -
  let ?W = "rs_waitingExecution st"
  let ?es = "map_delete i (or_empty (map_get ?W n))"
  have i: "map_get (or_empty (map_get ?W n)) i \<noteq> None" using assms(3) by (cases "map_get ?W n") (simp_all add: entry_at_def)
  have old: "waiting_jobs ?W = add_mset n (replicate_mset (length ?es) n + waiting_jobs (filter (\<lambda>e. fst e \<noteq> n) ?W))"
    using waiting_jobs_split [OF assms(1), of n] length_map_delete [OF assms(2) i] by (metis replicate_mset_Suc union_mset_add_mset_left)
  have "waiting_jobs (obj_delete n (obj_set n ?es ?W)) = waiting_jobs (filter (\<lambda>e. fst e \<noteq> n) ?W)"
    unfolding waiting_jobs_def map_delete_def [of n] mset_filter js_obj.mset_put [OF assms(1)] by (simp flip: mset_filter)
  moreover have "waiting_jobs (obj_set n ?es ?W) = replicate_mset (length ?es) n + waiting_jobs (filter (\<lambda>e. fst e \<noteq> n) ?W)"
    by (rule waiting_jobs_obj_set [OF assms(1)])
  ultimately show ?thesis
    unfolding old by (cases "?es = []") (simp_all add: remove_waiting_def Let_def delete_waiting_def js_obj.get_put)
qed

lemma waiting_inv_distinct:
  assumes "waiting_inv w st"
  shows "distinct (keys_of (rs_waitingExecution st))" "distinct (keys_of (or_empty (map_get (rs_waitingExecution st) n)))"
proof -
  show "distinct (keys_of (rs_waitingExecution st))" by (rule waiting_invD(1) [OF assms])
  show "distinct (keys_of (or_empty (map_get (rs_waitingExecution st) n)))"
    using waiting_invD(4) [OF assms, of n] by (cases "map_get (rs_waitingExecution st) n") (simp_all add: strict_sorted_iff)
qed

section \<open>Data that arrives\<close>

lemma arrive_jobs:
  assumes inv: "waiting_inv w st" and name: "node_name node = con_node c" and k: "con_index c < length (main_inputs w (con_node c))"
  shows "jobs (arrive w node c oi p items r nri md st) \<subseteq># add_mset (con_node c) (jobs st)"
proof (cases "1 < length (main_inputs w (con_node c))")
  case False
  then show ?thesis using name by (simp add: arrive_def jobs_def)
next
  case True
  let ?n = "con_node c" and ?W = "rs_waitingExecution st"
  let ?i = "join_index ?W ?n (con_index c)" and ?cells = "joined_cells w ?W ?n (con_index c) items"
  note D = waiting_inv_distinct [OF inv]
  show ?thesis
  proof (cases "Null \<in> set ?cells")
    case null: True
    with True show ?thesis by (simp add: arrive_def join_input_def Let_def jobs_def waiting_jobs_put [OF D])
  next
    case False
    have "open_entry ?W ?n (con_index c) \<noteq> None"
    proof
      assume "open_entry ?W ?n (con_index c) = None"
      with False null_left [OF k True, of "Cell items"] show False by (simp add: joined_cells_def)
    qed
    then obtain i e where ie: "open_entry ?W ?n (con_index c) = Some (i, e)" by auto
    from open_entry_Some [OF inv ie] obtain es where "map_get ?W ?n = Some es" "map_get es i = Some e" by blast
    then have at: "entry_at ?W ?n ?i \<noteq> None" using ie by (simp add: entry_at_def join_index_def)
    let ?x = "\<lparr>ed_node = node, ed_data = [(Main, ?cells)], ed_source = Some [(Main, joined_sources w ?W
      (or_empty (rs_waitingExecutionSource st)) ?n (con_index c) (source_of p oi r))], ed_runIndex = None, ed_metadata = None\<rparr>"
    have W: "rs_waitingExecution (enqueue_entry w ?x st) = ?W" by (simp add: enqueue_entry_def)
    have "waiting_jobs ?W = add_mset ?n (waiting_jobs (rs_waitingExecution (remove_waiting ?n ?i (enqueue_entry w ?x st))))"
      using waiting_jobs_remove [of "enqueue_entry w ?x st" ?n ?i] D at unfolding W by blast
    with False True name show ?thesis
      by (simp add: arrive_def join_input_def Let_def jobs_def) (simp add: remove_waiting_def Let_def enqueue_entry_def)
  qed
qed


text \<open>The entries that the engine puts on the stack: a known node with main inputs, a new run.\<close>

definition good_entry :: "Workflow \<Rightarrow> IExecuteData \<Rightarrow> bool" where
  "good_entry w e \<longleftrightarrow> obj_get (wf_nodes w) (node_name (ed_node e)) \<noteq> None \<and> obj_get (ed_data e) Main \<noteq> None
     \<and> ed_runIndex e = None \<and> ed_metadata e = None"

definition good_state :: "Workflow \<Rightarrow> run_state \<Rightarrow> bool" where
  "good_state w st \<longleftrightarrow> waiting_inv w st \<and> no_null_outputs (rs_runData st) \<and> (\<forall>e \<in> set (rs_nodeExecutionStack st). good_entry w e)"

lemma arrive_good:
  assumes "good_state w st" and "waiting_inv w (arrive w node c oi p items r None None st)"
    and "obj_get (wf_nodes w) (con_node c) = Some node" and "node_name node = con_node c"
  shows "good_state w (arrive w node c oi p items r None None st)"
  using assms by (auto simp: good_state_def good_entry_def arrive_def join_input_def Let_def remove_waiting_def enqueue_entry_def)

text \<open>
  The workflows of the theorems: execution order \<^verbatim>\<open>v1\<close>, every connection leads to an existing node, nodes are stored under
  their names, and their types are known.
\<close>

definition good_workflow :: "NodeTypes \<Rightarrow> Workflow \<Rightarrow> bool" where
  "good_workflow nodeTypes w \<longleftrightarrow> wf_executionOrder w = Some ''v1'' \<and> consistent w
     \<and> (\<forall>p. \<forall>t \<in> set (main_targets_of w p). obj_get (wf_nodes w) (con_node (snd t)) \<noteq> None)
     \<and> (\<forall>m node. obj_get (wf_nodes w) m = Some node \<longrightarrow> node_name node = m \<and> nodeTypes (node_type node) (node_typeVersion node) \<noteq> None)"

definition main_links :: "Workflow \<Rightarrow> (string \<times> string) set" where
  "main_links w = {(p, con_node c) | p oi c. (oi, c) \<in> set (main_targets_of w p)}"

lemma addSuccessors_jobs:
  assumes w: "good_workflow nodeTypes w" and st: "good_state w st"
  shows "\<exists>st' K. addSuccessors w p nsd r st = Inr st' \<and> good_state w st' \<and> rs_runData st' = rs_runData st
    \<and> jobs st' \<subseteq># jobs st + K \<and> set_mset K \<subseteq> main_links w `` {p}"
proof -
  note W = w [unfolded good_workflow_def]
  let ?step = "\<lambda>d. addNodeToBeExecuted w (na_connection d) (na_outputIndex d) p (Some nsd) r None None"
  let ?ok = "\<lambda>u. good_state w u \<and> rs_runData u = rs_runData st \<and> (\<exists>K. jobs u \<subseteq># jobs st + K \<and> set_mset K \<subseteq> main_links w `` {p})"
  let ?ds = "js_sort compare_positions (map (to_add w) (filter (has_output nsd) (main_targets_of w p)))"
  have eq: "addSuccessors w p nsd r st = fold_res ?step ?ds st"
    using addSuccessor_fold [of w "main_targets_of w p" p nsd r "[]" st] W by (auto simp: addSuccessors_def)
  have step: "\<exists>u'. ?step d u = Inr u' \<and> ?ok u'" if d: "d \<in> set ?ds" and u: "?ok u" for d u
  proof -
    from d obtain oi c where t: "(oi, c) \<in> set (main_targets_of w p)" "has_output nsd (oi, c)" "d = to_add w (oi, c)" by auto
    from t(2) obtain items where items: "cell_get nsd oi = Cell items" by (auto simp: has_output_def split: cell.splits)
    from W t(1) obtain node where node: "obj_get (wf_nodes w) (con_node c) = Some node" "node_name node = con_node c" by fastforce
    let ?u = "arrive w node c oi p items r None None u"
    have inv: "waiting_inv w u" "no_null_outputs (rs_runData u)" using u unfolding good_state_def by blast+
    note add = addNodeToBeExecuted_v1 [OF _ _ inv t(1) node(1) items, of r None None]
    from u obtain K where K: "jobs u \<subseteq># jobs st + K" "set_mset K \<subseteq> main_links w `` {p}" by blast
    have k: "con_index c < length (main_inputs w (con_node c))" using main_target_input(1) [OF _ t(1)] W by blast
    have "jobs ?u \<subseteq># jobs st + add_mset (con_node c) K"
      using arrive_jobs [OF inv(1) node(2) k, of oi p items r None None] K(1)
      by (metis add_mset_add_single mset_subset_eq_mono_add_right_cancel subset_mset.order_trans union_mset_add_mset_right)
    moreover have "con_node c \<in> main_links w `` {p}" using t(1) by (auto simp: main_links_def)
    ultimately have "?ok ?u"
      using arrive_good [OF _ add(2) node] W u K(2) by (auto intro!: exI [of _ "add_mset (con_node c) K"])
    then show ?thesis using add(1) W t(3) by (auto simp: to_add_def)
  qed
  have "?ok st" using st by (auto intro!: exI [of _ "{#}"])
  from fold_res_total [where P = ?ok and f = ?step and xs = ?ds, OF this step] have "\<exists>u. fold_res ?step ?ds st = Inr u \<and> ?ok u" by blast
  then show ?thesis unfolding eq by blast
qed

section \<open>Waiting nodes that are released\<close>

lemma releaseNode_shape:
  assumes "releaseNode nodeTypes ev w waitingNodes n st = Inr res"
  obtains "res = Blocked"
    | i where "entry_at (rs_waitingExecution st) n i \<noteq> None" "res = Dropped (remove_waiting n i st)"
    | i node cells src where "entry_at (rs_waitingExecution st) n i \<noteq> None" "getNode w n = Some node"
      "res = Released (remove_waiting n i (st\<lparr>rs_nodeExecutionStack := rs_nodeExecutionStack st @ [\<lparr>ed_node = node,
         ed_data = [(Main, cells)], ed_source = src, ed_runIndex = None, ed_metadata = None\<rparr>]\<rparr>))"
proof (cases res)
  case Blocked
  then show ?thesis by (rule that(1))
next
  case (Dropped u)
  with assms that(2) show ?thesis
    by (auto simp: releaseNode_def Let_def bind_res_eq_Inr waiting_at_def entry_at_def split: option.splits if_splits)
next
  case (Released u)
  let ?i = "hd (js_sort compare_keys (keys_of (or_empty (obj_get (rs_waitingExecution st) n))))"
  from Released assms obtain node cells src where "getNode w n = Some node" "entry_at (rs_waitingExecution st) n ?i \<noteq> None"
    "u = remove_waiting n ?i (st\<lparr>rs_nodeExecutionStack := rs_nodeExecutionStack st @ [\<lparr>ed_node = node,
         ed_data = [(Main, cells)], ed_source = src, ed_runIndex = None, ed_metadata = None\<rparr>]\<rparr>)"
    by (auto simp: releaseNode_def Let_def bind_res_eq_Inr waiting_at_def entry_at_def split: option.splits if_splits)
  with Released that(3) show ?thesis by blast
qed

lemma remove_waiting_jobs:
  assumes "waiting_inv w st" and "entry_at (rs_waitingExecution st) n i \<noteq> None"
  shows "add_mset n (jobs (remove_waiting n i st)) = jobs st"
proof -
  have "rs_nodeExecutionStack (remove_waiting n i st) = rs_nodeExecutionStack st" by (simp add: remove_waiting_def Let_def)
  with waiting_jobs_remove [OF waiting_inv_distinct [OF assms(1)] assms(2)] show ?thesis by (simp add: jobs_def)
qed

lemma remove_waiting_good:
  assumes "good_state w st"
  shows "good_state w (remove_waiting n i st)"
proof -
  have "rs_nodeExecutionStack (remove_waiting n i st) = rs_nodeExecutionStack st" "rs_runData (remove_waiting n i st) = rs_runData st"
    by (simp_all add: remove_waiting_def Let_def)
  with assms waiting_inv_remove [of w st n i] show ?thesis by (simp add: good_state_def)
qed


lemma releaseNode_jobs:
  assumes w: "good_workflow nodeTypes w" and st: "good_state w st"
    and r: "releaseNode nodeTypes ev w waitingNodes n st = Inr res" and res: "res = Released st' \<or> res = Dropped st'"
  shows "good_state w st' \<and> rs_runData st' = rs_runData st \<and> jobs st' \<subseteq># jobs st"
  using r
proof (cases rule: releaseNode_shape)
  case 1
  with res show ?thesis by simp
next
  case (2 i)
  have "waiting_inv w st" using st by (simp add: good_state_def)
  from remove_waiting_jobs [OF this 2(1)] have "add_mset n (jobs (remove_waiting n i st)) = jobs st" .
  then have "jobs (remove_waiting n i st) \<subseteq># jobs st" by (metis add_mset_add_single mset_subset_eq_add_left)
  moreover have "rs_runData (remove_waiting n i st) = rs_runData st" by (simp add: remove_waiting_def Let_def)
  ultimately show ?thesis using res 2(2) remove_waiting_good [OF st, of n i] by simp
next
  case (3 i node cells src)
  let ?e = "\<lparr>ed_node = node, ed_data = [(Main, cells)], ed_source = src, ed_runIndex = None, ed_metadata = None\<rparr>"
  let ?st = "st\<lparr>rs_nodeExecutionStack := rs_nodeExecutionStack st @ [?e]\<rparr>"
  have node: "obj_get (wf_nodes w) n = Some node" "node_name node = n"
    using 3(2) w by (auto simp: getNode_def good_workflow_def)
  have inv: "waiting_inv w ?st" using st waiting_inv_cong [of ?st st w] by (simp add: good_state_def)
  have good: "good_state w ?st" using st inv node by (auto simp: good_state_def good_entry_def)
  have "add_mset n (jobs (remove_waiting n i ?st)) = add_mset n (jobs st)"
    using remove_waiting_jobs [OF inv, of n i] 3(1) node by (simp add: jobs_def)
  moreover have "rs_runData (remove_waiting n i ?st) = rs_runData st" by (simp add: remove_waiting_def Let_def)
  ultimately show ?thesis using res 3(3) remove_waiting_good [OF good, of n i] by simp
qed

lemma releaseLoop_jobs:
  assumes "good_workflow nodeTypes w" and "good_state w st" and "releaseLoop nodeTypes ev w waitingNodes rest st = Inr st'"
  shows "good_state w st' \<and> rs_runData st' = rs_runData st \<and> jobs st' \<subseteq># jobs st"
  using assms
proof (induction nodeTypes ev w waitingNodes rest st rule: releaseLoop.induct)
  case (1 nodeTypes ev w waitingNodes st)
  then show ?case by simp
next
  case (2 nodeTypes ev w waitingNodes n rest st)
  show ?case
  proof (cases "releaseNode nodeTypes ev w waitingNodes n st")
    case (Inl e)
    with 2(5) show ?thesis by simp
  next
    case (Inr res)
    show ?thesis
    proof (cases res)
      case Blocked
      with Inr 2(1) [of Blocked] 2(3-5) show ?thesis by simp
    next
      case (Released u)
      have "st' = u" using Inr Released 2(5) by simp
      with releaseNode_jobs [OF 2(3,4) Inr disjI1 [OF Released]] show ?thesis by simp
    next
      case (Dropped u)
      from releaseNode_jobs [OF 2(3,4) Inr disjI2 [OF Dropped]]
      have u: "good_state w u" "rs_runData u = rs_runData st" "jobs u \<subseteq># jobs st" by simp_all
      have "releaseLoop nodeTypes ev w (keys_of (rs_waitingExecution u)) (keys_of (rs_waitingExecution u)) u = Inr st'"
        using Inr Dropped 2(5) by simp
      from 2(2) [OF Inr Dropped 2(3) u(1) this] have "good_state w st'" "rs_runData st' = rs_runData u" "jobs st' \<subseteq># jobs u" by simp_all
      with u(2) subset_mset.order_trans [OF _ u(3)] show ?thesis by simp
    qed
  qed
qed

lemma releaseWaiting_jobs:
  assumes w: "good_workflow nodeTypes w" and st: "good_state w st"
  shows "\<exists>st'. releaseWaiting nodeTypes ev w st = Inr st' \<and> good_state w st' \<and> rs_runData st' = rs_runData st \<and> jobs st' \<subseteq># jobs st"
proof (cases "rs_nodeExecutionStack st = [] \<and> keys_of (rs_waitingExecution st) \<noteq> []")
  case True
  have "waiting_inv w st" using st by (simp add: good_state_def)
  moreover have "node_name node = m \<and> nodeTypes (node_type node) (node_typeVersion node) \<noteq> None" if "obj_get (wf_nodes w) m = Some node" for m node
    using w that by (simp add: good_workflow_def)
  ultimately obtain st' where st': "releaseWaiting nodeTypes ev w st = Inr st'"
    using releaseWaiting_spec [of w st nodeTypes ev] True by blast
  then have "releaseLoop nodeTypes ev w (keys_of (rs_waitingExecution st)) (keys_of (rs_waitingExecution st)) st = Inr st'"
    using True by (simp add: releaseWaiting_def Let_def)
  from releaseLoop_jobs [OF w st this] st' show ?thesis by blast
next
  case False
  then have "releaseWaiting nodeTypes ev w st = Inr st" by (auto simp: releaseWaiting_def Let_def)
  with st show ?thesis by blast
qed


section \<open>The interface of the loop\<close>

text \<open>
  What the loop relies on: \<open>put\<close> adds the jobs that follow a job, \<open>settle\<close> adds none, and both never fail and keep the records of
  what has been done. What is left \<open>after_job\<close>s are jobs that were there before and jobs that follow the one that was done, so that every job that is
  taken out makes the rest smaller in the multiset order.
\<close>

definition after_job :: "('n \<times> 'n) set \<Rightarrow> 'n \<Rightarrow> 'n multiset \<Rightarrow> 'n multiset \<Rightarrow> bool" where
  "after_job E n M N \<longleftrightarrow> (\<exists>K. N \<subseteq># M + K \<and> set_mset K \<subseteq> E `` {n})"

locale job_queue =
  fixes jobs_of :: "'s \<Rightarrow> 'n multiset"
    and ok :: "'s \<Rightarrow> bool"
    and follow :: "('n \<times> 'n) set"
    and put :: "'n \<Rightarrow> 'd \<Rightarrow> 's \<Rightarrow> 's res"
    and settle :: "'s \<Rightarrow> 's res"
    and records :: "'s \<Rightarrow> 'r"
  assumes put_law: "ok s \<Longrightarrow> \<exists>t K. put n d s = Inr t \<and> ok t \<and> records t = records s
      \<and> jobs_of t \<subseteq># jobs_of s + K \<and> set_mset K \<subseteq> follow `` {n}"
    and settle_law: "ok s \<Longrightarrow> \<exists>t. settle s = Inr t \<and> ok t \<and> records t = records s \<and> jobs_of t \<subseteq># jobs_of s"
begin

lemma less_jobs:
  assumes "after_job follow n N M"
  shows "(M, add_mset n N) \<in> mult (follow\<inverse>)"
proof -
  from assms obtain K where K: "M \<subseteq># N + K" "set_mset K \<subseteq> follow `` {n}" by (auto simp: after_job_def)
  have "(N + K, N + {#n#}) \<in> mult (follow\<inverse>)" using K(2) by (intro one_step_implies_mult) auto
  then have "(N + K, add_mset n N) \<in> mult (follow\<inverse>)" by simp
  moreover have "M = N + K \<or> (M, N + K) \<in> mult (follow\<inverse>)"
    using K(1) subset_implies_mult by (auto simp: subset_mset.le_less)
  ultimately show ?thesis unfolding mult_def by (auto intro: trancl_trans)
qed

lemma job_done:
  assumes "ok s"
  shows "\<exists>t u. put n d s = Inr t \<and> settle t = Inr u \<and> ok u \<and> records u = records s
    \<and> after_job follow n (jobs_of s) (jobs_of u)"
proof -
  from put_law [OF assms, of n d] obtain t K where
    t: "put n d s = Inr t" "ok t" "records t = records s" "jobs_of t \<subseteq># jobs_of s + K" "set_mset K \<subseteq> follow `` {n}" by blast
  from settle_law [OF t(2)] obtain u where u: "settle t = Inr u" "ok u" "records u = records t" "jobs_of u \<subseteq># jobs_of t" by blast
  have "jobs_of u \<subseteq># jobs_of s + K" using u(4) t(4) by (rule subset_mset.order_trans)
  with t u show ?thesis by (auto simp: after_job_def)
qed

lemma no_job_added: "jobs_of t \<subseteq># jobs_of s \<Longrightarrow> after_job follow n (jobs_of s) (jobs_of t)"
  unfolding after_job_def by (intro exI [of _ "{#}"]) simp

end

interpretation stack_jobs: job_queue jobs "\<lambda>st. good_workflow nodeTypes w \<and> good_state w st" "main_links w"
    "\<lambda>p (nsd, r). addSuccessors w p nsd r" "releaseWaiting nodeTypes ev w" rs_runData for nodeTypes ev w
proof (unfold_locales, goal_cases)
  case (1 st n d)
  then show ?case using addSuccessors_jobs [of nodeTypes w st n "fst d" "snd d"] by (auto simp: case_prod_beta)
next
  case (2 st)
  then show ?case using releaseWaiting_jobs [of nodeTypes w st ev] by blast
qed

lemma finite_main_links: "finite (main_links w)"
proof -
  let ?P = "set (keys_of (wf_connectionsBySourceNode w))"
  have "main_links w \<subseteq> (\<Union>p \<in> ?P. (\<lambda>t. (p, con_node (snd t))) ` set (main_targets_of w p))"
  proof
    fix x assume "x \<in> main_links w"
    then obtain p oi c where x: "x = (p, con_node c)" "(oi, c) \<in> set (main_targets_of w p)" by (auto simp: main_links_def)
    then have "p \<in> ?P" by (auto simp: in_main_targets_of in_conns_at dest!: map_of_SomeD) force
    with x show "x \<in> (\<Union>p \<in> ?P. (\<lambda>t. (p, con_node (snd t))) ` set (main_targets_of w p))" by force
  qed
  then show ?thesis by (rule finite_subset) simp
qed

lemma wf_jobs: "acyclic (main_links w) \<Longrightarrow> wf (mult ((main_links w)\<inverse>))"
  by (intro wf_mult finite_acyclic_wf_converse finite_main_links)

end
