(* ===== verification/Execution_Loop_Correct.thy ===== *)
theory Execution_Loop_Correct
  imports Execution_Loop Execution_Jobs
begin

text \<open>
  Correctness of the execution loop: the tries of a node and their number, what one round of the loop changes, and the end of the loop. The
  environment is arbitrary: nodes may return, throw or put the execution to wait, and the execution may be canceled or time out, in any
  combination. Where a theorem excludes requests of nodes to the engine it says so.
\<close>

section \<open>The tries of a node\<close>

text \<open>What the tries leave alone.\<close>

definition same_stage :: "exec_state \<Rightarrow> exec_state \<Rightarrow> bool" where
  "same_stage es es' \<longleftrightarrow> es_run es' = es_run es \<and> es_workflow es' = es_workflow es \<and> es_runNodeFilter es' = es_runNodeFilter es
     \<and> es_destinationNode es' = es_destinationNode es \<and> es_executionIndex es' = es_executionIndex es \<and> es_status es' = es_status es
     \<and> es_lastExecutionTry es' = es_lastExecutionTry es \<and> es_pinData es' = es_pinData es \<and> es_resultError es' = es_resultError es"

lemma same_stage_refl [simp]: "same_stage es es"
  by (simp add: same_stage_def)

lemma same_stage_trans [trans]: "same_stage es es' \<Longrightarrow> same_stage es' es'' \<Longrightarrow> same_stage es es''"
  by (simp add: same_stage_def)

lemma same_stage_update [simp]:
  "same_stage es (es'\<lparr>es_executionError := e\<rparr>) \<longleftrightarrow> same_stage es es'" "same_stage es (es'\<lparr>es_lastNodeExecuted := n\<rparr>) \<longleftrightarrow> same_stage es es'"
  "same_stage es (es'\<lparr>es_calls := k\<rparr>) \<longleftrightarrow> same_stage es es'" "same_stage es (es'\<lparr>es_waitTill := t\<rparr>) \<longleftrightarrow> same_stage es es'"
  "same_stage (es\<lparr>es_executionError := e\<rparr>) es' \<longleftrightarrow> same_stage es es'" "same_stage (es\<lparr>es_lastNodeExecuted := n\<rparr>) es' \<longleftrightarrow> same_stage es es'"
  by (simp_all add: same_stage_def)

definition no_requests :: "engine_env \<Rightarrow> bool" where
  "no_requests env \<longleftrightarrow> (\<forall>k node d resp q. ans_result (env_answer env k node d resp) \<noteq> Requested q)"

lemma call_node_same:
  assumes "call_node env node d resp es = (r, es')"
  shows "same_stage es es'" and "es_calls es' = Suc (es_calls es)"
  using assms by (auto simp: call_node_def Let_def)

lemma runNode_same:
  assumes "runNode env ed resp es = (r, es')"
  shows "same_stage es es'" and "es_calls es' \<le> Suc (es_calls es)" and "es_calls es \<le> es_calls es'"
    and "no_requests env \<Longrightarrow> r \<noteq> Requested q"
proof -
  consider (passed) "es' = es" "\<forall>q. r \<noteq> Requested q" | (called) node d where "call_node env node d resp es = (r, es')"
    using assms by (auto simp: runNode_def Let_def split: if_splits option.splits)
  then have "same_stage es es' \<and> es_calls es' \<le> Suc (es_calls es) \<and> es_calls es \<le> es_calls es' \<and> (no_requests env \<longrightarrow> r \<noteq> Requested q)"
  proof cases
    case called
    then have "no_requests env \<longrightarrow> r \<noteq> Requested q" by (auto simp: call_node_def Let_def no_requests_def)
    with call_node_same [OF called] show ?thesis by simp
  qed auto
  then show "same_stage es es'" "es_calls es' \<le> Suc (es_calls es)" "es_calls es \<le> es_calls es'" "no_requests env \<Longrightarrow> r \<noteq> Requested q" by auto
qed

lemma retry_failed_same:
  assumes "retry_failed env ed maxTries i r es = (r', j, es')" and "i < maxTries"
  shows "same_stage es es' \<and> j < maxTries \<and> es_calls es' + i \<le> Suc (es_calls es + j) \<and> es_calls es \<le> es_calls es'
    \<and> (no_requests env \<longrightarrow> (\<forall>q. r \<noteq> Requested q) \<longrightarrow> (\<forall>q. r' \<noteq> Requested q))
    \<and> (es_calls es' + i = Suc (es_calls es + j) \<longrightarrow> Suc j < maxTries)"
  using assms
proof (induction env ed maxTries i r es rule: retry_failed.induct)
  case (1 env ed maxTries i r es)
  show ?case
  proof (cases "result_failed r \<and> Suc i < maxTries")
    case True
    obtain r1 es1 where run: "runNode env ed None es = (r1, es1)" by (cases "runNode env ed None es")
    note s = runNode_same [OF run]
    note unfold = retry_failed.simps [of env ed maxTries i r es]
    have on: "same_stage es1 es' \<and> j < maxTries \<and> es_calls es' + Suc i \<le> Suc (es_calls es1 + j) \<and> es_calls es1 \<le> es_calls es'
        \<and> (no_requests env \<longrightarrow> (\<forall>q. r1 \<noteq> Requested q) \<longrightarrow> (\<forall>q. r' \<noteq> Requested q))
        \<and> (es_calls es' + Suc i = Suc (es_calls es1 + j) \<longrightarrow> Suc j < maxTries)" if "\<nexists>e. r1 = Thrown e"
      using "1.prems" True run "1.IH" [OF True run [symmetric]] that by (cases r1) (auto simp: unfold)
    show ?thesis
    proof (cases "\<exists>e. r1 = Thrown e")
      case thrown: True
      with "1.prems" True run s(1-3) show ?thesis by (auto simp: unfold)
    next
      case False
      with on s show ?thesis by (auto intro: same_stage_trans)
    qed
  next
    case False
    with "1.prems" show ?thesis by (auto simp: retry_failed.simps [of env ed maxTries i r es] split: if_splits)
  qed
qed

lemma complete_attempt_same:
  assumes "complete_attempt env ed d es = (a, d', es')"
  shows "same_stage es es'" and "es_calls es' = es_calls es"
  using assms by (auto simp: complete_attempt_def Let_def split: sum.splits if_splits)


lemma try_node_same:
  assumes "try_node env ed runIndex maxTries i d resp es = (a, d', j, resp', es')" and "no_requests env" and "i < maxTries"
  shows "same_stage es es'" and "i \<le> j" and "j < maxTries"
    and "es_calls es' + i \<le> Suc (Suc (es_calls es + j))" and "es_calls es' + i = Suc (Suc (es_calls es + j)) \<Longrightarrow> Suc j < maxTries"
proof -
  have "same_stage es es' \<and> j < maxTries \<and> es_calls es' + i \<le> Suc (Suc (es_calls es + j))
      \<and> (es_calls es' + i = Suc (Suc (es_calls es + j)) \<longrightarrow> Suc j < maxTries)"
  proof (cases "pinned_items es (ed_node ed)")
    case None
    obtain r0 es0 r i1 es1 where
      r: "runNode env ed (Some (sub_node_results ed (rs_runData (es_run es)) resp)) es = (r0, es0)"
        "retry_failed env ed maxTries i r0 es0 = (r, i1, es1)" by (metis prod.exhaust)
    note s0 = runNode_same [OF r(1)] and s1 = retry_failed_same [OF r(2) assms(3)]
    have no: "r \<noteq> Requested q" for q using s0(4) s1 assms(2) by blast
    have "j = i1 \<and> same_stage es1 es' \<and> es_calls es' = es_calls es1"
      using assms(1) None r no
      by (auto simp: try_node_def Let_def split: node_result.splits prod.splits sum.splits dest: complete_attempt_same)
    with s0 s1 show ?thesis by (auto intro: same_stage_trans)
  next
    case (Some items)
    with assms(1,3) show ?thesis by (auto simp: try_node_def split: prod.splits dest: complete_attempt_same)
  qed
  then show "same_stage es es'" "j < maxTries" "es_calls es' + i \<le> Suc (Suc (es_calls es + j))"
    "es_calls es' + i = Suc (Suc (es_calls es + j)) \<Longrightarrow> Suc j < maxTries" by blast+
  show "i \<le> j" by (rule try_node_index [OF assms(1)])
qed

lemma run_tries_same:
  assumes "run_tries env ed runIndex maxTries i d resp es = (b, d', es')" and "no_requests env" and "i < maxTries"
  shows "same_stage es es' \<and> es_calls es' < es_calls es + 2 * (maxTries - i)"
  using assms
proof (induction env ed runIndex maxTries i d resp es rule: run_tries.induct)
  case (1 env ed runIndex maxTries i d resp es)
  let ?es = "if i = 0 then es else es\<lparr>es_executionError := None\<rparr>"
  obtain a d1 j resp1 es1 where t: "try_node env ed runIndex maxTries i d resp ?es = (a, d1, j, resp1, es1)"
    by (metis prod.exhaust)
  note s = try_node_same [OF t "1.prems"(2,3)]
  have same: "same_stage es es1" using s(1) by (cases "i = 0") (auto simp: same_stage_def)
  have calls: "es_calls ?es = es_calls es" by simp
  have small: "es_calls es1 < es_calls es + 2 * (maxTries - i)"
    using s(2-5) calls by (cases "es_calls es1 + i = Suc (Suc (es_calls es + j))") auto
  note unfold = run_tries.simps [of env ed runIndex maxTries i d resp es]
  show ?case
  proof (cases a)
    case (Failed e)
    let ?es1 = "es1\<lparr>es_lastNodeExecuted := Some (node_name (ed_node ed)), es_executionError := Some e\<rparr>"
    have rest: "run_tries env ed runIndex maxTries (Suc j) d1 resp1 ?es1 = (b, d', es')"
      using "1.prems"(1,3) t Failed by (simp add: unfold)
    show ?thesis
    proof (cases "Suc j < maxTries")
      case True
      from "1.IH" [OF "1.prems"(3) t [symmetric] refl refl refl Failed rest "1.prems"(2) True]
      have "same_stage ?es1 es'" "es_calls es' < es_calls es1 + 2 * (maxTries - Suc j)" by auto
      moreover have "same_stage es ?es1" using same by simp
      ultimately show ?thesis using s(2,4) True "1.prems"(3) calls by (auto intro: same_stage_trans)
    next
      case False
      with rest have "es' = ?es1" by (simp add: run_tries.simps [of env ed runIndex maxTries "Suc j"])
      with same small show ?thesis by simp
    qed
  qed (use "1.prems" t same small in \<open>auto simp: unfold\<close>)
qed

lemma max_tries_bounds: "0 < max_tries node" "max_tries node \<le> 5" "node_retryOnFail node \<noteq> Some True \<Longrightarrow> max_tries node = 1"
  by (auto simp: max_tries_def)


section \<open>Items\<close>

lemma pair_item_plain: "ed_metadata ed = None \<Longrightarrow> \<exists>y. pair_item ed k x = Inr y"
  by (cases x) (simp add: pair_item_def resolveSourceOverwrite_def)

lemma pair_input_plain: "ed_metadata ed = None \<Longrightarrow> \<exists>c. pair_input ed x = Inr c"
proof -
  assume plain: "ed_metadata ed = None"
  obtain k c where x: "x = (k, c)" by fastforce
  show ?thesis
  proof (cases c)
    case (Cell items)
    from map_res_total [of "enumerate 0 items" "pair_item ed k"] pair_item_plain [OF plain] obtain ys where
      "map_res (pair_item ed k) (enumerate 0 items) = Inr ys" by blast
    with x Cell show ?thesis by (simp add: pair_input_def)
  qed (simp_all add: x pair_input_def)
qed

lemma updatePairedItems_plain:
  assumes "ed_metadata ed = None"
  obtains d where "updatePairedItems ed = Inr (ed\<lparr>ed_data := d\<rparr>)" "keys_of d = keys_of (ed_data ed)"
proof -
  let ?f = "\<lambda>(t, cells). bind_res (map_res (pair_input ed) (enumerate 0 cells)) (\<lambda>cells'. Inr (t, cells'))"
  have "\<exists>y. ?f x = Inr y" for x
  proof -
    from map_res_total [of "enumerate 0 (snd x)" "pair_input ed"] pair_input_plain [OF assms] obtain cs where
      "map_res (pair_input ed) (enumerate 0 (snd x)) = Inr cs" by blast
    then show ?thesis by (cases x) simp
  qed
  then obtain d where d: "map_res ?f (ed_data ed) = Inr d" using map_res_total [of "ed_data ed" ?f] by blast
  have "list_all2 (\<lambda>x y. fst y = fst x) (ed_data ed) d"
    using d unfolding map_res_eq_Inr by (rule list_all2_mono) (auto simp: bind_res_eq_Inr)
  then have "keys_of d = keys_of (ed_data ed)"
    by (auto simp: list_all2_conv_all_nth intro: nth_equalityI)
  with d that show thesis by (simp add: updatePairedItems_def)
qed

lemma keys_of_Some: "keys_of d = keys_of d' \<Longrightarrow> map_get d k \<noteq> None \<longleftrightarrow> map_get d' k \<noteq> None"
  by (metis map_of_eq_None_iff set_map)

lemma merge_errors_cells:
  assumes "merge_errors d = Inr outs"
  shows "Null \<notin> set outs" and "Hole \<notin> set outs"
proof -
  from assms obtain os where "list_all2 (\<lambda>x y. (case x of Cell items \<Rightarrow> bind_res (map_res merge_error items) (\<lambda>items'. Inr (Cell items'))
      | _ \<Rightarrow> Inl JsTypeError) = Inr y) os outs"
    unfolding merge_errors_def by (cases d) (auto simp: map_res_eq_Inr)
  then have "\<exists>items. y = Cell items" if "y \<in> set outs" for y
    using that by (induction rule: list_all2_induct) (auto simp: bind_res_eq_Inr split: cell.splits)
  then show "Null \<notin> set outs" "Hole \<notin> set outs" by fastforce+
qed

section \<open>Storing a task\<close>

text \<open>The run data after one more run of a node.\<close>

definition add_task :: "string \<Rightarrow> ITaskData \<Rightarrow> IRunData \<Rightarrow> IRunData" where
  "add_task n task rd = obj_set n (or_empty (map_get rd n) @ [task]) rd"

definition no_null_task :: "ITaskData \<Rightarrow> bool" where
  "no_null_task task \<longleftrightarrow> (case td_data task of None \<Rightarrow> True | Some d \<Rightarrow> \<forall>(t, outputs) \<in> set d. Null \<notin> set outputs)"

lemma set_obj_set: "set (obj_set k v m) \<subseteq> insert (k, v) (set m)"
proof (cases "k \<in> set (keys_of m)")
  case True
  have "set (map_update k v m) \<subseteq> insert (k, v) (set m)" by (induction m) auto
  with True show ?thesis by (simp add: obj_set_def)
next
  case False
  then show ?thesis by (auto simp: obj_set_def dest: set_takeWhileD set_dropWhileD)
qed

lemma no_null_outputs_add:
  assumes "no_null_outputs rd" and "no_null_task task"
  shows "no_null_outputs (add_task n task rd)"
  unfolding no_null_outputs_def
proof (intro ballI, clarify)
  fix k runs td
  assume "(k, runs) \<in> set (add_task n task rd)" and td: "td \<in> set runs"
  then have "(k, runs) \<in> set rd \<or> runs = or_empty (map_get rd n) @ [task]" using set_obj_set unfolding add_task_def by fastforce
  then have "td = task \<or> (\<exists>k runs. (k, runs) \<in> set rd \<and> td \<in> set runs)"
    using td by (cases "map_get rd n") (auto dest: map_of_SomeD)
  then show "case td_data td of None \<Rightarrow> True | Some d \<Rightarrow> (case map_get d Main of None \<Rightarrow> True | Some outputs \<Rightarrow> Null \<notin> set outputs)"
  proof
    assume "td = task"
    with assms(2) show ?thesis by (auto simp: no_null_task_def split: option.splits dest!: map_of_SomeD)
  qed (use assms(1) in \<open>force simp: no_null_outputs_def\<close>)
qed

lemma store_task_new:
  assumes "r = length (runs_of es n)"
  shows "store_task n r task es = set_run (\<lambda>st. st\<lparr>rs_runData := add_task n task (rs_runData st)\<rparr>) es"
  using assms by (simp add: store_task_def run_at_def runs_of_def add_task_def set_run_def)


section \<open>One round of the loop\<close>

text \<open>What every round keeps.\<close>

definition same_run :: "exec_state \<Rightarrow> exec_state \<Rightarrow> bool" where
  "same_run es es' \<longleftrightarrow> es_workflow es' = es_workflow es \<and> es_runNodeFilter es' = es_runNodeFilter es
     \<and> es_destinationNode es' = es_destinationNode es \<and> es_lastExecutionTry es' = es_lastExecutionTry es
     \<and> es_executionIndex es' = es_executionIndex es"

lemma same_run_set_run [simp]: "same_run es (set_run f es') \<longleftrightarrow> same_run es es'" "same_run (set_run f es) es' \<longleftrightarrow> same_run es es'"
  "same_run es es"
  by (simp_all add: same_run_def set_run_def)

lemma es_run_set_run [simp]: "es_run (set_run f es) = f (es_run es)"
  by (simp add: set_run_def)

lemma keep_pinned_same [simp]:
  "es_run (keep_pinned node outs es) = es_run es" "es_waitTill (keep_pinned node outs es) = es_waitTill es"
  "same_run es0 (keep_pinned node outs es) \<longleftrightarrow> same_run es0 es" "runs_of (keep_pinned node outs es) n = runs_of es n"
  by (simp_all add: keep_pinned_def same_run_def runs_of_def)

lemma good_state_add:
  assumes "good_state w st" and "no_null_task task"
  shows "good_state w (st\<lparr>rs_runData := add_task n task (rs_runData st)\<rparr>)"
  using assms waiting_inv_cong [of "st\<lparr>rs_runData := add_task n task (rs_runData st)\<rparr>" st w] no_null_outputs_add
  by (simp add: good_state_def)

lemma good_state_stack:
  "good_state w st \<Longrightarrow> (\<And>e. e \<in> set es \<Longrightarrow> good_entry w e) \<Longrightarrow> good_state w (st\<lparr>rs_nodeExecutionStack := es\<rparr>)"
  using waiting_inv_cong [of "st\<lparr>rs_nodeExecutionStack := es\<rparr>" st w] by (simp add: good_state_def)

lemma good_unshift:
  assumes "good_state (es_workflow es0) (es_run es)" and "good_entry (es_workflow es0) ed"
  shows "good_state (es_workflow es0) (es_run (unshift_entry ed es))"
proof -
  have "good_entry (es_workflow es0) e" if "e \<in> set (ed # rs_nodeExecutionStack (es_run es))" for e
    using that assms by (auto simp: good_state_def)
  from good_state_stack [where es = "ed # rs_nodeExecutionStack (es_run es)", OF assms(1) this] show ?thesis
    by (simp add: unshift_entry_def)
qed

lemma jobs_runData [simp]: "jobs (st\<lparr>rs_runData := rd\<rparr>) = jobs st"
  by (simp add: jobs_def)

lemma rewire_task_fields:
  assumes "no_null_task task" and "Null \<notin> set outs"
  shows "no_null_task (rewire_task node r es outs task)" "td_executionIndex (rewire_task node r es outs task) = td_executionIndex task"
    "td_executionStatus (rewire_task node r es outs task) = td_executionStatus task"
  using assms by (auto simp: rewire_task_def no_null_task_def split: option.splits)

text \<open>
  The outcome of a round on a node \<open>n\<close>: at most one run of \<open>n\<close> is stored, and when the loop goes on, the jobs are smaller.
\<close>

definition stored :: "nat \<Rightarrow> string \<Rightarrow> IRunData \<Rightarrow> IRunData \<Rightarrow> bool" where
  "stored index n rd rd' \<longleftrightarrow> rd' = rd \<or> map_get rd n = None \<and> rd' = obj_set n [] rd
     \<or> (\<exists>task. td_executionIndex task = Some index \<and> td_executionStatus task \<noteq> Some StatusRunning \<and> rd' = add_task n task rd)"

fun outcome :: "loop_step \<Rightarrow> exec_state" where
  "outcome (Continue es) = es"
| "outcome (Break es) = es"
| "outcome (Throw e es) = es"

definition round_ok :: "nat \<Rightarrow> string \<Rightarrow> exec_state \<Rightarrow> loop_step \<Rightarrow> bool" where
  "round_ok index n es step \<longleftrightarrow> same_run es (outcome step) \<and> good_state (es_workflow es) (es_run (outcome step))
     \<and> stored index n (rs_runData (es_run es)) (rs_runData (es_run (outcome step)))
     \<and> (\<forall>es'. step = Continue es' \<longrightarrow> after_job (main_links (es_workflow es)) n (jobs (es_run es)) (jobs (es_run es')))"

lemma stored_cases:
  assumes "stored index n rd rd'"
  obtains (none) "rd' = rd"
    | (init) "map_get rd n = None" "rd' = obj_set n [] rd"
    | (run) task where "td_executionIndex task = Some index" "td_executionStatus task \<noteq> Some StatusRunning" "rd' = add_task n task rd"
  using assms unfolding stored_def by (elim disjE exE conjE) assumption+

lemma stored_refl [simp]: "stored index n rd rd"
  by (simp add: stored_def)

lemma add_next_ok:
  assumes "good_workflow (env_nodeTypes env) (es_workflow es)" and "good_state (es_workflow es) (es_run es)"
  shows "\<exists>st. add_next env n outs r es = Continue (es\<lparr>es_run := st\<rparr>) \<and> good_state (es_workflow es) st \<and> rs_runData st = rs_runData (es_run es)
    \<and> after_job (main_links (es_workflow es)) n (jobs (es_run es)) (jobs st)"
  using stack_jobs.job_done [OF conjI [OF assms], of n "(outs, r)" "env_evalInputs env"] by (auto simp: add_next_def)

lemma store_output_ok:
  assumes w: "good_workflow (env_nodeTypes env) (es_workflow es)" and st: "good_state (es_workflow es) (es_run es)"
    and ed: "good_entry (es_workflow es) ed" and n: "n = node_name (ed_node ed)" and r: "r = length (runs_of es n)"
    and task: "td_executionIndex task = Some index" "td_executionStatus task \<noteq> Some StatusRunning"
  shows "round_ok index n es (store_output env ed r task d es)"
proof (cases "merge_errors d")
  case (Inl e)
  with st show ?thesis by (simp add: store_output_def Let_def round_ok_def)
next
  case (Inr outs)
  let ?w = "es_workflow es"
  let ?task = "rewire_task (ed_node ed) r es outs (task\<lparr>td_data := Some [(Main, outs)]\<rparr>)"
  let ?es1 = "set_run (\<lambda>st. st\<lparr>rs_runData := add_task n ?task (rs_runData st)\<rparr>) (keep_pinned (ed_node ed) outs es)"
  note cells = merge_errors_cells [OF Inr]
  have t: "no_null_task ?task" "td_executionIndex ?task = Some index" "td_executionStatus ?task \<noteq> Some StatusRunning"
    using rewire_task_fields [of "task\<lparr>td_data := Some [(Main, outs)]\<rparr>" outs] cells(1) task by (simp_all add: no_null_task_def)
  have es1: "store_task n r ?task (keep_pinned (ed_node ed) outs es) = ?es1" by (rule store_task_new) (simp add: r)
  have good: "good_state ?w (es_run ?es1)" using good_state_add [OF st t(1)] by simp
  have run: "stored index n (rs_runData (es_run es)) (rs_runData (es_run ?es1))" using t(2,3) by (auto simp: stored_def)
  have same: "same_run es ?es1" by simp
  then have w1: "es_workflow ?es1 = ?w" by (simp only: same_run_def)
  have less: "after_job (main_links ?w) n (jobs (es_run es)) (jobs (es_run ?es1))"
    using stack_jobs.no_job_added [of "es_run ?es1" "es_run es"] by simp
  have unfold: "store_output env ed r task d es = (if es_waitTill ?es1 \<noteq> None then Break (unshift_entry ed ?es1)
      else if map_option dn_nodeName (es_destinationNode ?es1) = Some n then Continue ?es1 else add_next env n outs r ?es1)"
    by (simp only: store_output_def Let_def Inr sum.case n [symmetric] es1)
  show ?thesis
  proof (cases "es_waitTill ?es1 = None")
    case False
    have "good_state ?w (es_run (unshift_entry ed ?es1))" using good ed by (rule good_unshift)
    moreover have "rs_runData (es_run (unshift_entry ed ?es1)) = rs_runData (es_run ?es1)" by (simp add: unshift_entry_def)
    moreover have "same_run es (unshift_entry ed ?es1)" by (simp add: unshift_entry_def)
    ultimately show ?thesis unfolding unfold round_ok_def using False run by simp
  next
    case True
    show ?thesis
    proof (cases "map_option dn_nodeName (es_destinationNode ?es1) = Some n")
      case True
      with \<open>es_waitTill ?es1 = None\<close> good run same less show ?thesis unfolding unfold round_ok_def by simp
    next
      case False
      from add_next_ok [of env ?es1 n outs r] w good obtain st where
        a: "add_next env n outs r ?es1 = Continue (?es1\<lparr>es_run := st\<rparr>)" "good_state ?w st" "rs_runData st = rs_runData (es_run ?es1)"
          "after_job (main_links ?w) n (jobs (es_run ?es1)) (jobs st)" unfolding w1 by blast
      have "same_run es (?es1\<lparr>es_run := st\<rparr>)" using same by (simp add: same_run_def)
      moreover have "store_output env ed r task d es = Continue (?es1\<lparr>es_run := st\<rparr>)"
        by (simp only: unfold True False a(1) not_True_eq_False if_False simp_thms)
      ultimately show ?thesis unfolding round_ok_def using a run by simp
    qed
  qed
qed


lemma add_task_init:
  "add_task n task (if map_get rd n = None then obj_set n [] rd else rd) = add_task n task rd"
  by (auto simp: add_task_def js_obj.get_put)

lemma stored_init:
  assumes "stored index n (if map_get rd n = None then obj_set n [] rd else rd) rd'"
  shows "stored index n rd rd'"
proof (cases "map_get rd n")
  case None
  have "add_task n task (obj_set n [] rd) = add_task n task rd" for task using add_task_init [of n task rd] None by simp
  moreover have "stored index n (obj_set n [] rd) rd'" using assms None by simp
  ultimately show ?thesis using None by (simp add: stored_def js_obj.get_put)
qed (use assms in simp)

lemma no_null_init: "no_null_outputs rd \<Longrightarrow> no_null_outputs (obj_set n [] rd)"
  using set_obj_set [of n "[]" rd] by (fastforce simp: no_null_outputs_def)

lemma finish_node_ok:
  assumes w: "good_workflow (env_nodeTypes env) (es_workflow es)" and st: "good_state (es_workflow es) (es_run es)"
    and ed: "good_entry (es_workflow es) ed" and n: "n = node_name (ed_node ed)" and r: "r = length (runs_of es n)"
  shows "round_ok index n es (finish_node env ed index r d es)"
proof -
  let ?init = "\<lambda>rd. if map_get rd n = None then obj_set n [] rd else rd"
  let ?es = "set_run (\<lambda>st. st\<lparr>rs_runData := ?init (rs_runData st)\<rparr>) es"
  have same: "same_run es ?es" by simp
  then have w': "es_workflow ?es = es_workflow es" by (simp only: same_run_def)
  have st': "good_state (es_workflow es) (es_run ?es)"
    using st no_null_init waiting_inv_cong [of "es_run ?es" "es_run es" "es_workflow es"] by (auto simp: good_state_def)
  have runs: "runs_of ?es m = runs_of es m" for m by (simp add: runs_of_def js_obj.get_put)
  have err: "es_executionError ?es = es_executionError es" by (simp add: set_run_def)
  have "round_ok index n ?es step \<Longrightarrow> round_ok index n es step" for step
    unfolding round_ok_def w' same_run_set_run es_run_set_run jobs_runData
    by (elim conjE, intro conjI) (assumption | rule stored_init, simp)+
  moreover have "round_ok index n ?es (finish_node env ed index r d es)"
  proof (cases "es_executionError es")
    case None
    have "finish_node env ed index r d es = store_output env ed r (new_task index ed ?es) d ?es"
      by (simp only: finish_node_def Let_def n [symmetric] err None option.case)
    then show ?thesis
      using store_output_ok [of env ?es ed n r] w st' ed n r runs w' by (simp add: new_task_def)
  next
    case (Some e)
    let ?failed = "(new_task index ed ?es)\<lparr>td_error := Some e, td_executionStatus := Some StatusError\<rparr>"
    show ?thesis
    proof (cases "stops_on_error (ed_node ed)")
      case False
      have "finish_node env ed index r d es = store_output env ed r ?failed (failed_output ed e d) ?es"
        by (simp only: finish_node_def Let_def n [symmetric] err Some option.case False if_False)
      then show ?thesis
        using store_output_ok [of env ?es ed n r] w st' ed n r runs w' by (simp add: new_task_def)
    next
      case True
      let ?task = "rewire_task (ed_node ed) r ?es (error_outputs e) ?failed"
      let ?es1 = "set_run (\<lambda>st. st\<lparr>rs_runData := add_task n ?task (rs_runData st)\<rparr>) ?es"
      have t: "no_null_task ?task" "td_executionIndex ?task = Some index" "td_executionStatus ?task \<noteq> Some StatusRunning"
        using rewire_task_fields [of ?failed "error_outputs e"] by (simp_all add: new_task_def no_null_task_def error_outputs_def)
      have "store_task n r ?task ?es = ?es1" by (rule store_task_new) (simp only: r runs)
      then have "finish_node env ed index r d es = Break (unshift_entry ed ?es1)"
        by (simp only: finish_node_def Let_def n [symmetric] err Some True option.case if_True)
      moreover have "good_state (es_workflow es) (es_run ?es1)" using good_state_add [OF st' t(1)] by simp
      then have "good_state (es_workflow es) (es_run (unshift_entry ed ?es1))" using ed by (rule good_unshift)
      moreover have "stored index n (rs_runData (es_run ?es)) (rs_runData (es_run (unshift_entry ed ?es1)))"
        using t(2,3) by (auto simp: stored_def unshift_entry_def)
      ultimately show ?thesis using w' by (simp add: round_ok_def unshift_entry_def)
    qed
  qed
  ultimately show ?thesis by blast
qed


text \<open>A round on an entry of the stack.\<close>

lemma checkInput_v1:
  assumes "wf_executionOrder w = Some ''v1''" and "obj_get (ed_data ed) Main \<noteq> None"
  shows "checkInput w ed k \<noteq> Some False"
  using assms by (auto simp: checkInput_def isLegacyExecutionOrder_def)

lemma ensureInputData_v1:
  assumes "wf_executionOrder w = Some ''v1''" and "obj_get (ed_data ed) Main \<noteq> None"
  shows "ensureInputData w ed st = (True, st)"
proof -
  have "checkInputs w ed ks" for ks using checkInput_v1 [OF assms] by (induction ks) (simp_all split: option.split, metis)
  then show ?thesis by (simp add: ensureInputData_def)
qed

definition in_filter :: "exec_state \<Rightarrow> string \<Rightarrow> bool" where
  "in_filter es n \<longleftrightarrow> (case es_runNodeFilter es of None \<Rightarrow> True | Some runNodeFilter \<Rightarrow> n \<in> set runNodeFilter)"

text \<open>The main connections that the loop follows: those of nodes that the filter allows.\<close>

definition open_links :: "exec_state \<Rightarrow> (string \<times> string) set" where
  "open_links es = {(a, b) \<in> main_links (es_workflow es). in_filter es a}"

lemma after_job_jobs:
  assumes "after_job E n M N" and "m \<in># N"
  shows "\<exists>p \<in># add_mset n M. (p, m) \<in> E\<^sup>*"
proof -
  from assms(1) obtain K where "N \<subseteq># M + K" "set_mset K \<subseteq> E `` {n}" by (auto simp: after_job_def)
  moreover have "m \<in># M + K" using assms(2) \<open>N \<subseteq># M + K\<close> by (rule mset_subset_eqD [rotated])
  ultimately have "m \<in># M \<or> (n, m) \<in> E" by auto
  then show ?thesis by auto
qed

lemma execute_entry_cases:
  assumes "good_workflow (env_nodeTypes env) (es_workflow es)" and "good_entry (es_workflow es) entry" and "es_lastExecutionTry es = []"
    and n: "n = node_name (ed_node entry)"
  obtains (filtered) "\<not> in_filter es n"
      "execute_entry env entry es = Continue (es\<lparr>es_executionIndex := Suc (es_executionIndex es), es_executionError := None\<rparr>)"
    | (tried) ed b d es1 where "in_filter es n" "good_entry (es_workflow es) ed" "ed_node ed = ed_node entry"
      "run_tries env ed (length (runs_of es n)) (max_tries (ed_node entry)) 0 Null makeEngineResponse
         (es\<lparr>es_executionIndex := Suc (es_executionIndex es), es_executionError := None\<rparr>) = (b, d, es1)"
      "execute_entry env entry es = (if b then Continue es1 else finish_node env ed (es_executionIndex es) (length (runs_of es n)) d es1)"
proof -
  let ?es = "es\<lparr>es_executionIndex := Suc (es_executionIndex es), es_executionError := None\<rparr>"
  have "ed_metadata entry = None" using assms(2) by (simp add: good_entry_def)
  then obtain data where u: "updatePairedItems entry = Inr (entry\<lparr>ed_data := data\<rparr>)" "keys_of data = keys_of (ed_data entry)"
    by (rule updatePairedItems_plain)
  let ?ed = "entry\<lparr>ed_data := data\<rparr>"
  have ed: "good_entry (es_workflow es) ?ed" using assms(2) keys_of_Some [OF u(2)] by (simp add: good_entry_def)
  have run: "run_index ?ed ?es = length (runs_of es n)" using assms(2) n by (simp add: run_index_def good_entry_def runs_of_def)
  have in_filter: "(\<exists>f \<in> set_option (es_runNodeFilter ?es). n \<notin> set f) \<longleftrightarrow> \<not> in_filter es n"
    by (simp add: in_filter_def split: option.splits)
  have input: "ensureInputData (es_workflow ?es) ?ed (es_run ?es) = (True, es_run ?es)"
    using assms(1) ed by (intro ensureInputData_v1) (simp_all add: good_workflow_def good_entry_def)
  obtain b d es1 where tries: "run_tries env ?ed (length (runs_of es n)) (max_tries (ed_node entry)) 0 Null makeEngineResponse ?es = (b, d, es1)"
    by (metis prod.exhaust)
  have step: "execute_entry env entry es = (if \<not> in_filter es n then Continue ?es
      else if b then Continue es1 else finish_node env ?ed (es_executionIndex es) (length (runs_of es n)) d es1)"
    using u(1) run in_filter input tries assms(3) n by (simp add: execute_entry_def Let_def)
  show thesis
  proof (cases "in_filter es n")
    case True
    with that(2) [OF True ed _ tries] step show thesis by simp
  next
    case False
    with that(1) step show thesis by simp
  qed
qed

lemma es_calls_kept [simp]:
  "es_calls (set_run f es) = es_calls es" "es_calls (keep_pinned node outs es) = es_calls es"
  "es_calls (store_task n r task es) = es_calls es" "es_calls (unshift_entry ed es) = es_calls es"
  by (simp_all add: set_run_def keep_pinned_def store_task_def unshift_entry_def)

lemma finish_node_calls: "es_calls (outcome (finish_node env ed index r d es)) = es_calls es"
proof -
  have next_calls: "es_calls (outcome (add_next env n outs r es)) = es_calls es" for n outs es
    by (simp add: add_next_def split: sum.split)
  have "es_calls (outcome (store_output env ed r task d es)) = es_calls es" for task d es
    by (simp add: store_output_def Let_def next_calls split: sum.split)
  then show ?thesis by (simp add: finish_node_def Let_def split: option.split)
qed

lemma execute_entry_ok:
  assumes w: "good_workflow (env_nodeTypes env) (es_workflow es)" and st: "good_state (es_workflow es) (es_run es)"
    and entry: "good_entry (es_workflow es) entry" and n: "n = node_name (ed_node entry)" and req: "no_requests env"
    and first: "es_lastExecutionTry es = []"
  shows "round_ok (es_executionIndex es) n (es\<lparr>es_executionIndex := Suc (es_executionIndex es)\<rparr>) (execute_entry env entry es)"
    and "\<not> in_filter es n \<Longrightarrow> rs_runData (es_run (outcome (execute_entry env entry es))) = rs_runData (es_run es)"
    and "es_calls (outcome (execute_entry env entry es)) < es_calls es + 2 * max_tries (ed_node entry)"
    and "execute_entry env entry es = Continue es' \<Longrightarrow> after_job (open_links es) n (jobs (es_run es)) (jobs (es_run es'))"
proof -
  let ?es = "es\<lparr>es_executionIndex := Suc (es_executionIndex es)\<rparr>"
  have "round_ok (es_executionIndex es) n ?es (execute_entry env entry es)
    \<and> es_calls (outcome (execute_entry env entry es)) < es_calls es + 2 * max_tries (ed_node entry)"
    using w entry first n
  proof (cases rule: execute_entry_cases)
    case filtered
    have "after_job (main_links (es_workflow es)) n (jobs (es_run es)) (jobs (es_run es))"
      by (rule stack_jobs.no_job_added) simp
    with filtered st max_tries_bounds(1) [of "ed_node entry"] show ?thesis by (simp add: round_ok_def same_run_def)
  next
    case (tried ed b d es1)
    from run_tries_same [OF tried(4) req max_tries_bounds(1)]
    have same: "same_stage ?es es1" and calls: "es_calls es1 < es_calls es + 2 * max_tries (ed_node entry)"
      by (simp_all add: same_stage_def)
    have keep: "es_run es1 = es_run es" "es_workflow es1 = es_workflow es" "same_run ?es es1" "same_run es1 es' \<Longrightarrow> same_run ?es es'" for es'
      using same by (simp_all add: same_stage_def same_run_def)
    show ?thesis
    proof (cases b)
      case True
      have "after_job (main_links (es_workflow es)) n (jobs (es_run es)) (jobs (es_run es))"
        by (rule stack_jobs.no_job_added) simp
      with True tried(5) st calls keep show ?thesis by (simp add: round_ok_def)
    next
      case False
      have "round_ok (es_executionIndex es) n es1 (finish_node env ed (es_executionIndex es) (length (runs_of es n)) d es1)"
        using w st tried(2,3) n keep by (intro finish_node_ok) (simp_all add: runs_of_def)
      with False tried(5) keep calls show ?thesis by (simp add: round_ok_def finish_node_calls)
    qed
  qed
  then show round: "round_ok (es_executionIndex es) n ?es (execute_entry env entry es)"
    and "es_calls (outcome (execute_entry env entry es)) < es_calls es + 2 * max_tries (ed_node entry)" by blast+
  show "\<not> in_filter es n \<Longrightarrow> rs_runData (es_run (outcome (execute_entry env entry es))) = rs_runData (es_run es)"
    by (cases rule: execute_entry_cases [OF w entry first n]) simp_all
  assume step: "execute_entry env entry es = Continue es'"
  show "after_job (open_links es) n (jobs (es_run es)) (jobs (es_run es'))"
  proof (cases "in_filter es n")
    case True
    then have "open_links es `` {n} = main_links (es_workflow es) `` {n}" by (auto simp: open_links_def)
    with round step show ?thesis by (simp add: round_ok_def after_job_def)
  next
    case False
    then have "es_run es' = es_run es" using step by (cases rule: execute_entry_cases [OF w entry first n]) auto
    then show ?thesis unfolding after_job_def by (intro exI [of _ "{#}"]) simp
  qed
qed


section \<open>What an execution records\<close>

definition task_indexes :: "IRunData \<Rightarrow> nat option multiset" where
  "task_indexes rd = (\<Sum>(n, runs) \<in># mset rd. image_mset td_executionIndex (mset runs))"

text \<open>Run data whose runs have different execution indexes below \<open>k\<close>, and none of them is still running.\<close>

definition history_ok :: "nat \<Rightarrow> IRunData \<Rightarrow> bool" where
  "history_ok k rd \<longleftrightarrow> distinct (keys_of rd) \<and> (\<forall>x. count (task_indexes rd) x \<le> 1) \<and> (\<forall>x \<in># task_indexes rd. \<exists>i<k. x = Some i)
     \<and> (\<forall>(n, runs) \<in> set rd. \<forall>task \<in> set runs. td_executionStatus task \<noteq> Some StatusRunning)"

lemma task_indexes_put:
  "distinct (keys_of rd) \<Longrightarrow> task_indexes (obj_set n runs rd)
     = image_mset td_executionIndex (mset runs) + task_indexes (filter (\<lambda>e. fst e \<noteq> n) rd)"
  by (simp add: task_indexes_def js_obj.mset_put)

lemma task_indexes_split:
  "distinct (keys_of rd) \<Longrightarrow> task_indexes rd
     = image_mset td_executionIndex (mset (or_empty (map_get rd n))) + task_indexes (filter (\<lambda>e. fst e \<noteq> n) rd)"
  unfolding task_indexes_def by (subst mset_split_key [of rd n]) (simp_all split: option.split)

lemma task_indexes_add:
  "distinct (keys_of rd) \<Longrightarrow> task_indexes (add_task n task rd) = add_mset (td_executionIndex task) (task_indexes rd)"
  by (simp add: add_task_def task_indexes_put task_indexes_split [of rd n])

lemma task_indexes_init:
  "distinct (keys_of rd) \<Longrightarrow> map_get rd n = None \<Longrightarrow> task_indexes (obj_set n [] rd) = task_indexes rd"
  by (simp add: task_indexes_put task_indexes_split [of rd n])

lemma history_stored:
  assumes h: "history_ok k rd" and s: "stored k n rd rd'"
  shows "history_ok (Suc k) rd'"
proof -
  have d: "distinct (keys_of rd)" using h by (simp add: history_ok_def)
  have fresh: "Some k \<notin># task_indexes rd" using h by (auto simp: history_ok_def)
  from s show ?thesis
  proof (cases rule: stored_cases)
    case none
    with h show ?thesis by (auto simp: history_ok_def less_Suc_eq)
  next
    case init
    have "set rd' \<subseteq> insert (n, []) (set rd)" using init(2) set_obj_set by simp
    moreover have "distinct (keys_of rd')" using d init(2) by (simp add: js_obj.distinct_put)
    moreover have "task_indexes rd' = task_indexes rd" using task_indexes_init [OF d init(1)] init(2) by simp
    ultimately show ?thesis using h by (fastforce simp: history_ok_def less_Suc_eq)
  next
    case (run task)
    let ?runs = "or_empty (map_get rd n) @ [task]"
    have "set rd' \<subseteq> insert (n, ?runs) (set rd)" using run(3) set_obj_set by (simp add: add_task_def)
    moreover have "td_executionStatus t \<noteq> Some StatusRunning" if "t \<in> set ?runs" for t
      using that run(2) h by (cases "map_get rd n") (auto simp: history_ok_def dest!: map_of_SomeD)
    ultimately have "\<forall>(m, runs) \<in> set rd'. \<forall>t \<in> set runs. td_executionStatus t \<noteq> Some StatusRunning"
      using h unfolding history_ok_def by blast
    moreover have "distinct (keys_of rd')" using d run(3) by (simp add: add_task_def js_obj.distinct_put)
    moreover have "task_indexes rd' = add_mset (Some k) (task_indexes rd)" using task_indexes_add [OF d] run(1,3) by simp
    ultimately show ?thesis using h fresh by (auto simp: history_ok_def less_Suc_eq not_in_iff)
  qed
qed

text \<open>
  The state between two rounds, and what the rounds add to the run data: runs with new execution indexes in increasing order, of
  nodes that the filter allows.
\<close>

definition exec_ok :: "engine_env \<Rightarrow> exec_state \<Rightarrow> bool" where
  "exec_ok env es \<longleftrightarrow> good_workflow (env_nodeTypes env) (es_workflow es) \<and> good_state (es_workflow es) (es_run es)
     \<and> es_lastExecutionTry es = [] \<and> history_ok (es_executionIndex es) (rs_runData (es_run es))"

definition logs :: "exec_state \<Rightarrow> exec_state \<Rightarrow> bool" where
  "logs es es' \<longleftrightarrow> es_workflow es' = es_workflow es \<and> es_runNodeFilter es' = es_runNodeFilter es
     \<and> es_executionIndex es \<le> es_executionIndex es'
     \<and> (\<forall>n. \<exists>ks tasks. runs_of es' n = runs_of es n @ tasks \<and> map td_executionIndex tasks = map Some ks
          \<and> sorted_wrt (<) ks \<and> set ks \<subseteq> {es_executionIndex es..<es_executionIndex es'} \<and> (tasks \<noteq> [] \<longrightarrow> in_filter es n))"

lemma logs_same:
  assumes "es_workflow es' = es_workflow es" "es_runNodeFilter es' = es_runNodeFilter es" "es_executionIndex es' = es_executionIndex es"
    and "rs_runData (es_run es') = rs_runData (es_run es)"
  shows "logs es es'"
  using assms unfolding logs_def runs_of_def by (auto intro!: exI [of _ "[]"])

lemma logs_trans:
  assumes "logs es es1" and "logs es1 es2"
  shows "logs es es2"
proof -
  have "\<exists>ks tasks. runs_of es2 n = runs_of es n @ tasks \<and> map td_executionIndex tasks = map Some ks
          \<and> sorted_wrt (<) ks \<and> set ks \<subseteq> {es_executionIndex es..<es_executionIndex es2} \<and> (tasks \<noteq> [] \<longrightarrow> in_filter es n)" for n
  proof -
    from assms(1) obtain ks tasks where a: "runs_of es1 n = runs_of es n @ tasks" "map td_executionIndex tasks = map Some ks"
      "sorted_wrt (<) ks" "set ks \<subseteq> {es_executionIndex es..<es_executionIndex es1}" "tasks \<noteq> [] \<longrightarrow> in_filter es n"
      unfolding logs_def by blast
    from assms(2) obtain ks' tasks' where b: "runs_of es2 n = runs_of es1 n @ tasks'" "map td_executionIndex tasks' = map Some ks'"
      "sorted_wrt (<) ks'" "set ks' \<subseteq> {es_executionIndex es1..<es_executionIndex es2}" "tasks' \<noteq> [] \<longrightarrow> in_filter es1 n"
      unfolding logs_def by blast
    have le: "es_executionIndex es \<le> es_executionIndex es1" "es_executionIndex es1 \<le> es_executionIndex es2"
      and filt: "in_filter es1 n = in_filter es n"
      using assms by (simp_all add: logs_def in_filter_def)
    have "sorted_wrt (<) (ks @ ks')" using a(3,4) b(3,4) by (fastforce simp: sorted_wrt_append)
    moreover have "set (ks @ ks') \<subseteq> {es_executionIndex es..<es_executionIndex es2}" using a(4) b(4) le by fastforce
    ultimately show ?thesis
      using a(1,2,5) b(1,2,5) filt by (intro exI [of _ "ks @ ks'"] exI [of _ "tasks @ tasks'"]) auto
  qed
  with assms show ?thesis by (simp add: logs_def)
qed

lemma logs_stored:
  assumes "stored (es_executionIndex es) n (rs_runData (es_run es)) (rs_runData (es_run es'))"
    and "\<not> in_filter es n \<Longrightarrow> rs_runData (es_run es') = rs_runData (es_run es)"
    and "es_workflow es' = es_workflow es" "es_runNodeFilter es' = es_runNodeFilter es" "es_executionIndex es' = Suc (es_executionIndex es)"
  shows "logs es es'"
proof -
  have runs: "runs_of es' m = runs_of es m \<or> m = n \<and> in_filter es n
      \<and> (\<exists>task. td_executionIndex task = Some (es_executionIndex es) \<and> runs_of es' m = runs_of es m @ [task])" for m
  proof (cases "in_filter es n")
    case True
    from assms(1) show ?thesis
      by (cases rule: stored_cases) (use True in \<open>simp_all add: runs_of_def add_task_def js_obj.get_put\<close>)
  next
    case False
    with assms(2) show ?thesis by (simp add: runs_of_def)
  qed
  have "\<exists>ks tasks. runs_of es' m = runs_of es m @ tasks \<and> map td_executionIndex tasks = map Some ks \<and> sorted_wrt (<) ks
      \<and> set ks \<subseteq> {es_executionIndex es..<es_executionIndex es'} \<and> (tasks \<noteq> [] \<longrightarrow> in_filter es m)" for m
  proof (cases "runs_of es' m = runs_of es m")
    case True
    then show ?thesis by (auto intro!: exI [of _ "[]"])
  next
    case False
    with runs [of m] obtain task where "m = n" "in_filter es n" "td_executionIndex task = Some (es_executionIndex es)" "runs_of es' m = runs_of es m @ [task]"
      by blast
    with assms(5) show ?thesis by (intro exI [of _ "[es_executionIndex es]"] exI [of _ "[task]"]) simp
  qed
  with assms(3-5) show ?thesis by (simp add: logs_def)
qed

lemma cancel_same:
  assumes "history_ok k (rs_runData (es_run es))"
  shows "cancel es = es\<lparr>es_status := StatusCanceled\<rparr>"
proof -
  have "updateTaskStatusesToCancelled (rs_runData (es_run es)) = rs_runData (es_run es)"
    unfolding updateTaskStatusesToCancelled_def
  proof (rule map_idI)
    fix x
    assume x: "x \<in> set (rs_runData (es_run es))"
    obtain n runs where nr: "x = (n, runs)" by (cases x)
    with x assms have "\<forall>task \<in> set runs. td_executionStatus task \<noteq> Some StatusRunning" by (fastforce simp: history_ok_def)
    then have "map (\<lambda>task. if td_executionStatus task = Some StatusRunning then task\<lparr>td_executionStatus := Some StatusCanceled\<rparr> else task) runs
        = runs"
      by (intro map_idI) simp
    with nr show "(case x of (name, runs) \<Rightarrow> (name, map (\<lambda>task. if td_executionStatus task = Some StatusRunning
        then task\<lparr>td_executionStatus := Some StatusCanceled\<rparr> else task) runs)) = x"
      by simp
  qed
  then show ?thesis by (simp add: cancel_def set_run_def)
qed

lemma loop_round_cases:
  assumes "exec_ok env es"
  obtains (stop) s t where "loop_round env i es = Break (es\<lparr>es_status := s, es_timedOut := t\<rparr>)"
    | (entry) e entries st where "rs_nodeExecutionStack (es_run es) = e # entries" "st = (es_run es)\<lparr>rs_nodeExecutionStack := entries\<rparr>"
      "env_interrupt env i = NoInterrupt" "es_status es \<noteq> StatusCanceled" "loop_round env i es = execute_entry env e (es\<lparr>es_run := st\<rparr>)"
proof -
  have c: "cancel es = es\<lparr>es_status := StatusCanceled\<rparr>" using assms cancel_same by (auto simp: exec_ok_def)
  let ?st = "\<lambda>entries. (es_run es)\<lparr>rs_nodeExecutionStack := entries\<rparr>"
  show thesis
  proof (cases "env_interrupt env i")
    case NoInterrupt
    then show thesis
      using that(1) [where s = "es_status es" and t = "es_timedOut es"] that(2) [OF _ refl]
      by (cases "rs_nodeExecutionStack (es_run es)"; cases "es_status es = StatusCanceled") (auto simp: loop_round_def set_run_def)
  next
    case Canceled
    then have "loop_round env i es = Break (es\<lparr>es_status := StatusCanceled, es_timedOut := es_timedOut es\<rparr>)"
      by (simp add: loop_round_def Let_def c split: list.split)
    then show thesis by (rule that(1))
  next
    case TimedOut
    then show thesis
      using that(1) [where s = "es_status es" and t = "es_timedOut es"] that(1) [where s = StatusCanceled and t = True]
      by (cases "rs_nodeExecutionStack (es_run es)") (simp_all add: loop_round_def Let_def)
  qed
qed

lemma loop_round_ok:
  assumes ok: "exec_ok env es" and req: "no_requests env"
  shows "exec_ok env (outcome (loop_round env i es))" and "logs es (outcome (loop_round env i es))"
    and "loop_round env i es = Continue es' \<Longrightarrow> (jobs (es_run es'), jobs (es_run es)) \<in> mult ((main_links (es_workflow es))\<inverse>)"
    and "es_calls (outcome (loop_round env i es)) \<le> es_calls es + 9"
    and "loop_round env i es = Continue es' \<Longrightarrow> m \<in># jobs (es_run es') \<Longrightarrow> \<exists>p \<in># jobs (es_run es). (p, m) \<in> (open_links es)\<^sup>*"
proof -
  let ?step = "loop_round env i es"
  have round: "exec_ok env (outcome ?step) \<and> logs es (outcome ?step) \<and> es_calls (outcome ?step) \<le> es_calls es + 9
    \<and> (\<forall>es'. ?step = Continue es' \<longrightarrow> (jobs (es_run es'), jobs (es_run es)) \<in> mult ((main_links (es_workflow es))\<inverse>)
        \<and> (\<forall>m \<in># jobs (es_run es'). \<exists>p \<in># jobs (es_run es). (p, m) \<in> (open_links es)\<^sup>*))"
    using ok
  proof (cases rule: loop_round_cases [where i = i])
    case (stop s t)
    then show ?thesis using ok logs_same [of "es\<lparr>es_status := s, es_timedOut := t\<rparr>" es] by (simp add: exec_ok_def)
  next
    case (entry e es0 st)
    let ?es = "es\<lparr>es_run := st\<rparr>" and ?n = "node_name (ed_node e)" and ?k = "es_executionIndex es"
    have w: "good_workflow (env_nodeTypes env) (es_workflow ?es)" and h: "history_ok ?k (rs_runData (es_run es))"
      and first: "es_lastExecutionTry ?es = []" and good: "good_state (es_workflow es) (es_run es)"
      using ok by (simp_all add: exec_ok_def)
    have e: "good_entry (es_workflow ?es) e" and st: "good_state (es_workflow ?es) (es_run ?es)"
      using good good_state_stack [OF good] entry by (auto simp: good_state_def)
    note r = execute_entry_ok [OF w st e refl req first]
    have calls: "2 * max_tries (ed_node e) \<le> 10" using max_tries_bounds(2) [of "ed_node e"] by simp
    have rd: "rs_runData st = rs_runData (es_run es)" and jobs: "jobs (es_run es) = add_mset ?n (jobs st)"
      using entry by (simp_all add: jobs_def)
    have same: "same_run (?es\<lparr>es_executionIndex := Suc ?k\<rparr>) (outcome ?step)"
      and stored: "stored ?k ?n (rs_runData (es_run es)) (rs_runData (es_run (outcome ?step)))"
      and good': "good_state (es_workflow es) (es_run (outcome ?step))"
      using r(1) entry rd by (simp_all add: round_ok_def)
    then have eqs: "es_workflow (outcome ?step) = es_workflow es" "es_runNodeFilter (outcome ?step) = es_runNodeFilter es"
      "es_executionIndex (outcome ?step) = Suc ?k" "es_lastExecutionTry (outcome ?step) = []"
      using first by (simp_all add: same_run_def)
    have "logs es (outcome ?step)"
      using r(2) entry rd by (intro logs_stored [OF stored _ eqs(1-3)]) (simp add: in_filter_def)
    moreover have "exec_ok env (outcome ?step)"
      using w good' history_stored [OF h stored] eqs by (simp add: exec_ok_def)
    moreover have "(jobs (es_run es'), jobs (es_run es)) \<in> mult ((main_links (es_workflow es))\<inverse>)
        \<and> (\<forall>m \<in># jobs (es_run es'). \<exists>p \<in># jobs (es_run es). (p, m) \<in> (open_links es)\<^sup>*)" if "?step = Continue es'" for es'
    proof -
      have links: "open_links ?es = open_links es" by (simp add: open_links_def in_filter_def)
      have main: "after_job (main_links (es_workflow es)) ?n (jobs st) (jobs (es_run es'))" using r(1) entry that by (simp add: round_ok_def)
      have opened: "after_job (open_links es) ?n (jobs st) (jobs (es_run es'))" using r(4) [of es'] entry(5) that unfolding links by simp
      show ?thesis unfolding jobs using stack_jobs.less_jobs [OF main] after_job_jobs [OF opened] by blast
    qed
    moreover have "es_calls (outcome ?step) \<le> es_calls es + 9" using r(3) entry calls by simp
    ultimately show ?thesis by blast
  qed
  from round show "exec_ok env (outcome ?step)" "logs es (outcome ?step)" "es_calls (outcome ?step) \<le> es_calls es + 9"
    "?step = Continue es' \<Longrightarrow> (jobs (es_run es'), jobs (es_run es)) \<in> mult ((main_links (es_workflow es))\<inverse>)"
    "?step = Continue es' \<Longrightarrow> m \<in># jobs (es_run es') \<Longrightarrow> \<exists>p \<in># jobs (es_run es). (p, m) \<in> (open_links es)\<^sup>*" by blast+
qed


section \<open>The whole loop\<close>

lemma executionLoop_keeps:
  assumes "executionLoop env i es = Some (r, es')" and "exec_ok env es" and "no_requests env"
  shows "exec_ok env es' \<and> logs es es'"
proof -
  let ?P = "\<lambda>env i es y. exec_ok env es \<longrightarrow> no_requests env \<longrightarrow> exec_ok env (snd y) \<and> logs es (snd y)"
  have "?P env i es (r, es')"
  proof (rule executionLoop.raw_induct [where P = ?P, OF _ assms(1)], goal_cases)
    case (1 loop env i es y)
    show ?case
    proof (intro impI)
      assume ok: "exec_ok env es" and req: "no_requests env"
      note round = loop_round_ok [OF ok req, of i]
      show "exec_ok env (snd y) \<and> logs es (snd y)"
      proof (cases "loop_round env i es")
        case (Continue es1)
        with 1 round(1) req have "exec_ok env (snd y) \<and> logs es1 (snd y)" by auto
        with Continue round(2) show ?thesis by (auto intro: logs_trans)
      qed (use 1(2) round in auto)
    qed
  qed
  with assms show ?thesis by simp
qed

text \<open>Why the loop ends without an exception.\<close>

definition ended :: "exec_state \<Rightarrow> bool" where
  "ended es \<longleftrightarrow> rs_nodeExecutionStack (es_run es) = [] \<or> es_status es = StatusCanceled \<or> es_waitTill es \<noteq> None \<or> es_executionError es \<noteq> None"

lemma finish_node_Break: "finish_node env ed index r d es = Break es' \<Longrightarrow> es_waitTill es' \<noteq> None \<or> es_executionError es' \<noteq> None"
proof -
  have "add_next env n outs r es \<noteq> Break es'" for n outs es by (simp add: add_next_def split: sum.split)
  then have "store_output env ed r task d es = Break es' \<Longrightarrow> es_waitTill es' \<noteq> None" for task d es
    by (auto simp: store_output_def Let_def unshift_entry_def set_run_def split: sum.splits if_splits)
  then show "finish_node env ed index r d es = Break es' \<Longrightarrow> es_waitTill es' \<noteq> None \<or> es_executionError es' \<noteq> None"
    by (fastforce simp: finish_node_def Let_def unshift_entry_def store_task_def set_run_def split: option.splits if_splits)
qed

lemma loop_round_Break: "loop_round env i es = Break es' \<Longrightarrow> ended es'"
  by (auto simp: loop_round_def execute_entry_def Let_def ended_def dest: finish_node_Break
    split: list.splits if_splits sum.splits prod.splits bool.splits)

lemma executionLoop_ends:
  assumes "exec_ok env es" and "no_requests env" and "acyclic (main_links (es_workflow es))"
  shows "\<exists>r es'. executionLoop env i es = Some (r, es') \<and> (r = None \<longrightarrow> ended es')"
proof -
  let ?less = "mult ((main_links (es_workflow es))\<inverse>)"
  have "wf ?less" by (rule wf_jobs) (rule assms(3))
  then have "\<forall>i es1. jobs (es_run es1) = M \<longrightarrow> es_workflow es1 = es_workflow es \<longrightarrow> exec_ok env es1
      \<longrightarrow> (\<exists>r es'. executionLoop env i es1 = Some (r, es') \<and> (r = None \<longrightarrow> ended es'))" for M
  proof (induction M rule: wf_induct_rule)
    case (less M)
    show ?case
    proof (intro allI impI)
      fix i es1
      assume M: "jobs (es_run es1) = M" and w: "es_workflow es1 = es_workflow es" and ok: "exec_ok env es1"
      note round = loop_round_ok [OF ok assms(2), of i]
      show "\<exists>r es'. executionLoop env i es1 = Some (r, es') \<and> (r = None \<longrightarrow> ended es')"
      proof (cases "loop_round env i es1")
        case (Continue es2)
        have "(jobs (es_run es2), M) \<in> ?less" using round(3) [OF Continue] M w by simp
        moreover have "exec_ok env es2" "es_workflow es2 = es_workflow es" using round(1,2) Continue w by (simp_all add: logs_def)
        ultimately have "\<exists>r es'. executionLoop env (Suc i) es2 = Some (r, es') \<and> (r = None \<longrightarrow> ended es')" using less by blast
        then show ?thesis using Continue by (simp add: executionLoop.simps [of env i])
      next
        case (Break es2)
        with loop_round_Break [OF Break] show ?thesis by (simp add: executionLoop.simps [of env i])
      qed (simp add: executionLoop.simps [of env i])
    qed
  qed
  with assms(1) show ?thesis by blast
qed

end
