(* ===== verification/Execution_Properties.thy ===== *)
theory Execution_Properties
  imports Execution_Loop_Correct
begin

text \<open>
  What the execution loop guarantees: executions of workflows without cycles end, every run is recorded once and in order, nodes outside of the
  filter are not run, the number of calls of a node is bounded; and where the loop does not do what its settings say.
\<close>

section \<open>The run of a workflow\<close>

lemma move_metadata_runs: "or_empty (map_get (move_metadata n x rd) m) = [] \<longleftrightarrow> or_empty (map_get rd m) = []"
  by (cases x) (auto simp: move_metadata_def js_obj.get_put split: option.splits)

lemma moveNodeMetadata_kept:
  "runs_of (moveNodeMetadata es) m = [] \<longleftrightarrow> runs_of es m = []"
  "rs_nodeExecutionStack (es_run (moveNodeMetadata es)) = rs_nodeExecutionStack (es_run es)"
proof -
  have inner: "or_empty (map_get (fold (move_metadata n) xs rd) m) = [] \<longleftrightarrow> or_empty (map_get rd m) = []" for n xs rd
    by (induction xs arbitrary: rd) (simp_all add: move_metadata_runs)
  have "or_empty (map_get (fold (\<lambda>(n, ms). fold (move_metadata n) (enumerate 0 ms)) ys rd) m) = [] \<longleftrightarrow> or_empty (map_get rd m) = []" for ys rd
    by (induction ys arbitrary: rd) (simp_all add: inner case_prod_beta)
  then show "runs_of (moveNodeMetadata es) m = [] \<longleftrightarrow> runs_of es m = []" by (simp add: moveNodeMetadata_def runs_of_def)
qed (simp add: moveNodeMetadata_def)

lemma finish_run_state:
  "runs_of (run_state_of (finish_run env r es)) m = [] \<longleftrightarrow> runs_of es m = []"
  "rs_nodeExecutionStack (es_run (run_state_of (finish_run env r es))) = rs_nodeExecutionStack (es_run es)"
proof -
  obtain s where s: "run_state_of (finish_run env r es) = moveNodeMetadata (es\<lparr>es_status := s\<rparr>)"
  proof (cases r)
    case None
    with that show thesis by (auto simp: finish_run_def processSuccessExecution_def Let_def)
  next
    case (Some e)
    with that [of "es_status es"] show thesis by (simp add: finish_run_def)
  qed
  then show "runs_of (run_state_of (finish_run env r es)) m = [] \<longleftrightarrow> runs_of es m = []"
    "rs_nodeExecutionStack (es_run (run_state_of (finish_run env r es))) = rs_nodeExecutionStack (es_run es)"
    by (simp_all add: moveNodeMetadata_kept) (simp add: runs_of_def)
qed

lemma finish_run_finished:
  assumes "run_finished (finish_run env r es)" and "r = None \<Longrightarrow> ended es"
  shows "rs_nodeExecutionStack (es_run es) = []"
  using assms by (auto simp: finish_run_def processSuccessExecution_def Let_def ended_def moveNodeMetadata_def set_run_def
    split: option.splits if_splits)

text \<open>The state that a run starts with.\<close>

definition start_state ::
  "Workflow \<Rightarrow> INode \<Rightarrow> IDestinationNode option \<Rightarrow> IPinData option \<Rightarrow> string list option \<Rightarrow> nat \<Rightarrow> exec_state" where
  "start_state w node destinationNode pinData additionalRunFilterNodes k = createRunExecutionData w
     \<lparr>rs_runData = [], rs_nodeExecutionStack = [\<lparr>ed_node = node, ed_data = [(Main, [Cell [empty_item]])],
        ed_source = None, ed_runIndex = None, ed_metadata = None\<rparr>], rs_waitingExecution = [], rs_waitingExecutionSource = Some []\<rparr>
     pinData destinationNode (map_option (\<lambda>d. runNodeFilter_of w d additionalRunFilterNodes) destinationNode) k"

lemma start_state_ok:
  assumes "good_workflow (env_nodeTypes env) w" and "obj_get (wf_nodes w) (node_name node) \<noteq> None"
  shows "exec_ok env (start_state w node dest pin extra k)"
  using assms by (simp add: exec_ok_def start_state_def createRunExecutionData_def good_state_def good_entry_def waiting_inv_def entry_at_def
      no_null_outputs_def history_ok_def task_indexes_def)

lemma run_workflow_start:
  "run_workflow env w (Some node) dest pin None extra k =
     bind_res (checkForWorkflowIssues env (start_state w node dest pin extra k))
       (\<lambda>_. Inr (map_option (\<lambda>(thrown, es'). finish_run env thrown es') (executionLoop env 0 (start_state w node dest pin extra k))))"
  by (simp add: run_workflow_def processRunExecutionData_def start_state_def createRunExecutionData_def handleWaitingState_def Let_def)

lemma run_workflow_spec:
  assumes "good_workflow (env_nodeTypes env) w" and "acyclic (main_links w)" and "no_requests env"
    and "obj_get (wf_nodes w) (node_name node) \<noteq> None"
  shows "(\<exists>issues. run_workflow env w (Some node) dest pin None extra k = Inl (WorkflowHasIssuesError issues))
    \<or> (\<exists>run. run_workflow env w (Some node) dest pin None extra k = Inr (Some run)
        \<and> (run_finished run \<longrightarrow> rs_nodeExecutionStack (es_run (run_state_of run)) = [])
        \<and> (\<forall>d n. dest = Some d \<longrightarrow> runs_of (run_state_of run) n \<noteq> [] \<longrightarrow> n \<in> set (runNodeFilter_of w d extra)))"
proof (cases "checkForWorkflowIssues env (start_state w node dest pin extra k)")
  case (Inl e)
  then have "\<exists>issues. e = WorkflowHasIssuesError issues" by (auto simp: checkForWorkflowIssues_def split: option.splits)
  with Inl show ?thesis by (auto simp: run_workflow_start)
next
  case (Inr u)
  let ?es = "start_state w node dest pin extra k"
  have ok: "exec_ok env ?es" by (rule start_state_ok) (rule assms)+
  have start: "es_workflow ?es = w" "runs_of ?es n = []" "dest = Some d \<Longrightarrow> in_filter ?es n \<longleftrightarrow> n \<in> set (runNodeFilter_of w d extra)" for n d
    by (simp_all add: start_state_def createRunExecutionData_def runs_of_def in_filter_def)
  from executionLoop_ends [OF ok assms(3)] assms(2) start(1) obtain r es' where
    loop: "executionLoop env 0 ?es = Some (r, es')" "r = None \<longrightarrow> ended es'" by metis
  have logs: "logs ?es es'" using executionLoop_keeps [OF loop(1) ok assms(3)] by blast
  have "in_filter ?es n" if "runs_of es' n \<noteq> []" for n
  proof -
    from logs obtain tasks where "runs_of es' n = runs_of ?es n @ tasks" "tasks \<noteq> [] \<longrightarrow> in_filter ?es n" unfolding logs_def by blast
    with that start(2) show ?thesis by simp
  qed
  moreover have "run_workflow env w (Some node) dest pin None extra k = Inr (Some (finish_run env r es'))"
    using Inr loop(1) by (simp add: run_workflow_start)
  ultimately show ?thesis
    using finish_run_state [of env r es'] finish_run_finished [of env r es'] loop(2) start(3) by auto
qed

lemma loop_round_calls:
  assumes "exec_ok env es" and "no_requests env" and "rs_nodeExecutionStack (es_run es) = entry # entries"
  shows "es_calls (outcome (loop_round env i es)) < es_calls es + 2 * max_tries (ed_node entry)"
  using assms(1)
proof (cases rule: loop_round_cases [where i = i])
  case (stop s t)
  then show ?thesis using max_tries_bounds(1) [of "ed_node entry"] by simp
next
  case (entry e entries' st)
  let ?es = "es\<lparr>es_run := st\<rparr>"
  have good: "good_state (es_workflow es) (es_run es)" and e: "e = entry" using assms(1,3) entry by (simp_all add: exec_ok_def)
  have st: "good_entry (es_workflow ?es) entry" "good_state (es_workflow ?es) (es_run ?es)"
    using good good_state_stack [OF good] entry e by (auto simp: good_state_def)
  have "es_calls (outcome (execute_entry env entry ?es)) < es_calls ?es + 2 * max_tries (ed_node entry)"
    using assms(1) by (intro execute_entry_ok(3) [OF _ st(2,1) refl assms(2)]) (simp_all add: exec_ok_def)
  with entry e show ?thesis by simp
qed

section \<open>The error output\<close>

lemma split_errors_spec:
  assumes "split_errors gp ed items = Inr (success, errors)"
  shows "success = filter (\<lambda>x. error_item x = Inr False) items"
    and "list_all2 (\<lambda>x y. enrich_error_item gp ed x = Inr y) (filter (\<lambda>x. error_item x = Inr True) items) errors"
proof -
  have "success = filter (\<lambda>x. error_item x = Inr False) items
    \<and> list_all2 (\<lambda>x y. enrich_error_item gp ed x = Inr y) (filter (\<lambda>x. error_item x = Inr True) items) errors"
    using assms
  proof (induction items arbitrary: success errors)
    case (Cons item items)
    then obtain b where b: "error_item item = Inr b" by (auto simp: bind_res_eq_Inr)
    with Cons show ?case by (cases b) (auto simp: bind_res_eq_Inr)
  qed simp
  then show "success = filter (\<lambda>x. error_item x = Inr False) items"
    "list_all2 (\<lambda>x y. enrich_error_item gp ed x = Inr y) (filter (\<lambda>x. error_item x = Inr True) items) errors" by blast+
qed

text \<open>The items of an output.\<close>

definition output_items :: "INodeExecutionData list cell list \<Rightarrow> nat \<Rightarrow> INodeExecutionData list" where
  "output_items outputs i = or_empty (cell_option (cell_get outputs i))"

lemma split_outputs_spec:
  assumes "fold_res (split_output gp ed) [0..<k] (outputs, []) = Inr (outs, errs)"
  shows "(\<forall>i<k. cell_get outs i = Cell (filter (\<lambda>x. error_item x = Inr False) (output_items outputs i)))
    \<and> (\<forall>i\<ge>k. cell_get outs i = cell_get outputs i)
    \<and> list_all2 (\<lambda>x y. enrich_error_item gp ed x = Inr y)
        (concat (map (\<lambda>i. filter (\<lambda>x. error_item x = Inr True) (output_items outputs i)) [0..<k])) errs"
  using assms
proof (induction k arbitrary: outs errs)
  case (Suc k)
  then obtain outs0 errs0 where 0: "fold_res (split_output gp ed) [0..<k] (outputs, []) = Inr (outs0, errs0)"
    "split_output gp ed k (outs0, errs0) = Inr (outs, errs)"
    by (auto simp: fold_res_append bind_res_eq_Inr)
  note IH = Suc.IH [OF 0(1)]
  from 0(2) obtain success errors where split: "split_errors gp ed (output_items outs0 k) = Inr (success, errors)"
    "outs = cell_set k (Cell success) outs0" "errs = errs0 @ errors"
    by (auto simp: split_output_def bind_res_eq_Inr output_items_def)
  have items: "output_items outs0 k = output_items outputs k" using IH by (simp add: output_items_def)
  note s = split_errors_spec [OF split(1), unfolded items]
  from IH s split(2,3) show ?case by (auto simp: less_Suc_eq intro: list_all2_appendI)
qed simp

text \<open>The number of main outputs of a node, without the one for errors.\<close>

definition regular_outputs :: "(INode \<Rightarrow> string \<Rightarrow> node_output list) \<Rightarrow> INode \<Rightarrow> INodeType \<Rightarrow> nat" where
  "regular_outputs ev node nodeType = length (filter (\<lambda>t. t = Main) (getConnectionTypes
     (case nt_outputs nodeType of StaticOutputs outputs \<Rightarrow> outputs | OutputsExpression e \<Rightarrow> ev node e)))"

lemma error_outputs_count:
  assumes "node_onError node = Some ''continueErrorOutput''"
  shows "length (filter (\<lambda>t. t = Main) (getConnectionTypes (getNodeOutputs ev node nodeType))) = Suc (regular_outputs ev node nodeType)"
  using assms by (auto simp: regular_outputs_def getNodeOutputs_def getConnectionTypes_def Let_def
    split: list.splits node_output.splits node_outputs.splits)

lemma handleNodeErrorOutput_spec:
  assumes "nodeTypes (node_type (ed_node ed)) (node_typeVersion (ed_node ed)) = Some nodeType"
    and "node_onError (ed_node ed) = Some ''continueErrorOutput''" and k: "k = regular_outputs ev (ed_node ed) nodeType"
    and "handleNodeErrorOutput nodeTypes ev gp ed outputs = Inr outs"
  shows "(\<forall>i<k. cell_get outs i = Cell (filter (\<lambda>x. error_item x = Inr False) (output_items outputs i)))
    \<and> (\<exists>errs. cell_get outs k = Cell errs \<and> list_all2 (\<lambda>x y. enrich_error_item gp ed x = Inr y)
        (concat (map (\<lambda>i. filter (\<lambda>x. error_item x = Inr True) (output_items outputs i)) [0..<k])) errs)
    \<and> (\<forall>i>k. cell_get outs i = cell_get outputs i)"
proof -
  let ?types = "filter (\<lambda>t. t = Main) (getConnectionTypes (getNodeOutputs ev (ed_node ed) nodeType))"
  have n: "length ?types = Suc k" unfolding k by (rule error_outputs_count) (rule assms)
  then have "?types \<noteq> []" by fastforce
  with assms(1,4) n obtain outs0 errs where o: "fold_res (split_output gp ed) [0..<k] (outputs, []) = Inr (outs0, errs)"
    "outs = cell_set k (Cell errs) outs0"
    by (auto simp: handleNodeErrorOutput_def Let_def bind_res_eq_Inr)
  from split_outputs_spec [OF o(1)] o(2) show ?thesis by auto
qed

section \<open>Properties\<close>

text \<open>
  C1. The execution loop ends on every workflow without cycles of main connections, in execution order \<^verbatim>\<open>v1\<close>, whatever the nodes
  return or throw and whenever the execution is canceled, as long as no node makes a request to the engine: the jobs on the stack and in the waiting
  entries become smaller in every round. Without an exception, the loop ends because the stack is empty, the
  execution is canceled or waits, or a node failed.
\<close>

theorem executionLoop_terminates:
  assumes "exec_ok env es" and "no_requests env" and "acyclic (main_links (es_workflow es))"
  shows "\<exists>r es'. executionLoop env i es = Some (r, es') \<and> (r = None \<longrightarrow> ended es')"
  using assms by (rule executionLoop_ends)

text \<open>
  C2. A run from a start node of a workflow with execution order \<^verbatim>\<open>v1\<close> and without cycles of main connections ends, as long as no node makes a request
  to the engine (a node that keeps asking could go on for ever): either the workflow has issues and no node is run, or there is a result. When
  the result is marked as finished, no entry is left on the stack. With a destination, only nodes that lead to it, the
  destination when it is included, and the nodes added to the filter have run data.
\<close>

theorem run_workflow_result:
  assumes "good_workflow (env_nodeTypes env) w" and "acyclic (main_links w)" and "no_requests env"
    and "obj_get (wf_nodes w) (node_name node) \<noteq> None"
  shows "(\<exists>issues. run_workflow env w (Some node) dest pin None extra k = Inl (WorkflowHasIssuesError issues))
    \<or> (\<exists>run. run_workflow env w (Some node) dest pin None extra k = Inr (Some run)
        \<and> (run_finished run \<longrightarrow> rs_nodeExecutionStack (es_run (run_state_of run)) = [])
        \<and> (\<forall>d n. dest = Some d \<longrightarrow> runs_of (run_state_of run) n \<noteq> [] \<longrightarrow> n \<in> set (runNodeFilter_of w d extra)))"
  using assms by (rule run_workflow_spec)

text \<open>
  C3. In a workflow with execution order \<^verbatim>\<open>v1\<close> in which no node makes a request to the engine (such requests prepare runs with execution index 0
  that are filled in later), the state between rounds stays well formed: waiting entries match their sources, entries of the stack have a known
  node and main inputs, no stored output is \<^verbatim>\<open>null\<close>, and no two runs have the same execution index. The run data only
  grows: the loop appends runs, of nodes that the filter allows, with new and increasing execution indexes. This holds for workflows
  with cycles, too, and however the loop ends.
\<close>

theorem executionLoop_history:
  assumes "executionLoop env i es = Some (r, es')" and "exec_ok env es" and "no_requests env"
  shows "exec_ok env es' \<and> logs es es'"
  using assms by (rule executionLoop_keeps)

text \<open>
  C11. In a workflow with execution order \<^verbatim>\<open>v1\<close> in which no node makes a request to the engine, in one round of the loop on a well-formed
  state the code of the node is called at most \<open>2 * maxTries - 1\<close> times, where \<open>maxTries\<close> is 1 without \<^verbatim>\<open>retryOnFail\<close> and between 2 and 5 with it: at
  most 9 times.
\<close>

theorem round_calls_bounded:
  assumes "exec_ok env es" and "no_requests env" and "rs_nodeExecutionStack (es_run es) = entry # entries"
  shows "es_calls (outcome (loop_round env i es)) < es_calls es + 2 * max_tries (ed_node entry) \<and> max_tries (ed_node entry) \<le> 5
    \<and> (node_retryOnFail (ed_node entry) \<noteq> Some True \<longrightarrow> es_calls (outcome (loop_round env i es)) \<le> es_calls es + 1)"
  using loop_round_calls [OF assms, of i] max_tries_bounds [of "ed_node entry"] by auto

text \<open>
  C12. With \<^verbatim>\<open>continueErrorOutput\<close>, the items of the regular main outputs that report no error stay where they are, in their order; all
  others come to the error output, the last main output, in the order of the outputs, with the data of the input items they come from;
  outputs after it are not changed.
\<close>

theorem handleNodeErrorOutput_correct:
  assumes "nodeTypes (node_type (ed_node ed)) (node_typeVersion (ed_node ed)) = Some nodeType"
    and "node_onError (ed_node ed) = Some ''continueErrorOutput''" and "k = regular_outputs ev (ed_node ed) nodeType"
    and "handleNodeErrorOutput nodeTypes ev gp ed outputs = Inr outs"
  shows "(\<forall>i<k. cell_get outs i = Cell (filter (\<lambda>x. error_item x = Inr False) (output_items outputs i)))
    \<and> (\<exists>errs. cell_get outs k = Cell errs \<and> list_all2 (\<lambda>x y. enrich_error_item gp ed x = Inr y)
        (concat (map (\<lambda>i. filter (\<lambda>x. error_item x = Inr True) (output_items outputs i)) [0..<k])) errs)
    \<and> (\<forall>i>k. cell_get outs i = cell_get outputs i)"
  using assms by (rule handleNodeErrorOutput_spec)

section \<open>Examples\<close>

text \<open>Nodes that return one item; \<open>f\<close> is what the nodes do instead.\<close>

definition ex_answer :: "node_result \<Rightarrow> node_answer" where
  "ex_answer result = \<lparr>ans_result = result, ans_waitTill = None\<rparr>"

definition ex_env :: "(nat \<Rightarrow> string \<Rightarrow> node_result option) \<Rightarrow> engine_env" where
  "ex_env f = \<lparr>env_nodeTypes = ex_merge_types, env_manual = False,
     env_answer = (\<lambda>k node _ _. ex_answer (case f k (node_name node) of Some r \<Rightarrow> r | None \<Rightarrow> Response (Cell [Cell [ex_item k]]))),
     env_evalInputs = (\<lambda>_ _. None), env_evalOutputs = (\<lambda>_ _. []), env_getPairedItem = (\<lambda>_ _ _. Inr None),
     env_error = (\<lambda>_. \<lparr>err_name = ''Error'', err_message = []\<rparr>), env_interrupt = (\<lambda>_. NoInterrupt), env_issues = (\<lambda>_ _ _. None)\<rparr>"

definition ex_result :: "Workflow \<Rightarrow> (nat \<Rightarrow> string \<Rightarrow> node_result option) \<Rightarrow> IRun option" where
  "ex_result w f = (case run_workflow (ex_env f) w (Some (ex_node 2 ''c'')) None None None None 0 of Inl _ \<Rightarrow> None | Inr run \<Rightarrow> run)"

text \<open>The nodes that a run has executed.\<close>

definition executed :: "IRun \<Rightarrow> string list" where
  "executed run = keys_of (rs_runData (es_run (run_state_of run)))"

abbreviation ex_start :: exec_state where
  "ex_start \<equiv> start_state ex_join (ex_node 2 ''c'') None None None 0"

lemma ex_env_ok: "no_requests (ex_env (\<lambda>_ _. None))"
  by (simp add: no_requests_def ex_env_def ex_answer_def)

lemma ex_join_good: "good_workflow (env_nodeTypes (ex_env f)) ex_join"
proof -
  have targets: "t \<in> set (main_targets_of ex_join p) \<Longrightarrow> p \<in> {''a'', ''b'', ''c''}" for p t
    by (rule ccontr) (simp add: main_targets_of_def ex_join_def setConnections_def)
  have "\<forall>p \<in> {''a'', ''b'', ''c''}. \<forall>t \<in> set (main_targets_of ex_join p). obj_get (wf_nodes ex_join) (con_node (snd t)) \<noteq> None"
    by code_simp
  moreover have "\<forall>(m, node) \<in> set (wf_nodes ex_join). node_name node = m" by code_simp
  ultimately show ?thesis
    using ex_join_ok(1,2) targets map_of_SomeD [of "wf_nodes ex_join"]
    unfolding good_workflow_def by (fastforce simp: ex_env_def ex_merge_types_def)
qed

lemma ex_join_acyclic: "acyclic (main_links ex_join)"
proof -
  let ?rank = "\<lambda>n. if n = ''c'' then 0 else if n = ''m'' then 2 else (1::nat)"
  have "main_links ex_join \<subseteq> measure ?rank"
    by (auto simp: main_links_def main_targets_of_def ex_join_def setConnections_def ex_target_def split: if_splits)
  then show ?thesis by (rule acyclic_subset [OF wf_acyclic [OF wf_measure]])
qed

lemma ex_start_ok: "exec_ok (ex_env (\<lambda>_ _. None)) ex_start"
proof (rule start_state_ok)
  show "good_workflow (env_nodeTypes (ex_env (\<lambda>_ _. None))) ex_join" by (rule ex_join_good)
  show "obj_get (wf_nodes ex_join) (node_name (ex_node 2 ''c'')) \<noteq> None" by code_simp
qed

lemma ex_start_workflow: "es_workflow ex_start = ex_join"
  by (simp add: start_state_def createRunExecutionData_def)

theorem executionLoop_terminates_witness:
  "\<exists>r es'. executionLoop (ex_env (\<lambda>_ _. None)) 0 ex_start = Some (r, es') \<and> (r = None \<longrightarrow> ended es')"
  using executionLoop_terminates [OF ex_start_ok ex_env_ok] ex_join_acyclic by (simp add: ex_start_workflow)

definition ex_dest :: IDestinationNode where
  "ex_dest = \<lparr>dn_nodeName = ''b'', dn_mode = Inclusive\<rparr>"

theorem run_workflow_result_witness:
  "\<exists>run. run_workflow (ex_env (\<lambda>_ _. None)) ex_join (Some (ex_node 2 ''c'')) (Some ex_dest) None None None 0 = Inr (Some run)
     \<and> executed run = [''c'', ''b''] \<and> rs_nodeExecutionStack (es_run (run_state_of run)) = []
     \<and> (\<forall>n. runs_of (run_state_of run) n \<noteq> [] \<longrightarrow> n \<in> {''b'', ''c''})"
proof -
  let ?out = "run_workflow (ex_env (\<lambda>_ _. None)) ex_join (Some (ex_node 2 ''c'')) (Some ex_dest) None None None 0"
  have c: "obj_get (wf_nodes ex_join) (node_name (ex_node 2 ''c'')) \<noteq> None" by code_simp
  have run: "case ?out of Inr (Some run) \<Rightarrow> run_finished run \<and> executed run = [''c'', ''b''] | _ \<Rightarrow> False" by code_simp
  have filt: "set (runNodeFilter_of ex_join ex_dest None) \<subseteq> {''b'', ''c''}" by code_simp
  from run_workflow_result [OF ex_join_good ex_join_acyclic ex_env_ok c, of "Some ex_dest" None None 0] run
  obtain r where "?out = Inr (Some r)" "run_finished r \<longrightarrow> rs_nodeExecutionStack (es_run (run_state_of r)) = []"
    "\<forall>n. runs_of (run_state_of r) n \<noteq> [] \<longrightarrow> n \<in> set (runNodeFilter_of ex_join ex_dest None)" by auto
  with run filt show ?thesis by auto
qed

theorem executionLoop_history_witness:
  "\<exists>r es'. executionLoop (ex_env (\<lambda>_ _. None)) 0 ex_start = Some (r, es') \<and> exec_ok (ex_env (\<lambda>_ _. None)) es' \<and> logs ex_start es'
     \<and> map (\<lambda>(n, runs). (n, map td_executionIndex runs)) (rs_runData (es_run es'))
         = [(''c'', [Some 0]), (''b'', [Some 1]), (''a'', [Some 2]), (''m'', [Some 3])]"
proof -
  have "case executionLoop (ex_env (\<lambda>_ _. None)) 0 ex_start of None \<Rightarrow> False
    | Some (r, es') \<Rightarrow> map (\<lambda>(n, runs). (n, map td_executionIndex runs)) (rs_runData (es_run es'))
         = [(''c'', [Some 0]), (''b'', [Some 1]), (''a'', [Some 2]), (''m'', [Some 3])]" by code_simp
  then obtain r es' where loop: "executionLoop (ex_env (\<lambda>_ _. None)) 0 ex_start = Some (r, es')"
    and runs: "map (\<lambda>(n, runs). (n, map td_executionIndex runs)) (rs_runData (es_run es'))
         = [(''c'', [Some 0]), (''b'', [Some 1]), (''a'', [Some 2]), (''m'', [Some 3])]"
    by (auto split: option.splits)
  from executionLoop_history [OF loop ex_start_ok ex_env_ok] loop runs show ?thesis by (intro exI [of _ r] exI [of _ es']) simp
qed

theorem round_calls_bounded_witness:
  "es_calls (outcome (loop_round (ex_env (\<lambda>_ _. None)) 0 ex_start)) \<le> 1"
proof -
  obtain entry entries where e: "rs_nodeExecutionStack (es_run ex_start) = entry # entries" "ed_node entry = ex_node 2 ''c''"
    by (simp add: start_state_def createRunExecutionData_def)
  have "node_retryOnFail (ex_node 2 ''c'') \<noteq> Some True" "es_calls ex_start = 0" by code_simp+
  with round_calls_bounded [OF ex_start_ok ex_env_ok e(1), of 0] e(2) show ?thesis by simp
qed

text \<open>An output with an error between two results, and a node type with one output.\<close>

definition ex_failed_item :: INodeExecutionData where
  "ex_failed_item = [(''json'', JObj [(''error'', JStr ''failed'')])]"

definition ex_split :: IExecuteData where
  "ex_split = \<lparr>ed_node = (ex_node 2 ''c'')\<lparr>node_onError := Some ''continueErrorOutput''\<rparr>, ed_data = [(Main, [Cell [ex_item 0]])],
     ed_source = None, ed_runIndex = None, ed_metadata = None\<rparr>"

theorem handleNodeErrorOutput_correct_witness:
  "\<exists>outs. handleNodeErrorOutput ex_merge_types (\<lambda>_ _. []) (\<lambda>_ _ _. Inr None) ex_split [Cell [ex_item 1, ex_failed_item, ex_item 2]] = Inr outs
     \<and> cell_get outs 0 = Cell [ex_item 1, ex_item 2] \<and> cell_get outs 1 = Cell [ex_failed_item]"
proof -
  let ?outputs = "[Cell [ex_item 1, ex_failed_item, ex_item 2]]"
  obtain nodeType where t: "ex_merge_types (node_type (ed_node ex_split)) (node_typeVersion (ed_node ex_split)) = Some nodeType"
    "nt_outputs nodeType = StaticOutputs [OutputType Main]"
    by (simp add: ex_merge_types_def)
  have k: "1 = regular_outputs (\<lambda>_ _. []) (ed_node ex_split) nodeType"
    by (simp add: regular_outputs_def t(2) getConnectionTypes_def)
  have on: "node_onError (ed_node ex_split) = Some ''continueErrorOutput''" by (simp add: ex_split_def)
  have "case handleNodeErrorOutput ex_merge_types (\<lambda>_ _. []) (\<lambda>_ _ _. Inr None) ex_split ?outputs of Inl _ \<Rightarrow> False
    | Inr outs \<Rightarrow> cell_get outs 1 = Cell [ex_failed_item]" by code_simp
  then obtain outs where o: "handleNodeErrorOutput ex_merge_types (\<lambda>_ _. []) (\<lambda>_ _ _. Inr None) ex_split ?outputs = Inr outs"
    "cell_get outs 1 = Cell [ex_failed_item]" by (auto split: sum.splits)
  have "filter (\<lambda>x. error_item x = Inr False) (output_items ?outputs 0) = [ex_item 1, ex_item 2]" by code_simp
  with handleNodeErrorOutput_correct [OF t(1) on k o(1)] o show ?thesis by auto
qed

section \<open>Where the loop departs from its settings\<close>

text \<open>
  A node that ends its branch: the filter does not allow it, or its code is called, returns \<^verbatim>\<open>null\<close> and does not ask to wait; it
  is enabled, without pinned data and without the setting \<^verbatim>\<open>alwaysOutputData\<close>.
\<close>

definition ends_branch :: "engine_env \<Rightarrow> exec_state \<Rightarrow> INode \<Rightarrow> bool" where
  "ends_branch env es node \<longleftrightarrow> \<not> in_filter es (node_name node)
     \<or> node_disabled node \<noteq> Some True \<and> pinned_items es node = None \<and> node_alwaysOutputData node \<noteq> Some True
       \<and> (\<exists>nodeType. env_nodeTypes env (node_type node) (node_typeVersion node) = Some nodeType \<and> nt_execute nodeType)
       \<and> rethrowLastNodeError es node = None
       \<and> (\<forall>k inputs resp. env_answer env k node inputs resp = \<lparr>ans_result = Response Null, ans_waitTill = None\<rparr>)"

lemma runNode_null:
  assumes "ends_branch env es (ed_node ed)" and "in_filter es (node_name (ed_node ed))" and "runNode env ed resp es = (r, es')"
  shows "r \<in> {Response Null, Response Hole} \<and> (\<exists>k. es' = es\<lparr>es_calls := k\<rparr>)"
proof -
  from assms(1,2) obtain nodeType where "env_nodeTypes env (node_type (ed_node ed)) (node_typeVersion (ed_node ed)) = Some nodeType" "nt_execute nodeType"
    by (auto simp: ends_branch_def)
  moreover have "call_node env (ed_node ed) inputs resp es = (Response Null, es\<lparr>es_calls := Suc (es_calls es)\<rparr>)" for inputs
    using assms(1,2) by (simp add: ends_branch_def call_node_def Let_def)
  ultimately show ?thesis using assms
    by (auto simp: runNode_def Let_def ends_branch_def split: if_splits intro: exI [of _ "es_calls es"])
qed

lemma run_tries_null:
  assumes "ends_branch env es (ed_node ed)" and "in_filter es (node_name (ed_node ed))" and "0 < maxTries" and "es_waitTill es = None"
    and "run_tries env ed runIndex maxTries 0 Null resp es = (b, d, es')"
  shows "b \<and> (\<exists>k. es' = es\<lparr>es_calls := k\<rparr>)"
proof -
  let ?resp = "Some (sub_node_results ed (rs_runData (es_run es)) resp)"
  obtain r es1 where run: "runNode env ed ?resp es = (r, es1)" by fastforce
  from runNode_null [OF assms(1,2) run] obtain k where r: "r \<in> {Response Null, Response Hole}" and k: "es1 = es\<lparr>es_calls := k\<rparr>" by blast
  have "pinned_items es (ed_node ed) = None" "node_alwaysOutputData (ed_node ed) \<noteq> Some True"
    using assms(1,2) by (auto simp: ends_branch_def)
  then have "try_node env ed runIndex maxTries 0 Null resp es = (EndBranch, Null, 0, the ?resp, es1)"
    using run r assms(4) k
    by (auto simp: try_node_def Let_def retry_failed.simps [of env ed maxTries 0] checkFailure_def first_item_def complete_attempt_def
      assignPairedItems_def alwaysOutput_def)
  then show ?thesis using assms(3,5) k by (auto simp: run_tries.simps [of env ed runIndex maxTries 0])
qed

text \<open>
  C14. Nodes that wait for inputs can be left behind. When the last entry on the stack belongs to a node that ends its branch (the filter does
  not allow it, or it returns \<^verbatim>\<open>null\<close>), in a workflow with execution order \<^verbatim>\<open>v1\<close> and without cancellation, the round is left before
  waiting nodes are released: the loop ends at once, no waiting entry is used, no run is added, and the execution is finished with status
  success. The witness is a node with data of one branch that needs only one input: it is released when the other branch ends first
  (the state that \<^verbatim>\<open>releaseWaiting\<close> gets then), and stays when the other branch ends last.
\<close>

theorem ended_branch_strands_node:
  assumes "exec_ok env es" and "rs_nodeExecutionStack (es_run es) = [entry]" and "ends_branch env es (ed_node entry)"
    and "env_interrupt env i = NoInterrupt" and "env_interrupt env (Suc i) = NoInterrupt"
    and "es_status es \<noteq> StatusCanceled" and "es_waitTill es = None"
  shows "\<exists>es'. executionLoop env i es = Some (None, es') \<and> rs_nodeExecutionStack (es_run es') = []
    \<and> rs_waitingExecution (es_run es') = rs_waitingExecution (es_run es) \<and> rs_runData (es_run es') = rs_runData (es_run es)
    \<and> run_finished (finish_run env None es') \<and> run_status (finish_run env None es') = StatusSuccess"
proof -
  let ?st = "(es_run es)\<lparr>rs_nodeExecutionStack := []\<rparr>" and ?n = "node_name (ed_node entry)"
  let ?es = "es\<lparr>es_run := ?st\<rparr>"
  have round: "loop_round env i es = execute_entry env entry ?es"
    using assms(2,4,6) by (simp add: loop_round_def set_run_def)
  have ok: "good_workflow (env_nodeTypes env) (es_workflow ?es)" "good_entry (es_workflow ?es) entry" "es_lastExecutionTry ?es = []"
    using assms(1,2) by (simp_all add: exec_ok_def good_state_def)
  have filt: "in_filter ?es m = in_filter es m" for m by (simp add: in_filter_def)
  have "\<exists>k c. execute_entry env entry ?es = Continue (?es\<lparr>es_executionIndex := k, es_executionError := None, es_calls := c\<rparr>)"
  proof (cases rule: execute_entry_cases [OF ok refl])
    case 1
    then show ?thesis by (intro exI [of _ "Suc (es_executionIndex es)"] exI [of _ "es_calls es"]) simp
  next
    case (2 ed b d es1)
    let ?es0 = "?es\<lparr>es_executionIndex := Suc (es_executionIndex ?es), es_executionError := None\<rparr>"
    have "ends_branch env ?es0 (ed_node ed)" "in_filter ?es0 (node_name (ed_node ed))"
      using assms(3) 2(1,3) by (auto simp: ends_branch_def in_filter_def pinned_items_def rethrowLastNodeError_def split: if_splits)
    from run_tries_null [OF this max_tries_bounds(1) _ 2(4)] assms(7) obtain k where "b" "es1 = ?es0\<lparr>es_calls := k\<rparr>" by auto
    with 2(5) show ?thesis by (intro exI [of _ "Suc (es_executionIndex es)"] exI [of _ k]) simp
  qed
  then obtain k c where step: "loop_round env i es = Continue (?es\<lparr>es_executionIndex := k, es_executionError := None, es_calls := c\<rparr>)"
    using round by auto
  let ?es' = "?es\<lparr>es_executionIndex := k, es_executionError := None, es_calls := c\<rparr>"
  have "loop_round env (Suc i) ?es' = Break ?es'" using assms(5) by (simp add: loop_round_def)
  then have "executionLoop env i es = Some (None, ?es')" using step by (simp add: executionLoop.simps [of env i] executionLoop.simps [of env "Suc i"])
  moreover have "run_finished (finish_run env None ?es') \<and> run_status (finish_run env None ?es') = StatusSuccess"
    using assms(6,7) by (simp add: finish_run_def processSuccessExecution_def Let_def final_status_def moveNodeMetadata_def set_run_def)
  ultimately show ?thesis by (intro exI [of _ ?es']) simp
qed

text \<open>The node \<^verbatim>\<open>a\<close>, which runs after \<^verbatim>\<open>b\<close>, returns \<^verbatim>\<open>null\<close>: the state after two rounds.\<close>

definition ex_null_env :: engine_env where
  "ex_null_env = ex_env (\<lambda>_ n. if n = ''a'' then Some (Response Null) else None)"

definition ex_last :: exec_state where
  "ex_last = outcome (loop_round ex_null_env 1 (outcome (loop_round ex_null_env 0 ex_start)))"

lemma ex_last_ok: "exec_ok ex_null_env ex_last"
proof -
  have req: "no_requests ex_null_env" by (simp add: no_requests_def ex_null_env_def ex_env_def ex_answer_def)
  have "exec_ok ex_null_env ex_start" unfolding ex_null_env_def
  proof (rule start_state_ok)
    show "obj_get (wf_nodes ex_join) (node_name (ex_node 2 ''c'')) \<noteq> None" by code_simp
  qed (rule ex_join_good)
  from loop_round_ok(1) [OF this req, of 0] have "exec_ok ex_null_env (outcome (loop_round ex_null_env 0 ex_start))" .
  from loop_round_ok(1) [OF this req, of 1] show ?thesis by (simp only: ex_last_def)
qed

theorem ended_branch_strands_node_witness:
  "\<exists>es'. executionLoop ex_null_env 2 ex_last = Some (None, es') \<and> rs_nodeExecutionStack (es_run es') = []
     \<and> keys_of (rs_waitingExecution (es_run es')) = [''m''] \<and> keys_of (rs_runData (es_run es')) = [''c'', ''b'']
     \<and> run_status (finish_run ex_null_env None es') = StatusSuccess
     \<and> (case releaseWaiting ex_merge_types (\<lambda>_ _. None) ex_join ((es_run ex_last)\<lparr>rs_nodeExecutionStack := []\<rparr>) of
          Inr st \<Rightarrow> map (node_name \<circ> ed_node) (rs_nodeExecutionStack st) = [''m''] | Inl _ \<Rightarrow> False)"
proof -
  let ?a = "(ex_node 0 ''a'')\<lparr>node_position := (0, 5)\<rparr>"
  have "case rs_nodeExecutionStack (es_run ex_last) of [e] \<Rightarrow> ed_node e = ?a | _ \<Rightarrow> False" by code_simp
  then obtain entry where stack: "rs_nodeExecutionStack (es_run ex_last) = [entry]" and node: "ed_node entry = ?a"
    by (auto split: list.splits)
  have state: "es_status ex_last \<noteq> StatusCanceled" "es_waitTill ex_last = None" "pinned_items ex_last ?a = None"
    "rethrowLastNodeError ex_last ?a = None" by code_simp+
  have keys: "keys_of (rs_waitingExecution (es_run ex_last)) = [''m'']" "keys_of (rs_runData (es_run ex_last)) = [''c'', ''b'']" by code_simp+
  have release: "case releaseWaiting ex_merge_types (\<lambda>_ _. None) ex_join ((es_run ex_last)\<lparr>rs_nodeExecutionStack := []\<rparr>) of
      Inr st \<Rightarrow> map (node_name \<circ> ed_node) (rs_nodeExecutionStack st) = [''m''] | Inl _ \<Rightarrow> False" by code_simp
  have branch: "ends_branch ex_null_env ex_last (ed_node entry)"
    using state unfolding node by (simp add: ends_branch_def ex_null_env_def ex_env_def ex_answer_def ex_node_def ex_merge_types_def)
  have calm: "env_interrupt ex_null_env k = NoInterrupt" for k by (simp add: ex_null_env_def ex_env_def)
  from ended_branch_strands_node [OF ex_last_ok stack branch calm calm state(1,2), of 2] keys release show ?thesis by auto
qed

text \<open>The same nodes, all of which go on after an error.\<close>

definition ex_continue :: Workflow where
  "ex_continue = ex_join\<lparr>wf_nodes := map (\<lambda>(n, node). (n, node\<lparr>node_onError := Some ''continueRegularOutput''\<rparr>)) (wf_nodes ex_join)\<rparr>"

text \<open>
  The status of an execution whose failing nodes are set to continue depends on which node is the last. With \<^verbatim>\<open>continueRegularOutput\<close> on every
  node, all nodes run; when \<^verbatim>\<open>a\<close> throws the execution succeeds, when the last node throws the same error the execution
  ends with status \<^verbatim>\<open>error\<close> and is not finished.
\<close>

lemma continued_error_status:
  "(case (ex_result ex_continue (\<lambda>_ n. if n = ''a'' then Some (Thrown \<lparr>err_name = ''Error'', err_message = ''failed''\<rparr>) else None),
          ex_result ex_continue (\<lambda>_ n. if n = ''m'' then Some (Thrown \<lparr>err_name = ''Error'', err_message = ''failed''\<rparr>) else None)) of
      (Some run1, Some run2) \<Rightarrow> executed run1 = executed run2 \<and> rs_nodeExecutionStack (es_run (run_state_of run2)) = []
        \<and> run_status run1 = StatusSuccess \<and> run_finished run1 \<and> run_status run2 = StatusError \<and> \<not> run_finished run2
    | _ \<Rightarrow> False)"
  by code_simp

text \<open>
  A node can be called more often than \<^verbatim>\<open>maxTries\<close> says. With \<^verbatim>\<open>maxTries = 3\<close>, a node whose first call returns an item with an error and whose
  next call throws, and so on, is called five times: the inner loop counts a retry only when it returns.
\<close>

lemma retries_exceed_maxTries:
  "(let node = (ex_node 2 ''c'')\<lparr>node_retryOnFail := Some True, node_maxTries := Some 3\<rparr>;
        f = (\<lambda>k n. if k < 4 then Some (if even k then Response (Cell [Cell [ex_failed_item]])
                     else Thrown \<lparr>err_name = ''Error'', err_message = ''failed''\<rparr>) else None)
    in max_tries node = 3 \<and> es_calls (outcome (loop_round (ex_env f) 0 (start_state ex_join node None None None 0))) = 5)"
  by code_simp

end
