(* ===== verification/Partial_Execution_Run.thy ===== *)
theory Partial_Execution_Run
  imports Partial_Run Execution_Properties
begin

text \<open>
  A partial execution as a whole: \<^verbatim>\<open>runPartialWorkflow2\<close> of \<^verbatim>\<open>packages/core/src/execution-engine/workflow-execute.ts\<close>, whose steps before the
  execution are in \<open>Partial_Run\<close>, followed by \<^verbatim>\<open>processRunExecutionData\<close> of \<open>Execution_Loop\<close>. The lemmas connect the two views of a workflow:
  the names and connections that the loop follows, and the graph of node objects from which start nodes and kept run data are computed.
\<close>

section \<open>The graph of a workflow\<close>

text \<open>Names and connection types without a dash; both ends of a connection exist, and it carries the type of its output.\<close>

definition plain_workflow :: "Workflow \<Rightarrow> bool" where
  "plain_workflow w \<longleftrightarrow> distinct (keys_of (wf_nodes w)) \<and> (\<forall>n \<in> set (keys_of (wf_nodes w)). CHR ''-'' \<notin> set n)
     \<and> (\<forall>s \<in> set (keys_of (wf_connectionsBySourceNode w)). getNode w s \<noteq> None)
     \<and> (\<forall>(s, t, i, c) \<in> set (flat_conns (wf_connectionsBySourceNode w)). getNode w (con_node c) \<noteq> None \<and> con_type c = t \<and> CHR ''-'' \<notin> set t)"

lemma fromWorkflow_graph:
  assumes w: "good_workflow T w" and plain: "plain_workflow w"
  obtains g where "fromWorkflow w = Inr g" and "wf_graph g" and "plain_names g" and "node_objs g = set (values_of (wf_nodes w))"
    and "main_links w = (\<lambda>(a, b). (node_name a, node_name b)) ` main_edges g"
proof -
  let ?m = "wf_connectionsBySourceNode w" and ?N = "wf_nodes w"
  note P = plain [unfolded plain_workflow_def]
  have named: "node_name n = k" if "map_get ?N k = Some n" for k n using w that by (auto simp: good_workflow_def)
  have d: "distinct (keys_of ?N)" using P by blast
  have fsts: "fst e = node_name (snd e)" if "e \<in> set ?N" for e
    using that d named [of "fst e" "snd e"] map_of_is_SomeI [OF d, of "fst e" "snd e"] by simp
  define g0 where "g0 = empty_graph\<lparr>dg_nodes := ?N\<rparr>"
  have g0: "addNodes (values_of ?N) empty_graph = g0" unfolding g0_def by (rule addNodes_entries [OF d fsts])
  have wf0: "wf_graph g0" using d fsts by (simp add: wf_graph_def g0_def empty_graph_def)
  have no: "conn_objs g0 = {}" by (simp add: conn_objs_def g0_def empty_graph_def del: conn_objs_fold)
  define nd where "nd s = the (getNode w s)" for s
  have nd: "getNode w s = Some (nd s) \<and> has_node_obj g0 (nd s) \<and> node_name (nd s) = s" if "getNode w s \<noteq> None" for s
    using that named [of s] by (auto simp: nd_def getNode_def has_node_obj_def g0_def)
  let ?cs = "map (graph_conn nd) (flat_conns ?m)"
  have ends: "getNode w s \<noteq> None \<and> getNode w (con_node c) \<noteq> None \<and> CHR ''-'' \<notin> set t" if "(s, t, i, c) \<in> set (flat_conns ?m)" for s t i c
  proof -
    have "s \<in> set (keys_of ?m)" using that by (force simp: flat_conns_def)
    with that P show ?thesis by blast
  qed
  have add: "addWorkflowConnections (getNode w) ?m g0 = Inr (fold set_connection ?cs g0)"
  proof (rule addWorkflowConnections_ok)
    fix s assume "s \<in> set (keys_of ?m)"
    then have "getNode w s \<noteq> None" using P by blast
    from nd [OF this] show "getNode w s = Some (nd s) \<and> has_node_obj g0 (nd s)" by blast
  next
    fix s t i c assume "(s, t, i, c) \<in> set (flat_conns ?m)"
    from ends [OF this] nd [of "con_node c"]
    show "getNode w (con_node c) = Some (nd (con_node c)) \<and> has_node_obj g0 (nd (con_node c))" by blast
  qed
  have has: "has_node_obj g0 (gc_from c) \<and> has_node_obj g0 (gc_to c) \<and> CHR ''-'' \<notin> set (gc_type c)" if "c \<in> set ?cs" for c
  proof -
    from that obtain s t i x where x: "(s, t, i, x) \<in> set (flat_conns ?m)" "c = graph_conn nd (s, t, i, x)" by auto
    with ends [OF x(1)] nd show ?thesis by (auto simp: graph_conn_def)
  qed
  have names0: "CHR ''-'' \<notin> set (node_name n)" if "n \<in> node_objs g0" for n
  proof -
    have "map_get ?N (node_name n) = Some n" using that by (simp add: node_objs_def has_node_obj_def g0_def)
    then have "node_name n \<in> set (keys_of ?N)" by (metis map_of_eq_None_iff not_None_eq set_map)
    with P show ?thesis by blast
  qed
  have inj: "inj_on makeKey (set ?cs)" by (rule plain_names_inj [of g0]) (use names0 has in blast)+
  define g where "g = fold set_connection ?cs g0"
  note G = fold_set_connection [OF wf0, of ?cs, folded g_def]
  have objs: "node_objs g = node_objs g0" using G(2) has by (simp add: node_objs_def)
  have conns: "conn_objs g = set ?cs" using G(4) has inj no by simp
  have "fromWorkflow w = Inr g" using add by (simp add: fromWorkflow_def g0 g_def)
  moreover have "wf_graph g" using G(1) has by blast
  moreover have "plain_names g" using names0 has by (simp add: plain_names_def objs conns)
  moreover have "node_objs g = set (values_of ?N)" using wf_node_objs [OF wf0] by (simp add: objs g0_def)
  moreover have "main_links w = (\<lambda>(a, b). (node_name a, node_name b)) ` main_edges g"
  proof -
    have wfc: "wf_conns ?m" using w by (simp add: good_workflow_def consistent_def)
    have "main_edges g = {(nd s, nd (con_node c)) | s i c. (s, Main, i, c) \<in> set (flat_conns ?m)}"
      unfolding main_edges_def conns by (force simp: graph_conn_def)
    then have "(\<lambda>(a, b). (node_name a, node_name b)) ` main_edges g
        = {(node_name (nd s), node_name (nd (con_node c))) | s i c. (s, Main, i, c) \<in> set (flat_conns ?m)}" by force
    also have "\<dots> = {(s, con_node c) | s i c. (s, Main, i, c) \<in> set (flat_conns ?m)}"
    proof -
      have "node_name (nd s) = s \<and> node_name (nd (con_node c)) = con_node c" if "(s, Main, i, c) \<in> set (flat_conns ?m)" for s i c
        using nd ends [OF that] by blast
      then show ?thesis by (intro Collect_cong) metis
    qed
    finally show ?thesis by (simp add: main_links_def in_main_targets_of set_flat_conns [OF wfc])
  qed
  ultimately show thesis by (rule that)
qed

text \<open>Paths between names are paths between nodes.\<close>

lemma name_path:
  assumes "wf_graph g" and links: "main_links w = (\<lambda>(a, b). (node_name a, node_name b)) ` main_edges g"
    and "(node_name a, m) \<in> (main_links w)\<^sup>*" and "a \<in> node_objs g"
  shows "\<exists>b \<in> node_objs g. node_name b = m \<and> (a, b) \<in> (main_edges g)\<^sup>*"
  using assms(3)
proof induction
  case base
  with assms(4) show ?case by blast
next
  case (step p q)
  then obtain b where b: "b \<in> node_objs g" "node_name b = p" "(a, b) \<in> (main_edges g)\<^sup>*" by blast
  from step(2) links obtain x y where xy: "(x, y) \<in> main_edges g" "node_name x = p" "node_name y = q" by auto
  then have "x \<in> node_objs g" "y \<in> node_objs g" using wf_conn_nodes [OF assms(1)] by (auto simp: main_edges_def node_objs_def)
  then have "x = b" using b(1,2) xy(2) has_node_obj_name_inj [of g x b] by (simp add: node_objs_def)
  with xy b(3) \<open>y \<in> node_objs g\<close> show ?case by (auto intro: rtrancl_into_rtrancl)
qed

lemma main_edges_acyclic:
  assumes "main_links w = (\<lambda>(a, b). (node_name a, node_name b)) ` main_edges g" and "acyclic (main_links w)"
  shows "acyclic (main_edges g)"
proof -
  have "(node_name a, node_name b) \<in> (main_links w)\<^sup>+" if "(a, b) \<in> (main_edges g)\<^sup>+" for a b
    using that
  proof induction
    case (base y)
    then show ?case using assms(1) by (force intro: r_into_trancl)
  next
    case (step y z)
    then have "(node_name y, node_name z) \<in> main_links w" using assms(1) by force
    with step(3) show ?case by (rule trancl_into_trancl)
  qed
  with assms(2) show ?thesis unfolding acyclic_def by blast
qed

section \<open>Paths in the sub-graph\<close>

text \<open>Nodes with connections of other types, such as models and tools, take no part in main connections.\<close>

definition sub_nodes_apart :: "DirectedGraph \<Rightarrow> bool" where
  "sub_nodes_apart g \<longleftrightarrow> (\<forall>c \<in> conn_objs g. gc_type c \<noteq> Main \<longrightarrow> gc_from c \<notin> Field (main_edges g))"

lemma main_path:
  assumes "sub_nodes_apart h" and "conn_objs sub \<subseteq> conn_objs h" and "t \<in> Field (main_edges h)" and "(t, s) \<in> (dg_edges sub)\<^sup>*"
  shows "(t, s) \<in> (main_edges h)\<^sup>*"
  using assms(4)
proof induction
  case (step x y)
  then obtain c where c: "c \<in> conn_objs h" "gc_from c = x" "gc_to c = y" using assms(2) by (auto simp: dg_edges_def)
  have "x \<in> Field (main_edges h)" using step(3) assms(3) by (auto elim: rtranclE simp: Field_def)
  then have "gc_type c = Main" using assms(1) c by (auto simp: sub_nodes_apart_def)
  with c have "(x, y) \<in> main_edges h" by (auto simp: main_edges_def)
  with step(3) show ?case by (rule rtrancl_into_rtrancl)
qed simp

lemma avoid_source:
  assumes "acyclic E" and "(x, y) \<in> E\<^sup>*" and "(y, v) \<in> E\<^sup>+ \<or> (v, x) \<in> E\<^sup>+"
  shows "(x, y) \<in> (avoiding E {v})\<^sup>*"
  using assms(2,3)
proof (induction rule: converse_rtrancl_induct)
  case (step a b)
  have "a \<noteq> v"
  proof
    assume "a = v"
    with step have "(v, y) \<in> E\<^sup>*" by simp
    moreover have "(v, v) \<notin> E\<^sup>+" using assms(1) by (simp add: acyclic_def)
    ultimately show False using step(4) \<open>a = v\<close> by (metis rtrancl_trancl_trancl)
  qed
  moreover have "(y, v) \<in> E\<^sup>+ \<or> (v, b) \<in> E\<^sup>+" using step by (auto intro: trancl_into_trancl)
  ultimately show ?case using step by (auto intro: converse_rtrancl_into_rtrancl)
qed simp

lemma sub_path:
  assumes acyclic: "acyclic (main_edges h)"
    and kept: "{c \<in> conn_objs h. leads_to h dest trigger c \<and> from_trigger h dest trigger (gc_from c)} \<subseteq> conn_objs sub"
    and "(trigger, s) \<in> (main_edges h)\<^sup>*" and "(s, n) \<in> (main_edges h)\<^sup>*" and "(n, dest) \<in> (main_edges h)\<^sup>*"
  shows "(s, n) \<in> (dg_edges sub)\<^sup>*"
  using assms(4,5)
proof induction
  case (step x y)
  let ?E = "main_edges h"
  have xd: "(x, dest) \<in> ?E\<^sup>+" and tx: "(trigger, x) \<in> ?E\<^sup>*" and ty: "(trigger, y) \<in> ?E\<^sup>+"
    using step assms(3) by auto
  have "x \<noteq> dest" "y \<noteq> trigger" using xd ty acyclic by (auto simp: acyclic_def)
  moreover have "(trigger, x) \<in> (avoiding ?E {dest})\<^sup>*" using avoid_source [OF acyclic tx] xd by blast
  moreover have "(y, dest) \<in> (avoiding ?E {trigger})\<^sup>*" using avoid_source [OF acyclic step(4)] ty by blast
  ultimately have "(x, y) \<in> dg_edges sub" using step(2) kept
    by (fastforce simp: main_edges_def dg_edges_def leads_to_def from_trigger_def)
  with step xd show ?case by (metis converse_rtrancl_into_rtrancl rtrancl.rtrancl_into_rtrancl)
qed simp

section \<open>Which nodes the loop runs\<close>

lemma loop_round_runs:
  assumes ok: "exec_ok env es" and "no_requests env" and new: "runs_of (outcome (loop_round env i es)) n \<noteq> runs_of es n"
  shows "n \<in># jobs (es_run es)"
  using ok
proof (cases rule: loop_round_cases [where i = i])
  case (stop s t)
  with new show ?thesis by (simp add: runs_of_def)
next
  case (entry e entries st)
  let ?es = "es\<lparr>es_run := st\<rparr>"
  have good: "good_state (es_workflow es) (es_run es)" using ok by (simp add: exec_ok_def)
  have "good_workflow (env_nodeTypes env) (es_workflow ?es)" "es_lastExecutionTry ?es = []" "good_entry (es_workflow ?es) e"
    "good_state (es_workflow ?es) (es_run ?es)"
    using ok good good_state_stack [OF good] entry by (auto simp: exec_ok_def good_state_def)
  from execute_entry_ok(1) [OF this(1,4,3) refl assms(2) this(2)] entry
  have "stored (es_executionIndex es) (node_name (ed_node e)) (rs_runData (es_run es)) (rs_runData (es_run (outcome (loop_round env i es))))"
    by (simp add: round_ok_def)
  then have "n = node_name (ed_node e)"
    by (cases rule: stored_cases) (use new in \<open>auto simp: runs_of_def add_task_def js_obj.get_put split: if_splits\<close>)
  with entry show ?thesis by (simp add: jobs_def)
qed

lemma executionLoop_runs:
  assumes "executionLoop env i es = Some (r, es')" and "exec_ok env es" and "no_requests env" and "runs_of es' n \<noteq> runs_of es n"
  shows "\<exists>m \<in># jobs (es_run es). (m, n) \<in> (open_links es)\<^sup>*"
proof -
  let ?P = "\<lambda>env i es y. exec_ok env es \<longrightarrow> no_requests env \<longrightarrow> runs_of (snd y) n \<noteq> runs_of es n
    \<longrightarrow> (\<exists>m \<in># jobs (es_run es). (m, n) \<in> (open_links es)\<^sup>*)"
  have "?P env i es (r, es')"
  proof (rule executionLoop.raw_induct [where P = ?P, OF _ assms(1)], goal_cases)
    case (1 loop env i es y)
    show ?case
    proof (intro impI)
      assume ok: "exec_ok env es" and req: "no_requests env" and new: "runs_of (snd y) n \<noteq> runs_of es n"
      note round = loop_round_ok [OF ok req, of i] and runs = loop_round_runs [OF ok req, of i n]
      show "\<exists>m \<in># jobs (es_run es). (m, n) \<in> (open_links es)\<^sup>*"
      proof (cases "loop_round env i es")
        case (Continue es1)
        have ok1: "exec_ok env es1" "open_links es1 = open_links es"
          using round(1,2) Continue by (simp_all add: logs_def open_links_def in_filter_def)
        show ?thesis
        proof (cases "runs_of es1 n = runs_of es n")
          case True
          have "loop env (Suc i) es1 = Some y" using 1(2) Continue by simp
          with 1(1) ok1 req new True obtain m where "m \<in># jobs (es_run es1)" "(m, n) \<in> (open_links es)\<^sup>*" by metis
          with round(5) [OF Continue] show ?thesis by (meson rtrancl_trans)
        next
          case False
          with runs Continue show ?thesis by auto
        qed
      qed (use 1(2) runs new in auto)
    qed
  qed
  with assms(2-4) show ?thesis by simp
qed

text \<open>The end of an execution keeps the runs, but for their metadata.\<close>

definition plain_run :: "ITaskData \<Rightarrow> ITaskData" where
  "plain_run task = task\<lparr>td_metadata := None\<rparr>"

lemma plain_run_index [simp]: "td_executionIndex (plain_run task) = td_executionIndex task"
  by (simp add: plain_run_def)

lemma move_metadata_plain:
  "map plain_run (or_empty (map_get (move_metadata n x rd) m)) = map plain_run (or_empty (map_get rd m))"
  by (cases x) (auto simp: move_metadata_def plain_run_def js_obj.get_put map_update split: option.splits intro!: list_update_same_conv [THEN iffD2])

lemma finish_run_plain:
  "map plain_run (runs_of (run_state_of (finish_run env r es)) m) = map plain_run (runs_of es m)"
proof -
  have inner: "map plain_run (or_empty (map_get (fold (move_metadata n) xs rd) m)) = map plain_run (or_empty (map_get rd m))" for n xs rd
    by (induction xs arbitrary: rd) (simp_all add: move_metadata_plain)
  have "map plain_run (or_empty (map_get (fold (\<lambda>(n, ms). fold (move_metadata n) (enumerate 0 ms)) ys rd) m))
      = map plain_run (or_empty (map_get rd m))" for ys rd
    by (induction ys arbitrary: rd) (simp_all add: inner case_prod_beta)
  then have "map plain_run (runs_of (moveNodeMetadata es') m) = map plain_run (runs_of es' m)" for es'
    by (simp add: moveNodeMetadata_def runs_of_def)
  then show ?thesis
    by (cases r) (simp_all add: finish_run_def processSuccessExecution_def Let_def runs_of_def)
qed

section \<open>The start of a partial execution\<close>

lemma parents_lead:
  assumes w: "good_workflow T w" and plain: "plain_workflow w" and "p \<in> set (workflow_getParentNodes w d Main (- 1))"
  shows "(p, d) \<in> (main_links w)\<^sup>*"
proof -
  let ?m = "wf_connectionsBySourceNode w"
  have wfc: "wf_conns ?m" and dst: "wf_connectionsByDestinationNode w = mapConnectionsByDestination ?m"
    using w by (simp_all add: good_workflow_def consistent_def)
  have "(b, a) \<in> main_links w" if "(a, b) \<in> type_edges (mapConnectionsByDestination ?m) Main" for a b
  proof -
    from that obtain bt outs cs c where "map_get (mapConnectionsByDestination ?m) a = Some bt" "map_get bt Main = Some outs"
      "cs \<in> set outs" "c \<in> set (or_empty cs)" and c2: "con_node c = b"
      by (auto simp: type_edges_def type_targets_def connection_types_def split: option.splits) metis
    moreover then obtain j where "j < length outs" "outs ! j = cs" by (auto simp: in_set_conv_nth)
    ultimately have c: "c \<in> set (conns_at (mapConnectionsByDestination ?m) a Main j)" "con_node c = b"
      by (auto simp: in_conns_at)
    have "c = \<lparr>con_node = b, con_type = con_type c, con_index = con_index c\<rparr>" using c(2) by simp
    with c(1) byDestination_reverses [OF wfc] have "\<lparr>con_node = a, con_type = Main, con_index = j\<rparr> \<in> set (conns_at ?m b (con_type c) (con_index c))"
      by metis
    moreover from this have "con_type c = Main"
      using plain unfolding plain_workflow_def set_flat_conns [OF wfc, symmetric] by fastforce
    ultimately show ?thesis by (auto simp: main_links_def in_main_targets_of)
       (metis IConnection.select_convs(1))
  qed
  moreover from assms(3) obtain k where "(d, p) \<in> type_edges (mapConnectionsByDestination ?m) Main ^^ k"
    by (auto simp: workflow_getParentNodes_def getParentNodes_def getConnectedNodes_spec dst)
  ultimately have "(d, p) \<in> ((main_links w)\<inverse>)\<^sup>*"
    by (meson converseI relpow_imp_rtrancl rtrancl_mono subrelI subsetD)
  then show ?thesis by (simp add: rtrancl_converse)
qed

lemma find_start_leads:
  assumes w: "good_workflow T w" and plain: "plain_workflow w" and d: "getNode w d = Some dest" and t: "find_start T w d rd = Inr t"
  shows "(node_name t, d) \<in> (main_links w)\<^sup>*" and "getNode w (node_name t) = Some t"
proof -
  have named: "node_name n = k" if "getNode w k = Some n" for k n using w that by (auto simp: good_workflow_def getNode_def)
  have "(node_name t, d) \<in> (main_links w)\<^sup>* \<and> getNode w (node_name t) = Some t"
  proof (cases "findTriggerForPartialExecution T w d rd")
    case (Inl e)
    with t show ?thesis by (simp add: find_start_def)
  next
    case (Inr r)
    show ?thesis
    proof (cases r)
      case None
      with Inr t obtain k where k: "find (\<lambda>nodeName. obj_get rd nodeName \<noteq> None) (workflow_getParentNodes w d Main (- 1)) = Some k"
        "getNode w k = Some t" by (auto simp: find_start_def split: option.splits)
      then have "k \<in> set (workflow_getParentNodes w d Main (- 1))" by (auto simp: find_Some_iff)
      with k(2) named parents_lead [OF w plain] show ?thesis by metis
    next
      case (Some s)
      with Inr t have s: "s = t" by (simp add: find_start_def)
      from findTriggerForPartialExecution_spec [OF Inr d] Some s have "t = dest \<or> t \<in> parent_triggers T w d"
        by (auto split: if_splits)
      then show ?thesis
      proof
        assume "t \<in> parent_triggers T w d"
        then obtain k where "k \<in> set (workflow_getParentNodes w d Main (- 1))" "getNode w k = Some t"
          by (auto simp: parent_triggers_def)
        with named parents_lead [OF w plain] show ?thesis by metis
      qed (use d named in auto)
    qed
  qed
  then show "(node_name t, d) \<in> (main_links w)\<^sup>*" and "getNode w (node_name t) = Some t" by blast+
qed

section \<open>The run data that is kept\<close>

lemma cleanRunData_filter:
  assumes "cleanRunData rd g ns = Inr rd'"
  shows "\<exists>Q. rd' = filter Q rd"
proof -
  let ?P = "\<lambda>u. \<exists>Q. u = filter Q rd"
  have del: "?P (obj_delete k u)" if "?P u" for k and u :: IRunData
    using that by (auto simp: map_delete_def)
  have dels: "?P (delete_names ks u)" if "?P u" for ks u
    unfolding delete_names_def using that by (induction ks arbitrary: u) (simp_all add: del)
  have node: "?P v" if "cleanNode g n u = Inr v" "?P u" for n u v
  proof -
    from that(1) obtain ks where "v = delete_names ks (obj_delete (node_name n) u)" by (auto simp: cleanNode_def bind_res_eq_Inr)
    then show ?thesis using dels [OF del [OF that(2)]] by simp
  qed
  from assms obtain u where u: "rd' = delete_names (filter (\<lambda>k. \<not> hasNode g k) (keys_of u)) u"
    "fold_res (\<lambda>n rd. bind_res (getChildren g n) (\<lambda>children. fold_res (cleanNode g) (n # children) (obj_delete (node_name n) rd))) ns rd = Inr u"
    by (auto simp: cleanRunData_def bind_res_eq_Inr)
  have "?P u"
  proof (rule fold_res_invariant [OF u(2)])
    show "?P rd" by (rule exI [of _ "\<lambda>_. True"]) simp
    show "?P v" if "?P a" "bind_res (getChildren g n) (\<lambda>children. fold_res (cleanNode g) (n # children) (obj_delete (node_name n) a)) = Inr v" for n a v
    proof -
      from that(2) obtain children where "fold_res (cleanNode g) (n # children) (obj_delete (node_name n) a) = Inr v"
        by (auto simp: bind_res_eq_Inr)
      then show ?thesis by (rule fold_res_invariant [where P = ?P]) (use del [OF that(1)] node in blast)+
    qed
  qed
  with dels u(1) show ?thesis by blast
qed

lemma history_filter:
  assumes "history_ok k rd" and rd': "rd' = filter Q rd"
  shows "history_ok (getNextExecutionIndex rd') rd'"
proof -
  note H = assms(1) [unfolded history_ok_def]
  have sub: "task_indexes rd' \<subseteq># task_indexes rd"
    unfolding rd' task_indexes_def by (induction rd) (auto simp: subset_mset.add_increasing)
  have "distinct (keys_of rd')" using H rd' by (simp add: distinct_map_filter)
  moreover have "count (task_indexes rd') x \<le> 1" for x
    using H mset_subset_eq_count [OF sub, of x] by (meson le_trans)
  moreover have "\<exists>i < getNextExecutionIndex rd'. x = Some i" if "x \<in># task_indexes rd'" for x
  proof -
    from that obtain n runs td where td: "(n, runs) \<in> set rd'" "td \<in> set runs" "x = td_executionIndex td"
      by (auto simp: task_indexes_def)
    from that sub H obtain i where "x = Some i" by (meson mset_subset_eqD)
    with next_index_bound [OF td(1,2), of i] td(3) show ?thesis by metis
  qed
  ultimately show ?thesis using H by (auto simp: history_ok_def rd')
qed

lemma no_null_filter: "no_null_outputs rd \<Longrightarrow> no_null_outputs (filter Q rd)"
  by (auto simp: no_null_outputs_def)

lemma obj_set_not_Nil: "obj_set k v m \<noteq> []"
  using fun_cong [OF js_obj.get_put [of k v m], of k] by auto

lemma recreate_no_sources:
  assumes "recreateNodeExecutionStack lc g ns rd pd = Inr st" and "ss_waitingExecution st = []"
  shows "ss_waitingExecutionSource st = []"
proof -
  let ?P = "\<lambda>st. ss_waitingExecution st = [] \<longrightarrow> ss_waitingExecutionSource st = []"
  have incomplete: "?P v" if "addIncompleteInput rd n k c u = Inr v" "?P u" for n k c u v
    using that by (auto simp: obj_set_not_Nil addIncompleteInput_def bind_res_eq_Inr addWaitingExecution_def Let_def split: option.splits)
  have source: "?P v" if "addSourceGroup rd pd n gr u = Inr v" "?P u" for n gr u v
  proof (cases "sg_complete gr")
    case True
    with that show ?thesis by (auto simp: addSourceGroup_def bind_res_eq_Inr)
  next
    case False
    with that(1) obtain k where "fold_res (addIncompleteInput rd (node_name n) k) (sg_connections gr) u = Inr v"
      by (auto simp: addSourceGroup_def Let_def)
    then show ?thesis by (rule fold_res_invariant [where P = ?P]) (use that(2) incomplete in blast)+
  qed
  have start: "?P v" if "addStartNode lc g rd pd n u = Inr v" "?P u" for n u v
  proof -
    from that(1) consider "v = u\<lparr>ss_nodeExecutionStack := ss_nodeExecutionStack v\<rparr>"
      | "fold_res (addSourceGroup rd pd n) (getSourceDataGroups lc g n rd pd) u = Inr v"
      by (auto simp: addStartNode_def bind_res_eq_Inr split: if_splits)
    then show ?thesis
    proof cases
      case 1
      with that(2) show ?thesis by (cases u; cases v) simp
    next
      case 2
      then show ?thesis by (rule fold_res_invariant [where P = ?P]) (use that(2) source in blast)+
    qed
  qed
  from assms(1) have "fold_res (addStartNode lc g rd pd) ns \<lparr>ss_nodeExecutionStack = [], ss_waitingExecution = [], ss_waitingExecutionSource = []\<rparr> = Inr st"
    by (auto simp: recreateNodeExecutionStack_def bind_res_eq_Inr)
  then have "?P st" by (rule fold_res_invariant [where P = ?P]) (use start in \<open>auto\<close>)
  with assms(2) show ?thesis by blast
qed

text \<open>The steps behind a plan.\<close>

lemma plan_execution_steps:
  assumes "plan_execution lc g t d rd pd dirty = Inr p"
  obtains h Q where "filterDisabledNodes g = Inr h" and "findSubgraph h d t = Inr (pp_graph p)" and "pp_runData p = filter Q rd"
    and "pp_executionIndex p = getNextExecutionIndex (pp_runData p)"
    and "recreateNodeExecutionStack lc (pp_graph p) (pp_startNodes p) (pp_runData p) pd = Inr (pp_stack p)"
proof -
  from assms obtain h rd1 S rd2 where steps: "filterDisabledNodes g = Inr h" "findSubgraph h d t = Inr (pp_graph p)"
      "cleanRunData rd (pp_graph p) (getNodesByNames (pp_graph p) dirty) = Inr rd1"
      "cleanRunData rd1 (pp_graph p) S = Inr (pp_runData p)" "pp_executionIndex p = getNextExecutionIndex (pp_runData p)"
      "recreateNodeExecutionStack lc (pp_graph p) (pp_startNodes p) (pp_runData p) pd = Inr (pp_stack p)"
    by (auto simp: plan_execution_def bind_res_eq_Inr)
  from cleanRunData_filter [OF steps(3)] cleanRunData_filter [OF steps(4)] obtain Q where "pp_runData p = filter Q rd"
    by (auto simp: filter_filter)
  with steps that show thesis by blast
qed

section \<open>The execution\<close>

text \<open>Step 8: the run data, the stack and the execution index of the plan are handed to the loop, with the workflow as it is.\<close>

definition execute_partial_run :: "engine_env \<Rightarrow> IPinData \<Rightarrow> partial_run \<Rightarrow> (js_error + IRun option)" where
  "execute_partial_run env pinData r =
     (let plan = pr_plan r; stack = pp_stack plan
      in processRunExecutionData env (createRunExecutionData (pr_workflow r)
           \<lparr>rs_runData = pp_runData plan, rs_nodeExecutionStack = ss_nodeExecutionStack stack,
            rs_waitingExecution = ss_waitingExecution stack, rs_waitingExecutionSource = Some (ss_waitingExecutionSource stack)\<rparr>
           (Some pinData) (Some (pr_destinationNode r)) (Some (pr_runNodeFilter r)) (pp_executionIndex plan)))"

lemma stale_names_reach: "n \<in> (dg_edges g)\<^sup>* `` X \<Longrightarrow> node_name n \<in> stale_names g X"
  by (auto simp: stale_names_def own_names_def)

lemma start_entries_good:
  assumes "e \<in> set (concat (map (start_node_entries lc g rd pd) S))"
  shows "ed_node e \<in> set S \<and> obj_get (ed_data e) Main \<noteq> None \<and> ed_runIndex e = None \<and> ed_metadata e = None"
  using assms by (auto simp: start_node_entries_def group_entry_def split: if_splits)

lemma thru_trancl: "thru E D \<subseteq> E\<^sup>+"
proof -
  have "(Id_on D O E)\<^sup>* \<subseteq> E\<^sup>*" by (rule rtrancl_mono) auto
  then show ?thesis unfolding thru_def by (blast intro: rtrancl_into_trancl2)
qed

text \<open>A kept node that leads to the destination is not reached from a start node.\<close>

lemma kept_not_reached:
  assumes wf: "wf_graph g" and acyclic: "acyclic (main_edges g)" and apart: "sub_nodes_apart g"
    and h: "wf_graph h" "node_objs h = node_objs g - disabled_objs g" "main_edges h = thru (main_edges g) (disabled_objs g)"
      "conn_outputs h \<subseteq> conn_outputs g"
    and sub: "findSubgraph h d t = Inr sub" and td: "t \<in> node_objs h" "d \<in> node_objs h" "(t, d) \<in> (main_edges g)\<^sup>*"
    and s: "s \<in> node_objs sub" "(t, s) \<in> (dg_edges sub)\<^sup>*" and b: "b \<in> node_objs sub"
    and path: "(s, b) \<in> (main_edges g)\<^sup>*" "(b, d) \<in> (main_edges g)\<^sup>*"
  shows "(s, b) \<in> (dg_edges sub)\<^sup>*"
proof -
  let ?E = "main_edges h" and ?D = "disabled_objs g"
  have "has_node_obj h d" "has_node_obj h t" using td by (simp_all add: node_objs_def)
  from findSubgraph_spec [OF h(1) this] sub obtain sub_inv: "sub_inv h sub"
    and kept: "{c \<in> conn_objs h. leads_to h d t c \<and> from_trigger h d t (gc_from c)} \<subseteq> conn_objs sub" by auto
  have nodes: "s \<notin> ?D" "b \<notin> ?D" "d \<notin> ?D" "t \<notin> ?D" using s(1) b td sub_inv h(2) by (auto simp: sub_inv_def)
  have up: "?E \<subseteq> (main_edges g)\<^sup>+" using h(3) thru_trancl by simp
  have acyc: "acyclic ?E" using acyclic up by (metis acyclic_def acyclic_subset trancl_id trans_trancl)
  have "Field ?E \<subseteq> Field (main_edges g)" using mono_Field [OF up] by (simp add: Field_def)
  then have apart_h: "sub_nodes_apart h" using apart h(4) unfolding sub_nodes_apart_def conn_outputs_def by fastforce
  have in_h: "(s, b) \<in> ?E\<^sup>*" "(b, d) \<in> ?E\<^sup>*" "(t, d) \<in> ?E\<^sup>*"
    unfolding h(3) using rtrancl_thru [OF path(1) nodes(2)] rtrancl_thru [OF path(2) nodes(3)] rtrancl_thru [OF td(3) nodes(3)] nodes by blast+
  have "(t, s) \<in> ?E\<^sup>*"
  proof (cases "s = t")
    case False
    have "(t, d) \<in> ?E\<^sup>+ \<or> (s, t) \<in> ?E\<^sup>+" using in_h False by (metis rtranclD rtrancl_trans)
    then have "t \<in> Field ?E" by (auto simp: Field_def dest: tranclD tranclD2)
    with sub_inv s(2) show ?thesis by (intro main_path [OF apart_h]) (auto simp: sub_inv_def)
  qed simp
  from sub_path [OF acyc kept this in_h(1,2)] show ?thesis .
qed

text \<open>What the theorem supposes of the workflow and of the run data of earlier executions.\<close>

definition partial_ready :: "engine_env \<Rightarrow> Workflow \<Rightarrow> DirectedGraph \<Rightarrow> IRunData \<Rightarrow> bool" where
  "partial_ready env w g rd \<longleftrightarrow> good_workflow (env_nodeTypes env) w \<and> plain_workflow w \<and> acyclic (main_links w)
     \<and> fromWorkflow w = Inr g \<and> sub_nodes_apart g \<and> run_data_typed g rd \<and> (\<exists>k. history_ok k rd) \<and> no_null_outputs rd"

text \<open>The state from which the loop starts when no start node waits.\<close>

definition partial_start :: "Workflow \<Rightarrow> IPinData \<Rightarrow> IDestinationNode \<Rightarrow> partial_plan \<Rightarrow> exec_state" where
  "partial_start w pinData dest plan = createRunExecutionData w
     \<lparr>rs_runData = pp_runData plan, rs_nodeExecutionStack = ss_nodeExecutionStack (pp_stack plan),
      rs_waitingExecution = [], rs_waitingExecutionSource = Some []\<rparr>
     (Some pinData) (Some dest) (Some (map node_name (values_of (getNodes (pp_graph plan))))) (pp_executionIndex plan)"

lemma partial_start_ok:
  assumes ready: "partial_ready env w g rd" and plan: "plan_execution lc g t d rd pd dirty = Inr p"
    and nodes: "set (pp_startNodes p) \<subseteq> node_objs g"
    and stack: "ss_nodeExecutionStack (pp_stack p) = concat (map (start_node_entries lc (pp_graph p) (pp_runData p) pd) (pp_startNodes p))"
  shows "exec_ok env (partial_start w pd dest p)"
    and "m \<in># jobs (es_run (partial_start w pd dest p)) \<Longrightarrow> \<exists>s \<in> set (pp_startNodes p). node_name s = m"
proof -
  note R = ready [unfolded partial_ready_def]
  from R obtain g' where "fromWorkflow w = Inr g'" "node_objs g' = set (values_of (wf_nodes w))" by (metis fromWorkflow_graph)
  with R have objs: "node_objs g = set (values_of (wf_nodes w))" by simp
  have known: "obj_get (wf_nodes w) (node_name n) \<noteq> None" if "n \<in> node_objs g" for n
  proof -
    from that objs obtain k where "(k, n) \<in> set (wf_nodes w)" by auto
    moreover have "distinct (keys_of (wf_nodes w))" using R by (simp add: plain_workflow_def)
    ultimately have "map_get (wf_nodes w) k = Some n" by simp
    moreover from this R have "node_name n = k" by (simp add: good_workflow_def)
    ultimately show ?thesis by simp
  qed
  from plan obtain Q where Q: "pp_runData p = filter Q rd" "pp_executionIndex p = getNextExecutionIndex (pp_runData p)"
    by (rule plan_execution_steps)
  have entry: "good_entry w e" if "e \<in> set (ss_nodeExecutionStack (pp_stack p))" for e
    using start_entries_good [OF that [unfolded stack]] known nodes by (auto simp: good_entry_def)
  have "history_ok (pp_executionIndex p) (pp_runData p)" using R history_filter Q by metis
  moreover have "no_null_outputs (pp_runData p)" using R Q(1) no_null_filter by simp
  moreover have "waiting_inv w \<lparr>rs_runData = pp_runData p, rs_nodeExecutionStack = ss_nodeExecutionStack (pp_stack p),
      rs_waitingExecution = [], rs_waitingExecutionSource = Some []\<rparr>"
    by (simp add: waiting_inv_def entry_at_def)
  ultimately show "exec_ok env (partial_start w pd dest p)"
    using R entry by (simp add: exec_ok_def partial_start_def createRunExecutionData_def good_state_def)
  show "\<exists>s \<in> set (pp_startNodes p). node_name s = m" if "m \<in># jobs (es_run (partial_start w pd dest p))"
    using that start_entries_good unfolding partial_start_def createRunExecutionData_def jobs_def stack
    by (fastforce simp: waiting_jobs_def)
qed

lemma execute_partial_run_start:
  assumes "ss_waitingExecution (pp_stack p) = []" and "ss_waitingExecutionSource (pp_stack p) = []"
  shows "execute_partial_run env pd \<lparr>pr_workflow = w, pr_destinationNode = dest, pr_originalDestinationNode = dest,
        pr_runNodeFilter = map node_name (values_of (getNodes (pp_graph p))), pr_plan = p\<rparr>
      = bind_res (checkForWorkflowIssues env (partial_start w pd dest p))
          (\<lambda>_. Inr (map_option (\<lambda>(thrown, es'). finish_run env thrown es') (executionLoop env 0 (partial_start w pd dest p))))"
  by (simp add: execute_partial_run_def processRunExecutionData_def partial_start_def createRunExecutionData_def handleWaitingState_def Let_def assms)

text \<open>
  What a run has recorded of a node, compared with the run data it started from: the runs that were kept, unchanged but for their metadata, and then
  the new runs, with the execution indexes \<open>ks\<close>.
\<close>

definition records_new :: "partial_run \<Rightarrow> IRun \<Rightarrow> string \<Rightarrow> nat list \<Rightarrow> bool" where
  "records_new r run n ks \<longleftrightarrow> (\<exists>tasks. map plain_run (runs_of (run_state_of run) n)
       = map plain_run (or_empty (obj_get (pp_runData (pr_plan r)) n) @ tasks) \<and> map td_executionIndex tasks = map Some ks)
     \<and> sorted_wrt (<) ks \<and> set ks \<subseteq> {pp_executionIndex (pr_plan r)..}"

text \<open>The main connections between nodes of the filter.\<close>

definition filter_links :: "Workflow \<Rightarrow> string set \<Rightarrow> (string \<times> string) set" where
  "filter_links w F = main_links w \<inter> F \<times> F"

lemma path_in_filter:
  assumes "(a, b) \<in> {(a, b) \<in> E. a \<in> F}\<^sup>*" and "b \<in> F"
  shows "(a, b) \<in> (E \<inter> F \<times> F)\<^sup>*"
  using assms
proof (induction rule: rtrancl_induct)
  case (step y z)
  then show ?case by (auto intro: rtrancl_into_rtrancl)
qed simp

lemma partial_loop:
  assumes ready: "partial_ready env w g rd" and req: "no_requests env"
    and plan: "plan_execution lc g t d rd pd dirty = Inr p"
    and nodes: "set (pp_startNodes p) \<subseteq> node_objs g"
    and stack: "ss_nodeExecutionStack (pp_stack p) = concat (map (start_node_entries lc (pp_graph p) (pp_runData p) pd) (pp_startNodes p))"
    and F: "F = node_name ` set (values_of (getNodes (pp_graph p)))"
  shows "\<exists>thrown es'. executionLoop env 0 (partial_start w pd dest p) = Some (thrown, es') \<and> (thrown = None \<longrightarrow> ended es')
    \<and> (\<forall>n. \<exists>ks tasks. runs_of es' n = or_empty (obj_get (pp_runData p) n) @ tasks \<and> map td_executionIndex tasks = map Some ks
        \<and> sorted_wrt (<) ks \<and> set ks \<subseteq> {pp_executionIndex p..} \<and> (ks \<noteq> [] \<longrightarrow> n \<in> F
        \<and> (\<exists>s \<in> set (pp_startNodes p). (node_name s, n) \<in> (filter_links w F)\<^sup>*)))"
proof -
  let ?es = "partial_start w pd dest p"
  note ok = partial_start_ok [OF ready plan nodes stack, where dest = dest]
  have start: "es_workflow ?es = w" "runs_of ?es n = or_empty (obj_get (pp_runData p) n)" "es_executionIndex ?es = pp_executionIndex p"
    "in_filter ?es n \<longleftrightarrow> n \<in> F" for n
    by (simp_all add: partial_start_def createRunExecutionData_def runs_of_def in_filter_def image_image F)
  have "acyclic (main_links (es_workflow ?es))" using ready start(1) by (simp add: partial_ready_def)
  from executionLoop_ends [OF ok(1) req this] obtain thrown es' where
    loop: "executionLoop env 0 ?es = Some (thrown, es')" "thrown = None \<longrightarrow> ended es'" by blast
  have logs: "logs ?es es'" using executionLoop_keeps [OF loop(1) ok(1) req] by blast
  have links: "open_links ?es = {(a, b) \<in> main_links w. a \<in> F}" by (simp add: open_links_def start)
  have "\<exists>ks tasks. runs_of es' n = or_empty (obj_get (pp_runData p) n) @ tasks \<and> map td_executionIndex tasks = map Some ks
      \<and> sorted_wrt (<) ks \<and> set ks \<subseteq> {pp_executionIndex p..} \<and> (ks \<noteq> [] \<longrightarrow> n \<in> F
      \<and> (\<exists>s \<in> set (pp_startNodes p). (node_name s, n) \<in> (filter_links w F)\<^sup>*))" for n
  proof -
    from logs obtain ks tasks where ks: "runs_of es' n = runs_of ?es n @ tasks" "map td_executionIndex tasks = map Some ks"
      "sorted_wrt (<) ks" "set ks \<subseteq> {es_executionIndex ?es..<es_executionIndex es'}" "tasks \<noteq> [] \<longrightarrow> in_filter ?es n"
      unfolding logs_def by blast
    have "\<exists>s \<in> set (pp_startNodes p). (node_name s, n) \<in> (filter_links w F)\<^sup>*" if new: "tasks \<noteq> []"
    proof -
      have "runs_of es' n \<noteq> runs_of ?es n" using new ks(1) by simp
      from executionLoop_runs [OF loop(1) ok(1) req this] obtain m where
        m: "m \<in># jobs (es_run ?es)" "(m, n) \<in> {(a, b) \<in> main_links w. a \<in> F}\<^sup>*" unfolding links by blast
      have "n \<in> F" using ks(5) new start(4) by simp
      with m(2) have "(m, n) \<in> (filter_links w F)\<^sup>*" unfolding filter_links_def by (rule path_in_filter)
      with ok(2) [OF m(1)] show ?thesis by auto
    qed
    moreover have "ks \<noteq> [] \<longleftrightarrow> tasks \<noteq> []" using ks(2) by auto
    moreover have "set ks \<subseteq> {pp_executionIndex p..}" using ks(4) start(3) by auto
    ultimately show ?thesis using ks start(2,4) by (intro exI [of _ ks] exI [of _ tasks]) auto
  qed
  with loop show ?thesis by blast
qed

lemma partial_run_spec:
  assumes ready: "partial_ready env w g rd" and req: "no_requests env"
    and dest: "getNode w (dn_nodeName dest) = Some d" "\<not> is_disabled d" "env_nodeTypes env (node_type d) (node_typeVersion d) = Some dt"
      "\<not> isTool dt (node_parameters d)"
    and start: "find_start (env_nodeTypes env) w (dn_nodeName dest) rd = Inr t" "\<not> is_disabled t"
    and complete: "\<forall>p. plan_execution lc g t d rd pd dirty = Inr p \<longrightarrow> ss_waitingExecution (pp_stack p) = []"
  shows "\<exists>r. runPartialWorkflow2 lc (env_nodeTypes env) gnp ref w rd pd dirty dest agent = Inr r
    \<and> ((\<exists>issues. execute_partial_run env pd r = Inl (WorkflowHasIssuesError issues))
      \<or> (\<exists>run. execute_partial_run env pd r = Inr (Some run)
          \<and> (run_finished run \<longrightarrow> rs_nodeExecutionStack (es_run (run_state_of run)) = [])
          \<and> (\<forall>n. \<exists>ks. records_new r run n ks \<and> (ks \<noteq> [] \<longrightarrow> n \<in> set (pr_runNodeFilter r)
              \<and> ((n, dn_nodeName dest) \<in> (main_links w)\<^sup>* \<longrightarrow> obj_get (pp_runData (pr_plan r)) n = None)
              \<and> (\<exists>s \<in> set (pp_startNodes (pr_plan r)). (node_name s, n) \<in> (filter_links w (set (pr_runNodeFilter r)))\<^sup>*)))))
    \<and> (\<forall>n \<in> set (pr_runNodeFilter r). \<exists>node. getNode w n = Some node \<and> \<not> is_disabled node)"
proof -
  note R = ready [unfolded partial_ready_def]
  have w: "good_workflow (env_nodeTypes env) w" "plain_workflow w" using R by blast+
  from fromWorkflow_graph [OF w] R obtain wf: "wf_graph g" and plain: "plain_names g" and objs: "node_objs g = set (values_of (wf_nodes w))"
    and links: "main_links w = (\<lambda>(a, b). (node_name a, node_name b)) ` main_edges g" by (metis Inr_inject)
  have acyclic: "acyclic (main_edges g)" using main_edges_acyclic [OF links] R by blast
  have named: "n \<in> node_objs g \<and> node_name n = k" if "getNode w k = Some n" for k n
  proof -
    have k: "map_get (wf_nodes w) k = Some n" using that by (simp add: getNode_def)
    then have "n \<in> snd ` set (wf_nodes w)" using map_of_SomeD by force
    moreover have "node_name n = k" using w(1) k by (simp add: good_workflow_def)
    ultimately show ?thesis by (simp add: objs)
  qed
  note lead = find_start_leads [OF w dest(1) start(1)]
  have td: "t \<in> node_objs g" "d \<in> node_objs g" "node_name d = dn_nodeName dest" using named [OF lead(2)] named [OF dest(1)] by auto
  have same: "a = b" if "a \<in> node_objs g" "b \<in> node_objs g" "node_name a = node_name b" for a b
    using that has_node_obj_name_inj [of g a b] by (simp add: node_objs_def)
  have path: "(t, d) \<in> (main_edges g)\<^sup>*"
    using name_path [OF wf links lead(1) td(1)] same [OF _ td(2)] td(3) by auto
  have ac: "acyclic (main_edges g \<inter> disabled_objs g \<times> disabled_objs g)" using acyclic by (rule acyclic_subset) auto
  have has: "has_node_obj g t" "has_node_obj g d" using td by (simp_all add: node_objs_def)
  have typed: "run_data_typed g rd" using R by blast
  from plan_execution_spec [OF wf plain ac has start(2) dest(2) path typed, of lc pd dirty] obtain p where
    p: "plan_execution lc g t d rd pd dirty = Inr p" "t \<in> node_objs (pp_graph p)" "node_objs (pp_graph p) \<subseteq> node_objs g - disabled_objs g"
      "set (pp_startNodes p) \<subseteq> (dg_edges (pp_graph p))\<^sup>* `` {t}" "wf_graph (pp_graph p)"
      "map_get (pp_runData p) = map_get rd |` ({k. hasNode (pp_graph p) k}
        - stale_names (pp_graph p) ({n \<in> node_objs (pp_graph p). node_name n \<in> set dirty} \<union> set (pp_startNodes p)))"
      "ss_nodeExecutionStack (pp_stack p) = concat (map (start_node_entries lc (pp_graph p) (pp_runData p) pd) (pp_startNodes p))" by blast
  from p(1) obtain h Q where steps: "filterDisabledNodes g = Inr h" "findSubgraph h d t = Inr (pp_graph p)"
      "recreateNodeExecutionStack lc (pp_graph p) (pp_startNodes p) (pp_runData p) pd = Inr (pp_stack p)"
    by (rule plan_execution_steps)
  from filterDisabledNodes_spec [OF wf plain ac] steps(1) have
    h: "wf_graph h" "node_objs h = node_objs g - disabled_objs g" "main_edges h = thru (main_edges g) (disabled_objs g)"
      "conn_outputs h \<subseteq> conn_outputs g" by auto
  have starts: "s \<in> node_objs (pp_graph p)" if "s \<in> set (pp_startNodes p)" for s
    using that p(2,4) wf_edge_nodes(2) [OF p(5)] by (auto simp: node_objs_def elim: rtranclE)
  have nodes: "set (pp_startNodes p) \<subseteq> node_objs g" using starts p(3) by blast
  have filt: "set (values_of (getNodes (pp_graph p))) = node_objs (pp_graph p)"
    using wf_node_objs [OF p(5)] by (simp add: getNodes_def)
  let ?F = "node_name ` node_objs (pp_graph p)"
  from partial_loop [OF ready req p(1) nodes p(7) refl, where dest = dest, unfolded filt] obtain thrown es' where
    loop: "executionLoop env 0 (partial_start w pd dest p) = Some (thrown, es')" "thrown = None \<Longrightarrow> ended es'"
    and runs: "\<And>n. \<exists>ks tasks. runs_of es' n = or_empty (obj_get (pp_runData p) n) @ tasks \<and> map td_executionIndex tasks = map Some ks
        \<and> sorted_wrt (<) ks \<and> set ks \<subseteq> {pp_executionIndex p..} \<and> (ks \<noteq> [] \<longrightarrow> n \<in> ?F
        \<and> (\<exists>s \<in> set (pp_startNodes p). (node_name s, n) \<in> (filter_links w ?F)\<^sup>*))" by blast
  have fresh: "obj_get (pp_runData p) n = None"
    if n: "n \<in> node_name ` node_objs (pp_graph p)" "(n, dn_nodeName dest) \<in> (main_links w)\<^sup>*"
      and s: "s \<in> set (pp_startNodes p)" "(node_name s, n) \<in> (main_links w)\<^sup>*" for n s
  proof -
    from n(1) obtain b where b: "b \<in> node_objs (pp_graph p)" "n = node_name b" by blast
    have bg: "b \<in> node_objs g" and sg: "s \<in> node_objs g" using b(1) p(3) nodes s(1) by auto
    have "(s, b) \<in> (main_edges g)\<^sup>*" using name_path [OF wf links s(2) sg] same bg b(2) by auto
    moreover have "(b, d) \<in> (main_edges g)\<^sup>*" using name_path [OF wf links n(2) [unfolded b(2)] bg] same [OF _ td(2)] td(3) by auto
    moreover have "t \<in> node_objs h" "d \<in> node_objs h" using td start(2) dest(2) h(2) by (auto simp: disabled_objs_def)
    moreover have "sub_nodes_apart g" using R by blast
    ultimately have "(s, b) \<in> (dg_edges (pp_graph p))\<^sup>*"
      using kept_not_reached [OF wf acyclic _ h steps(2) _ _ path starts [OF s(1)] _ b(1)] p(4) s(1) by blast
    then have "b \<in> (dg_edges (pp_graph p))\<^sup>* `` set (pp_startNodes p)" using s(1) by blast
    from stale_names_reach [OF this] show ?thesis by (simp add: p(6) stale_names_Un restrict_map_def b(2))
  qed
  define r where "r = \<lparr>pr_workflow = w, pr_destinationNode = dest, pr_originalDestinationNode = dest,
        pr_runNodeFilter = map node_name (values_of (getNodes (pp_graph p))), pr_plan = p\<rparr>"
  have run: "runPartialWorkflow2 lc (env_nodeTypes env) gnp ref w rd pd dirty dest agent = Inr r"
    using R by (simp add: runPartialWorkflow2_def dest start(1) p(1) r_def)
  have exec: "execute_partial_run env pd r = bind_res (checkForWorkflowIssues env (partial_start w pd dest p))
        (\<lambda>_. Inr (Some (finish_run env thrown es')))"
    unfolding r_def execute_partial_run_start [OF complete [rule_format, OF p(1)] recreate_no_sources [OF steps(3) complete [rule_format, OF p(1)]]]
    by (simp add: loop(1))
  have in_filter: "set (pr_runNodeFilter r) = ?F"
    unfolding filt [symmetric] by (simp add: r_def image_image)
  have enabled: "\<exists>node. getNode w n = Some node \<and> \<not> is_disabled node" if "n \<in> set (pr_runNodeFilter r)" for n
  proof -
    from that obtain b where b: "n = node_name b" "b \<in> node_objs g" "\<not> is_disabled b"
      using p(3) unfolding in_filter by (auto simp: disabled_objs_def)
    from b(2) obtain k where "(k, b) \<in> set (wf_nodes w)" unfolding objs by auto
    moreover have "distinct (keys_of (wf_nodes w))" using w(2) by (simp add: plain_workflow_def)
    ultimately have "getNode w k = Some b" by (simp add: getNode_def)
    with named b show ?thesis by metis
  qed
  show ?thesis
  proof (cases "checkForWorkflowIssues env (partial_start w pd dest p)")
    case (Inl e)
    then have "\<exists>issues. e = WorkflowHasIssuesError issues" by (auto simp: checkForWorkflowIssues_def split: option.splits)
    with Inl run exec enabled show ?thesis by auto
  next
    case (Inr u)
    have "\<exists>ks. records_new r (finish_run env thrown es') n ks \<and> (ks \<noteq> [] \<longrightarrow> n \<in> set (pr_runNodeFilter r)
        \<and> ((n, dn_nodeName dest) \<in> (main_links w)\<^sup>* \<longrightarrow> obj_get (pp_runData (pr_plan r)) n = None)
        \<and> (\<exists>s \<in> set (pp_startNodes (pr_plan r)). (node_name s, n) \<in> (filter_links w (set (pr_runNodeFilter r)))\<^sup>*))" for n
    proof -
      from runs [of n] obtain ks tasks where ks: "runs_of es' n = or_empty (obj_get (pp_runData p) n) @ tasks"
        "map td_executionIndex tasks = map Some ks" "sorted_wrt (<) ks" "set ks \<subseteq> {pp_executionIndex p..}"
        and new: "ks \<noteq> [] \<longrightarrow> n \<in> ?F \<and> (\<exists>s \<in> set (pp_startNodes p). (node_name s, n) \<in> (filter_links w ?F)\<^sup>*)" by blast
      have sub: "(filter_links w ?F)\<^sup>* \<subseteq> (main_links w)\<^sup>*" by (rule rtrancl_mono) (auto simp: filter_links_def)
      have "obj_get (pp_runData p) n = None" if k: "ks \<noteq> []" and to: "(n, dn_nodeName dest) \<in> (main_links w)\<^sup>*"
      proof -
        from new k obtain s where "n \<in> ?F" "s \<in> set (pp_startNodes p)" "(node_name s, n) \<in> (main_links w)\<^sup>*" using sub by blast
        with to show ?thesis by (intro fresh)
      qed
      moreover have "records_new r (finish_run env thrown es') n ks"
        using ks unfolding records_new_def finish_run_plain by (auto simp: r_def)
      ultimately show ?thesis using new unfolding in_filter by (auto simp: r_def)
    qed
    moreover have "run_finished (finish_run env thrown es') \<longrightarrow> rs_nodeExecutionStack (es_run (run_state_of (finish_run env thrown es'))) = []"
      using finish_run_finished [of env thrown es'] finish_run_state(2) loop(2) by auto
    ultimately show ?thesis using Inr run exec enabled by auto
  qed
qed

section \<open>Properties\<close>

text \<open>
  C4. A partial execution as a whole, from the click on a node to the result. It is supposed that the workflow has execution order \<^verbatim>\<open>v1\<close> and no
  cycle of main connections, that names and connection types have no dash, sub-nodes take no part in main connections and the run data
  is that of finished runs with distinct execution indexes and no null outputs (\<open>partial_ready\<close>); that no node makes a request to the engine; that
  the destination is enabled and no tool; that a trigger or another node to start from is found and enabled; and that no start node has
  to wait for inputs. Then the execution is prepared without error and ends, unless the workflow has issues. A finished
  run leaves no entry on the stack. The runs that were kept are still there, in the same order and unchanged but for their metadata; the
  new runs come after them with larger execution indexes; nodes outside of the filter get none. And the purpose of a
  partial execution: a node on the way to the destination whose run data was kept is not run again.
\<close>

theorem partial_run_result:
  assumes "partial_ready env w g rd" and "no_requests env"
    and "getNode w (dn_nodeName dest) = Some d" and "\<not> is_disabled d" and "env_nodeTypes env (node_type d) (node_typeVersion d) = Some dt"
    and "\<not> isTool dt (node_parameters d)"
    and "find_start (env_nodeTypes env) w (dn_nodeName dest) rd = Inr t" and "\<not> is_disabled t"
    and "\<And>p. plan_execution lc g t d rd pd dirty = Inr p \<Longrightarrow> ss_waitingExecution (pp_stack p) = []"
  shows "\<exists>r. runPartialWorkflow2 lc (env_nodeTypes env) gnp ref w rd pd dirty dest agent = Inr r
    \<and> ((\<exists>issues. execute_partial_run env pd r = Inl (WorkflowHasIssuesError issues))
      \<or> (\<exists>run. execute_partial_run env pd r = Inr (Some run)
          \<and> (run_finished run \<longrightarrow> rs_nodeExecutionStack (es_run (run_state_of run)) = [])
          \<and> (\<forall>n. \<exists>ks. records_new r run n ks \<and> (ks \<noteq> [] \<longrightarrow> n \<in> set (pr_runNodeFilter r)
              \<and> ((n, dn_nodeName dest) \<in> (main_links w)\<^sup>* \<longrightarrow> obj_get (pp_runData (pr_plan r)) n = None)))))"
proof -
  have "\<forall>p. plan_execution lc g t d rd pd dirty = Inr p \<longrightarrow> ss_waitingExecution (pp_stack p) = []" using assms(9) by blast
  from partial_run_spec [OF assms(1-8) this, where gnp = gnp and ref = ref and agent = agent] show ?thesis by blast
qed

definition ex_kept :: IRunData where
  "ex_kept = [(''c'', [ex_run])]"

definition ex_dest_m :: IDestinationNode where
  "ex_dest_m = \<lparr>dn_nodeName = ''m'', dn_mode = Inclusive\<rparr>"

definition ex_join_graph :: DirectedGraph where
  "ex_join_graph = (case fromWorkflow ex_join of Inr g \<Rightarrow> g | Inl _ \<Rightarrow> empty_graph)"

definition ex_partial :: "Workflow \<Rightarrow> string list \<Rightarrow> IDestinationNode \<Rightarrow> partial_run res" where
  "ex_partial w dirty dest = runPartialWorkflow2 (\<lambda>_ _. 0) ex_merge_types (\<lambda>_ n. Some (node_parameters n)) 9 w ex_kept [] dirty dest None"

lemma ex_join_ready: "partial_ready (ex_env (\<lambda>_ _. None)) ex_join ex_join_graph ex_kept"
proof -
  have "case fromWorkflow ex_join of Inr _ \<Rightarrow> True | Inl _ \<Rightarrow> False" by code_simp
  then have "fromWorkflow ex_join = Inr ex_join_graph" by (auto simp: ex_join_graph_def split: sum.splits)
  moreover have "list_all (\<lambda>c. gc_type c = Main) (values_of (dg_connections ex_join_graph))" by code_simp
  then have "sub_nodes_apart ex_join_graph"
    by (auto simp: sub_nodes_apart_def conn_objs_def list_all_iff simp del: conn_objs_fold)
  moreover have "run_data_typed ex_join_graph ex_kept" "no_null_outputs ex_kept" "plain_workflow ex_join" by code_simp+
  moreover have "history_ok 1 ex_kept"
    by (simp add: history_ok_def task_indexes_def ex_kept_def ex_run_def)
  ultimately show ?thesis using ex_join_good ex_join_acyclic by (auto simp: partial_ready_def)
qed

theorem partial_run_result_witness:
  "\<exists>r run. ex_partial ex_join [] ex_dest_m = Inr r \<and> execute_partial_run (ex_env (\<lambda>_ _. None)) [] r = Inr (Some run)
     \<and> executed run = [''c'', ''a'', ''b'', ''m''] \<and> rs_nodeExecutionStack (es_run (run_state_of run)) = []
     \<and> map plain_run (runs_of (run_state_of run) ''c'') = [ex_run]"
proof -
  let ?env = "ex_env (\<lambda>_ _. None)"
  have types: "env_nodeTypes ?env = ex_merge_types" by (simp add: ex_env_def)
  have dest: "getNode ex_join (dn_nodeName ex_dest_m) = Some (ex_node 3 ''m'')" "\<not> is_disabled (ex_node 3 ''m'')" by code_simp+
  let ?m = "ex_node 3 ''m''"
  have "case ex_merge_types (node_type ?m) (node_typeVersion ?m) of None \<Rightarrow> False | Some dt \<Rightarrow> \<not> isTool dt (node_parameters ?m)" by code_simp
  then obtain dt where dt: "ex_merge_types (node_type ?m) (node_typeVersion ?m) = Some dt" "\<not> isTool dt (node_parameters ?m)"
    by (auto split: option.splits)
  have start: "find_start ex_merge_types ex_join (dn_nodeName ex_dest_m) ex_kept = Inr (ex_node 2 ''c'')" "\<not> is_disabled (ex_node 2 ''c'')" by code_simp+
  have "case plan_execution (\<lambda>_ _. 0) ex_join_graph (ex_node 2 ''c'') (ex_node 3 ''m'') ex_kept [] [] of
      Inr p \<Rightarrow> ss_waitingExecution (pp_stack p) = [] | Inl _ \<Rightarrow> True" by code_simp
  then have complete: "ss_waitingExecution (pp_stack p) = []"
    if "plan_execution (\<lambda>_ _. 0) ex_join_graph (ex_node 2 ''c'') (ex_node 3 ''m'') ex_kept [] [] = Inr p" for p
    using that by simp
  have all: "case ex_partial ex_join [] ex_dest_m of Inl _ \<Rightarrow> False | Inr r \<Rightarrow> obj_get (pp_runData (pr_plan r)) ''c'' = Some [ex_run]
      \<and> (case execute_partial_run ?env [] r of Inr (Some run) \<Rightarrow> run_finished run \<and> executed run = [''c'', ''a'', ''b'', ''m''] | _ \<Rightarrow> False)"
    by code_simp
  have "(0, ex_target ''a'' 0) \<in> set (main_targets_of ex_join ''c'')" "(0, ex_target ''m'' 0) \<in> set (main_targets_of ex_join ''a'')"
    by code_simp+
  then have "(''c'', ''a'') \<in> main_links ex_join" "(''a'', ''m'') \<in> main_links ex_join" by (force simp: main_links_def ex_target_def)+
  then have path: "(''c'', dn_nodeName ex_dest_m) \<in> (main_links ex_join)\<^sup>*" by (auto simp: ex_dest_m_def)
  from partial_run_result [where lc = "\<lambda>_ _. 0" and gnp = "\<lambda>_ n. Some (node_parameters n)" and ref = 9 and agent = None and pd = "[]" and dirty = "[]",
      OF ex_join_ready ex_env_ok dest, unfolded types, OF dt start complete] all
  obtain r run where r: "ex_partial ex_join [] ex_dest_m = Inr r" "execute_partial_run ?env [] r = Inr (Some run)"
    and fin: "run_finished run" "executed run = [''c'', ''a'', ''b'', ''m'']" "obj_get (pp_runData (pr_plan r)) ''c'' = Some [ex_run]"
    and res: "run_finished run \<longrightarrow> rs_nodeExecutionStack (es_run (run_state_of run)) = []"
      "\<forall>n. \<exists>ks. records_new r run n ks \<and> (ks \<noteq> [] \<longrightarrow> n \<in> set (pr_runNodeFilter r)
              \<and> ((n, dn_nodeName ex_dest_m) \<in> (main_links ex_join)\<^sup>* \<longrightarrow> obj_get (pp_runData (pr_plan r)) n = None))"
    unfolding ex_partial_def [symmetric] by (auto split: sum.splits option.splits)
  from res(2) path fin(3) have "records_new r run ''c'' []" by force
  moreover have "plain_run ex_run = ex_run" by (simp add: plain_run_def ex_run_def)
  ultimately have "map plain_run (runs_of (run_state_of run) ''c'') = [ex_run]" using fin(3) by (simp add: records_new_def)
  with r fin res(1) show ?thesis by (intro exI [of _ r] exI [of _ run]) simp
qed

text \<open>A chain of three nodes of which the middle one is disabled.\<close>

definition ex_chain :: Workflow where
  "ex_chain = setConnections [(''a'', [(Main, [Some [ex_target ''b'' 0]])]), (''c'', [(Main, [Some [ex_target ''a'' 0]])])]
     \<lparr>wf_nodes = [(''a'', (ex_node 0 ''a'')\<lparr>node_disabled := Some True\<rparr>), (''b'', ex_node 1 ''b''), (''c'', ex_node 2 ''c'')],
      wf_connectionsBySourceNode = [], wf_connectionsByDestinationNode = [], wf_pinData = None, wf_executionOrder = Some ''v1''\<rparr>"

text \<open>The main connections between enabled nodes.\<close>

definition enabled_links :: "Workflow \<Rightarrow> (string \<times> string) set" where
  "enabled_links w = (let E = {n. \<exists>node. getNode w n = Some node \<and> \<not> is_disabled node} in main_links w \<inter> E \<times> E)"

text \<open>
  C13. A partial execution does not get past a disabled node. Under the conditions of the theorem above (execution order \<^verbatim>\<open>v1\<close>, no cycles, no requests to the
  engine, destination and start enabled, no start node that waits, plain names, finished runs), a node gets a new run only if main connections
  between enabled nodes lead to it from a start node of the plan. The plan is made on a graph in which disabled nodes are bridged, so that the
  filter holds the nodes behind them, but the loop follows the connections of the workflow as it is and the disabled node is not in the
  filter: a destination that the start nodes reach only through a disabled node is not run. The witness is such a run: it ends
  with success, although the destination is in the filter and has not run; the execution of the whole workflow passes the data on.
\<close>

theorem partial_run_ends_at_disabled:
  assumes "partial_ready env w g rd" and "no_requests env"
    and "getNode w (dn_nodeName dest) = Some d" and "\<not> is_disabled d" and "env_nodeTypes env (node_type d) (node_typeVersion d) = Some dt"
    and "\<not> isTool dt (node_parameters d)"
    and "find_start (env_nodeTypes env) w (dn_nodeName dest) rd = Inr t" and "\<not> is_disabled t"
    and "\<And>p. plan_execution lc g t d rd pd dirty = Inr p \<Longrightarrow> ss_waitingExecution (pp_stack p) = []"
  shows "\<exists>r. runPartialWorkflow2 lc (env_nodeTypes env) gnp ref w rd pd dirty dest agent = Inr r
    \<and> ((\<exists>issues. execute_partial_run env pd r = Inl (WorkflowHasIssuesError issues))
      \<or> (\<exists>run. execute_partial_run env pd r = Inr (Some run)
          \<and> (\<forall>n. (\<forall>s \<in> set (pp_startNodes (pr_plan r)). (node_name s, n) \<notin> (enabled_links w)\<^sup>*) \<longrightarrow> records_new r run n [])))"
proof -
  have "\<forall>p. plan_execution lc g t d rd pd dirty = Inr p \<longrightarrow> ss_waitingExecution (pp_stack p) = []" using assms(9) by blast
  from partial_run_spec [OF assms(1-8) this, where gnp = gnp and ref = ref and agent = agent] obtain r where
    r: "runPartialWorkflow2 lc (env_nodeTypes env) gnp ref w rd pd dirty dest agent = Inr r"
      "\<forall>n \<in> set (pr_runNodeFilter r). \<exists>node. getNode w n = Some node \<and> \<not> is_disabled node"
    and out: "(\<exists>issues. execute_partial_run env pd r = Inl (WorkflowHasIssuesError issues))
      \<or> (\<exists>run. execute_partial_run env pd r = Inr (Some run) \<and> (\<forall>n. \<exists>ks. records_new r run n ks \<and> (ks \<noteq> [] \<longrightarrow>
          (\<exists>s \<in> set (pp_startNodes (pr_plan r)). (node_name s, n) \<in> (filter_links w (set (pr_runNodeFilter r)))\<^sup>*))))" by blast
  have "filter_links w (set (pr_runNodeFilter r)) \<subseteq> enabled_links w" using r(2) by (auto simp: filter_links_def enabled_links_def Let_def)
  then have sub: "(filter_links w (set (pr_runNodeFilter r)))\<^sup>* \<subseteq> (enabled_links w)\<^sup>*" by (rule rtrancl_mono)
  from out show ?thesis
  proof (elim disjE exE conjE)
    fix run
    assume run: "execute_partial_run env pd r = Inr (Some run)" and new: "\<forall>n. \<exists>ks. records_new r run n ks \<and> (ks \<noteq> [] \<longrightarrow>
      (\<exists>s \<in> set (pp_startNodes (pr_plan r)). (node_name s, n) \<in> (filter_links w (set (pr_runNodeFilter r)))\<^sup>*))"
    have "records_new r run n []" if "\<forall>s \<in> set (pp_startNodes (pr_plan r)). (node_name s, n) \<notin> (enabled_links w)\<^sup>*" for n
    proof -
      from new obtain ks where "records_new r run n ks" "ks \<noteq> [] \<longrightarrow>
        (\<exists>s \<in> set (pp_startNodes (pr_plan r)). (node_name s, n) \<in> (filter_links w (set (pr_runNodeFilter r)))\<^sup>*)" by blast
      with that sub show ?thesis by (cases "ks = []") blast+
    qed
    with r(1) run show ?thesis by blast
  qed (use r(1) in blast)
qed

definition ex_chain_graph :: DirectedGraph where
  "ex_chain_graph = (case fromWorkflow ex_chain of Inr g \<Rightarrow> g | Inl _ \<Rightarrow> empty_graph)"

lemma ex_chain_links: "main_links ex_chain = {(''c'', ''a''), (''a'', ''b'')}"
  by (auto simp: main_links_def main_targets_of_def ex_chain_def setConnections_def ex_target_def split: if_splits)

lemma ex_chain_good: "good_workflow (env_nodeTypes (ex_env f)) ex_chain"
proof -
  have targets: "t \<in> set (main_targets_of ex_chain p) \<Longrightarrow> p \<in> {''a'', ''c''}" for p t
    by (rule ccontr) (simp add: main_targets_of_def ex_chain_def setConnections_def)
  have "\<forall>p \<in> {''a'', ''c''}. \<forall>t \<in> set (main_targets_of ex_chain p). obj_get (wf_nodes ex_chain) (con_node (snd t)) \<noteq> None"
    by code_simp
  moreover have "\<forall>(m, node) \<in> set (wf_nodes ex_chain). node_name node = m" by code_simp
  moreover have "wf_executionOrder ex_chain = Some ''v1''" by code_simp
  moreover have "consistent ex_chain" unfolding consistent_def wf_conns_def by code_simp
  ultimately show ?thesis
    using targets map_of_SomeD [of "wf_nodes ex_chain"]
    unfolding good_workflow_def by (fastforce simp: ex_env_def ex_merge_types_def)
qed

lemma ex_chain_ready: "partial_ready (ex_env (\<lambda>_ _. None)) ex_chain ex_chain_graph ex_kept"
proof -
  have "case fromWorkflow ex_chain of Inr _ \<Rightarrow> True | Inl _ \<Rightarrow> False" by code_simp
  then have "fromWorkflow ex_chain = Inr ex_chain_graph" by (auto simp: ex_chain_graph_def split: sum.splits)
  moreover have "list_all (\<lambda>c. gc_type c = Main) (values_of (dg_connections ex_chain_graph))" by code_simp
  then have "sub_nodes_apart ex_chain_graph"
    by (auto simp: sub_nodes_apart_def conn_objs_def list_all_iff simp del: conn_objs_fold)
  moreover have "run_data_typed ex_chain_graph ex_kept" "plain_workflow ex_chain" by code_simp+
  moreover have "acyclic (main_links ex_chain)"
  proof -
    let ?rank = "\<lambda>n. if n = ''c'' then 0 else if n = ''a'' then 1 else (2::nat)"
    have "main_links ex_chain \<subseteq> measure ?rank" by (auto simp: ex_chain_links)
    then show ?thesis by (rule acyclic_subset [OF wf_acyclic [OF wf_measure]])
  qed
  ultimately show ?thesis using ex_join_ready ex_chain_good by (auto simp: partial_ready_def)
qed

theorem partial_run_ends_at_disabled_witness:
  "\<exists>r run. ex_partial ex_chain [''c''] ex_dest = Inr r \<and> execute_partial_run (ex_env (\<lambda>_ _. None)) [] r = Inr (Some run)
     \<and> dn_nodeName ex_dest = ''b'' \<and> pr_runNodeFilter r = [''c'', ''b''] \<and> records_new r run ''b'' []
     \<and> run_finished run \<and> run_status run = StatusSuccess \<and> executed run = [''c'']
     \<and> (case ex_result ex_chain (\<lambda>_ _. None) of Some whole \<Rightarrow> executed whole = [''c'', ''a'', ''b''] | None \<Rightarrow> False)"
proof -
  let ?env = "ex_env (\<lambda>_ _. None)" and ?b = "ex_node 1 ''b''" and ?c = "ex_node 2 ''c''"
  have types: "env_nodeTypes ?env = ex_merge_types" by (simp add: ex_env_def)
  have dest: "getNode ex_chain (dn_nodeName ex_dest) = Some ?b" "\<not> is_disabled ?b" by code_simp+
  have "case ex_merge_types (node_type ?b) (node_typeVersion ?b) of None \<Rightarrow> False | Some dt \<Rightarrow> \<not> isTool dt (node_parameters ?b)" by code_simp
  then obtain dt where dt: "ex_merge_types (node_type ?b) (node_typeVersion ?b) = Some dt" "\<not> isTool dt (node_parameters ?b)"
    by (auto split: option.splits)
  have start: "find_start ex_merge_types ex_chain (dn_nodeName ex_dest) ex_kept = Inr ?c" "\<not> is_disabled ?c" by code_simp+
  have "case plan_execution (\<lambda>_ _. 0) ex_chain_graph ?c ?b ex_kept [] [''c''] of
      Inr p \<Rightarrow> ss_waitingExecution (pp_stack p) = [] | Inl _ \<Rightarrow> True" by code_simp
  then have complete: "ss_waitingExecution (pp_stack p) = []"
    if "plan_execution (\<lambda>_ _. 0) ex_chain_graph ?c ?b ex_kept [] [''c''] = Inr p" for p
    using that by simp
  have all: "case ex_partial ex_chain [''c''] ex_dest of Inl _ \<Rightarrow> False | Inr r \<Rightarrow> pr_runNodeFilter r = [''c'', ''b''] \<and> pp_startNodes (pr_plan r) = [?c]
      \<and> (case execute_partial_run ?env [] r of Inr (Some run) \<Rightarrow> run_finished run \<and> run_status run = StatusSuccess \<and> executed run = [''c''] | _ \<Rightarrow> False)"
    by code_simp
  have whole: "case ex_result ex_chain (\<lambda>_ _. None) of Some whole \<Rightarrow> executed whole = [''c'', ''a'', ''b''] | None \<Rightarrow> False" by code_simp
  have "case getNode ex_chain ''a'' of Some node \<Rightarrow> is_disabled node | None \<Rightarrow> False" by code_simp
  then have "enabled_links ex_chain = {}" by (auto simp: enabled_links_def Let_def ex_chain_links split: option.splits)
  moreover have "node_name ?c \<noteq> ''b''" "dn_nodeName ex_dest = ''b''" by code_simp+
  ultimately show ?thesis
    using partial_run_ends_at_disabled [where lc = "\<lambda>_ _. 0" and gnp = "\<lambda>_ n. Some (node_parameters n)" and ref = 9 and agent = None and pd = "[]"
      and dirty = "[''c'']", OF ex_chain_ready ex_env_ok dest, unfolded types, OF dt start complete, folded ex_partial_def] all whole
    by (auto split: sum.splits option.splits)
qed

end
