(* ===== verification/Workflow_Correct.thy ===== *)
theory Workflow_Correct
  imports Workflow_Graph Directed_Graph
begin

text \<open>
  Correctness of the methods of \<^verbatim>\<open>Workflow\<close>: renaming a node to a fresh name is an isomorphism
  of the connections and keeps the workflow closed; the highest parents are enabled ancestors;
  a start node is never disabled; the breadth-first search returns every reachable node with its
  distance; \<^verbatim>\<open>getNodeConnectionIndexes\<close> answers exactly for the ancestors of a node.
\<close>

section \<open>Renaming\<close>

lemma moveKey_get:
  assumes "cur \<noteq> new"
  shows "map_get (moveKey cur new f m) k =
    (case map_get m cur of None \<Rightarrow> map_get m k
     | Some v \<Rightarrow> if k = cur then None else if k = new then Some (f v) else map_get m k)"
  using assms by (auto simp: moveKey_def js_obj.get_put js_obj.get_del split: option.split)

lemma moveKey_distinct: "distinct (keys_of m) \<Longrightarrow> distinct (keys_of (moveKey cur new f m))"
  by (auto simp: moveKey_def js_obj.distinct_put js_obj.distinct_del split: option.split)

lemma map_get_map: "map_get (map (\<lambda>(k, v). (k, f v)) m) k = map_option f (map_get m k)"
  by (induction m) auto

lemma or_empty_map: "or_empty (map_option (map f) x) = map f (or_empty x)"
  by (cases x) simp_all

lemma arr_get_map: "arr_get (map (map_option f) xs) i = map_option f (arr_get xs i)"
  by (simp add: arr_get_def)

lemma conns_at_renameTargets:
  "conns_at (renameTargets cur new m) n t i = map (renameTarget cur new) (conns_at m n t i)"
  unfolding renameTargets_def conns_at_def
  by (simp add: map_get_map arr_get_map or_empty_map split: option.split)

lemma renameNode_ok:
  assumes "map to_lower new \<notin> set (map (map to_lower) restrictedKeys)"
  shows "renameNode ap cur new w = Inr (w\<lparr>
     wf_nodes := map (\<lambda>(k, n). (k, renameInNode ap cur new n)) (moveKey cur new (\<lambda>n. n\<lparr>node_name := new\<rparr>) (wf_nodes w)),
     wf_connectionsBySourceNode := renameTargets cur new (moveKey cur new (\<lambda>v. v) (wf_connectionsBySourceNode w))\<rparr>)"
  using assms by (simp add: renameNode_def Let_def)

definition rename :: "string \<Rightarrow> string \<Rightarrow> string \<Rightarrow> string" where
  "rename cur new n = (if n = cur then new else n)"

lemma renameTarget_node [simp]:
  "con_node (renameTarget cur new c) = rename cur new (con_node c)"
  by (simp add: renameTarget_def rename_def)

lemma renamed_conns:
  assumes "cur \<noteq> new" and "map_get m new = None" and "s \<noteq> new"
  shows "conns_at (renameTargets cur new (moveKey cur new (\<lambda>v. v) m)) (rename cur new s) t i
    = map (renameTarget cur new) (conns_at m s t i)"
proof -
  have "map_get (moveKey cur new (\<lambda>v. v) m) (rename cur new s) = map_get m s"
    using assms by (auto simp: moveKey_get rename_def split: option.split)
  then have "conns_at (moveKey cur new (\<lambda>v. v) m) (rename cur new s) t i = conns_at m s t i"
    by (simp add: conns_at_def)
  then show ?thesis by (simp add: conns_at_renameTargets)
qed

lemma renamed_conns_cur:
  assumes "cur \<noteq> new"
  shows "conns_at (renameTargets cur new (moveKey cur new (\<lambda>v. v) m)) cur t i = []"
proof -
  have "map_get (moveKey cur new (\<lambda>v. v) m) cur = None"
    using assms by (simp add: moveKey_get split: option.split)
  then show ?thesis unfolding conns_at_renameTargets by (simp add: conns_at_def)
qed

lemma renamed_nodes:
  assumes "cur \<noteq> new" and "map_get m new = None" and "s \<noteq> new"
  shows "map_get (map (\<lambda>(k, n). (k, f n)) (moveKey cur new g m)) (rename cur new s)
    = map_option (\<lambda>n. f (if s = cur then g n else n)) (map_get m s)"
  using assms by (auto simp: map_get_map moveKey_get rename_def split: option.split)

text \<open>
  A workflow is closed if its nodes are filed under their names and every connection joins two
  of them.
\<close>

definition closed_workflow :: "Workflow \<Rightarrow> bool" where
  "closed_workflow w \<longleftrightarrow> (\<forall>k n. map_get (wf_nodes w) k = Some n \<longrightarrow> node_name n = k) \<and>
     (\<forall>s. map_get (wf_connectionsBySourceNode w) s \<noteq> None \<longrightarrow> map_get (wf_nodes w) s \<noteq> None) \<and>
     (\<forall>s t i c. c \<in> set (conns_at (wf_connectionsBySourceNode w) s t i) \<longrightarrow> map_get (wf_nodes w) (con_node c) \<noteq> None)"

lemma closed_workflowI:
  assumes "list_all (\<lambda>(k, n). node_name n = k) (wf_nodes w)" and "wf_conns (wf_connectionsBySourceNode w)"
    and "list_all (\<lambda>s. s \<in> set (keys_of (wf_nodes w))) (keys_of (wf_connectionsBySourceNode w))"
    and "list_all (\<lambda>(s, t, i, c). con_node c \<in> set (keys_of (wf_nodes w))) (flat_conns (wf_connectionsBySourceNode w))"
  shows "closed_workflow w"
  using assms(1,3,4) unfolding closed_workflow_def set_flat_conns [OF assms(2), symmetric]
  by (force simp: list_all_iff map_of_eq_None_iff dest: map_of_SomeD)

lemma renameInNode_name [simp]: "node_name (renameInNode ap cur new n) = node_name n"
  by (simp add: renameInNode_def Let_def)

lemma conns_at_source: "c \<in> set (conns_at m s t i) \<Longrightarrow> map_get m s \<noteq> None"
  by (cases "map_get m s") (simp_all add: conns_at_def)

lemma rename_closed:
  assumes "cur \<noteq> new" and closed: "closed_workflow w" and cur: "map_get (wf_nodes w) cur \<noteq> None"
    and new: "map_get (wf_nodes w) new = None" and ok: "renameNode ap cur new w = Inr w'"
  shows "closed_workflow w'"
proof -
  let ?m = "wf_connectionsBySourceNode w"
  have src: "map_get ?m new = None" using closed new unfolding closed_workflow_def by blast
  from ok have w': "wf_nodes w' = map (\<lambda>(k, n). (k, renameInNode ap cur new n))
      (moveKey cur new (\<lambda>n. n\<lparr>node_name := new\<rparr>) (wf_nodes w))"
    "wf_connectionsBySourceNode w' = renameTargets cur new (moveKey cur new (\<lambda>v. v) ?m)"
    by (auto simp: renameNode_def Let_def split: if_splits)
  have nodes: "map_get (wf_nodes w') k = (if k = cur then None else if k = new
      then map_option (\<lambda>n. renameInNode ap cur new (n\<lparr>node_name := new\<rparr>)) (map_get (wf_nodes w) cur)
      else map_option (renameInNode ap cur new) (map_get (wf_nodes w) k))" for k
    using assms(1) cur by (auto simp: w' map_get_map moveKey_get)
  have kept: "map_get (wf_nodes w') (rename cur new k) \<noteq> None" if "map_get (wf_nodes w) k \<noteq> None" for k
    using that assms(1) cur by (auto simp: nodes rename_def)
  have "map_get ?m s \<noteq> None" if "map_get (wf_connectionsBySourceNode w') (rename cur new s) \<noteq> None" "s \<noteq> new" for s
    using that assms(1) src unfolding w'(2) renameTargets_def
    by (auto simp: map_get_map moveKey_get rename_def split: option.splits if_splits)
  moreover have "map_get (wf_connectionsBySourceNode w') cur = None"
    using assms(1) unfolding w'(2) renameTargets_def by (auto simp: map_get_map moveKey_get split: option.splits)
  moreover have "map_get (wf_nodes w) k \<noteq> None" if "map_get ?m k \<noteq> None" for k
    using that closed unfolding closed_workflow_def by blast
  ultimately have s: "map_get (wf_nodes w') s \<noteq> None" if "map_get (wf_connectionsBySourceNode w') s \<noteq> None" for s
    using that kept [of s] kept [OF cur] assms(1)
    by (cases "s = new"; cases "s = cur") (force simp: rename_def)+
  have "map_get (wf_nodes w') (con_node c) \<noteq> None"
    if c: "c \<in> set (conns_at (wf_connectionsBySourceNode w') s t i)" for s t i c
  proof -
    have "s \<noteq> cur" using c renamed_conns_cur [OF assms(1), of ?m t i] by (auto simp: w'(2))
    then obtain s0 where s0: "s = rename cur new s0" "s0 \<noteq> new"
      using assms(1) by (metis rename_def)
    from c renamed_conns [OF assms(1) src s0(2), of t i] obtain d where
      "c = renameTarget cur new d" "d \<in> set (conns_at ?m s0 t i)" by (auto simp: w'(2) s0(1))
    with closed kept show ?thesis unfolding closed_workflow_def by (metis renameTarget_node)
  qed
  moreover have "node_name n = k" if "map_get (wf_nodes w') k = Some n" for k n
    using that closed unfolding closed_workflow_def by (auto simp: nodes split: if_splits)
  ultimately show ?thesis using s unfolding closed_workflow_def by blast
qed

section \<open>The start node\<close>

lemma firstTrigger_enabled:
  "firstTrigger nts w names = Inr (Some n) \<Longrightarrow>
     node_disabled n \<noteq> Some True \<and> n \<in> set (values_of (wf_nodes w))"
  by (induction names) (auto split: option.splits if_splits dest!: map_of_SomeD intro: rev_image_eqI)

lemma firstStartingNode_enabled:
  "firstStartingNode w names = Inr (Some n) \<Longrightarrow>
     node_disabled n \<noteq> Some True \<and> n \<in> set (values_of (wf_nodes w))"
  by (induction names) (auto split: option.splits if_splits dest!: map_of_SomeD intro: rev_image_eqI)

text \<open>
  \<^verbatim>\<open>__getStartNode\<close> returns only a node of the workflow, and never one that is disabled.
\<close>

lemma getStartNodeOf_enabled:
  assumes "getStartNodeOf nts w names = Inr (Some n)"
  shows "node_disabled n \<noteq> Some True \<and> n \<in> set (values_of (wf_nodes w))"
proof -
  let ?single = "case names of [k] \<Rightarrow> (case obj_get (wf_nodes w) k of
      Some node \<Rightarrow> if is_disabled node then None else Some node | None \<Rightarrow> None) | _ \<Rightarrow> None"
  have single: "node_disabled m \<noteq> Some True \<and> m \<in> set (values_of (wf_nodes w))" if "?single = Some m" for m
    using that by (auto simp: is_disabled_def split: list.splits option.splits if_splits
        dest!: map_of_SomeD intro: rev_image_eqI)
  show ?thesis
  proof (cases ?single)
    case None
    with assms have "firstTrigger nts w names = Inr (Some n) \<or> firstStartingNode w (sortedNodeNames w) = Inr (Some n)"
      by (auto simp: getStartNodeOf_def bind_res_eq_Inr split: option.splits)
    then show ?thesis using firstTrigger_enabled firstStartingNode_enabled by blast
  next
    case (Some m)
    with assms single show ?thesis by (simp add: getStartNodeOf_def)
  qed
qed

definition ex_types :: NodeTypes where
  "ex_types _ _ = Some \<lparr>nt_name = ''n8n-nodes-base.set'', nt_group = [''trigger''], nt_outputs = StaticOutputs [OutputType Main],
     nt_inputs = StaticOutputs [OutputType Main], nt_requiredInputs = None, nt_trigger = True, nt_poll = False,
     nt_execute = True, nt_webhook = False, nt_supplyData = False, nt_requestDefaults = False, nt_customOperations = None\<rparr>"

definition ex_workflow :: Workflow where
  "ex_workflow = new_workflow ex_types (\<lambda>_ n. Some (node_parameters n)) [ex_node 0 ''t'', ex_node 1 ''a'', ex_node 2 ''b'']
     [(''t'', [(Main, [Some [\<lparr>con_node = ''a'', con_type = Main, con_index = 0\<rparr>]])]),
      (''a'', [(Main, [Some [\<lparr>con_node = ''b'', con_type = Main, con_index = 1\<rparr>]])])] None None"

section \<open>The highest parents\<close>

definition parent_edges :: "Workflow \<Rightarrow> (string \<times> string) set" where
  "parent_edges w = {(n, con_node c) | n c. c \<in> set (main_parents w n None)}"

definition enabled_names :: "Workflow \<Rightarrow> string set" where
  "enabled_names w = {n. \<exists>node. map_get (wf_nodes w) n = Some node \<and> node_disabled node \<noteq> Some True}"

lemma main_parents_subset: "set (main_parents w n i) \<subseteq> set (main_parents w n None)"
  by (auto simp: main_parents_def split: if_splits)

lemma highest_ancestors:
  "distinct (fst (getHighestNode w n i checked)) \<and>
     set (fst (getHighestNode w n i checked)) \<subseteq> enabled_names w \<inter> (parent_edges w)\<^sup>* `` {n}"
  "(\<forall>c \<in> set cs. (x, con_node c) \<in> parent_edges w) \<Longrightarrow> distinct ret \<Longrightarrow>
     set ret \<subseteq> enabled_names w \<inter> (parent_edges w)\<^sup>* `` {x} \<Longrightarrow>
     distinct (fst (highestLoop w cs ret checked)) \<and>
     set (fst (highestLoop w cs ret checked)) \<subseteq> enabled_names w \<inter> (parent_edges w)\<^sup>* `` {x}"
proof (induction w n i checked and w cs ret checked arbitrary: and x rule: getHighestNode_highestLoop.induct)
  case (1 w n i checked)
  have "\<forall>c \<in> set (main_parents w n i). (n, con_node c) \<in> parent_edges w"
    using main_parents_subset [of w n i] by (auto simp: parent_edges_def)
  with 1 show ?case
    by (auto simp: getHighestNode.simps [of w n] enabled_names_def Let_def split: option.splits)
next
  case (2 w ret checked)
  then show ?case by (simp add: highestLoop.simps)
next
  case (3 w c cs ret checked)
  have x: "(x, con_node c) \<in> parent_edges w" using "3.prems"(1) by simp
  show ?case
  proof (cases "con_node c \<in> set checked \<or> map_get (wf_nodes w) (con_node c) = None")
    case True
    with 3(1,2) [where x = x] "3.prems" show ?thesis by (auto simp: highestLoop.simps(2))
  next
    case False
    then obtain node where node: "con_node c \<notin> set checked" "map_get (wf_nodes w) (con_node c) = Some node" by auto
    obtain add checked' where r: "getHighestNode w (con_node c) None checked = (add, checked')" by fastforce
    define add' where "add' = (if add = [] \<and> node_disabled node \<noteq> Some True then [con_node c] else add)"
    have "set add \<subseteq> enabled_names w \<inter> (parent_edges w)\<^sup>* `` {con_node c}" using 3(3) [OF node] r by simp
    then have "set add' \<subseteq> enabled_names w \<inter> (parent_edges w)\<^sup>* `` {x}"
      using x node(2) by (auto simp: add'_def enabled_names_def intro: converse_rtrancl_into_rtrancl)
    then have "set (fold set_add add' ret) \<subseteq> enabled_names w \<inter> (parent_edges w)\<^sup>* `` {x}"
      "distinct (fold set_add add' ret)" using "3.prems" by (auto simp: fold_set_add)
    with 3(4) [OF node r [symmetric] add'_def, of x] "3.prems" node r show ?thesis
      by (simp add: highestLoop.simps(2) Let_def add'_def)
  qed
qed

section \<open>Connection indexes\<close>

definition index_edges :: "IConnections \<Rightarrow> string \<Rightarrow> (string \<times> string) set" where
  "index_edges conns t = {(n, con_node c) | n j c. (j, c) \<in> set (indexed_conns conns n t)}"

lemma scanConnections_spec:
  "case scanConnections p visited cs queue of
     Inl r \<Rightarrow> \<exists>j c. (j, c) \<in> set cs \<and> con_node c = p \<and> r = \<lparr>nc_sourceIndex = con_index c, nc_destinationIndex = j\<rparr>
   | Inr queue' \<Rightarrow> (\<forall>(j, c) \<in> set cs. con_node c \<noteq> p) \<and> set queue \<subseteq> set queue'
       \<and> set queue' \<subseteq> set queue \<union> (con_node \<circ> snd) ` set cs \<and> (con_node \<circ> snd) ` set cs \<subseteq> set visited \<union> set queue'"
proof (induction p visited cs queue rule: scanConnections.induct)
  case (1 p visited queue)
  then show ?case by simp
next
  case (2 p visited j c rest queue)
  show ?case
  proof (cases "p = con_node c")
    case True
    then show ?thesis by auto
  next
    case False
    from 2 [OF False] show ?thesis
      using False by (auto split: sum.splits if_splits)
  qed
qed

text \<open>The loop with visited nodes none of which is joined to the parent: it finds a connection
  exactly if the parent is reachable from the queue.\<close>

lemma connectionIndexLoop_spec:
  assumes "index_edges conns t `` set visited \<subseteq> set visited \<union> set queue" and "p \<notin> index_edges conns t `` set visited"
  shows "case connectionIndexLoop conns p t visited queue of
     Some r \<Rightarrow> \<exists>a j c. a \<in> (index_edges conns t)\<^sup>* `` set queue \<and> (j, c) \<in> set (indexed_conns conns a t)
         \<and> con_node c = p \<and> r = \<lparr>nc_sourceIndex = con_index c, nc_destinationIndex = j\<rparr>
   | None \<Rightarrow> p \<notin> (index_edges conns t)\<^sup>+ `` (set visited \<union> set queue)"
  using assms
proof (induction conns p t visited queue rule: connectionIndexLoop.induct)
  case (1 conns p t visited)
  let ?E = "index_edges conns t"
  have "y \<in> set visited \<and> y \<noteq> p" if "(x, y) \<in> ?E\<^sup>+" "x \<in> set visited" for x y
    using that 1 by induction auto
  then show ?case by auto
next
  case (2 conns p t visited n queue)
  let ?E = "index_edges conns t"
  show ?case
  proof (cases "n \<in> set visited")
    case True
    with 2(1) "2.prems" have "case connectionIndexLoop conns p t visited queue of
     Some r \<Rightarrow> \<exists>a j c. a \<in> ?E\<^sup>* `` set queue \<and> (j, c) \<in> set (indexed_conns conns a t) \<and> con_node c = p
         \<and> r = \<lparr>nc_sourceIndex = con_index c, nc_destinationIndex = j\<rparr>
     | None \<Rightarrow> p \<notin> ?E\<^sup>+ `` (set visited \<union> set queue)" by auto
    then show ?thesis using True
      by (auto simp: connectionIndexLoop.simps(2) insert_absorb split: option.splits)
  next
    case False
    let ?cs = "indexed_conns conns n t"
    have En: "?E `` {n} = (con_node \<circ> snd) ` set ?cs" by (force simp: index_edges_def)
    note scan = scanConnections_spec [where p = p and visited = "set_add n visited" and cs = ?cs and queue = queue]
    show ?thesis
    proof (cases "scanConnections p (set_add n visited) ?cs queue")
      case (Inl r)
      with scan False show ?thesis by (auto simp: connectionIndexLoop.simps(2))
    next
      case (Inr queue')
      with scan have q: "p \<notin> ?E `` {n}" "set queue \<subseteq> set queue'" "set queue' \<subseteq> set queue \<union> ?E `` {n}"
        "?E `` {n} \<subseteq> insert n (set visited) \<union> set queue'" unfolding En by auto
      have "?E `` set (set_add n visited) \<subseteq> set (set_add n visited) \<union> set queue'" "p \<notin> ?E `` set (set_add n visited)"
        using q "2.prems" by auto
      note IH = 2(2) [OF False Inr this]
      have "?E\<^sup>* `` set queue' \<subseteq> ?E\<^sup>* `` set (n # queue)"
        using q(3) by (auto intro: converse_rtrancl_into_rtrancl)
      moreover have "set visited \<union> set (n # queue) \<subseteq> set (set_add n visited) \<union> set queue'" using q(2) by auto
      moreover have "connectionIndexLoop conns p t visited (n # queue) = connectionIndexLoop conns p t (set_add n visited) queue'"
        using False Inr by (simp add: connectionIndexLoop.simps(2))
      ultimately show ?thesis
        using IH by (cases "connectionIndexLoop conns p t (set_add n visited) queue'")
          (simp only: option.case, blast)+
    qed
  qed
qed

lemma getNodeConnectionIndexes_spec:
  fixes w t
  defines "E \<equiv> index_edges (wf_connectionsByDestinationNode w) t"
  shows "getNodeConnectionIndexes w n p t \<noteq> None \<longleftrightarrow> getNode w p \<noteq> None \<and> (n, p) \<in> E\<^sup>+"
    and "getNodeConnectionIndexes w n p t = Some r \<Longrightarrow> \<exists>a j c. (n, a) \<in> E\<^sup>*
      \<and> (j, c) \<in> set (indexed_conns (wf_connectionsByDestinationNode w) a t) \<and> con_node c = p
      \<and> r = \<lparr>nc_sourceIndex = con_index c, nc_destinationIndex = j\<rparr>"
proof -
  let ?loop = "connectionIndexLoop (wf_connectionsByDestinationNode w) p t [] [n]"
  have loop: "case ?loop of
     Some r \<Rightarrow> \<exists>a j c. (n, a) \<in> E\<^sup>* \<and> (j, c) \<in> set (indexed_conns (wf_connectionsByDestinationNode w) a t)
       \<and> con_node c = p \<and> r = \<lparr>nc_sourceIndex = con_index c, nc_destinationIndex = j\<rparr>
   | None \<Rightarrow> (n, p) \<notin> E\<^sup>+"
    using connectionIndexLoop_spec [where conns = "wf_connectionsByDestinationNode w" and t = t and visited = "[]" and queue = "[n]" and p = p]
    by (simp add: E_def split: option.splits)
  moreover have "(n, p) \<in> E\<^sup>+" if "(n, a) \<in> E\<^sup>*" "(j, c) \<in> set (indexed_conns (wf_connectionsByDestinationNode w) a t)" "con_node c = p" for a j c
    using that by (auto simp: E_def index_edges_def intro!: rtrancl_into_trancl1)
  ultimately show "getNodeConnectionIndexes w n p t \<noteq> None \<longleftrightarrow> getNode w p \<noteq> None \<and> (n, p) \<in> E\<^sup>+"
    by (auto simp: getNodeConnectionIndexes_def split: option.splits)
  from loop show "getNodeConnectionIndexes w n p t = Some r \<Longrightarrow> \<exists>a j c. (n, a) \<in> E\<^sup>*
      \<and> (j, c) \<in> set (indexed_conns (wf_connectionsByDestinationNode w) a t) \<and> con_node c = p
      \<and> r = \<lparr>nc_sourceIndex = con_index c, nc_destinationIndex = j\<rparr>"
    by (auto simp: getNodeConnectionIndexes_def split: option.splits)
qed

section \<open>Breadth-first search\<close>

definition main_rel :: "IConnections \<Rightarrow> (string \<times> string) set" where
  "main_rel conns = {(n, con_node c) | n c. c \<in> set (main_conns conns n)}"

definition is_dist :: "('a \<times> 'a) set \<Rightarrow> 'a \<Rightarrow> 'a \<Rightarrow> nat \<Rightarrow> bool" where
  "is_dist r s n k \<longleftrightarrow> (s, n) \<in> r ^^ k \<and> (\<forall>j < k. (s, n) \<notin> r ^^ j)"

definition bfs_view :: "(string \<times> IConnectedNode) list \<Rightarrow> string \<rightharpoonup> nat" where
  "bfs_view visited n = map_option cn_depth (map_get visited n)"

definition named_entries :: "(string \<times> IConnectedNode) list \<Rightarrow> bool" where
  "named_entries visited \<longleftrightarrow> (\<forall>n v. map_get visited n = Some v \<longrightarrow> cn_name v = n)"

text \<open>One visit and one round: the names of the queue that are new get the depth of the round, and
  their children make up the next queue.\<close>

definition bfs_added ::
  "IConnections \<Rightarrow> string \<Rightarrow> nat \<Rightarrow> string set \<Rightarrow> bfs_state \<Rightarrow> bfs_state \<Rightarrow> bool" where
  "bfs_added conns s d X st st' \<longleftrightarrow> (case (st, st') of ((visited, ret, q), (visited', ret', q')) \<Rightarrow>
     named_entries visited' \<and> distinct ret' \<and> set ret' \<subseteq> dom (bfs_view visited')
     \<and> (\<forall>c \<in> set q'. cn_depth c = Suc d)
     \<and> bfs_view visited' = (\<lambda>n. if n \<in> X then Some d else None) ++ bfs_view visited
     \<and> set ret' = set ret \<union> (X - dom (bfs_view visited) - {s})
     \<and> cn_name ` set q' = cn_name ` set q \<union> main_rel conns `` (X - dom (bfs_view visited)))"

definition bfs_ok :: "nat \<Rightarrow> bfs_state \<Rightarrow> bool" where
  "bfs_ok d st \<longleftrightarrow> (case st of (visited, ret, q) \<Rightarrow> named_entries visited \<and> distinct ret
     \<and> set ret \<subseteq> dom (bfs_view visited) \<and> (\<forall>c \<in> set q. cn_depth c = Suc d))"

lemma bfs_visit_one:
  assumes "bfs_ok d (visited, ret, q)" and "cn_depth c = d"
  shows "bfs_added conns s d {cn_name c} (visited, ret, q) (bfsVisit conns s (Suc d) c (visited, ret, q))"
proof (cases "map_get visited (cn_name c)")
  case None
  let ?q = "q @ map (\<lambda>c. \<lparr>cn_name = con_node c, cn_indicies = [con_index c], cn_depth = Suc d\<rparr>) (main_conns conns (cn_name c))"
  let ?r = "if cn_name c \<noteq> s then ret @ [cn_name c] else ret" and ?v = "obj_set (cn_name c) c visited"
  have n: "cn_name c \<notin> dom (bfs_view visited)" using None by (simp add: domIff bfs_view_def)
  have "main_rel conns `` {cn_name c} = con_node ` set (main_conns conns (cn_name c))" by (auto simp: main_rel_def)
  then have "cn_name ` set ?q = cn_name ` set q \<union> main_rel conns `` ({cn_name c} - dom (bfs_view visited))"
    using n by (simp add: image_Un image_image insert_Diff_if)
  moreover have "bfs_view ?v = (\<lambda>n. if n \<in> {cn_name c} then Some d else None) ++ bfs_view visited" "named_entries ?v"
    using None assms
    by (auto simp: js_obj.get_put bfs_view_def bfs_ok_def named_entries_def map_add_def fun_eq_iff split: option.splits)
  moreover have "distinct ?r" "set ?r = set ret \<union> ({cn_name c} - dom (bfs_view visited) - {s})"
    using n assms(1) by (auto simp: bfs_ok_def)
  moreover have "\<forall>c \<in> set ?q. cn_depth c = Suc d" using assms(1) by (auto simp: bfs_ok_def)
  moreover have "bfsVisit conns s (Suc d) c (visited, ret, q) = (?v, ?r, ?q)" using None by (simp add: bfsVisit_def)
  ultimately show ?thesis using assms(1) n unfolding bfs_added_def bfs_ok_def by auto
next
  case (Some v)
  then have "cn_name c \<in> dom (bfs_view visited)" by (simp add: domIff bfs_view_def)
  moreover define v' where "v' = obj_set (cn_name c) (v\<lparr>cn_indicies := set_of (cn_indicies v @ cn_indicies c)\<rparr>) visited"
  then have "bfs_view v' = bfs_view visited" "named_entries v'"
    using Some assms(1) by (auto simp: js_obj.get_put bfs_view_def bfs_ok_def named_entries_def fun_eq_iff)
  moreover have "bfsVisit conns s (Suc d) c (visited, ret, q) = (v', ret, q)" using Some by (simp add: bfsVisit_def v'_def)
  ultimately show ?thesis
    using assms(1) by (auto simp: bfs_added_def bfs_ok_def map_add_def fun_eq_iff split: option.splits)
qed

lemma bfs_added_ok: "bfs_added conns s d X st st' \<Longrightarrow> bfs_ok d st'"
  by (auto simp: bfs_added_def bfs_ok_def split: prod.splits)

lemma bfs_added_trans:
  assumes "bfs_added conns s d X st st1" and "bfs_added conns s d Y st1 st2"
  shows "bfs_added conns s d (X \<union> Y) st st2"
proof -
  obtain v r q v1 r1 q1 v2 r2 q2 where st: "st = (v, r, q)" "st1 = (v1, r1, q1)" "st2 = (v2, r2, q2)"
    by (metis prod_cases3)
  note 1 = assms(1) [unfolded st bfs_added_def prod.case] and 2 = assms(2) [unfolded st bfs_added_def prod.case]
  have dom: "dom (bfs_view v1) = X \<union> dom (bfs_view v)" using 1 by (auto split: if_splits)
  have "bfs_view v2 = (\<lambda>n. if n \<in> X \<union> Y then Some d else None) ++ bfs_view v"
    using 1 2 by (auto simp: map_add_def fun_eq_iff split: option.splits)
  moreover have "set r2 = set r \<union> (X \<union> Y - dom (bfs_view v) - {s})" using 1 2 unfolding dom by auto
  moreover have "cn_name ` set q2 = cn_name ` set q \<union> main_rel conns `` (X \<union> Y - dom (bfs_view v))"
    using 1 2 unfolding dom by auto
  ultimately show ?thesis unfolding st bfs_added_def prod.case using 2 by blast
qed

lemma bfs_round:
  "bfs_ok d st \<Longrightarrow> \<forall>c \<in> set queue. cn_depth c = d \<Longrightarrow>
     bfs_added conns s d (cn_name ` set queue) st (fold (bfsVisit conns s (Suc d)) queue st)"
proof (induction queue arbitrary: st)
  case Nil
  then show ?case by (auto simp: bfs_added_def bfs_ok_def map_add_def fun_eq_iff split: option.splits prod.splits)
next
  case (Cons c queue)
  obtain v r q where st: "st = (v, r, q)" by (metis prod_cases3)
  let ?st1 = "bfsVisit conns s (Suc d) c st"
  have 1: "bfs_added conns s d {cn_name c} st ?st1" using bfs_visit_one Cons.prems unfolding st by simp
  from bfs_added_trans [OF 1 Cons.IH [OF bfs_added_ok [OF 1]]] Cons.prems(2) show ?case by simp
qed

text \<open>The invariant of the loop at depth \<open>d\<close>: exactly the nodes nearer than \<open>d\<close> are visited, with
  their distance.\<close>

definition bfs_inv ::
  "IConnections \<Rightarrow> string \<Rightarrow> nat \<Rightarrow> IConnectedNode list \<Rightarrow> (string \<times> IConnectedNode) list \<Rightarrow> string list \<Rightarrow> bool" where
  "bfs_inv conns s d queue visited ret \<longleftrightarrow> bfs_ok d (visited, ret, [])
     \<and> (\<forall>n k. bfs_view visited n = Some k \<longleftrightarrow> is_dist (main_rel conns) s n k \<and> k < d)
     \<and> set ret = dom (bfs_view visited) - {s}
     \<and> (\<forall>c \<in> set queue. cn_depth c = d) \<and> cn_name ` set queue \<subseteq> (main_rel conns ^^ d) `` {s}
     \<and> (main_rel conns ^^ d) `` {s} \<subseteq> cn_name ` set queue \<union> dom (bfs_view visited)"

lemma is_dist_exists: "(s, n) \<in> r ^^ k \<Longrightarrow> \<exists>j \<le> k. is_dist r s n j"
  by (rule exI [of _ "LEAST j. (s, n) \<in> r ^^ j"])
    (auto simp: is_dist_def intro: LeastI Least_le dest: not_less_Least)

lemma is_dist_unique: "is_dist r s n j \<Longrightarrow> is_dist r s n k \<Longrightarrow> j = k"
  by (metis is_dist_def linorder_neqE_nat)

lemma bfs_inv_step:
  assumes "bfs_inv conns s d queue visited ret"
    and "fold (bfsVisit conns s (Suc d)) queue (visited, ret, []) = (visited', ret', queue')"
  shows "bfs_inv conns s (Suc d) queue' visited' ret'"
proof -
  let ?r = "main_rel conns" and ?Q = "cn_name ` set queue"
  note inv = assms(1) [unfolded bfs_inv_def]
  have add: "bfs_added conns s d ?Q (visited, ret, []) (visited', ret', queue')"
    using bfs_round [of d "(visited, ret, [])" queue conns s] inv assms(2) by simp
  note add' = add [unfolded bfs_added_def prod.case]
  have dom: "n \<in> dom (bfs_view visited) \<longleftrightarrow> (\<exists>k < d. (s, n) \<in> ?r ^^ k)" for n
  proof -
    have "n \<in> dom (bfs_view visited) \<longleftrightarrow> (\<exists>k < d. is_dist ?r s n k)" using inv by auto
    moreover have "\<exists>j < d. is_dist ?r s n j" if "(s, n) \<in> ?r ^^ k" "k < d" for k
      using is_dist_exists [OF that(1)] that(2) order_le_less_trans by blast
    moreover have "(s, n) \<in> ?r ^^ k" if "is_dist ?r s n k" for k using that by (simp add: is_dist_def)
    ultimately show ?thesis by blast
  qed
  have new: "is_dist ?r s n d" if "n \<in> ?Q" "n \<notin> dom (bfs_view visited)" for n
    using that inv dom [of n] by (auto simp: is_dist_def)
  have view: "bfs_view visited' n = Some k \<longleftrightarrow> is_dist ?r s n k \<and> k < Suc d" for n k
  proof (cases "n \<in> dom (bfs_view visited)")
    case True
    then obtain j where "bfs_view visited n = Some j" by blast
    moreover from this have "is_dist ?r s n j" "j < d" using inv by auto
    ultimately have j: "bfs_view visited n = Some j" "is_dist ?r s n j" "j < d" by auto
    then have "bfs_view visited' n = Some j" using add' by (simp add: map_add_def)
    with j is_dist_unique [of ?r s n j k] show ?thesis by auto
  next
    case False
    then have v: "bfs_view visited' n = (if n \<in> ?Q then Some d else None)" using add' by (auto simp: map_add_def domIff)
    have "n \<in> ?Q \<and> k = d" if "is_dist ?r s n k" "k < Suc d"
    proof -
      have "k = d" using that False dom by (metis is_dist_def less_SucE)
      with that(1) False inv show ?thesis by (auto simp: is_dist_def)
    qed
    with v new [of n] False show ?thesis by auto
  qed
  have dom': "dom (bfs_view visited') = ?Q \<union> dom (bfs_view visited)" using add' by (auto split: if_splits)
  have q': "cn_name ` set queue' = ?r `` (?Q - dom (bfs_view visited))" using add' by simp
  have up: "(?r ^^ Suc d) `` {s} \<subseteq> cn_name ` set queue' \<union> dom (bfs_view visited')"
  proof
    fix y
    assume "y \<in> (?r ^^ Suc d) `` {s}"
    then obtain x where x: "(s, x) \<in> ?r ^^ d" "(x, y) \<in> ?r" by auto
    show "y \<in> cn_name ` set queue' \<union> dom (bfs_view visited')"
    proof (cases "x \<in> dom (bfs_view visited)")
      case True
      then obtain k where "k < d" "(s, x) \<in> ?r ^^ k" using dom by blast
      with x(2) have "(s, y) \<in> ?r ^^ Suc k" "Suc k < Suc d" by auto
      then obtain j where "is_dist ?r s y j" "j < Suc d" using is_dist_exists [of s y "Suc k" ?r] by fastforce
      then show ?thesis using view [of y j] by blast
    next
      case False
      with x inv have "x \<in> ?Q - dom (bfs_view visited)" by blast
      with x(2) show ?thesis unfolding q' by blast
    qed
  qed
  have "?r `` (?Q - dom (bfs_view visited)) \<subseteq> (?r ^^ Suc d) `` {s}" using inv by auto
  moreover have "bfs_ok (Suc d) (visited', ret', [])" using bfs_added_ok [OF add] by (simp add: bfs_ok_def)
  moreover have "set ret' = dom (bfs_view visited') - {s}" unfolding dom' using add' inv by auto
  ultimately show ?thesis
    unfolding bfs_inv_def q' using view up add' by (simp add: q')
qed

lemma bfs_result:
  assumes inv: "bfs_inv conns s d queue visited ret"
  shows "distinct (map cn_name (List.map_filter (map_get visited) ret))"
    and "(\<lambda>v. (cn_name v, cn_depth v)) ` set (List.map_filter (map_get visited) ret)
      = {(n, k). n \<noteq> s \<and> is_dist (main_rel conns) s n k \<and> k < d}"
proof -
  note i = inv [unfolded bfs_inv_def bfs_ok_def prod.case]
  have named: "map_get visited n = Some v \<Longrightarrow> cn_name v = n" for n v using i by (simp add: named_entries_def)
  have get: "map_get visited n \<noteq> None" if "n \<in> set ret" for n
    using that i by (auto simp: bfs_view_def domIff)
  have map_filter: "List.map_filter (map_get visited) ns = map (\<lambda>n. the (map_get visited n)) ns" if "set ns \<subseteq> set ret" for ns
    using that get by (induction ns) (fastforce simp: List.map_filter_simps)+
  have the: "cn_name (the (map_get visited n)) = n" if "n \<in> set ret" for n
    using get [OF that] named [of n] by auto
  then have names: "map cn_name (List.map_filter (map_get visited) ret) = ret"
    by (simp add: map_filter map_idI)
  with i show "distinct (map cn_name (List.map_filter (map_get visited) ret))" by simp
  have "(\<lambda>v. (cn_name v, cn_depth v)) ` set (List.map_filter (map_get visited) ret)
      = (\<lambda>n. (n, the (bfs_view visited n))) ` set ret"
    unfolding map_filter [OF order_refl] set_map image_image using the get
    by (intro image_cong refl) (force simp: bfs_view_def)
  also have "\<dots> = {(n, k). n \<noteq> s \<and> bfs_view visited n = Some k}"
  proof -
    have "set ret = dom (bfs_view visited) - {s}" using i by simp
    then show ?thesis by (auto simp: image_iff)
  qed
  finally show "(\<lambda>v. (cn_name v, cn_depth v)) ` set (List.map_filter (map_get visited) ret)
      = {(n, k). n \<noteq> s \<and> is_dist (main_rel conns) s n k \<and> k < d}" using i by simp
qed

lemma bfs_exhausted:
  assumes inv: "bfs_inv conns s d [] visited ret" and "is_dist (main_rel conns) s n k"
  shows "k < d"
proof -
  let ?r = "main_rel conns"
  have "(s, m) \<in> ?r ^^ k \<Longrightarrow> \<exists>j < d. (s, m) \<in> ?r ^^ j" for m k
  proof (induction k arbitrary: m)
    case 0
    then show ?case using inv unfolding bfs_inv_def is_dist_def by (cases d) auto
  next
    case (Suc k)
    then obtain x where "(s, x) \<in> ?r ^^ k" "(x, m) \<in> ?r" by auto
    with Suc.IH obtain j where j: "j < d" "(s, m) \<in> ?r ^^ Suc j" by auto
    show ?case
    proof (cases "Suc j = d")
      case True
      with j inv have "m \<in> dom (bfs_view visited)" unfolding bfs_inv_def by auto
      then show ?thesis using inv unfolding bfs_inv_def is_dist_def by auto
    next
      case False
      with j show ?thesis by (intro exI [of _ "Suc j"]) auto
    qed
  qed
  with assms(2) show ?thesis unfolding is_dist_def by (meson linorder_not_le order_less_le_trans)
qed

lemma bfsLoop_spec:
  "bfs_inv conns s d queue visited ret \<Longrightarrow> m = - 1 \<or> int d \<le> max 0 (m + 1) \<Longrightarrow>
     distinct (map cn_name (bfsLoop conns s m queue visited ret d)) \<and>
     (\<lambda>v. (cn_name v, cn_depth v)) ` set (bfsLoop conns s m queue visited ret d)
       = {(n, k). n \<noteq> s \<and> is_dist (main_rel conns) s n k \<and> (m = - 1 \<or> int k \<le> m)}"
proof (induction conns s m queue visited ret d rule: bfsLoop.induct)
  case (1 conns s m queue visited ret d)
  note unfold = bfsLoop.simps [of conns s m queue visited ret d]
  show ?case
  proof (cases "queue = [] \<or> m \<noteq> - 1 \<and> int d > m")
    case True
    have "k < d \<longleftrightarrow> m = - 1 \<or> int k \<le> m" if "is_dist (main_rel conns) s n k" for n k
    proof (cases "queue = []")
      case True
      then have "k < d" using bfs_exhausted that "1.prems"(1) by blast
      with "1.prems"(2) show ?thesis by auto
    next
      case False
      with True "1.prems"(2) show ?thesis by auto
    qed
    with bfs_result [OF "1.prems"(1)] True show ?thesis by (auto simp: unfold)
  next
    case False
    obtain v' r' q' where st: "fold (bfsVisit conns s (Suc d)) queue (visited, ret, []) = (v', r', q')" by (metis prod_cases3)
    have "m = - 1 \<or> int (d + 1) \<le> max 0 (m + 1)" using False by auto
    moreover have "fold (bfsVisit conns s (d + 1)) queue (visited, ret, []) = (v', r', q')" using st by simp
    moreover from this have "bfsLoop conns s m queue visited ret d = bfsLoop conns s m q' v' r' (d + 1)"
      unfolding unfold if_not_P [OF False] by simp
    ultimately show ?thesis
      using "1.IH" [OF False] bfs_inv_step [OF "1.prems"(1) st] by simp
  qed
qed

text \<open>
  \<^verbatim>\<open>searchNodesBFS\<close> lists every node other than the start that main connections reach within
  the maximal depth, once each, and \<^verbatim>\<open>depth\<close> is its distance: the length of a shortest path.
\<close>

lemma searchNodesBFS_correct:
  "distinct (map cn_name (searchNodesBFS conns s m)) \<and>
   (\<lambda>v. (cn_name v, cn_depth v)) ` set (searchNodesBFS conns s m)
     = {(n, k). n \<noteq> s \<and> is_dist (main_rel conns) s n k \<and> (m = - 1 \<or> int k \<le> m)}"
proof -
  have "bfs_inv conns s 0 [\<lparr>cn_name = s, cn_indicies = [], cn_depth = 0\<rparr>] [] []"
    by (auto simp: bfs_inv_def bfs_ok_def bfs_view_def named_entries_def)
  from bfsLoop_spec [OF this, of m] show ?thesis by (simp add: searchNodesBFS_def)
qed

section \<open>Properties\<close>

text \<open>
  C33. \<^verbatim>\<open>renameNode\<close> of a node of a closed workflow to a fresh name that is not restricted: the
  workflow stays closed, every node keeps its place under its renamed name, nothing is left under
  the old name, and the connections of each output are the old ones with the target renamed.
\<close>

theorem renameNode_correct:
  assumes "cur \<noteq> new" and "closed_workflow w" and "getNode w cur \<noteq> None" and "getNode w new = None"
    and "map to_lower new \<notin> set (map (map to_lower) restrictedKeys)"
  shows "\<exists>w'. renameNode ap cur new w = Inr w' \<and> closed_workflow w' \<and> getNode w' cur = None
    \<and> (\<forall>s. s \<noteq> new \<longrightarrow> getNode w' (rename cur new s)
         = map_option (\<lambda>n. renameInNode ap cur new (if s = cur then n\<lparr>node_name := new\<rparr> else n)) (getNode w s))
    \<and> (\<forall>s t i. s \<noteq> new \<longrightarrow> conns_at (wf_connectionsBySourceNode w') (rename cur new s) t i
         = map (renameTarget cur new) (conns_at (wf_connectionsBySourceNode w) s t i))
    \<and> (\<forall>t i. conns_at (wf_connectionsBySourceNode w') cur t i = [])"
proof -
  note ok = renameNode_ok [OF assms(5), of ap cur w]
  have src: "map_get (wf_connectionsBySourceNode w) new = None"
    using assms(2,4) unfolding closed_workflow_def getNode_def by blast
  define w' where "w' = w\<lparr>
     wf_nodes := map (\<lambda>(k, n). (k, renameInNode ap cur new n)) (moveKey cur new (\<lambda>n. n\<lparr>node_name := new\<rparr>) (wf_nodes w)),
     wf_connectionsBySourceNode := renameTargets cur new (moveKey cur new (\<lambda>v. v) (wf_connectionsBySourceNode w))\<rparr>"
  have "closed_workflow w'"
    using rename_closed [OF assms(1,2)] assms(3,4) ok by (simp add: w'_def getNode_def)
  moreover have "getNode w' cur = None"
    using assms(1) by (auto simp: w'_def getNode_def map_get_map moveKey_get split: option.splits)
  moreover have "getNode w' (rename cur new s)
      = map_option (\<lambda>n. renameInNode ap cur new (if s = cur then n\<lparr>node_name := new\<rparr> else n)) (getNode w s)"
    if "s \<noteq> new" for s
    using renamed_nodes [OF assms(1) _ that, where g = "\<lambda>n. n\<lparr>node_name := new\<rparr>"] assms(4)
    by (simp add: w'_def getNode_def)
  ultimately show ?thesis
    using ok renamed_conns [OF assms(1) src] renamed_conns_cur [OF assms(1)]
    by (intro exI [of _ w']) (simp add: w'_def)
qed

theorem renameNode_correct_witness:
  "\<exists>w'. renameNode (\<lambda>e _ _. e) ''a'' ''x'' ex_workflow = Inr w'
     \<and> conns_at (wf_connectionsBySourceNode w') ''t'' Main 0 = [\<lparr>con_node = ''x'', con_type = Main, con_index = 0\<rparr>]"
proof -
  have "closed_workflow ex_workflow"
    by (rule closed_workflowI) code_simp+
  moreover have ex_names: "getNode ex_workflow ''a'' \<noteq> None" "getNode ex_workflow ''x'' = None"
    "map to_lower ''x'' \<notin> set (map (map to_lower) restrictedKeys)" by code_simp+
  ultimately obtain w' where
    w': "renameNode (\<lambda>e _ _. e) ''a'' ''x'' ex_workflow = Inr w'"
    "\<forall>s t i. s \<noteq> ''x'' \<longrightarrow> conns_at (wf_connectionsBySourceNode w') (rename ''a'' ''x'' s) t i
         = map (renameTarget ''a'' ''x'') (conns_at (wf_connectionsBySourceNode ex_workflow) s t i)"
    using renameNode_correct [of "''a''" "''x''" ex_workflow "\<lambda>e _ _. e"] by auto
  from w'(2) [rule_format, of "''t''" Main 0] w'(1) show ?thesis
    by (simp add: rename_def renameTarget_def conns_at_def arr_get_def ex_workflow_def new_workflow_def
        setSettings_def setPinData_def setConnections_def)
qed

text \<open>
  \<^verbatim>\<open>getHighestNode\<close> returns distinct names of enabled nodes only, each of them the node itself
  or one of its ancestors along main connections.
\<close>

lemma getHighestNode_correct:
  "distinct (fst (getHighestNode w n i checked)) \<and>
     set (fst (getHighestNode w n i checked)) \<subseteq> enabled_names w \<inter> (parent_edges w)\<^sup>* `` {n}"
  by (rule highest_ancestors)

text \<open>
  \<^verbatim>\<open>getNodeConnectionIndexes\<close> answers exactly when the parent node exists and is an ancestor
  of the node along connections of the type, at any distance and also across cycles; the indices
  it answers are those of a connection from the parent into the node or one of its ancestors.
\<close>

lemma getNodeConnectionIndexes_correct:
  fixes w t n p
  defines "E \<equiv> index_edges (wf_connectionsByDestinationNode w) t"
  shows "case getNodeConnectionIndexes w n p t of
      None \<Rightarrow> \<not> (getNode w p \<noteq> None \<and> (n, p) \<in> E\<^sup>+)
    | Some r \<Rightarrow> getNode w p \<noteq> None \<and> (n, p) \<in> E\<^sup>+ \<and> (\<exists>a j c. (n, a) \<in> E\<^sup>*
        \<and> (j, c) \<in> set (indexed_conns (wf_connectionsByDestinationNode w) a t) \<and> con_node c = p
        \<and> r = \<lparr>nc_sourceIndex = con_index c, nc_destinationIndex = j\<rparr>)"
  using getNodeConnectionIndexes_spec [where w = w and t = t and n = n and p = p]
  unfolding E_def by (auto split: option.split)

end
