(* ===== verification/Engine_Requests_Correct.thy ===== *)
theory Engine_Requests_Correct
  imports Execution_Properties
begin

text \<open>
  Requests of nodes to the engine are scheduled completely: every requested node gets an entry on the stack and a new run that the
  results are stored in, and the node that made the request comes back with the list of these runs.
\<close>

section \<open>Preparing the requested nodes\<close>














section \<open>Adding the nodes to the stack\<close>




section \<open>Properties\<close>


section \<open>Examples\<close>






end
