(* ===== verification/Workflow_Diff.thy ===== *)
theory Workflow_Diff
  imports Execution_Items
begin

text \<open>
  Differences between versions of a workflow (\<^verbatim>\<open>packages/workflow/src/workflow-diff.ts\<close> and \<^verbatim>\<open>connections-diff.ts\<close>) and the grouping of versions,
  by which the history of a workflow is thinned out: a version is removed when a rule says that it can be merged into the one after it.

  Nodes are objects with any properties; \<open>isEqual\<close> and \<open>pick\<close> of lodash are parameters. \<open>dw_ref\<close> is the identity of a workflow object.
  The keys of connections are their JSON texts, which differ exactly when the connections do, so the connection itself is the key.
\<close>

section \<open>Connections\<close>

record ConnectionEntry =
  ce_sourceIndex :: nat
  ce_index :: nat
  ce_connection :: IConnection

type_synonym INodeConnectionsDiff = "(string \<times> ConnectionEntry list) list"

record ConnectionsDiff =
  cd_added :: "(string \<times> INodeConnectionsDiff) list"
  cd_removed :: "(string \<times> INodeConnectionsDiff) list"

text \<open>
  The code uses \<^verbatim>\<open>JSON.stringify\<close> of a connection as its key, here it is the connection itself: two connections are taken as different when a
  field differs, not when only the order of their keys does, which the texts would show.
\<close>

definition connection_map :: "IConnection list \<Rightarrow> (IConnection \<times> nat) list" where
  "connection_map conns = fold (\<lambda>(i, c). map_set c i) (enumerate 0 conns) []"

definition add_entry ::
  "string \<Rightarrow> string \<Rightarrow> ConnectionEntry \<Rightarrow> (string \<times> INodeConnectionsDiff) list \<Rightarrow> (string \<times> INodeConnectionsDiff) list" where
  "add_entry nodeName inputName e diff =
     (let byInput = or_empty (obj_get diff nodeName)
      in obj_set nodeName (obj_set inputName (or_empty (obj_get byInput inputName) @ [e]) byInput) diff)"

text \<open>The connections of \<open>m\<close> that \<open>other\<close> does not have.\<close>

definition add_missing ::
  "string \<Rightarrow> string \<Rightarrow> nat \<Rightarrow> (IConnection \<times> nat) list \<Rightarrow> (IConnection \<times> nat) list
     \<Rightarrow> (string \<times> INodeConnectionsDiff) list \<Rightarrow> (string \<times> INodeConnectionsDiff) list" where
  "add_missing nodeName inputName sourceIndex m other =
     fold (\<lambda>(c, i). if map_get other c = None
       then add_entry nodeName inputName \<lparr>ce_sourceIndex = sourceIndex, ce_index = i, ce_connection = c\<rparr> else id) m"

definition compareIndex ::
  "string \<Rightarrow> string \<Rightarrow> NodeInputConnections \<Rightarrow> NodeInputConnections \<Rightarrow> nat \<Rightarrow> ConnectionsDiff \<Rightarrow> ConnectionsDiff" where
  "compareIndex nodeName inputName prev nxt sourceIndex diff =
     (let prevMap = connection_map (or_empty (arr_get prev sourceIndex)); nextMap = connection_map (or_empty (arr_get nxt sourceIndex))
      in diff\<lparr>cd_added := add_missing nodeName inputName sourceIndex nextMap prevMap (cd_added diff),
              cd_removed := add_missing nodeName inputName sourceIndex prevMap nextMap (cd_removed diff)\<rparr>)"

definition compareInput :: "string \<Rightarrow> INodeConnections \<Rightarrow> INodeConnections \<Rightarrow> string \<Rightarrow> ConnectionsDiff \<Rightarrow> ConnectionsDiff" where
  "compareInput nodeName prev nxt inputName =
     (let prevInput = or_empty (obj_get prev inputName); nextInput = or_empty (obj_get nxt inputName)
      in fold (compareIndex nodeName inputName prevInput nextInput) [0..<max (length prevInput) (length nextInput)])"

definition compareNode :: "IConnections \<Rightarrow> IConnections \<Rightarrow> string \<Rightarrow> ConnectionsDiff \<Rightarrow> ConnectionsDiff" where
  "compareNode prev nxt nodeName =
     (let prevNode = or_empty (obj_get prev nodeName); nextNode = or_empty (obj_get nxt nodeName)
      in fold (compareInput nodeName prevNode nextNode) (set_of (keys_of prevNode @ keys_of nextNode)))"

definition compareConnections :: "IConnections \<Rightarrow> IConnections \<Rightarrow> ConnectionsDiff" where
  "compareConnections prev nxt =
     fold (compareNode prev nxt) (set_of (keys_of prev @ keys_of nxt)) \<lparr>cd_added = [], cd_removed = []\<rparr>"

section \<open>Nodes\<close>

type_synonym DiffableNode = IDataObject

record DiffableWorkflow =
  dw_ref :: nat
  dw_nodes :: "DiffableNode list"
  dw_connections :: IConnections
  dw_createdAt :: rat
  dw_authors :: "string option"

definition node_key :: "DiffableNode \<Rightarrow> jsval" where
  "node_key node = get_prop node ''id''"

datatype NodeDiffStatus = Eq | Modified | Added | Deleted

record NodeDiff =
  nd_status :: NodeDiffStatus
  nd_node :: DiffableNode

type_synonym WorkflowDiff = "(jsval \<times> NodeDiff) list"

record lodash =
  isEqual :: "jsval \<Rightarrow> jsval \<Rightarrow> bool"
  pick :: "jsval \<Rightarrow> string list \<Rightarrow> jsval"

definition compareNodes :: "lodash \<Rightarrow> DiffableNode \<Rightarrow> DiffableNode \<Rightarrow> bool" where
  "compareNodes lib base target =
     (let propsToCompare = [''name'', ''type'', ''typeVersion'', ''webhookId'', ''credentials'', ''parameters'']
      in isEqual lib (pick lib (JObj base) propsToCompare) (pick lib (JObj target) propsToCompare))"

definition nodes_by_id :: "DiffableNode list \<Rightarrow> (jsval \<times> DiffableNode) list" where
  "nodes_by_id nodes = fold (\<lambda>node. map_set (node_key node) node) nodes []"

definition compareWorkflowsNodes :: "lodash \<Rightarrow> DiffableNode list \<Rightarrow> DiffableNode list \<Rightarrow> WorkflowDiff" where
  "compareWorkflowsNodes lib base target =
     (let baseNodes = nodes_by_id base; targetNodes = nodes_by_id target;
          diff = fold (\<lambda>(i, node). map_set i \<lparr>nd_status =
            (case map_get targetNodes i of None \<Rightarrow> Deleted
             | Some node' \<Rightarrow> if compareNodes lib node node' then Eq else Modified), nd_node = node\<rparr>) baseNodes []
      in fold (\<lambda>(i, node). if map_get baseNodes i = None then map_set i \<lparr>nd_status = Added, nd_node = node\<rparr> else id) targetNodes diff)"

record WorkflowChangeSet =
  wcs_nodes :: WorkflowDiff
  wcs_connections :: ConnectionsDiff

definition new_change_set :: "lodash \<Rightarrow> 'w DiffableWorkflow_scheme \<Rightarrow> 'w DiffableWorkflow_scheme \<Rightarrow> WorkflowChangeSet" where
  "new_change_set lib from to =
     (if dw_ref from = dw_ref to
      then \<lparr>wcs_nodes = fold (\<lambda>node. map_set (node_key node) \<lparr>nd_status = Eq, nd_node = node\<rparr>) (dw_nodes from) [],
            wcs_connections = \<lparr>cd_added = [], cd_removed = []\<rparr>\<rparr>
      else \<lparr>wcs_nodes = compareWorkflowsNodes lib (dw_nodes from) (dw_nodes to),
            wcs_connections = compareConnections (dw_connections from) (dw_connections to)\<rparr>)"

section \<open>Supersets\<close>

text \<open>The loop of \<^verbatim>\<open>stringContainsParts\<close>; \<^verbatim>\<open>substr[marker]\<close> is \<^verbatim>\<open>undefined\<close> out of range.\<close>

function parts_loop :: "string \<Rightarrow> string \<Rightarrow> nat \<Rightarrow> nat \<Rightarrow> bool" where
  "parts_loop s substr i marker =
     (if i < length s
      then let marker' = (if marker < length substr \<and> substr ! marker = s ! i then Suc marker else marker)
           in if int i - int marker' > int (length s - length substr) then False else parts_loop s substr (Suc i) marker'
      else length substr \<le> marker)"
  by pat_completeness auto

termination parts_loop
  by (relation "measure (\<lambda>(s, substr, i, marker). length s - i)") auto

declare parts_loop.simps [simp del]

definition stringContainsParts :: "string \<Rightarrow> string \<Rightarrow> bool" where
  "stringContainsParts s substr \<longleftrightarrow> length substr \<le> length s \<and> parts_loop s substr 0 0"

function parametersAreSuperset :: "jsval \<Rightarrow> jsval \<Rightarrow> bool" where
  "parametersAreSuperset prev nxt \<longleftrightarrow>
     (case prev of
        JStr s \<Rightarrow> (case nxt of JStr t \<Rightarrow> stringContainsParts t s | _ \<Rightarrow> False)
      | JArr xs \<Rightarrow> (case nxt of
          JArr ys \<Rightarrow> length xs = length ys \<and> list_all (\<lambda>(x, y). parametersAreSuperset x y) (zip xs ys)
        | _ \<Rightarrow> False)
      | JObj ps \<Rightarrow> isObjectRecord nxt \<and> length ps = length (obj_entries nxt)
          \<and> list_all (\<lambda>(k, v). k \<in> set (keys_of (obj_entries nxt))) ps
          \<and> list_all (\<lambda>(k, v). parametersAreSuperset v (prop_get nxt k)) ps
      | _ \<Rightarrow> prev = nxt)"
  by pat_completeness auto

lemma size_prop: "(k, v) \<in> set ps \<Longrightarrow> size v < size (JObj ps)"
proof -
  assume "(k, v) \<in> set ps"
  then have "size_prod (\<lambda>_. 0) size (k, v) \<le> size_list (size_prod (\<lambda>_. 0) size) ps" by (intro size_list_estimation') auto
  then show ?thesis by simp
qed

lemma size_item: "x \<in> set xs \<Longrightarrow> size x < size (JArr xs)"
  by (simp add: size_list_estimation' less_Suc_eq_le)

termination parametersAreSuperset
  by (relation "measure (\<lambda>(prev, nxt). size prev)") (auto dest!: size_prop size_item set_zip_leftD)

declare parametersAreSuperset.simps [simp del]

definition with_parameters :: "jsval \<Rightarrow> DiffableNode \<Rightarrow> DiffableNode" where
  "with_parameters v node = obj_set ''parameters'' v (map_delete ''parameters'' node)"

definition nodeIsSuperset :: "lodash \<Rightarrow> DiffableNode \<Rightarrow> DiffableNode \<Rightarrow> bool" where
  "nodeIsSuperset lib prevNode nextNode \<longleftrightarrow>
     compareNodes lib (with_parameters (JObj []) prevNode) (with_parameters (JObj []) nextNode)
     \<and> parametersAreSuperset (get_prop prevNode ''parameters'') (get_prop nextNode ''parameters'')"

section \<open>Rules\<close>

record DiffMetaData =
  dm_workflowSizeScore :: "nat option"

type_synonym 'w DiffRule = "'w DiffableWorkflow_scheme \<Rightarrow> 'w DiffableWorkflow_scheme \<Rightarrow> WorkflowChangeSet \<Rightarrow> DiffMetaData \<Rightarrow> bool res"

text \<open>The loop over the differences of the nodes: \<open>False\<close> is returned at once.\<close>

fun additive_nodes :: "lodash \<Rightarrow> 'w DiffableWorkflow_scheme \<Rightarrow> NodeDiff list \<Rightarrow> bool res" where
  "additive_nodes lib nxt [] = Inr True"
| "additive_nodes lib nxt (d # ds) =
     (if nd_status d = Deleted then Inr False
      else if nd_status d = Added then additive_nodes lib nxt ds
      else case find (\<lambda>x. node_key x = node_key (nd_node d)) (dw_nodes nxt) of
        None \<Rightarrow> Inl (ThrownError ''Error'' ''invariant broken - no next node'')
      | Some nextNode \<Rightarrow>
          if nd_status d = Modified \<and> \<not> nodeIsSuperset lib (nd_node d) nextNode then Inr False else additive_nodes lib nxt ds)"

definition mergeAdditiveChanges :: "lodash \<Rightarrow> 'w DiffRule" where
  "mergeAdditiveChanges lib prev nxt diff metaData =
     bind_res (additive_nodes lib nxt (map snd (wcs_nodes diff))) (\<lambda>additive.
       Inr (additive \<and> cd_removed (wcs_connections diff) = []))"

definition makeSkipTimeDifference :: "rat \<Rightarrow> 'w DiffRule" where
  "makeSkipTimeDifference timeDiffMs prev nxt diff metaData = Inr (\<bar>dw_createdAt nxt - dw_createdAt prev\<bar> > timeDiffMs)"

definition makeMergeShortTimeSpan :: "rat \<Rightarrow> 'w DiffRule" where
  "makeMergeShortTimeSpan timeDiffMs prev nxt diff metaData = Inr (\<bar>dw_createdAt nxt - dw_createdAt prev\<bar> < timeDiffMs)"

definition makeMergeDependingOnSizeRule :: "(rat \<times> rat) list \<Rightarrow> 'w DiffRule" where
  "makeMergeDependingOnSizeRule mapping prev nxt diff metaData =
     (let pairs = js_sort (\<lambda>a b. \<lfloor>sgn (fst b - fst a)\<rfloor>) mapping
      in case dm_workflowSizeScore metaData of
           None \<Rightarrow> Inr False
         | Some score \<Rightarrow> (case find (\<lambda>(minimum, time). of_nat score > minimum) pairs of
             None \<Rightarrow> Inr False
           | Some (minimum, time) \<Rightarrow> makeMergeShortTimeSpan time prev nxt diff metaData))"

definition skipDifferentUsers :: "'w DiffRule" where
  "skipDifferentUsers prev nxt diff metaData = Inr (dw_authors nxt \<noteq> dw_authors prev)"

section \<open>Grouping versions\<close>

fun determineNodeSize :: "jsval \<Rightarrow> nat" where
  "determineNodeSize (JStr s) = (if s = [] then 1 else length s)"
| "determineNodeSize (JArr xs) = fold (\<lambda>v acc. acc + determineNodeSize v) xs 1"
| "determineNodeSize (JObj ps) = fold (\<lambda>(k, v) acc. acc + determineNodeSize v) ps 1"
| "determineNodeSize _ = 1"

definition determineNodeParametersSize :: "'w DiffableWorkflow_scheme \<Rightarrow> nat" where
  "determineNodeParametersSize w = fold (\<lambda>x acc. acc + determineNodeSize (get_prop x ''parameters'')) (dw_nodes w) 0"

fun some_rule :: "'w DiffRule list \<Rightarrow> 'w DiffRule" where
  "some_rule [] prev nxt diff metaData = Inr False"
| "some_rule (rule # rules) prev nxt diff metaData =
     bind_res (rule prev nxt diff metaData) (\<lambda>b. if b then Inr True else some_rule rules prev nxt diff metaData)"

fun diffLoop ::
  "lodash \<Rightarrow> 'w DiffRule list \<Rightarrow> 'w DiffRule list \<Rightarrow> DiffMetaData \<Rightarrow> nat \<Rightarrow> 'w DiffableWorkflow_scheme list \<Rightarrow> 'w DiffableWorkflow_scheme list
     \<Rightarrow> ('w DiffableWorkflow_scheme list \<times> 'w DiffableWorkflow_scheme list) res" where
  "diffLoop lib rules skipRules metaData 0 remaining removed = Inr (removed, remaining)"
| "diffLoop lib rules skipRules metaData (Suc i) remaining removed =
     (let prev = remaining ! i; nxt = remaining ! Suc i; wcs = new_change_set lib prev nxt
      in bind_res (some_rule skipRules prev nxt wcs metaData) (\<lambda>skip.
           if skip then diffLoop lib rules skipRules metaData i remaining removed
           else bind_res (some_rule rules prev nxt wcs metaData) (\<lambda>shouldMerge.
             if shouldMerge then diffLoop lib rules skipRules metaData i (take i remaining @ drop (Suc i) remaining) (removed @ [prev])
             else diffLoop lib rules skipRules metaData i remaining removed)))"

definition diff_meta_data :: "bool \<Rightarrow> 'w DiffableWorkflow_scheme list \<Rightarrow> DiffMetaData" where
  "diff_meta_data sizeScore workflows =
     \<lparr>dm_workflowSizeScore = (if sizeScore
        then Some (max (determineNodeParametersSize (workflows ! (length workflows div 2)))
                       (determineNodeParametersSize (workflows ! (length workflows - 1))))
        else None)\<rparr>"

definition groupWorkflows ::
  "lodash \<Rightarrow> 'w DiffableWorkflow_scheme list \<Rightarrow> 'w DiffRule list \<Rightarrow> 'w DiffRule list \<Rightarrow> bool
     \<Rightarrow> ('w DiffableWorkflow_scheme list \<times> 'w DiffableWorkflow_scheme list) res" where
  "groupWorkflows lib workflows rules skipRules sizeScore =
     (if length workflows \<le> 1 then Inr ([], workflows)
      else diffLoop lib rules skipRules (diff_meta_data sizeScore workflows) (length workflows - 1) workflows [])"

section \<open>Kinds of changes\<close>

text \<open>The connections of a workflow as a value.\<close>

definition connection_value :: "IConnection \<Rightarrow> jsval" where
  "connection_value c = JObj [(''node'', JStr (con_node c)), (''type'', JStr (con_type c)), (''index'', JNum (of_nat (con_index c)))]"

definition connections_value :: "IConnections \<Rightarrow> jsval" where
  "connections_value m = JObj (map (\<lambda>(n, byType). (n, JObj (map (\<lambda>(t, outputs). (t, JArr (map (\<lambda>conns. case conns of
     None \<Rightarrow> JNull | Some cs \<Rightarrow> JArr (map connection_value cs)) outputs))) byType))) m)"

definition hasNonPositionalChanges ::
  "lodash \<Rightarrow> DiffableNode list \<Rightarrow> DiffableNode list \<Rightarrow> IConnections \<Rightarrow> IConnections \<Rightarrow> bool" where
  "hasNonPositionalChanges lib oldNodes newNodes oldConnections newConnections \<longleftrightarrow>
     (\<exists>d \<in> set (map snd (compareWorkflowsNodes lib oldNodes newNodes)). nd_status d \<noteq> Eq)
     \<or> \<not> isEqual lib (connections_value oldConnections) (connections_value newConnections)"

definition credentials_of :: "DiffableNode \<Rightarrow> IDataObject" where
  "credentials_of node = spread (get_prop node ''credentials'')"

definition cred_id :: "IDataObject \<Rightarrow> string \<Rightarrow> jsval" where
  "cred_id creds credType = get_prop (spread (get_prop creds credType)) ''id''"

definition hasCredentialChanges :: "DiffableNode list \<Rightarrow> DiffableNode list \<Rightarrow> bool" where
  "hasCredentialChanges oldNodes newNodes \<longleftrightarrow>
     (let newNodesMap = nodes_by_id newNodes
      in \<exists>oldNode \<in> set oldNodes. case map_get newNodesMap (node_key oldNode) of
           None \<Rightarrow> False
         | Some newNode \<Rightarrow>
             let oldCreds = credentials_of oldNode; newCreds = credentials_of newNode
             in (\<exists>credType \<in> set (keys_of oldCreds). credType \<notin> set (keys_of newCreds) \<or> cred_id oldCreds credType \<noteq> cred_id newCreds credType)
                \<or> (\<exists>credType \<in> set (keys_of newCreds). credType \<notin> set (keys_of oldCreds)))"

end
