(* ===== verification/Workflow_Diff_Correct.thy ===== *)
theory Workflow_Diff_Correct
  imports Workflow_Diff
begin

text \<open>
  Correctness of the comparison of workflow versions: the differences of nodes and connections are exact, the test for supersets
  of strings is the test for subsequences, and thinning out a history keeps a version for everything it removes.
\<close>

section \<open>Subsequences\<close>

lemma subseq_Nil: "subseq xs [] \<longleftrightarrow> xs = []"
  by (cases xs) auto

lemma parts_loop_subseq:
  assumes "i \<le> length s" and "marker \<le> length sub" and "marker \<le> i" and "length sub \<le> length s"
  shows "parts_loop s sub i marker \<longleftrightarrow> subseq (drop marker sub) (drop i s)"
  using assms
proof (induction s sub i marker rule: parts_loop.induct)
  case (1 s sub i marker)
  show ?case
  proof (cases "i < length s")
    case True
    let ?m = "if marker < length sub \<and> sub ! marker = s ! i then Suc marker else marker"
    have s: "drop i s = s ! i # drop (Suc i) s" using True by (simp add: Cons_nth_drop_Suc)
    have step: "subseq (drop marker sub) (drop i s) \<longleftrightarrow> subseq (drop ?m sub) (drop (Suc i) s)"
    proof (cases "marker < length sub")
      case True
      then have "drop marker sub = sub ! marker # drop (Suc marker) sub" by (simp add: Cons_nth_drop_Suc)
      then show ?thesis using True by (simp add: s)
    qed (use "1.prems" in simp)
    show ?thesis
    proof (cases "int i - int ?m > int (length s - length sub)")
      case early: True
      have "\<not> subseq (drop ?m sub) (drop (Suc i) s)"
      proof
        assume "subseq (drop ?m sub) (drop (Suc i) s)"
        then have "length (drop ?m sub) \<le> length (drop (Suc i) s)" by (rule list_emb_length)
        with early True "1.prems" show False by (simp split: if_splits)
      qed
      with early True step show ?thesis by (simp add: parts_loop.simps [of s sub i])
    next
      case False
      have "parts_loop s sub (Suc i) ?m \<longleftrightarrow> subseq (drop ?m sub) (drop (Suc i) s)"
        using "1.IH" [OF True refl False] True "1.prems" by simp
      with False True step show ?thesis by (simp add: parts_loop.simps [of s sub i])
    qed
  next
    case False
    with "1.prems" have "i = length s" by simp
    then show ?thesis by (simp add: parts_loop.simps [of s sub "length s"] subseq_Nil)
  qed
qed

lemma stringContainsParts_spec: "stringContainsParts s sub \<longleftrightarrow> subseq sub s"
  using parts_loop_subseq [of 0 s 0 sub] list_emb_length [of "(=)" sub s] by (auto simp: stringContainsParts_def)

section \<open>Connections\<close>

text \<open>The entries of a difference for a node and an input, and the connections of an index that another one lacks.\<close>

definition entries :: "(string \<times> INodeConnectionsDiff) list \<Rightarrow> string \<Rightarrow> string \<Rightarrow> ConnectionEntry list" where
  "entries diff n t = or_empty (obj_get (or_empty (obj_get diff n)) t)"

definition missing :: "nat \<Rightarrow> IConnection list \<Rightarrow> IConnection list \<Rightarrow> ConnectionEntry list" where
  "missing i conns other = map (\<lambda>(c, k). \<lparr>ce_sourceIndex = i, ce_index = k, ce_connection = c\<rparr>)
     (filter (\<lambda>(c, k). c \<notin> set other) (connection_map conns))"

lemma keys_connection_map: "set (keys_of (connection_map conns)) = set conns"
proof -
  have "connection_map conns = fold (\<lambda>x. map_set (snd x) (fst x)) (enumerate 0 conns) []"
    by (simp add: connection_map_def case_prod_unfold)
  then have "set (keys_of (connection_map conns)) = snd ` set (enumerate 0 conns)" by (simp add: js_map.fold_put_keys del: set_map)
  also have "\<dots> = set conns" by (metis map_snd_enumerate set_map)
  finally show ?thesis .
qed

lemma connection_map_index: "(c, k) \<in> set (connection_map conns) \<Longrightarrow> k < length conns \<and> conns ! k = c"
proof -
  have "set (fold (\<lambda>(i, c). map_set c i) xs m) \<subseteq> (\<lambda>(i, c). (c, i)) ` set xs \<union> set m" for xs :: "(nat \<times> IConnection) list" and m
  proof (induction xs arbitrary: m)
    case (Cons x xs)
    have put: "set (map_set c i m) \<subseteq> insert (c, i) (set m)" for c i and m :: "(IConnection \<times> nat) list"
    proof -
      have "set (map_update c i m) \<subseteq> insert (c, i) (set m)" by (induction m) auto
      then show ?thesis by (auto simp: map_set_def)
    qed
    show ?case using Cons [of "map_set (snd x) (fst x) m"] put [of "snd x" "fst x" m] by (fastforce simp: case_prod_unfold)
  qed simp
  moreover assume "(c, k) \<in> set (connection_map conns)"
  ultimately have "(k, c) \<in> set (enumerate 0 conns)" unfolding connection_map_def by fastforce
  then show ?thesis by (simp add: in_set_enumerate_eq)
qed

lemma entries_add_entry: "entries (add_entry n t e d) m u = (if m = n \<and> u = t then entries d n t @ [e] else entries d m u)"
  by (auto simp: entries_def add_entry_def Let_def js_obj.get_put)

lemma get_connection_map: "map_get (connection_map conns) c = None \<longleftrightarrow> c \<notin> set conns"
  using keys_connection_map [of conns] by (metis map_of_eq_None_iff set_map)

lemma entries_add_missing:
  "entries (add_missing n t i (connection_map conns) (connection_map other) d) m u
     = (if m = n \<and> u = t then entries d n t @ missing i conns other else entries d m u)"
proof -
  have "entries (add_missing n t i xs (connection_map other) d) m u = (if m = n \<and> u = t
      then entries d n t @ map (\<lambda>(c, k). \<lparr>ce_sourceIndex = i, ce_index = k, ce_connection = c\<rparr>) (filter (\<lambda>(c, k). c \<notin> set other) xs)
      else entries d m u)" for xs
    unfolding add_missing_def by (induction xs arbitrary: d) (auto simp: get_connection_map entries_add_entry)
  then show ?thesis by (simp add: missing_def)
qed

text \<open>A loop whose steps append.\<close>

lemma fold_appends:
  assumes "\<And>x d. get (f x d) = get d @ g x"
  shows "get (fold f xs d) = get d @ concat (map g xs)"
  by (induction xs arbitrary: d) (simp_all add: assms)

lemma concat_single: "distinct xs \<Longrightarrow> concat (map (\<lambda>x. if a = x then f x else []) xs) = (if a \<in> set xs then f a else [])"
  by (induction xs) auto

definition input_missing_at :: "NodeInputConnections \<Rightarrow> NodeInputConnections \<Rightarrow> ConnectionEntry list" where
  "input_missing_at a b = concat (map (\<lambda>i. missing i (or_empty (arr_get a i)) (or_empty (arr_get b i))) [0..<max (length b) (length a)])"

lemma entries_compareIndex:
  "entries (cd_added (compareIndex n t prev nxt i d)) m u
     = entries (cd_added d) m u @ (if m = n \<and> u = t then missing i (or_empty (arr_get nxt i)) (or_empty (arr_get prev i)) else [])"
  "entries (cd_removed (compareIndex n t prev nxt i d)) m u
     = entries (cd_removed d) m u @ (if m = n \<and> u = t then missing i (or_empty (arr_get prev i)) (or_empty (arr_get nxt i)) else [])"
  by (simp_all add: compareIndex_def Let_def entries_add_missing)

lemma entries_compareInput:
  "entries (cd_added (compareInput n prev nxt t d)) m u = entries (cd_added d) m u
     @ (if u = t then if m = n then input_missing_at (or_empty (obj_get nxt t)) (or_empty (obj_get prev t)) else [] else [])"
  "entries (cd_removed (compareInput n prev nxt t d)) m u = entries (cd_removed d) m u
     @ (if u = t then if m = n then input_missing_at (or_empty (obj_get prev t)) (or_empty (obj_get nxt t)) else [] else [])"
  using fold_appends [of "\<lambda>d. entries (cd_added d) m u" "compareIndex n t (or_empty (obj_get prev t)) (or_empty (obj_get nxt t))", OF entries_compareIndex(1)]
    fold_appends [of "\<lambda>d. entries (cd_removed d) m u" "compareIndex n t (or_empty (obj_get prev t)) (or_empty (obj_get nxt t))", OF entries_compareIndex(2)]
  by (auto simp: compareInput_def Let_def input_missing_at_def max.commute)

lemma input_missing_at_Nil [simp]: "input_missing_at [] b = []"
  by (auto simp: input_missing_at_def missing_def connection_map_def)

text \<open>Everything that \<open>a\<close> has for a node and an input and \<open>b\<close> has not.\<close>

definition all_missing :: "IConnections \<Rightarrow> IConnections \<Rightarrow> string \<Rightarrow> string \<Rightarrow> ConnectionEntry list" where
  "all_missing a b n t = input_missing_at (or_empty (obj_get (or_empty (obj_get a n)) t)) (or_empty (obj_get (or_empty (obj_get b n)) t))"

lemma all_missing_outside:
  assumes "n \<notin> set (keys_of a) \<or> t \<notin> set (keys_of (or_empty (obj_get a n)))"
  shows "all_missing a b n t = []"
proof -
  have "or_empty (obj_get (or_empty (obj_get a n)) t) = []"
  proof (cases "obj_get a n")
    case (Some b)
    then have "n \<in> set (keys_of a)" by (force dest: map_of_SomeD)
    with assms Some have "obj_get b t = None" by (simp add: map_of_eq_None_iff)
    with Some show ?thesis by simp
  qed simp
  then show ?thesis by (simp add: all_missing_def)
qed

lemma entries_compareNode:
  "entries (cd_added (compareNode prev nxt n d)) m u = entries (cd_added d) m u @ (if m = n then all_missing nxt prev n u else [])"
  "entries (cd_removed (compareNode prev nxt n d)) m u = entries (cd_removed d) m u @ (if m = n then all_missing prev nxt n u else [])"
proof -
  let ?p = "or_empty (obj_get prev n)" and ?x = "or_empty (obj_get nxt n)"
  define ts where "ts = set_of (keys_of ?p @ keys_of ?x)"
  have ts: "distinct ts" "set ts = set (keys_of ?p) \<union> set (keys_of ?x)" by (simp_all add: ts_def del: set_map)
  have unfold: "compareNode prev nxt n d = fold (compareInput n ?p ?x) ts d" by (simp only: compareNode_def Let_def ts_def)
  have "u \<notin> set ts \<Longrightarrow> all_missing nxt prev n u = [] \<and> all_missing prev nxt n u = []"
    using all_missing_outside [of n nxt u prev] all_missing_outside [of n prev u nxt] unfolding ts(2) by blast
  then have none: "(if u \<in> set ts then if m = n then all_missing nxt prev n u else [] else []) = (if m = n then all_missing nxt prev n u else [])"
    "(if u \<in> set ts then if m = n then all_missing prev nxt n u else [] else []) = (if m = n then all_missing prev nxt n u else [])" by auto
  show "entries (cd_added (compareNode prev nxt n d)) m u = entries (cd_added d) m u @ (if m = n then all_missing nxt prev n u else [])"
    unfolding unfold fold_appends [of "\<lambda>d. entries (cd_added d) m u" "compareInput n ?p ?x", OF entries_compareInput(1)]
      concat_single [OF ts(1)] all_missing_def [symmetric] none ..
  show "entries (cd_removed (compareNode prev nxt n d)) m u = entries (cd_removed d) m u @ (if m = n then all_missing prev nxt n u else [])"
    unfolding unfold fold_appends [of "\<lambda>d. entries (cd_removed d) m u" "compareInput n ?p ?x", OF entries_compareInput(2)]
      concat_single [OF ts(1)] all_missing_def [symmetric] none ..
qed

lemma entries_compareConnections:
  "entries (cd_added (compareConnections prev nxt)) n t = all_missing nxt prev n t"
  "entries (cd_removed (compareConnections prev nxt)) n t = all_missing prev nxt n t"
proof -
  define ns where "ns = set_of (keys_of prev @ keys_of nxt)"
  have ns: "distinct ns" "set ns = set (keys_of prev) \<union> set (keys_of nxt)" by (simp_all add: ns_def del: set_map)
  have unfold: "compareConnections prev nxt = fold (compareNode prev nxt) ns \<lparr>cd_added = [], cd_removed = []\<rparr>"
    by (simp only: compareConnections_def ns_def)
  have none: "n \<notin> set ns \<Longrightarrow> all_missing nxt prev n t = [] \<and> all_missing prev nxt n t = []"
    using all_missing_outside [of n nxt t prev] all_missing_outside [of n prev t nxt] unfolding ns(2) by blast
  have start: "entries [] n t = []" by (simp add: entries_def)
  show "entries (cd_added (compareConnections prev nxt)) n t = all_missing nxt prev n t"
    unfolding unfold fold_appends [of "\<lambda>d. entries (cd_added d) n t" "compareNode prev nxt", OF entries_compareNode(1)]
      concat_single [OF ns(1)] using none start by simp
  show "entries (cd_removed (compareConnections prev nxt)) n t = all_missing prev nxt n t"
    unfolding unfold fold_appends [of "\<lambda>d. entries (cd_removed d) n t" "compareNode prev nxt", OF entries_compareNode(2)]
      concat_single [OF ns(1)] using none start by simp
qed

lemma in_missing:
  "\<lparr>ce_sourceIndex = j, ce_index = k, ce_connection = c\<rparr> \<in> set (missing i conns other)
     \<longleftrightarrow> j = i \<and> (c, k) \<in> set (connection_map conns) \<and> c \<notin> set other"
  by (auto simp: missing_def)

lemma connection_map_ex: "(\<exists>k. (c, k) \<in> set (connection_map conns)) \<longleftrightarrow> c \<in> set conns"
proof -
  have "(\<exists>k. (c, k) \<in> set (connection_map conns)) \<longleftrightarrow> c \<in> set (keys_of (connection_map conns))" by force
  then show ?thesis by (simp only: keys_connection_map)
qed

lemma conns_at_or_empty: "conns_at m n t i = or_empty (arr_get (or_empty (obj_get (or_empty (obj_get m n)) t)) i)"
  by (auto simp: conns_at_def split: option.splits)

lemma in_all_missing:
  "\<lparr>ce_sourceIndex = i, ce_index = k, ce_connection = c\<rparr> \<in> set (all_missing a b n t)
     \<longleftrightarrow> (c, k) \<in> set (connection_map (conns_at a n t i)) \<and> c \<notin> set (conns_at b n t i)"
proof -
  let ?a = "or_empty (obj_get (or_empty (obj_get a n)) t)" and ?b = "or_empty (obj_get (or_empty (obj_get b n)) t)"
  have at: "conns_at a n t i = or_empty (arr_get ?a i)" "conns_at b n t i = or_empty (arr_get ?b i)"
    by (rule conns_at_or_empty)+
  have "i < max (length ?b) (length ?a)" if "(c, k) \<in> set (connection_map (or_empty (arr_get ?a i)))"
  proof (rule ccontr)
    assume "\<not> i < max (length ?b) (length ?a)"
    then have "\<not> i < length ?a" by simp
    then have "arr_get ?a i = None" by (simp add: arr_get_def)
    with that show False by (simp add: connection_map_def)
  qed
  then show ?thesis unfolding at all_missing_def input_missing_at_def by (auto simp: in_missing)
qed

lemma compareConnections_spec:
  "(\<exists>k. \<lparr>ce_sourceIndex = i, ce_index = k, ce_connection = c\<rparr> \<in> set (entries (cd_added (compareConnections prev nxt)) n t))
     \<longleftrightarrow> c \<in> set (conns_at nxt n t i) \<and> c \<notin> set (conns_at prev n t i)"
  "(\<exists>k. \<lparr>ce_sourceIndex = i, ce_index = k, ce_connection = c\<rparr> \<in> set (entries (cd_removed (compareConnections prev nxt)) n t))
     \<longleftrightarrow> c \<in> set (conns_at prev n t i) \<and> c \<notin> set (conns_at nxt n t i)"
  unfolding entries_compareConnections in_all_missing using connection_map_ex by blast+

text \<open>A difference is empty exactly when it has no entries.\<close>

lemma add_missing_none:
  assumes "\<And>c k. (c, k) \<in> set m \<Longrightarrow> map_get other c \<noteq> None"
  shows "add_missing n t i m other d = d"
  using assms unfolding add_missing_def
proof (induction m arbitrary: d)
  case (Cons x m)
  obtain c k where x: "x = (c, k)" by (cases x)
  have "map_get other c \<noteq> None" using Cons.prems [of c k] by (simp add: x)
  moreover have "add_missing n t i m other d = d" unfolding add_missing_def by (rule Cons.IH) (use Cons.prems in auto)
  ultimately show ?case by (auto simp: x add_missing_def)
qed simp

lemma removed_empty:
  assumes "\<And>n t. all_missing prev nxt n t = []"
  shows "cd_removed (compareConnections prev nxt) = []"
proof -
  let ?P = "\<lambda>d. cd_removed d = []"
  have index: "?P (compareIndex n t (or_empty (obj_get (or_empty (obj_get prev n)) t)) (or_empty (obj_get (or_empty (obj_get nxt n)) t)) i d)"
    if "?P d" for n t i d
  proof -
    have "c \<in> set (conns_at nxt n t i)" if "(c, k) \<in> set (connection_map (conns_at prev n t i))" for c k
      using in_all_missing [of i k c prev nxt n t] assms [of n t] that by auto
    then have "map_get (connection_map (conns_at nxt n t i)) c \<noteq> None" if "(c, k) \<in> set (connection_map (conns_at prev n t i))" for c k
      using that unfolding get_connection_map by blast
    from add_missing_none [OF this] that show ?thesis by (simp add: compareIndex_def Let_def conns_at_or_empty)
  qed
  have "?P (fold f xs d)" if "?P d" "\<And>x d. ?P d \<Longrightarrow> ?P (f x d)" for f :: "'x \<Rightarrow> ConnectionsDiff \<Rightarrow> ConnectionsDiff" and xs d
    using that by (induction xs arbitrary: d) auto
  note keep = this
  have "?P (compareInput n (or_empty (obj_get prev n)) (or_empty (obj_get nxt n)) t d)" if "?P d" for n t d
    unfolding compareInput_def Let_def using that by (rule keep) (rule index)
  then have "?P (compareNode prev nxt n d)" if "?P d" for n d
    unfolding compareNode_def Let_def using that by (intro keep)
  then show ?thesis unfolding compareConnections_def by (intro keep) simp_all
qed

lemma cd_removed_empty:
  "cd_removed (compareConnections prev nxt) = [] \<longleftrightarrow> (\<forall>n t i. set (conns_at prev n t i) \<subseteq> set (conns_at nxt n t i))"
proof
  assume "cd_removed (compareConnections prev nxt) = []"
  then have "entries (cd_removed (compareConnections prev nxt)) n t = []" for n t by (simp add: entries_def)
  then have "\<not> (c \<in> set (conns_at prev n t i) \<and> c \<notin> set (conns_at nxt n t i))" for c n t i
    unfolding compareConnections_spec(2) [symmetric] by simp
  then show "\<forall>n t i. set (conns_at prev n t i) \<subseteq> set (conns_at nxt n t i)" by blast
next
  assume sub: "\<forall>n t i. set (conns_at prev n t i) \<subseteq> set (conns_at nxt n t i)"
  have "all_missing prev nxt n t = []" for n t
  proof (rule ccontr)
    assume "all_missing prev nxt n t \<noteq> []"
    then obtain e where "e \<in> set (all_missing prev nxt n t)" by (cases "all_missing prev nxt n t") auto
    then obtain i k c where "\<lparr>ce_sourceIndex = i, ce_index = k, ce_connection = c\<rparr> \<in> set (all_missing prev nxt n t)"
      by (metis ConnectionEntry.surjective unit.exhaust)
    then show False unfolding in_all_missing using sub connection_map_ex by blast
  qed
  then show "cd_removed (compareConnections prev nxt) = []" by (rule removed_empty)
qed

section \<open>Nodes\<close>

text \<open>The node with an id: the last one in the list.\<close>

definition node_with :: "DiffableNode list \<Rightarrow> jsval \<Rightarrow> DiffableNode option" where
  "node_with nodes i = find (\<lambda>node. node_key node = i) (rev nodes)"

lemma map_get_rev: "distinct (keys_of m) \<Longrightarrow> map_get (rev m) k = map_get m k"
proof -
  assume d: "distinct (keys_of m)"
  have "map_get (rev m) k = Some v \<longleftrightarrow> map_get m k = Some v" for v
    using map_of_eq_Some_iff [OF d, of k v] map_of_eq_Some_iff [of "rev m" k v] d by (simp add: rev_map [symmetric])
  then show ?thesis by (cases "map_get m k"; cases "map_get (rev m) k") auto
qed

lemma get_nodes_by_id: "map_get (nodes_by_id nodes) i = node_with nodes i"
  unfolding nodes_by_id_def node_with_def by (induction nodes rule: rev_induct) (auto simp: js_map.get_put)

lemma distinct_nodes_by_id: "distinct (keys_of (nodes_by_id nodes))"
  unfolding nodes_by_id_def using js_map.fold_put_distinct [of "[]" node_key "\<lambda>x. x" nodes] by simp

lemma node_with_Some: "node_with nodes i = Some node \<Longrightarrow> node \<in> set nodes \<and> node_key node = i"
  using find_in [of "\<lambda>node. node_key node = i" "rev nodes" node] by (simp add: node_with_def)

lemma node_with_distinct:
  assumes "distinct (map node_key nodes)" and "node \<in> set nodes"
  shows "node_with nodes (node_key node) = Some node" and "find (\<lambda>x. node_key x = node_key node) nodes = Some node"
proof -
  have only: "find (\<lambda>x. node_key x = node_key node) xs = Some node" if "set xs = set nodes" for xs
  proof (cases "find (\<lambda>x. node_key x = node_key node) xs")
    case None
    with assms(2) that show ?thesis by (auto simp: find_None_iff)
  next
    case (Some x)
    then have "x \<in> set nodes" "node_key x = node_key node" using that find_in by fastforce+
    with assms have "x = node" by (auto simp: distinct_map dest: inj_onD)
    with Some show ?thesis by simp
  qed
  show "node_with nodes (node_key node) = Some node" "find (\<lambda>x. node_key x = node_key node) nodes = Some node"
    using only [of "rev nodes"] only [of nodes] by (simp_all add: node_with_def)
qed

definition node_diff :: "lodash \<Rightarrow> DiffableNode option \<Rightarrow> DiffableNode option \<Rightarrow> NodeDiff option" where
  "node_diff lib base target =
     (case base of
        None \<Rightarrow> map_option (\<lambda>node. \<lparr>nd_status = Added, nd_node = node\<rparr>) target
      | Some node \<Rightarrow> Some \<lparr>nd_status = (case target of None \<Rightarrow> Deleted
          | Some node' \<Rightarrow> if compareNodes lib node node' then Eq else Modified), nd_node = node\<rparr>)"

lemma compareWorkflowsNodes_get:
  "map_get (compareWorkflowsNodes lib base target) i = node_diff lib (node_with base i) (node_with target i)"
proof -
  let ?val = "\<lambda>i node. \<lparr>nd_status = (case node_with target i of None \<Rightarrow> Deleted
      | Some node' \<Rightarrow> if compareNodes lib node node' then Eq else Modified), nd_node = node\<rparr>"
  let ?added = "\<lambda>node. \<lparr>nd_status = Added, nd_node = node\<rparr>"
  have first: "map_get (fold (\<lambda>(i, node). map_set i (?val i node)) xs m) i
      = (case map_get (rev xs) i of None \<Rightarrow> map_get m i | Some node \<Rightarrow> Some (?val i node))" for xs m
    by (induction xs arbitrary: m rule: rev_induct) (auto simp: js_map.get_put split: option.splits)
  have second: "map_get (fold (\<lambda>(i, node). if node_with base i = None then map_set i (?added node) else id) xs m) i
      = (case map_get (rev xs) i of None \<Rightarrow> map_get m i | Some node \<Rightarrow> if node_with base i = None then Some (?added node) else map_get m i)" for xs m
    by (induction xs arbitrary: m rule: rev_induct) (auto simp: js_map.get_put split: option.splits)
  have rev: "map_get (rev (nodes_by_id nodes)) i = node_with nodes i" for nodes
    by (simp only: map_get_rev [OF distinct_nodes_by_id] get_nodes_by_id)
  show ?thesis
    unfolding compareWorkflowsNodes_def Let_def get_nodes_by_id second first rev
    by (auto simp: node_diff_def split: option.splits)
qed

section \<open>Merging versions\<close>

text \<open>Versions are read from one heap: the same object has the same contents.\<close>

definition same_heap :: "'w DiffableWorkflow_scheme \<Rightarrow> 'w DiffableWorkflow_scheme \<Rightarrow> bool" where
  "same_heap a b \<longleftrightarrow> (dw_ref a = dw_ref b \<longrightarrow> a = b)"

lemma distinct_compareWorkflowsNodes: "distinct (keys_of (compareWorkflowsNodes lib base target))"
  unfolding compareWorkflowsNodes_def Let_def
  by (intro fold_keeps [where P = "\<lambda>m. distinct (keys_of m)"]) (auto simp: js_map.distinct_put)

lemma in_compareWorkflowsNodes:
  assumes "(i, d) \<in> set (compareWorkflowsNodes lib base target)"
  shows "node_diff lib (node_with base i) (node_with target i) = Some d"
  using map_of_is_SomeI [OF distinct_compareWorkflowsNodes assms] compareWorkflowsNodes_get by simp

text \<open>The node of the next version that is compared with a node.\<close>

definition counterpart :: "'w DiffableWorkflow_scheme \<Rightarrow> NodeDiff \<Rightarrow> DiffableNode option" where
  "counterpart nxt d = find (\<lambda>x. node_key x = node_key (nd_node d)) (dw_nodes nxt)"

lemma additive_nodes_total:
  assumes "\<And>d. d \<in> set ds \<Longrightarrow> nd_status d \<in> {Eq, Modified} \<Longrightarrow> counterpart nxt d \<noteq> None"
  shows "\<exists>b. additive_nodes lib nxt ds = Inr b"
  using assms
proof (induction ds)
  case (Cons d ds)
  then obtain b where "additive_nodes lib nxt ds = Inr b" by auto
  with Cons.prems [of d] show ?case by (cases "nd_status d") (auto simp: counterpart_def)
qed auto

lemma additive_nodes_True:
  assumes "additive_nodes lib nxt ds = Inr True" and "d \<in> set ds"
  shows "nd_status d = Added \<or> (\<exists>q. counterpart nxt d = Some q \<and> (nd_status d = Eq \<or> nodeIsSuperset lib (nd_node d) q))"
  using assms
proof (induction ds)
  case (Cons d' ds)
  show ?case
  proof (cases "d = d'")
    case True
    with Cons.prems(1) show ?thesis by (cases "nd_status d") (auto simp: counterpart_def split: option.splits if_splits)
  next
    case False
    with Cons.prems have "d \<in> set ds" by simp
    moreover have "additive_nodes lib nxt ds = Inr True" using Cons.prems(1) by (auto split: option.splits if_splits)
    ultimately show ?thesis using Cons.IH by blast
  qed
qed simp

lemma change_set_counterpart:
  assumes "same_heap prev nxt" and "d \<in> set (map snd (wcs_nodes (new_change_set lib prev nxt)))" and "nd_status d \<in> {Eq, Modified}"
  shows "counterpart nxt d \<noteq> None"
proof (cases "dw_ref prev = dw_ref nxt")
  case True
  then have same: "prev = nxt" using assms(1) by (simp add: same_heap_def)
  have "d \<in> (\<lambda>node. \<lparr>nd_status = Eq, nd_node = node\<rparr>) ` set (dw_nodes nxt)"
    using assms(2) fold_map_set_values [of node_key "\<lambda>node. \<lparr>nd_status = Eq, nd_node = node\<rparr>" "dw_nodes nxt" "[]"]
    by (auto simp: new_change_set_def same)
  then show ?thesis by (auto simp: counterpart_def find_None_iff)
next
  case False
  then obtain i where "(i, d) \<in> set (compareWorkflowsNodes lib (dw_nodes prev) (dw_nodes nxt))" using assms(2) by (auto simp: new_change_set_def)
  from in_compareWorkflowsNodes [OF this] assms(3) obtain q where q: "node_with (dw_nodes nxt) i = Some q" "node_with (dw_nodes prev) i = Some (nd_node d)"
    by (auto simp: node_diff_def split: option.splits)
  have "q \<in> set (dw_nodes nxt)" "node_key q = node_key (nd_node d)" using node_with_Some [OF q(1)] node_with_Some [OF q(2)] by simp_all
  then show ?thesis by (auto simp: counterpart_def find_None_iff)
qed

lemma mergeAdditiveChanges_total:
  "same_heap prev nxt \<Longrightarrow> \<exists>b. mergeAdditiveChanges lib prev nxt (new_change_set lib prev nxt) meta = Inr b"
  using additive_nodes_total [of "map snd (wcs_nodes (new_change_set lib prev nxt))" nxt lib] change_set_counterpart [of prev nxt _ lib]
  by (auto simp: mergeAdditiveChanges_def)

lemma mergeAdditiveChanges_spec:
  assumes heap: "same_heap prev nxt" and ids: "distinct (map node_key (dw_nodes nxt))"
    and m: "mergeAdditiveChanges lib prev nxt (new_change_set lib prev nxt) meta = Inr True"
  shows "\<forall>i p. node_with (dw_nodes prev) i = Some p
      \<longrightarrow> (\<exists>q. node_with (dw_nodes nxt) i = Some q \<and> (q = p \<or> compareNodes lib p q \<or> nodeIsSuperset lib p q))"
    and "\<forall>n t i. set (conns_at (dw_connections prev) n t i) \<subseteq> set (conns_at (dw_connections nxt) n t i)"
proof -
  have add: "additive_nodes lib nxt (map snd (wcs_nodes (new_change_set lib prev nxt))) = Inr True"
    and con: "cd_removed (wcs_connections (new_change_set lib prev nxt)) = []"
    using m by (auto simp: mergeAdditiveChanges_def bind_res_eq_Inr)
  show "\<forall>n t i. set (conns_at (dw_connections prev) n t i) \<subseteq> set (conns_at (dw_connections nxt) n t i)"
  proof (cases "dw_ref prev = dw_ref nxt")
    case True
    with heap show ?thesis by (simp add: same_heap_def)
  next
    case False
    with con cd_removed_empty show ?thesis by (simp add: new_change_set_def)
  qed
  show "\<forall>i p. node_with (dw_nodes prev) i = Some p
      \<longrightarrow> (\<exists>q. node_with (dw_nodes nxt) i = Some q \<and> (q = p \<or> compareNodes lib p q \<or> nodeIsSuperset lib p q))"
  proof (intro allI impI)
    fix i p
    assume p: "node_with (dw_nodes prev) i = Some p"
    show "\<exists>q. node_with (dw_nodes nxt) i = Some q \<and> (q = p \<or> compareNodes lib p q \<or> nodeIsSuperset lib p q)"
    proof (cases "dw_ref prev = dw_ref nxt")
      case True
      with heap p show ?thesis by (simp add: same_heap_def)
    next
      case False
      define d where "d = the (node_diff lib (Some p) (node_with (dw_nodes nxt) i))"
      have d: "map_get (compareWorkflowsNodes lib (dw_nodes prev) (dw_nodes nxt)) i = Some d" "nd_node d = p" "nd_status d \<noteq> Added"
        "nd_status d = Eq \<Longrightarrow> \<exists>q. node_with (dw_nodes nxt) i = Some q \<and> compareNodes lib p q"
        by (auto simp: compareWorkflowsNodes_get node_diff_def p d_def split: option.splits if_splits)
      have "d \<in> set (map snd (wcs_nodes (new_change_set lib prev nxt)))"
        using map_of_SomeD [OF d(1)] False by (force simp: new_change_set_def)
      from additive_nodes_True [OF add this] d(2,3) obtain q where q: "counterpart nxt d = Some q" "nd_status d = Eq \<or> nodeIsSuperset lib p q" by auto
      have "q \<in> set (dw_nodes nxt)" "node_key q = i"
        using find_in [of _ "dw_nodes nxt" q] q(1) node_with_Some [OF p] d(2) by (auto simp: counterpart_def)
      with node_with_distinct(1) [OF ids] have "node_with (dw_nodes nxt) i = Some q" by blast
      with q(2) d(4) show ?thesis by auto
    qed
  qed
qed

section \<open>Properties\<close>

text \<open>
  \<^verbatim>\<open>stringContainsParts\<close>, with its loop and its early exit, is the test whether the second string is a subsequence of the first.
\<close>

lemma stringContainsParts_correct: "stringContainsParts s sub \<longleftrightarrow> subseq sub s"
  by (rule stringContainsParts_spec)

text \<open>
  \<^verbatim>\<open>compareConnections\<close> lists, under its node, its type and the index of its output, every connection that only the next workflow has as
  added and every connection that only the previous one has as removed, and nothing else.
\<close>

lemma compareConnections_correct:
  "((\<exists>k. \<lparr>ce_sourceIndex = i, ce_index = k, ce_connection = c\<rparr> \<in> set (entries (cd_added (compareConnections prev nxt)) n t))
     \<longleftrightarrow> c \<in> set (conns_at nxt n t i) \<and> c \<notin> set (conns_at prev n t i))
   \<and> ((\<exists>k. \<lparr>ce_sourceIndex = i, ce_index = k, ce_connection = c\<rparr> \<in> set (entries (cd_removed (compareConnections prev nxt)) n t))
     \<longleftrightarrow> c \<in> set (conns_at prev n t i) \<and> c \<notin> set (conns_at nxt n t i))"
  using compareConnections_spec by simp

end
