(* ===== verification/Version_Grouping.thy ===== *)
theory Version_Grouping
  imports Workflow_Diff_Correct
begin

text \<open>
  Grouping the versions of a workflow: \<^verbatim>\<open>groupWorkflows\<close> is the function \<open>thin\<close>, which reads the versions from the last to the
  first and drops each one that can be merged into the version kept after it.
\<close>

section \<open>Thinning out a list\<close>

definition thin_step :: "('a \<Rightarrow> 'a \<Rightarrow> bool) \<Rightarrow> 'a \<Rightarrow> 'a list \<times> 'a list \<Rightarrow> 'a list \<times> 'a list" where
  "thin_step merge w p = (case p of
      (removed, []) \<Rightarrow> (removed, [w])
    | (removed, nxt # rest) \<Rightarrow> if merge w nxt then (removed @ [w], nxt # rest) else (removed, w # nxt # rest))"

definition thin :: "('a \<Rightarrow> 'a \<Rightarrow> bool) \<Rightarrow> 'a list \<Rightarrow> 'a list \<times> 'a list" where
  "thin merge ws = foldr (thin_step merge) ws ([], [])"

lemma thin_simps [simp]: "thin merge [] = ([], [])" "thin merge (w # ws) = thin_step merge w (thin merge ws)"
  by (simp_all add: thin_def)

lemma thin_kept_Nil: "snd (thin merge ws) = [] \<longleftrightarrow> ws = []"
  by (cases ws) (auto simp: thin_step_def split: prod.splits list.splits)

lemma thin_last: "ws \<noteq> [] \<Longrightarrow> last (snd (thin merge ws)) = last ws"
proof (induction ws)
  case (Cons w ws)
  show ?case
  proof (cases "ws = []")
    case False
    with Cons.IH show ?thesis
      using thin_kept_Nil [of merge ws] by (cases "thin merge ws"; cases "snd (thin merge ws)") (auto simp: thin_step_def)
  qed (simp add: thin_step_def)
qed simp

lemma thin_subseq: "subseq (snd (thin merge ws)) ws"
proof (induction ws)
  case (Cons w ws)
  then show ?case
    by (cases "thin merge ws"; cases "snd (thin merge ws)") (auto simp: thin_step_def simp del: subseq_Cons2_iff intro: list_emb_Cons subseq_Cons2)
qed simp

lemma thin_mset: "mset (fst (thin merge ws)) + mset (snd (thin merge ws)) = mset ws"
proof (induction ws)
  case (Cons w ws)
  then show ?case by (cases "thin merge ws"; cases "snd (thin merge ws)") (auto simp: thin_step_def)
qed simp

lemma thin_apart: "successively (\<lambda>a b. \<not> merge a b) (snd (thin merge ws))"
proof (induction ws)
  case (Cons w ws)
  then show ?case by (cases "thin merge ws"; cases "snd (thin merge ws)") (auto simp: thin_step_def)
qed simp

lemma thin_removed:
  "v \<in> set (fst (thin merge ws)) \<Longrightarrow> \<exists>us vs w. ws = us @ v # vs \<and> w \<in> set vs \<and> w \<in> set (snd (thin merge ws)) \<and> merge v w"
proof (induction ws)
  case (Cons x ws)
  obtain removed kept where t: "thin merge ws = (removed, kept)" by fastforce
  have sub: "set kept \<subseteq> set ws" using thin_subseq [of merge ws] t by (auto dest: list_emb_set)
  have mono: "set kept \<subseteq> set (snd (thin merge (x # ws)))"
    by (cases kept) (auto simp: t thin_step_def)
  show ?case
  proof (cases "v \<in> set removed")
    case True
    with Cons.IH t obtain us vs w where "ws = us @ v # vs" "w \<in> set vs" "w \<in> set kept" "merge v w" by auto
    then have "x # ws = (x # us) @ v # vs \<and> w \<in> set vs \<and> w \<in> set (snd (thin merge (x # ws))) \<and> merge v w" using mono by auto
    then show ?thesis by blast
  next
    case False
    with Cons.prems t obtain nxt rest where "kept = nxt # rest" "v = x" "merge x nxt"
      by (cases kept) (auto simp: thin_step_def split: if_splits)
    then have "x # ws = [] @ v # ws \<and> nxt \<in> set ws \<and> nxt \<in> set (snd (thin merge (x # ws))) \<and> merge v nxt" using sub mono by auto
    then show ?thesis by blast
  qed
qed simp

section \<open>The loop of \<^verbatim>\<open>groupWorkflows\<close>\<close>

definition merge_res ::
  "lodash \<Rightarrow> 'w DiffRule list \<Rightarrow> 'w DiffRule list \<Rightarrow> DiffMetaData \<Rightarrow> 'w DiffableWorkflow_scheme \<Rightarrow> 'w DiffableWorkflow_scheme \<Rightarrow> bool res" where
  "merge_res lib rules skipRules metaData prev nxt =
     (let wcs = new_change_set lib prev nxt
      in bind_res (some_rule skipRules prev nxt wcs metaData) (\<lambda>skip. if skip then Inr False else some_rule rules prev nxt wcs metaData))"

definition merges ::
  "lodash \<Rightarrow> 'w DiffRule list \<Rightarrow> 'w DiffRule list \<Rightarrow> DiffMetaData \<Rightarrow> 'w DiffableWorkflow_scheme \<Rightarrow> 'w DiffableWorkflow_scheme \<Rightarrow> bool" where
  "merges lib rules skipRules metaData prev nxt \<longleftrightarrow> merge_res lib rules skipRules metaData prev nxt = Inr True"

text \<open>No rule throws when it compares versions of \<open>ws\<close>.\<close>

definition rules_total :: "lodash \<Rightarrow> 'w DiffRule list \<Rightarrow> 'w DiffRule list \<Rightarrow> DiffMetaData \<Rightarrow> 'w DiffableWorkflow_scheme list \<Rightarrow> bool" where
  "rules_total lib rules skipRules metaData ws \<longleftrightarrow>
     (\<forall>prev \<in> set ws. \<forall>nxt \<in> set ws. \<forall>rule \<in> set (rules @ skipRules). \<exists>b. rule prev nxt (new_change_set lib prev nxt) metaData = Inr b)"

lemma some_rule_total: "(\<And>rule. rule \<in> set rules \<Longrightarrow> \<exists>b. rule prev nxt wcs m = Inr b) \<Longrightarrow> \<exists>b. some_rule rules prev nxt wcs m = Inr b"
proof (induction rules)
  case (Cons rule rules)
  then obtain b c where "rule prev nxt wcs m = Inr b" "some_rule rules prev nxt wcs m = Inr c" by (meson list.set_intros)
  then show ?case by auto
qed auto

lemma some_rule_True: "some_rule rules prev nxt wcs m = Inr True \<Longrightarrow> \<exists>rule \<in> set rules. rule prev nxt wcs m = Inr True"
  by (induction rules) (auto simp: bind_res_eq_Inr split: if_splits)

lemma some_rule_False: "some_rule rules prev nxt wcs m = Inr False \<Longrightarrow> rule \<in> set rules \<Longrightarrow> rule prev nxt wcs m = Inr False"
  by (induction rules) (auto simp: bind_res_eq_Inr split: if_splits)

lemma mergesE:
  assumes "merges lib rules skipRules m prev nxt"
  obtains "\<And>rule. rule \<in> set skipRules \<Longrightarrow> rule prev nxt (new_change_set lib prev nxt) m = Inr False"
    and "\<exists>rule \<in> set rules. rule prev nxt (new_change_set lib prev nxt) m = Inr True"
proof -
  have "some_rule skipRules prev nxt (new_change_set lib prev nxt) m = Inr False"
    and "some_rule rules prev nxt (new_change_set lib prev nxt) m = Inr True"
    using assms by (auto simp: merges_def merge_res_def Let_def bind_res_eq_Inr split: if_splits)
  with that some_rule_False some_rule_True show ?thesis by blast
qed

lemma merge_res_total:
  assumes "rules_total lib rules skipRules m ws" and "prev \<in> set ws" and "nxt \<in> set ws"
  shows "merge_res lib rules skipRules m prev nxt = Inr (merges lib rules skipRules m prev nxt)"
proof -
  let ?wcs = "new_change_set lib prev nxt"
  have "\<exists>b. some_rule rules prev nxt ?wcs m = Inr b" "\<exists>b. some_rule skipRules prev nxt ?wcs m = Inr b"
    using assms by (auto simp: rules_total_def intro!: some_rule_total)
  then have "\<exists>b. merge_res lib rules skipRules m prev nxt = Inr b" by (auto simp: merge_res_def Let_def)
  then show ?thesis by (auto simp: merges_def)
qed

lemma diffLoop_Suc:
  "diffLoop lib rules skipRules m (Suc (length xs)) (xs @ x # r # R) removed
     = bind_res (merge_res lib rules skipRules m x r) (\<lambda>b.
         if b then diffLoop lib rules skipRules m (length xs) (xs @ r # R) (removed @ [x])
         else diffLoop lib rules skipRules m (length xs) (xs @ x # r # R) removed)"
proof -
  have "(xs @ x # r # R) ! Suc (length xs) = r" by (simp add: nth_append)
  moreover have "take (length xs) (xs @ x # r # R) @ drop (Suc (length xs)) (xs @ x # r # R) = xs @ r # R" by (simp add: Suc_diff_le)
  ultimately show ?thesis
    by (cases "some_rule skipRules x r (new_change_set lib x r) m") (simp_all add: merge_res_def Let_def bind_res_assoc del: drop_append take_append cong: if_cong)
qed

lemma diffLoop_thin:
  assumes "rules_total lib rules skipRules m ws" and "set xs \<union> set (r # R) \<subseteq> set ws"
  shows "diffLoop lib rules skipRules m (length xs) (xs @ r # R) removed = Inr (foldr (thin_step (merges lib rules skipRules m)) xs (removed, r # R))"
  using assms(2)
proof (induction xs arbitrary: r R removed rule: rev_induct)
  case (snoc x xs)
  have "merge_res lib rules skipRules m x r = Inr (merges lib rules skipRules m x r)"
    using snoc.prems by (intro merge_res_total [OF assms(1)]) auto
  then show ?case
    using snoc.IH [of r R "removed @ [x]"] snoc.IH [of x "r # R" removed] snoc.prems diffLoop_Suc [of lib rules skipRules m xs x r R removed]
    by (simp add: thin_step_def)
qed simp

lemma groupWorkflows_thin:
  assumes "rules_total lib rules skipRules (diff_meta_data sizeScore ws) ws"
  shows "groupWorkflows lib ws rules skipRules sizeScore = Inr (thin (merges lib rules skipRules (diff_meta_data sizeScore ws)) ws)"
proof (cases "length ws \<le> 1")
  case True
  then show ?thesis by (cases ws) (auto simp: groupWorkflows_def thin_step_def)
next
  case False
  then obtain xs r where ws: "ws = xs @ [r]" by (cases ws rule: rev_exhaust) auto
  show ?thesis
    using diffLoop_thin [OF assms, of xs r "[]" "[]"] False by (simp add: groupWorkflows_def ws thin_def thin_step_def)
qed

text \<open>
  C16. For rules that do not throw \<^verbatim>\<open>groupWorkflows\<close> divides the versions into removed and remaining ones. The remaining versions keep their
  order and include the last one; no remaining version can be merged into the next remaining one; and every removed version can be merged
  directly into a later version that remains.
\<close>

theorem groupWorkflows_correct:
  assumes "rules_total lib rules skipRules (diff_meta_data sizeScore ws) ws" and "ws \<noteq> []"
  shows "\<exists>removed remaining. groupWorkflows lib ws rules skipRules sizeScore = Inr (removed, remaining)
    \<and> mset removed + mset remaining = mset ws \<and> subseq remaining ws \<and> last remaining = last ws
    \<and> successively (\<lambda>a b. \<not> merges lib rules skipRules (diff_meta_data sizeScore ws) a b) remaining
    \<and> (\<forall>v \<in> set removed. \<exists>us vs w. ws = us @ v # vs \<and> w \<in> set vs \<and> w \<in> set remaining
         \<and> merges lib rules skipRules (diff_meta_data sizeScore ws) v w)"
proof -
  let ?t = "thin (merges lib rules skipRules (diff_meta_data sizeScore ws)) ws"
  have "groupWorkflows lib ws rules skipRules sizeScore = Inr (fst ?t, snd ?t)" by (simp add: groupWorkflows_thin [OF assms(1)])
  then show ?thesis
    by (rule exI [of _ "snd ?t", THEN exI [of _ "fst ?t"], OF conjI])
      (intro conjI ballI thin_mset thin_subseq thin_last [OF assms(2)] thin_apart thin_removed)
qed

definition ex_timed :: "rat \<Rightarrow> DiffableWorkflow" where
  "ex_timed t = \<lparr>dw_ref = 0, dw_nodes = [], dw_connections = [], dw_createdAt = t, dw_authors = None\<rparr>"

theorem groupWorkflows_correct_witness:
  "\<exists>removed. groupWorkflows \<lparr>isEqual = (=), pick = (\<lambda>v _. v)\<rparr> (map ex_timed [0, 5, 9, 11]) [makeMergeShortTimeSpan 5] [] False
      = Inr (removed, map ex_timed [0, 5, 11]) \<and> mset removed = {#ex_timed 9#}"
proof -
  let ?lib = "\<lparr>isEqual = (=), pick = (\<lambda>v _. v)\<rparr>" and ?ws = "map ex_timed [0, 5, 9, 11]"
  have "rules_total ?lib [makeMergeShortTimeSpan 5] [] (diff_meta_data False ?ws) ?ws"
    by (simp add: rules_total_def makeMergeShortTimeSpan_def)
  from groupWorkflows_correct [OF this] obtain removed remaining where
    g: "groupWorkflows ?lib ?ws [makeMergeShortTimeSpan 5] [] False = Inr (removed, remaining)" "mset removed + mset remaining = mset ?ws" by auto
  have "(case groupWorkflows ?lib ?ws [makeMergeShortTimeSpan 5] [] False of Inr (_, remaining) \<Rightarrow> remaining = map ex_timed [0, 5, 11] | _ \<Rightarrow> False)"
    by code_simp
  with g show ?thesis by (auto simp: add_mset_commute)
qed

end
