(* ===== verification/Workflow_History.thy ===== *)
theory Workflow_History
  imports Version_Grouping
begin

text \<open>
  Compaction of the workflow history (\<^verbatim>\<open>cli/src/services/pruning/workflow-history-compaction.service.ts\<close> and the two repositories of
  \<^verbatim>\<open>@n8n/db\<close> that it uses). The database is the content of its two tables; the order in which it returns rows where a
  query leaves it open is the parameter \<open>sql\<close>. Times are numbers of milliseconds. Timers, pauses and logging are left out.
\<close>

section \<open>Tables and queries\<close>

record WorkflowHistory = DiffableWorkflow +
  wh_versionId :: string
  wh_workflowId :: string
  wh_name :: "string option"
  wh_description :: "string option"

record WorkflowPublishHistory =
  wph_workflowId :: string
  wph_versionId :: "string option"

record history_db =
  hdb_versions :: "WorkflowHistory list"
  hdb_published :: "WorkflowPublishHistory list"

record sql =
  orderByCreatedAt :: "WorkflowHistory list \<Rightarrow> WorkflowHistory list"
  orderOfIds :: "string list \<Rightarrow> string list"

definition in_range :: "rat \<Rightarrow> rat \<Rightarrow> WorkflowHistory \<Rightarrow> bool" where
  "in_range startDate endDate w \<longleftrightarrow> dw_createdAt w \<le> endDate \<and> dw_createdAt w \<ge> startDate"

definition getWorkflowIdsInRange :: "sql \<Rightarrow> history_db \<Rightarrow> rat \<Rightarrow> rat \<Rightarrow> string list" where
  "getWorkflowIdsInRange db_order db startDate endDate =
     orderOfIds db_order (set_of (map wh_workflowId (filter (in_range startDate endDate) (hdb_versions db))))"

definition getPublishedVersions :: "history_db \<Rightarrow> string \<Rightarrow> string option list" where
  "getPublishedVersions db workflowId = set_of (map wph_versionId (filter (\<lambda>r. wph_workflowId r = workflowId) (hdb_published db)))"

text \<open>The versions of a workflow in a window, and the deletion of versions; the publish history refers to a deleted version by null.\<close>

definition versions_in_range :: "sql \<Rightarrow> history_db \<Rightarrow> string \<Rightarrow> rat \<Rightarrow> rat \<Rightarrow> WorkflowHistory list" where
  "versions_in_range db_order db workflowId startDate endDate =
     orderByCreatedAt db_order (filter (\<lambda>w. wh_workflowId w = workflowId \<and> in_range startDate endDate w) (hdb_versions db))"

definition delete_versions :: "string list \<Rightarrow> history_db \<Rightarrow> history_db" where
  "delete_versions ids db = db\<lparr>hdb_versions := filter (\<lambda>w. wh_versionId w \<notin> set ids) (hdb_versions db),
     hdb_published := map (\<lambda>r. if wph_versionId r \<in> Some ` set ids then r\<lparr>wph_versionId := None\<rparr> else r) (hdb_published db)\<rparr>"

section \<open>Pruning the history of one workflow\<close>

type_synonym HistoryRule = "unit WorkflowHistory_ext DiffRule"

definition makeSkipActiveAndNamedVersionsRule :: "string list \<Rightarrow> HistoryRule" where
  "makeSkipActiveAndNamedVersionsRule activeVersions prev nxt diff metaData =
     Inr (wh_name prev \<noteq> None \<or> wh_description prev \<noteq> None \<or> wh_versionId prev \<in> set activeVersions)"

definition history_skip_rules :: "history_db \<Rightarrow> string \<Rightarrow> HistoryRule list \<Rightarrow> HistoryRule list" where
  "history_skip_rules db workflowId skipRules =
     makeSkipActiveAndNamedVersionsRule (set_of (List.map_filter (\<lambda>v. v) (getPublishedVersions db workflowId))) # skipDifferentUsers # skipRules"

definition pruneHistory ::
  "lodash \<Rightarrow> sql \<Rightarrow> history_db \<Rightarrow> string \<Rightarrow> rat \<Rightarrow> rat \<Rightarrow> HistoryRule list \<Rightarrow> HistoryRule list \<Rightarrow> bool \<Rightarrow> (history_db \<times> nat \<times> nat) res" where
  "pruneHistory lib db_order db workflowId startDate endDate rules skipRules sizeScore =
     (let workflows = versions_in_range db_order db workflowId startDate endDate
      in bind_res (groupWorkflows lib workflows rules (history_skip_rules db workflowId skipRules) sizeScore) (\<lambda>(removed, remaining).
           Inr (delete_versions (map wh_versionId removed) db, length workflows, length removed)))"

section \<open>The service\<close>

record compaction_payload =
  workflowsProcessed :: nat
  totalVersionsSeen :: nat
  totalVersionsDeleted :: nat
  errorCount :: nat

record compaction_config =
  optimizingMinimumAgeHours :: rat
  optimizingTimeWindowHours :: rat
  trimmingMinimumAgeDays :: rat
  trimmingTimeWindowDays :: rat

record compaction_state =
  cps_db :: history_db
  cps_payload :: compaction_payload

text \<open>One turn of the loop over the workflows: an exception is counted and the loop goes on.\<close>

definition compact_workflow ::
  "lodash \<Rightarrow> sql \<Rightarrow> rat \<Rightarrow> rat \<Rightarrow> HistoryRule list \<Rightarrow> HistoryRule list \<Rightarrow> bool \<Rightarrow> string \<Rightarrow> compaction_state \<Rightarrow> compaction_state" where
  "compact_workflow lib db_order startDate endDate rules skipRules sizeScore workflowId s =
     (case pruneHistory lib db_order (cps_db s) workflowId startDate endDate rules skipRules sizeScore of
        Inl e \<Rightarrow> s\<lparr>cps_payload := (cps_payload s)\<lparr>errorCount := errorCount (cps_payload s) + 1\<rparr>\<rparr>
      | Inr (db, seen, deleted) \<Rightarrow> s\<lparr>cps_db := db, cps_payload := (cps_payload s)
          \<lparr>totalVersionsSeen := totalVersionsSeen (cps_payload s) + seen, totalVersionsDeleted := totalVersionsDeleted (cps_payload s) + deleted\<rparr>\<rparr>)"

definition compactHistories ::
  "lodash \<Rightarrow> sql \<Rightarrow> rat \<Rightarrow> rat \<Rightarrow> rat \<Rightarrow> HistoryRule list \<Rightarrow> HistoryRule list \<Rightarrow> bool \<Rightarrow> history_db \<Rightarrow> compaction_state" where
  "compactHistories lib db_order compactionStartTime startDeltaMs endDeltaMs rules skipRules sizeScore db =
     (let startDate = compactionStartTime - startDeltaMs; endDate = compactionStartTime - endDeltaMs;
          workflowIds = getWorkflowIdsInRange db_order db startDate endDate
      in fold (compact_workflow lib db_order startDate endDate rules skipRules sizeScore) workflowIds
           \<lparr>cps_db = db, cps_payload = \<lparr>workflowsProcessed = length workflowIds, totalVersionsSeen = 0, totalVersionsDeleted = 0, errorCount = 0\<rparr>\<rparr>)"

definition hours_toMilliseconds :: rat where "hours_toMilliseconds = 60 * 60 * 1000"

definition days_toMilliseconds :: rat where "days_toMilliseconds = 24 * 60 * 60 * 1000"

text \<open>A call during another call of the same method returns at once.\<close>

definition optimizeHistories :: "lodash \<Rightarrow> sql \<Rightarrow> compaction_config \<Rightarrow> bool \<Rightarrow> rat \<Rightarrow> history_db \<Rightarrow> history_db \<times> compaction_payload option" where
  "optimizeHistories lib db_order config isOptimizingHistories now db =
     (if isOptimizingHistories then (db, None)
      else let startDelta = (optimizingMinimumAgeHours config + optimizingTimeWindowHours config) * hours_toMilliseconds;
               endDelta = optimizingMinimumAgeHours config * hours_toMilliseconds;
               s = compactHistories lib db_order now startDelta endDelta [mergeAdditiveChanges lib] [makeSkipTimeDifference (20 * 60 * 1000)] False db
           in (cps_db s, Some (cps_payload s)))"

definition trimming_times :: "(rat \<times> rat) list" where
  "trimming_times = [(0, 60 * 1000), (100, 10 * 60 * 1000), (1000, 2 * 60 * 60 * 1000), (5000, 5 * 60 * 60 * 1000), (10000, 10 * 60 * 60 * 1000)]"

definition trimLongRunningHistories :: "lodash \<Rightarrow> sql \<Rightarrow> compaction_config \<Rightarrow> bool \<Rightarrow> rat \<Rightarrow> history_db \<Rightarrow> history_db \<times> compaction_payload option" where
  "trimLongRunningHistories lib db_order config isTrimmingHistories now db =
     (if isTrimmingHistories then (db, None)
      else let startDelta = (trimmingMinimumAgeDays config + trimmingTimeWindowDays config) * days_toMilliseconds;
               endDelta = trimmingMinimumAgeDays config * days_toMilliseconds;
               s = compactHistories lib db_order now startDelta endDelta [makeMergeDependingOnSizeRule trimming_times] [] True db
           in (cps_db s, Some (cps_payload s)))"

end
