(* ===== verification/Workflow_History_Correct.thy ===== *)
theory Workflow_History_Correct
  imports Workflow_History
begin

text \<open>
  What the compaction of the workflow history keeps. The locale \<open>compaction_rules\<close> states what the loop relies on of the rules it is called
  with; it is interpreted for the rules of the hourly optimization and for those of the daily trimming.
\<close>

section \<open>Tables\<close>

definition db_ok :: "history_db \<Rightarrow> bool" where
  "db_ok db \<longleftrightarrow> distinct (map wh_versionId (hdb_versions db)) \<and> distinct (map dw_ref (hdb_versions db))
     \<and> (\<forall>v \<in> set (hdb_versions db). distinct (map node_key (dw_nodes v)))"

definition sql_ok :: "sql \<Rightarrow> bool" where
  "sql_ok db_order \<longleftrightarrow>
     (\<forall>ws. mset (orderByCreatedAt db_order ws) = mset ws \<and> sorted (map dw_createdAt (orderByCreatedAt db_order ws)))
     \<and> (\<forall>ids. mset (orderOfIds db_order ids) = mset ids)"

definition is_published :: "history_db \<Rightarrow> WorkflowHistory \<Rightarrow> bool" where
  "is_published db v \<longleftrightarrow> (\<exists>r \<in> set (hdb_published db). wph_workflowId r = wh_workflowId v \<and> wph_versionId r = Some (wh_versionId v))"

definition removable :: "history_db \<Rightarrow> rat \<Rightarrow> rat \<Rightarrow> WorkflowHistory \<Rightarrow> bool" where
  "removable db startDate endDate v \<longleftrightarrow>
     in_range startDate endDate v \<and> wh_name v = None \<and> wh_description v = None \<and> \<not> is_published db v"

definition replaced_by :: "(WorkflowHistory \<Rightarrow> WorkflowHistory \<Rightarrow> bool) \<Rightarrow> WorkflowHistory \<Rightarrow> WorkflowHistory \<Rightarrow> bool" where
  "replaced_by replaces v w \<longleftrightarrow>
     wh_workflowId w = wh_workflowId v \<and> dw_authors w = dw_authors v \<and> dw_createdAt v \<le> dw_createdAt w \<and> replaces v w"

definition compacted ::
  "(WorkflowHistory \<Rightarrow> WorkflowHistory \<Rightarrow> bool) \<Rightarrow> rat \<Rightarrow> rat \<Rightarrow> string set \<Rightarrow> history_db \<Rightarrow> history_db \<Rightarrow> bool" where
  "compacted replaces startDate endDate ids db db' \<longleftrightarrow>
     subseq (hdb_versions db') (hdb_versions db)
     \<and> (\<forall>v \<in> set (hdb_versions db'). is_published db' v \<longleftrightarrow> is_published db v)
     \<and> (\<forall>v \<in> set (hdb_versions db) - set (hdb_versions db').
          wh_workflowId v \<in> ids \<and> removable db startDate endDate v \<and> (\<exists>w \<in> set (hdb_versions db'). replaced_by replaces v w))"

lemma subseq_set: "subseq xs ys \<Longrightarrow> x \<in> set xs \<Longrightarrow> x \<in> set ys"
  using list_emb_set [of "(=)" xs ys x] by auto

lemma subseq_distinct_map: "subseq xs ys \<Longrightarrow> distinct (map f ys) \<Longrightarrow> distinct (map f xs)"
  by (induction rule: list_emb.induct) (auto dest: subseq_set)

lemma db_ok_subseq:
  assumes "db_ok db" and sub: "subseq (hdb_versions db') (hdb_versions db)"
  shows "db_ok db'"
  using assms(1) subseq_distinct_map [OF sub, of wh_versionId] subseq_distinct_map [OF sub, of dw_ref] subseq_set [OF sub]
  unfolding db_ok_def by auto

lemma same_version: "db_ok db \<Longrightarrow> v \<in> set (hdb_versions db) \<Longrightarrow> w \<in> set (hdb_versions db) \<Longrightarrow> wh_versionId v = wh_versionId w \<Longrightarrow> v = w"
  by (auto simp: db_ok_def distinct_map dest: inj_onD)

lemma db_same_heap: "db_ok db \<Longrightarrow> v \<in> set (hdb_versions db) \<Longrightarrow> w \<in> set (hdb_versions db) \<Longrightarrow> same_heap v w"
  by (auto simp: db_ok_def same_heap_def distinct_map dest: inj_onD)

lemma in_versions_in_range:
  "sql_ok db_order \<Longrightarrow> set (versions_in_range db_order db wid s e) = {v \<in> set (hdb_versions db). wh_workflowId v = wid \<and> in_range s e v}"
  using mset_eq_setD [of "versions_in_range db_order db wid s e" "filter (\<lambda>w. wh_workflowId w = wid \<and> in_range s e w) (hdb_versions db)"]
  by (simp add: sql_ok_def versions_in_range_def)

lemma in_delete_versions:
  assumes "db_ok db" and "set removed \<subseteq> set (hdb_versions db)"
  shows "hdb_versions (delete_versions (map wh_versionId removed) db) = filter (\<lambda>w. w \<notin> set removed) (hdb_versions db)"
proof -
  have "w \<in> set removed" if "w \<in> set (hdb_versions db)" "wh_versionId w \<in> wh_versionId ` set removed" for w
    using that assms same_version [OF assms(1)] by blast
  then show ?thesis by (auto simp: delete_versions_def intro!: filter_cong)
qed

lemma published_delete:
  assumes "wh_versionId v \<notin> set ids"
  shows "is_published (delete_versions ids db) v \<longleftrightarrow> is_published db v"
  using assms by (auto simp: is_published_def delete_versions_def split: if_splits)

lemma in_published:
  "wh_versionId v \<in> set (set_of (List.map_filter (\<lambda>v. v) (getPublishedVersions db (wh_workflowId v)))) \<longleftrightarrow> is_published db v"
  by (auto simp: getPublishedVersions_def is_published_def List.map_filter_def image_iff) (metis option.sel)

section \<open>The contract of the rules\<close>

locale compaction_rules =
  fixes lib :: lodash and rules skipRules :: "HistoryRule list" and replaces :: "WorkflowHistory \<Rightarrow> WorkflowHistory \<Rightarrow> bool"
  assumes rules_return: "rule \<in> set (rules @ skipRules) \<Longrightarrow> same_heap v w \<Longrightarrow> \<exists>b. rule v w (new_change_set lib v w) m = Inr b"
    and rules_replace: "same_heap v w \<Longrightarrow> distinct (map node_key (dw_nodes w)) \<Longrightarrow> rule \<in> set rules
      \<Longrightarrow> rule v w (new_change_set lib v w) m = Inr True
      \<Longrightarrow> (\<And>skip. skip \<in> set skipRules \<Longrightarrow> skip v w (new_change_set lib v w) m = Inr False) \<Longrightarrow> replaces v w"
begin

lemma history_rules_total:
  assumes "\<And>v w. v \<in> set ws \<Longrightarrow> w \<in> set ws \<Longrightarrow> same_heap v w"
  shows "rules_total lib rules (history_skip_rules db wid skipRules) m ws"
proof -
  have "\<exists>b. rule v w (new_change_set lib v w) m = Inr b" if "v \<in> set ws" "w \<in> set ws" "rule \<in> set (rules @ history_skip_rules db wid skipRules)" for v w rule
    using that(3) rules_return [of rule v w m] assms [OF that(1,2)]
    by (auto simp: history_skip_rules_def makeSkipActiveAndNamedVersionsRule_def skipDifferentUsers_def)
  then show ?thesis unfolding rules_total_def by blast
qed

lemma merges_replaces:
  assumes "merges lib rules (history_skip_rules db (wh_workflowId v) skipRules) m v w"
    and "same_heap v w" and "distinct (map node_key (dw_nodes w))"
  shows "wh_name v = None" "wh_description v = None" "\<not> is_published db v" "dw_authors w = dw_authors v" "replaces v w"
proof -
  from assms(1) have skip: "\<And>rule. rule \<in> set (history_skip_rules db (wh_workflowId v) skipRules) \<Longrightarrow> rule v w (new_change_set lib v w) m = Inr False"
    and merge: "\<exists>rule \<in> set rules. rule v w (new_change_set lib v w) m = Inr True"
    by (auto elim: mergesE)
  show "wh_name v = None" "wh_description v = None" "\<not> is_published db v" "dw_authors w = dw_authors v"
    using skip [of "makeSkipActiveAndNamedVersionsRule (set_of (List.map_filter (\<lambda>v. v) (getPublishedVersions db (wh_workflowId v))))"]
      skip [of skipDifferentUsers] in_published [of v db]
    by (auto simp: history_skip_rules_def makeSkipActiveAndNamedVersionsRule_def skipDifferentUsers_def)
  show "replaces v w"
    using merge skip rules_replace [OF assms(2,3)] by (auto simp: history_skip_rules_def)
qed

text \<open>Pruning the history of one workflow.\<close>

lemma pruneHistory_step:
  assumes db: "db_ok db" and sql: "sql_ok db_order"
  obtains removed where
    "pruneHistory lib db_order db wid s e rules skipRules sizeScore
       = Inr (delete_versions (map wh_versionId removed) db, length (versions_in_range db_order db wid s e), length removed)"
    and "distinct removed" and "set removed \<subseteq> set (hdb_versions db)"
    and "\<And>v. v \<in> set removed \<Longrightarrow> wh_workflowId v = wid \<and> removable db s e v
      \<and> (\<exists>w \<in> set (hdb_versions db) - set removed. replaced_by replaces v w)"
proof -
  define ws where "ws = versions_in_range db_order db wid s e"
  define merge where "merge = merges lib rules (history_skip_rules db wid skipRules) (diff_meta_data sizeScore ws)"
  define removed where "removed = fst (thin merge ws)"
  have ws: "set ws = {v \<in> set (hdb_versions db). wh_workflowId v = wid \<and> in_range s e v}"
    unfolding ws_def by (rule in_versions_in_range [OF sql])
  have "distinct (hdb_versions db)" using db by (auto simp: db_ok_def distinct_map)
  then have "distinct (filter (\<lambda>w. wh_workflowId w = wid \<and> in_range s e w) (hdb_versions db))" by simp
  then have "distinct ws" unfolding ws_def versions_in_range_def using sql by (metis sql_ok_def mset_eq_imp_distinct_iff)
  have sorted: "sorted (map dw_createdAt ws)" unfolding ws_def versions_in_range_def using sql by (simp add: sql_ok_def)
  have m: "mset removed + mset (snd (thin merge ws)) = mset ws" unfolding removed_def by (rule thin_mset)
  then have all: "set removed \<union> set (snd (thin merge ws)) = set ws" by (metis set_mset_mset set_mset_union)
  have "distinct (removed @ snd (thin merge ws))" using m \<open>distinct ws\<close> by (metis mset_append mset_eq_imp_distinct_iff)
  then have dis: "distinct removed" "set removed \<inter> set (snd (thin merge ws)) = {}" by auto
  have heap: "same_heap v w" if "v \<in> set ws" "w \<in> set ws" for v w using that ws db_same_heap [OF db] by auto
  have "groupWorkflows lib ws rules (history_skip_rules db wid skipRules) sizeScore = Inr (thin merge ws)"
    unfolding merge_def by (rule groupWorkflows_thin [OF history_rules_total [OF heap]])
  then have prune: "pruneHistory lib db_order db wid s e rules skipRules sizeScore
       = Inr (delete_versions (map wh_versionId removed) db, length (versions_in_range db_order db wid s e), length removed)"
    by (simp add: pruneHistory_def ws_def [symmetric] removed_def Let_def split: prod.splits)
  have "wh_workflowId v = wid \<and> removable db s e v \<and> (\<exists>w \<in> set (hdb_versions db) - set removed. replaced_by replaces v w)" if "v \<in> set removed" for v
  proof -
    from that thin_removed [of v merge ws] obtain us vs w where w: "ws = us @ v # vs" "w \<in> set vs" "w \<in> set (snd (thin merge ws))" "merge v w"
      unfolding removed_def by blast
    have v: "v \<in> set (hdb_versions db)" "wh_workflowId v = wid" "in_range s e v" "w \<in> set (hdb_versions db)" "wh_workflowId w = wid"
      using ws w(1,2) by auto
    have "merges lib rules (history_skip_rules db (wh_workflowId v) skipRules) (diff_meta_data sizeScore ws) v w"
      using w(4) by (simp add: merge_def v(2))
    from merges_replaces [OF this db_same_heap [OF db v(1,4)]] db v(4)
    have r: "wh_name v = None" "wh_description v = None" "\<not> is_published db v" "dw_authors w = dw_authors v" "replaces v w"
      by (auto simp: db_ok_def)
    have "dw_createdAt v \<le> dw_createdAt w" using sorted w(2) by (simp add: w(1) sorted_append)
    moreover have "w \<notin> set removed" using w(3) dis(2) by blast
    ultimately show ?thesis using v r by (auto simp: removable_def replaced_by_def)
  qed
  with prune dis(1) that all ws show ?thesis by blast
qed

lemma compacted_step:
  assumes db: "db_ok db" and sql: "sql_ok db_order" and c: "compacted replaces s e ids db db'" and new: "wid \<notin> ids"
  obtains db'' seen deleted where "pruneHistory lib db_order db' wid s e rules skipRules sizeScore = Inr (db'', seen, deleted)"
    and "compacted replaces s e (insert wid ids) db db''" and "length (hdb_versions db'') + deleted = length (hdb_versions db')"
proof -
  have sub: "subseq (hdb_versions db') (hdb_versions db)" using c by (simp add: compacted_def)
  have db': "db_ok db'" by (rule db_ok_subseq [OF db sub])
  from pruneHistory_step [OF db' sql, of wid s e sizeScore] obtain removed where
    prune: "pruneHistory lib db_order db' wid s e rules skipRules sizeScore
       = Inr (delete_versions (map wh_versionId removed) db', length (versions_in_range db_order db' wid s e), length removed)"
    and r: "distinct removed" "set removed \<subseteq> set (hdb_versions db')"
    and why: "\<And>v. v \<in> set removed \<Longrightarrow> wh_workflowId v = wid \<and> removable db' s e v
      \<and> (\<exists>w \<in> set (hdb_versions db') - set removed. replaced_by replaces v w)" by blast
  let ?db = "delete_versions (map wh_versionId removed) db'"
  have kept: "hdb_versions ?db = filter (\<lambda>w. w \<notin> set removed) (hdb_versions db')" by (rule in_delete_versions [OF db' r(2)])
  have pub': "is_published db' v \<longleftrightarrow> is_published db v" if "v \<in> set (hdb_versions db')" for v
    using c that by (simp add: compacted_def)
  have "wh_versionId v \<notin> set (map wh_versionId removed)" if "v \<in> set (hdb_versions ?db)" for v
    using that r(2) same_version [OF db'] unfolding kept by auto
  then have pub: "is_published ?db v \<longleftrightarrow> is_published db v" if "v \<in> set (hdb_versions ?db)" for v
    using that published_delete pub' unfolding kept by fastforce
  have gone: "wh_workflowId v \<in> insert wid ids \<and> removable db s e v \<and> (\<exists>w \<in> set (hdb_versions ?db). replaced_by replaces v w)"
    if v: "v \<in> set (hdb_versions db)" "v \<notin> set (hdb_versions ?db)" for v
  proof (cases "v \<in> set (hdb_versions db')")
    case True
    with v(2) have "v \<in> set removed" by (simp add: kept)
    with why [OF this] pub' [OF True] show ?thesis by (auto simp: kept removable_def)
  next
    case False
    with c v(1) obtain w where w: "wh_workflowId v \<in> ids" "removable db s e v" "w \<in> set (hdb_versions db')" "replaced_by replaces v w"
      by (auto simp: compacted_def)
    then have "wh_workflowId w \<noteq> wid" using new by (auto simp: replaced_by_def)
    then have "w \<notin> set removed" using why by blast
    with w show ?thesis by (auto simp: kept)
  qed
  have "subseq (hdb_versions ?db) (hdb_versions db)" unfolding kept using sub subseq_order.order_trans subseq_filter_left by blast
  with pub gone have "compacted replaces s e (insert wid ids) db ?db" by (simp add: compacted_def)
  moreover have "length (hdb_versions ?db) + length removed = length (hdb_versions db')"
  proof -
    have dv: "distinct (hdb_versions db')" using db' by (auto simp: db_ok_def distinct_map)
    have "set (filter (\<lambda>w. w \<in> set removed) (hdb_versions db')) = set removed" using r(2) by auto
    then have "length (filter (\<lambda>w. w \<in> set removed) (hdb_versions db')) = length removed"
      using dv r(1) by (metis distinct_card distinct_filter)
    then show ?thesis unfolding kept using sum_length_filter_compl [of "\<lambda>w. w \<in> set removed" "hdb_versions db'"] by simp
  qed
  ultimately show ?thesis using that [OF prune] by blast
qed

text \<open>All workflows of the window.\<close>

lemma compact_workflows:
  assumes db: "db_ok db" and sql: "sql_ok db_order"
    and "compacted replaces startDate endDate ids db (cps_db s)" and "distinct wids" and "set wids \<inter> ids = {}"
    and "length (hdb_versions (cps_db s)) + totalVersionsDeleted (cps_payload s) = length (hdb_versions db)"
    and "errorCount (cps_payload s) = 0"
  shows "\<exists>s'. fold (compact_workflow lib db_order startDate endDate rules skipRules sizeScore) wids s = s'
    \<and> compacted replaces startDate endDate (ids \<union> set wids) db (cps_db s')
    \<and> length (hdb_versions (cps_db s')) + totalVersionsDeleted (cps_payload s') = length (hdb_versions db)
    \<and> errorCount (cps_payload s') = 0 \<and> workflowsProcessed (cps_payload s') = workflowsProcessed (cps_payload s)"
  using assms(3-)
proof (induction wids arbitrary: ids s)
  case (Cons wid wids)
  have "wid \<notin> ids" using Cons.prems(3) by simp
  from compacted_step [OF db sql Cons.prems(1) this, of sizeScore] obtain db'' seen deleted where
    prune: "pruneHistory lib db_order (cps_db s) wid startDate endDate rules skipRules sizeScore = Inr (db'', seen, deleted)"
    and c: "compacted replaces startDate endDate (insert wid ids) db db''" and len: "length (hdb_versions db'') + deleted = length (hdb_versions (cps_db s))"
    by blast
  show ?case
    using Cons.IH [of "insert wid ids" "compact_workflow lib db_order startDate endDate rules skipRules sizeScore wid s"] Cons.prems c len
    by (simp add: compact_workflow_def prune)
qed simp

lemma compactHistories_compacts:
  assumes db: "db_ok db" and sql: "sql_ok db_order"
  shows "\<exists>s ids. compactHistories lib db_order now startDelta endDelta rules skipRules sizeScore db = s
    \<and> compacted replaces (now - startDelta) (now - endDelta) ids db (cps_db s)
    \<and> length (hdb_versions (cps_db s)) + totalVersionsDeleted (cps_payload s) = length (hdb_versions db)
    \<and> errorCount (cps_payload s) = 0"
proof -
  let ?ids = "getWorkflowIdsInRange db_order db (now - startDelta) (now - endDelta)"
  have "distinct ?ids" unfolding getWorkflowIdsInRange_def using sql by (metis mset_eq_imp_distinct_iff set_of_props(2) sql_ok_def)
  moreover have "compacted replaces (now - startDelta) (now - endDelta) {} db db" by (simp add: compacted_def)
  ultimately show ?thesis
    using compact_workflows [OF db sql, of "now - startDelta" "now - endDelta" "{}"
        "\<lparr>cps_db = db, cps_payload = \<lparr>workflowsProcessed = length ?ids, totalVersionsSeen = 0, totalVersionsDeleted = 0, errorCount = 0\<rparr>\<rparr>" ?ids sizeScore]
    by (auto simp: compactHistories_def Let_def)
qed

end

section \<open>The rules of the optimization\<close>

text \<open>Everything of \<open>v\<close> is in \<open>w\<close>: each node, equal or with parameters that extend those of \<open>v\<close>, and each connection.\<close>

definition covers :: "lodash \<Rightarrow> 'w DiffableWorkflow_scheme \<Rightarrow> 'w DiffableWorkflow_scheme \<Rightarrow> bool" where
  "covers lib v w \<longleftrightarrow>
     (\<forall>i p. node_with (dw_nodes v) i = Some p
        \<longrightarrow> (\<exists>q. node_with (dw_nodes w) i = Some q \<and> (q = p \<or> compareNodes lib p q \<or> nodeIsSuperset lib p q)))
     \<and> (\<forall>n t i. set (conns_at (dw_connections v) n t i) \<subseteq> set (conns_at (dw_connections w) n t i))"

definition optimized_into :: "lodash \<Rightarrow> WorkflowHistory \<Rightarrow> WorkflowHistory \<Rightarrow> bool" where
  "optimized_into lib v w \<longleftrightarrow> covers lib v w \<and> \<bar>dw_createdAt w - dw_createdAt v\<bar> \<le> 20 * 60 * 1000"

interpretation optimizing: compaction_rules lib "[mergeAdditiveChanges lib]" "[makeSkipTimeDifference (20 * 60 * 1000)]" "optimized_into lib" for lib
proof unfold_locales
  fix rule :: HistoryRule and v w :: WorkflowHistory and m
  assume "rule \<in> set ([mergeAdditiveChanges lib] @ [makeSkipTimeDifference (20 * 60 * 1000)])" and "same_heap v w"
  then show "\<exists>b. rule v w (new_change_set lib v w) m = Inr b"
    using mergeAdditiveChanges_total [of v w lib m] by (auto simp: makeSkipTimeDifference_def)
next
  fix rule :: HistoryRule and v w :: WorkflowHistory and m
  assume heap: "same_heap v w" and ids: "distinct (map node_key (dw_nodes w))"
    and "rule \<in> set [mergeAdditiveChanges lib]" and "rule v w (new_change_set lib v w) m = Inr True"
    and skip: "\<And>skip. skip \<in> set [makeSkipTimeDifference (20 * 60 * 1000)] \<Longrightarrow> skip v w (new_change_set lib v w) m = Inr False"
  then have "mergeAdditiveChanges lib v w (new_change_set lib v w) m = Inr True" by simp
  from mergeAdditiveChanges_spec [OF heap ids this] have "covers lib v w" by (simp add: covers_def)
  with skip [of "makeSkipTimeDifference (20 * 60 * 1000)"] show "optimized_into lib v w"
    by (simp add: optimized_into_def makeSkipTimeDifference_def)
qed

section \<open>The rules of the trimming\<close>

definition trimmed_into :: "WorkflowHistory \<Rightarrow> WorkflowHistory \<Rightarrow> bool" where
  "trimmed_into v w \<longleftrightarrow> \<bar>dw_createdAt w - dw_createdAt v\<bar> < 10 * hours_toMilliseconds"

lemma makeMergeDependingOnSizeRule_True:
  assumes "makeMergeDependingOnSizeRule mapping v w wcs m = Inr True"
  shows "\<exists>(minimum, time) \<in> set mapping. \<bar>dw_createdAt w - dw_createdAt v\<bar> < time"
proof -
  let ?pairs = "js_sort (\<lambda>a b. \<lfloor>sgn (fst b - fst a)\<rfloor>) mapping"
  obtain score minimum time where "find (\<lambda>(minimum, time). rat_of_nat score > minimum) ?pairs = Some (minimum, time)"
    and "\<bar>dw_createdAt w - dw_createdAt v\<bar> < time"
    using assms by (auto simp: makeMergeDependingOnSizeRule_def makeMergeShortTimeSpan_def Let_def split: option.splits)
  with find_in [of _ ?pairs "(minimum, time)"] show ?thesis by auto
qed

interpretation trimming: compaction_rules lib "[makeMergeDependingOnSizeRule trimming_times]" "[]" trimmed_into for lib
proof unfold_locales
  fix rule :: HistoryRule and v w :: WorkflowHistory and m
  assume "rule \<in> set ([makeMergeDependingOnSizeRule trimming_times] @ [])"
  then show "\<exists>b. rule v w (new_change_set lib v w) m = Inr b"
    by (auto simp: makeMergeDependingOnSizeRule_def makeMergeShortTimeSpan_def Let_def split: option.splits)
next
  fix rule :: HistoryRule and v w :: WorkflowHistory and m
  assume "rule \<in> set [makeMergeDependingOnSizeRule trimming_times]" and "rule v w (new_change_set lib v w) m = Inr True"
  then show "trimmed_into v w"
    using makeMergeDependingOnSizeRule_True [of trimming_times v w "new_change_set lib v w" m]
    by (auto simp: trimming_times_def trimmed_into_def hours_toMilliseconds_def)
qed

section \<open>Properties\<close>

lemma compacted_mono: "compacted replaces s e ids db db' \<Longrightarrow> compacted replaces s e UNIV db db'"
  by (auto simp: compacted_def)

lemma compaction_service:
  assumes "db_ok db" and "sql_ok db_order"
  shows "\<exists>db' p. optimizeHistories lib db_order config False now db = (db', Some p) \<and> errorCount p = 0
      \<and> length (hdb_versions db') + totalVersionsDeleted p = length (hdb_versions db)
      \<and> compacted (optimized_into lib) (now - (optimizingMinimumAgeHours config + optimizingTimeWindowHours config) * hours_toMilliseconds)
          (now - optimizingMinimumAgeHours config * hours_toMilliseconds) UNIV db db'"
    and "\<exists>db' p. trimLongRunningHistories lib db_order config False now db = (db', Some p) \<and> errorCount p = 0
      \<and> length (hdb_versions db') + totalVersionsDeleted p = length (hdb_versions db)
      \<and> compacted trimmed_into (now - (trimmingMinimumAgeDays config + trimmingTimeWindowDays config) * days_toMilliseconds)
          (now - trimmingMinimumAgeDays config * days_toMilliseconds) UNIV db db'"
  using optimizing.compactHistories_compacts [OF assms, of lib now "(optimizingMinimumAgeHours config + optimizingTimeWindowHours config) * hours_toMilliseconds"
      "optimizingMinimumAgeHours config * hours_toMilliseconds" False]
    trimming.compactHistories_compacts [OF assms, of lib now "(trimmingMinimumAgeDays config + trimmingTimeWindowDays config) * days_toMilliseconds"
      "trimmingMinimumAgeDays config * days_toMilliseconds" True]
  by (auto simp: optimizeHistories_def trimLongRunningHistories_def Let_def dest: compacted_mono)

text \<open>
  C15. Compacting the history loses nothing that it should keep: on tables with unique ids both services return without errors and only delete
  versions in their window of time that have no name or description and were never published. For each version that
  the optimization deletes a later version of the same workflow and author stays, at most 20 minutes younger, which has every connection and every
  node of it, a changed node with the same fields, parameters whose strings contain those of the deleted one. For each version that the trimming
  deletes one of the same workflow and author stays that is less than ten hours younger.
\<close>

theorem history_compaction_safe:
  assumes "db_ok db" and "sql_ok db_order"
  shows "(\<exists>db' p. optimizeHistories lib db_order config False now db = (db', Some p) \<and> errorCount p = 0
      \<and> length (hdb_versions db') + totalVersionsDeleted p = length (hdb_versions db)
      \<and> compacted (optimized_into lib) (now - (optimizingMinimumAgeHours config + optimizingTimeWindowHours config) * hours_toMilliseconds)
          (now - optimizingMinimumAgeHours config * hours_toMilliseconds) UNIV db db')
    \<and> (\<exists>db' p. trimLongRunningHistories lib db_order config False now db = (db', Some p) \<and> errorCount p = 0
      \<and> length (hdb_versions db') + totalVersionsDeleted p = length (hdb_versions db)
      \<and> compacted trimmed_into (now - (trimmingMinimumAgeDays config + trimmingTimeWindowDays config) * days_toMilliseconds)
          (now - trimmingMinimumAgeDays config * days_toMilliseconds) UNIV db db')"
  using compaction_service [OF assms, of lib config now] by blast

definition ex_lodash :: lodash where
  "ex_lodash = \<lparr>isEqual = (=), pick = (\<lambda>v props. JObj (filter (\<lambda>e. fst e \<in> set props) (spread v)))\<rparr>"

definition ex_version :: "nat \<Rightarrow> rat \<Rightarrow> string \<Rightarrow> WorkflowHistory" where
  "ex_version i t s = \<lparr>dw_ref = i, dw_nodes = [[(''id'', JStr ''n''), (''parameters'', JObj [(''text'', JStr s)])]], dw_connections = [],
     dw_createdAt = t, dw_authors = Some ''u'', wh_versionId = nat_str i, wh_workflowId = ''w'', wh_name = None, wh_description = None\<rparr>"

definition ex_history :: history_db where
  "ex_history = \<lparr>hdb_versions = [ex_version 0 0 ''ab'', ex_version 1 1000 ''acb'', ex_version 2 2000 ''b''], hdb_published = []\<rparr>"

definition ex_sql :: sql where
  "ex_sql = \<lparr>orderByCreatedAt = sort_key dw_createdAt, orderOfIds = (\<lambda>ids. ids)\<rparr>"

definition ex_compaction :: compaction_config where
  "ex_compaction = \<lparr>optimizingMinimumAgeHours = 1, optimizingTimeWindowHours = 2, trimmingMinimumAgeDays = 6, trimmingTimeWindowDays = 2\<rparr>"

theorem history_compaction_safe_witness:
  "\<exists>p. optimizeHistories ex_lodash ex_sql ex_compaction False 3602000 ex_history
       = (\<lparr>hdb_versions = [ex_version 1 1000 ''acb'', ex_version 2 2000 ''b''], hdb_published = []\<rparr>, Some p)
     \<and> errorCount p = 0 \<and> totalVersionsDeleted p = 1"
proof -
  have ok: "db_ok ex_history" by code_simp
  have sql: "sql_ok ex_sql" by (simp add: sql_ok_def ex_sql_def)
  have run: "fst (optimizeHistories ex_lodash ex_sql ex_compaction False 3602000 ex_history)
      = \<lparr>hdb_versions = [ex_version 1 1000 ''acb'', ex_version 2 2000 ''b''], hdb_published = []\<rparr>" by code_simp
  have three: "length (hdb_versions ex_history) = 3" by (simp add: ex_history_def)
  from history_compaction_safe [OF ok sql, of ex_lodash ex_compaction 3602000] three run show ?thesis by fastforce
qed

end
