(* ===== verification/Extractable_Subgraph.thy ===== *)
theory Extractable_Subgraph
  imports Connection_Maps
begin

text \<open>
  \<^verbatim>\<open>packages/workflow/src/graph/graph-utils.ts\<close>: which selections of nodes can be extracted into a sub-workflow.
  The adjacency list maps a node to its outgoing connections; a JavaScript \<^verbatim>\<open>Set\<close> of connection objects is the
  list of these objects in insertion order (every connection of a workflow is an object of its own), a \<^verbatim>\<open>Set\<close> of
  names is a list without repetitions.
\<close>

section \<open>The functions\<close>

type_synonym IConnectionAdjacencyList = "(string \<times> IConnection list) list"

datatype ExtractableErrorResult =
    MultipleInputNodesError "string list"
  | MultipleOutputNodesError "string list"
  | InputEdgeToNonRootNode string
  | OutputEdgeFromNonLeafNode string
  | NoContinuousPathFromRootToLeaf string string

definition getInputEdges :: "string list \<Rightarrow> IConnectionAdjacencyList \<Rightarrow> (string \<times> IConnection) list" where
  "getInputEdges graphIds adjacencyList =
     concat (map (\<lambda>(from, tos). if from \<in> set graphIds then []
       else map (\<lambda>to. (from, to)) (filter (\<lambda>to. con_node to \<in> set graphIds) tos)) adjacencyList)"

definition getOutputEdges :: "string list \<Rightarrow> IConnectionAdjacencyList \<Rightarrow> (string \<times> IConnection) list" where
  "getOutputEdges graphIds adjacencyList =
     concat (map (\<lambda>(from, tos). if from \<notin> set graphIds then []
       else map (\<lambda>to. (from, to)) (filter (\<lambda>to. con_node to \<notin> set graphIds) tos)) adjacencyList)"

definition set_intersection :: "'a list \<Rightarrow> 'a list \<Rightarrow> 'a list" where
  "set_intersection a b = fold (\<lambda>x result. if x \<in> set b then set_add x result else result) a []"

definition set_union :: "'a list \<Rightarrow> 'a list \<Rightarrow> 'a list" where
  "set_union a b = fold set_add b (fold set_add a [])"

definition set_difference :: "'a list \<Rightarrow> 'a list \<Rightarrow> 'a list" where
  "set_difference minuend subtrahend = fold set_delete subtrahend (set_of minuend)"

text \<open>\<^verbatim>\<open>adjacencyList.get(nodeId) ?? []\<close>\<close>

definition outgoing :: "IConnectionAdjacencyList \<Rightarrow> string \<Rightarrow> IConnection list" where
  "outgoing adjacencyList nodeId = (case map_get adjacencyList nodeId of None \<Rightarrow> [] | Some tos \<Rightarrow> tos)"

definition other_targets :: "IConnectionAdjacencyList \<Rightarrow> string \<Rightarrow> string list" where
  "other_targets adjacencyList nodeId =
     set_of (map con_node (filter (\<lambda>x. con_type x = Main \<and> con_node x \<noteq> nodeId) (outgoing adjacencyList nodeId)))"

definition getRootNodes :: "string list \<Rightarrow> IConnectionAdjacencyList \<Rightarrow> string list" where
  "getRootNodes graphIds adjacencyList =
     (let innerNodes = fold (\<lambda>nodeId innerNodes. set_union innerNodes (other_targets adjacencyList nodeId)) graphIds []
      in set_difference graphIds innerNodes)"

definition getLeafNodes :: "string list \<Rightarrow> IConnectionAdjacencyList \<Rightarrow> string list" where
  "getLeafNodes graphIds adjacencyList =
     fold (\<lambda>nodeId result.
       if length (set_intersection (other_targets adjacencyList nodeId) graphIds) = 0
       then set_add nodeId result else result) graphIds []"

text \<open>\<^verbatim>\<open>hasPath\<close>: \<open>paths\<close> is the stack, its last element on top.\<close>

definition main_targets :: "IConnectionAdjacencyList \<Rightarrow> string \<Rightarrow> string list" where
  "main_targets adjacencyList nodeId =
     set_of (map con_node (filter (\<lambda>x. con_type x = Main) (outgoing adjacencyList nodeId)))"

lemma set_difference_props [simp]:
  "set (set_difference a b) = set a - set b" "distinct (set_difference a b)"
proof -
  have "set (fold set_delete b xs) = set xs - set b" "distinct xs \<Longrightarrow> distinct (fold set_delete b xs)" for xs
    by (induction b arbitrary: xs) auto
  then show "set (set_difference a b) = set a - set b" "distinct (set_difference a b)"
    by (simp_all add: set_difference_def)
qed

function hasPathLoop :: "string \<Rightarrow> IConnectionAdjacencyList \<Rightarrow> string list \<Rightarrow> string list \<Rightarrow> bool" where
  "hasPathLoop end adjacencyList seen paths =
     (if paths = [] then False
      else let next = last paths in
        if next = end then True
        else let seen' = set_add next seen
             in hasPathLoop end adjacencyList seen' (butlast paths @ set_difference (main_targets adjacencyList next) seen'))"
  by pat_completeness auto

text \<open>
  Termination: a node is popped for the first time, or one stack entry of a visited node is used up, since only
  nodes that were not visited are pushed.
\<close>

definition all_targets :: "IConnectionAdjacencyList \<Rightarrow> string set" where
  "all_targets adjacencyList = (\<Union>(_, tos) \<in> set adjacencyList. con_node ` set tos)"

lemma finite_all_targets [simp]: "finite (all_targets adjacencyList)"
  by (auto simp: all_targets_def)

lemma main_targets_subset: "set (main_targets adjacencyList n) \<subseteq> all_targets adjacencyList"
  by (cases "map_get adjacencyList n") (auto simp: main_targets_def outgoing_def all_targets_def dest!: map_of_SomeD)

termination hasPathLoop
proof (relation "measures [\<lambda>(e, adj, seen, paths). card ((all_targets adj \<union> set paths) - set seen),
    \<lambda>(e, adj, seen, paths). length (filter (\<lambda>n. n \<in> set seen) paths)]", goal_cases)
  case 1
  then show ?case by simp
next
  case (2 e adj seen paths nxt seen')
  then have split: "paths = butlast paths @ [nxt]" by simp
  let ?paths = "butlast paths @ set_difference (main_targets adj nxt) seen'"
  have s: "set paths = insert nxt (set (butlast paths))" by (subst split) simp
  have sub: "(all_targets adj \<union> set ?paths) - set seen' \<subseteq> (all_targets adj \<union> set paths) - set seen"
    using main_targets_subset [of adj nxt] 2(4) s by auto
  show ?case
  proof (cases "nxt \<in> set seen")
    case False
    then have "(all_targets adj \<union> set ?paths) - set seen' \<subset> (all_targets adj \<union> set paths) - set seen"
      using sub 2(4) s by auto
    then have "card ((all_targets adj \<union> set ?paths) - set seen') < card ((all_targets adj \<union> set paths) - set seen)"
      by (intro psubset_card_mono) simp_all
    then show ?thesis by simp
  next
    case True
    then have seen: "seen' = seen" using 2(4) by (simp add: set_add_def)
    have "filter (\<lambda>n. n \<in> set seen) paths = filter (\<lambda>n. n \<in> set seen) (butlast paths) @ [nxt]"
      by (subst split) (simp add: True)
    moreover have "filter (\<lambda>n. n \<in> set seen) ?paths = filter (\<lambda>n. n \<in> set seen) (butlast paths)"
      by (simp add: seen filter_empty_conv)
    moreover have "card ((all_targets adj \<union> set ?paths) - set seen') \<le> card ((all_targets adj \<union> set paths) - set seen)"
      using sub by (intro card_mono) simp_all
    ultimately show ?thesis by (auto simp: le_less seen)
  qed
qed

declare hasPathLoop.simps [simp del]

definition hasPath :: "string \<Rightarrow> string \<Rightarrow> IConnectionAdjacencyList \<Rightarrow> bool" where
  "hasPath start end adjacencyList = hasPathLoop end adjacencyList [] [start]"

definition addOrCreate :: "string \<Rightarrow> IConnection \<Rightarrow> IConnectionAdjacencyList \<Rightarrow> IConnectionAdjacencyList" where
  "addOrCreate k v result = map_set k (outgoing result k @ [v]) result"

definition buildAdjacencyList :: "IConnections \<Rightarrow> IConnectionAdjacencyList" where
  "buildAdjacencyList connectionsBySourceNode =
     fold (\<lambda>(sourceNode, byType). fold (\<lambda>(type, outputs). fold (\<lambda>conns.
       fold (addOrCreate sourceNode) (or_empty conns)) outputs) byType) connectionsBySourceNode []"

record ExtractableSubgraphData =
  ex_start :: "string option"
  ex_end :: "string option"

definition parseExtractableSubgraphSelection ::
  "string list \<Rightarrow> IConnectionAdjacencyList \<Rightarrow> ExtractableErrorResult list + ExtractableSubgraphData" where
  "parseExtractableSubgraphSelection graphIds adjacencyList =
     (let inputEdges = getInputEdges graphIds adjacencyList;
          inputNodes = set_of (map (\<lambda>x. con_node (snd x)) (filter (\<lambda>x. con_type (snd x) = Main) inputEdges));
          rootNodes0 = getRootNodes graphIds adjacencyList;
          rootNodes = (if length rootNodes0 = 0 \<and> length inputNodes = 1 then inputNodes else rootNodes0);
          errors1 = map InputEdgeToNonRootNode (set_difference inputNodes rootNodes);
          rootInputNodes = set_intersection rootNodes inputNodes;
          errors2 = (if length rootInputNodes > 1 then [MultipleInputNodesError rootInputNodes] else []);
          outputEdges = getOutputEdges graphIds adjacencyList;
          outputNodes = set_of (map fst (filter (\<lambda>x. con_type (snd x) = Main) outputEdges));
          leafNodes0 = getLeafNodes graphIds adjacencyList;
          leafNodes = (if length leafNodes0 = 0 \<and> length outputNodes = 1 then outputNodes else leafNodes0);
          errors3 = map OutputEdgeFromNonLeafNode (set_difference outputNodes leafNodes);
          leafOutputNodes = set_intersection leafNodes outputNodes;
          errors4 = (if length leafOutputNodes > 1 then [MultipleOutputNodesError leafOutputNodes] else []);
          start = arr_at rootInputNodes 0;
          end = arr_at leafOutputNodes 0;
          errors5 = (case (start, end) of
              (Some s, Some e) \<Rightarrow> if s \<noteq> [] \<and> e \<noteq> [] \<and> \<not> hasPath s e adjacencyList
                then [NoContinuousPathFromRootToLeaf s e] else []
            | _ \<Rightarrow> []);
          errors = errors1 @ errors2 @ errors3 @ errors4 @ errors5
      in if length errors > 0 then Inl errors else Inr \<lparr>ex_start = start, ex_end = end\<rparr>)"

section \<open>Paths\<close>

definition adj_edges :: "IConnectionAdjacencyList \<Rightarrow> (string \<times> string) set" where
  "adj_edges adj = {(a, con_node c) | a c. c \<in> set (outgoing adj a) \<and> con_type c = Main}"

lemma set_main_targets: "set (main_targets adj n) = adj_edges adj `` {n}"
  by (auto simp: main_targets_def adj_edges_def)

lemma hasPathLoop_sound:
  "hasPathLoop e adj seen paths \<Longrightarrow> \<exists>n \<in> set paths. (n, e) \<in> (adj_edges adj)\<^sup>*"
proof (induction e adj seen paths rule: hasPathLoop.induct)
  case (1 e adj seen paths)
  show ?case
  proof (cases "paths = [] \<or> last paths = e")
    case True
    have "paths \<noteq> []" using "1.prems" by (auto simp: hasPathLoop.simps)
    with True show ?thesis using last_in_set by blast
  next
    case False
    let ?seen = "set_add (last paths) seen"
    let ?paths = "butlast paths @ set_difference (main_targets adj (last paths)) ?seen"
    have "hasPathLoop e adj ?seen ?paths"
      using "1.prems" False by (simp add: hasPathLoop.simps [of e adj seen paths] Let_def)
    with "1.IH" False obtain n where n: "n \<in> set ?paths" "(n, e) \<in> (adj_edges adj)\<^sup>*" by auto
    show ?thesis
    proof (cases "n \<in> set (butlast paths)")
      case True
      with n(2) show ?thesis by (auto dest: in_set_butlastD)
    next
      case no: False
      with n(1) have "(last paths, n) \<in> adj_edges adj" by (auto simp: set_main_targets)
      with n(2) False show ?thesis using last_in_set by (blast intro: converse_rtrancl_into_rtrancl)
    qed
  qed
qed

text \<open>
  The invariant for completeness: the end was not visited, and every edge leads from a visited node to a visited one or
  to one on the stack.
\<close>

lemma hasPathLoop_complete:
  "\<not> hasPathLoop e adj seen paths \<Longrightarrow> e \<notin> set seen \<Longrightarrow> (\<forall>n \<in> set seen. adj_edges adj `` {n} \<subseteq> set seen \<union> set paths) \<Longrightarrow>
     n \<in> set seen \<union> set paths \<Longrightarrow> (n, e) \<notin> (adj_edges adj)\<^sup>*"
proof (induction e adj seen paths arbitrary: n rule: hasPathLoop.induct)
  case (1 e adj seen paths)
  show ?case
  proof (cases "paths = []")
    case True
    have "m \<in> set seen" if "(n, m) \<in> (adj_edges adj)\<^sup>*" for m
      using that "1.prems"(3,4) True by (induction rule: rtrancl_induct) auto
    with "1.prems"(2) show ?thesis by blast
  next
    case False
    let ?x = "last paths"
    let ?seen = "set_add ?x seen"
    let ?paths = "butlast paths @ set_difference (main_targets adj ?x) ?seen"
    have s: "set paths = insert ?x (set (butlast paths))"
      using False by (metis append_butlast_last_id list.simps(15) rotate1.simps(2) set_rotate1)
    have x: "?x \<noteq> e" "\<not> hasPathLoop e adj ?seen ?paths"
      using "1.prems"(1) False by (auto simp: hasPathLoop.simps [of e adj seen paths] Let_def split: if_splits)
    have "\<forall>m \<in> set ?seen. adj_edges adj `` {m} \<subseteq> set ?seen \<union> set ?paths"
      using "1.prems"(3) s by (auto simp: set_main_targets)
    moreover have "n \<in> set ?seen \<union> set ?paths" using "1.prems"(4) s by auto
    moreover have "e \<notin> set ?seen" using "1.prems"(2) x(1) by auto
    ultimately show ?thesis using "1.IH" [OF False refl x(1) refl x(2)] by blast
  qed
qed

lemma hasPath_iff: "hasPath s e adj \<longleftrightarrow> (s, e) \<in> (adj_edges adj)\<^sup>*"
  using hasPathLoop_sound [of e adj "[]" "[s]"] hasPathLoop_complete [of e adj "[]" "[s]" s]
  by (auto simp: hasPath_def)

section \<open>Building the adjacency list\<close>

lemma outgoing_addOrCreate:
  "outgoing (addOrCreate k v adj) n = (if n = k then outgoing adj k @ [v] else outgoing adj n)"
  by (simp add: outgoing_def addOrCreate_def js_map.get_put)

lemma outgoing_fold_addOrCreate:
  "outgoing (fold (addOrCreate k) vs adj) n = outgoing adj n @ (if n = k then vs else [])"
  by (induction vs arbitrary: adj) (simp_all add: outgoing_addOrCreate)

lemma outgoing_fold_outputs:
  "outgoing (fold (\<lambda>conns. fold (addOrCreate k) (or_empty conns)) outputs adj) n
     = outgoing adj n @ (if n = k then concat (map or_empty outputs) else [])"
  by (induction outputs arbitrary: adj) (simp_all add: outgoing_fold_addOrCreate)

lemma outgoing_fold_types:
  "outgoing (fold (\<lambda>(type, outputs). fold (\<lambda>conns. fold (addOrCreate k) (or_empty conns)) outputs) byType adj) n
     = outgoing adj n @ (if n = k then concat (map (\<lambda>(t, outputs). concat (map or_empty outputs)) byType) else [])"
  by (induction byType arbitrary: adj) (auto simp: outgoing_fold_outputs)

definition conns_from :: "IConnections \<Rightarrow> string \<Rightarrow> IConnection list" where
  "conns_from connections n = concat (map (\<lambda>(k, byType). if k = n
     then concat (map (\<lambda>(t, outputs). concat (map or_empty outputs)) byType) else []) connections)"

definition main_edges_of :: "IConnections \<Rightarrow> (string \<times> string) set" where
  "main_edges_of connections = {(n, con_node c) | n c. c \<in> set (conns_from connections n) \<and> con_type c = Main}"

lemma outgoing_buildAdjacencyList: "outgoing (buildAdjacencyList connections) n = conns_from connections n"
proof -
  let ?add = "\<lambda>(sourceNode, byType). fold (\<lambda>(type, outputs). fold (\<lambda>conns.
       fold (addOrCreate sourceNode) (or_empty conns)) outputs) byType"
  have "outgoing (fold ?add connections adj) n = outgoing adj n @ conns_from connections n" for adj
    by (induction connections arbitrary: adj) (auto simp: conns_from_def outgoing_fold_types)
  from this [of "[]"] show ?thesis by (simp add: buildAdjacencyList_def outgoing_def)
qed

lemma distinct_buildAdjacencyList: "distinct (keys_of (buildAdjacencyList connections))"
proof -
  have add: "distinct (keys_of adj) \<Longrightarrow> distinct (keys_of (addOrCreate k v adj))" for k v adj
    by (simp add: addOrCreate_def js_map.distinct_put)
  have vs: "distinct (keys_of adj) \<Longrightarrow> distinct (keys_of (fold (addOrCreate k) vs adj))" for k vs adj
    by (induction vs arbitrary: adj) (simp_all add: add)
  have outs: "distinct (keys_of adj) \<Longrightarrow>
      distinct (keys_of (fold (\<lambda>conns. fold (addOrCreate k) (or_empty conns)) outputs adj))" for k outputs adj
    by (induction outputs arbitrary: adj) (simp_all add: vs)
  have types: "distinct (keys_of adj) \<Longrightarrow> distinct (keys_of (fold (\<lambda>(type, outputs). fold (\<lambda>conns.
      fold (addOrCreate k) (or_empty conns)) outputs) byType adj))" for k byType adj
    by (induction byType arbitrary: adj) (auto simp: outs)
  have "distinct (keys_of adj) \<Longrightarrow> distinct (keys_of (fold (\<lambda>(sourceNode, byType). fold (\<lambda>(type, outputs). fold (\<lambda>conns.
      fold (addOrCreate sourceNode) (or_empty conns)) outputs) byType) connections adj))" for adj
    by (induction connections arbitrary: adj) (auto simp: types)
  from this [of "[]"] show ?thesis by (simp add: buildAdjacencyList_def)
qed

section \<open>Selections\<close>

text \<open>
  The entries and exits of a selection: its nodes with a main edge from or to a node outside; its roots and leaves: its
  nodes without a main edge from or to another node of the selection.
\<close>

definition entries_of :: "(string \<times> string) set \<Rightarrow> string set \<Rightarrow> string set" where
  "entries_of E S = {n \<in> S. \<exists>a. a \<notin> S \<and> (a, n) \<in> E}"

definition exits_of :: "(string \<times> string) set \<Rightarrow> string set \<Rightarrow> string set" where
  "exits_of E S = {n \<in> S. \<exists>b. b \<notin> S \<and> (n, b) \<in> E}"

definition roots_of :: "(string \<times> string) set \<Rightarrow> string set \<Rightarrow> string set" where
  "roots_of E S = {n \<in> S. \<forall>a \<in> S. a \<noteq> n \<longrightarrow> (a, n) \<notin> E}"

definition leaves_of :: "(string \<times> string) set \<Rightarrow> string set \<Rightarrow> string set" where
  "leaves_of E S = {n \<in> S. \<forall>b \<in> S. b \<noteq> n \<longrightarrow> (n, b) \<notin> E}"

lemma set_intersection_props [simp]:
  "set (set_intersection a b) = set a \<inter> set b" "distinct (set_intersection a b)"
proof -
  have "set (fold (\<lambda>x result. if x \<in> set b then set_add x result else result) a xs) = set a \<inter> set b \<union> set xs"
    "distinct (fold (\<lambda>x result. if x \<in> set b then set_add x result else result) a xs) = distinct xs" for xs
    by (induction a arbitrary: xs) auto
  then show "set (set_intersection a b) = set a \<inter> set b" "distinct (set_intersection a b)"
    by (simp_all add: set_intersection_def)
qed

lemma set_union_set [simp]: "set (set_union a b) = set a \<union> set b"
  by (auto simp: set_union_def fold_set_add)

lemma set_other_targets: "set (other_targets adj n) = {m. m \<noteq> n \<and> (n, m) \<in> adj_edges adj}"
  by (auto simp: other_targets_def adj_edges_def)

lemma set_getRootNodes: "set (getRootNodes ids adj) = roots_of (adj_edges adj) (set ids)"
proof -
  have "set (fold (\<lambda>nodeId inner. set_union inner (other_targets adj nodeId)) ids xs)
      = set xs \<union> (\<Union>n \<in> set ids. set (other_targets adj n))" for xs
    by (induction ids arbitrary: xs) auto
  then show ?thesis by (auto simp: getRootNodes_def Let_def roots_of_def set_other_targets)
qed

lemma getLeafNodes_props:
  "set (getLeafNodes ids adj) = leaves_of (adj_edges adj) (set ids)" "distinct (getLeafNodes ids adj)"
proof -
  let ?leaf = "\<lambda>n. set_intersection (other_targets adj n) ids = []"
  have "set (fold (\<lambda>n result. if ?leaf n then set_add n result else result) xs ys) = {n \<in> set xs. ?leaf n} \<union> set ys"
    "distinct (fold (\<lambda>n result. if ?leaf n then set_add n result else result) xs ys) = distinct ys" for xs ys
    by (induction xs arbitrary: ys) auto
  moreover have "?leaf n \<longleftrightarrow> (\<forall>b \<in> set ids. b \<noteq> n \<longrightarrow> (n, b) \<notin> adj_edges adj)" for n
    by (auto simp: set_empty [symmetric] set_other_targets simp del: set_empty)
  ultimately show "set (getLeafNodes ids adj) = leaves_of (adj_edges adj) (set ids)" "distinct (getLeafNodes ids adj)"
    by (simp_all add: getLeafNodes_def leaves_of_def)
qed

lemma adj_edges_entry:
  "distinct (keys_of adj) \<Longrightarrow> (a, n) \<in> adj_edges adj \<longleftrightarrow> (\<exists>tos c. (a, tos) \<in> set adj \<and> c \<in> set tos \<and> con_node c = n \<and> con_type c = Main)"
  by (auto simp: adj_edges_def outgoing_def map_of_eq_Some_iff split: option.splits)

lemma set_input_nodes:
  assumes "distinct (keys_of adj)"
  shows "set (map (\<lambda>x. con_node (snd x)) (filter (\<lambda>x. con_type (snd x) = Main) (getInputEdges ids adj)))
    = entries_of (adj_edges adj) (set ids)"
  by (fastforce simp: getInputEdges_def entries_of_def adj_edges_entry [OF assms] image_iff split: if_splits)

lemma set_output_nodes:
  assumes "distinct (keys_of adj)"
  shows "set (map fst (filter (\<lambda>x. con_type (snd x) = Main) (getOutputEdges ids adj))) = exits_of (adj_edges adj) (set ids)"
  by (fastforce simp: getOutputEdges_def exits_of_def adj_edges_entry [OF assms] image_iff split: if_splits)

lemma at_most_one:
  "distinct xs \<Longrightarrow> (\<not> 1 < length xs \<and> arr_at xs 0 = r) \<longleftrightarrow> set xs = set_option r"
proof (cases xs)
  case (Cons x ys)
  moreover assume "distinct xs"
  ultimately show ?thesis by (cases ys; cases r) (auto simp: arr_at_def)
qed (cases r; simp add: arr_at_def)

text \<open>The tolerated case of a loop: no root, but one entry.\<close>

definition or_single :: "string set \<Rightarrow> string set \<Rightarrow> string set" where
  "or_single X Y = (if X = {} \<and> card Y = 1 then Y else X)"

lemma set_or_single:
  "distinct ys \<Longrightarrow> set (if length xs = 0 \<and> length ys = 1 then ys else xs) = or_single (set xs) (set ys)"
  by (auto simp: or_single_def distinct_card)

text \<open>A path from a node of the selection to its only exit does not leave the selection.\<close>

lemma path_within:
  assumes "s \<in> S" and "exits_of E S \<subseteq> {e}"
  shows "(s, e) \<in> E\<^sup>* \<longleftrightarrow> (s, e) \<in> (E \<inter> S \<times> S)\<^sup>*"
proof
  assume "(s, e) \<in> E\<^sup>*"
  then show "(s, e) \<in> (E \<inter> S \<times> S)\<^sup>*" using assms(1)
  proof (induction rule: converse_rtrancl_induct)
    case (step x y)
    then show ?case
    proof (cases "y \<in> S")
      case True
      with step show ?thesis by (auto intro: converse_rtrancl_into_rtrancl)
    next
      case False
      with step(1,4) assms(2) have "x = e" by (auto simp: exits_of_def)
      then show ?thesis by simp
    qed
  qed simp
next
  assume "(s, e) \<in> (E \<inter> S \<times> S)\<^sup>*"
  then show "(s, e) \<in> E\<^sup>*" by (rule rtrancl_mono [THEN subsetD, rotated]) blast
qed

section \<open>Properties\<close>

text \<open>
  \<^verbatim>\<open>hasPath\<close> returns on every adjacency list, also one with cycles (its loop is a function whose termination is
  proved), and answers exactly whether main connections lead from \<open>start\<close> to \<open>end\<close>.
\<close>

lemma hasPath_correct:
  "hasPath s e adj \<longleftrightarrow> (s, e) \<in> {(a, con_node c) | a c. c \<in> set (outgoing adj a) \<and> con_type c = Main}\<^sup>*"
  unfolding hasPath_iff adj_edges_def ..

definition extractable :: "(string \<times> string) set \<Rightarrow> string set \<Rightarrow> ExtractableSubgraphData \<Rightarrow> bool" where
  "extractable E S d \<longleftrightarrow> entries_of E S = set_option (ex_start d) \<and> exits_of E S = set_option (ex_end d)
    \<and> entries_of E S \<subseteq> or_single (roots_of E S) (entries_of E S)
    \<and> exits_of E S \<subseteq> or_single (leaves_of E S) (exits_of E S)
    \<and> (case (ex_start d, ex_end d) of (Some s, Some e) \<Rightarrow> s = [] \<or> e = [] \<or> (s, e) \<in> (E \<inter> S \<times> S)\<^sup>* | _ \<Rightarrow> True)"

lemma parseExtractableSubgraphSelection_spec:
  "parseExtractableSubgraphSelection ids (buildAdjacencyList connections) = Inr d \<longleftrightarrow> extractable (main_edges_of connections) (set ids) d"
proof -
  define adj where "adj = buildAdjacencyList connections"
  define E where "E = main_edges_of connections"
  have E: "adj_edges adj = E" by (simp add: adj_edges_def E_def main_edges_of_def adj_def outgoing_buildAdjacencyList)
  have dist: "distinct (keys_of adj)" by (simp add: adj_def distinct_buildAdjacencyList)
  define I where "I = set_of (map (\<lambda>x. con_node (snd x)) (filter (\<lambda>x. con_type (snd x) = Main) (getInputEdges ids adj)))"
  define R where "R = (if length (getRootNodes ids adj) = 0 \<and> length I = 1 then I else getRootNodes ids adj)"
  define O' where "O' = set_of (map fst (filter (\<lambda>x. con_type (snd x) = Main) (getOutputEdges ids adj)))"
  define L where "L = (if length (getLeafNodes ids adj) = 0 \<and> length O' = 1 then O' else getLeafNodes ids adj)"
  have I: "set I = entries_of E (set ids)" "distinct I" and O': "set O' = exits_of E (set ids)" "distinct O'"
    unfolding I_def O'_def set_of_props set_input_nodes [OF dist] set_output_nodes [OF dist] E by simp_all
  have R: "set R = or_single (roots_of E (set ids)) (set I)" and L: "set L = or_single (leaves_of E (set ids)) (set O')"
    unfolding R_def L_def set_or_single [OF I(2)] set_or_single [OF O'(2)] set_getRootNodes getLeafNodes_props E by simp_all
  let ?i = "set_intersection R I" and ?o = "set_intersection L O'"
  have "parseExtractableSubgraphSelection ids adj = Inr d \<longleftrightarrow> set_difference I R = [] \<and> set_difference O' L = []
      \<and> (\<not> 1 < length ?i \<and> arr_at ?i 0 = ex_start d) \<and> (\<not> 1 < length ?o \<and> arr_at ?o 0 = ex_end d)
      \<and> (case (ex_start d, ex_end d) of (Some s, Some e) \<Rightarrow> s = [] \<or> e = [] \<or> hasPath s e adj | _ \<Rightarrow> True)"
    unfolding parseExtractableSubgraphSelection_def Let_def I_def [symmetric] R_def [symmetric] O'_def [symmetric] L_def [symmetric]
    by (cases d) (auto split: option.splits if_splits)
  also have "\<dots> \<longleftrightarrow> set I \<subseteq> set R \<and> set O' \<subseteq> set L \<and> set R \<inter> set I = set_option (ex_start d)
      \<and> set L \<inter> set O' = set_option (ex_end d)
      \<and> (case (ex_start d, ex_end d) of (Some s, Some e) \<Rightarrow> s = [] \<or> e = [] \<or> (s, e) \<in> E\<^sup>* | _ \<Rightarrow> True)"
    unfolding at_most_one [OF set_intersection_props(2)] set_intersection_props hasPath_iff E
    by (simp add: set_empty [symmetric] Diff_eq_empty_iff del: set_empty)
  finally have "parseExtractableSubgraphSelection ids adj = Inr d \<longleftrightarrow>
      entries_of E (set ids) = set_option (ex_start d) \<and> exits_of E (set ids) = set_option (ex_end d)
    \<and> entries_of E (set ids) \<subseteq> or_single (roots_of E (set ids)) (entries_of E (set ids))
    \<and> exits_of E (set ids) \<subseteq> or_single (leaves_of E (set ids)) (exits_of E (set ids))
    \<and> (case (ex_start d, ex_end d) of (Some s, Some e) \<Rightarrow> s = [] \<or> e = [] \<or> (s, e) \<in> E\<^sup>* | _ \<Rightarrow> True)"
    unfolding I(1) O'(1) R L by blast
  moreover have "(s, e) \<in> E\<^sup>* \<longleftrightarrow> (s, e) \<in> (E \<inter> set ids \<times> set ids)\<^sup>*"
    if "entries_of E (set ids) = {s}" "exits_of E (set ids) = {e}" for s e
    using that by (intro path_within) (auto simp: entries_of_def)
  ultimately show ?thesis
    unfolding extractable_def E_def [symmetric] adj_def [symmetric] by (auto split: option.splits)
qed

text \<open>
  C39. \<^verbatim>\<open>parseExtractableSubgraphSelection\<close>, on the adjacency list of a workflow, accepts a selection exactly when
  main connections enter it at one node at most and leave it from one node at most, the entry is a root and the
  exit a leaf of the selection (a single entry or exit is tolerated when there is no root or leaf at all), and,
  when both exist and have a name, a path within the selection leads from the entry to the exit (the search also
  walks outside of it, to no effect); it then returns the entry as start and the exit as end.
\<close>

theorem parseExtractableSubgraphSelection_correct:
  "parseExtractableSubgraphSelection ids (buildAdjacencyList connections) = Inr d \<longleftrightarrow>
    (let E = main_edges_of connections in
      entries_of E (set ids) = set_option (ex_start d) \<and> exits_of E (set ids) = set_option (ex_end d)
    \<and> entries_of E (set ids) \<subseteq> or_single (roots_of E (set ids)) (entries_of E (set ids))
    \<and> exits_of E (set ids) \<subseteq> or_single (leaves_of E (set ids)) (exits_of E (set ids))
    \<and> (case (ex_start d, ex_end d) of (Some s, Some e) \<Rightarrow> s = [] \<or> e = [] \<or> (s, e) \<in> (E \<inter> set ids \<times> set ids)\<^sup>* | _ \<Rightarrow> True))"
  unfolding parseExtractableSubgraphSelection_spec extractable_def Let_def ..


end
