(* ===== verification/Node_Grouping.thy ===== *)
theory Node_Grouping
  imports Extractable_Subgraph Execution_Items Graph_Conversion
begin

text \<open>
  \<^verbatim>\<open>packages/workflow/src/node-grouping-validation.ts\<close>: which selections of nodes can be extracted or grouped. The node types and
  the evaluation of inputs and outputs that depend on parameters are functions of the input, as in the code.
\<close>

section \<open>The functions\<close>

type_synonym io_evaluator = "INode \<Rightarrow> INodeType \<Rightarrow> node_output list"

record IWorkflowGroup =
  wg_id :: string
  wg_name :: string
  wg_nodeIds :: "string list"

record NodeGroupingValidationInput =
  gi_nodes :: "INode list"
  gi_connectionsBySourceNode :: IConnections
  gi_getNodeType :: "INode \<Rightarrow> INodeType option"
  gi_existingNodeGroups :: "IWorkflowGroup list option"
  gi_getNodeInputs :: "io_evaluator option"
  gi_getNodeOutputs :: "io_evaluator option"

datatype IODirection = Inputs | Outputs

datatype NodeGroupValidationResult =
    ValidSelection "INode list" ExtractableSubgraphData
  | TriggerSelected "string list"
  | InvalidSubgraph "ExtractableErrorResult list"
  | MultipleInputBranches string
  | MultipleOutputBranches string
  | NodeAlreadyGrouped "string list"
  | NonMainBoundary string string string

definition findAlreadyGroupedNodeIds :: "string list \<Rightarrow> IWorkflowGroup list \<Rightarrow> string list" where
  "findAlreadyGroupedNodeIds selectionNodeIds existingNodeGroups =
     (let groupedNodeIds = set_of (concat (map wg_nodeIds existingNodeGroups))
      in filter (\<lambda>nodeId. nodeId \<in> set groupedNodeIds) selectionNodeIds)"

definition isMainIo :: "node_output \<Rightarrow> bool" where
  "isMainIo io = (case io of OutputType t \<Rightarrow> t = Main | OutputConfiguration t \<Rightarrow> t = Main)"

definition hasSingleMainIO ::
  "string \<Rightarrow> IODirection \<Rightarrow> (string \<times> INode) list \<Rightarrow> (INode \<Rightarrow> INodeType option) \<Rightarrow> io_evaluator option \<Rightarrow> io_evaluator option \<Rightarrow> bool" where
  "hasSingleMainIO nodeName direction byName getNodeType nodeInputs nodeOutputs =
     (case map_get byName nodeName of None \<Rightarrow> True
      | Some node \<Rightarrow> (case getNodeType node of None \<Rightarrow> True
        | Some nodeType \<Rightarrow>
            let evaluate = (\<lambda>f ios. case f of Some g \<Rightarrow> StaticOutputs (g node nodeType) | None \<Rightarrow> ios);
                ios = (if direction = Inputs then evaluate nodeInputs (nt_inputs nodeType) else evaluate nodeOutputs (nt_outputs nodeType))
            in (case ios of OutputsExpression _ \<Rightarrow> True | StaticOutputs xs \<Rightarrow> length (filter isMainIo xs) \<le> 1)))"

text \<open>The neighbours of the selected nodes: \<^verbatim>\<open>sourceNeighbors.add\<close> and \<^verbatim>\<open>neighborsByNodeName.get(targetNodeName)?.add\<close>.\<close>

definition add_neighbor :: "string \<Rightarrow> string \<Rightarrow> (string \<times> string list) list \<Rightarrow> (string \<times> string list) list" where
  "add_neighbor n neighbor m = (case map_get m n of None \<Rightarrow> m | Some ns \<Rightarrow> map_set n (set_add neighbor ns) m)"

definition add_connection_neighbors :: "string list \<Rightarrow> string \<Rightarrow> IConnection \<Rightarrow> (string \<times> string list) list \<Rightarrow> (string \<times> string list) list" where
  "add_connection_neighbors nodeNames sourceNodeName connection m =
     (let targetNodeName = con_node connection
      in if targetNodeName \<notin> set nodeNames \<or> targetNodeName = sourceNodeName then m
         else add_neighbor targetNodeName sourceNodeName (add_neighbor sourceNodeName targetNodeName m))"

definition neighbors_of :: "string list \<Rightarrow> IConnectionAdjacencyList \<Rightarrow> (string \<times> string list) list" where
  "neighbors_of nodeNames adjacencyList =
     fold (\<lambda>(sourceNodeName, connections). if sourceNodeName \<notin> set nodeNames then id
         else fold (add_connection_neighbors nodeNames sourceNodeName) connections)
       adjacencyList (fold (\<lambda>nodeName. map_set nodeName []) nodeNames [])"

definition visit_neighbor :: "string \<Rightarrow> string list \<times> string list \<Rightarrow> string list \<times> string list" where
  "visit_neighbor n = (\<lambda>(visited, queue). if n \<in> set visited then (visited, queue) else (visited @ [n], queue @ [n]))"

definition neighbors_at :: "(string \<times> string list) list \<Rightarrow> string \<Rightarrow> string list" where
  "neighbors_at m n = or_empty (map_get m n)"

text \<open>The breadth-first search: an empty name is taken from the queue and passed over.\<close>

lemma fold_visit:
  "\<exists>new. fold visit_neighbor ns (visited, queue) = (visited @ new, queue @ new) \<and> set new = set ns - set visited \<and> distinct new"
proof (induction ns arbitrary: visited queue)
  case (Cons n ns)
  show ?case
  proof (cases "n \<in> set visited")
    case True
    with Cons [of visited queue] show ?thesis by (auto simp: visit_neighbor_def)
  next
    case False
    from Cons [of "visited @ [n]" "queue @ [n]"] obtain new where
      "fold visit_neighbor ns (visited @ [n], queue @ [n]) = ((visited @ [n]) @ new, (queue @ [n]) @ new)"
      "set new = set ns - set (visited @ [n])" "distinct new" by blast
    moreover have "visit_neighbor n (visited, queue) = (visited @ [n], queue @ [n])" using False by (simp add: visit_neighbor_def)
    ultimately have "fold visit_neighbor (n # ns) (visited, queue) = (visited @ (n # new), queue @ (n # new))" by simp
    moreover have "set (n # new) = set (n # ns) - set visited" using False \<open>set new = set ns - set (visited @ [n])\<close> by auto
    moreover have "distinct (n # new)" using \<open>distinct new\<close> \<open>set new = set ns - set (visited @ [n])\<close> by simp
    ultimately show ?thesis by blast
  qed
qed simp

function visit_loop :: "(string \<times> string list) list \<Rightarrow> string list \<Rightarrow> string list \<Rightarrow> string list" where
  "visit_loop neighbors visited [] = visited"
| "visit_loop neighbors visited (currentNodeName # queue) =
     (if currentNodeName = [] then visit_loop neighbors visited queue
      else case fold visit_neighbor (neighbors_at neighbors currentNodeName) (visited, queue) of
             (visited', queue') \<Rightarrow> visit_loop neighbors visited' queue')"
  by pat_completeness auto

definition all_neighbors :: "(string \<times> string list) list \<Rightarrow> string set" where
  "all_neighbors m = (\<Union>(_, ns) \<in> set m. set ns)"

lemma neighbors_at_all: "set (neighbors_at m n) \<subseteq> all_neighbors m"
  by (cases "map_get m n") (auto simp: neighbors_at_def all_neighbors_def dest!: map_of_SomeD)

termination visit_loop
proof (relation "measures [\<lambda>(m, visited, queue). card (all_neighbors m - set visited), \<lambda>(m, visited, queue). length queue]", goal_cases)
  case 1
  then show ?case by simp
next
  case (2 neighbors visited c queue)
  then show ?case by simp
next
  case (3 neighbors visited c queue visited' queue')
  from fold_visit [of "neighbors_at neighbors c" visited queue] 3(2) obtain new where
    new: "visited' = visited @ new" "queue' = queue @ new" "set new = set (neighbors_at neighbors c) - set visited" by auto
  have fin: "finite (all_neighbors neighbors)" by (auto simp: all_neighbors_def)
  show ?case
  proof (cases "new = []")
    case True
    with new show ?thesis by simp
  next
    case False
    then have "all_neighbors neighbors - set visited' \<subset> all_neighbors neighbors - set visited"
      using new neighbors_at_all [of neighbors c] by (cases new) auto
    then have "card (all_neighbors neighbors - set visited') < card (all_neighbors neighbors - set visited)"
      using fin by (intro psubset_card_mono) auto
    then show ?thesis by simp
  qed
qed

definition findDisconnectedSelectionError :: "string list \<Rightarrow> IConnectionAdjacencyList \<Rightarrow> ExtractableErrorResult option" where
  "findDisconnectedSelectionError nodeNames currentAdjacencyList =
     (if length nodeNames \<le> 1 then None
      else let neighborsByNodeName = neighbors_of nodeNames currentAdjacencyList; firstNodeName = hd nodeNames
           in if firstNodeName = [] then None
              else let visited = visit_loop neighborsByNodeName [firstNodeName] [firstNodeName]
                   in if length visited = length nodeNames then None
                      else case find (\<lambda>nodeName. nodeName \<notin> set visited) nodeNames of
                             None \<Rightarrow> None
                           | Some disconnectedNodeName \<Rightarrow>
                               if disconnectedNodeName = [] then None else Some (NoContinuousPathFromRootToLeaf firstNodeName disconnectedNodeName))"

text \<open>The connections of a workflow in the order of the three nested loops, and the first one of another type that crosses the boundary.\<close>

definition connection_entries :: "IConnections \<Rightarrow> (string \<times> string \<times> string) list" where
  "connection_entries connectionsBySourceNode =
     concat (map (\<lambda>(source, byType). concat (map (\<lambda>(type, outputs).
       concat (map (\<lambda>conns. map (\<lambda>c. (source, con_node c, type)) (or_empty conns)) outputs)) byType)) connectionsBySourceNode)"

definition findNonMainBoundaryConnection :: "string list \<Rightarrow> IConnections \<Rightarrow> (string \<times> string \<times> string) option" where
  "findNonMainBoundaryConnection nodeNames connectionsBySourceNode =
     find (\<lambda>(source, target, type). type \<noteq> Main \<and> (source \<in> set nodeNames) \<noteq> (target \<in> set nodeNames))
       (connection_entries connectionsBySourceNode)"

definition several_main_ios :: "NodeGroupingValidationInput \<Rightarrow> IODirection \<Rightarrow> string option \<Rightarrow> bool" where
  "several_main_ios inp direction name =
     (let byName = fold (\<lambda>node. map_set (node_name node) node) (gi_nodes inp) []
      in case name of None \<Rightarrow> False
         | Some n \<Rightarrow> n \<noteq> [] \<and> \<not> hasSingleMainIO n direction byName (gi_getNodeType inp) (gi_getNodeInputs inp) (gi_getNodeOutputs inp))"

definition is_trigger_of :: "NodeGroupingValidationInput \<Rightarrow> INode \<Rightarrow> bool" where
  "is_trigger_of inp node = (case gi_getNodeType inp node of Some nodeType \<Rightarrow> isTriggerNode nodeType | None \<Rightarrow> False)"

definition validateNodeSelectionForExtraction :: "NodeGroupingValidationInput \<Rightarrow> NodeGroupValidationResult" where
  "validateNodeSelectionForExtraction inp =
     (let triggers = filter (is_trigger_of inp) (gi_nodes inp)
      in if length triggers > 0 then TriggerSelected (map node_name triggers)
         else let adjacencyList = buildAdjacencyList (gi_connectionsBySourceNode inp); selectedNodeNames = set_of (map node_name (gi_nodes inp))
              in case parseExtractableSubgraphSelection selectedNodeNames adjacencyList of
                   Inl errors \<Rightarrow> InvalidSubgraph errors
                 | Inr selection \<Rightarrow> (case findDisconnectedSelectionError selectedNodeNames adjacencyList of
                     Some e \<Rightarrow> InvalidSubgraph [e]
                   | None \<Rightarrow>
                       if several_main_ios inp Inputs (ex_start selection) then MultipleInputBranches (the (ex_start selection))
                       else if several_main_ios inp Outputs (ex_end selection) then MultipleOutputBranches (the (ex_end selection))
                       else ValidSelection (gi_nodes inp) selection))"

definition validateNodeSelectionForGrouping :: "NodeGroupingValidationInput \<Rightarrow> NodeGroupValidationResult" where
  "validateNodeSelectionForGrouping inp =
     (let alreadyGroupedNodeIds = findAlreadyGroupedNodeIds (map node_id (gi_nodes inp)) (or_empty (gi_existingNodeGroups inp))
      in if length alreadyGroupedNodeIds > 0 then NodeAlreadyGrouped alreadyGroupedNodeIds
         else case validateNodeSelectionForExtraction inp of
                ValidSelection subGraph selection \<Rightarrow>
                  (case findNonMainBoundaryConnection (set_of (map node_name subGraph)) (gi_connectionsBySourceNode inp) of
                     Some (source, target, type) \<Rightarrow> NonMainBoundary source target type
                   | None \<Rightarrow> ValidSelection subGraph selection)
              | result \<Rightarrow> result)"

end
