(* ===== verification/Node_Grouping_Correct.thy ===== *)
theory Node_Grouping_Correct
  imports Node_Grouping
begin

text \<open>
  Correctness of the validation of groups: the breadth-first search decides whether the selection is connected, and a selection is valid
  exactly when all conditions of the code hold, stated on the graph of the workflow.
\<close>

section \<open>Neighbours\<close>

definition links_of :: "IConnectionAdjacencyList \<Rightarrow> (string \<times> string) set" where
  "links_of adj = {(a, con_node c) | a c cs. (a, cs) \<in> set adj \<and> c \<in> set cs}"

text \<open>The edges between different selected nodes, in both directions.\<close>

definition inner_links :: "(string \<times> string) set \<Rightarrow> string set \<Rightarrow> (string \<times> string) set" where
  "inner_links E S = {(a, b). a \<in> S \<and> b \<in> S \<and> a \<noteq> b \<and> ((a, b) \<in> E \<or> (b, a) \<in> E)}"

definition neighbors_ok :: "string set \<Rightarrow> (string \<times> string) set \<Rightarrow> (string \<times> string list) list \<Rightarrow> bool" where
  "neighbors_ok S E m \<longleftrightarrow> set (keys_of m) = S \<and> (\<forall>x. set (neighbors_at m x) = inner_links E S `` {x})"

lemma neighbors_at_add:
  "x \<in> set (keys_of m) \<Longrightarrow> neighbors_at (add_neighbor x y m) z = (if z = x then set_add y (neighbors_at m x) else neighbors_at m z)"
  by (cases "map_get m x") (auto simp: neighbors_at_def add_neighbor_def js_map.get_put map_of_eq_None_iff)

lemma keys_add_neighbor: "set (keys_of (add_neighbor x y m)) = set (keys_of m)"
proof (cases "map_get m x")
  case (Some ns)
  then have "x \<in> set (keys_of m)" by (force dest: map_of_SomeD)
  with Some show ?thesis by (simp add: add_neighbor_def js_map.set_keys_put insert_absorb del: set_map)
qed (simp add: add_neighbor_def)

lemma neighbors_ok_add:
  assumes "neighbors_ok (set S) E m" and "s \<in> set S"
  shows "neighbors_ok (set S) (insert (s, con_node c) E) (add_connection_neighbors S s c m)"
proof (cases "con_node c \<in> set S \<and> con_node c \<noteq> s")
  case True
  let ?m = "add_neighbor s (con_node c) m"
  have k: "set (keys_of m) = set S" "set (keys_of ?m) = set S" using assms(1) by (simp_all add: neighbors_ok_def keys_add_neighbor del: set_map)
  have "set (neighbors_at (add_neighbor (con_node c) s ?m) x) = inner_links (insert (s, con_node c) E) (set S) `` {x}" for x
    using assms True k neighbors_at_add [of s m "con_node c"] neighbors_at_add [of "con_node c" ?m s x]
    by (auto simp: neighbors_ok_def inner_links_def simp del: set_map)
  with True k show ?thesis by (simp add: neighbors_ok_def add_connection_neighbors_def Let_def keys_add_neighbor del: set_map)
next
  case False
  then have "inner_links (insert (s, con_node c) E) (set S) = inner_links E (set S)" by (auto simp: inner_links_def)
  with assms False show ?thesis by (auto simp: neighbors_ok_def add_connection_neighbors_def)
qed

lemma neighbors_ok_connections:
  assumes "neighbors_ok (set S) E m" and "s \<in> set S"
  shows "neighbors_ok (set S) (E \<union> {(s, con_node c) | c. c \<in> set cs}) (fold (add_connection_neighbors S s) cs m)"
  using assms(1)
proof (induction cs arbitrary: E m)
  case (Cons c cs)
  have "E \<union> {(s, con_node d) | d. d \<in> set (c # cs)} = insert (s, con_node c) E \<union> {(s, con_node d) | d. d \<in> set cs}" by auto
  with Cons.IH [OF neighbors_ok_add [OF Cons.prems assms(2)]] show ?case by simp
qed simp

lemma neighbors_ok_adjacency:
  assumes "neighbors_ok (set S) E m"
  shows "neighbors_ok (set S) (E \<union> links_of adj) (fold (\<lambda>(s, cs). if s \<notin> set S then id else fold (add_connection_neighbors S s) cs) adj m)"
  using assms
proof (induction adj arbitrary: E m)
  case (Cons e adj)
  obtain s cs where e: "e = (s, cs)" by (cases e)
  have links: "links_of (e # adj) = {(s, con_node c) | c. c \<in> set cs} \<union> links_of adj" by (auto simp: links_of_def e)
  show ?case
  proof (cases "s \<in> set S")
    case True
    from Cons.IH [OF neighbors_ok_connections [OF Cons.prems True, of cs]] True show ?thesis by (simp add: e links [unfolded e] Un_assoc)
  next
    case False
    then have "inner_links (E \<union> links_of (e # adj)) (set S) = inner_links (E \<union> links_of adj) (set S)" by (auto simp: inner_links_def links)
    with Cons.IH [OF Cons.prems] False show ?thesis by (simp add: e neighbors_ok_def del: set_map)
  qed
qed (simp add: links_of_def)

lemma neighbors_of_ok: "neighbors_ok (set S) (links_of adj) (neighbors_of S adj)"
proof -
  have "set (keys_of (fold (\<lambda>n. map_set n []) S ([] :: (string \<times> string list) list))) = set S"
    using js_map.fold_put_keys [of "\<lambda>n. n" "\<lambda>n. []" S "[] :: (string \<times> string list) list"] by simp
  moreover have "neighbors_at (fold (\<lambda>n. map_set n []) S []) x = []" for x
  proof -
    have none: "neighbors_at m x = []" if "snd ` set m \<subseteq> {[]}" for m :: "(string \<times> string list) list"
      using that by (cases "map_get m x") (auto simp: neighbors_at_def dest!: map_of_SomeD)
    show ?thesis using fold_map_set_values [of "\<lambda>n. n" "\<lambda>n. []" S "[]"] by (intro none) auto
  qed
  ultimately have "neighbors_ok (set S) {} (fold (\<lambda>n. map_set n []) S [])"
    unfolding neighbors_ok_def by (simp add: inner_links_def del: set_map)
  from neighbors_ok_adjacency [OF this, of adj] show ?thesis by (simp add: neighbors_of_def)
qed

section \<open>The search\<close>

definition steps_of :: "(string \<times> string list) list \<Rightarrow> (string \<times> string) set" where
  "steps_of m = {(a, b). a \<noteq> [] \<and> b \<in> set (neighbors_at m a)}"

lemma visit_loop_reach:
  assumes "set queue \<subseteq> set visited" and "steps_of m `` (set visited - set queue) \<subseteq> set visited" and "distinct visited"
  shows "set (visit_loop m visited queue) = (steps_of m)\<^sup>* `` set visited \<and> distinct (visit_loop m visited queue)"
  using assms
proof (induction m visited queue rule: visit_loop.induct)
  case (1 m visited)
  have "steps_of m `` set visited \<subseteq> set visited" using "1.prems"(2) by simp
  then have "(steps_of m)\<^sup>* `` set visited = set visited" by (rule Image_closed_trancl)
  with "1.prems"(3) show ?case by simp
next
  case (2 m visited c queue)
  show ?case
  proof (cases "c = []")
    case True
    have "steps_of m `` {c} = {}" using True by (auto simp: steps_of_def)
    then have "steps_of m `` (set visited - set queue) \<subseteq> set visited" using "2.prems"(2) by (simp only: list.set) blast
    with "2.IH"(1) [OF True] "2.prems" True show ?thesis by simp
  next
    case False
    obtain new where new: "fold visit_neighbor (neighbors_at m c) (visited, queue) = (visited @ new, queue @ new)"
      "set new = set (neighbors_at m c) - set visited" "distinct new" using fold_visit by blast
    have c: "steps_of m `` {c} = set (neighbors_at m c)" using False by (auto simp: steps_of_def)
    have "steps_of m `` (set (visited @ new) - set (queue @ new)) \<subseteq> steps_of m `` (set visited - set (c # queue)) \<union> steps_of m `` {c}" by auto
    also have "\<dots> \<subseteq> set (visited @ new)" using "2.prems"(2) new(2) unfolding c by auto
    finally have closed: "steps_of m `` (set (visited @ new) - set (queue @ new)) \<subseteq> set (visited @ new)" .
    have "set (visit_loop m (visited @ new) (queue @ new)) = (steps_of m)\<^sup>* `` set (visited @ new) \<and> distinct (visit_loop m (visited @ new) (queue @ new))"
      using "2.prems"(1,3) new by (intro "2.IH"(2) [OF False new(1) [symmetric]] closed) auto
    moreover have "(steps_of m)\<^sup>* `` set (visited @ new) = (steps_of m)\<^sup>* `` set visited"
    proof -
      have "c \<in> set visited" using "2.prems"(1) by simp
      then have "set new \<subseteq> (steps_of m)\<^sup>* `` set visited" using c new(2) by blast
      then have "(steps_of m)\<^sup>* `` set new \<subseteq> (steps_of m)\<^sup>* `` set visited" by (auto intro: rtrancl_trans)
      then show ?thesis by auto
    qed
    ultimately show ?thesis using False new(1) by simp
  qed
qed

text \<open>A selection is connected.\<close>

definition connected :: "(string \<times> string) set \<Rightarrow> string set \<Rightarrow> bool" where
  "connected E S \<longleftrightarrow> (\<forall>a \<in> S. \<forall>b \<in> S. (a, b) \<in> (inner_links E S)\<^sup>*)"

lemma inner_links_sym: "(a, b) \<in> (inner_links E S)\<^sup>* \<Longrightarrow> (b, a) \<in> (inner_links E S)\<^sup>*"
  by (rule symD [OF sym_rtrancl]) (auto simp: sym_def inner_links_def)

lemma findDisconnected_None:
  assumes ids: "distinct S" "[] \<notin> set S"
  shows "findDisconnectedSelectionError S adj = None \<longleftrightarrow> connected (links_of adj) (set S)"
proof (cases "length S \<le> 1")
  case True
  then show ?thesis by (cases S) (auto simp: findDisconnectedSelectionError_def connected_def)
next
  case False
  then obtain f rest where S: "S = f # rest" by (cases S) auto
  let ?m = "neighbors_of S adj" and ?E = "inner_links (links_of adj) (set S)"
  define visited where "visited = visit_loop ?m [f] [f]"
  have at: "set (neighbors_at ?m x) = ?E `` {x}" for x using neighbors_of_ok [of S adj] by (simp add: neighbors_ok_def)
  have "steps_of ?m = ?E" using ids(2) by (auto simp: steps_of_def at inner_links_def)
  then have v: "set visited = ?E\<^sup>* `` {f}" "distinct visited" using visit_loop_reach [of "[f]" "[f]" ?m] by (auto simp: visited_def)
  have sub: "set visited \<subseteq> set S"
  proof
    fix x
    assume "x \<in> set visited"
    then have "(f, x) \<in> ?E\<^sup>*" using v by simp
    then show "x \<in> set S" by (induction rule: rtrancl_induct) (auto simp: S inner_links_def)
  qed
  have all: "length visited = length S \<longleftrightarrow> set visited = set S"
  proof
    assume "length visited = length S"
    then have "card (set visited) = card (set S)" using v(2) ids(1) by (simp add: distinct_card)
    with sub show "set visited = set S" by (simp add: card_subset_eq)
  next
    assume "set visited = set S"
    then show "length visited = length S" using v(2) ids(1) by (metis distinct_card)
  qed
  have f: "hd S = f" "f \<noteq> []" using ids(2) by (auto simp: S)
  have fd: "findDisconnectedSelectionError S adj = (if length visited = length S then None
      else case find (\<lambda>n. n \<notin> set visited) S of None \<Rightarrow> None
        | Some d \<Rightarrow> if d = [] then None else Some (NoContinuousPathFromRootToLeaf f d))"
    unfolding findDisconnectedSelectionError_def Let_def f(1) visited_def [symmetric] using False f(2) by simp
  have "findDisconnectedSelectionError S adj = None \<longleftrightarrow> set visited = set S"
  proof (cases "set visited = set S")
    case True
    with all fd show ?thesis by simp
  next
    case neq: False
    with sub obtain x where x: "find (\<lambda>n. n \<notin> set visited) S = Some x" by (cases "find (\<lambda>n. n \<notin> set visited) S") (auto simp: find_None_iff)
    then have "x \<in> set S" using find_in by fast
    with ids(2) have "x \<noteq> []" by blast
    with neq all x fd show ?thesis by simp
  qed
  also have "\<dots> \<longleftrightarrow> connected (links_of adj) (set S)"
  proof
    assume "set visited = set S"
    then have "(f, a) \<in> ?E\<^sup>*" if "a \<in> set S" for a using that v(1) by auto
    then show "connected (links_of adj) (set S)" unfolding connected_def by (meson inner_links_sym rtrancl_trans)
  next
    assume "connected (links_of adj) (set S)"
    then show "set visited = set S" using sub v(1) by (auto simp: connected_def S)
  qed
  finally show ?thesis .
qed

section \<open>Valid groups\<close>

definition all_edges_of :: "IConnections \<Rightarrow> (string \<times> string) set" where
  "all_edges_of connections = {(n, con_node c) | n c. c \<in> set (conns_from connections n)}"

lemma links_of_connections: "links_of (buildAdjacencyList connections) = all_edges_of connections"
proof -
  let ?adj = "buildAdjacencyList connections"
  have "c \<in> set (outgoing ?adj a) \<longleftrightarrow> (\<exists>cs. (a, cs) \<in> set ?adj \<and> c \<in> set cs)" for a c
  proof -
    have "(a, cs) \<in> set ?adj \<longleftrightarrow> map_get ?adj a = Some cs" for cs
      by (rule map_of_eq_Some_iff [OF distinct_buildAdjacencyList, symmetric])
    then show ?thesis by (cases "map_get ?adj a") (simp_all add: outgoing_def)
  qed
  then have "links_of ?adj = {(a, con_node c) | a c. c \<in> set (outgoing ?adj a)}" unfolding links_of_def by blast
  then show ?thesis by (simp only: all_edges_of_def outgoing_buildAdjacencyList)
qed

lemma validateNodeSelectionForExtraction_spec:
  assumes "[] \<notin> node_name ` set (gi_nodes inp)"
  shows "validateNodeSelectionForExtraction inp = ValidSelection ns d \<longleftrightarrow> ns = gi_nodes inp
    \<and> (\<forall>node \<in> set (gi_nodes inp). \<not> is_trigger_of inp node)
    \<and> extractable (main_edges_of (gi_connectionsBySourceNode inp)) (node_name ` set (gi_nodes inp)) d
    \<and> connected (all_edges_of (gi_connectionsBySourceNode inp)) (node_name ` set (gi_nodes inp))
    \<and> \<not> several_main_ios inp Inputs (ex_start d) \<and> \<not> several_main_ios inp Outputs (ex_end d)"
proof -
  let ?S = "set_of (map node_name (gi_nodes inp))" and ?adj = "buildAdjacencyList (gi_connectionsBySourceNode inp)"
  have parse: "parseExtractableSubgraphSelection ?S ?adj = Inr d'
      \<longleftrightarrow> extractable (main_edges_of (gi_connectionsBySourceNode inp)) (node_name ` set (gi_nodes inp)) d'" for d'
    by (simp add: parseExtractableSubgraphSelection_spec)
  have conn: "findDisconnectedSelectionError ?S ?adj = None
      \<longleftrightarrow> connected (all_edges_of (gi_connectionsBySourceNode inp)) (node_name ` set (gi_nodes inp))"
    using findDisconnected_None [of ?S ?adj] assms by (simp add: links_of_connections)
  have "validateNodeSelectionForExtraction inp = ValidSelection ns d \<longleftrightarrow> ns = gi_nodes inp
    \<and> (\<forall>node \<in> set (gi_nodes inp). \<not> is_trigger_of inp node) \<and> parseExtractableSubgraphSelection ?S ?adj = Inr d
    \<and> findDisconnectedSelectionError ?S ?adj = None \<and> \<not> several_main_ios inp Inputs (ex_start d) \<and> \<not> several_main_ios inp Outputs (ex_end d)"
    unfolding validateNodeSelectionForExtraction_def Let_def
    by (auto simp: filter_empty_conv split: sum.splits option.splits if_splits)
  then show ?thesis unfolding parse conn .
qed

lemma findNonMainBoundaryConnection_None:
  "findNonMainBoundaryConnection S connections = None
     \<longleftrightarrow> (\<forall>(source, target, type) \<in> set (connection_entries connections). type \<noteq> Main \<longrightarrow> (source \<in> set S \<longleftrightarrow> target \<in> set S))"
  by (auto simp: findNonMainBoundaryConnection_def find_None_iff)

text \<open>
  C22. \<^verbatim>\<open>validateNodeSelectionForGrouping\<close> accepts a selection of named nodes exactly when none of them is in a group already, none is a trigger,
  main connections enter and leave the selection as the extraction requires (\<open>extractable\<close>), the selection is connected by connections of any type
  within it, its entry has one main input and its exit one main output at most, and no connection of another type crosses the boundary.
  It then returns the nodes with their entry and exit.
\<close>

theorem validateNodeSelectionForGrouping_correct:
  assumes "[] \<notin> node_name ` set (gi_nodes inp)"
  shows "validateNodeSelectionForGrouping inp = ValidSelection ns d \<longleftrightarrow> ns = gi_nodes inp
    \<and> (let S = node_name ` set (gi_nodes inp); connections = gi_connectionsBySourceNode inp in
        (\<forall>node \<in> set (gi_nodes inp). \<forall>group \<in> set (or_empty (gi_existingNodeGroups inp)). node_id node \<notin> set (wg_nodeIds group))
      \<and> (\<forall>node \<in> set (gi_nodes inp). \<not> is_trigger_of inp node)
      \<and> extractable (main_edges_of connections) S d \<and> connected (all_edges_of connections) S
      \<and> \<not> several_main_ios inp Inputs (ex_start d) \<and> \<not> several_main_ios inp Outputs (ex_end d)
      \<and> (\<forall>(source, target, type) \<in> set (connection_entries connections). type \<noteq> Main \<longrightarrow> (source \<in> S \<longleftrightarrow> target \<in> S)))"
proof -
  have grouped: "findAlreadyGroupedNodeIds (map node_id (gi_nodes inp)) (or_empty (gi_existingNodeGroups inp)) = []
      \<longleftrightarrow> (\<forall>node \<in> set (gi_nodes inp). \<forall>group \<in> set (or_empty (gi_existingNodeGroups inp)). node_id node \<notin> set (wg_nodeIds group))"
    by (auto simp: findAlreadyGroupedNodeIds_def filter_empty_conv)
  have "validateNodeSelectionForGrouping inp = ValidSelection ns d
      \<longleftrightarrow> findAlreadyGroupedNodeIds (map node_id (gi_nodes inp)) (or_empty (gi_existingNodeGroups inp)) = []
        \<and> validateNodeSelectionForExtraction inp = ValidSelection ns d
        \<and> findNonMainBoundaryConnection (set_of (map node_name ns)) (gi_connectionsBySourceNode inp) = None"
    unfolding validateNodeSelectionForGrouping_def Let_def
    by (auto split: NodeGroupValidationResult.splits option.splits if_splits)
  then show ?thesis
    unfolding grouped validateNodeSelectionForExtraction_spec [OF assms] findNonMainBoundaryConnection_None Let_def by (auto simp del: not_None_eq)
qed

definition ex_group_type :: "string list \<Rightarrow> INodeType" where
  "ex_group_type groups = \<lparr>nt_name = ''x'', nt_group = groups, nt_outputs = StaticOutputs [OutputType Main], nt_inputs = StaticOutputs [OutputType Main],
     nt_requiredInputs = None, nt_trigger = False, nt_poll = False, nt_execute = True, nt_webhook = False, nt_supplyData = False,
     nt_requestDefaults = False, nt_customOperations = None\<rparr>"

definition ex_grouping :: NodeGroupingValidationInput where
  "ex_grouping = \<lparr>gi_nodes = [ex_node 1 ''a'', ex_node 2 ''b''],
     gi_connectionsBySourceNode = [(''t'', [(Main, [Some [\<lparr>con_node = ''a'', con_type = Main, con_index = 0\<rparr>]])]),
       (''a'', [(Main, [Some [\<lparr>con_node = ''b'', con_type = Main, con_index = 0\<rparr>]])])],
     gi_getNodeType = (\<lambda>node. Some (ex_group_type (if node_name node = ''t'' then [''trigger''] else []))),
     gi_existingNodeGroups = None, gi_getNodeInputs = None, gi_getNodeOutputs = None\<rparr>"

theorem validateNodeSelectionForGrouping_correct_witness:
  "validateNodeSelectionForGrouping ex_grouping = ValidSelection (gi_nodes ex_grouping) \<lparr>ex_start = Some ''a'', ex_end = None\<rparr>
   \<and> connected (all_edges_of (gi_connectionsBySourceNode ex_grouping)) {''a'', ''b''}"
proof -
  have run: "validateNodeSelectionForGrouping ex_grouping = ValidSelection (gi_nodes ex_grouping) \<lparr>ex_start = Some ''a'', ex_end = None\<rparr>"
    by code_simp
  have names: "node_name ` set (gi_nodes ex_grouping) = {''a'', ''b''}" by (simp add: ex_grouping_def ex_node_def)
  then have "[] \<notin> node_name ` set (gi_nodes ex_grouping)" by simp
  from validateNodeSelectionForGrouping_correct [OF this] run show ?thesis unfolding Let_def names by blast
qed

end
