(* ===== verification/Structure_Validation.thy ===== *)
theory Structure_Validation
  imports Connection_Maps
begin

text \<open>
  \<^verbatim>\<open>packages/workflow/src/workflow-structure-validation.ts\<close>: the shape that every stored or imported workflow must have. The schemas are
  data; their interpreter, \<^verbatim>\<open>safeParse\<close> of the library zod, is a parameter, and \<open>zod_ok\<close> states what its documentation promises.
\<close>

section \<open>Schemas\<close>

datatype zod =
    ZString nat
  | ZNumber
  | ZNat
  | ZBoolean
  | ZUnknown
  | ZOptional zod
  | ZNullable zod
  | ZArray zod
  | ZTuple "zod list"
  | ZRecord zod
  | ZObject "(string \<times> zod) list"
  | ZPassthrough "(string \<times> zod) list"

definition workflowNodeStructureSchema :: zod where
  "workflowNodeStructureSchema = ZPassthrough
     [(''name'', ZString 1), (''type'', ZString 1), (''position'', ZTuple [ZNumber, ZNumber]),
      (''parameters'', ZOptional (ZRecord ZUnknown)), (''id'', ZOptional (ZString 0)), (''typeVersion'', ZOptional ZNumber),
      (''disabled'', ZOptional ZBoolean)]"

definition connectionEntrySchema :: zod where
  "connectionEntrySchema = ZPassthrough [(''node'', ZString 1), (''type'', ZString 1), (''index'', ZNat)]"

definition connectionBucketSchema :: zod where
  "connectionBucketSchema = ZOptional (ZNullable (ZArray connectionEntrySchema))"

definition workflowConnectionsStructureSchema :: zod where
  "workflowConnectionsStructureSchema = ZRecord (ZRecord (ZArray connectionBucketSchema))"

definition workflowStructureSchema :: zod where
  "workflowStructureSchema = ZObject
     [(''nodes'', ZArray workflowNodeStructureSchema), (''connections'', workflowConnectionsStructureSchema)]"

text \<open>The values that have the type of a schema. A missing property reads as \<^verbatim>\<open>undefined\<close>.\<close>

fun conforms :: "zod \<Rightarrow> jsval \<Rightarrow> bool" where
  "conforms (ZString n) v = (case v of JStr s \<Rightarrow> length s \<ge> n | _ \<Rightarrow> False)"
| "conforms ZNumber v = (case v of JNum _ \<Rightarrow> True | _ \<Rightarrow> False)"
| "conforms ZNat v = (case v of JNum x \<Rightarrow> of_int \<lfloor>x\<rfloor> = x \<and> x \<ge> 0 | _ \<Rightarrow> False)"
| "conforms ZBoolean v = (case v of JBool _ \<Rightarrow> True | _ \<Rightarrow> False)"
| "conforms ZUnknown v = True"
| "conforms (ZOptional s) v = (v = JUndefined \<or> conforms s v)"
| "conforms (ZNullable s) v = (v = JNull \<or> conforms s v)"
| "conforms (ZArray s) v = (case v of JArr xs \<Rightarrow> list_all (conforms s) xs | _ \<Rightarrow> False)"
| "conforms (ZTuple ss) v = (case v of JArr xs \<Rightarrow> length xs = length ss \<and> list_all2 conforms ss xs | _ \<Rightarrow> False)"
| "conforms (ZRecord s) v = (case v of JObj ps \<Rightarrow> list_all (\<lambda>p. conforms s (snd p)) ps | _ \<Rightarrow> False)"
| "conforms (ZObject props) v = (case v of JObj ps \<Rightarrow> list_all (\<lambda>(k, s). conforms s (prop_get (JObj ps) k)) props | _ \<Rightarrow> False)"
| "conforms (ZPassthrough props) v = (case v of JObj ps \<Rightarrow> list_all (\<lambda>(k, s). conforms s (prop_get (JObj ps) k)) props | _ \<Rightarrow> False)"

section \<open>Issues\<close>

datatype path_segment = PKey string | PIndex nat

datatype WorkflowStructureGraphIssueCode = DuplicateNodeName | UnknownConnectionSource | UnknownConnectionTarget

record WorkflowStructureGraphIssue =
  wsi_code :: WorkflowStructureGraphIssueCode
  wsi_path :: "path_segment list"
  wsi_message :: string

record ZodIssue =
  zi_path :: "path_segment list"
  zi_message :: string

datatype WorkflowStructureIssue = FromZod ZodIssue | FromGraph WorkflowStructureGraphIssue

type_synonym safe_parse = "zod \<Rightarrow> jsval \<Rightarrow> ZodIssue list + jsval"

definition formatWorkflowStructureIssuePath :: "path_segment list \<Rightarrow> string" where
  "formatWorkflowStructureIssuePath path =
     (if length path = 0 then ''workflow''
      else fold (\<lambda>segment acc. case segment of
          PIndex i \<Rightarrow> acc @ ''['' @ nat_str i @ '']''
        | PKey k \<Rightarrow> if acc \<noteq> [] then acc @ ''.'' @ k else k) path [])"

fun issue_path :: "WorkflowStructureIssue \<Rightarrow> path_segment list" where
  "issue_path (FromZod i) = zi_path i"
| "issue_path (FromGraph i) = wsi_path i"

fun issue_message :: "WorkflowStructureIssue \<Rightarrow> string" where
  "issue_message (FromZod i) = zi_message i"
| "issue_message (FromGraph i) = wsi_message i"

definition newline :: string where "newline = [char_of (10 :: nat)]"

fun join_with :: "string \<Rightarrow> string list \<Rightarrow> string" where
  "join_with sep [] = []"
| "join_with sep [s] = s"
| "join_with sep (s # ss) = s @ sep @ join_with sep ss"

definition formatIssuesDescription :: "WorkflowStructureIssue list \<Rightarrow> string" where
  "formatIssuesDescription issues =
     join_with newline (map (\<lambda>i. formatWorkflowStructureIssuePath (issue_path i) @ '': '' @ issue_message i) issues)"

definition quoted :: "string \<Rightarrow> string" where
  "quoted s = [CHR 0x22] @ s @ [CHR 0x22]"

section \<open>The validation\<close>

fun str_of :: "jsval \<Rightarrow> string" where
  "str_of (JStr s) = s"
| "str_of _ = []"

definition node_name_of :: "jsval \<Rightarrow> string" where
  "node_name_of node = str_of (prop_get node ''name'')"

definition check_node :: "nat \<times> jsval \<Rightarrow> string list \<times> WorkflowStructureGraphIssue list \<Rightarrow> string list \<times> WorkflowStructureGraphIssue list" where
  "check_node = (\<lambda>(i, node) (nodeNames, issues).
     let name = node_name_of node
     in if name \<in> set nodeNames
        then (nodeNames, issues @ [\<lparr>wsi_code = DuplicateNodeName, wsi_path = [PKey ''nodes'', PIndex i, PKey ''name''],
                wsi_message = ''Duplicate node name '' @ quoted name\<rparr>])
        else (set_add name nodeNames, issues))"

definition target_issues :: "string list \<Rightarrow> string \<Rightarrow> string \<Rightarrow> nat \<Rightarrow> jsval \<Rightarrow> WorkflowStructureGraphIssue list" where
  "target_issues nodeNames sourceNodeName connectionType sourceIndex bucket =
     concat (map (\<lambda>(targetIndex, connection).
       let target = str_of (prop_get connection ''node'')
       in if target \<notin> set nodeNames
          then [\<lparr>wsi_code = UnknownConnectionTarget,
                 wsi_path = [PKey ''connections'', PKey sourceNodeName, PKey connectionType, PIndex sourceIndex, PIndex targetIndex, PKey ''node''],
                 wsi_message = ''Connection target '' @ quoted target @ '' does not reference an existing node''\<rparr>]
          else []) (enumerate 0 (arr_elems bucket)))"

definition source_issues :: "string list \<Rightarrow> jsval \<Rightarrow> string \<Rightarrow> WorkflowStructureGraphIssue list" where
  "source_issues nodeNames connections sourceNodeName =
     (if sourceNodeName \<notin> set nodeNames
      then [\<lparr>wsi_code = UnknownConnectionSource, wsi_path = [PKey ''connections'', PKey sourceNodeName],
             wsi_message = ''Connection source '' @ quoted sourceNodeName @ '' does not reference an existing node''\<rparr>]
      else [])
     @ (let connectionTypes = prop_get connections sourceNodeName
        in concat (map (\<lambda>connectionType.
             concat (map (\<lambda>(sourceIndex, bucket). target_issues nodeNames sourceNodeName connectionType sourceIndex bucket)
               (enumerate 0 (arr_elems (prop_get connectionTypes connectionType)))))
             (keys_of (obj_entries connectionTypes))))"

definition safeParseWorkflowStructure :: "safe_parse \<Rightarrow> jsval \<Rightarrow> WorkflowStructureIssue list + jsval" where
  "safeParseWorkflowStructure safeParse input =
     (case safeParse workflowStructureSchema input of
        Inl zodIssues \<Rightarrow> Inl (map FromZod zodIssues)
      | Inr parsed \<Rightarrow>
          let nodes = arr_elems (prop_get parsed ''nodes''); connections = prop_get parsed ''connections'';
              (nodeNames, issues) = fold check_node (enumerate 0 nodes) ([], []);
              issues' = issues @ concat (map (source_issues nodeNames connections) (keys_of (obj_entries connections)))
          in if length issues' > 0 then Inl (map FromGraph issues') else Inr parsed)"

text \<open>The error carries the issues and their description.\<close>

definition parseWorkflowStructure :: "safe_parse \<Rightarrow> jsval \<Rightarrow> (WorkflowStructureIssue list \<times> string) + jsval" where
  "parseWorkflowStructure safeParse input =
     (case safeParseWorkflowStructure safeParse input of
        Inl issues \<Rightarrow> Inl (issues, formatIssuesDescription issues)
      | Inr data \<Rightarrow> Inr data)"

section \<open>Correctness\<close>

text \<open>
  What zod documents of \<^verbatim>\<open>safeParse\<close>: it succeeds exactly on the values of the type of the schema; a failure has issues. The data of a success is
  a copy, \<open>parsed_as\<close>: arrays, tuples and records element by element, an object schema keeps the declared properties and drops the others, also
  inside, unless it is made with \<^verbatim>\<open>passthrough\<close>, which keeps them as they are. Nothing is said about the order of the keys of the copy.
  The values are those of JSON text with no key \<^verbatim>\<open>__proto__\<close>, which zod never copies.
\<close>

fun plain_value :: "jsval \<Rightarrow> bool" where
  "plain_value (JArr xs) = list_all plain_value xs"
| "plain_value (JObj ps) = (distinct (map fst ps) \<and> list_all (\<lambda>p. fst p \<noteq> ''__proto__'' \<and> plain_value (snd p)) ps)"
| "plain_value _ = True"

definition own_keys :: "jsval \<Rightarrow> string set" where
  "own_keys v = set (keys_of (obj_entries v))"

fun parsed_as :: "zod \<Rightarrow> jsval \<Rightarrow> jsval \<Rightarrow> bool" where
  "parsed_as (ZString n) v d = (d = v)"
| "parsed_as ZNumber v d = (d = v)"
| "parsed_as ZNat v d = (d = v)"
| "parsed_as ZBoolean v d = (d = v)"
| "parsed_as ZUnknown v d = (d = v)"
| "parsed_as (ZOptional s) v d = (if v = JUndefined then d = v else parsed_as s v d)"
| "parsed_as (ZNullable s) v d = (if v = JNull then d = v else parsed_as s v d)"
| "parsed_as (ZArray s) v d = (case d of JArr ys \<Rightarrow> list_all2 (parsed_as s) (arr_elems v) ys | _ \<Rightarrow> False)"
| "parsed_as (ZTuple ss) v d = (case d of JArr ys \<Rightarrow> length ys = length (arr_elems v)
     \<and> list_all2 (\<lambda>s (x, y). parsed_as s x y) ss (zip (arr_elems v) ys) | _ \<Rightarrow> False)"
| "parsed_as (ZRecord s) v d = (case d of JObj qs \<Rightarrow> distinct (map fst qs) \<and> own_keys d = own_keys v
     \<and> list_all (\<lambda>p. parsed_as s (snd p) (prop_get d (fst p))) (obj_entries v) | _ \<Rightarrow> False)"
| "parsed_as (ZObject props) v d = (case d of JObj qs \<Rightarrow> distinct (map fst qs) \<and> own_keys d = own_keys v \<inter> fst ` set props
     \<and> list_all (\<lambda>(k, s). parsed_as s (prop_get v k) (prop_get d k)) props | _ \<Rightarrow> False)"
| "parsed_as (ZPassthrough props) v d = (case d of JObj qs \<Rightarrow> distinct (map fst qs) \<and> own_keys d = own_keys v
     \<and> (\<forall>k \<in> own_keys v - fst ` set props. prop_get d k = prop_get v k)
     \<and> list_all (\<lambda>(k, s). parsed_as s (prop_get v k) (prop_get d k)) props | _ \<Rightarrow> False)"

definition zod_ok :: "safe_parse \<Rightarrow> bool" where
  "zod_ok safeParse \<longleftrightarrow> (\<forall>v. plain_value v \<longrightarrow>
     (conforms workflowStructureSchema v \<longrightarrow> (\<exists>d. safeParse workflowStructureSchema v = Inr d \<and> parsed_as workflowStructureSchema v d))
     \<and> (\<not> conforms workflowStructureSchema v \<longrightarrow> (\<exists>issues. issues \<noteq> [] \<and> safeParse workflowStructureSchema v = Inl issues)))"

text \<open>The graph of a workflow value: its node names, and its connections by source.\<close>

definition names_of :: "jsval \<Rightarrow> string list" where
  "names_of w = map node_name_of (arr_elems (prop_get w ''nodes''))"

definition sources_of :: "jsval \<Rightarrow> string set" where
  "sources_of w = own_keys (prop_get w ''connections'')"

definition targets_of :: "jsval \<Rightarrow> string set" where
  "targets_of w = {str_of (prop_get connection ''node'') | connection bucket type source.
     source \<in> sources_of w \<and> type \<in> own_keys (prop_get (prop_get w ''connections'') source)
     \<and> bucket \<in> set (arr_elems (prop_get (prop_get (prop_get w ''connections'') source) type)) \<and> connection \<in> set (arr_elems bucket)}"

lemma check_node_pair:
  "check_node (i, node) (names, issues) = (if node_name_of node \<in> set names
     then (names, issues @ [\<lparr>wsi_code = DuplicateNodeName, wsi_path = [PKey ''nodes'', PIndex i, PKey ''name''],
        wsi_message = ''Duplicate node name '' @ quoted (node_name_of node)\<rparr>])
     else (names @ [node_name_of node], issues))"
  by (simp add: check_node_def set_add_def Let_def)

lemma check_nodes_names: "fst (fold check_node (enumerate k nodes) (names, issues)) = fold set_add (map node_name_of nodes) names"
  by (induction nodes arbitrary: k names issues) (simp_all add: check_node_pair set_add_def)

lemma check_nodes_issues:
  "distinct names \<Longrightarrow> snd (fold check_node (enumerate k nodes) (names, issues)) = [] \<longleftrightarrow> issues = [] \<and> distinct (names @ map node_name_of nodes)"
proof (induction nodes arbitrary: k names issues)
  case (Cons node nodes)
  show ?case
  proof (cases "node_name_of node \<in> set names")
    case True
    with Cons.IH [OF Cons.prems] show ?thesis by (simp add: check_node_pair)
  next
    case False
    with Cons.IH [of "names @ [node_name_of node]"] Cons.prems show ?thesis by (auto simp: check_node_pair)
  qed
qed simp

lemma concat_enumerate_Nil:
  "(\<And>i x. f i x = [] \<longleftrightarrow> Q x) \<Longrightarrow> concat (map (\<lambda>(i, x). f i x) (enumerate k xs)) = [] \<longleftrightarrow> (\<forall>x \<in> set xs. Q x)"
  by (induction xs arbitrary: k) auto

lemma target_issues_Nil:
  "target_issues names s t i bucket = [] \<longleftrightarrow> (\<forall>c \<in> set (arr_elems bucket). str_of (prop_get c ''node'') \<in> set names)"
  unfolding target_issues_def Let_def by (rule concat_enumerate_Nil) simp

lemma source_issues_Nil:
  "source_issues names connections s = [] \<longleftrightarrow> s \<in> set names
     \<and> (\<forall>t \<in> set (keys_of (obj_entries (prop_get connections s))). \<forall>bucket \<in> set (arr_elems (prop_get (prop_get connections s) t)).
          \<forall>c \<in> set (arr_elems bucket). str_of (prop_get c ''node'') \<in> set names)"
proof -
  have "concat (map (\<lambda>(i, bucket). target_issues names s t i bucket) (enumerate 0 xs)) = []
      \<longleftrightarrow> (\<forall>bucket \<in> set xs. \<forall>c \<in> set (arr_elems bucket). str_of (prop_get c ''node'') \<in> set names)" for t xs
    by (rule concat_enumerate_Nil) (rule target_issues_Nil)
  then show ?thesis unfolding source_issues_def Let_def by simp
qed

lemma all_source_issues_Nil:
  "concat (map (source_issues names (prop_get w ''connections'')) (keys_of (obj_entries (prop_get w ''connections'')))) = []
     \<longleftrightarrow> sources_of w \<subseteq> set names \<and> targets_of w \<subseteq> set names"
  unfolding concat_eq_Nil_conv set_map [of "source_issues names _"] ball_simps source_issues_Nil own_keys_def [symmetric]
    sources_of_def [symmetric] targets_of_def by blast

text \<open>The copy has the type of the schema again, and the same names and connections.\<close>

lemma own_keys_obj: "own_keys (JObj ps) = fst ` set ps"
  by (simp add: own_keys_def obj_entries_def)

lemma map_of_own_keys: "k \<in> own_keys v \<longleftrightarrow> map_of (obj_entries v) k \<noteq> None"
  unfolding own_keys_def by (induction "obj_entries v") (auto simp: map_of_eq_None_iff)

lemma prop_get_entry: "distinct (map fst ps) \<Longrightarrow> p \<in> set ps \<Longrightarrow> prop_get (JObj ps) (fst p) = snd p"
  by (cases p) (simp add: prop_get_def obj_entries_def)

lemma parsed_as_conforms: "conforms s v \<Longrightarrow> parsed_as s v d \<Longrightarrow> conforms s d"
proof (induction s v d rule: parsed_as.induct)
  case (10 s v d)
  then obtain ps where v: "v = JObj ps" by (cases v) auto
  from 10(3) obtain qs where d: "d = JObj qs" and "distinct (map fst qs)" and keys: "own_keys d = own_keys v" by (cases d) auto
  have "conforms s (snd q)" if q: "q \<in> set qs" for q
  proof -
    have "fst q \<in> own_keys v" using q unfolding keys [symmetric] by (auto simp: own_keys_def d obj_entries_def)
    then obtain p where p: "p \<in> set ps" "fst p = fst q" by (auto simp: own_keys_def v obj_entries_def)
    then have "parsed_as s (snd p) (prop_get d (fst p))" using 10(3) by (auto simp: d v obj_entries_def list_all_iff)
    then have "conforms s (prop_get d (fst p))" using 10(1,2) p(1) by (simp add: v d obj_entries_def list_all_iff)
    then show ?thesis using p(2) prop_get_entry [OF \<open>distinct (map fst qs)\<close> q] by (simp add: d)
  qed
  then show ?case by (simp add: d list_all_iff)
next
  case (9 ss v d)
  then obtain xs ys where v: "v = JArr xs" and d: "d = JArr ys" by (cases v; cases d) auto
  have len: "length xs = length ss" "length ys = length ss" using 9(2,3) by (auto simp: v d arr_elems_def list_all2_lengthD)
  have "conforms (ss ! i) (ys ! i)" if i: "i < length ss" for i
  proof (rule 9(1) [OF d, of "ss ! i" "(xs ! i, ys ! i)", OF _ _ refl])
    show "(xs ! i, ys ! i) \<in> set (zip (arr_elems v) ys)" using i len by (auto simp: v arr_elems_def set_zip)
    show "conforms (ss ! i) (xs ! i)" using 9(2) i by (auto simp: v dest: list_all2_nthD)
    show "parsed_as (ss ! i) (xs ! i) (ys ! i)" using 9(3) i len list_all2_nthD [of _ ss _ i] by (fastforce simp: v d arr_elems_def)
  qed (use i in simp)
  then show ?case by (simp add: d len list_all2_conv_all_nth)
next
  case (8 s v d)
  then obtain xs ys where v: "v = JArr xs" and d: "d = JArr ys" by (cases v; cases d) auto
  have "conforms s (ys ! i)" if i: "i < length xs" for i
    using 8(1) [OF d, of "xs ! i" "ys ! i"] 8(2,3) i by (simp add: v d arr_elems_def list_all_length list_all2_conv_all_nth)
  moreover have "length ys = length xs" using 8(3) by (simp add: v d arr_elems_def list_all2_lengthD)
  ultimately show ?case by (simp add: d list_all_length)
next
  case (11 props v d)
  then show ?case by (cases v; cases d) (fastforce simp: list_all_iff)+
next
  case (12 props v d)
  then show ?case by (cases v; cases d) (fastforce simp: list_all_iff)+
qed (auto split: if_splits)

lemma parsed_record:
  assumes "conforms (ZRecord s) v" "parsed_as (ZRecord s) v d" "plain_value v"
  shows "own_keys d = own_keys v"
    and "\<And>k. k \<in> own_keys v \<Longrightarrow> conforms s (prop_get v k) \<and> parsed_as s (prop_get v k) (prop_get d k) \<and> plain_value (prop_get v k)"
proof -
  obtain ps where v: "v = JObj ps" using assms(1) by (cases v) auto
  show "own_keys d = own_keys v" using assms(2) by (cases d) auto
  fix k
  assume "k \<in> own_keys v"
  then obtain p where p: "p \<in> set ps" "fst p = k" by (auto simp: own_keys_def v obj_entries_def)
  have "prop_get v k = snd p" using prop_get_entry [of ps p] p assms(3) by (simp add: v)
  moreover have "parsed_as s (snd p) (prop_get d k)" using assms(2) p by (cases d) (auto simp: v obj_entries_def list_all_iff)
  ultimately show "conforms s (prop_get v k) \<and> parsed_as s (prop_get v k) (prop_get d k) \<and> plain_value (prop_get v k)"
    using assms(1,3) p(1) by (simp add: v list_all_iff)
qed

lemma plain_prop: "plain_value v \<Longrightarrow> conforms (ZObject props) v \<Longrightarrow> plain_value (prop_get v k)"
  by (cases v) (auto simp: prop_get_def obj_entries_def list_all_iff split: option.splits dest: map_of_SomeD)

lemma parsed_bucket:
  assumes "conforms connectionBucketSchema b" "parsed_as connectionBucketSchema b d"
  shows "map (\<lambda>c. prop_get c ''node'') (arr_elems d) = map (\<lambda>c. prop_get c ''node'') (arr_elems b)"
proof (cases b)
  case (JArr xs)
  with assms(2) obtain ys where d: "d = JArr ys" "list_all2 (parsed_as connectionEntrySchema) xs ys"
    by (cases d) (auto simp: connectionBucketSchema_def arr_elems_def)
  have "prop_get y ''node'' = prop_get x ''node''" if "parsed_as connectionEntrySchema x y" for x y
    using that by (cases y) (auto simp: connectionEntrySchema_def)
  with d(2) have "map (\<lambda>c. prop_get c ''node'') ys = map (\<lambda>c. prop_get c ''node'') xs" by (induction rule: list_all2_induct) auto
  with d JArr show ?thesis by (simp add: arr_elems_def)
qed (use assms in \<open>auto simp: connectionBucketSchema_def\<close>)

lemma parsed_buckets:
  assumes "conforms (ZArray connectionBucketSchema) v" "parsed_as (ZArray connectionBucketSchema) v d"
  shows "map (\<lambda>b. map (\<lambda>c. prop_get c ''node'') (arr_elems b)) (arr_elems d)
    = map (\<lambda>b. map (\<lambda>c. prop_get c ''node'') (arr_elems b)) (arr_elems v)"
proof -
  have "list_all (conforms connectionBucketSchema) (arr_elems v)" "list_all2 (parsed_as connectionBucketSchema) (arr_elems v) (arr_elems d)"
    using assms by (cases v; cases d; simp add: arr_elems_def)+
  then show ?thesis by (auto simp: list_all2_conv_all_nth list_all_length parsed_bucket intro: nth_equalityI)
qed

lemma targets_of_eq:
  "targets_of w = (\<Union>s \<in> sources_of w. \<Union>t \<in> own_keys (prop_get (prop_get w ''connections'') s).
     str_of ` set (concat (map (\<lambda>b. map (\<lambda>c. prop_get c ''node'') (arr_elems b)) (arr_elems (prop_get (prop_get (prop_get w ''connections'') s) t)))))"
  unfolding targets_of_def by (auto simp: image_iff) blast

lemma parsed_workflow:
  assumes "conforms workflowStructureSchema w" "parsed_as workflowStructureSchema w d" "plain_value w"
  shows "names_of d = names_of w" and "sources_of d = sources_of w" and "targets_of d = targets_of w"
proof -
  let ?cw = "prop_get w ''connections''" and ?cd = "prop_get d ''connections''"
  obtain ps where w: "w = JObj ps" using assms(1) by (cases w) (simp_all add: workflowStructureSchema_def)
  have nodes: "parsed_as (ZArray workflowNodeStructureSchema) (prop_get w ''nodes'') (prop_get d ''nodes'')"
    and conns: "parsed_as workflowConnectionsStructureSchema ?cw ?cd"
    using assms(2) by (cases d; simp add: workflowStructureSchema_def)+
  have conf: "conforms workflowConnectionsStructureSchema ?cw" using assms(1) by (simp add: workflowStructureSchema_def w)
  have plain: "plain_value ?cw" using assms(1,3) plain_prop unfolding workflowStructureSchema_def by blast
  have "node_name_of y = node_name_of x" if "parsed_as workflowNodeStructureSchema x y" for x y
    using that by (cases y) (auto simp: workflowNodeStructureSchema_def node_name_of_def)
  moreover have "list_all2 (parsed_as workflowNodeStructureSchema) (arr_elems (prop_get w ''nodes'')) (arr_elems (prop_get d ''nodes''))"
    using nodes by (cases "prop_get d ''nodes''") (simp_all add: arr_elems_def)
  ultimately show "names_of d = names_of w" unfolding names_of_def by (auto simp: list_all2_conv_all_nth intro: nth_equalityI)
  note sources = parsed_record [OF conf [unfolded workflowConnectionsStructureSchema_def] conns [unfolded workflowConnectionsStructureSchema_def] plain]
  then show sources_eq: "sources_of d = sources_of w" by (simp add: sources_of_def)
  have "own_keys (prop_get ?cd s) = own_keys (prop_get ?cw s)
    \<and> (\<forall>t \<in> own_keys (prop_get ?cw s). map (\<lambda>b. map (\<lambda>c. prop_get c ''node'') (arr_elems b)) (arr_elems (prop_get (prop_get ?cd s) t))
         = map (\<lambda>b. map (\<lambda>c. prop_get c ''node'') (arr_elems b)) (arr_elems (prop_get (prop_get ?cw s) t)))"
    if "s \<in> own_keys ?cw" for s
    using sources(2) [OF that] parsed_record [of "ZArray connectionBucketSchema" "prop_get ?cw s" "prop_get ?cd s"] parsed_buckets by blast
  then show "targets_of d = targets_of w" unfolding targets_of_eq sources_eq by (simp add: sources_of_def)
qed

lemma safeParse_checks:
  assumes "safeParse workflowStructureSchema w = Inr p"
  shows "safeParseWorkflowStructure safeParse w = Inr d \<longleftrightarrow> d = p \<and> distinct (names_of p)
      \<and> sources_of p \<subseteq> set (names_of p) \<and> targets_of p \<subseteq> set (names_of p)"
proof -
  let ?check = "fold check_node (enumerate 0 (arr_elems (prop_get p ''nodes''))) ([], [])"
  have names: "fst ?check = set_of (names_of p)" by (simp add: check_nodes_names names_of_def set_of_def)
  have dup: "snd ?check = [] \<longleftrightarrow> distinct (names_of p)" by (simp add: check_nodes_issues names_of_def)
  have "safeParseWorkflowStructure safeParse w
      = (let issues = snd ?check @ concat (map (source_issues (fst ?check) (prop_get p ''connections'')) (keys_of (obj_entries (prop_get p ''connections''))))
         in if length issues > 0 then Inl (map FromGraph issues) else Inr p)"
    unfolding safeParseWorkflowStructure_def assms by (simp add: Let_def case_prod_unfold)
  then have "safeParseWorkflowStructure safeParse w = Inr d \<longleftrightarrow> d = p \<and> snd ?check = []
      \<and> concat (map (source_issues (fst ?check) (prop_get p ''connections'')) (keys_of (obj_entries (prop_get p ''connections'')))) = []"
    unfolding Let_def by (auto simp del: concat_eq_Nil_conv)
  then show ?thesis unfolding dup names all_source_issues_Nil set_of_props .
qed

text \<open>The parameter can be what is assumed of it: a parser that copies as described, with the declared keys first.\<close>

fun ex_copy :: "zod \<Rightarrow> jsval \<Rightarrow> jsval" where
  "ex_copy (ZOptional s) v = (if v = JUndefined then v else ex_copy s v)"
| "ex_copy (ZNullable s) v = (if v = JNull then v else ex_copy s v)"
| "ex_copy (ZArray s) v = JArr (map (ex_copy s) (arr_elems v))"
| "ex_copy (ZTuple ss) v = JArr (map (\<lambda>(f, x). f x) (zip (map ex_copy ss) (arr_elems v)))"
| "ex_copy (ZRecord s) v = JObj (map (\<lambda>(k, x). (k, ex_copy s x)) (obj_entries v))"
| "ex_copy (ZObject props) v =
     JObj (map (\<lambda>(k, s). (k, ex_copy s (prop_get v k))) (filter (\<lambda>(k, s). k \<in> own_keys v) props))"
| "ex_copy (ZPassthrough props) v =
     JObj (map (\<lambda>(k, s). (k, ex_copy s (prop_get v k))) (filter (\<lambda>(k, s). k \<in> own_keys v) props)
       @ filter (\<lambda>(k, x). k \<notin> fst ` set props) (obj_entries v))"
| "ex_copy _ v = v"

fun distinct_props :: "zod \<Rightarrow> bool" where
  "distinct_props (ZOptional s) = distinct_props s"
| "distinct_props (ZNullable s) = distinct_props s"
| "distinct_props (ZArray s) = distinct_props s"
| "distinct_props (ZTuple ss) = list_all distinct_props ss"
| "distinct_props (ZRecord s) = distinct_props s"
| "distinct_props (ZObject props) = (distinct (map fst props) \<and> list_all (distinct_props \<circ> snd) props)"
| "distinct_props (ZPassthrough props) = (distinct (map fst props) \<and> list_all (distinct_props \<circ> snd) props)"
| "distinct_props _ = True"

lemma parsed_undefined: "conforms s JUndefined \<Longrightarrow> parsed_as s JUndefined JUndefined"
  by (induction s) auto

lemma map_of_copied:
  "distinct (map fst props) \<Longrightarrow> (k, s) \<in> set props
    \<Longrightarrow> map_of (map (\<lambda>(k, s). (k, f s k)) (filter (\<lambda>(k, s). P k) props)) k = (if P k then Some (f s k) else None)"
  by (induction props) (auto simp: map_of_eq_None_iff rev_image_eqI)

lemma prop_get_missing: "k \<notin> own_keys v \<Longrightarrow> prop_get v k = JUndefined"
  by (auto simp: map_of_own_keys prop_get_def split: option.splits)

text \<open>The properties of an object are copied if the schemas of the properties copy.\<close>

lemma copied_props:
  fixes f :: "zod \<Rightarrow> string \<Rightarrow> jsval"
  defines "declared v props \<equiv> map (\<lambda>(k, s). (k, f s k)) (filter (\<lambda>(k, s). k \<in> own_keys v) props)"
  assumes "distinct (map fst props)" and rest: "fst ` set rest \<inter> fst ` set props = {}"
    and copy: "\<And>k s. (k, s) \<in> set props \<Longrightarrow> k \<in> own_keys v \<Longrightarrow> parsed_as s (prop_get v k) (f s k)"
    and conf: "list_all (\<lambda>(k, s). conforms s (prop_get v k)) props"
  shows "list_all (\<lambda>(k, s). parsed_as s (prop_get v k) (prop_get (JObj (declared v props @ rest)) k)) props"
    and "\<And>k. k \<notin> fst ` set props \<Longrightarrow> prop_get (JObj (declared v props @ rest)) k = prop_get (JObj rest) k"
    and "fst ` set (declared v props) = own_keys v \<inter> fst ` set props" and "distinct (map fst (declared v props))"
proof -
  have "parsed_as s (prop_get v k) (prop_get (JObj (declared v props @ rest)) k)" if ks: "(k, s) \<in> set props" for k s
  proof -
    have none: "map_of rest k = None" using rest ks by (force simp: map_of_eq_None_iff)
    have "prop_get (JObj (declared v props @ rest)) k = (if k \<in> own_keys v then f s k else JUndefined)"
      using map_of_copied [OF assms(2) ks, of f "\<lambda>k. k \<in> own_keys v"] none
      by (simp add: prop_get_def obj_entries_def declared_def map_add_def)
    moreover have "conforms s (prop_get v k)" using conf ks by (auto simp: list_all_iff)
    ultimately show ?thesis using copy [OF ks] parsed_undefined [of s] prop_get_missing [of k v] by (cases "k \<in> own_keys v") simp_all
  qed
  then show "list_all (\<lambda>(k, s). parsed_as s (prop_get v k) (prop_get (JObj (declared v props @ rest)) k)) props" by (auto simp: list_all_iff)
  show keys: "fst ` set (declared v props) = own_keys v \<inter> fst ` set props" by (force simp: declared_def)
  show "prop_get (JObj (declared v props @ rest)) k = prop_get (JObj rest) k" if "k \<notin> fst ` set props" for k
  proof -
    have "map_of (declared v props) k = None" using keys that by (auto simp: map_of_eq_None_iff)
    then show ?thesis by (simp add: prop_get_def obj_entries_def map_add_def split: option.splits)
  qed
  show "distinct (map fst (declared v props))" using assms(2) unfolding declared_def
    by (induction props) (auto simp: image_iff)
qed

lemma parsed_as_copy: "conforms s v \<Longrightarrow> plain_value v \<Longrightarrow> distinct_props s \<Longrightarrow> parsed_as s v (ex_copy s v)"
proof (induction s v rule: ex_copy.induct)
  case (3 s v)
  then show ?case by (cases v) (auto simp: arr_elems_def list_all2_conv_all_nth list_all_length)
next
  case (4 ss v)
  then obtain xs where v: "v = JArr xs" by (cases v) auto
  have len: "length ss = length xs" using 4(2) by (simp add: v)
  have "parsed_as (ss ! i) (xs ! i) (ex_copy (ss ! i) (xs ! i))" if i: "i < length xs" for i
    using 4(1) [of "ss ! i" "xs ! i"] 4(2-4) i len by (auto simp: v list_all_length dest: list_all2_nthD)
  then show ?case by (simp add: v arr_elems_def list_all2_conv_all_nth len)
next
  case (5 s v)
  then obtain ps where v: "v = JObj ps" by (cases v) auto
  have dist: "distinct (map fst ps)" using 5(3) by (simp add: v)
  have keys: "map fst (map (\<lambda>(k, x). (k, ex_copy s x)) ps) = map fst ps" by (simp add: case_prod_unfold o_def)
  have "parsed_as s (snd p) (prop_get (ex_copy (ZRecord s) v) (fst p))" if p: "p \<in> set ps" for p
  proof -
    have "prop_get (ex_copy (ZRecord s) v) (fst p) = ex_copy s (snd p)"
      using prop_get_entry [of "map (\<lambda>(k, x). (k, ex_copy s x)) ps" "(fst p, ex_copy s (snd p))", unfolded keys, OF dist] p
      by (force simp: v obj_entries_def)
    then show ?thesis using 5 p by (cases p) (fastforce simp: v obj_entries_def list_all_iff)
  qed
  then show ?case using dist by (simp add: v own_keys_def obj_entries_def list_all_iff keys [simplified] image_image case_prod_unfold o_def)
next
  case (6 props v)
  then obtain ps where v: "v = JObj ps" by (cases v) auto
  have "parsed_as s (prop_get v k) (ex_copy s (prop_get v k))" if "(k, s) \<in> set props" "k \<in> own_keys v" for k s
    using 6 that plain_prop [of v props k] by (fastforce simp: v list_all_iff)
  moreover define decl where "decl = map (\<lambda>(k, s). (k, ex_copy s (prop_get v k))) (filter (\<lambda>(k, s). k \<in> own_keys v) props)"
  ultimately have "list_all (\<lambda>(k, s). parsed_as s (prop_get v k) (prop_get (JObj decl) k)) props"
    "fst ` set decl = own_keys v \<inter> fst ` set props" "distinct (map fst decl)"
    using copied_props [of props "[]" v "\<lambda>s k. ex_copy s (prop_get v k)"] 6(2,4) by (simp_all add: v)
  moreover have "ex_copy (ZObject props) v = JObj decl" by (simp add: decl_def)
  ultimately show ?case by (simp add: own_keys_obj)
next
  case (7 props v)
  then obtain ps where v: "v = JObj ps" by (cases v) auto
  define rest where "rest = filter (\<lambda>(k, x). k \<notin> fst ` set props) ps"
  define decl where "decl = map (\<lambda>(k, s). (k, ex_copy s (prop_get v k))) (filter (\<lambda>(k, s). k \<in> own_keys v) props)"
  have copy: "parsed_as s (prop_get v k) (ex_copy s (prop_get v k))" if "(k, s) \<in> set props" "k \<in> own_keys v" for k s
    using 7 that plain_prop [of v props k] by (fastforce simp: v list_all_iff)
  have keys: "fst ` set rest = own_keys v - fst ` set props" by (force simp: rest_def own_keys_obj v)
  then have disj: "fst ` set rest \<inter> fst ` set props = {}" by blast
  have props: "distinct (map fst props)" "list_all (\<lambda>(k, s). conforms s (prop_get v k)) props" using 7(2,4) by (simp_all add: v)
  note c = copied_props [of props rest v "\<lambda>s k. ex_copy s (prop_get v k)", OF props(1) disj copy props(2), folded decl_def]
  have "map_of rest k = map_of ps k" if "k \<notin> fst ` set props" for k using that unfolding rest_def by (induction ps) (auto simp: rev_image_eqI)
  with c(2) have same: "prop_get (JObj (decl @ rest)) k = prop_get v k" if "k \<notin> fst ` set props" for k
    using that by (simp add: prop_get_def obj_entries_def v)
  have "distinct (map fst rest)" using 7(3) by (simp add: v rest_def distinct_map_filter)
  with c(3,4) keys have "distinct (map fst (decl @ rest))" "own_keys (JObj (decl @ rest)) = own_keys v" by (auto simp: own_keys_obj image_Un)
  moreover have "ex_copy (ZPassthrough props) v = JObj (decl @ rest)" by (simp add: decl_def rest_def v obj_entries_def)
  ultimately show ?case using c(1) same by simp
qed auto

definition ex_parse :: safe_parse where
  "ex_parse s v = (if conforms s v then Inr (ex_copy s v) else Inl [\<lparr>zi_path = [], zi_message = ''invalid''\<rparr>])"

lemma ex_parse_ok: "zod_ok ex_parse"
proof -
  have "distinct_props workflowStructureSchema" by code_simp
  then show ?thesis using parsed_as_copy by (auto simp: zod_ok_def ex_parse_def)
qed

text \<open>
  C17. A JSON value passes \<^verbatim>\<open>safeParseWorkflowStructure\<close> exactly when it has the type of the schema (nodes with name, type and position,
  connections in nested records of arrays), no two nodes share a name, and every connection starts and ends at one of its
  nodes. The result is a copy with the declared properties and it has this type again; a failure has an issue. The library zod is assumed
  to do what it documents for this schema (\<open>zod_ok\<close>).
\<close>

theorem safeParseWorkflowStructure_typed:
  assumes "zod_ok safeParse" and "plain_value w"
  shows "((\<exists>d. safeParseWorkflowStructure safeParse w = Inr d) \<longleftrightarrow> conforms workflowStructureSchema w
      \<and> distinct (names_of w) \<and> sources_of w \<subseteq> set (names_of w) \<and> targets_of w \<subseteq> set (names_of w))
    \<and> (\<forall>d. safeParseWorkflowStructure safeParse w = Inr d \<longrightarrow> parsed_as workflowStructureSchema w d \<and> conforms workflowStructureSchema d
        \<and> names_of d = names_of w \<and> sources_of d = sources_of w \<and> targets_of d = targets_of w)
    \<and> safeParseWorkflowStructure safeParse w \<noteq> Inl []"
proof (cases "conforms workflowStructureSchema w")
  case True
  with assms obtain p where p: "safeParse workflowStructureSchema w = Inr p" "parsed_as workflowStructureSchema w p"
    by (auto simp: zod_ok_def)
  note same = parsed_workflow [OF True p(2) assms(2)] parsed_as_conforms [OF True p(2)]
  have "safeParseWorkflowStructure safeParse w \<noteq> Inl []"
    by (auto simp: safeParseWorkflowStructure_def p(1) Let_def split: prod.splits)
  with True p(2) same show ?thesis unfolding safeParse_checks [of safeParse w, OF p(1)] by auto
next
  case False
  with assms obtain issues where "issues \<noteq> []" "safeParse workflowStructureSchema w = Inl issues" by (auto simp: zod_ok_def)
  with False show ?thesis by (simp add: safeParseWorkflowStructure_def)
qed

definition ex_workflow_value :: "string \<Rightarrow> jsval" where
  "ex_workflow_value target = JObj [(''name'', JStr ''w''), (''nodes'', JArr (map (\<lambda>n.
       JObj [(''name'', JStr n), (''type'', JStr ''set''), (''position'', JArr [JNum 0, JNum 0])]) [''a'', ''b''])),
     (''connections'', JObj [(''a'', JObj [(''main'', JArr [JNull, JArr [JObj [(''node'', JStr target), (''type'', JStr ''main''), (''index'', JNum 0)]]])])])]"

theorem safeParseWorkflowStructure_typed_witness:
  "(\<exists>d. safeParseWorkflowStructure ex_parse (ex_workflow_value ''b'') = Inr d \<and> targets_of d \<subseteq> {''a'', ''b''})
     \<and> (\<exists>issues. issues \<noteq> [] \<and> safeParseWorkflowStructure ex_parse (ex_workflow_value ''c'') = Inl issues)"
proof -
  have plain: "plain_value (ex_workflow_value ''b'')" "plain_value (ex_workflow_value ''c'')" by code_simp+
  note b = safeParseWorkflowStructure_typed [OF ex_parse_ok plain(1)] and c = safeParseWorkflowStructure_typed [OF ex_parse_ok plain(2)]
  have "(case safeParseWorkflowStructure ex_parse (ex_workflow_value ''b'') of Inr d \<Rightarrow> names_of d = [''a'', ''b''] | _ \<Rightarrow> False)" by code_simp
  then obtain d where d: "safeParseWorkflowStructure ex_parse (ex_workflow_value ''b'') = Inr d" "names_of d = [''a'', ''b'']"
    by (cases "safeParseWorkflowStructure ex_parse (ex_workflow_value ''b'')") auto
  with b have "targets_of d \<subseteq> set (names_of d)" by metis
  then have "targets_of d \<subseteq> {''a'', ''b''}" by (simp add: d(2))
  moreover have "(case safeParseWorkflowStructure ex_parse (ex_workflow_value ''c'') of Inl _ \<Rightarrow> True | Inr _ \<Rightarrow> False)" by code_simp
  then obtain issues where "safeParseWorkflowStructure ex_parse (ex_workflow_value ''c'') = Inl issues" by (auto split: sum.splits)
  ultimately show ?thesis using d(1) c by metis
qed

end
