(* ===== verification/Domain_Restrictions.thy ===== *)
theory Domain_Restrictions
  imports Graph_Conversion Execution_Items
begin

text \<open>
  \<^verbatim>\<open>packages/workflow/src/credential-domain-restrictions.ts\<close>: to which hosts a request may carry a credential. The parser of URLs,
  the class \<^verbatim>\<open>URL\<close> of the runtime, is the parameter \<open>parse_hostname\<close>: the host name of a URL, or nothing where it throws. Strings have
  characters below 256.
\<close>

section \<open>Strings\<close>

text \<open>\<^verbatim>\<open>split(',')\<close> and \<^verbatim>\<open>replace(/\.$/, '')\<close>.\<close>

fun split_at :: "char \<Rightarrow> string \<Rightarrow> string list" where
  "split_at sep [] = [[]]"
| "split_at sep (c # cs) = (if c = sep then [] # split_at sep cs
     else case split_at sep cs of [] \<Rightarrow> [[c]] | w # ws \<Rightarrow> (c # w) # ws)"

definition drop_final_dot :: "string \<Rightarrow> string" where
  "drop_final_dot s = (if s \<noteq> [] \<and> last s = CHR ''.'' then butlast s else s)"

section \<open>Restriction modes\<close>

datatype DomainRestrictionMode = AllDomains | SpecificDomains | NoDomains

definition readMode :: "IDataObject \<Rightarrow> DomainRestrictionMode option" where
  "readMode credentialData =
     (let value = get_prop credentialData ''allowedHttpRequestDomains''
      in if value = JStr ''all'' then Some AllDomains
         else if value = JStr ''domains'' then Some SpecificDomains
         else if value = JStr ''none'' then Some NoDomains
         else None)"

definition readAllowedDomainsField :: "IDataObject \<Rightarrow> string option" where
  "readAllowedDomainsField credentialData =
     (case get_prop credentialData ''allowedDomains'' of
        JStr value \<Rightarrow> if length (trim value) > 0 then Some (trim value) else None
      | _ \<Rightarrow> None)"

text \<open>The fields of a credential type; the names of the two properties stand for their descriptions.\<close>

record ICredentialType =
  ct_authenticate :: "jsval option"
  ct_genericAuth :: "bool option"
  ct_extends :: "string list option"
  ct_properties :: "IDataObject list option"

definition option_value :: "string \<Rightarrow> string \<Rightarrow> string \<Rightarrow> jsval" where
  "option_value name value description = JObj [(''name'', JStr name), (''value'', JStr value), (''description'', JStr description)]"

definition DOMAIN_RESTRICTION_FIELDS :: "IDataObject list" where
  "DOMAIN_RESTRICTION_FIELDS =
     [[(''displayName'', JStr ''Allowed HTTP Request Domains''), (''name'', JStr ''allowedHttpRequestDomains''), (''type'', JStr ''options''),
       (''options'', JArr [
          option_value ''All'' ''all'' ''Allow all requests when used in the HTTP Request node'',
          option_value ''Specific Domains'' ''domains'' ''Restrict requests to specific domains'',
          option_value ''None'' ''none'' ''Block all requests when used in the HTTP Request node'']),
       (''default'', JStr ''all''), (''description'', JStr ''Control which domains this credential can be used with in HTTP Request nodes'')],
      [(''displayName'', JStr ''Allowed Domains''), (''name'', JStr ''allowedDomains''), (''type'', JStr ''string''), (''default'', JStr ''''),
       (''placeholder'', JStr ''example.com, *.subdomain.com''), (''description'', JStr ''Comma-separated list of allowed domains (supports wildcards with *)''),
       (''displayOptions'', JObj [(''show'', JObj [(''allowedHttpRequestDomains'', JArr [JStr ''domains''])])])]]"

definition shouldInjectDomainRestrictionFields :: "ICredentialType \<Rightarrow> bool" where
  "shouldInjectDomainRestrictionFields credentialType \<longleftrightarrow>
     ct_authenticate credentialType \<noteq> None \<or> ct_genericAuth credentialType = Some True
     \<or> (case ct_extends credentialType of None \<Rightarrow> False
        | Some names \<Rightarrow> ''oAuth2Api'' \<in> set names \<or> ''oAuth1Api'' \<in> set names \<or> ''googleOAuth2Api'' \<in> set names)"

definition injectDomainRestrictionFields :: "ICredentialType \<Rightarrow> IDataObject list" where
  "injectDomainRestrictionFields credentialType =
     (let properties = or_empty (ct_properties credentialType)
      in if \<not> shouldInjectDomainRestrictionFields credentialType then properties
         else if list_ex (\<lambda>prop. get_prop prop ''name'' = JStr ''allowedHttpRequestDomains'') properties then properties
         else properties @ DOMAIN_RESTRICTION_FIELDS)"

section \<open>Checks\<close>

definition allowed_entries :: "string \<Rightarrow> string list" where
  "allowed_entries allowedDomains =
     filter (\<lambda>d. d \<noteq> []) (map (\<lambda>domain. drop_final_dot (toLowerCase (trim domain))) (split_at (CHR '','') allowedDomains))"

fun entry_allows :: "string \<Rightarrow> string list \<Rightarrow> bool" where
  "entry_allows hostname [] = False"
| "entry_allows hostname (allowedDomain # rest) =
     (if starts_with ''*.'' allowedDomain
      then let domainSuffix = drop 2 allowedDomain
           in if domainSuffix = [] then entry_allows hostname rest
              else if ends_with hostname (''.'' @ domainSuffix) then True else entry_allows hostname rest
      else if hostname = allowedDomain then True else entry_allows hostname rest)"

definition isDomainAllowed :: "(string \<Rightarrow> string option) \<Rightarrow> string \<Rightarrow> string \<Rightarrow> bool" where
  "isDomainAllowed parse_hostname url allowedDomains =
     (if allowedDomains = [] \<or> trim allowedDomains = [] then True
      else case parse_hostname url of None \<Rightarrow> False
         | Some name \<Rightarrow>
             let hostname = drop_final_dot (toLowerCase name)
             in if hostname = [] then False else entry_allows hostname (allowed_entries allowedDomains))"

definition node_error :: "INode option \<Rightarrow> string \<Rightarrow> js_error" where
  "node_error node message = (case node of Some _ \<Rightarrow> ThrownError ''NodeOperationError'' message | None \<Rightarrow> UserError message)"

definition assertUrlAllowed :: "(string \<Rightarrow> string option) \<Rightarrow> string \<Rightarrow> string option \<Rightarrow> INode option \<Rightarrow> unit res" where
  "assertUrlAllowed parse_hostname url allowedDomains node =
     (case allowedDomains of None \<Rightarrow> Inr ()
      | Some domains \<Rightarrow>
          if domains = [] then Inr ()
          else if isDomainAllowed parse_hostname url domains then Inr ()
          else Inl (node_error node (''Domain not allowed: This credential is restricted from accessing '' @ url
                 @ ''. Only the following domains are allowed: '' @ domains)))"

definition DEFAULT_SURFACE :: string where
  "DEFAULT_SURFACE = ''HTTP Request''"

definition none_message :: "string option \<Rightarrow> string" where
  "none_message surface = ''This credential is configured to prevent use within an ''
     @ (case surface of None \<Rightarrow> DEFAULT_SURFACE | Some s \<Rightarrow> s) @ '' node''"

definition no_domains_message :: string where
  "no_domains_message = ''No allowed domains specified. Configure allowed domains or change restriction setting.''"

definition getCredentialAllowedDomains :: "INode \<Rightarrow> IDataObject \<Rightarrow> string option \<Rightarrow> string option res" where
  "getCredentialAllowedDomains node credentialData surface =
     (let mode = readMode credentialData
      in if mode = Some NoDomains then Inl (node_error (Some node) (none_message surface))
         else if mode = Some SpecificDomains
         then (case readAllowedDomainsField credentialData of
                 None \<Rightarrow> Inl (node_error (Some node) no_domains_message)
               | Some allowedDomains \<Rightarrow> Inr (Some allowedDomains))
         else Inr None)"

text \<open>\<open>pinnedUrl\<close> is \<open>None\<close> when the options have no such property, and \<open>Some None\<close> when it is \<^verbatim>\<open>undefined\<close>.\<close>

definition assertCredentialAllowsUrl ::
  "(string \<Rightarrow> string option) \<Rightarrow> INode \<Rightarrow> IDataObject \<Rightarrow> string \<Rightarrow> string option option \<Rightarrow> string option \<Rightarrow> string option res" where
  "assertCredentialAllowsUrl parse_hostname node credentialData url pinnedUrl surface =
     (let mode = readMode credentialData
      in if mode = Some NoDomains
         then (case pinnedUrl of
                 None \<Rightarrow> Inl (node_error (Some node) (none_message surface))
               | Some pinned \<Rightarrow>
                   if pinned \<noteq> None \<and> pinned \<noteq> Some [] \<and> pinned \<noteq> Some url
                   then Inl (node_error (Some node) (''Domain not allowed: This credential is restricted from accessing '' @ url @ ''.''))
                   else Inr None)
         else if mode = Some SpecificDomains
         then (case readAllowedDomainsField credentialData of
                 None \<Rightarrow> Inl (node_error (Some node) no_domains_message)
               | Some allowedDomains \<Rightarrow>
                   bind_res (assertUrlAllowed parse_hostname url (Some allowedDomains) (Some node)) (\<lambda>_. Inr (Some allowedDomains)))
         else Inr None)"

section \<open>Correctness\<close>

text \<open>The hosts that a list of domains names: an entry names itself, an entry \<^verbatim>\<open>*.d\<close> every host that ends with \<^verbatim>\<open>.d\<close>.\<close>

definition names_host :: "string \<Rightarrow> string \<Rightarrow> bool" where
  "names_host entry host \<longleftrightarrow> (if starts_with ''*.'' entry
     then \<exists>sub d. entry = ''*.'' @ d \<and> d \<noteq> [] \<and> host = sub @ ''.'' @ d else host = entry)"

definition host_of :: "(string \<Rightarrow> string option) \<Rightarrow> string \<Rightarrow> string option" where
  "host_of parse_hostname url = map_option (\<lambda>name. drop_final_dot (toLowerCase name)) (parse_hostname url)"

lemma starts_with_app: "starts_with p s \<longleftrightarrow> (\<exists>t. s = p @ t)"
  by (auto simp: starts_with_def) (metis append_take_drop_id)

lemma ends_with_app: "ends_with s suf \<longleftrightarrow> (\<exists>t. s = t @ suf)"
  by (auto simp: ends_with_def) (metis append_take_drop_id)

lemma entry_allows_iff: "entry_allows host entries \<longleftrightarrow> (\<exists>e \<in> set entries. names_host e host)"
proof (induction entries)
  case (Cons e entries)
  have "names_host e host \<longleftrightarrow> (if starts_with ''*.'' e then drop 2 e \<noteq> [] \<and> ends_with host (''.'' @ drop 2 e) else host = e)"
    by (auto simp: names_host_def starts_with_app ends_with_app)
  with Cons show ?case by (cases "starts_with ''*.'' e") (auto simp: Let_def)
qed simp

lemma isDomainAllowed_iff:
  "isDomainAllowed parse_hostname url domains \<longleftrightarrow> trim domains = []
     \<or> (\<exists>host. host_of parse_hostname url = Some host \<and> host \<noteq> [] \<and> (\<exists>e \<in> set (allowed_entries domains). names_host e host))"
proof -
  have "trim [] = []" by (simp add: trim_def)
  then show ?thesis by (auto simp: isDomainAllowed_def host_of_def entry_allows_iff Let_def split: option.splits)
qed

lemma readAllowedDomains_trimmed: "readAllowedDomainsField cred = Some domains \<Longrightarrow> domains \<noteq> [] \<and> trim domains = domains"
  by (auto simp: readAllowedDomainsField_def split: jsval.splits if_splits)

text \<open>Adding the fields again changes nothing.\<close>

lemma injectDomainRestrictionFields_idempotent:
  "injectDomainRestrictionFields (ct\<lparr>ct_properties := Some (injectDomainRestrictionFields ct)\<rparr>) = injectDomainRestrictionFields ct"
proof -
  have "list_ex (\<lambda>prop. get_prop prop ''name'' = JStr ''allowedHttpRequestDomains'') DOMAIN_RESTRICTION_FIELDS"
    by (simp add: DOMAIN_RESTRICTION_FIELDS_def get_prop_def)
  then show ?thesis by (simp add: injectDomainRestrictionFields_def shouldInjectDomainRestrictionFields_def Let_def)
qed

text \<open>
  C18. A request to a URL may carry a credential only as its restriction says. In the mode \<^verbatim>\<open>domains\<close> the check returns exactly when a list of
  domains is set and the URL has a host that an entry of the list names: the host itself, or for an entry \<^verbatim>\<open>*.d\<close> a host that ends with
  \<^verbatim>\<open>.d\<close>, never \<^verbatim>\<open>d\<close> itself. In the mode \<^verbatim>\<open>none\<close> it returns only when the caller passes a pinned URL that is empty or equal to the URL.
  Without a mode, and in the mode \<^verbatim>\<open>all\<close>, it always returns.
\<close>

theorem assertCredentialAllowsUrl_correct:
  "assertCredentialAllowsUrl parse_hostname node cred url pinnedUrl surface = Inr r \<longleftrightarrow>
     (case readMode cred of
        Some NoDomains \<Rightarrow> r = None \<and> (\<exists>pinned. pinnedUrl = Some pinned \<and> pinned \<in> {None, Some [], Some url})
      | Some SpecificDomains \<Rightarrow> \<exists>domains host. readAllowedDomainsField cred = Some domains \<and> r = Some domains
          \<and> host_of parse_hostname url = Some host \<and> host \<noteq> [] \<and> (\<exists>e \<in> set (allowed_entries domains). names_host e host)
      | _ \<Rightarrow> r = None)"
proof (cases "readMode cred = Some SpecificDomains")
  case True
  show ?thesis
  proof (cases "readAllowedDomainsField cred")
    case None
    with True show ?thesis by (simp add: assertCredentialAllowsUrl_def)
  next
    case (Some domains)
    with readAllowedDomains_trimmed [OF Some] True show ?thesis
      by (auto simp: assertCredentialAllowsUrl_def assertUrlAllowed_def isDomainAllowed_iff bind_res_eq_Inr split: if_splits)
  qed
next
  case False
  then show ?thesis by (auto simp: assertCredentialAllowsUrl_def Let_def split: option.splits DomainRestrictionMode.splits)
qed

end
