(* ===== verification/Workflow_Checksum.thy ===== *)
theory Workflow_Checksum
  imports Execution_Items "HOL-Library.List_Lexorder" "HOL-Library.Word"
begin

text \<open>
  \<^verbatim>\<open>packages/workflow/src/workflow-checksum.ts\<close>: the checksum by which an edit conflict is detected. \<^verbatim>\<open>JSON.stringify\<close> with the encoding
  to bytes and SHA-256 are the parameters \<open>stringify\<close> and \<open>digest\<close>; the fallback without WebCrypto computes the same digest. Objects are
  plain objects; of others, which the code leaves as they are, there is no value here.
\<close>

section \<open>Normal form of a value\<close>

text \<open>\<^verbatim>\<open>Object.keys(value).sort()\<close> orders by code units.\<close>

definition code_units :: "string \<Rightarrow> nat list" where
  "code_units s = map of_char s"

definition sort_keys :: "string list \<Rightarrow> string list" where
  "sort_keys keys = sort_key code_units keys"

function sortObjectKeys :: "jsval \<Rightarrow> jsval" where
  "sortObjectKeys value =
     (case value of
        JArr xs \<Rightarrow> JArr (map sortObjectKeys xs)
      | JObj ps \<Rightarrow>
          let sortedKeys = sort_keys (keys_of ps)
          in JObj (fold (\<lambda>key. obj_set key (case map_of ps key of None \<Rightarrow> JUndefined | Some v \<Rightarrow> sortObjectKeys v)) sortedKeys [])
      | _ \<Rightarrow> value)"
  by pat_completeness auto

lemma size_of_property: "map_of ps key = Some v \<Longrightarrow> size v < size (JObj ps)"
proof -
  assume "map_of ps key = Some v"
  then have "size_prod (\<lambda>_. 0) size (key, v) \<le> size_list (size_prod (\<lambda>_. 0) size) ps"
    by (intro size_list_estimation' [OF map_of_SomeD]) auto
  then show ?thesis by simp
qed

termination sortObjectKeys
  by (relation "measure size") (auto dest: size_of_property simp: size_list_estimation' less_Suc_eq_le)

declare sortObjectKeys.simps [simp del]

section \<open>The checksum\<close>

type_synonym WorkflowSnapshot = IDataObject

definition WORKFLOW_CHECKSUM_FIELDS :: "string list" where
  "WORKFLOW_CHECKSUM_FIELDS = [''name'', ''description'', ''nodes'', ''connections'', ''settings'', ''meta'', ''pinData'',
     ''isArchived'', ''activeVersionId'', ''nodeGroups'']"

definition checksumPayload :: "WorkflowSnapshot \<Rightarrow> IDataObject" where
  "checksumPayload workflow =
     fold (\<lambda>field payload. let value = get_prop workflow field in if value \<noteq> JUndefined then obj_set field value payload else payload)
       WORKFLOW_CHECKSUM_FIELDS []"

definition normalizedPayload :: "WorkflowSnapshot \<Rightarrow> jsval" where
  "normalizedPayload workflow = sortObjectKeys (JObj (checksumPayload workflow))"

definition hex_digit :: "nat \<Rightarrow> char" where
  "hex_digit n = ''0123456789abcdef'' ! n"

definition byte_hex :: "8 word \<Rightarrow> string" where
  "byte_hex b = [hex_digit (unat b div 16), hex_digit (unat b mod 16)]"

definition arrayBufferToHex :: "8 word list \<Rightarrow> string" where
  "arrayBufferToHex bytes = fold (\<lambda>b hexString. hexString @ byte_hex b) bytes []"

definition calculateWorkflowChecksum :: "(jsval \<Rightarrow> string) \<Rightarrow> (string \<Rightarrow> 8 word list) \<Rightarrow> WorkflowSnapshot \<Rightarrow> string" where
  "calculateWorkflowChecksum stringify digest workflow = arrayBufferToHex (digest (stringify (normalizedPayload workflow)))"

section \<open>Equality up to the order of keys\<close>

function same_json :: "jsval \<Rightarrow> jsval \<Rightarrow> bool" where
  "same_json a b \<longleftrightarrow>
     (case a of
        JArr xs \<Rightarrow> (case b of JArr ys \<Rightarrow> length xs = length ys \<and> list_all (\<lambda>(x, y). same_json x y) (zip xs ys) | _ \<Rightarrow> False)
      | JObj ps \<Rightarrow> (case b of
          JObj qs \<Rightarrow> set (keys_of ps) = set (keys_of qs)
            \<and> list_all (\<lambda>(k, v). case map_of qs k of None \<Rightarrow> False | Some w \<Rightarrow> same_json v w) ps
        | _ \<Rightarrow> False)
      | _ \<Rightarrow> a = b)"
  by pat_completeness auto

lemma size_of_entry: "(k, v) \<in> set ps \<Longrightarrow> size v < size (JObj ps)"
proof -
  assume "(k, v) \<in> set ps"
  then have "size_prod (\<lambda>_. 0) size (k, v) \<le> size_list (size_prod (\<lambda>_. 0) size) ps" by (intro size_list_estimation') auto
  then show ?thesis by simp
qed

lemma size_of_element: "x \<in> set xs \<Longrightarrow> size x < size (JArr xs)"
  by (simp add: size_list_estimation' less_Suc_eq_le)

termination same_json
  by (relation "measure (\<lambda>(a, b). size a)") (auto dest!: size_of_entry size_of_element set_zip_leftD)

declare same_json.simps [simp del]

text \<open>Every object has each key once.\<close>

fun plain_json :: "jsval \<Rightarrow> bool" where
  "plain_json (JArr xs) = list_all plain_json xs"
| "plain_json (JObj ps) = (distinct (keys_of ps) \<and> list_all (\<lambda>p. plain_json (snd p)) ps)"
| "plain_json _ = True"

section \<open>Correctness\<close>

lemma code_units_inj: "inj code_units"
  by (auto simp: code_units_def inj_def map_injective)

lemma sort_keys_set:
  assumes "distinct xs" and "distinct ys"
  shows "sort_keys xs = sort_keys ys \<longleftrightarrow> set xs = set ys"
proof
  assume "set xs = set ys"
  then have m: "mset xs = mset (sort_keys ys)" using assms by (simp add: sort_keys_def set_eq_iff_mset_eq_distinct)
  have "sorted (map code_units (sort_keys ys))" by (simp add: sort_keys_def)
  moreover have "inj_on code_units (set xs)" by (rule inj_on_subset [OF code_units_inj]) simp
  ultimately show "sort_keys xs = sort_keys ys" unfolding sort_keys_def [of xs] by (intro sort_key_inj_key_eq [OF m])
next
  assume "sort_keys xs = sort_keys ys"
  then show "set xs = set ys" unfolding sort_keys_def by (metis set_sort)
qed

definition sorted_props :: "(string \<times> jsval) list \<Rightarrow> (string \<times> jsval) list" where
  "sorted_props ps = fold (\<lambda>key. obj_set key (case map_of ps key of None \<Rightarrow> JUndefined | Some v \<Rightarrow> sortObjectKeys v)) (sort_keys (keys_of ps)) []"

lemma sortObjectKeys_simps:
  "sortObjectKeys (JArr xs) = JArr (map sortObjectKeys xs)"
  "sortObjectKeys (JObj ps) = JObj (sorted_props ps)"
  "sortObjectKeys (JStr s) = JStr s" "sortObjectKeys (JNum x) = JNum x" "sortObjectKeys (JBool c) = JBool c"
  "sortObjectKeys JNull = JNull" "sortObjectKeys JUndefined = JUndefined"
  by (simp_all add: sortObjectKeys.simps [of "JArr xs"] sortObjectKeys.simps [of "JObj ps"] sortObjectKeys.simps [of "JStr s"] sortObjectKeys.simps [of "JNum x"]
      sortObjectKeys.simps [of "JBool c"] sortObjectKeys.simps [of JNull] sortObjectKeys.simps [of JUndefined] sorted_props_def)

lemma same_json_atoms:
  "same_json (JStr s) b \<longleftrightarrow> b = JStr s" "same_json (JNum x) b \<longleftrightarrow> b = JNum x" "same_json (JBool c) b \<longleftrightarrow> b = JBool c"
  "same_json JNull b \<longleftrightarrow> b = JNull" "same_json JUndefined b \<longleftrightarrow> b = JUndefined"
  by (auto simp: same_json.simps [of "JStr s"] same_json.simps [of "JNum x"] same_json.simps [of "JBool c"] same_json.simps [of JNull] same_json.simps [of JUndefined])

lemma sorted_props_get:
  "map_of (sorted_props ps) k = map_option sortObjectKeys (map_of ps k)"
proof -
  have keys: "set (sort_keys (keys_of ps)) = set (keys_of ps)" by (simp add: sort_keys_def del: set_map)
  show ?thesis
  proof (cases "map_of ps k")
    case None
    then have "k \<notin> set (sort_keys (keys_of ps))" unfolding keys by (simp add: map_of_eq_None_iff)
    then have "k \<notin> (\<lambda>k. k) ` set (sort_keys (keys_of ps))" by simp
    from js_obj.fold_put_get_other [OF this, of "\<lambda>key. case map_of ps key of None \<Rightarrow> JUndefined | Some v \<Rightarrow> sortObjectKeys v" "[]"] None
    show ?thesis unfolding sorted_props_def by simp
  next
    case (Some v)
    then have "k \<in> set (sort_keys (keys_of ps))" unfolding keys by (force dest: map_of_SomeD)
    from js_obj.fold_put_get_last [OF this, of "\<lambda>k. k" "\<lambda>key. case map_of ps key of None \<Rightarrow> JUndefined | Some v \<Rightarrow> sortObjectKeys v" "[]"] Some
    show ?thesis unfolding sorted_props_def by simp
  qed
qed

lemma sorted_props_keys: "set (keys_of (sorted_props ps)) = set (keys_of ps)"
  unfolding sorted_props_def using js_obj.fold_put_keys [of "\<lambda>k. k" _ "sort_keys (keys_of ps)" "[]"] by (simp add: sort_keys_def del: set_map)

lemma sorted_props_eq:
  assumes "distinct (keys_of ps)" and "distinct (keys_of qs)"
  shows "sorted_props ps = sorted_props qs
    \<longleftrightarrow> set (keys_of ps) = set (keys_of qs) \<and> (\<forall>k. map_option sortObjectKeys (map_of ps k) = map_option sortObjectKeys (map_of qs k))"
proof
  assume "sorted_props ps = sorted_props qs"
  then show "set (keys_of ps) = set (keys_of qs) \<and> (\<forall>k. map_option sortObjectKeys (map_of ps k) = map_option sortObjectKeys (map_of qs k))"
    using sorted_props_keys sorted_props_get by metis
next
  assume eq: "set (keys_of ps) = set (keys_of qs) \<and> (\<forall>k. map_option sortObjectKeys (map_of ps k) = map_option sortObjectKeys (map_of qs k))"
  then have "sort_keys (keys_of ps) = sort_keys (keys_of qs)" using sort_keys_set [OF assms] by blast
  moreover have "(case map_of ps k of None \<Rightarrow> JUndefined | Some v \<Rightarrow> sortObjectKeys v) = (case map_of qs k of None \<Rightarrow> JUndefined | Some v \<Rightarrow> sortObjectKeys v)" for k
    using eq by (cases "map_of ps k"; cases "map_of qs k") (auto dest: spec [of _ k])
  ultimately show "sorted_props ps = sorted_props qs" by (simp add: sorted_props_def)
qed

lemma sortObjectKeys_same: "plain_json a \<Longrightarrow> plain_json b \<Longrightarrow> sortObjectKeys a = sortObjectKeys b \<longleftrightarrow> same_json a b"
proof (induction a b rule: same_json.induct)
  case (1 a b)
  show ?case
  proof (cases a)
    case (JArr xs)
    show ?thesis
    proof (cases b)
      case b: (JArr ys)
      have "sortObjectKeys x = sortObjectKeys y \<longleftrightarrow> same_json x y" if "(x, y) \<in> set (zip xs ys)" for x y
        using "1.IH"(1) [OF JArr b that refl] "1.prems" set_zip_leftD [OF that] set_zip_rightD [OF that] by (simp add: JArr b list_all_iff)
      then have "list_all2 (\<lambda>x y. sortObjectKeys x = sortObjectKeys y) xs ys \<longleftrightarrow> length xs = length ys \<and> list_all (\<lambda>(x, y). same_json x y) (zip xs ys)"
        by (auto simp: list_all2_iff list_all_iff)
      then show ?thesis
        by (simp add: JArr b sortObjectKeys_simps same_json.simps [of "JArr xs"] list_all2_eq [where 'a = jsval] list.rel_map list_all2_map1 list_all2_map2
            flip: list.rel_eq)
    qed (simp_all add: JArr sortObjectKeys_simps same_json.simps [of "JArr xs"])
  next
    case (JObj ps)
    show ?thesis
    proof (cases b)
      case b: (JObj qs)
      have d: "distinct (keys_of ps)" "distinct (keys_of qs)" using "1.prems" by (simp_all add: JObj b)
      have IH: "sortObjectKeys v = sortObjectKeys w \<longleftrightarrow> same_json v w" if "(k, v) \<in> set ps" "map_of qs k = Some w" for k v w
      proof -
        have "plain_json v" "plain_json w"
          using bspec [OF _ that(1), of "\<lambda>p. plain_json (snd p)"] bspec [OF _ map_of_SomeD [OF that(2)], of "\<lambda>p. plain_json (snd p)"] "1.prems"
          by (simp_all add: JObj b list_all_iff)
        with "1.IH"(2) [OF JObj b that(1) refl that(2)] show ?thesis by simp
      qed
      have "(\<forall>k. map_option sortObjectKeys (map_of ps k) = map_option sortObjectKeys (map_of qs k))
          \<longleftrightarrow> list_all (\<lambda>(k, v). case map_of qs k of None \<Rightarrow> False | Some w \<Rightarrow> same_json v w) ps" if keys: "set (keys_of ps) = set (keys_of qs)"
      proof
        assume all: "\<forall>k. map_option sortObjectKeys (map_of ps k) = map_option sortObjectKeys (map_of qs k)"
        have "case map_of qs k of None \<Rightarrow> False | Some w \<Rightarrow> same_json v w" if "(k, v) \<in> set ps" for k v
        proof -
          have "map_of ps k = Some v" using d(1) that by simp
          with all obtain w where "map_of qs k = Some w" "sortObjectKeys v = sortObjectKeys w" by (metis map_option_eq_Some option.simps(9))
          with IH [OF that] show ?thesis by simp
        qed
        then show "list_all (\<lambda>(k, v). case map_of qs k of None \<Rightarrow> False | Some w \<Rightarrow> same_json v w) ps" by (auto simp: list_all_iff)
      next
        assume all: "list_all (\<lambda>(k, v). case map_of qs k of None \<Rightarrow> False | Some w \<Rightarrow> same_json v w) ps"
        show "\<forall>k. map_option sortObjectKeys (map_of ps k) = map_option sortObjectKeys (map_of qs k)"
        proof
          fix k
          show "map_option sortObjectKeys (map_of ps k) = map_option sortObjectKeys (map_of qs k)"
          proof (cases "map_of ps k")
            case None
            with keys have "map_of qs k = None" by (metis map_of_eq_None_iff set_map)
            with None show ?thesis by simp
          next
            case (Some v)
            from map_of_SomeD [OF this] all obtain w where "map_of qs k = Some w" "same_json v w"
              by (fastforce simp: list_all_iff split: option.splits)
            with IH [OF map_of_SomeD [OF Some]] Some show ?thesis by simp
          qed
        qed
      qed
      then show ?thesis
        using sorted_props_eq [OF d] by (simp add: JObj b sortObjectKeys_simps same_json.simps [of "JObj ps"] del: set_map) blast
    qed (simp_all add: JObj sortObjectKeys_simps same_json.simps [of "JObj ps"])
  qed (cases b; auto simp: sortObjectKeys_simps same_json_atoms)+
qed

lemma payload_get:
  "map_of (checksumPayload w) k = (if k \<in> set WORKFLOW_CHECKSUM_FIELDS \<and> get_prop w k \<noteq> JUndefined then Some (get_prop w k) else None)"
proof -
  have "map_of (fold (\<lambda>field payload. let value = get_prop w field in if value \<noteq> JUndefined then obj_set field value payload else payload) fs m) k
      = (if k \<in> set fs \<and> get_prop w k \<noteq> JUndefined then Some (get_prop w k) else map_of m k)" for fs m
    by (induction fs arbitrary: m) (auto simp: Let_def js_obj.get_put)
  then show ?thesis by (simp add: checksumPayload_def)
qed

lemma payload_distinct: "distinct (keys_of (checksumPayload w))"
  unfolding checksumPayload_def by (intro fold_keeps [where P = "\<lambda>m. distinct (keys_of m)"]) (auto simp: Let_def js_obj.distinct_put)

lemma payload_plain:
  assumes "plain_json (JObj w)"
  shows "plain_json (JObj (checksumPayload w))"
proof -
  have "plain_json v" if "(k, v) \<in> set (checksumPayload w)" for k v
  proof -
    have "map_of (checksumPayload w) k = Some v" using payload_distinct that by simp
    then have "get_prop w k = v" "v \<noteq> JUndefined" by (auto simp: payload_get split: if_splits)
    then have "(k, v) \<in> set w" by (auto simp: get_prop_def dest: map_of_SomeD split: option.splits)
    with assms show ?thesis by (auto simp: list_all_iff)
  qed
  with payload_distinct show ?thesis by (auto simp: list_all_iff)
qed

lemma same_undefined: "same_json JUndefined b \<longleftrightarrow> b = JUndefined" "same_json a JUndefined \<longleftrightarrow> a = JUndefined"
  by (cases a; auto simp: same_json.simps [of "JArr _"] same_json.simps [of "JObj _"] same_json_atoms)+

lemma normalizedPayload_eq:
  assumes "plain_json (JObj a)" and "plain_json (JObj b)"
  shows "normalizedPayload a = normalizedPayload b \<longleftrightarrow> (\<forall>field \<in> set WORKFLOW_CHECKSUM_FIELDS. same_json (get_prop a field) (get_prop b field))"
proof -
  let ?p = "checksumPayload a" and ?q = "checksumPayload b" and ?F = "set WORKFLOW_CHECKSUM_FIELDS"
  have keys: "set (keys_of (checksumPayload w)) = {k \<in> ?F. get_prop w k \<noteq> JUndefined}" for w
  proof -
    have "k \<in> set (keys_of (checksumPayload w)) \<longleftrightarrow> map_of (checksumPayload w) k \<noteq> None" for k by (simp add: map_of_eq_None_iff)
    then show ?thesis by (auto simp: payload_get simp del: set_map split: if_splits)
  qed
  have entry: "(k, v) \<in> set (checksumPayload w) \<longleftrightarrow> k \<in> ?F \<and> v = get_prop w k \<and> v \<noteq> JUndefined" for k v w
    using map_of_eq_Some_iff [OF payload_distinct, of w k v] by (auto simp: payload_get split: if_splits)
  have "normalizedPayload a = normalizedPayload b \<longleftrightarrow> same_json (JObj ?p) (JObj ?q)"
    unfolding normalizedPayload_def by (rule sortObjectKeys_same [OF payload_plain [OF assms(1)] payload_plain [OF assms(2)]])
  also have "\<dots> \<longleftrightarrow> (\<forall>k \<in> ?F. get_prop a k = JUndefined \<longleftrightarrow> get_prop b k = JUndefined)
      \<and> (\<forall>k \<in> ?F. get_prop a k \<noteq> JUndefined \<longrightarrow> get_prop b k \<noteq> JUndefined \<and> same_json (get_prop a k) (get_prop b k))"
  proof -
    have all: "list_all P ?p \<longleftrightarrow> (\<forall>k \<in> ?F. get_prop a k \<noteq> JUndefined \<longrightarrow> P (k, get_prop a k))" for P
    proof -
      have "list_all P ?p \<longleftrightarrow> (\<forall>k v. (k, v) \<in> set ?p \<longrightarrow> P (k, v))" by (auto simp: list_all_iff)
      then show ?thesis by (auto simp: entry)
    qed
    show ?thesis unfolding same_json.simps [of "JObj ?p"] jsval.case keys all by (auto simp: payload_get)
  qed
  also have "\<dots> \<longleftrightarrow> (\<forall>k \<in> ?F. same_json (get_prop a k) (get_prop b k))"
    using same_undefined by metis
  finally show ?thesis .
qed

lemma hex_digit_inj: "m < 16 \<Longrightarrow> n < 16 \<Longrightarrow> hex_digit m = hex_digit n \<longleftrightarrow> m = n"
  using nth_eq_iff_index_eq [of "''0123456789abcdef''" m n] by (simp add: hex_digit_def)

lemma byte_hex_inj: "byte_hex a = byte_hex b \<longleftrightarrow> a = b"
proof
  assume eq: "byte_hex a = byte_hex b"
  have "unat a < 256" "unat b < 256" using unsigned_less [of a, where ?'a = nat] unsigned_less [of b, where ?'a = nat] by simp_all
  with eq have "unat a div 16 = unat b div 16" "unat a mod 16 = unat b mod 16" by (simp_all add: byte_hex_def hex_digit_inj)
  then have "unat a = unat b" by (metis div_mult_mod_eq)
  then show "a = b" by (rule unsigned_word_eqI)
qed simp

lemma arrayBufferToHex_concat: "arrayBufferToHex bytes = concat (map byte_hex bytes)"
proof -
  have "fold (\<lambda>b hexString. hexString @ byte_hex b) bytes s = s @ concat (map byte_hex bytes)" for s by (induction bytes arbitrary: s) simp_all
  then show ?thesis by (simp add: arrayBufferToHex_def)
qed

lemma arrayBufferToHex_inj: "arrayBufferToHex as = arrayBufferToHex bs \<longleftrightarrow> as = bs"
  unfolding arrayBufferToHex_concat
proof (induction as arbitrary: bs)
  case Nil
  show ?case by (cases bs) (simp_all add: byte_hex_def)
next
  case (Cons a as)
  have two: "length (byte_hex b) = 2" for b by (simp add: byte_hex_def)
  show ?case
  proof (cases bs)
    case (Cons b bs')
    then show ?thesis using Cons.IH [of bs'] two byte_hex_inj by simp
  qed (use two [of a] in auto)
qed

text \<open>
  C21. The checksum sees exactly the ten listed fields of a workflow, up to the order of keys: the values that are hashed are equal exactly when
  each of these fields is equal in both workflows, or undefined in both, with any order of the keys of its objects; and the
  checksums are equal exactly when the digests of these values are.
\<close>

theorem calculateWorkflowChecksum_correct:
  assumes "plain_json (JObj a)" and "plain_json (JObj b)"
  shows "(normalizedPayload a = normalizedPayload b \<longleftrightarrow> (\<forall>field \<in> set WORKFLOW_CHECKSUM_FIELDS. same_json (get_prop a field) (get_prop b field)))
    \<and> (calculateWorkflowChecksum stringify digest a = calculateWorkflowChecksum stringify digest b
        \<longleftrightarrow> digest (stringify (normalizedPayload a)) = digest (stringify (normalizedPayload b)))"
  by (simp add: normalizedPayload_eq [OF assms] calculateWorkflowChecksum_def arrayBufferToHex_inj)

theorem calculateWorkflowChecksum_correct_witness:
  "let a = [(''id'', JStr ''1''), (''settings'', JObj [(''b'', JNum 1), (''a'', JNum 2)])]; b = [(''settings'', JObj [(''a'', JNum 2), (''b'', JNum 1)])]
   in normalizedPayload a = normalizedPayload b
      \<and> calculateWorkflowChecksum (\<lambda>_. ''x'') (\<lambda>s. [of_nat (length s)]) a = calculateWorkflowChecksum (\<lambda>_. ''x'') (\<lambda>s. [of_nat (length s)]) b"
proof -
  let ?a = "[(''id'', JStr ''1''), (''settings'', JObj [(''b'', JNum 1), (''a'', JNum 2)])]" and ?b = "[(''settings'', JObj [(''a'', JNum 2), (''b'', JNum 1)])]"
  have p: "plain_json (JObj ?a)" "plain_json (JObj ?b)" by code_simp+
  have "\<forall>field \<in> set WORKFLOW_CHECKSUM_FIELDS. same_json (get_prop ?a field) (get_prop ?b field)" by code_simp
  with calculateWorkflowChecksum_correct [OF p, of "\<lambda>_. ''x''" "\<lambda>s. [of_nat (length s)]"] show ?thesis by (simp only: Let_def)
qed

end
