(* ===== verification/From_AI_Calls.thy ===== *)
theory From_AI_Calls
  imports Graph_Conversion Execution_Items
begin

text \<open>
  \<^verbatim>\<open>packages/workflow/src/from-ai-parse-utils.ts\<close>: the arguments that a language model fills in, written in node parameters as calls
  \<^verbatim>\<open>$fromAI('key', 'description', 'type', default)\<close>, and the test for parameters that contain nothing else. The loops over the characters are
  functions on the rest of the string. \<^verbatim>\<open>Number\<close> on a string and \<^verbatim>\<open>jsonParse\<close> are the parameters of \<open>value_parsers\<close>; the schemas that
  \<^verbatim>\<open>generateZodSchema\<close> builds with the library zod are left out.
\<close>

section \<open>Arguments\<close>

record FromAIArgument =
  fa_key :: string
  fa_description :: "string option"
  fa_type :: string
  fa_defaultValue :: "jsval option"

record value_parsers =
  vp_Number :: "string \<Rightarrow> rat option"
  vp_jsonParse :: "string \<Rightarrow> jsval option"

definition backslash :: char where "backslash = CHR 0x5C"

definition quote_chars :: "char list" where
  "quote_chars = [CHR 0x22, CHR 0x27, CHR 0x60]"

text \<open>The state of the first loop of \<^verbatim>\<open>parseArguments\<close>: \<open>inQuotes\<close> with \<open>quoteChar\<close>, and \<open>escapeNext\<close>.\<close>

fun split_args :: "char option \<Rightarrow> bool \<Rightarrow> string \<Rightarrow> string list \<Rightarrow> string \<Rightarrow> string list" where
  "split_args quote escapeNext currentArg args [] = (if currentArg \<noteq> [] then args @ [trim currentArg] else args)"
| "split_args quote escapeNext currentArg args (c # cs) =
     (if escapeNext then split_args quote False (currentArg @ [c]) args cs
      else if c = backslash then split_args quote True currentArg args cs
      else if c \<in> set quote_chars then
        split_args (case quote of None \<Rightarrow> Some c | Some q \<Rightarrow> if c = q then None else Some q) False (currentArg @ [c]) args cs
      else if c = CHR '','' \<and> quote = None then split_args quote False [] (args @ [trim currentArg]) cs
      else split_args quote False (currentArg @ [c]) args cs)"

text \<open>\<^verbatim>\<open>replace(/\\x/g, 'x')\<close>, from left to right.\<close>

fun unescape :: "char \<Rightarrow> string \<Rightarrow> string" where
  "unescape x [] = []"
| "unescape x [c] = [c]"
| "unescape x (c # d # cs) = (if c = backslash \<and> d = x then x # unescape x cs else c # unescape x (d # cs))"

definition surrounded :: "char \<Rightarrow> string \<Rightarrow> bool" where
  "surrounded q s \<longleftrightarrow> s \<noteq> [] \<and> hd s = q \<and> last s = q"

definition clean_arg :: "string \<Rightarrow> string" where
  "clean_arg arg =
     (let trimmed = trim arg
      in if list_ex (\<lambda>q. surrounded q trimmed) [CHR 0x27, CHR 0x60, CHR 0x22]
         then unescape backslash (unescape (CHR 0x22) (unescape (CHR 0x60) (unescape (CHR 0x27) (butlast (tl trimmed)))))
         else trimmed)"

definition isFromAIArgumentType :: "string \<Rightarrow> bool" where
  "isFromAIArgumentType value \<longleftrightarrow> toLowerCase value \<in> {''string'', ''number'', ''boolean'', ''json''}"

definition parseDefaultValue :: "value_parsers \<Rightarrow> string option \<Rightarrow> string \<Rightarrow> jsval option" where
  "parseDefaultValue vp value type =
     (case value of None \<Rightarrow> None
      | Some v \<Rightarrow>
          let lowerValue = toLowerCase v
          in if type = ''string'' then Some (JStr v)
             else if type = ''boolean'' \<and> (lowerValue = ''true'' \<or> lowerValue = ''false'') then Some (JBool (lowerValue = ''true''))
             else if type = ''number'' \<and> vp_Number vp v \<noteq> None then map_option JNum (vp_Number vp v)
             else (case vp_jsonParse vp v of Some x \<Rightarrow> Some x | None \<Rightarrow> Some (JStr v)))"

definition parse_error :: "string \<Rightarrow> js_error" where
  "parse_error message = ThrownError ''Error'' message"

definition parseArguments :: "value_parsers \<Rightarrow> string \<Rightarrow> FromAIArgument res" where
  "parseArguments vp argsString =
     (let cleanArgs = map clean_arg (split_args None False [] [] argsString);
          type = (case arr_at cleanArgs 2 of None \<Rightarrow> ''string'' | Some t \<Rightarrow> t)
      in if \<not> isFromAIArgumentType type then Inl (parse_error (''Invalid type: '' @ type))
         else Inr \<lparr>fa_key = (case arr_at cleanArgs 0 of None \<Rightarrow> [] | Some k \<Rightarrow> k), fa_description = arr_at cleanArgs 1,
                    fa_type = type, fa_defaultValue = parseDefaultValue vp (arr_at cleanArgs 3) type\<rparr>)"

section \<open>Finding the calls\<close>

text \<open>The regular expression \<^verbatim>\<open>/\$fromAI\s*\(\s*/i\<close> at the start of a string: the rest after the match.\<close>

definition fromAI_name :: string where
  "fromAI_name = ''$fromai''"

definition match_call :: "string \<Rightarrow> string option" where
  "match_call s =
     (if toLowerCase (take (length fromAI_name) s) = fromAI_name
      then (case dropWhile is_space (drop (length fromAI_name) s) of
              [] \<Rightarrow> None
            | c # cs \<Rightarrow> if c = CHR ''('' then Some (dropWhile is_space cs) else None)
      else None)"

text \<open>The loop that collects the arguments up to the matching parenthesis; nothing when the string ends before.\<close>

fun scan_call :: "char option \<Rightarrow> nat \<Rightarrow> string \<Rightarrow> string \<Rightarrow> string option" where
  "scan_call quote 0 argsString cs = Some argsString"
| "scan_call quote (Suc n) argsString [] = None"
| "scan_call (Some q) (Suc n) argsString (c # cs) =
     (if c = backslash \<and> cs \<noteq> [] then scan_call (Some q) (Suc n) (argsString @ [c, hd cs]) (tl cs)
      else scan_call (if c = q then None else Some q) (Suc n) (argsString @ [c]) cs)"
| "scan_call None (Suc n) argsString (c # cs) =
     (if c \<in> set quote_chars then scan_call (Some c) (Suc n) (argsString @ [c]) cs
      else if c = CHR ''('' then scan_call None (Suc (Suc n)) (argsString @ [c]) cs
      else if c = CHR '')'' then scan_call None n (if n > 0 then argsString @ [c] else argsString) cs
      else scan_call None (Suc n) (argsString @ [c]) cs)"

definition error_string :: "js_error \<Rightarrow> string" where
  "error_string e = (case e of ThrownError name message \<Rightarrow> name @ '': '' @ message | _ \<Rightarrow> ''Error'')"

definition parse_call :: "value_parsers \<Rightarrow> string \<Rightarrow> FromAIArgument res" where
  "parse_call vp rest =
     (case scan_call None 1 [] rest of
        None \<Rightarrow> Inl (parse_error (''Unbalanced parentheses while parsing $fromAI call: '' @ rest))
      | Some argsString \<Rightarrow> (case parseArguments vp argsString of
          Inr arg \<Rightarrow> Inr arg
        | Inl e \<Rightarrow> Inl (parse_error (''Failed to parse $fromAI arguments: '' @ argsString @ '': '' @ error_string e))))"

lemma length_match_call: "match_call s = Some rest \<Longrightarrow> length rest < length s"
proof -
  assume m: "match_call s = Some rest"
  obtain c cs where cs: "dropWhile is_space (drop (length fromAI_name) s) = c # cs" "rest = dropWhile is_space cs"
    using m by (auto simp: match_call_def split: list.splits if_splits)
  have "length rest \<le> length cs" by (simp add: cs(2) length_dropWhile_le)
  also have "\<dots> < length (dropWhile is_space (drop (length fromAI_name) s))" by (simp add: cs(1))
  also have "\<dots> \<le> length (drop (length fromAI_name) s)" by (rule length_dropWhile_le)
  finally show ?thesis by simp
qed

text \<open>The search goes on behind the parenthesis that opens a call, so calls inside of a call are found too.\<close>

function extractFromAICalls :: "value_parsers \<Rightarrow> string \<Rightarrow> FromAIArgument list res" where
  "extractFromAICalls vp str =
     (case str of [] \<Rightarrow> Inr []
      | c # cs \<Rightarrow> (case match_call str of
          None \<Rightarrow> extractFromAICalls vp cs
        | Some rest \<Rightarrow> bind_res (parse_call vp rest) (\<lambda>arg. bind_res (extractFromAICalls vp rest) (\<lambda>args. Inr (arg # args)))))"
  by pat_completeness auto

termination extractFromAICalls
  by (relation "measure (\<lambda>(vp, str). length str)") (auto dest: length_match_call)

declare extractFromAICalls.simps [simp del]

section \<open>All parameters of a node\<close>

function traverseNodeParameters :: "value_parsers \<Rightarrow> jsval \<Rightarrow> FromAIArgument list \<Rightarrow> FromAIArgument list res" where
  "traverseNodeParameters vp payload collectedArgs =
     (case payload of
        JStr s \<Rightarrow> bind_res (extractFromAICalls vp s) (\<lambda>calls. Inr (collectedArgs @ calls))
      | JArr xs \<Rightarrow> fold_res (\<lambda>item. traverseNodeParameters vp item) xs collectedArgs
      | JObj ps \<Rightarrow> fold_res (\<lambda>value. traverseNodeParameters vp value) (values_of ps) collectedArgs
      | _ \<Rightarrow> Inr collectedArgs)"
  by pat_completeness auto

lemma size_in_array: "x \<in> set xs \<Longrightarrow> size x < size (JArr xs)"
  by (simp add: size_list_estimation' less_Suc_eq_le)

lemma size_in_object: "(k, v) \<in> set ps \<Longrightarrow> size v < size (JObj ps)"
proof -
  assume "(k, v) \<in> set ps"
  then have "size_prod (\<lambda>_. 0) size (k, v) \<le> size_list (size_prod (\<lambda>_. 0) size) ps" by (intro size_list_estimation') auto
  then show ?thesis by simp
qed

termination traverseNodeParameters
  by (relation "measure (\<lambda>(vp, payload, args). size payload)") (auto dest!: size_in_array size_in_object)

declare traverseNodeParameters.simps [simp del]

definition index_suffix :: "nat \<Rightarrow> string" where
  "index_suffix i = ''['' @ nat_str i @ '']''"

text \<open>\<open>name\<close> is \<open>None\<close> when it is \<^verbatim>\<open>undefined\<close>, which prints as such before an index.\<close>

function traverseNodeParametersWithParamNames ::
  "value_parsers \<Rightarrow> jsval \<Rightarrow> string option \<Rightarrow> (string option \<times> FromAIArgument) list \<Rightarrow> (string option \<times> FromAIArgument) list res" where
  "traverseNodeParametersWithParamNames vp payload name collectedArgs =
     (case payload of
        JStr s \<Rightarrow> bind_res (extractFromAICalls vp s) (\<lambda>calls. Inr (fold (\<lambda>call. map_set name call) calls collectedArgs))
      | JArr xs \<Rightarrow> fold_res (\<lambda>(index, item). traverseNodeParametersWithParamNames vp item
          (Some ((case name of None \<Rightarrow> ''undefined'' | Some n \<Rightarrow> n) @ index_suffix index))) (enumerate 0 xs) collectedArgs
      | JObj ps \<Rightarrow> fold_res (\<lambda>(key, value). traverseNodeParametersWithParamNames vp value
          (Some (case name of None \<Rightarrow> key | Some n \<Rightarrow> if n = [] then key else n @ ''.'' @ key))) ps collectedArgs
      | _ \<Rightarrow> Inr collectedArgs)"
  by pat_completeness auto

termination traverseNodeParametersWithParamNames
  by (relation "measure (\<lambda>(vp, payload, name, args). size payload)")
    (auto simp: in_set_enumerate_eq intro: size_in_array [OF nth_mem, simplified] size_in_object [simplified])

declare traverseNodeParametersWithParamNames.simps [simp del]

section \<open>Expressions that contain only a call\<close>

definition FROM_AI_AUTO_GENERATED_MARKER :: string where
  "FROM_AI_AUTO_GENERATED_MARKER = ''/*n8n-auto-generated-fromAI-override*/''"

definition in_chars :: "nat \<Rightarrow> nat \<Rightarrow> char \<Rightarrow> bool" where
  "in_chars a b c \<longleftrightarrow> (let n = of_char c in a \<le> n \<and> n \<le> b)"

definition is_alnum :: "char \<Rightarrow> bool" where
  "is_alnum c \<longleftrightarrow> in_chars 97 122 c \<or> in_chars 65 90 c \<or> in_chars 48 57 c"

text \<open>\<^verbatim>\<open>/[a-zA-Z0-9_]/\<close> and \<^verbatim>\<open>/[a-zA-Z0-9.,\s-]/\<close>.\<close>

definition is_word_char :: "char \<Rightarrow> bool" where
  "is_word_char c \<longleftrightarrow> is_alnum c \<or> c = CHR ''_''"

definition is_literal_char :: "char \<Rightarrow> bool" where
  "is_literal_char c \<longleftrightarrow> is_alnum c \<or> c = CHR ''.'' \<or> c = CHR '','' \<or> is_space c \<or> c = CHR ''-''"

text \<open>
  The walk behind the opening parenthesis: the rest behind the closing one, or nothing when a character is rejected or the string
  ends. The first argument is the quote that is open, the second \<^verbatim>\<open>lastOutsideChar\<close>.
\<close>

fun walk_call :: "char option \<Rightarrow> char option \<Rightarrow> string \<Rightarrow> string option" where
  "walk_call quote lastOutsideChar [] = None"
| "walk_call (Some q) lastOutsideChar (c # cs) =
     (if c = backslash \<and> cs \<noteq> [] then walk_call (Some q) lastOutsideChar (tl cs)
      else if q = CHR 0x60 \<and> c = CHR ''$'' \<and> cs \<noteq> [] \<and> hd cs = CHR 0x7B then None
      else walk_call (if c = q then None else Some q) lastOutsideChar cs)"
| "walk_call None lastOutsideChar (c # cs) =
     (if c \<in> set quote_chars
      then if c = CHR 0x60 \<and> (case lastOutsideChar of None \<Rightarrow> False | Some l \<Rightarrow> is_word_char l) then None
           else walk_call (Some c) (Some c) cs
      else if c = CHR '')'' then Some cs
      else if \<not> is_literal_char c then None
      else walk_call None (if is_space c then lastOutsideChar else Some c) cs)"

definition strip_delimiters :: "string \<Rightarrow> string" where
  "strip_delimiters expr =
     (let str1 = (if starts_with ''='' expr then drop 1 expr else expr);
          str2 = trim str1;
          str3 = (if starts_with [CHR 0x7B, CHR 0x7B] str2 \<and> ends_with str2 [CHR 0x7D, CHR 0x7D]
                  then trim (take (length str2 - 4) (drop 2 str2)) else str2)
      in if starts_with FROM_AI_AUTO_GENERATED_MARKER str3 then trim (drop (length FROM_AI_AUTO_GENERATED_MARKER) str3) else str3)"

text \<open>The regular expression \<^verbatim>\<open>/^\$fromAI\s*\(/i\<close>: the rest after the match.\<close>

definition match_open :: "string \<Rightarrow> string option" where
  "match_open s =
     (if toLowerCase (take (length fromAI_name) s) = fromAI_name
      then (case dropWhile is_space (drop (length fromAI_name) s) of
              [] \<Rightarrow> None
            | c # cs \<Rightarrow> if c = CHR ''('' then Some cs else None)
      else None)"

definition isFromAIOnlyExpression :: "string \<Rightarrow> bool" where
  "isFromAIOnlyExpression expr \<longleftrightarrow>
     (case match_open (strip_delimiters expr) of
        None \<Rightarrow> False
      | Some rest \<Rightarrow> (case walk_call None None rest of None \<Rightarrow> False | Some remainder \<Rightarrow> trim remainder = []))"

definition isExpression :: "jsval \<Rightarrow> bool" where
  "isExpression v = (case v of JStr s \<Rightarrow> s \<noteq> [] \<and> hd s = CHR ''='' | _ \<Rightarrow> False)"

section \<open>Expressions in node descriptions\<close>

definition truthy_object :: "jsval \<Rightarrow> bool" where
  "truthy_object v = (case v of JArr _ \<Rightarrow> True | JObj _ \<Rightarrow> True | _ \<Rightarrow> False)"

definition has_prop :: "jsval \<Rightarrow> string \<Rightarrow> bool" where
  "has_prop v k \<longleftrightarrow> k \<in> set (keys_of (obj_entries v))"

definition add_default :: "jsval \<Rightarrow> string list \<Rightarrow> string list" where
  "add_default prop defaults =
     (case prop_get prop ''default'' of JStr s \<Rightarrow> if isExpression (JStr s) then set_add s defaults else defaults | _ \<Rightarrow> defaults)"

lemma size_prop_get: "prop_get v k \<noteq> JUndefined \<Longrightarrow> size (prop_get v k) < size v"
proof -
  assume "prop_get v k \<noteq> JUndefined"
  then obtain x where x: "map_of (obj_entries v) k = Some x" "prop_get v k = x" by (auto simp: prop_get_def split: option.splits)
  show ?thesis
  proof (cases v)
    case (JObj ps)
    with x map_of_SomeD size_in_object show ?thesis by (fastforce simp: obj_entries_def)
  next
    case (JArr xs)
    have "x \<in> set xs" using map_of_SomeD [OF x(1)] by (auto simp: JArr obj_entries_def in_set_enumerate_eq)
    then show ?thesis using size_in_array x(2) JArr by blast
  qed (use x in \<open>simp_all add: obj_entries_def\<close>)
qed

lemma size_array_prop: "x \<in> set (arr_elems (prop_get v k)) \<Longrightarrow> size x < size v"
proof -
  assume x: "x \<in> set (arr_elems (prop_get v k))"
  then obtain xs where a: "prop_get v k = JArr xs" "x \<in> set xs" by (cases "prop_get v k") (auto simp: arr_elems_def)
  then have "size x < size (prop_get v k)" using size_in_array by metis
  also have "\<dots> < size v" using size_prop_get [of v k] a by simp
  finally show ?thesis .
qed

text \<open>One property; an option with \<^verbatim>\<open>options\<close> of its own is a property again.\<close>

function collect_default :: "jsval \<Rightarrow> string list \<Rightarrow> string list" where
  "collect_default prop defaults =
     fold (\<lambda>option found.
         let found1 = (case prop_get option ''values'' of JArr values \<Rightarrow> fold (\<lambda>v. collect_default v) values found | _ \<Rightarrow> found)
         in if has_prop option ''type'' \<and> has_prop option ''default''
            then let found2 = add_default option found1
                 in if truthy_object (prop_get option ''options'') then collect_default option found2 else found2
            else found1)
       (arr_elems (prop_get prop ''options'')) (add_default prop defaults)"
  by pat_completeness auto

termination collect_default
proof (relation "measure (\<lambda>(prop, defaults). size prop)", goal_cases)
  case 1
  show ?case by simp
next
  case (2 p defaults opt found vs v)
  then have "v \<in> set (arr_elems (prop_get opt ''values''))" by (simp add: arr_elems_def)
  from size_array_prop [OF this] size_array_prop [OF 2(1)] show ?case by simp
next
  case 3
  then show ?case by (auto dest: size_array_prop)
qed

declare collect_default.simps [simp del]

definition collectExpressionDefaults :: "jsval list \<Rightarrow> string list" where
  "collectExpressionDefaults properties = fold collect_default properties []"

section \<open>Disallowed expressions\<close>

record ExpressionViolation =
  ev_path :: string
  ev_value :: string

function findDisallowedChatToolExpressions :: "jsval \<Rightarrow> string \<Rightarrow> string list option \<Rightarrow> ExpressionViolation list" where
  "findDisallowedChatToolExpressions payload path allowedExpressions =
     (case payload of
        JStr s \<Rightarrow> if isExpression (JStr s) \<and> \<not> isFromAIOnlyExpression s \<and> s \<notin> set (or_empty allowedExpressions)
                  then [\<lparr>ev_path = path, ev_value = s\<rparr>] else []
      | JArr xs \<Rightarrow> concat (map (\<lambda>(index, item). findDisallowedChatToolExpressions item (path @ index_suffix index) allowedExpressions) (enumerate 0 xs))
      | JObj ps \<Rightarrow> concat (map (\<lambda>(key, value).
          findDisallowedChatToolExpressions value (if path \<noteq> [] then path @ ''.'' @ key else key) allowedExpressions) ps)
      | _ \<Rightarrow> [])"
  by pat_completeness auto

termination findDisallowedChatToolExpressions
  by (relation "measure (\<lambda>(payload, path, allowed). size payload)")
    (auto simp: in_set_enumerate_eq intro: size_in_array [OF nth_mem, simplified] size_in_object [simplified])

declare findDisallowedChatToolExpressions.simps [simp del]

end
