(* ===== verification/From_AI_Correct.thy ===== *)
theory From_AI_Correct
  imports From_AI_Calls
begin

text \<open>
  Correctness of the parsing of \<^verbatim>\<open>$fromAI\<close> calls: a grammar for the calls that the test of the chat hub accepts, the expressions that it
  reports, and the round trip of a printed call.
\<close>

section \<open>The grammar of accepted arguments\<close>

text \<open>The inside of a string literal: escaped characters and others but the quote; in a template no \<^verbatim>\<open>${\<close> that is not escaped.\<close>

inductive quoted_body :: "char \<Rightarrow> string \<Rightarrow> bool" for q :: char where
  empty: "quoted_body q []"
| escaped: "quoted_body q s \<Longrightarrow> quoted_body q (backslash # c # s)"
| plain: "c \<noteq> q \<Longrightarrow> c \<noteq> backslash \<Longrightarrow> \<not> (q = CHR 0x60 \<and> c = CHR ''$'' \<and> starts_with [CHR 0x7B] s)
    \<Longrightarrow> quoted_body q s \<Longrightarrow> quoted_body q (c # s)"

text \<open>
  Arguments: characters of literals and string literals, no template directly behind a word, which would be a tagged template.
  The first argument is the last character that is not a space.
\<close>

inductive literal_args :: "char option \<Rightarrow> string \<Rightarrow> bool" where
  empty: "literal_args l []"
| plain: "is_literal_char c \<Longrightarrow> literal_args (if is_space c then l else Some c) s \<Longrightarrow> literal_args l (c # s)"
| quoted: "q \<in> set quote_chars \<Longrightarrow> \<not> (q = CHR 0x60 \<and> (\<exists>w. l = Some w \<and> is_word_char w)) \<Longrightarrow> quoted_body q body
    \<Longrightarrow> literal_args (Some q) s \<Longrightarrow> literal_args l (q # body @ q # s)"

inductive_simps quoted_body_simps: "quoted_body q (c # s)"

definition literal_call :: "string \<Rightarrow> bool" where
  "literal_call expr \<longleftrightarrow> (\<exists>args post. match_open (strip_delimiters expr) = Some (args @ CHR '')'' # post) \<and> literal_args None args \<and> trim post = [])"

lemma quote_not_backslash: "q \<in> set quote_chars \<Longrightarrow> q \<noteq> backslash"
  by (auto simp: quote_chars_def backslash_def)

lemma literal_char_props:
  assumes "is_literal_char c"
  shows "c \<notin> set quote_chars" "c \<noteq> CHR '')''" "c \<noteq> CHR ''(''" "c \<noteq> backslash"
  using assms by (auto simp: is_literal_char_def is_alnum_def in_chars_def is_space_def quote_chars_def backslash_def Let_def)

section \<open>The walk accepts the grammar\<close>

lemma walk_body: "quoted_body q b \<Longrightarrow> q \<in> set quote_chars \<Longrightarrow> walk_call (Some q) l (b @ q # rest) = walk_call None l rest"
proof (induction rule: quoted_body.induct)
  case empty
  then show ?case using quote_not_backslash by (auto simp: quote_chars_def)
next
  case (plain c s)
  have "hd (s @ q # rest) \<noteq> CHR 0x7B" if "q = CHR 0x60" "c = CHR ''$''"
    using plain.hyps(3) that by (cases s) (auto simp: starts_with_def)
  with plain show ?case by auto
qed simp

lemma walk_body_Some:
  "walk_call (Some q) l str = Some r \<Longrightarrow> q \<in> set quote_chars
     \<Longrightarrow> \<exists>b rest. str = b @ q # rest \<and> quoted_body q b \<and> walk_call None l rest = Some r"
proof (induction "length str" arbitrary: str rule: less_induct)
  case less
  then obtain c cs where str: "str = c # cs" by (cases str) auto
  show ?case
  proof (cases "c = backslash \<and> cs \<noteq> []")
    case True
    then obtain d ds where cs: "cs = d # ds" by (cases cs) auto
    with less.prems True str have "walk_call (Some q) l ds = Some r" by simp
    from less.hyps [OF _ this less.prems(2)] str cs obtain b rest where "ds = b @ q # rest" "quoted_body q b" "walk_call None l rest = Some r" by auto
    then have "str = (backslash # d # b) @ q # rest \<and> quoted_body q (backslash # d # b) \<and> walk_call None l rest = Some r"
      using True by (simp add: str cs quoted_body.escaped)
    then show ?thesis by blast
  next
    case no_escape: False
    with less.prems(1) str have template: "\<not> (q = CHR 0x60 \<and> c = CHR ''$'' \<and> cs \<noteq> [] \<and> hd cs = CHR 0x7B)"
      and step: "walk_call (if c = q then None else Some q) l cs = Some r" by (auto split: if_splits)
    show ?thesis
    proof (cases "c = q")
      case True
      with step have "str = [] @ q # cs \<and> quoted_body q [] \<and> walk_call None l cs = Some r" by (simp add: str quoted_body.empty)
      then show ?thesis by blast
    next
      case False
      with step have "walk_call (Some q) l cs = Some r" by simp
      from less.hyps [OF _ this less.prems(2)] str obtain b rest where b: "cs = b @ q # rest" "quoted_body q b" "walk_call None l rest = Some r" by auto
      have "c \<noteq> backslash" using no_escape b(1) by auto
      moreover have "\<not> (q = CHR 0x60 \<and> c = CHR ''$'' \<and> starts_with [CHR 0x7B] b)"
        using template b(1) by (cases b) (auto simp: starts_with_def)
      ultimately have "str = (c # b) @ q # rest \<and> quoted_body q (c # b) \<and> walk_call None l rest = Some r"
        using b False by (simp add: str quoted_body.plain)
      then show ?thesis by blast
    qed
  qed
qed

lemma walk_args: "literal_args l a \<Longrightarrow> walk_call None l (a @ CHR '')'' # r) = Some r"
proof (induction rule: literal_args.induct)
  case (empty l)
  then show ?case by (simp add: quote_chars_def)
next
  case (plain c l s)
  then show ?case using literal_char_props [OF plain.hyps(1)] by simp
next
  case (quoted q l body s)
  then show ?case using walk_body [OF quoted.hyps(3,1), of "Some q" "s @ CHR '')'' # r"] by (auto split: option.splits)
qed

lemma walk_args_Some: "walk_call None l str = Some r \<Longrightarrow> \<exists>a. str = a @ CHR '')'' # r \<and> literal_args l a"
proof (induction "length str" arbitrary: str l rule: less_induct)
  case less
  then obtain c cs where str: "str = c # cs" by (cases str) auto
  show ?case
  proof (cases "c \<in> set quote_chars")
    case True
    with less.prems str have tag: "\<not> (c = CHR 0x60 \<and> (\<exists>w. l = Some w \<and> is_word_char w))" and "walk_call (Some c) (Some c) cs = Some r"
      by (auto split: if_splits option.splits)
    from walk_body_Some [OF this(2) True] obtain b rest where b: "cs = b @ c # rest" "quoted_body c b" "walk_call None (Some c) rest = Some r" by blast
    from less.hyps [OF _ b(3)] str b(1) obtain a where "rest = a @ CHR '')'' # r" "literal_args (Some c) a" by auto
    with b tag True have "str = (c # b @ c # a) @ CHR '')'' # r \<and> literal_args l (c # b @ c # a)" by (simp add: str literal_args.quoted)
    then show ?thesis by blast
  next
    case outside: False
    show ?thesis
    proof (cases "c = CHR '')''")
      case True
      with less.prems str outside have "str = [] @ CHR '')'' # r \<and> literal_args l []" by (simp add: literal_args.empty)
      then show ?thesis by blast
    next
      case False
      with less.prems str outside have "is_literal_char c" "walk_call None (if is_space c then l else Some c) cs = Some r"
        by (auto split: if_splits)
      from less.hyps [OF _ this(2)] str obtain a where "cs = a @ CHR '')'' # r" "literal_args (if is_space c then l else Some c) a" by auto
      with \<open>is_literal_char c\<close> have "str = (c # a) @ CHR '')'' # r \<and> literal_args l (c # a)" by (simp add: str literal_args.plain)
      then show ?thesis by blast
    qed
  qed
qed

lemma isFromAIOnlyExpression_spec: "isFromAIOnlyExpression expr \<longleftrightarrow> literal_call expr"
proof -
  have walk: "walk_call None None rest = Some r \<longleftrightarrow> (\<exists>a. rest = a @ CHR '')'' # r \<and> literal_args None a)" for rest r
    using walk_args walk_args_Some by blast
  have "isFromAIOnlyExpression expr
      \<longleftrightarrow> (\<exists>rest r. match_open (strip_delimiters expr) = Some rest \<and> walk_call None None rest = Some r \<and> trim r = [])"
    unfolding isFromAIOnlyExpression_def by (auto split: option.splits)
  then show ?thesis unfolding literal_call_def walk by auto
qed

section \<open>The scanner agrees with the walk\<close>

lemma scan_body: "quoted_body q b \<Longrightarrow> q \<noteq> backslash \<Longrightarrow> scan_call (Some q) (Suc n) acc (b @ q # rest) = scan_call None (Suc n) (acc @ b @ [q]) rest"
  by (induction arbitrary: acc rule: quoted_body.induct) simp_all

lemma scan_args: "literal_args l a \<Longrightarrow> scan_call None (Suc 0) acc (a @ CHR '')'' # r) = Some (acc @ a)"
proof (induction arbitrary: acc rule: literal_args.induct)
  case (empty l)
  then show ?case by (simp add: quote_chars_def)
next
  case (plain c l s)
  then show ?case using literal_char_props [OF plain.hyps(1)] by simp
next
  case (quoted q l body s)
  then show ?case using scan_body [OF quoted.hyps(3) quote_not_backslash [OF quoted.hyps(1)], of 0 "acc @ [q]" "s @ CHR '')'' # r"] by simp
qed

section \<open>Disallowed expressions\<close>

text \<open>The strings in a value.\<close>

inductive string_in :: "string \<Rightarrow> jsval \<Rightarrow> bool" where
  here: "string_in s (JStr s)"
| element: "x \<in> set xs \<Longrightarrow> string_in s x \<Longrightarrow> string_in s (JArr xs)"
| property: "(k, x) \<in> set ps \<Longrightarrow> string_in s x \<Longrightarrow> string_in s (JObj ps)"

inductive_simps string_in_simps:
  "string_in s (JStr t)" "string_in s (JArr xs)" "string_in s (JObj ps)" "string_in s (JNum n)" "string_in s (JBool b)" "string_in s JNull" "string_in s JUndefined"

lemma violations_of:
  "ev_value ` set (findDisallowedChatToolExpressions payload path allowed)
     = {s. string_in s payload \<and> isExpression (JStr s) \<and> \<not> isFromAIOnlyExpression s \<and> s \<notin> set (or_empty allowed)}"
proof (induction payload path allowed rule: findDisallowedChatToolExpressions.induct)
  case (1 payload path allowed)
  show ?case
  proof (cases payload)
    case (JArr xs)
    have IH: "ev_value ` set (findDisallowedChatToolExpressions x (path @ index_suffix i) allowed)
       = {s. string_in s x \<and> isExpression (JStr s) \<and> \<not> isFromAIOnlyExpression s \<and> s \<notin> set (or_empty allowed)}" if "(i, x) \<in> set (enumerate 0 xs)" for i x
      using "1.IH"(1) [OF JArr that refl] by simp
    have "ev_value ` set (findDisallowedChatToolExpressions payload path allowed)
       = (\<Union>e \<in> set (enumerate 0 xs). ev_value ` set (findDisallowedChatToolExpressions (snd e) (path @ index_suffix (fst e)) allowed))"
      by (simp add: findDisallowedChatToolExpressions.simps [of "JArr xs"] JArr image_UN case_prod_unfold)
    also have "\<dots> = (\<Union>e \<in> set (enumerate 0 xs). {s. string_in s (snd e) \<and> isExpression (JStr s) \<and> \<not> isFromAIOnlyExpression s \<and> s \<notin> set (or_empty allowed)})"
      by (intro SUP_cong refl IH) simp
    also have "\<dots> = (\<Union>x \<in> snd ` set (enumerate 0 xs). {s. string_in s x \<and> isExpression (JStr s) \<and> \<not> isFromAIOnlyExpression s \<and> s \<notin> set (or_empty allowed)})"
      by simp
    also have "snd ` set (enumerate 0 xs) = set xs" by (metis map_snd_enumerate set_map)
    finally show ?thesis by (auto simp: JArr string_in_simps)
  next
    case (JObj ps)
    let ?path = "\<lambda>k. if path \<noteq> [] then path @ ''.'' @ k else k"
    have IH: "ev_value ` set (findDisallowedChatToolExpressions x (?path k) allowed)
       = {s. string_in s x \<and> isExpression (JStr s) \<and> \<not> isFromAIOnlyExpression s \<and> s \<notin> set (or_empty allowed)}" if "(k, x) \<in> set ps" for k x
      using "1.IH"(2) [OF JObj that refl] by simp
    have "ev_value ` set (findDisallowedChatToolExpressions payload path allowed)
       = (\<Union>e \<in> set ps. ev_value ` set (findDisallowedChatToolExpressions (snd e) (?path (fst e)) allowed))"
      by (simp add: findDisallowedChatToolExpressions.simps [of "JObj ps"] JObj image_UN case_prod_unfold)
    also have "\<dots> = (\<Union>e \<in> set ps. {s. string_in s (snd e) \<and> isExpression (JStr s) \<and> \<not> isFromAIOnlyExpression s \<and> s \<notin> set (or_empty allowed)})"
      by (intro SUP_cong refl IH) simp
    finally show ?thesis by (force simp: JObj string_in_simps)
  qed (auto simp: findDisallowedChatToolExpressions.simps [of "JStr _"] findDisallowedChatToolExpressions.simps [of "JNum _"]
      findDisallowedChatToolExpressions.simps [of "JBool _"] findDisallowedChatToolExpressions.simps [of JNull]
      findDisallowedChatToolExpressions.simps [of JUndefined] string_in_simps isExpression_def)
qed

section \<open>Printed calls\<close>

definition escape_literal :: "string \<Rightarrow> string" where
  "escape_literal s = concat (map (\<lambda>c. if c = CHR 0x22 \<or> c = backslash then [backslash, c] else [c]) s)"

definition literal :: "string \<Rightarrow> string" where
  "literal s = CHR 0x22 # escape_literal s @ [CHR 0x22]"

definition print_args :: "string \<Rightarrow> string \<Rightarrow> string \<Rightarrow> string" where
  "print_args k d t = literal k @ '', '' @ literal d @ '', '' @ literal t"

definition print_call :: "string \<Rightarrow> string \<Rightarrow> string \<Rightarrow> string" where
  "print_call k d t = ''$fromAI('' @ print_args k d t @ '')''"

lemma quoted_escape: "quoted_body (CHR 0x22) (escape_literal s)"
proof (induction s)
  case Nil
  show ?case by (simp add: escape_literal_def quoted_body.empty)
next
  case (Cons c s)
  show ?case
  proof (cases "c = CHR 0x22 \<or> c = backslash")
    case True
    then have "escape_literal (c # s) = backslash # c # escape_literal s" by (simp add: escape_literal_def)
    then show ?thesis using Cons by (simp add: quoted_body.escaped)
  next
    case False
    then have "escape_literal (c # s) = c # escape_literal s" by (simp add: escape_literal_def)
    then show ?thesis using Cons False by (simp add: quoted_body.plain)
  qed
qed

lemma literal_args_literal: "literal_args (Some (CHR 0x22)) s \<Longrightarrow> literal_args l (literal k @ s)"
  using literal_args.quoted [of "CHR 0x22" l "escape_literal k" s] quoted_escape [of k]
  by (simp add: literal_def quote_chars_def)

lemma literal_args_sep: "literal_args (Some (CHR '','')) s \<Longrightarrow> literal_args l ('', '' @ s)"
  by (auto simp: is_literal_char_def is_space_def intro!: literal_args.plain)

lemma literal_args_print: "literal_args l (print_args k d t)"
proof -
  have "literal_args (Some (CHR '','')) (literal t @ [])" by (intro literal_args_literal literal_args.empty)
  then have "literal_args (Some (CHR 0x22)) ('', '' @ literal t)" using literal_args_sep by simp
  then have "literal_args (Some (CHR '','')) (literal d @ '', '' @ literal t)" by (rule literal_args_literal)
  then have "literal_args (Some (CHR 0x22)) ('', '' @ literal d @ '', '' @ literal t)" by (rule literal_args_sep)
  then show ?thesis unfolding print_args_def by (rule literal_args_literal)
qed

lemma split_escape: "split_args (Some (CHR 0x22)) False cur args (escape_literal s @ rest) = split_args (Some (CHR 0x22)) False (cur @ s) args rest"
  by (induction s arbitrary: cur) (auto simp: escape_literal_def backslash_def)

lemma split_literal: "split_args None False cur args (literal s @ rest) = split_args None False (cur @ CHR 0x22 # s @ [CHR 0x22]) args rest"
  using split_escape [of "cur @ [CHR 0x22]" args s "CHR 0x22 # rest"]
  by (simp add: literal_def quote_chars_def backslash_def)

lemma trim_quoted:
  "trim (CHR 0x22 # s @ [CHR 0x22]) = CHR 0x22 # s @ [CHR 0x22]" "trim (CHR '' '' # CHR 0x22 # s @ [CHR 0x22]) = CHR 0x22 # s @ [CHR 0x22]"
  by (simp_all add: trim_def is_space_def)

lemma split_print:
  "split_args None False [] [] (print_args k d t) = map (\<lambda>s. CHR 0x22 # s @ [CHR 0x22]) [k, d, t]"
  using split_literal [of "[CHR '' '']" "[CHR 0x22 # k @ [CHR 0x22], CHR 0x22 # d @ [CHR 0x22]]" t "[]"]
  by (simp add: print_args_def split_literal trim_quoted quote_chars_def backslash_def)

lemma unescape_id: "backslash \<notin> set s \<Longrightarrow> unescape x s = s"
  by (induction x s rule: unescape.induct) auto

lemma clean_quoted: "backslash \<notin> set s \<Longrightarrow> clean_arg (CHR 0x22 # s @ [CHR 0x22]) = s"
  by (simp add: clean_arg_def trim_quoted surrounded_def unescape_id butlast_append)

lemma parseArguments_print:
  assumes "backslash \<notin> set k \<union> set d" and "t \<in> {''string'', ''number'', ''boolean'', ''json''}"
  shows "parseArguments vp (print_args k d t) = Inr \<lparr>fa_key = k, fa_description = Some d, fa_type = t, fa_defaultValue = None\<rparr>"
proof -
  have "backslash \<notin> set t" "isFromAIArgumentType t" using assms(2) by (auto simp: backslash_def isFromAIArgumentType_def toLowerCase_def is_upper_def)
  moreover have "map clean_arg (split_args None False [] [] (print_args k d t)) = [k, d, t]"
    using assms(1) \<open>backslash \<notin> set t\<close> by (simp add: split_print clean_quoted)
  ultimately show ?thesis by (simp add: parseArguments_def arr_at_def parseDefaultValue_def)
qed

lemma match_call_dollar: "c \<noteq> CHR ''$'' \<Longrightarrow> match_call (c # cs) = None"
proof -
  assume c: "c \<noteq> CHR ''$''"
  have "char_of (of_char c + (32 :: nat)) \<noteq> CHR ''$''" if "is_upper c"
  proof
    assume eq: "char_of (of_char c + (32 :: nat)) = CHR ''$''"
    have "of_char c + (32 :: nat) < 256" using that by (auto simp: is_upper_def Let_def)
    then have "of_char (char_of (of_char c + (32 :: nat)) :: char) = of_char c + (32 :: nat)" by simp
    with eq have "of_char c + (32 :: nat) = 36" by simp
    then have "of_char c = (4 :: nat)" by simp
    with that show False by (simp add: is_upper_def)
  qed
  with c show ?thesis by (simp add: match_call_def fromAI_name_def toLowerCase_def)
qed

lemma no_calls: "CHR ''$'' \<notin> set s \<Longrightarrow> extractFromAICalls vp s = Inr []"
  by (induction s) (auto simp: extractFromAICalls.simps [of vp "[]"] extractFromAICalls.simps [of vp "_ # _"] match_call_dollar)

lemma skip_prefix: "CHR ''$'' \<notin> set pre \<Longrightarrow> extractFromAICalls vp (pre @ s) = extractFromAICalls vp s"
  by (induction pre) (auto simp: extractFromAICalls.simps [of vp "_ # _"] match_call_dollar)

lemma match_print: "match_call (print_call k d t @ post) = Some (print_args k d t @ CHR '')'' # post)"
proof -
  have "toLowerCase ''$fromAI'' = fromAI_name" by code_simp
  then show ?thesis by (simp add: match_call_def print_call_def print_args_def literal_def fromAI_name_def is_space_def)
qed

lemma extract_print:
  assumes k: "backslash \<notin> set k \<union> set d" "t \<in> {''string'', ''number'', ''boolean'', ''json''}"
    and "CHR ''$'' \<notin> set pre \<union> set k \<union> set d \<union> set post"
  shows "extractFromAICalls vp (pre @ print_call k d t @ post) = Inr [\<lparr>fa_key = k, fa_description = Some d, fa_type = t, fa_defaultValue = None\<rparr>]"
proof -
  have esc: "CHR ''$'' \<notin> set (escape_literal s)" if "CHR ''$'' \<notin> set s" for s
    using that by (auto simp: escape_literal_def backslash_def split: if_splits)
  have "CHR ''$'' \<notin> set t" using k(2) by auto
  with assms(3) have "CHR ''$'' \<notin> set (print_args k d t @ CHR '')'' # post)" by (simp add: print_args_def literal_def esc)
  then have "extractFromAICalls vp (print_args k d t @ CHR '')'' # post) = Inr []" by (rule no_calls)
  moreover have "parse_call vp (print_args k d t @ CHR '')'' # post) = Inr \<lparr>fa_key = k, fa_description = Some d, fa_type = t, fa_defaultValue = None\<rparr>"
    using scan_args [OF literal_args_print, of "[]" k d t post] parseArguments_print [OF k] by (simp add: parse_call_def)
  moreover obtain cs where "print_call k d t @ post = CHR ''$'' # cs" by (simp add: print_call_def)
  ultimately have "extractFromAICalls vp (print_call k d t @ post) = Inr [\<lparr>fa_key = k, fa_description = Some d, fa_type = t, fa_defaultValue = None\<rparr>]"
    using match_print [of k d t post] by (simp add: extractFromAICalls.simps [of vp "_ # _"])
  then show ?thesis using assms(3) by (simp add: skip_prefix)
qed

section \<open>Properties\<close>

text \<open>
  C19. Whatever a parameter value contains, \<^verbatim>\<open>findDisallowedChatToolExpressions\<close> reports exactly the strings in it that start with \<^verbatim>\<open>=\<close>, are
  not among the allowed ones and are not a single call of \<^verbatim>\<open>$fromAI\<close> whose arguments, up to the parenthesis that closes it, consist of string
  literals, without interpolation and without a tag, and of letters, digits, dots, commas, hyphens and spaces.
\<close>

theorem findDisallowedChatToolExpressions_correct:
  "ev_value ` set (findDisallowedChatToolExpressions payload path allowed)
     = {s. string_in s payload \<and> isExpression (JStr s) \<and> \<not> literal_call s \<and> s \<notin> set (or_empty allowed)}"
  unfolding violations_of isFromAIOnlyExpression_spec ..

text \<open>
  C20. A call written with escaped string literals is read back: in any text without another dollar sign \<^verbatim>\<open>extractFromAICalls\<close> returns exactly
  the call with its key, description and type, when key and description have no backslash.
\<close>

theorem extractFromAICalls_roundtrip:
  assumes "backslash \<notin> set k \<union> set d" and "t \<in> {''string'', ''number'', ''boolean'', ''json''}"
    and "CHR ''$'' \<notin> set pre \<union> set k \<union> set d \<union> set post"
  shows "extractFromAICalls vp (pre @ print_call k d t @ post) = Inr [\<lparr>fa_key = k, fa_description = Some d, fa_type = t, fa_defaultValue = None\<rparr>]"
  by (rule extract_print [OF assms])

theorem extractFromAICalls_roundtrip_witness:
  "extractFromAICalls \<lparr>vp_Number = (\<lambda>_. None), vp_jsonParse = (\<lambda>_. None)\<rparr> (''={{ '' @ print_call ''a, (b'' [CHR 0x22, CHR ''x''] ''number'' @ '' }}'')
     = Inr [\<lparr>fa_key = ''a, (b'', fa_description = Some [CHR 0x22, CHR ''x''], fa_type = ''number'', fa_defaultValue = None\<rparr>]"
  by (rule extractFromAICalls_roundtrip) (simp_all add: backslash_def)

text \<open>
  Two things in this file are not as its comments say. A name with dots passes as a literal argument, although only literals are meant
  to be accepted: \<^verbatim>\<open>$fromAI(process.env.KEY)\<close>. And backslashes are removed twice: a printed key of two backslashes is read as one.
\<close>

lemma fromAI_literals_too_wide:
  "isFromAIOnlyExpression ''={{ $fromAI(process.env.KEY) }}''
   \<and> extractFromAICalls vp (print_call [backslash, backslash] ''d'' ''string'')
       = Inr [\<lparr>fa_key = [backslash], fa_description = Some ''d'', fa_type = ''string'', fa_defaultValue = None\<rparr>]"
proof
  show "isFromAIOnlyExpression ''={{ $fromAI(process.env.KEY) }}''" by code_simp
  have "parseArguments vp (print_args [backslash, backslash] ''d'' ''string'')
      = Inr \<lparr>fa_key = [backslash], fa_description = Some ''d'', fa_type = ''string'', fa_defaultValue = None\<rparr>"
  proof -
    have "map clean_arg (map (\<lambda>s. CHR 0x22 # s @ [CHR 0x22]) [[backslash, backslash], ''d'', ''string'']) = [[backslash], ''d'', ''string'']"
      by code_simp
    moreover have "isFromAIArgumentType ''string''" by code_simp
    ultimately show ?thesis unfolding parseArguments_def split_print by (simp add: arr_at_def parseDefaultValue_def)
  qed
  moreover have "extractFromAICalls vp (print_args [backslash, backslash] ''d'' ''string'' @ '')'') = Inr []"
    by (rule no_calls) (simp add: print_args_def literal_def escape_literal_def backslash_def)
  ultimately have "extractFromAICalls vp (print_call [backslash, backslash] ''d'' ''string'' @ [])
      = Inr [\<lparr>fa_key = [backslash], fa_description = Some ''d'', fa_type = ''string'', fa_defaultValue = None\<rparr>]"
    using match_print [of "[backslash, backslash]" "''d''" "''string''" "[]"] scan_args [OF literal_args_print, of "[]" "[backslash, backslash]" "''d''" "''string''" "[]"]
    by (simp add: print_call_def extractFromAICalls.simps [of vp "_ # _"] parse_call_def)
  then show "extractFromAICalls vp (print_call [backslash, backslash] ''d'' ''string'')
       = Inr [\<lparr>fa_key = [backslash], fa_description = Some ''d'', fa_type = ''string'', fa_defaultValue = None\<rparr>]" by simp
qed

end
