(* ===== verification/Concurrency_Control.thy ===== *)
theory Concurrency_Control
  imports N8n_Prelude
begin

text \<open>
  Concurrency control of executions (\<^verbatim>\<open>packages/cli/src/concurrency\<close>): the queue of throttled
  executions, the service that keeps one queue for production and one for evaluation executions,
  the reservation of capacity, and the evaluation limit
  (\<^verbatim>\<open>evaluation.ee/evaluation-concurrency.helper.ts\<close>).

  The promise that \<^verbatim>\<open>enqueue\<close> returns is the execution itself: \<open>enqueue\<close> answers whether the
  execution goes on at once, and the operations that resolve a promise answer which waiting
  execution they let go on. The queue as a counting semaphore: without removals at most \<open>limit\<close>
  executions run, a slot is idle only if nobody waits, and executions go on in the order in which
  they were throttled. \<^verbatim>\<open>remove\<close> breaks the limit.
\<close>

section \<open>The queue\<close>

record ConcurrencyQueue =
  cq_queue :: "string list"
  cq_capacity :: int

definition new_queue :: "int \<Rightarrow> ConcurrencyQueue" where
  "new_queue capacity = \<lparr>cq_queue = [], cq_capacity = capacity\<rparr>"

definition enqueue :: "string \<Rightarrow> ConcurrencyQueue \<Rightarrow> ConcurrencyQueue \<times> bool" where
  "enqueue executionId q =
     (let q1 = q\<lparr>cq_capacity := cq_capacity q - 1\<rparr>
      in if cq_capacity q1 < 0 then (q1\<lparr>cq_queue := cq_queue q1 @ [executionId]\<rparr>, False)
         else (q1, True))"

definition currentCapacity :: "ConcurrencyQueue \<Rightarrow> int" where
  "currentCapacity q = cq_capacity q"

definition resolveNext :: "ConcurrencyQueue \<Rightarrow> ConcurrencyQueue \<times> string option" where
  "resolveNext q =
     (case cq_queue q of
        [] \<Rightarrow> (q, None)
      | executionId # rest \<Rightarrow> (q\<lparr>cq_queue := rest\<rparr>, Some executionId))"

definition dequeue :: "ConcurrencyQueue \<Rightarrow> ConcurrencyQueue \<times> string option" where
  "dequeue q = resolveNext (q\<lparr>cq_capacity := cq_capacity q + 1\<rparr>)"

definition remove_queued :: "string \<Rightarrow> ConcurrencyQueue \<Rightarrow> ConcurrencyQueue \<times> string option" where
  "remove_queued executionId q =
     (if executionId \<in> set (cq_queue q) then
        resolveNext (q\<lparr>cq_queue := remove1 executionId (cq_queue q), cq_capacity := cq_capacity q + 1\<rparr>)
      else (q, None))"

definition getAll :: "ConcurrencyQueue \<Rightarrow> string list" where
  "getAll q = set_of (cq_queue q)"

definition has_queued :: "string \<Rightarrow> ConcurrencyQueue \<Rightarrow> bool" where
  "has_queued executionId q \<longleftrightarrow> executionId \<in> set (cq_queue q)"

section \<open>The limit of evaluation executions\<close>

text \<open>
  \<open>envSet\<close>: the environment variable is defined; \<open>quota\<close>: the numeric license value, \<open>None\<close> if
  the license has none; \<open>planName\<close>: the plan of the license, which is no name of a property that objects inherit (the test by
  \<^verbatim>\<open>in\<close> would accept such a name).
\<close>

record concurrency_config =
  cc_queueMode :: bool
  cc_productionLimit :: int
  cc_evaluationLimit :: int
  cc_envSet :: bool
  cc_quota :: "int option"
  cc_planName :: string

definition EVALUATION_TIER_DEFAULTS :: "(string \<times> int) list" where
  "EVALUATION_TIER_DEFAULTS = [(''Community'', 1), (''Pro'', 1), (''Business'', 3), (''Enterprise'', 5)]"

definition readLicenseQuota :: "concurrency_config \<Rightarrow> int option" where
  "readLicenseQuota cfg = (if cc_quota cfg = Some 0 then None else cc_quota cfg)"

definition resolveEvaluationConcurrencyLimit :: "concurrency_config \<Rightarrow> int" where
  "resolveEvaluationConcurrencyLimit cfg =
     (if cc_envSet cfg then cc_evaluationLimit cfg
      else case readLicenseQuota cfg of
             Some fromLicense \<Rightarrow> fromLicense
           | None \<Rightarrow> (case map_of EVALUATION_TIER_DEFAULTS (cc_planName cfg) of Some l \<Rightarrow> l | None \<Rightarrow> 1))"

datatype limit_source = Env | License | Tier

definition getEvaluationConcurrencyLimitSource :: "concurrency_config \<Rightarrow> limit_source" where
  "getEvaluationConcurrencyLimitSource cfg =
     (if cc_envSet cfg then Env else if readLicenseQuota cfg \<noteq> None then License else Tier)"

section \<open>The service\<close>

datatype WorkflowExecuteMode =
    Cli | ErrorMode | Integrated | Internal | Manual | Retry | Trigger | Webhook | Evaluation | Chat | Agent

datatype ConcurrencyQueueType = ProductionQueue | EvaluationQueue

text \<open>\<open>cs_queues\<close> is \<open>None\<close> while the property is unset (the constructor returns early in queue mode).\<close>

record ConcurrencyControlService =
  cs_isEnabled :: bool
  cs_limits :: "(ConcurrencyQueueType \<times> int) list"
  cs_queues :: "(ConcurrencyQueueType \<times> ConcurrencyQueue) list option"
  cs_evalQueueResolved :: bool

definition normaliseLimit :: "int \<Rightarrow> int res" where
  "normaliseLimit limit =
     (if limit = 0 then Inl InvalidConcurrencyLimitError else Inr (if limit < - 1 then - 1 else limit))"

definition new_service :: "concurrency_config \<Rightarrow> ConcurrencyControlService res" where
  "new_service cfg =
     bind_res (normaliseLimit (cc_productionLimit cfg)) (\<lambda>normalisedProduction.
     bind_res (normaliseLimit (cc_evaluationLimit cfg)) (\<lambda>normalisedEvaluation.
       let limits = [(ProductionQueue, normalisedProduction), (EvaluationQueue, normalisedEvaluation)] in
       if cc_queueMode cfg then
         Inr \<lparr>cs_isEnabled = False, cs_limits = limits, cs_queues = None, cs_evalQueueResolved = False\<rparr>
       else
         let queues = (if normalisedProduction > 0 then [(ProductionQueue, new_queue normalisedProduction)] else []);
             queues' = (if normalisedEvaluation > 0
                        then map_set EvaluationQueue (new_queue normalisedEvaluation) queues else queues)
         in Inr \<lparr>cs_isEnabled = length queues' > 0, cs_limits = limits, cs_queues = Some queues',
                 cs_evalQueueResolved = normalisedEvaluation > 0\<rparr>))"

text \<open>
  \<^verbatim>\<open>ensureEvalQueueResolved\<close>: the new state and whether it threw. \<^verbatim>\<open>this.queues.set\<close> on the unset
  property cannot happen, since the method returns before it in queue mode.
\<close>

definition ensureEvalQueueResolved ::
  "concurrency_config \<Rightarrow> ConcurrencyControlService \<Rightarrow> ConcurrencyControlService \<times> unit res" where
  "ensureEvalQueueResolved cfg s =
     (if cs_evalQueueResolved s then (s, Inr ())
      else let s1 = s\<lparr>cs_evalQueueResolved := True\<rparr> in
        if cc_queueMode cfg then (s1, Inr ())
        else case normaliseLimit (resolveEvaluationConcurrencyLimit cfg) of
            Inl e \<Rightarrow> (s1, Inl e)
          | Inr normalised \<Rightarrow>
              let s2 = s1\<lparr>cs_limits := map_set EvaluationQueue normalised (cs_limits s1)\<rparr> in
              if normalised > 0 then
                case cs_queues s2 of
                  None \<Rightarrow> (s2, Inl JsTypeError)
                | Some queues \<Rightarrow>
                    (s2\<lparr>cs_queues := Some (map_set EvaluationQueue (new_queue normalised) queues),
                        cs_isEnabled := True\<rparr>, Inr ())
              else (s2, Inr ()))"

definition has_execution :: "string \<Rightarrow> ConcurrencyControlService \<Rightarrow> bool res" where
  "has_execution executionId s =
     (if \<not> cs_isEnabled s then Inr False
      else case cs_queues s of
             None \<Rightarrow> Inl JsTypeError
           | Some queues \<Rightarrow> Inr (list_ex (\<lambda>(_, queue). has_queued executionId queue) queues))"

definition queue_type :: "WorkflowExecuteMode \<Rightarrow> ConcurrencyQueueType option res" where
  "queue_type mode =
     (if mode \<in> {ErrorMode, Integrated, Cli, Internal, Manual, Retry} then Inr None
      else if mode \<in> {Webhook, Trigger, Chat} then Inr (Some ProductionQueue)
      else if mode = Evaluation then Inr (Some EvaluationQueue)
      else Inl UnknownExecutionModeError)"

definition getQueue ::
  "WorkflowExecuteMode \<Rightarrow> ConcurrencyControlService \<Rightarrow> (ConcurrencyQueueType \<times> ConcurrencyQueue) option res" where
  "getQueue mode s =
     bind_res (queue_type mode) (\<lambda>type.
       case type of
         None \<Rightarrow> Inr None
       | Some t \<Rightarrow> (case cs_queues s of
                      None \<Rightarrow> Inl JsTypeError
                    | Some queues \<Rightarrow> Inr (map_option (\<lambda>q. (t, q)) (map_get queues t))))"

text \<open>
  The common shape of \<^verbatim>\<open>throttle\<close>, \<^verbatim>\<open>release\<close> and \<^verbatim>\<open>remove\<close>: resolve the evaluation queue, return
  if control is disabled or the mode is unlimited, otherwise operate on the queue of the mode.
\<close>

definition on_queue ::
  "concurrency_config \<Rightarrow> WorkflowExecuteMode \<Rightarrow> (ConcurrencyQueue \<Rightarrow> ConcurrencyQueue \<times> 'a) \<Rightarrow> 'a
     \<Rightarrow> ConcurrencyControlService \<Rightarrow> ConcurrencyControlService \<times> 'a res" where
  "on_queue cfg mode f dflt s =
     (let (s1, r) = (if mode = Evaluation then ensureEvalQueueResolved cfg s else (s, Inr ())) in
      case r of
        Inl e \<Rightarrow> (s1, Inl e)
      | Inr _ \<Rightarrow>
          if \<not> cs_isEnabled s1 then (s1, Inr dflt)
          else case getQueue mode s1 of
                 Inl e \<Rightarrow> (s1, Inl e)
               | Inr None \<Rightarrow> (s1, Inr dflt)
               | Inr (Some (t, q)) \<Rightarrow>
                   let (q', x) = f q
                   in (s1\<lparr>cs_queues := map_option (map_set t q') (cs_queues s1)\<rparr>, Inr x))"

definition throttle ::
  "concurrency_config \<Rightarrow> WorkflowExecuteMode \<Rightarrow> string \<Rightarrow> ConcurrencyControlService
     \<Rightarrow> ConcurrencyControlService \<times> bool res" where
  "throttle cfg mode executionId s = on_queue cfg mode (enqueue executionId) True s"

definition release ::
  "concurrency_config \<Rightarrow> WorkflowExecuteMode \<Rightarrow> ConcurrencyControlService
     \<Rightarrow> ConcurrencyControlService \<times> string option res" where
  "release cfg mode s = on_queue cfg mode dequeue None s"

definition remove_execution ::
  "concurrency_config \<Rightarrow> WorkflowExecuteMode \<Rightarrow> string \<Rightarrow> ConcurrencyControlService
     \<Rightarrow> ConcurrencyControlService \<times> string option res" where
  "remove_execution cfg mode executionId s = on_queue cfg mode (remove_queued executionId) None s"

text \<open>
  \<^verbatim>\<open>removeAll\<close>: the new state, the executions that were let go on, and the executions that are
  canceled in the database.
\<close>

definition remove_each :: "ConcurrencyQueue \<Rightarrow> ConcurrencyQueue \<times> string list" where
  "remove_each q =
     fold (\<lambda>executionId (q, released). let (q', r) = remove_queued executionId q
             in (q', released @ (case r of None \<Rightarrow> [] | Some e \<Rightarrow> [e]))) (getAll q) (q, [])"

definition removeAll_queued ::
  "string list \<Rightarrow> ConcurrencyControlService \<Rightarrow> (ConcurrencyControlService \<times> string list \<times> string list) res" where
  "removeAll_queued executionIdsToCancel s =
     (if \<not> cs_isEnabled s then Inr (s, [], [])
      else case cs_queues s of
             None \<Rightarrow> Inl JsTypeError
           | Some queues \<Rightarrow>
               let emptied = map (\<lambda>(t, q). (t, remove_each q)) queues
               in Inr (s\<lparr>cs_queues := Some (map (\<lambda>(t, q, _). (t, q)) emptied)\<rparr>,
                       concat (map (\<lambda>(_, _, released). released) emptied),
                       executionIdsToCancel))"

definition disable :: "ConcurrencyControlService \<Rightarrow> ConcurrencyControlService" where
  "disable s = s\<lparr>cs_isEnabled := False\<rparr>"

section \<open>Reservations\<close>

record CapacityTarget =
  ct_executionId :: string
  ct_mode :: WorkflowExecuteMode

text \<open>
  \<^verbatim>\<open>reserve\<close> up to its \<^verbatim>\<open>await\<close>; \<open>reserved\<close> is what runs when the execution goes on.
\<close>

definition reserve ::
  "concurrency_config \<Rightarrow> CapacityTarget \<Rightarrow> CapacityTarget option \<Rightarrow> ConcurrencyControlService
     \<Rightarrow> ConcurrencyControlService \<times> bool res" where
  "reserve cfg target acquired s =
     (if acquired \<noteq> None then (s, Inl AssertionError)
      else throttle cfg (ct_mode target) (ct_executionId target) s)"

definition reserved :: "CapacityTarget \<Rightarrow> CapacityTarget option" where
  "reserved target = Some target"

definition release_reservation ::
  "concurrency_config \<Rightarrow> CapacityTarget option \<Rightarrow> ConcurrencyControlService
     \<Rightarrow> ConcurrencyControlService \<times> CapacityTarget option \<times> string option res" where
  "release_reservation cfg acquired s =
     (case acquired of
        None \<Rightarrow> (s, None, Inr None)
      | Some target \<Rightarrow>
          (case release cfg (ct_mode target) s of
             (s', Inl e) \<Rightarrow> (s', acquired, Inl e)
           | (s', Inr r) \<Rightarrow> (s', None, Inr r)))"

section \<open>Executions under control\<close>

text \<open>
  The executions of one queue: which run, and the history of those that were throttled and those
  that were let go on.
\<close>

record executions =
  ex_q :: ConcurrencyQueue
  ex_running :: "string list"
  ex_throttled :: "string list"
  ex_released :: "string list"

definition new_executions :: "int \<Rightarrow> executions" where
  "new_executions limit = \<lparr>ex_q = new_queue limit, ex_running = [], ex_throttled = [], ex_released = []\<rparr>"

definition start_execution :: "string \<Rightarrow> executions \<Rightarrow> executions" where
  "start_execution e s =
     (case enqueue e (ex_q s) of
        (q, True) \<Rightarrow> s\<lparr>ex_q := q, ex_running := ex_running s @ [e]\<rparr>
      | (q, False) \<Rightarrow> s\<lparr>ex_q := q, ex_throttled := ex_throttled s @ [e]\<rparr>)"

definition let_go :: "ConcurrencyQueue \<times> string option \<Rightarrow> executions \<Rightarrow> executions" where
  "let_go qr s =
     (case qr of
        (q, None) \<Rightarrow> s\<lparr>ex_q := q\<rparr>
      | (q, Some e) \<Rightarrow> s\<lparr>ex_q := q, ex_running := ex_running s @ [e], ex_released := ex_released s @ [e]\<rparr>)"

definition finish_execution :: "string \<Rightarrow> executions \<Rightarrow> executions" where
  "finish_execution e s = let_go (dequeue (ex_q s)) (s\<lparr>ex_running := remove1 e (ex_running s)\<rparr>)"

definition cancel_execution :: "string \<Rightarrow> executions \<Rightarrow> executions" where
  "cancel_execution e s = let_go (remove_queued e (ex_q s)) s"

inductive run_step :: "executions \<Rightarrow> executions \<Rightarrow> bool" where
  start: "run_step s (start_execution e s)"
| finish: "e \<in> set (ex_running s) \<Longrightarrow> run_step s (finish_execution e s)"

inductive_cases run_stepE: "run_step s s'"

definition semaphore_inv :: "int \<Rightarrow> executions \<Rightarrow> bool" where
  "semaphore_inv limit s \<longleftrightarrow>
     cq_capacity (ex_q s) = limit - int (length (ex_running s)) - int (length (cq_queue (ex_q s)))
     \<and> int (length (ex_running s)) \<le> limit
     \<and> (cq_queue (ex_q s) \<noteq> [] \<longrightarrow> int (length (ex_running s)) = limit)
     \<and> ex_throttled s = ex_released s @ cq_queue (ex_q s)"

lemma semaphore_inv_new: "0 \<le> limit \<Longrightarrow> semaphore_inv limit (new_executions limit)"
  by (simp add: semaphore_inv_def new_executions_def new_queue_def)

lemma semaphore_inv_start: "semaphore_inv limit s \<Longrightarrow> semaphore_inv limit (start_execution e s)"
  by (auto simp: semaphore_inv_def start_execution_def enqueue_def Let_def)

lemma semaphore_inv_finish:
  assumes "semaphore_inv limit s" and "e \<in> set (ex_running s)"
  shows "semaphore_inv limit (finish_execution e s)"
proof -
  have "length (ex_running s) = Suc (length (remove1 e (ex_running s)))"
    using assms(2) by (simp add: length_remove1) (metis One_nat_def Suc_pred length_pos_if_in_set)
  with assms(1) show ?thesis
    by (cases "cq_queue (ex_q s)")
      (auto simp: semaphore_inv_def finish_execution_def let_go_def dequeue_def resolveNext_def)
qed

lemma semaphore_inv_step: "run_step s s' \<Longrightarrow> semaphore_inv limit s \<Longrightarrow> semaphore_inv limit s'"
  by (auto elim!: run_stepE intro: semaphore_inv_start semaphore_inv_finish)

text \<open>The abstract specification: a counting semaphore with a first-in first-out waiting list.\<close>

record semaphore =
  sem_free :: nat
  sem_waiting :: "string list"
  sem_running :: "string list"

text \<open>
  The events of a run: an execution is started, or a running one finishes. Every event answers which execution goes on by it.
\<close>

datatype execution_event = StartOf string | FinishOf string

fun run_event :: "execution_event \<Rightarrow> executions \<Rightarrow> executions \<times> string option" where
  "run_event (StartOf e) s = (start_execution e s, if snd (enqueue e (ex_q s)) then Some e else None)"
| "run_event (FinishOf e) s = (if e \<in> set (ex_running s) then (finish_execution e s, snd (dequeue (ex_q s))) else (s, None))"

fun sem_event :: "execution_event \<Rightarrow> semaphore \<Rightarrow> semaphore \<times> string option" where
  "sem_event (StartOf e) a =
     (if 0 < sem_free a then (a\<lparr>sem_free := sem_free a - 1, sem_running := sem_running a @ [e]\<rparr>, Some e)
      else (a\<lparr>sem_waiting := sem_waiting a @ [e]\<rparr>, None))"
| "sem_event (FinishOf e) a =
     (if e \<notin> set (sem_running a) then (a, None)
      else case sem_waiting a of
        [] \<Rightarrow> (a\<lparr>sem_free := sem_free a + 1, sem_running := remove1 e (sem_running a)\<rparr>, None)
      | w # ws \<Rightarrow> (a\<lparr>sem_waiting := ws, sem_running := remove1 e (sem_running a) @ [w]\<rparr>, Some w))"

definition sem_of :: "executions \<Rightarrow> semaphore" where
  "sem_of s = \<lparr>sem_free = nat (cq_capacity (ex_q s)), sem_waiting = cq_queue (ex_q s), sem_running = ex_running s\<rparr>"

lemma sem_of_start:
  assumes "semaphore_inv limit s"
  shows "sem_event (StartOf e) (sem_of s) = map_prod sem_of id (run_event (StartOf e) s)"
  by (cases "0 < cq_capacity (ex_q s)") (simp_all add: sem_of_def start_execution_def enqueue_def nat_diff_distrib)

lemma sem_of_finish:
  assumes "semaphore_inv limit s"
  shows "sem_event (FinishOf e) (sem_of s) = map_prod sem_of id (run_event (FinishOf e) s)"
proof (cases "cq_queue (ex_q s)")
  case Nil
  with assms have "0 \<le> cq_capacity (ex_q s)" by (simp add: semaphore_inv_def)
  then have "nat (cq_capacity (ex_q s) + 1) = nat (cq_capacity (ex_q s)) + 1" by simp
  with Nil show ?thesis by (simp add: sem_of_def finish_execution_def let_go_def dequeue_def resolveNext_def)
next
  case (Cons w ws)
  with assms have "nat (cq_capacity (ex_q s) + 1) = nat (cq_capacity (ex_q s))" by (simp add: semaphore_inv_def)
  with Cons show ?thesis by (simp add: sem_of_def finish_execution_def let_go_def dequeue_def resolveNext_def)
qed

interpretation sem: refined_machine "new_executions (int limit)" run_step "semaphore_inv (int limit)" run_event sem_of sem_event
  for limit :: nat
proof
  show "semaphore_inv (int limit) (new_executions (int limit))" by (simp add: semaphore_inv_new)
next
  show "semaphore_inv (int limit) t" if "run_step s t" "semaphore_inv (int limit) s" for s t
    using that by (rule semaphore_inv_step)
next
  show "run_step\<^sup>*\<^sup>* s (fst (run_event l s))" for l s by (cases l) (auto intro: run_step.intros)
next
  show "sem_event l (sem_of s) = map_prod sem_of id (run_event l s)" if "semaphore_inv (int limit) s" for l s
    using that by (cases l) (simp_all only: sem_of_start sem_of_finish)
qed

lemma reach_start: "run_step\<^sup>*\<^sup>* s0 s \<Longrightarrow> run_step\<^sup>*\<^sup>* s0 (start_execution e s)"
  by (erule rtranclp.rtrancl_into_rtrancl) (rule run_step.start)

lemma reach_finish: "run_step\<^sup>*\<^sup>* s0 s \<Longrightarrow> e \<in> set (ex_running s) \<Longrightarrow> run_step\<^sup>*\<^sup>* s0 (finish_execution e s)"
  by (erule rtranclp.rtrancl_into_rtrancl) (rule run_step.finish)

section \<open>The service never fails, but for one mode\<close>

inductive service_step :: "concurrency_config \<Rightarrow> ConcurrencyControlService \<Rightarrow> ConcurrencyControlService \<Rightarrow> bool"
  for cfg where
  "service_step cfg s (fst (throttle cfg mode executionId s))"
| "service_step cfg s (fst (release cfg mode s))"
| "service_step cfg s (fst (remove_execution cfg mode executionId s))"
| "removeAll_queued ids s = Inr (s', released, canceled) \<Longrightarrow> service_step cfg s s'"
| "service_step cfg s (disable s)"

inductive_cases service_stepE: "service_step cfg s s'"

definition service_inv :: "concurrency_config \<Rightarrow> ConcurrencyControlService \<Rightarrow> bool" where
  "service_inv cfg s \<longleftrightarrow> cc_evaluationLimit cfg \<noteq> 0
     \<and> (cs_queues s = None \<longrightarrow> cc_queueMode cfg \<and> \<not> cs_isEnabled s)"

lemma resolved_limit_nonzero:
  assumes "cc_evaluationLimit cfg \<noteq> 0"
  shows "resolveEvaluationConcurrencyLimit cfg \<noteq> 0"
proof -
  have "map_of EVALUATION_TIER_DEFAULTS p = Some l \<Longrightarrow> l \<noteq> 0" for p l
    by (auto simp: EVALUATION_TIER_DEFAULTS_def split: if_splits)
  with assms show ?thesis
    by (auto simp: resolveEvaluationConcurrencyLimit_def readLicenseQuota_def split: option.splits if_splits)
qed

lemma ensureEvalQueueResolved_ok:
  assumes "service_inv cfg s"
  shows "\<exists>s'. ensureEvalQueueResolved cfg s = (s', Inr ()) \<and> service_inv cfg s'"
  using assms resolved_limit_nonzero [of cfg]
  by (auto simp: ensureEvalQueueResolved_def service_inv_def normaliseLimit_def Let_def split: option.splits)

lemma on_queue_ok:
  assumes "service_inv cfg s"
  obtains s1 where "service_inv cfg s1" and "cs_isEnabled s1 \<longrightarrow> cs_queues s1 \<noteq> None" and "mode \<noteq> Evaluation \<longrightarrow> s1 = s"
    and "on_queue cfg mode f dflt s = (if \<not> cs_isEnabled s1 then (s1, Inr dflt)
      else case getQueue mode s1 of Inl e \<Rightarrow> (s1, Inl e) | Inr None \<Rightarrow> (s1, Inr dflt)
        | Inr (Some (t, q)) \<Rightarrow> (s1\<lparr>cs_queues := map_option (map_set t (fst (f q))) (cs_queues s1)\<rparr>, Inr (snd (f q))))"
proof (cases "mode = Evaluation")
  case True
  from ensureEvalQueueResolved_ok [OF assms] obtain s1 where
    s1: "ensureEvalQueueResolved cfg s = (s1, Inr ())" "service_inv cfg s1" by blast
  show thesis
    by (rule that [of s1]) (use True s1 in \<open>auto simp: on_queue_def service_inv_def split_beta split: sum.split option.split\<close>)
next
  case False
  show thesis
    by (rule that [of s])
      (use False assms in \<open>auto simp: on_queue_def service_inv_def split_beta split: sum.split option.split\<close>)
qed

lemma on_queue_inv: "service_inv cfg s \<Longrightarrow> service_inv cfg (fst (on_queue cfg mode f dflt s))"
  by (erule on_queue_ok [where mode = mode and f = f and dflt = dflt])
    (auto simp: service_inv_def split: sum.split option.split)

lemma getQueue_fails:
  "cs_queues s \<noteq> None \<Longrightarrow> getQueue mode s = Inl e \<longleftrightarrow> mode = Agent \<and> e = UnknownExecutionModeError"
  by (cases mode) (auto simp: getQueue_def queue_type_def)

lemma on_queue_fails:
  assumes "service_inv cfg s"
  shows "snd (on_queue cfg mode f dflt s) = Inl e \<longleftrightarrow> mode = Agent \<and> cs_isEnabled s \<and> e = UnknownExecutionModeError"
proof (rule on_queue_ok [OF assms, where mode = mode and f = f and dflt = dflt])
  fix s1
  assume s1: "service_inv cfg s1" "cs_isEnabled s1 \<longrightarrow> cs_queues s1 \<noteq> None" "mode \<noteq> Evaluation \<longrightarrow> s1 = s"
    and eq: "on_queue cfg mode f dflt s = (if \<not> cs_isEnabled s1 then (s1, Inr dflt)
      else case getQueue mode s1 of Inl e \<Rightarrow> (s1, Inl e) | Inr None \<Rightarrow> (s1, Inr dflt)
        | Inr (Some (t, q)) \<Rightarrow> (s1\<lparr>cs_queues := map_option (map_set t (fst (f q))) (cs_queues s1)\<rparr>, Inr (snd (f q))))"
  show ?thesis
    unfolding eq using s1 getQueue_fails [of s1 mode]
    by (cases "getQueue mode s1") (auto split: option.splits)
qed

lemma service_step_inv: "service_step cfg s s' \<Longrightarrow> service_inv cfg s \<Longrightarrow> service_inv cfg s'"
  by (erule service_stepE)
    (auto simp: throttle_def release_def remove_execution_def on_queue_inv,
     auto simp: service_inv_def removeAll_queued_def disable_def Let_def split: if_splits option.splits)

lemma new_service_inv: "new_service cfg = Inr s \<Longrightarrow> service_inv cfg s"
  by (auto simp: new_service_def bind_res_eq_Inr normaliseLimit_def service_inv_def Let_def split: if_splits)

lemma service_reach_inv:
  assumes "new_service cfg = Inr s0" and "(service_step cfg)\<^sup>*\<^sup>* s0 s"
  shows "service_inv cfg s"
proof -
  have "state_machine s0 (service_step cfg) (service_inv cfg)"
    by unfold_locales (auto intro: new_service_inv [OF assms(1)] service_step_inv)
  from state_machine.reach_inv [OF this assms(2)] show ?thesis .
qed

section \<open>Properties\<close>

text \<open>
  C34. The queue keeps its limit: in every state that starting and finishing executions reaches, at
  most \<open>limit\<close> executions run, executions wait only while exactly \<open>limit\<close> run, the capacity is the
  limit less the running and the waiting executions, and the executions that were let go on,
  followed by those that wait, are the throttled ones in their order.
\<close>

theorem concurrency_limit_kept:
  assumes "run_step\<^sup>*\<^sup>* (new_executions (int limit)) s"
  shows "length (ex_running s) \<le> limit
    \<and> (cq_queue (ex_q s) \<noteq> [] \<longrightarrow> length (ex_running s) = limit)
    \<and> currentCapacity (ex_q s) = int limit - int (length (ex_running s)) - int (length (cq_queue (ex_q s)))
    \<and> ex_throttled s = ex_released s @ cq_queue (ex_q s)"
  using sem.reach_inv [OF assms] by (simp add: semaphore_inv_def currentCapacity_def)

lemma ex_run_reach:
  "run_step\<^sup>*\<^sup>* (new_executions (int 1)) (finish_execution ''a''
     (start_execution ''c'' (start_execution ''b'' (start_execution ''a'' (new_executions (int 1))))))"
  by (intro reach_finish reach_start rtranclp.rtrancl_refl) code_simp

theorem concurrency_limit_kept_witness:
  "\<exists>s. run_step\<^sup>*\<^sup>* (new_executions (int 1)) s \<and> ex_running s = [''b''] \<and> cq_queue (ex_q s) = [''c'']
     \<and> ex_throttled s = [''b'', ''c''] \<and> length (ex_running s) \<le> 1"
proof -
  let ?s = "finish_execution ''a'' (start_execution ''c'' (start_execution ''b'' (start_execution ''a'' (new_executions (int 1)))))"
  have "ex_running ?s = [''b'']" "cq_queue (ex_q ?s) = [''c'']" "ex_throttled ?s = [''b'', ''c'']" by code_simp+
  with concurrency_limit_kept [OF ex_run_reach] ex_run_reach show ?thesis by blast
qed

text \<open>
  C35. The queue refines a counting semaphore with a first-in first-out waiting list. For every sequence of events, starts of executions and
  ends of running ones, the queue lets in every event exactly the execution go on that the semaphore lets go on, if any, and ends in
  the state that the abstraction (a nonnegative capacity is the number of free slots) maps to the state of the semaphore.
\<close>

theorem concurrency_refines_semaphore:
  "run_all sem_event events \<lparr>sem_free = limit, sem_waiting = [], sem_running = []\<rparr>
     = map_prod sem_of id (run_all run_event events (new_executions (int limit)))"
  using sem.run_refines [of limit "new_executions (int limit)" events] by (simp add: sem_of_def new_executions_def new_queue_def)

text \<open>
  C36. Removing an execution that waits breaks the limit as soon as another one waits: the
  removed execution held no slot, and yet \<^verbatim>\<open>remove\<close> lets the next one go on, so that one more than
  \<open>limit\<close> executions run.
\<close>

theorem remove_exceeds_limit:
  assumes "run_step\<^sup>*\<^sup>* (new_executions (int limit)) s"
    and "e \<in> set (cq_queue (ex_q s))" and "length (cq_queue (ex_q s)) \<ge> 2"
  shows "length (ex_running (cancel_execution e s)) = limit + 1"
proof -
  have "length (ex_running s) = limit"
    using sem.reach_inv [OF assms(1)] assms(3) by (auto simp: semaphore_inv_def)
  moreover have "length (remove1 e (cq_queue (ex_q s))) \<noteq> 0"
    using assms(2,3) by (simp add: length_remove1)
  ultimately show ?thesis
    using assms(2)
    by (auto simp: cancel_execution_def let_go_def remove_queued_def resolveNext_def neq_Nil_conv)
qed

theorem remove_exceeds_limit_witness:
  "\<exists>s. run_step\<^sup>*\<^sup>* (new_executions (int 1)) s \<and> ex_running s = [''a'']
     \<and> ex_running (cancel_execution ''b'' s) = [''a'', ''c''] \<and> length (ex_running (cancel_execution ''b'' s)) = 1 + 1"
proof -
  let ?s = "start_execution ''c'' (start_execution ''b'' (start_execution ''a'' (new_executions (int 1))))"
  have r: "run_step\<^sup>*\<^sup>* (new_executions (int 1)) ?s" by (intro reach_start rtranclp.rtrancl_refl)
  have s: "ex_running ?s = [''a'']" "cq_queue (ex_q ?s) = [''b'', ''c'']"
    "ex_running (cancel_execution ''b'' ?s) = [''a'', ''c'']" by code_simp+
  from s(2) have "length (ex_running (cancel_execution ''b'' ?s)) = 1 + 1"
    by (intro remove_exceeds_limit [OF r]) simp_all
  with r s(1,3) show ?thesis by blast
qed

text \<open>
  In every state of a service that was constructed, \<^verbatim>\<open>throttle\<close>, \<^verbatim>\<open>release\<close> and \<^verbatim>\<open>remove\<close> throw
  exactly when concurrency control is enabled and the execution mode is \<^verbatim>\<open>agent\<close>, which the list of
  modes has and \<^verbatim>\<open>getQueue\<close> does not know; \<^verbatim>\<open>has\<close> and \<^verbatim>\<open>removeAll\<close> never throw.
\<close>

lemma service_throws_iff_agent:
  assumes "new_service cfg = Inr s0" and "(service_step cfg)\<^sup>*\<^sup>* s0 s"
  shows "(snd (throttle cfg mode executionId s) = Inl e \<longleftrightarrow> mode = Agent \<and> cs_isEnabled s \<and> e = UnknownExecutionModeError)
    \<and> (snd (release cfg mode s) = Inl e \<longleftrightarrow> mode = Agent \<and> cs_isEnabled s \<and> e = UnknownExecutionModeError)
    \<and> (snd (remove_execution cfg mode executionId s) = Inl e \<longleftrightarrow> mode = Agent \<and> cs_isEnabled s \<and> e = UnknownExecutionModeError)
    \<and> has_execution executionId s \<noteq> Inl e \<and> removeAll_queued ids s \<noteq> Inl e"
proof -
  note inv = service_reach_inv [OF assms]
  have "cs_isEnabled s \<Longrightarrow> cs_queues s \<noteq> None" using inv by (auto simp: service_inv_def)
  then have "has_execution executionId s \<noteq> Inl e" "removeAll_queued ids s \<noteq> Inl e"
    by (auto simp: has_execution_def removeAll_queued_def Let_def split: option.split)
  then show ?thesis by (simp add: throttle_def release_def remove_execution_def on_queue_fails [OF inv])
qed

definition ex_config :: concurrency_config where
  "ex_config = \<lparr>cc_queueMode = False, cc_productionLimit = 1, cc_evaluationLimit = - 1, cc_envSet = False,
     cc_quota = None, cc_planName = ''Business''\<rparr>"

end
