(* ===== verification/Task_Broker.thy ===== *)
theory Task_Broker
  imports Workflow_Types
begin

text \<open>
  The class \<^verbatim>\<open>TaskBroker\<close> of
  \<^verbatim>\<open>packages/cli/src/task-runners/task-broker/task-broker.service.ts\<close>, which matches the offers of
  task runners with the requests of task requesters and relays the messages of a running task.

  The class is concurrent code: handlers run to completion, but every \<^verbatim>\<open>await\<close> lets others run in
  between. The model is a state machine whose state holds the fields of the class together with
  what the JavaScript runtime keeps for it:
  \<^item> \<open>tb_calls\<close>: the calls of \<^verbatim>\<open>acceptOffer\<close> that are suspended at one of their two \<^verbatim>\<open>await\<close>s, by task
    id, with the state of the promise they wait for; the callbacks that the Maps
    \<^verbatim>\<open>runnerAcceptRejects\<close> and \<^verbatim>\<open>requesterAcceptRejects\<close> hold settle that promise, so of the Maps only
    the keys are kept;
  \<^item> \<open>tb_microtasks\<close>: what the handlers still have to do after an \<^verbatim>\<open>await\<close> of a message or a lookup;
  \<^item> \<open>tb_timers\<close>: the active timers with what they do when they fire;
  \<^item> \<open>tb_requestObj\<close>: the request objects by address, since \<^verbatim>\<open>acceptOffer\<close> changes a request that the
    list of pending requests also holds;
  \<^item> \<open>tb_sent\<close>: the messages that were handed to the callbacks, in order.

  \<open>nanoid\<close> gives the \<open>n\<close>-th generated id, \<open>now\<close> is \<^verbatim>\<open>process.hrtime.bigint()\<close>. A callback that
  delivers a message does not throw and does not call the broker before the handler ends. Logging
  and \<^verbatim>\<open>lastSeen\<close> are left out.
\<close>

section \<open>The data\<close>

record TaskRunner =
  tr_id :: string
  tr_name :: "string option"
  tr_taskTypes :: "string list"

record Task =
  tk_id :: string
  tk_runnerId :: string
  tk_requesterId :: string
  tk_taskType :: string
  tk_timeout :: "nat option"

record TaskOffer =
  of_offerId :: string
  of_runnerId :: string
  of_taskType :: string
  of_validFor :: int
  of_validUntil :: int

record TaskRequest =
  rq_requestId :: string
  rq_requesterId :: string
  rq_taskType :: string
  rq_timeout :: "nat option"
  rq_acceptInProgress :: "bool option"

datatype task_error = ErrorValue jsval | ErrorMessage string | TaskRunnerExecutionTimeoutError

datatype to_runner =
    InfoRequest
  | RunnerRegistered
  | TaskOfferAccept string string
  | TaskCancel string string
  | TaskSettings string jsval
  | RPCResponse string string string jsval
  | TaskDataResponse string string jsval
  | NodeTypes string string jsval
  | Drain

datatype to_requester =
    TaskReady string string
  | TaskDone string jsval
  | TaskError string task_error
  | RequestExpired string string
  | TaskDataRequest string string jsval
  | NodeTypesRequest string string jsval
  | RPC string string string jsval

datatype runner_message =
    RunnerInfo
  | RunnerTaskAccepted string
  | RunnerTaskRejected string string
  | RunnerTaskDeferred string
  | RunnerTaskOffer string string int
  | RunnerTaskDone string jsval
  | RunnerTaskError string jsval
  | RunnerTaskDataRequest string string jsval
  | RunnerNodeTypesRequest string string jsval
  | RunnerRPC string string string jsval

datatype requester_message =
    RequesterTaskSettings string jsval
  | RequesterTaskCancel string string
  | RequesterTaskRequest string string
  | RequesterTaskDataResponse string string jsval
  | RequesterNodeTypesResponse string string jsval
  | RequesterRPCResponse string string string jsval

datatype sent =
    ToRunner string to_runner
  | ToRequester string to_requester
  | TimedOutDuringTask

datatype reject_reason = TaskRejectError string | TaskDeferredError | TaskRunnerAcceptTimeoutError

datatype runner_answer = RunnerPending | RunnerAccepted | RunnerRejected reject_reason

text \<open>The requester's promise is rejected with a \<^verbatim>\<open>TaskRejectError\<close> (\<open>Some\<close> reason) or a string (\<open>None\<close>).\<close>

datatype requester_answer = RequesterPending | RequesterAccepted jsval | RequesterRejected "string option"

datatype accept_call =
    AwaitRunner TaskOffer nat runner_answer
  | AwaitRequester requester_answer

datatype microtask =
    DeleteTask string
  | RaiseTimeout string
  | SendToRunner string to_runner
  | ContinueSettings string string jsval

datatype timer_action =
    RequestTimeout string
  | TaskTimeout string
  | RunnerAcceptTimeout string
  | RequesterAcceptTimeout string

record TaskBroker =
  tb_knownRunners :: "(string \<times> TaskRunner) list"
  tb_requesters :: "string list"
  tb_tasks :: "(string \<times> Task) list"
  tb_isDraining :: bool
  tb_runnerAcceptRejects :: "string list"
  tb_requesterAcceptRejects :: "string list"
  tb_pendingTaskOffers :: "TaskOffer list"
  tb_pendingTaskRequests :: "nat list"
  tb_mismatchWarned :: "string list"
  tb_requestObj :: "nat \<Rightarrow> TaskRequest"
  tb_calls :: "(string \<times> accept_call) list"
  tb_microtasks :: "microtask list"
  tb_timers :: "(nat \<times> timer_action) list"
  tb_next :: nat
  tb_nanoids :: nat
  tb_sent :: "sent list"

definition no_request :: TaskRequest where
  "no_request = \<lparr>rq_requestId = [], rq_requesterId = [], rq_taskType = [], rq_timeout = None, rq_acceptInProgress = None\<rparr>"

definition new_broker :: TaskBroker where
  "new_broker = \<lparr>tb_knownRunners = [], tb_requesters = [], tb_tasks = [], tb_isDraining = False,
     tb_runnerAcceptRejects = [], tb_requesterAcceptRejects = [], tb_pendingTaskOffers = [],
     tb_pendingTaskRequests = [], tb_mismatchWarned = [], tb_requestObj = (\<lambda>_. no_request), tb_calls = [],
     tb_microtasks = [], tb_timers = [], tb_next = 0, tb_nanoids = 0, tb_sent = []\<rparr>"

text \<open>The constructor checks the configured task timeout.\<close>

definition construct_broker :: "int \<Rightarrow> TaskBroker res" where
  "construct_broker taskTimeout =
     (if taskTimeout \<le> 0 then Inl (UserError ''Task timeout must be greater than 0'') else Inr new_broker)"

text \<open>\<^verbatim>\<open>this.pendingTaskRequests\<close> as objects.\<close>

definition pending_requests :: "TaskBroker \<Rightarrow> TaskRequest list" where
  "pending_requests st = map (tb_requestObj st) (tb_pendingTaskRequests st)"

section \<open>Timers and messages\<close>

definition set_timeout :: "timer_action \<Rightarrow> TaskBroker \<Rightarrow> TaskBroker" where
  "set_timeout action st = st\<lparr>tb_timers := map_set (tb_next st) action (tb_timers st), tb_next := tb_next st + 1\<rparr>"

definition clear_timeout :: "nat option \<Rightarrow> TaskBroker \<Rightarrow> TaskBroker" where
  "clear_timeout timeout st =
     (case timeout of None \<Rightarrow> st | Some tid \<Rightarrow> st\<lparr>tb_timers := map_delete tid (tb_timers st)\<rparr>)"

definition messageRunner :: "string \<Rightarrow> to_runner \<Rightarrow> TaskBroker \<Rightarrow> TaskBroker" where
  "messageRunner runnerId message st =
     (if map_get (tb_knownRunners st) runnerId \<noteq> None
      then st\<lparr>tb_sent := tb_sent st @ [ToRunner runnerId message]\<rparr> else st)"

definition messageRequester :: "string \<Rightarrow> to_requester \<Rightarrow> TaskBroker \<Rightarrow> TaskBroker" where
  "messageRequester requesterId message st =
     (if requesterId \<in> set (tb_requesters st)
      then st\<lparr>tb_sent := tb_sent st @ [ToRequester requesterId message]\<rparr> else st)"

definition suspend :: "microtask \<Rightarrow> TaskBroker \<Rightarrow> TaskBroker" where
  "suspend m st = st\<lparr>tb_microtasks := tb_microtasks st @ [m]\<rparr>"

section \<open>Runners and requesters\<close>

definition handleRequestTimeout :: "string \<Rightarrow> TaskBroker \<Rightarrow> TaskBroker" where
  "handleRequestTimeout requestId st =
     (case find (\<lambda>r. rq_requestId (tb_requestObj st r) = requestId) (tb_pendingTaskRequests st) of
        None \<Rightarrow> st
      | Some r \<Rightarrow>
          let request = tb_requestObj st r
          in messageRequester (rq_requesterId request) (RequestExpired (rq_requestId request) ''timeout'')
               (clear_timeout (rq_timeout request)
                 (st\<lparr>tb_pendingTaskRequests := remove1 r (tb_pendingTaskRequests st),
                     tb_mismatchWarned := set_delete requestId (tb_mismatchWarned st)\<rparr>)))"

definition expireTasks :: "int \<Rightarrow> TaskBroker \<Rightarrow> TaskBroker" where
  "expireTasks now st = st\<lparr>tb_pendingTaskOffers :=
     filter (\<lambda>offer. of_validFor offer = - 1 \<or> \<not> of_validUntil offer < now) (tb_pendingTaskOffers st)\<rparr>"

definition registerRunner :: "TaskRunner \<Rightarrow> TaskBroker \<Rightarrow> TaskBroker" where
  "registerRunner runner st =
     messageRunner (tr_id runner) RunnerRegistered
       (st\<lparr>tb_knownRunners := map_set (tr_id runner) runner (tb_knownRunners st)\<rparr>)"

definition registerRequester :: "string \<Rightarrow> TaskBroker \<Rightarrow> TaskBroker" where
  "registerRequester requesterId st = st\<lparr>tb_requesters := set_add requesterId (tb_requesters st)\<rparr>"

definition deregisterRequester :: "string \<Rightarrow> TaskBroker \<Rightarrow> TaskBroker" where
  "deregisterRequester requesterId st = st\<lparr>tb_requesters := set_delete requesterId (tb_requesters st)\<rparr>"

text \<open>A settled promise keeps its state.\<close>

definition settle_runner :: "string \<Rightarrow> runner_answer \<Rightarrow> TaskBroker \<Rightarrow> TaskBroker" where
  "settle_runner taskId answer st =
     (case map_get (tb_calls st) taskId of
        Some (AwaitRunner offer r RunnerPending) \<Rightarrow>
          st\<lparr>tb_calls := map_set taskId (AwaitRunner offer r answer) (tb_calls st)\<rparr>
      | _ \<Rightarrow> st)"

definition settle_requester :: "string \<Rightarrow> requester_answer \<Rightarrow> TaskBroker \<Rightarrow> TaskBroker" where
  "settle_requester taskId answer st =
     (case map_get (tb_calls st) taskId of
        Some (AwaitRequester RequesterPending) \<Rightarrow>
          st\<lparr>tb_calls := map_set taskId (AwaitRequester answer) (tb_calls st)\<rparr>
      | _ \<Rightarrow> st)"

definition answer_runner :: "string \<Rightarrow> runner_answer \<Rightarrow> TaskBroker \<Rightarrow> TaskBroker" where
  "answer_runner taskId answer st =
     (if taskId \<in> set (tb_runnerAcceptRejects st) then
        (settle_runner taskId answer st)\<lparr>tb_runnerAcceptRejects := set_delete taskId (tb_runnerAcceptRejects st)\<rparr>
      else st)"

definition answer_requester :: "string \<Rightarrow> requester_answer \<Rightarrow> TaskBroker \<Rightarrow> TaskBroker" where
  "answer_requester taskId answer st =
     (if taskId \<in> set (tb_requesterAcceptRejects st) then
        (settle_requester taskId answer st)\<lparr>tb_requesterAcceptRejects := set_delete taskId (tb_requesterAcceptRejects st)\<rparr>
      else st)"

definition handleRunnerAccept :: "string \<Rightarrow> TaskBroker \<Rightarrow> TaskBroker" where
  "handleRunnerAccept taskId = answer_runner taskId RunnerAccepted"

definition handleRunnerReject :: "string \<Rightarrow> string \<Rightarrow> TaskBroker \<Rightarrow> TaskBroker" where
  "handleRunnerReject taskId reason = answer_runner taskId (RunnerRejected (TaskRejectError reason))"

definition handleRunnerDeferred :: "string \<Rightarrow> TaskBroker \<Rightarrow> TaskBroker" where
  "handleRunnerDeferred taskId = answer_runner taskId (RunnerRejected TaskDeferredError)"

definition handleRequesterAccept :: "string \<Rightarrow> jsval \<Rightarrow> TaskBroker \<Rightarrow> TaskBroker" where
  "handleRequesterAccept taskId settings = answer_requester taskId (RequesterAccepted settings)"

definition handleRequesterReject :: "string \<Rightarrow> string \<Rightarrow> TaskBroker \<Rightarrow> TaskBroker" where
  "handleRequesterReject taskId reason = answer_requester taskId (RequesterRejected (Some reason))"

section \<open>Tasks\<close>

definition drop_task :: "string \<Rightarrow> TaskBroker \<Rightarrow> TaskBroker" where
  "drop_task taskId st = st\<lparr>tb_tasks := map_delete taskId (tb_tasks st)\<rparr>"

definition cancelTask :: "string \<Rightarrow> string \<Rightarrow> TaskBroker \<Rightarrow> TaskBroker" where
  "cancelTask taskId reason st =
     (case map_get (tb_tasks st) taskId of
        None \<Rightarrow> st
      | Some task \<Rightarrow> messageRunner (tk_runnerId task) (TaskCancel taskId reason) (drop_task taskId st))"

definition failTask :: "string \<Rightarrow> task_error \<Rightarrow> TaskBroker \<Rightarrow> TaskBroker" where
  "failTask taskId error st =
     (case map_get (tb_tasks st) taskId of
        None \<Rightarrow> st
      | Some task \<Rightarrow> messageRequester (tk_requesterId task) (TaskError taskId error) (drop_task taskId st))"

definition deregisterRunner :: "string \<Rightarrow> string \<Rightarrow> TaskBroker \<Rightarrow> TaskBroker" where
  "deregisterRunner runnerId errorMessage st =
     (let st1 = st\<lparr>tb_knownRunners := map_delete runnerId (tb_knownRunners st),
                  tb_pendingTaskOffers := filter (\<lambda>offer. of_runnerId offer \<noteq> runnerId) (tb_pendingTaskOffers st)\<rparr>
      in fold (\<lambda>task st.
             if tk_runnerId task = runnerId then
               handleRunnerReject (tk_id task) (''The Task Runner ('' @ runnerId @ '') has disconnected: '' @ errorMessage)
                 (failTask (tk_id task) (ErrorMessage errorMessage) st)
             else st)
           (values_of (tb_tasks st1)) st1)"

definition getRunnerOrFailTask :: "string \<Rightarrow> TaskBroker \<Rightarrow> TaskBroker \<times> TaskRunner res" where
  "getRunnerOrFailTask taskId st =
     (case map_get (tb_tasks st) taskId of
        None \<Rightarrow> (st, Inl (UnexpectedError (''Cannot find runner, failed to find task ('' @ taskId @ '')'')))
      | Some task \<Rightarrow>
          (case map_get (tb_knownRunners st) (tk_runnerId task) of
             None \<Rightarrow>
               let e = ''Cannot find runner, failed to find runner ('' @ tk_runnerId task @ '')''
               in (failTask taskId (ErrorMessage e) st, Inl (UnexpectedError e))
           | Some runner \<Rightarrow> (st, Inr runner)))"

text \<open>The common body of the three responses of a requester.\<close>

definition respond_to_runner :: "string \<Rightarrow> to_runner \<Rightarrow> TaskBroker \<Rightarrow> TaskBroker" where
  "respond_to_runner taskId message st =
     (if map_get (tb_tasks st) taskId = None then st
      else case getRunnerOrFailTask taskId st of
             (st', Inl e) \<Rightarrow> st'
           | (st', Inr runner) \<Rightarrow> suspend (SendToRunner (tr_id runner) message) st')"

definition handleRequesterRpcResponse :: "string \<Rightarrow> string \<Rightarrow> string \<Rightarrow> jsval \<Rightarrow> TaskBroker \<Rightarrow> TaskBroker" where
  "handleRequesterRpcResponse taskId callId status data = respond_to_runner taskId (RPCResponse taskId callId status data)"

definition handleRequesterDataResponse :: "string \<Rightarrow> string \<Rightarrow> jsval \<Rightarrow> TaskBroker \<Rightarrow> TaskBroker" where
  "handleRequesterDataResponse taskId requestId data = respond_to_runner taskId (TaskDataResponse taskId requestId data)"

definition handleRequesterNodeTypesResponse :: "string \<Rightarrow> string \<Rightarrow> jsval \<Rightarrow> TaskBroker \<Rightarrow> TaskBroker" where
  "handleRequesterNodeTypesResponse taskId requestId nodeTypes = respond_to_runner taskId (NodeTypes taskId requestId nodeTypes)"

text \<open>The requests of a runner are passed on to the requester of the task.\<close>

definition forward_to_requester :: "string \<Rightarrow> to_requester \<Rightarrow> TaskBroker \<Rightarrow> TaskBroker" where
  "forward_to_requester taskId message st =
     (case map_get (tb_tasks st) taskId of
        None \<Rightarrow> st
      | Some task \<Rightarrow> messageRequester (tk_requesterId task) message st)"

definition handleRpcRequest :: "string \<Rightarrow> string \<Rightarrow> string \<Rightarrow> jsval \<Rightarrow> TaskBroker \<Rightarrow> TaskBroker" where
  "handleRpcRequest taskId callId name params = forward_to_requester taskId (RPC taskId callId name params)"

definition handleDataRequest :: "string \<Rightarrow> string \<Rightarrow> jsval \<Rightarrow> TaskBroker \<Rightarrow> TaskBroker" where
  "handleDataRequest taskId requestId requestParams =
     forward_to_requester taskId (TaskDataRequest taskId requestId requestParams)"

definition handleNodeTypesRequest :: "string \<Rightarrow> string \<Rightarrow> jsval \<Rightarrow> TaskBroker \<Rightarrow> TaskBroker" where
  "handleNodeTypesRequest taskId requestId requestParams =
     forward_to_requester taskId (NodeTypesRequest taskId requestId requestParams)"

text \<open>\<^verbatim>\<open>handleResponse\<close> addresses the runner by the id of the requester.\<close>

definition handleResponse :: "string \<Rightarrow> string \<Rightarrow> jsval \<Rightarrow> TaskBroker \<Rightarrow> TaskBroker" where
  "handleResponse taskId requestId data st =
     (case map_get (tb_tasks st) taskId of
        None \<Rightarrow> st
      | Some task \<Rightarrow> messageRunner (tk_requesterId task) (TaskDataResponse taskId requestId data) st)"

definition sendTaskSettings :: "string \<Rightarrow> jsval \<Rightarrow> TaskBroker \<Rightarrow> TaskBroker \<times> unit res" where
  "sendTaskSettings taskId settings st =
     (if map_get (tb_tasks st) taskId = None then (st, Inr ())
      else case getRunnerOrFailTask taskId st of
             (st', Inl e) \<Rightarrow> (st', Inl e)
           | (st', Inr runner) \<Rightarrow> (suspend (ContinueSettings taskId (tr_id runner) settings) st', Inr ()))"

definition continue_settings :: "string \<Rightarrow> string \<Rightarrow> jsval \<Rightarrow> TaskBroker \<Rightarrow> TaskBroker" where
  "continue_settings taskId runnerId settings st =
     (case map_get (tb_tasks st) taskId of
        None \<Rightarrow> st
      | Some task \<Rightarrow>
          messageRunner runnerId (TaskSettings taskId settings)
            ((set_timeout (TaskTimeout taskId) st)\<lparr>tb_tasks :=
                map_set taskId (task\<lparr>tk_timeout := Some (tb_next st)\<rparr>) (tb_tasks st)\<rparr>))"

definition finish_task :: "string \<Rightarrow> (string \<Rightarrow> to_requester) \<Rightarrow> TaskBroker \<Rightarrow> TaskBroker" where
  "finish_task taskId message st =
     (case map_get (tb_tasks st) taskId of
        None \<Rightarrow> st
      | Some task \<Rightarrow>
          suspend (DeleteTask (tk_id task))
            (messageRequester (tk_requesterId task) (message (tk_id task)) (clear_timeout (tk_timeout task) st)))"

definition taskDoneHandler :: "string \<Rightarrow> jsval \<Rightarrow> TaskBroker \<Rightarrow> TaskBroker" where
  "taskDoneHandler taskId data = finish_task taskId (\<lambda>i. TaskDone i data)"

definition taskErrorHandler :: "string \<Rightarrow> task_error \<Rightarrow> TaskBroker \<Rightarrow> TaskBroker" where
  "taskErrorHandler taskId error = finish_task taskId (\<lambda>i. TaskError i error)"

datatype runners_mode = InternalMode | ExternalMode

definition handleTaskTimeout :: "runners_mode \<Rightarrow> string \<Rightarrow> TaskBroker \<Rightarrow> TaskBroker" where
  "handleTaskTimeout mode taskId st =
     (case map_get (tb_tasks st) taskId of
        None \<Rightarrow> st
      | Some task \<Rightarrow>
          (case mode of
             InternalMode \<Rightarrow>
               taskErrorHandler taskId TaskRunnerExecutionTimeoutError (st\<lparr>tb_sent := tb_sent st @ [TimedOutDuringTask]\<rparr>)
           | ExternalMode \<Rightarrow>
               suspend (RaiseTimeout taskId)
                 (messageRunner (tk_runnerId task) (TaskCancel taskId ''Task execution timed out'') st)))"

section \<open>Accepting an offer\<close>

definition set_request :: "nat \<Rightarrow> TaskRequest \<Rightarrow> TaskBroker \<Rightarrow> TaskBroker" where
  "set_request r request st = st\<lparr>tb_requestObj := (tb_requestObj st)(r := request)\<rparr>"

text \<open>\<^verbatim>\<open>acceptOffer\<close> up to its first \<^verbatim>\<open>await\<close> of a promise.\<close>

definition acceptOffer :: "(nat \<Rightarrow> string) \<Rightarrow> TaskOffer \<Rightarrow> nat \<Rightarrow> TaskBroker \<Rightarrow> TaskBroker" where
  "acceptOffer nanoid offer r st =
     (let taskId = nanoid (tb_nanoids st)
      in (messageRunner (of_runnerId offer) (TaskOfferAccept (of_offerId offer) taskId)
            (set_timeout (RunnerAcceptTimeout taskId)
              (st\<lparr>tb_nanoids := tb_nanoids st + 1,
                  tb_runnerAcceptRejects := set_add taskId (tb_runnerAcceptRejects st)\<rparr>)))
         \<lparr>tb_calls := map_set taskId (AwaitRunner offer r RunnerPending) (tb_calls st)\<rparr>)"

text \<open>The \<^verbatim>\<open>catch\<close> block after the runner's answer.\<close>

definition end_call :: "string \<Rightarrow> TaskBroker \<Rightarrow> TaskBroker" where
  "end_call taskId st = st\<lparr>tb_calls := map_delete taskId (tb_calls st)\<rparr>"

definition runner_rejected :: "string \<Rightarrow> nat \<Rightarrow> reject_reason \<Rightarrow> TaskBroker \<Rightarrow> TaskBroker" where
  "runner_rejected taskId r e st =
     (let st1 = set_request r ((tb_requestObj st r)\<lparr>rq_acceptInProgress := Some False\<rparr>) (end_call taskId st)
      in case e of
           TaskRejectError reason \<Rightarrow> st1
         | TaskDeferredError \<Rightarrow>
             set_request r ((tb_requestObj st1 r)\<lparr>rq_timeout := Some (tb_next st1)\<rparr>)
               (set_timeout (RequestTimeout (rq_requestId (tb_requestObj st1 r)))
                 (clear_timeout (rq_timeout (tb_requestObj st1 r)) st1))
         | TaskRunnerAcceptTimeoutError \<Rightarrow> st1)"

text \<open>After the runner accepted, up to the second \<^verbatim>\<open>await\<close> of a promise.\<close>

definition runner_accepted :: "string \<Rightarrow> TaskOffer \<Rightarrow> nat \<Rightarrow> TaskBroker \<Rightarrow> TaskBroker" where
  "runner_accepted taskId offer r st =
     (let request = tb_requestObj st r;
          task = \<lparr>tk_id = taskId, tk_runnerId = of_runnerId offer, tk_requesterId = rq_requesterId request,
                  tk_taskType = of_taskType offer, tk_timeout = None\<rparr>;
          st1 = clear_timeout (rq_timeout request) st;
          st2 = st1\<lparr>tb_tasks := map_set taskId task (tb_tasks st1)\<rparr>
      in case find (\<lambda>p. rq_requestId (tb_requestObj st2 p) = rq_requestId request) (tb_pendingTaskRequests st2) of
           None \<Rightarrow> end_call taskId st2
         | Some p \<Rightarrow>
             (messageRequester (rq_requesterId request) (TaskReady (rq_requestId request) taskId)
                (set_timeout (RequesterAcceptTimeout taskId)
                  (st2\<lparr>tb_pendingTaskRequests := remove1 p (tb_pendingTaskRequests st2),
                       tb_requesterAcceptRejects := set_add taskId (tb_requesterAcceptRejects st2)\<rparr>)))
             \<lparr>tb_calls := map_set taskId (AwaitRequester RequesterPending) (tb_calls st)\<rparr>)"

text \<open>
  After the requester's answer: the settings go to the runner, or the task is cancelled. The call is taken out of the
  suspended calls here; what \<^verbatim>\<open>sendTaskSettings\<close> does after its first \<^verbatim>\<open>await\<close> (the timeout of the task and the message to the runner) is the
  microtask \<open>ContinueSettings\<close>, and an error while that message is sent, upon which the code would cancel the task, is not modelled.
\<close>

definition requester_accepted :: "string \<Rightarrow> jsval \<Rightarrow> TaskBroker \<Rightarrow> TaskBroker" where
  "requester_accepted taskId settings st =
     (case sendTaskSettings taskId settings (end_call taskId st) of
        (st', Inr _) \<Rightarrow> st'
      | (st', Inl e) \<Rightarrow> cancelTask taskId ''Unknown reason'' st')"

definition requester_rejected :: "string \<Rightarrow> string option \<Rightarrow> TaskBroker \<Rightarrow> TaskBroker" where
  "requester_rejected taskId reason st =
     cancelTask taskId (case reason of Some s \<Rightarrow> s | None \<Rightarrow> ''Unknown reason'') (end_call taskId st)"

definition resume_accept :: "string \<Rightarrow> TaskBroker \<Rightarrow> TaskBroker" where
  "resume_accept taskId st =
     (case map_get (tb_calls st) taskId of
        Some (AwaitRunner offer r RunnerAccepted) \<Rightarrow> runner_accepted taskId offer r st
      | Some (AwaitRunner offer r (RunnerRejected e)) \<Rightarrow> runner_rejected taskId r e st
      | Some (AwaitRequester (RequesterAccepted settings)) \<Rightarrow> requester_accepted taskId settings st
      | Some (AwaitRequester (RequesterRejected reason)) \<Rightarrow> requester_rejected taskId reason st
      | _ \<Rightarrow> st)"

section \<open>Matching offers and requests\<close>

definition warnOnTaskTypeMismatch :: "TaskRequest \<Rightarrow> TaskBroker \<Rightarrow> TaskBroker" where
  "warnOnTaskTypeMismatch request st =
     (if length (tb_pendingTaskOffers st) = 0 then st
      else if rq_requestId request \<in> set (tb_mismatchWarned st) then st
      else st\<lparr>tb_mismatchWarned := set_add (rq_requestId request) (tb_mismatchWarned st)\<rparr>)"

text \<open>\<^verbatim>\<open>findIndex\<close> and \<^verbatim>\<open>splice\<close>: the first offer of a type, and the other offers.\<close>

fun take_offer :: "string \<Rightarrow> TaskOffer list \<Rightarrow> (TaskOffer \<times> TaskOffer list) option" where
  "take_offer taskType [] = None"
| "take_offer taskType (offer # offers) =
     (if of_taskType offer = taskType then Some (offer, offers)
      else map_option (\<lambda>(found, rest). (found, offer # rest)) (take_offer taskType offers))"

definition settle_request :: "(nat \<Rightarrow> string) \<Rightarrow> nat \<Rightarrow> TaskBroker \<Rightarrow> TaskBroker" where
  "settle_request nanoid r st =
     (let request = tb_requestObj st r in
      if rq_acceptInProgress request = Some True then st
      else case take_offer (rq_taskType request) (tb_pendingTaskOffers st) of
             None \<Rightarrow> warnOnTaskTypeMismatch request st
           | Some (offer, offers) \<Rightarrow>
               acceptOffer nanoid offer r
                 ((set_request r (request\<lparr>rq_acceptInProgress := Some True\<rparr>) st)
                  \<lparr>tb_pendingTaskOffers := offers,
                   tb_mismatchWarned := set_delete (rq_requestId request) (tb_mismatchWarned st)\<rparr>))"

definition settleTasks :: "(nat \<Rightarrow> string) \<Rightarrow> int \<Rightarrow> TaskBroker \<Rightarrow> TaskBroker" where
  "settleTasks nanoid now st =
     (let st1 = expireTasks now st in fold (settle_request nanoid) (tb_pendingTaskRequests st1) st1)"

definition taskRequested :: "(nat \<Rightarrow> string) \<Rightarrow> int \<Rightarrow> nat \<Rightarrow> TaskBroker \<Rightarrow> TaskBroker" where
  "taskRequested nanoid now r st =
     (if tb_isDraining st then
        messageRequester (rq_requesterId (tb_requestObj st r)) (RequestExpired (rq_requestId (tb_requestObj st r)) ''draining'')
          (clear_timeout (rq_timeout (tb_requestObj st r)) st)
      else settleTasks nanoid now (st\<lparr>tb_pendingTaskRequests := tb_pendingTaskRequests st @ [r]\<rparr>))"

definition taskOffered :: "(nat \<Rightarrow> string) \<Rightarrow> int \<Rightarrow> TaskOffer \<Rightarrow> TaskBroker \<Rightarrow> TaskBroker" where
  "taskOffered nanoid now offer st =
     settleTasks nanoid now (st\<lparr>tb_pendingTaskOffers := tb_pendingTaskOffers st @ [offer]\<rparr>)"

definition startDraining :: "TaskBroker \<Rightarrow> TaskBroker" where
  "startDraining st = st\<lparr>tb_isDraining := True\<rparr>"

definition hasActiveTasks :: "TaskBroker \<Rightarrow> bool" where
  "hasActiveTasks st \<longleftrightarrow> length (tb_tasks st) > 0"

section \<open>Incoming messages, timers, microtasks\<close>

definition onRunnerMessage ::
  "(nat \<Rightarrow> string) \<Rightarrow> int \<Rightarrow> string \<Rightarrow> runner_message \<Rightarrow> TaskBroker \<Rightarrow> TaskBroker" where
  "onRunnerMessage nanoid now runnerId message st =
     (if map_get (tb_knownRunners st) runnerId = None then st
      else case message of
          RunnerTaskAccepted taskId \<Rightarrow> handleRunnerAccept taskId st
        | RunnerTaskRejected taskId reason \<Rightarrow> handleRunnerReject taskId reason st
        | RunnerTaskDeferred taskId \<Rightarrow> handleRunnerDeferred taskId st
        | RunnerTaskOffer offerId taskType validFor \<Rightarrow>
            taskOffered nanoid now \<lparr>of_offerId = offerId, of_runnerId = runnerId, of_taskType = taskType,
              of_validFor = validFor, of_validUntil = (if validFor = - 1 then 0 else now + validFor * 1000000)\<rparr> st
        | RunnerTaskDone taskId data \<Rightarrow> taskDoneHandler taskId data st
        | RunnerTaskError taskId error \<Rightarrow> taskErrorHandler taskId (ErrorValue error) st
        | RunnerTaskDataRequest taskId requestId params \<Rightarrow> handleDataRequest taskId requestId params st
        | RunnerNodeTypesRequest taskId requestId params \<Rightarrow> handleNodeTypesRequest taskId requestId params st
        | RunnerRPC taskId callId name params \<Rightarrow> handleRpcRequest taskId callId name params st
        | RunnerInfo \<Rightarrow> st)"

definition onRequesterMessage ::
  "(nat \<Rightarrow> string) \<Rightarrow> int \<Rightarrow> string \<Rightarrow> requester_message \<Rightarrow> TaskBroker \<Rightarrow> TaskBroker" where
  "onRequesterMessage nanoid now requesterId message st =
     (case message of
          RequesterTaskSettings taskId settings \<Rightarrow> handleRequesterAccept taskId settings st
        | RequesterTaskCancel taskId reason \<Rightarrow> cancelTask taskId reason st
        | RequesterTaskRequest requestId taskType \<Rightarrow>
            let r = tb_next st + 1;
                request = \<lparr>rq_requestId = requestId, rq_requesterId = requesterId, rq_taskType = taskType,
                           rq_timeout = Some (tb_next st), rq_acceptInProgress = None\<rparr>;
                st1 = set_timeout (RequestTimeout requestId) st
            in taskRequested nanoid now r (set_request r request (st1\<lparr>tb_next := r + 1\<rparr>))
        | RequesterTaskDataResponse taskId requestId data \<Rightarrow> handleRequesterDataResponse taskId requestId data st
        | RequesterNodeTypesResponse taskId requestId nodeTypes \<Rightarrow> handleRequesterNodeTypesResponse taskId requestId nodeTypes st
        | RequesterRPCResponse taskId callId status data \<Rightarrow> handleRequesterRpcResponse taskId callId status data st)"

definition timer_fired :: "runners_mode \<Rightarrow> nat \<Rightarrow> TaskBroker \<Rightarrow> TaskBroker" where
  "timer_fired mode tid st =
     (case map_get (tb_timers st) tid of
        None \<Rightarrow> st
      | Some action \<Rightarrow>
          (let st1 = st\<lparr>tb_timers := map_delete tid (tb_timers st)\<rparr>
           in case action of
                RequestTimeout requestId \<Rightarrow> handleRequestTimeout requestId st1
              | TaskTimeout taskId \<Rightarrow> handleTaskTimeout mode taskId st1
              | RunnerAcceptTimeout taskId \<Rightarrow> settle_runner taskId (RunnerRejected TaskRunnerAcceptTimeoutError) st1
              | RequesterAcceptTimeout taskId \<Rightarrow> settle_requester taskId (RequesterRejected None) st1))"

definition run_microtask :: "microtask \<Rightarrow> TaskBroker \<Rightarrow> TaskBroker" where
  "run_microtask m st =
     (if m \<in> set (tb_microtasks st) then
        (let st1 = st\<lparr>tb_microtasks := remove1 m (tb_microtasks st)\<rparr>
         in case m of
              DeleteTask taskId \<Rightarrow> drop_task taskId st1
            | RaiseTimeout taskId \<Rightarrow> taskErrorHandler taskId TaskRunnerExecutionTimeoutError st1
            | SendToRunner runnerId message \<Rightarrow> messageRunner runnerId message st1
            | ContinueSettings taskId runnerId settings \<Rightarrow> continue_settings taskId runnerId settings st1)
      else st)"

text \<open>
  The requests in flight: pending, or waited for by a call of \<^verbatim>\<open>acceptOffer\<close>. A requester gives a
  new request an id that no request in flight has (it draws them with \<^verbatim>\<open>nanoid\<close>).
\<close>

definition in_flight :: "TaskBroker \<Rightarrow> nat set" where
  "in_flight st = set (tb_pendingTaskRequests st)
     \<union> {r. \<exists>t offer a. map_get (tb_calls st) t = Some (AwaitRunner offer r a)}"

definition fresh_request :: "TaskBroker \<Rightarrow> requester_message \<Rightarrow> bool" where
  "fresh_request st message \<longleftrightarrow> (\<forall>requestId taskType. message = RequesterTaskRequest requestId taskType \<longrightarrow>
     requestId \<notin> (\<lambda>r. rq_requestId (tb_requestObj st r)) ` in_flight st)"

inductive broker_step :: "(nat \<Rightarrow> string) \<Rightarrow> runners_mode \<Rightarrow> TaskBroker \<Rightarrow> TaskBroker \<Rightarrow> bool"
  for nanoid mode where
  register_runner: "broker_step nanoid mode st (registerRunner runner st)"
| deregister_runner: "broker_step nanoid mode st (deregisterRunner runnerId message st)"
| register_requester: "broker_step nanoid mode st (registerRequester requesterId st)"
| deregister_requester: "broker_step nanoid mode st (deregisterRequester requesterId st)"
| from_runner: "broker_step nanoid mode st (onRunnerMessage nanoid now runnerId rm st)"
| from_requester: "fresh_request st qm \<Longrightarrow> broker_step nanoid mode st (onRequesterMessage nanoid now requesterId qm st)"
| timer: "broker_step nanoid mode st (timer_fired mode tid st)"
| resume: "broker_step nanoid mode st (resume_accept taskId st)"
| microtask: "broker_step nanoid mode st (run_microtask m st)"
| drain: "broker_step nanoid mode st (startDraining st)"

inductive_cases broker_stepE: "broker_step nanoid mode st st'"

end
