(* ===== verification/Task_Broker_Correct.thy ===== *)
theory Task_Broker_Correct
  imports Task_Broker
begin

text \<open>
  Correctness of the task broker: the invariant of its states and that every step keeps it, the
  completeness of the matching, and that no request and no call of \<^verbatim>\<open>acceptOffer\<close> can hang.
\<close>

section \<open>The invariant\<close>

text \<open>
  Requests: those in flight have different addresses and different ids.
\<close>

definition requests_inv :: "TaskBroker \<Rightarrow> bool" where
  "requests_inv st \<longleftrightarrow> distinct (tb_pendingTaskRequests st) \<and> (\<forall>r \<in> in_flight st. r < tb_next st)
     \<and> inj_on (\<lambda>r. rq_requestId (tb_requestObj st r)) (in_flight st)"

text \<open>
  Calls: their task ids were issued; a call that waits for a runner holds the lock of its request
  alone and has an offer of its type; a lock is held by a call.
\<close>

definition calls_inv :: "(nat \<Rightarrow> string) \<Rightarrow> TaskBroker \<Rightarrow> bool" where
  "calls_inv nanoid st \<longleftrightarrow>
     (\<forall>t c. map_get (tb_calls st) t = Some c \<longrightarrow> t \<in> nanoid ` {..<tb_nanoids st})
   \<and> (\<forall>t offer r a. map_get (tb_calls st) t = Some (AwaitRunner offer r a) \<longrightarrow>
        rq_acceptInProgress (tb_requestObj st r) = Some True \<and> of_taskType offer = rq_taskType (tb_requestObj st r))
   \<and> (\<forall>t t' offer offer' r a a'. map_get (tb_calls st) t = Some (AwaitRunner offer r a) \<longrightarrow>
        map_get (tb_calls st) t' = Some (AwaitRunner offer' r a') \<longrightarrow> t = t')
   \<and> (\<forall>r \<in> set (tb_pendingTaskRequests st). rq_acceptInProgress (tb_requestObj st r) = Some True \<longrightarrow>
        (\<exists>t offer a. map_get (tb_calls st) t = Some (AwaitRunner offer r a)))"

text \<open>Tasks: the key of a task is its id, and was issued.\<close>

definition tasks_inv :: "(nat \<Rightarrow> string) \<Rightarrow> TaskBroker \<Rightarrow> bool" where
  "tasks_inv nanoid st \<longleftrightarrow> distinct (keys_of (tb_tasks st))
     \<and> (\<forall>(t, task) \<in> set (tb_tasks st). tk_id task = t \<and> t \<in> nanoid ` {..<tb_nanoids st})"

text \<open>
  Timers: a timer that a request or a task refers to is its own or not active; a promise that is
  pending has an active timer that rejects it; a pending request has its active timer.
\<close>

definition own_timers :: "TaskBroker \<Rightarrow> bool" where
  "own_timers st \<longleftrightarrow>
     (\<forall>i a. map_get (tb_timers st) i = Some a \<longrightarrow> i < tb_next st)
   \<and> (\<forall>r \<in> in_flight st. \<forall>i. rq_timeout (tb_requestObj st r) = Some i \<longrightarrow> i < tb_next st
        \<and> (\<forall>a. map_get (tb_timers st) i = Some a \<longrightarrow> a = RequestTimeout (rq_requestId (tb_requestObj st r))))
   \<and> (\<forall>(t, task) \<in> set (tb_tasks st). \<forall>i. tk_timeout task = Some i \<longrightarrow> i < tb_next st
        \<and> (\<forall>a. map_get (tb_timers st) i = Some a \<longrightarrow> a = TaskTimeout t))"

text \<open>What relies on a timer.\<close>

fun relied_on :: "TaskBroker \<Rightarrow> timer_action \<Rightarrow> bool" where
  "relied_on st (TaskTimeout t) = False"
| "relied_on st (RequestTimeout i) = (\<exists>r \<in> set (tb_pendingTaskRequests st). rq_requestId (tb_requestObj st r) = i)"
| "relied_on st (RunnerAcceptTimeout t) = (\<exists>offer r. map_get (tb_calls st) t = Some (AwaitRunner offer r RunnerPending))"
| "relied_on st (RequesterAcceptTimeout t) = (map_get (tb_calls st) t = Some (AwaitRequester RequesterPending))"

lemma relied_on_mono:
  assumes "relied_on st' a" and "set (tb_pendingTaskRequests st') \<subseteq> set (tb_pendingTaskRequests st)"
    and "\<And>r. rq_requestId (tb_requestObj st' r) = rq_requestId (tb_requestObj st r)" and "tb_calls st' = tb_calls st"
  shows "relied_on st a"
  using assms by (cases a) auto

definition live_timers :: "TaskBroker \<Rightarrow> bool" where
  "live_timers st \<longleftrightarrow> (\<forall>a. relied_on st a \<longrightarrow> (\<exists>i. map_get (tb_timers st) i = Some a))
   \<and> (\<forall>r \<in> set (tb_pendingTaskRequests st). \<exists>i. rq_timeout (tb_requestObj st r) = Some i
        \<and> map_get (tb_timers st) i = Some (RequestTimeout (rq_requestId (tb_requestObj st r))))"

definition broker_inv :: "(nat \<Rightarrow> string) \<Rightarrow> TaskBroker \<Rightarrow> bool" where
  "broker_inv nanoid st \<longleftrightarrow> requests_inv st \<and> calls_inv nanoid st \<and> tasks_inv nanoid st \<and> own_timers st \<and> live_timers st"

lemmas inv_defs = broker_inv_def requests_inv_def calls_inv_def tasks_inv_def own_timers_def live_timers_def
  in_flight_def

lemma live_timers_mono:
  assumes "live_timers st"
    and "\<And>a. relied_on st' a \<Longrightarrow> relied_on st a"
    and "set (tb_pendingTaskRequests st') \<subseteq> set (tb_pendingTaskRequests st)"
    and "tb_requestObj st' = tb_requestObj st"
    and "\<And>i a. relied_on st' a \<Longrightarrow> map_get (tb_timers st) i = Some a \<Longrightarrow> map_get (tb_timers st') i = Some a"
  shows "live_timers st'"
proof -
  have "\<exists>i. map_get (tb_timers st') i = Some a" if "relied_on st' a" for a
    using that assms(1,2,5) unfolding live_timers_def by blast
  moreover have "\<exists>i. rq_timeout (tb_requestObj st' r) = Some i
      \<and> map_get (tb_timers st') i = Some (RequestTimeout (rq_requestId (tb_requestObj st' r)))"
    if r: "r \<in> set (tb_pendingTaskRequests st')" for r
  proof -
    have "relied_on st' (RequestTimeout (rq_requestId (tb_requestObj st' r)))"
      using r by auto
    moreover obtain i where "rq_timeout (tb_requestObj st r) = Some i"
        "map_get (tb_timers st) i = Some (RequestTimeout (rq_requestId (tb_requestObj st r)))"
      using r assms(1,3) unfolding live_timers_def by blast
    ultimately show ?thesis using assms(4,5) by auto
  qed
  ultimately show ?thesis unfolding live_timers_def by blast
qed

section \<open>What the invariant ignores\<close>

lemma relied_on_frame [simp]:
  "relied_on (st\<lparr>tb_knownRunners := kr\<rparr>) a = relied_on st a"
  "relied_on (st\<lparr>tb_requesters := rqs\<rparr>) a = relied_on st a"
  "relied_on (st\<lparr>tb_isDraining := d\<rparr>) a = relied_on st a"
  "relied_on (st\<lparr>tb_runnerAcceptRejects := ra\<rparr>) a = relied_on st a"
  "relied_on (st\<lparr>tb_requesterAcceptRejects := qa\<rparr>) a = relied_on st a"
  "relied_on (st\<lparr>tb_pendingTaskOffers := os\<rparr>) a = relied_on st a"
  "relied_on (st\<lparr>tb_mismatchWarned := w\<rparr>) a = relied_on st a"
  "relied_on (st\<lparr>tb_microtasks := ms\<rparr>) a = relied_on st a"
  "relied_on (st\<lparr>tb_sent := s\<rparr>) a = relied_on st a"
  "relied_on (st\<lparr>tb_tasks := ts\<rparr>) a = relied_on st a"
  "relied_on (st\<lparr>tb_timers := tms\<rparr>) a = relied_on st a"
  "relied_on (st\<lparr>tb_next := n\<rparr>) a = relied_on st a"
  "relied_on (st\<lparr>tb_nanoids := n\<rparr>) a = relied_on st a"
  by (cases a; simp)+

lemma broker_inv_frame [simp]:
  "broker_inv nanoid (st\<lparr>tb_knownRunners := kr\<rparr>) = broker_inv nanoid st"
  "broker_inv nanoid (st\<lparr>tb_requesters := rqs\<rparr>) = broker_inv nanoid st"
  "broker_inv nanoid (st\<lparr>tb_isDraining := d\<rparr>) = broker_inv nanoid st"
  "broker_inv nanoid (st\<lparr>tb_runnerAcceptRejects := ra\<rparr>) = broker_inv nanoid st"
  "broker_inv nanoid (st\<lparr>tb_requesterAcceptRejects := qa\<rparr>) = broker_inv nanoid st"
  "broker_inv nanoid (st\<lparr>tb_pendingTaskOffers := os\<rparr>) = broker_inv nanoid st"
  "broker_inv nanoid (st\<lparr>tb_mismatchWarned := w\<rparr>) = broker_inv nanoid st"
  "broker_inv nanoid (st\<lparr>tb_microtasks := ms\<rparr>) = broker_inv nanoid st"
  "broker_inv nanoid (st\<lparr>tb_sent := s\<rparr>) = broker_inv nanoid st"
  by (simp_all add: inv_defs)

lemma broker_inv_messages [simp]:
  "broker_inv nanoid (messageRunner runnerId m st) = broker_inv nanoid st"
  "broker_inv nanoid (messageRequester requesterId q st) = broker_inv nanoid st"
  "broker_inv nanoid (suspend mt st) = broker_inv nanoid st"
  by (simp_all add: messageRunner_def messageRequester_def suspend_def)

section \<open>The primitive changes\<close>

lemma broker_inv_new: "broker_inv nanoid new_broker"
proof -
  have "\<not> relied_on new_broker a" for a by (cases a) (simp_all add: new_broker_def)
  then show ?thesis by (simp add: inv_defs) (simp add: new_broker_def)
qed

lemma broker_inv_drop_task: "broker_inv nanoid st \<Longrightarrow> broker_inv nanoid (drop_task taskId st)"
  by (auto simp: inv_defs drop_task_def)

lemma broker_inv_unpend:
  assumes "broker_inv nanoid st"
  shows "broker_inv nanoid (st\<lparr>tb_pendingTaskRequests := remove1 r (tb_pendingTaskRequests st)\<rparr>)" (is "broker_inv _ ?st")
proof -
  have sub: "set (remove1 r (tb_pendingTaskRequests st)) \<subseteq> set (tb_pendingTaskRequests st)"
    by (rule set_remove1_subset)
  then have fl: "in_flight ?st \<subseteq> in_flight st" by (auto simp: in_flight_def)
  have "requests_inv ?st"
    using assms fl inj_on_subset [OF _ fl] by (auto simp: broker_inv_def requests_inv_def)
  moreover have "calls_inv nanoid ?st" "tasks_inv nanoid ?st"
    using assms sub by (auto simp: broker_inv_def calls_inv_def tasks_inv_def)
  moreover have "own_timers ?st"
    using assms fl by (auto simp: broker_inv_def own_timers_def)
  moreover have "relied_on ?st a \<Longrightarrow> relied_on st a" for a
    by (erule relied_on_mono) (use sub in auto)
  then have "live_timers ?st"
    using assms sub live_timers_mono [of st ?st] by (simp add: broker_inv_def)
  ultimately show ?thesis by (simp add: broker_inv_def)
qed

lemma broker_inv_clear:
  assumes inv: "broker_inv nanoid st"
    and unused: "\<And>i a. timeout = Some i \<Longrightarrow> map_get (tb_timers st) i = Some a \<Longrightarrow> \<not> relied_on st a"
  shows "broker_inv nanoid (clear_timeout timeout st)"
proof (cases timeout)
  case None
  with inv show ?thesis by (simp add: clear_timeout_def)
next
  case (Some i)
  let ?st = "clear_timeout timeout st"
  have same: "relied_on ?st a = relied_on st a" for a
    by (simp add: Some clear_timeout_def)
  have "live_timers ?st"
    by (rule live_timers_mono [of st])
      (use inv unused Some same in \<open>auto simp: broker_inv_def clear_timeout_def map_of_map_delete\<close>)
  moreover have "own_timers ?st"
    using inv by (auto simp: broker_inv_def own_timers_def Some clear_timeout_def map_of_map_delete in_flight_def)
  moreover have "requests_inv ?st" "calls_inv nanoid ?st" "tasks_inv nanoid ?st"
    using inv by (simp_all add: inv_defs Some clear_timeout_def)
  ultimately show ?thesis by (simp add: broker_inv_def)
qed

lemma timer_bound: "broker_inv nanoid st \<Longrightarrow> map_get (tb_timers st) i = Some a \<Longrightarrow> i < tb_next st"
  unfolding broker_inv_def own_timers_def by blast

lemma broker_inv_set_timeout:
  assumes "broker_inv nanoid st"
  shows "broker_inv nanoid (set_timeout a st)"
proof -
  let ?st = "set_timeout a st"
  have get: "map_get (tb_timers ?st) i = (if i = tb_next st then Some a else map_get (tb_timers st) i)" for i
    by (simp add: set_timeout_def js_map.get_put)
  have "requests_inv ?st" "calls_inv nanoid ?st" "tasks_inv nanoid ?st"
    using assms by (auto simp: broker_inv_def requests_inv_def calls_inv_def tasks_inv_def set_timeout_def in_flight_def less_Suc_eq)
  moreover have "own_timers ?st"
    using assms by (fastforce simp: broker_inv_def own_timers_def get set_timeout_def in_flight_def js_map.get_put less_Suc_eq)
  moreover have "live_timers ?st"
    by (rule live_timers_mono [of st])
      (use assms timer_bound [OF assms] in \<open>auto simp: broker_inv_def get\<close>, auto simp: set_timeout_def)
  ultimately show ?thesis by (simp add: broker_inv_def)
qed

section \<open>Calls of \<^verbatim>\<open>acceptOffer\<close>\<close>

lemma calls_invI:
  assumes "\<And>t c. map_get (tb_calls st) t = Some c \<Longrightarrow> t \<in> nanoid ` {..<tb_nanoids st}"
    and "\<And>t offer r a. map_get (tb_calls st) t = Some (AwaitRunner offer r a) \<Longrightarrow>
       rq_acceptInProgress (tb_requestObj st r) = Some True \<and> of_taskType offer = rq_taskType (tb_requestObj st r)"
    and "\<And>t t' offer offer' r a a'. map_get (tb_calls st) t = Some (AwaitRunner offer r a) \<Longrightarrow>
       map_get (tb_calls st) t' = Some (AwaitRunner offer' r a') \<Longrightarrow> t = t'"
    and "\<And>r. r \<in> set (tb_pendingTaskRequests st) \<Longrightarrow> rq_acceptInProgress (tb_requestObj st r) = Some True \<Longrightarrow>
       \<exists>t offer a. map_get (tb_calls st) t = Some (AwaitRunner offer r a)"
  shows "calls_inv nanoid st"
  using assms unfolding calls_inv_def by blast

lemma call_issued:
  "calls_inv nanoid st \<Longrightarrow> map_get (tb_calls st) t = Some c \<Longrightarrow> t \<in> nanoid ` {..<tb_nanoids st}"
  unfolding calls_inv_def by blast

lemma call_lock:
  "calls_inv nanoid st \<Longrightarrow> map_get (tb_calls st) t = Some (AwaitRunner offer r a) \<Longrightarrow>
     rq_acceptInProgress (tb_requestObj st r) = Some True \<and> of_taskType offer = rq_taskType (tb_requestObj st r)"
  unfolding calls_inv_def by blast

lemma call_unique:
  "calls_inv nanoid st \<Longrightarrow> map_get (tb_calls st) t = Some (AwaitRunner offer r a) \<Longrightarrow>
     map_get (tb_calls st) t' = Some (AwaitRunner offer' r a') \<Longrightarrow> t = t'"
  unfolding calls_inv_def by blast

lemma lock_held:
  "calls_inv nanoid st \<Longrightarrow> r \<in> set (tb_pendingTaskRequests st) \<Longrightarrow> rq_acceptInProgress (tb_requestObj st r) = Some True \<Longrightarrow>
     \<exists>t offer a. map_get (tb_calls st) t = Some (AwaitRunner offer r a)"
  unfolding calls_inv_def by blast

lemma calls_inv_mono:
  assumes inv: "calls_inv nanoid st"
    and "\<And>t c. map_get (tb_calls st') t = Some c \<Longrightarrow> \<exists>c. map_get (tb_calls st) t = Some c"
    and runner: "\<And>t offer r a. map_get (tb_calls st') t = Some (AwaitRunner offer r a) \<Longrightarrow>
       \<exists>a. map_get (tb_calls st) t = Some (AwaitRunner offer r a)"
    and "\<And>t offer r a. r \<in> set (tb_pendingTaskRequests st) \<Longrightarrow> map_get (tb_calls st) t = Some (AwaitRunner offer r a) \<Longrightarrow>
       \<exists>a. map_get (tb_calls st') t = Some (AwaitRunner offer r a)"
    and "tb_pendingTaskRequests st' = tb_pendingTaskRequests st" and "tb_requestObj st' = tb_requestObj st"
    and "tb_nanoids st' = tb_nanoids st"
  shows "calls_inv nanoid st'"
proof (rule calls_invI, unfold assms(5-7))
  fix t t' offer offer' r a a'
  assume "map_get (tb_calls st') t = Some (AwaitRunner offer r a)" "map_get (tb_calls st') t' = Some (AwaitRunner offer' r a')"
  then show "t = t'" using call_unique [OF inv] runner by metis
next
  fix r
  assume r: "r \<in> set (tb_pendingTaskRequests st)" and "rq_acceptInProgress (tb_requestObj st r) = Some True"
  then obtain t offer a where "map_get (tb_calls st) t = Some (AwaitRunner offer r a)" using lock_held [OF inv] by blast
  from assms(4) [OF r this] show "\<exists>t offer a. map_get (tb_calls st') t = Some (AwaitRunner offer r a)" by blast
qed (use call_issued [OF inv] call_lock [OF inv] assms(2) runner in blast)+

lemma broker_inv_answer_runner:
  assumes inv: "broker_inv nanoid st" and t: "map_get (tb_calls st) t = Some (AwaitRunner offer r RunnerPending)"
    and answer: "answer \<noteq> RunnerPending"
  shows "broker_inv nanoid (st\<lparr>tb_calls := map_set t (AwaitRunner offer r answer) (tb_calls st)\<rparr>)" (is "broker_inv _ ?st")
proof -
  have fl: "in_flight ?st = in_flight st"
    using t by (auto simp: in_flight_def js_map.get_put split: if_splits) (metis option.inject accept_call.inject(1) accept_call.distinct(1))
  have "relied_on ?st a \<Longrightarrow> relied_on st a" for a
    using answer by (cases a) (auto simp: js_map.get_put split: if_splits)
  then have "live_timers ?st"
    using inv live_timers_mono [of st ?st] by (simp add: broker_inv_def)
  moreover have "requests_inv ?st" "tasks_inv nanoid ?st" "own_timers ?st"
    using inv fl by (simp_all add: broker_inv_def requests_inv_def tasks_inv_def own_timers_def)
  moreover have "calls_inv nanoid ?st"
    by (rule calls_inv_mono [of _ st]) (use inv t in \<open>auto simp: broker_inv_def js_map.get_put split: if_splits\<close>)
  ultimately show ?thesis by (simp add: broker_inv_def)
qed

lemma broker_inv_answer_requester:
  assumes inv: "broker_inv nanoid st" and t: "map_get (tb_calls st) t = Some (AwaitRequester RequesterPending)"
    and answer: "answer \<noteq> RequesterPending"
  shows "broker_inv nanoid (st\<lparr>tb_calls := map_set t (AwaitRequester answer) (tb_calls st)\<rparr>)" (is "broker_inv _ ?st")
proof -
  have fl: "in_flight ?st = in_flight st"
    using t by (auto simp: in_flight_def js_map.get_put split: if_splits) (metis option.inject accept_call.inject(1) accept_call.distinct(1))
  have "relied_on ?st a \<Longrightarrow> relied_on st a" for a
    using answer by (cases a) (auto simp: js_map.get_put split: if_splits)
  then have "live_timers ?st"
    using inv live_timers_mono [of st ?st] by (simp add: broker_inv_def)
  moreover have "requests_inv ?st" "tasks_inv nanoid ?st" "own_timers ?st"
    using inv fl by (simp_all add: broker_inv_def requests_inv_def tasks_inv_def own_timers_def)
  moreover have "calls_inv nanoid ?st"
    by (rule calls_inv_mono [of _ st]) (use inv t in \<open>auto simp: broker_inv_def js_map.get_put split: if_splits\<close>)
  ultimately show ?thesis by (simp add: broker_inv_def)
qed

lemma broker_inv_settle_runner:
  "broker_inv nanoid st \<Longrightarrow> answer \<noteq> RunnerPending \<Longrightarrow> broker_inv nanoid (settle_runner t answer st)"
  by (auto simp: settle_runner_def broker_inv_answer_runner split: option.split accept_call.split runner_answer.split)

lemma broker_inv_settle_requester:
  "broker_inv nanoid st \<Longrightarrow> answer \<noteq> RequesterPending \<Longrightarrow> broker_inv nanoid (settle_requester t answer st)"
  by (auto simp: settle_requester_def broker_inv_answer_requester split: option.split accept_call.split requester_answer.split)

text \<open>A call ends or goes on to its second promise once its request is no longer pending.\<close>

lemma broker_inv_end_call:
  assumes inv: "broker_inv nanoid st"
    and free: "\<And>offer r a. map_get (tb_calls st) t = Some (AwaitRunner offer r a) \<Longrightarrow> r \<notin> set (tb_pendingTaskRequests st)"
  shows "broker_inv nanoid (end_call t st)" (is "broker_inv _ ?st")
proof -
  have get: "map_get (tb_calls ?st) = (map_get (tb_calls st))(t := None)" by (simp add: end_call_def map_of_map_delete)
  have same: "tb_pendingTaskRequests ?st = tb_pendingTaskRequests st" "tb_requestObj ?st = tb_requestObj st"
    "tb_timers ?st = tb_timers st" "tb_next ?st = tb_next st" "tb_tasks ?st = tb_tasks st" "tb_nanoids ?st = tb_nanoids st"
    by (simp_all add: end_call_def)
  have fl: "in_flight ?st \<subseteq> in_flight st" by (auto simp: in_flight_def get same split: if_splits)
  have "relied_on ?st a \<Longrightarrow> relied_on st a" for a
    by (cases a) (auto simp: get same split: if_splits)
  then have "live_timers ?st"
    using inv live_timers_mono [of st ?st] same by (simp add: broker_inv_def)
  moreover have "requests_inv ?st" "tasks_inv nanoid ?st" "own_timers ?st"
    using inv fl inj_on_subset [OF _ fl] same by (auto simp: broker_inv_def requests_inv_def tasks_inv_def own_timers_def)
  moreover have "calls_inv nanoid ?st"
    by (rule calls_inv_mono [of _ st]) (use inv free in \<open>auto simp: broker_inv_def get same split: if_splits\<close>)
  ultimately show ?thesis by (simp add: broker_inv_def)
qed

lemma broker_inv_await_requester:
  assumes inv: "broker_inv nanoid st" and timer: "map_get (tb_timers st) i = Some (RequesterAcceptTimeout t)"
    and t: "map_get (tb_calls st) t = Some (AwaitRunner offer r a)" and free: "r \<notin> set (tb_pendingTaskRequests st)"
  shows "broker_inv nanoid (st\<lparr>tb_calls := map_set t (AwaitRequester RequesterPending) (tb_calls st)\<rparr>)" (is "broker_inv _ ?st")
proof -
  have fl: "in_flight ?st \<subseteq> in_flight st" by (auto simp: in_flight_def js_map.get_put split: if_splits)
  have "relied_on ?st b \<Longrightarrow> relied_on st b \<or> b = RequesterAcceptTimeout t" for b
    by (cases b) (auto simp: js_map.get_put split: if_splits)
  then have "live_timers ?st"
    using inv timer unfolding broker_inv_def live_timers_def by simp blast
  moreover have "requests_inv ?st" "tasks_inv nanoid ?st" "own_timers ?st"
    using inv fl inj_on_subset [OF _ fl] by (auto simp: broker_inv_def requests_inv_def tasks_inv_def own_timers_def)
  moreover have "calls_inv nanoid ?st"
    by (rule calls_inv_mono [of _ st]) (use inv t free in \<open>auto simp: broker_inv_def js_map.get_put split: if_splits\<close>)
  ultimately show ?thesis by (simp add: broker_inv_def)
qed

section \<open>The handlers\<close>

lemma call_in_flight: "map_get (tb_calls st) t = Some (AwaitRunner offer r a) \<Longrightarrow> r \<in> in_flight st"
  by (auto simp: in_flight_def)

lemma pending_in_flight: "r \<in> set (tb_pendingTaskRequests st) \<Longrightarrow> r \<in> in_flight st"
  by (simp add: in_flight_def)

lemma request_inj:
  "broker_inv nanoid st \<Longrightarrow> p \<in> in_flight st \<Longrightarrow> r \<in> in_flight st \<Longrightarrow>
     rq_requestId (tb_requestObj st p) = rq_requestId (tb_requestObj st r) \<Longrightarrow> p = r"
  unfolding broker_inv_def requests_inv_def by (elim conjE) (drule inj_onD, assumption+)

lemma request_clear_unused:
  assumes inv: "broker_inv nanoid st" and r: "r \<in> in_flight st" and free: "r \<notin> set (tb_pendingTaskRequests st)"
    and "rq_timeout (tb_requestObj st r) = Some i" and "map_get (tb_timers st) i = Some a"
  shows "\<not> relied_on st a"
proof -
  have a: "a = RequestTimeout (rq_requestId (tb_requestObj st r))"
    using inv r assms(4,5) by (auto simp: broker_inv_def own_timers_def)
  have "rq_requestId (tb_requestObj st p) \<noteq> rq_requestId (tb_requestObj st r)" if "p \<in> set (tb_pendingTaskRequests st)" for p
    using request_inj [OF inv pending_in_flight [OF that] r] that free by auto
  then show ?thesis by (auto simp: a)
qed

lemma find_unique:
  assumes "x \<in> set xs" and "P x" and "\<And>y. y \<in> set xs \<Longrightarrow> P y \<Longrightarrow> y = x"
  shows "find P xs = Some x"
proof (cases "find P xs")
  case None
  with assms(1,2) show ?thesis by (auto simp: find_None_iff)
next
  case (Some y)
  then have "y \<in> set xs" "P y" by (auto simp: find_Some_iff)
  with Some assms(3) show ?thesis by blast
qed

text \<open>Looking a request up by its id finds the request itself.\<close>

lemma find_request:
  assumes inv: "broker_inv nanoid st" and r: "r \<in> in_flight st"
  shows "find (\<lambda>p. rq_requestId (tb_requestObj st p) = rq_requestId (tb_requestObj st r)) (tb_pendingTaskRequests st)
    = (if r \<in> set (tb_pendingTaskRequests st) then Some r else None)"
proof -
  have "p = r" if "p \<in> set (tb_pendingTaskRequests st)" "rq_requestId (tb_requestObj st p) = rq_requestId (tb_requestObj st r)" for p
    using request_inj [OF inv pending_in_flight [OF that(1)] r that(2)] .
  then show ?thesis by (auto simp: find_None_iff intro!: find_unique)
qed

lemma not_pending_remove1:
  "broker_inv nanoid st \<Longrightarrow> r \<notin> set (remove1 r (tb_pendingTaskRequests st))"
  by (simp add: broker_inv_def requests_inv_def)

lemma broker_inv_unlock:
  assumes inv: "broker_inv nanoid st" and t: "map_get (tb_calls st) t = Some (AwaitRunner offer r a)"
  shows "broker_inv nanoid (set_request r ((tb_requestObj st r)\<lparr>rq_acceptInProgress := Some False\<rparr>) (end_call t st))" (is "broker_inv _ ?st")
proof -
  have get: "map_get (tb_calls ?st) = (map_get (tb_calls st))(t := None)"
    by (simp add: end_call_def set_request_def map_of_map_delete)
  have same: "tb_pendingTaskRequests ?st = tb_pendingTaskRequests st"
    "tb_timers ?st = tb_timers st" "tb_next ?st = tb_next st" "tb_tasks ?st = tb_tasks st" "tb_nanoids ?st = tb_nanoids st"
    by (simp_all add: end_call_def set_request_def)
  have obj: "rq_requestId (tb_requestObj ?st p) = rq_requestId (tb_requestObj st p)"
    "rq_timeout (tb_requestObj ?st p) = rq_timeout (tb_requestObj st p)"
    "rq_taskType (tb_requestObj ?st p) = rq_taskType (tb_requestObj st p)"
    "rq_acceptInProgress (tb_requestObj ?st p) = (if p = r then Some False else rq_acceptInProgress (tb_requestObj st p))" for p
    by (simp_all add: end_call_def set_request_def)
  have fl: "in_flight ?st \<subseteq> in_flight st" by (auto simp: in_flight_def get same split: if_splits)
  have rel: "relied_on ?st b \<Longrightarrow> relied_on st b" for b
    by (cases b) (auto simp: get same obj split: if_splits)
  have "live_timers ?st"
    using inv rel by (auto simp: broker_inv_def live_timers_def same obj)
  moreover have "requests_inv ?st"
    using inv fl inj_on_subset [OF _ fl] by (auto simp: broker_inv_def requests_inv_def same obj)
  moreover have "tasks_inv nanoid ?st" "own_timers ?st"
    using inv fl by (auto simp: broker_inv_def tasks_inv_def own_timers_def same obj)
  moreover have "calls_inv nanoid ?st"
  proof -
    from inv have c: "calls_inv nanoid st" by (simp add: broker_inv_def)
    show ?thesis
    proof (rule calls_invI, unfold get same obj)
      fix t' offer' r' a'
      assume "((map_get (tb_calls st))(t := None)) t' = Some (AwaitRunner offer' r' a')"
      then have t': "t' \<noteq> t" "map_get (tb_calls st) t' = Some (AwaitRunner offer' r' a')" by (auto split: if_splits)
      with call_unique [OF c t] have "r' \<noteq> r" by blast
      with call_lock [OF c t'(2)]
      show "(if r' = r then Some False else rq_acceptInProgress (tb_requestObj st r')) = Some True
        \<and> of_taskType offer' = rq_taskType (tb_requestObj st r')" by simp
    next
      fix r'
      assume r': "r' \<in> set (tb_pendingTaskRequests st)"
        and "(if r' = r then Some False else rq_acceptInProgress (tb_requestObj st r')) = Some True"
      then have r'': "r' \<noteq> r" "rq_acceptInProgress (tb_requestObj st r') = Some True" by (simp_all split: if_splits)
      from lock_held [OF c r' r''(2)] obtain t' offer' a' where t': "map_get (tb_calls st) t' = Some (AwaitRunner offer' r' a')"
        by blast
      with t r''(1) have "t' \<noteq> t" by auto
      with t' show "\<exists>t' offer a. ((map_get (tb_calls st))(t := None)) t' = Some (AwaitRunner offer r' a)" by auto
    qed (use call_issued [OF c] call_unique [OF c] in \<open>auto split: if_splits\<close>)
  qed
  ultimately show ?thesis by (simp add: broker_inv_def)
qed

lemma broker_inv_renew:
  assumes inv: "broker_inv nanoid st"
    and own: "\<And>i a. rq_timeout (tb_requestObj st r) = Some i \<Longrightarrow> map_get (tb_timers st) i = Some a \<Longrightarrow>
       a = RequestTimeout (rq_requestId (tb_requestObj st r))"
    and only: "\<And>p. p \<in> set (tb_pendingTaskRequests st) \<Longrightarrow>
       rq_requestId (tb_requestObj st p) = rq_requestId (tb_requestObj st r) \<Longrightarrow> p = r"
  shows "broker_inv nanoid (set_request r ((tb_requestObj st r)\<lparr>rq_timeout := Some (tb_next st)\<rparr>)
     (set_timeout (RequestTimeout (rq_requestId (tb_requestObj st r))) (clear_timeout (rq_timeout (tb_requestObj st r)) st)))"
    (is "broker_inv _ ?st")
proof -
  let ?id = "rq_requestId (tb_requestObj st r)" and ?old = "rq_timeout (tb_requestObj st r)"
  have tm: "map_get (tb_timers ?st) i =
      (if i = tb_next st then Some (RequestTimeout ?id) else if ?old = Some i then None else map_get (tb_timers st) i)" for i
    by (cases ?old) (auto simp: set_request_def set_timeout_def clear_timeout_def js_map.get_put map_of_map_delete)
  have same: "tb_pendingTaskRequests ?st = tb_pendingTaskRequests st" "tb_calls ?st = tb_calls st"
    "tb_next ?st = tb_next st + 1" "tb_tasks ?st = tb_tasks st" "tb_nanoids ?st = tb_nanoids st"
    by (simp_all add: set_request_def set_timeout_def clear_timeout_def split: option.split)
  have obj: "rq_requestId (tb_requestObj ?st p) = rq_requestId (tb_requestObj st p)"
    "rq_timeout (tb_requestObj ?st p) = (if p = r then Some (tb_next st) else rq_timeout (tb_requestObj st p))"
    "rq_taskType (tb_requestObj ?st p) = rq_taskType (tb_requestObj st p)"
    "rq_acceptInProgress (tb_requestObj ?st p) = rq_acceptInProgress (tb_requestObj st p)" for p
    by (simp_all add: set_request_def set_timeout_def clear_timeout_def split: option.split)
  have fl: "in_flight ?st = in_flight st" by (simp add: in_flight_def same)
  have rel: "relied_on ?st b \<Longrightarrow> relied_on st b" for b by (erule relied_on_mono) (simp_all add: same obj)
  have kept: "map_get (tb_timers ?st) i = Some b" if "map_get (tb_timers st) i = Some b" "b \<noteq> RequestTimeout ?id" for i b
    using that own [of i b] timer_bound [OF inv that(1)] by (auto simp: tm)
  have "\<exists>i. map_get (tb_timers ?st) i = Some b" if "relied_on ?st b" for b
  proof (cases "b = RequestTimeout ?id")
    case True
    then have "map_get (tb_timers ?st) (tb_next st) = Some b" by (simp add: tm)
    then show ?thesis ..
  next
    case False
    from rel [OF that] inv obtain i where "map_get (tb_timers st) i = Some b"
      unfolding broker_inv_def live_timers_def by blast
    from kept [OF this False] show ?thesis ..
  qed
  moreover have "\<exists>i. rq_timeout (tb_requestObj ?st p) = Some i
      \<and> map_get (tb_timers ?st) i = Some (RequestTimeout (rq_requestId (tb_requestObj ?st p)))"
    if "p \<in> set (tb_pendingTaskRequests st)" for p
    using that kept only [OF that] inv tm [of "tb_next st"] unfolding obj
    by (cases "p = r") (fastforce simp: broker_inv_def live_timers_def)+
  ultimately have "live_timers ?st" by (simp add: live_timers_def same)
  moreover have "requests_inv ?st" "tasks_inv nanoid ?st" "calls_inv nanoid ?st"
    using inv by (auto simp: broker_inv_def requests_inv_def tasks_inv_def calls_inv_def same obj fl less_Suc_eq)
  moreover have "own_timers ?st"
    using inv unfolding broker_inv_def own_timers_def fl same obj tm by (auto simp: less_Suc_eq split: if_splits)
  ultimately show ?thesis by (simp add: broker_inv_def)
qed

lemma broker_inv_runner_rejected:
  assumes inv: "broker_inv nanoid st" and t: "map_get (tb_calls st) t = Some (AwaitRunner offer r a)"
  shows "broker_inv nanoid (runner_rejected t r e st)"
proof -
  let ?st = "set_request r ((tb_requestObj st r)\<lparr>rq_acceptInProgress := Some False\<rparr>) (end_call t st)"
  have inv1: "broker_inv nanoid ?st" by (rule broker_inv_unlock [OF inv t])
  note r = call_in_flight [OF t]
  have "broker_inv nanoid (set_request r ((tb_requestObj ?st r)\<lparr>rq_timeout := Some (tb_next ?st)\<rparr>)
     (set_timeout (RequestTimeout (rq_requestId (tb_requestObj ?st r))) (clear_timeout (rq_timeout (tb_requestObj ?st r)) ?st)))"
  proof (rule broker_inv_renew [OF inv1])
    fix i b
    assume "rq_timeout (tb_requestObj ?st r) = Some i" "map_get (tb_timers ?st) i = Some b"
    then show "b = RequestTimeout (rq_requestId (tb_requestObj ?st r))"
      using inv r by (simp add: broker_inv_def own_timers_def set_request_def end_call_def)
  next
    fix p
    assume p: "p \<in> set (tb_pendingTaskRequests ?st)" "rq_requestId (tb_requestObj ?st p) = rq_requestId (tb_requestObj ?st r)"
    then have "p \<in> in_flight st" "rq_requestId (tb_requestObj st p) = rq_requestId (tb_requestObj st r)"
      by (auto simp: in_flight_def set_request_def end_call_def split: if_splits)
    then show "p = r" using request_inj [OF inv _ r] by blast
  qed
  then show ?thesis using inv1 by (simp add: runner_rejected_def Let_def split: reject_reason.split)
qed

lemma broker_inv_add_task:
  assumes inv: "broker_inv nanoid st" and "t \<in> nanoid ` {..<tb_nanoids st}" and "tk_id task = t"
    and timer: "\<And>i. tk_timeout task = Some i \<Longrightarrow> i < tb_next st \<and> (\<forall>a. map_get (tb_timers st) i = Some a \<longrightarrow> a = TaskTimeout t)"
  shows "broker_inv nanoid (st\<lparr>tb_tasks := map_set t task (tb_tasks st)\<rparr>)" (is "broker_inv _ ?st")
proof -
  have dist: "distinct (keys_of (tb_tasks st))" using inv by (simp add: broker_inv_def tasks_inv_def)
  have entries: "(k, v) \<in> set (tb_tasks ?st) \<Longrightarrow> k = t \<and> v = task \<or> (k, v) \<in> set (tb_tasks st)" for k v
    using set_map_update [OF dist, of t task] by (auto simp: map_set_def split: if_splits)
  have "tk_id v = k \<and> k \<in> nanoid ` {..<tb_nanoids st}" if "(k, v) \<in> set (tb_tasks ?st)" for k v
    using entries [OF that] inv assms(2,3) by (auto simp: broker_inv_def tasks_inv_def)
  then have "tasks_inv nanoid ?st"
    using js_map.distinct_put [OF dist] by (auto simp: tasks_inv_def)
  moreover have "i < tb_next st \<and> (\<forall>a. map_get (tb_timers st) i = Some a \<longrightarrow> a = TaskTimeout k)"
    if "(k, v) \<in> set (tb_tasks ?st)" "tk_timeout v = Some i" for k v i
    using entries [OF that(1)] inv timer that(2) by (auto simp: broker_inv_def own_timers_def)
  then have "own_timers ?st"
    using inv by (auto simp: broker_inv_def own_timers_def in_flight_def)
  moreover have "requests_inv ?st" "calls_inv nanoid ?st" "live_timers ?st"
    using inv by (simp_all add: broker_inv_def requests_inv_def calls_inv_def live_timers_def in_flight_def)
  ultimately show ?thesis by (simp add: broker_inv_def)
qed

lemma clear_timeout_select [simp]:
  "tb_pendingTaskRequests (clear_timeout x st) = tb_pendingTaskRequests st"
  "tb_requestObj (clear_timeout x st) = tb_requestObj st"
  "tb_calls (clear_timeout x st) = tb_calls st"
  "tb_tasks (clear_timeout x st) = tb_tasks st"
  "tb_nanoids (clear_timeout x st) = tb_nanoids st"
  "tb_next (clear_timeout x st) = tb_next st"
  "tb_knownRunners (clear_timeout x st) = tb_knownRunners st"
  "tb_pendingTaskOffers (clear_timeout x st) = tb_pendingTaskOffers st"
  by (simp_all add: clear_timeout_def split: option.split)

lemma clear_timeout_swap:
  "clear_timeout x (st\<lparr>tb_pendingTaskRequests := ps\<rparr>) = (clear_timeout x st)\<lparr>tb_pendingTaskRequests := ps\<rparr>"
  "clear_timeout x (st\<lparr>tb_mismatchWarned := w\<rparr>) = (clear_timeout x st)\<lparr>tb_mismatchWarned := w\<rparr>"
  by (simp_all add: clear_timeout_def split: option.split)

lemma broker_inv_runner_accepted:
  assumes inv: "broker_inv nanoid st" and t: "map_get (tb_calls st) t = Some (AwaitRunner offer r a)"
  shows "broker_inv nanoid (runner_accepted t offer r st)"
proof -
  let ?request = "tb_requestObj st r"
  let ?task = "\<lparr>tk_id = t, tk_runnerId = of_runnerId offer, tk_requesterId = rq_requesterId ?request,
                  tk_taskType = of_taskType offer, tk_timeout = None\<rparr>"
  let ?p = "st\<lparr>tb_pendingTaskRequests := remove1 r (tb_pendingTaskRequests st)\<rparr>"
  let ?c = "clear_timeout (rq_timeout ?request) ?p"
  let ?s = "?c\<lparr>tb_tasks := map_set t ?task (tb_tasks ?c)\<rparr>"
  note r = call_in_flight [OF t]
  have issued: "t \<in> nanoid ` {..<tb_nanoids st}" using inv call_issued t by (auto simp: broker_inv_def)
  have p: "broker_inv nanoid ?p" by (rule broker_inv_unpend [OF inv])
  have free: "r \<notin> set (tb_pendingTaskRequests ?p)" using not_pending_remove1 [OF inv] by simp
  have rp: "r \<in> in_flight ?p" using t by (auto simp: in_flight_def)
  have "broker_inv nanoid ?c"
    by (rule broker_inv_clear [OF p]) (rule request_clear_unused [OF p rp free], simp_all)
  then have s: "broker_inv nanoid ?s"
    by (rule broker_inv_add_task) (use issued in simp_all)
  have ts: "map_get (tb_calls ?s) t = Some (AwaitRunner offer r a)" using t by simp
  have found: "find (\<lambda>p. rq_requestId (tb_requestObj st p) = rq_requestId ?request) (tb_pendingTaskRequests st)
      = (if r \<in> set (tb_pendingTaskRequests st) then Some r else None)"
    by (rule find_request [OF inv r])
  show ?thesis
  proof (cases "r \<in> set (tb_pendingTaskRequests st)")
    case False
    then have eq: "runner_accepted t offer r st = end_call t ?s"
      using found by (simp add: runner_accepted_def Let_def remove1_idem clear_timeout_swap)
    have "broker_inv nanoid (end_call t ?s)"
      by (rule broker_inv_end_call [OF s]) (use ts free in auto)
    then show ?thesis by (simp only: eq)
  next
    case True
    let ?a = "set_timeout (RequesterAcceptTimeout t) (?s\<lparr>tb_requesterAcceptRejects := set_add t (tb_requesterAcceptRejects ?s)\<rparr>)"
    have a: "broker_inv nanoid ?a" by (rule broker_inv_set_timeout) (use s in simp)
    have "broker_inv nanoid (?a\<lparr>tb_calls := map_set t (AwaitRequester RequesterPending) (tb_calls ?a)\<rparr>)"
      by (rule broker_inv_await_requester [OF a, of "tb_next st"])
        (use t free in \<open>simp_all add: set_timeout_def js_map.get_put\<close>)
    moreover have "runner_accepted t offer r st = messageRequester (rq_requesterId ?request) (TaskReady (rq_requestId ?request) t)
        (?a\<lparr>tb_calls := map_set t (AwaitRequester RequesterPending) (tb_calls ?a)\<rparr>)"
      using True found
      by (simp add: runner_accepted_def Let_def clear_timeout_swap messageRequester_def set_timeout_def)
    ultimately show ?thesis by simp
  qed
qed

lemma task_clear_unused:
  assumes inv: "broker_inv nanoid st" and t: "map_get (tb_tasks st) t = Some task"
    and "tk_timeout task = Some i" and "map_get (tb_timers st) i = Some a"
  shows "\<not> relied_on st a"
proof -
  have "a = TaskTimeout t"
    using inv map_of_SomeD [OF t] assms(3,4) by (auto simp: broker_inv_def own_timers_def)
  then show ?thesis by simp
qed

lemma broker_inv_finish_task: "broker_inv nanoid st \<Longrightarrow> broker_inv nanoid (finish_task t message st)"
  by (auto simp: finish_task_def split: option.split intro: broker_inv_clear dest: task_clear_unused)

lemma broker_inv_cancelTask: "broker_inv nanoid st \<Longrightarrow> broker_inv nanoid (cancelTask t reason st)"
  by (simp add: cancelTask_def broker_inv_drop_task split: option.split)

lemma broker_inv_failTask: "broker_inv nanoid st \<Longrightarrow> broker_inv nanoid (failTask t e st)"
  by (simp add: failTask_def broker_inv_drop_task split: option.split)

lemma broker_inv_getRunnerOrFailTask: "broker_inv nanoid st \<Longrightarrow> broker_inv nanoid (fst (getRunnerOrFailTask t st))"
  by (simp add: getRunnerOrFailTask_def broker_inv_failTask Let_def split: option.split)

lemma broker_inv_respond: "broker_inv nanoid st \<Longrightarrow> broker_inv nanoid (respond_to_runner t m st)"
  using broker_inv_getRunnerOrFailTask [of nanoid st t]
  by (auto simp: respond_to_runner_def split: prod.split sum.split)

lemma broker_inv_sendTaskSettings: "broker_inv nanoid st \<Longrightarrow> broker_inv nanoid (fst (sendTaskSettings t settings st))"
  using broker_inv_getRunnerOrFailTask [of nanoid st t]
  by (auto simp: sendTaskSettings_def split: prod.split sum.split)

lemma broker_inv_forward [simp]: "broker_inv nanoid (forward_to_requester t m st) = broker_inv nanoid st"
  by (simp add: forward_to_requester_def split: option.split)

lemma broker_inv_answers:
  "broker_inv nanoid st \<Longrightarrow> answer \<noteq> RunnerPending \<Longrightarrow> broker_inv nanoid (answer_runner t answer st)"
  "broker_inv nanoid st \<Longrightarrow> answer' \<noteq> RequesterPending \<Longrightarrow> broker_inv nanoid (answer_requester t answer' st)"
  by (simp_all add: answer_runner_def answer_requester_def broker_inv_settle_runner broker_inv_settle_requester)

lemma broker_inv_continue_settings:
  assumes inv: "broker_inv nanoid st"
  shows "broker_inv nanoid (continue_settings t runnerId settings st)"
proof (cases "map_get (tb_tasks st) t")
  case None
  with inv show ?thesis by (simp add: continue_settings_def)
next
  case (Some task)
  let ?st = "set_timeout (TaskTimeout t) st"
  have task: "tk_id task = t" "t \<in> nanoid ` {..<tb_nanoids st}"
    using inv map_of_SomeD [OF Some] by (auto simp: broker_inv_def tasks_inv_def)
  have "broker_inv nanoid (?st\<lparr>tb_tasks := map_set t (task\<lparr>tk_timeout := Some (tb_next st)\<rparr>) (tb_tasks ?st)\<rparr>)"
    by (rule broker_inv_add_task [OF broker_inv_set_timeout [OF inv]])
      (use task in \<open>simp_all add: set_timeout_def js_map.get_put\<close>)
  then show ?thesis using Some by (simp add: continue_settings_def) (simp add: set_timeout_def)
qed

lemma broker_inv_deregisterRunner:
  assumes "broker_inv nanoid st"
  shows "broker_inv nanoid (deregisterRunner runnerId message st)"
proof -
  let ?drop = "\<lambda>task st. if tk_runnerId task = runnerId then
      handleRunnerReject (tk_id task) (''The Task Runner ('' @ runnerId @ '') has disconnected: '' @ message)
        (failTask (tk_id task) (ErrorMessage message) st) else st"
  have "broker_inv nanoid st \<Longrightarrow> broker_inv nanoid (fold ?drop tasks st)" for tasks st
    by (induction tasks arbitrary: st) (simp_all add: handleRunnerReject_def broker_inv_answers broker_inv_failTask)
  then show ?thesis unfolding deregisterRunner_def Let_def by this (use assms in simp)
qed

lemma broker_inv_resume:
  assumes inv: "broker_inv nanoid st"
  shows "broker_inv nanoid (resume_accept t st)"
proof (cases "map_get (tb_calls st) t")
  case None
  with inv show ?thesis by (simp add: resume_accept_def)
next
  case (Some c)
  show ?thesis
  proof (cases c)
    case (AwaitRunner offer r a)
    with Some inv show ?thesis
      by (cases a) (simp_all add: resume_accept_def broker_inv_runner_accepted broker_inv_runner_rejected)
  next
    case (AwaitRequester a)
    with Some have e: "broker_inv nanoid (end_call t st)" by (intro broker_inv_end_call [OF inv]) auto
    have "broker_inv nanoid (requester_accepted t settings st)" for settings
      using broker_inv_sendTaskSettings [OF e, of t settings]
      by (simp add: requester_accepted_def broker_inv_cancelTask split_beta split: sum.split)
    then show ?thesis
      using Some AwaitRequester inv e
      by (cases a) (simp_all add: resume_accept_def requester_rejected_def broker_inv_cancelTask)
  qed
qed

section \<open>Matching\<close>

lemma broker_inv_acceptOffer:
  assumes inv: "broker_inv nanoid st" and inj: "inj nanoid" and r: "r \<in> set (tb_pendingTaskRequests st)"
    and free: "rq_acceptInProgress (tb_requestObj st r) \<noteq> Some True" and offer: "of_taskType offer = rq_taskType (tb_requestObj st r)"
  shows "broker_inv nanoid (acceptOffer nanoid offer r (set_request r ((tb_requestObj st r)\<lparr>rq_acceptInProgress := Some True\<rparr>) st))"
    (is "broker_inv _ ?st")
proof -
  let ?t = "nanoid (tb_nanoids st)"
  have c: "calls_inv nanoid st" using inv by (simp add: broker_inv_def)
  have get: "map_get (tb_calls ?st) = (map_get (tb_calls st))(?t \<mapsto> AwaitRunner offer r RunnerPending)"
    by (simp add: acceptOffer_def Let_def set_request_def js_map.get_put)
  have same: "tb_pendingTaskRequests ?st = tb_pendingTaskRequests st" "tb_tasks ?st = tb_tasks st"
    "tb_next ?st = tb_next st + 1" "tb_nanoids ?st = tb_nanoids st + 1"
    by (simp_all add: acceptOffer_def Let_def messageRunner_def set_request_def set_timeout_def)
  have tm: "map_get (tb_timers ?st) = (map_get (tb_timers st))(tb_next st \<mapsto> RunnerAcceptTimeout ?t)"
    by (simp add: acceptOffer_def Let_def messageRunner_def set_request_def set_timeout_def js_map.get_put)
  have obj: "rq_requestId (tb_requestObj ?st p) = rq_requestId (tb_requestObj st p)"
    "rq_timeout (tb_requestObj ?st p) = rq_timeout (tb_requestObj st p)"
    "rq_taskType (tb_requestObj ?st p) = rq_taskType (tb_requestObj st p)"
    "rq_acceptInProgress (tb_requestObj ?st p) = (if p = r then Some True else rq_acceptInProgress (tb_requestObj st p))" for p
    by (simp_all add: acceptOffer_def Let_def messageRunner_def set_request_def set_timeout_def)
  have fresh: "?t \<noteq> t" if "map_get (tb_calls st) t = Some x" for t x
    using call_issued [OF c that] inj by (auto dest: injD)
  have no_call: "map_get (tb_calls st) t \<noteq> Some (AwaitRunner offer' r a)" for t offer' a
    using call_lock [OF c] free by blast
  have fl: "in_flight ?st = in_flight st"
    using r fresh by (auto simp: in_flight_def get same split: if_splits) metis
  have rel: "relied_on st b \<or> b = RunnerAcceptTimeout ?t" if "relied_on ?st b" for b
    using that by (cases b) (auto simp: get same obj split: if_splits)
  have kept: "map_get (tb_timers ?st) i = Some b" if "map_get (tb_timers st) i = Some b" for i b
    using that timer_bound [OF inv that] by (simp add: tm)
  have "\<exists>i. map_get (tb_timers ?st) i = Some b" if "relied_on ?st b" for b
    using rel [OF that] inv kept tm unfolding broker_inv_def live_timers_def by (metis fun_upd_same)
  moreover have "\<exists>i. rq_timeout (tb_requestObj st p) = Some i
      \<and> map_get (tb_timers ?st) i = Some (RequestTimeout (rq_requestId (tb_requestObj st p)))"
    if "p \<in> set (tb_pendingTaskRequests st)" for p
    using that kept inv unfolding broker_inv_def live_timers_def by blast
  ultimately have "live_timers ?st" by (simp add: live_timers_def same obj)
  moreover have "requests_inv ?st"
    using inv by (auto simp: broker_inv_def requests_inv_def same obj fl less_Suc_eq)
  moreover have "tasks_inv nanoid ?st" using inv by (fastforce simp: broker_inv_def tasks_inv_def same)
  moreover have "own_timers ?st"
    using inv unfolding broker_inv_def own_timers_def fl same obj tm by (fastforce simp: less_Suc_eq)
  moreover have "calls_inv nanoid ?st"
  proof (rule calls_invI, unfold get same obj)
    show "t \<in> nanoid ` {..<tb_nanoids st + 1}"
      if "((map_get (tb_calls st))(?t \<mapsto> AwaitRunner offer r RunnerPending)) t = Some x" for t x
      using that call_issued [OF c, of t] by (fastforce split: if_splits)
  next
    show "\<exists>t offer' a. ((map_get (tb_calls st))(?t \<mapsto> AwaitRunner offer r RunnerPending)) t = Some (AwaitRunner offer' r' a)"
      if "r' \<in> set (tb_pendingTaskRequests st)" "(if r' = r then Some True else rq_acceptInProgress (tb_requestObj st r')) = Some True" for r'
      using that lock_held [OF c that(1)] fresh by (auto split: if_splits) metis
  qed (use call_lock [OF c] call_unique [OF c] no_call offer in \<open>auto split: if_splits\<close>)
  ultimately show ?thesis by (simp add: broker_inv_def)
qed

lemma take_offer_type: "take_offer ty os = Some (offer, rest) \<Longrightarrow> of_taskType offer = ty"
  by (induction os arbitrary: rest) (auto split: if_splits)

lemma acceptOffer_frame:
  "acceptOffer nanoid offer r (st\<lparr>tb_pendingTaskOffers := os, tb_mismatchWarned := w\<rparr>)
     = (acceptOffer nanoid offer r st)\<lparr>tb_pendingTaskOffers := os, tb_mismatchWarned := w\<rparr>"
  by (simp add: acceptOffer_def Let_def messageRunner_def set_timeout_def)

lemma broker_inv_settle_request:
  assumes "broker_inv nanoid st" and "inj nanoid" and "r \<in> set (tb_pendingTaskRequests st)"
  shows "broker_inv nanoid (settle_request nanoid r st)"
  using assms broker_inv_acceptOffer [OF assms]
  by (auto simp: settle_request_def Let_def acceptOffer_frame warnOnTaskTypeMismatch_def take_offer_type split: option.split)

lemma settle_request_pending [simp]:
  "tb_pendingTaskRequests (settle_request nanoid r st) = tb_pendingTaskRequests st"
  by (simp add: settle_request_def Let_def acceptOffer_def messageRunner_def set_timeout_def set_request_def
      warnOnTaskTypeMismatch_def split: option.split)

lemma broker_inv_fold_settle:
  "broker_inv nanoid st \<Longrightarrow> inj nanoid \<Longrightarrow> set rs \<subseteq> set (tb_pendingTaskRequests st) \<Longrightarrow>
     broker_inv nanoid (fold (settle_request nanoid) rs st)"
  by (induction rs arbitrary: st) (simp_all add: broker_inv_settle_request)

lemma broker_inv_settleTasks:
  assumes "broker_inv nanoid st" and "inj nanoid"
  shows "broker_inv nanoid (settleTasks nanoid now st)"
  unfolding settleTasks_def Let_def
  by (rule broker_inv_fold_settle) (use assms in \<open>simp_all add: expireTasks_def\<close>)

text \<open>A new request: its object is allocated, then it becomes pending.\<close>

lemma broker_inv_alloc:
  assumes inv: "broker_inv nanoid st" and r: "tb_next st \<le> r" "r < n"
  shows "broker_inv nanoid (set_request r request (st\<lparr>tb_next := n\<rparr>))" (is "broker_inv _ ?st")
proof -
  have old: "tb_requestObj ?st p = tb_requestObj st p" if "p \<in> in_flight st" for p
    using inv r that by (auto simp: broker_inv_def requests_inv_def set_request_def)
  note oldp = old [OF pending_in_flight] and oldc = old [OF call_in_flight]
  have same: "tb_pendingTaskRequests ?st = tb_pendingTaskRequests st" "tb_tasks ?st = tb_tasks st" "tb_calls ?st = tb_calls st"
    "tb_timers ?st = tb_timers st" "tb_next ?st = n" "tb_nanoids ?st = tb_nanoids st"
    by (simp_all add: set_request_def)
  have fl: "in_flight ?st = in_flight st" unfolding in_flight_def same ..
  have "relied_on ?st b = relied_on st b" for b by (cases b) (auto simp: same oldp)
  then have "live_timers ?st" using inv by (simp add: broker_inv_def live_timers_def same oldp)
  moreover have "requests_inv ?st"
    using inv r by (fastforce simp: broker_inv_def requests_inv_def same fl old inj_on_def)
  moreover have "tasks_inv nanoid ?st" using inv by (simp add: broker_inv_def tasks_inv_def same)
  moreover have "own_timers ?st"
    using inv r unfolding broker_inv_def own_timers_def fl same by (fastforce simp: old)
  moreover have "calls_inv nanoid ?st"
    using inv unfolding broker_inv_def calls_inv_def same by (simp add: oldp oldc)
  ultimately show ?thesis by (simp add: broker_inv_def)
qed

lemma broker_inv_pend:
  assumes inv: "broker_inv nanoid st" and r: "r < tb_next st" "r \<notin> set (tb_pendingTaskRequests st)"
    and id: "rq_requestId (tb_requestObj st r) \<notin> (\<lambda>r. rq_requestId (tb_requestObj st r)) ` in_flight st"
    and new: "rq_acceptInProgress (tb_requestObj st r) = None" "rq_timeout (tb_requestObj st r) = Some i" "i < tb_next st"
    and timer: "map_get (tb_timers st) i = Some (RequestTimeout (rq_requestId (tb_requestObj st r)))"
  shows "broker_inv nanoid (st\<lparr>tb_pendingTaskRequests := tb_pendingTaskRequests st @ [r]\<rparr>)" (is "broker_inv _ ?st")
proof -
  have fl: "in_flight ?st = insert r (in_flight st)" by (auto simp: in_flight_def)
  have "relied_on st b \<or> b = RequestTimeout (rq_requestId (tb_requestObj st r))" if "relied_on ?st b" for b
    using that by (cases b) auto
  then have "live_timers ?st" using inv new timer unfolding broker_inv_def live_timers_def by auto
  moreover have "requests_inv ?st"
    using inv r id by (auto simp: broker_inv_def requests_inv_def fl)
  moreover have "tasks_inv nanoid ?st" using inv by (simp add: broker_inv_def tasks_inv_def)
  moreover have "own_timers ?st"
    using inv new timer unfolding broker_inv_def own_timers_def fl by simp
  moreover have "calls_inv nanoid ?st"
    using inv new unfolding broker_inv_def calls_inv_def by simp
  ultimately show ?thesis by (simp add: broker_inv_def)
qed

lemma broker_inv_request:
  assumes inv: "broker_inv nanoid st" and inj: "inj nanoid" and fresh: "fresh_request st (RequesterTaskRequest requestId taskType)"
  shows "broker_inv nanoid (onRequesterMessage nanoid now requesterId (RequesterTaskRequest requestId taskType) st)"
proof -
  let ?r = "tb_next st + 1"
  let ?request = "\<lparr>rq_requestId = requestId, rq_requesterId = requesterId, rq_taskType = taskType,
                           rq_timeout = Some (tb_next st), rq_acceptInProgress = None\<rparr>"
  let ?t = "set_timeout (RequestTimeout requestId) st"
  let ?st = "set_request ?r ?request (?t\<lparr>tb_next := ?r + 1\<rparr>)"
  have st: "broker_inv nanoid ?st"
    by (rule broker_inv_alloc [OF broker_inv_set_timeout [OF inv]]) (simp_all add: set_timeout_def)
  have bound: "p < tb_next st" if "p \<in> in_flight st" for p
    using inv that by (auto simp: broker_inv_def requests_inv_def)
  have fl: "in_flight ?st = in_flight st" by (simp add: in_flight_def set_request_def set_timeout_def)
  have "tb_requestObj ?st p = tb_requestObj st p" if "p \<in> in_flight st" for p
    using bound [OF that] by (simp add: set_request_def set_timeout_def)
  then have ids: "rq_requestId (tb_requestObj ?st p) \<noteq> requestId" if "p \<in> in_flight st" for p
    using that fresh by (auto simp: fresh_request_def)
  have tm: "map_get (tb_timers ?st) (tb_next st) = Some (RequestTimeout requestId)"
    by (simp add: set_request_def set_timeout_def js_map.get_put)
  have obj: "tb_requestObj ?st ?r = ?request" by (simp add: set_request_def)
  have "broker_inv nanoid (clear_timeout (Some (tb_next st)) ?st)"
    by (rule broker_inv_clear [OF st]) (use tm ids pending_in_flight [of _ ?st] fl in auto)
  moreover have "broker_inv nanoid (?st\<lparr>tb_pendingTaskRequests := tb_pendingTaskRequests ?st @ [?r]\<rparr>)"
  proof (rule broker_inv_pend [OF st, where i = "tb_next st"], unfold obj fl)
    have "?r \<notin> in_flight ?st" using bound [of ?r] fl by auto
    then show "?r \<notin> set (tb_pendingTaskRequests ?st)" using pending_in_flight by blast
    show "rq_requestId ?request \<notin> (\<lambda>r. rq_requestId (tb_requestObj ?st r)) ` in_flight st" using ids by fastforce
  qed (use tm in \<open>simp_all add: set_request_def\<close>)
  ultimately show ?thesis
    using broker_inv_settleTasks [OF _ inj] obj
    by (simp add: onRequesterMessage_def Let_def taskRequested_def)
qed

section \<open>Timers\<close>

lemma clear_timer: "st\<lparr>tb_timers := map_delete i (tb_timers st)\<rparr> = clear_timeout (Some i) st"
  by (simp add: clear_timeout_def)

lemma broker_inv_clear_action:
  assumes "broker_inv nanoid st" and "\<not> relied_on st a"
    and "\<And>i b. timeout = Some i \<Longrightarrow> map_get (tb_timers st) i = Some b \<Longrightarrow> b = a"
  shows "broker_inv nanoid (clear_timeout timeout st)"
  by (rule broker_inv_clear [OF assms(1)]) (use assms(2,3) in blast)

lemma broker_inv_request_timeout:
  assumes inv: "broker_inv nanoid st" and tm: "map_get (tb_timers st) i = Some (RequestTimeout requestId)"
  shows "broker_inv nanoid (handleRequestTimeout requestId (clear_timeout (Some i) st))"
proof (cases "find (\<lambda>r. rq_requestId (tb_requestObj st r) = requestId) (tb_pendingTaskRequests st)")
  case None
  then have "\<not> relied_on st (RequestTimeout requestId)" by (auto simp: find_None_iff)
  then have "broker_inv nanoid (clear_timeout (Some i) st)"
    by (rule broker_inv_clear_action [OF inv]) (use tm in auto)
  with None show ?thesis by (simp add: handleRequestTimeout_def)
next
  case (Some r)
  then have r: "r \<in> set (tb_pendingTaskRequests st)" "rq_requestId (tb_requestObj st r) = requestId"
    by (auto simp: find_Some_iff)
  let ?p = "st\<lparr>tb_pendingTaskRequests := remove1 r (tb_pendingTaskRequests st)\<rparr>"
  let ?c = "clear_timeout (Some i) ?p"
  have p: "broker_inv nanoid ?p" by (rule broker_inv_unpend [OF inv])
  have "\<not> relied_on ?p (RequestTimeout requestId)"
  proof
    assume "relied_on ?p (RequestTimeout requestId)"
    then obtain q where q: "q \<in> set (remove1 r (tb_pendingTaskRequests st))" "rq_requestId (tb_requestObj st q) = requestId"
      by auto
    then have "q \<in> set (tb_pendingTaskRequests st)" by (meson notin_set_remove1)
    from request_inj [OF inv pending_in_flight [OF this] pending_in_flight [OF r(1)]] q r(2) have "q = r" by simp
    with q(1) not_pending_remove1 [OF inv] show False by simp
  qed
  note unused = this
  have c: "broker_inv nanoid ?c"
    by (rule broker_inv_clear_action [OF p unused]) (use tm in auto)
  have "broker_inv nanoid (clear_timeout (rq_timeout (tb_requestObj st r)) ?c)"
  proof (rule broker_inv_clear_action [OF c])
    show "\<not> relied_on ?c (RequestTimeout requestId)" using unused by (simp add: clear_timeout_def)
    show "b = RequestTimeout requestId"
      if "rq_timeout (tb_requestObj st r) = Some j" "map_get (tb_timers ?c) j = Some b" for j b
      using that inv pending_in_flight [OF r(1)] r(2)
      by (auto simp: broker_inv_def own_timers_def clear_timeout_def map_of_map_delete split: if_splits)
  qed
  moreover have "handleRequestTimeout requestId (clear_timeout (Some i) st)
      = messageRequester (rq_requesterId (tb_requestObj st r)) (RequestExpired (rq_requestId (tb_requestObj st r)) ''timeout'')
          ((clear_timeout (rq_timeout (tb_requestObj st r)) ?c)\<lparr>tb_mismatchWarned := set_delete requestId (tb_mismatchWarned st)\<rparr>)"
    using Some by (simp add: handleRequestTimeout_def Let_def clear_timeout_def messageRequester_def split: option.split)
  ultimately show ?thesis by simp
qed

lemma broker_inv_runner_timeout:
  assumes inv: "broker_inv nanoid st" and tm: "map_get (tb_timers st) i = Some (RunnerAcceptTimeout t)"
  shows "broker_inv nanoid (settle_runner t (RunnerRejected e) (clear_timeout (Some i) st))"
proof -
  have "settle_runner t (RunnerRejected e) (clear_timeout (Some i) st) = clear_timeout (Some i) (settle_runner t (RunnerRejected e) st)"
    by (auto simp: settle_runner_def clear_timeout_def split: option.split accept_call.split runner_answer.split)
  moreover have "broker_inv nanoid (clear_timeout (Some i) (settle_runner t (RunnerRejected e) st))"
    by (rule broker_inv_clear_action [OF broker_inv_settle_runner [OF inv], where a = "RunnerAcceptTimeout t"])
      (use tm in \<open>auto simp: settle_runner_def js_map.get_put split: option.splits accept_call.splits runner_answer.splits\<close>)
  ultimately show ?thesis by simp
qed

lemma broker_inv_requester_timeout:
  assumes inv: "broker_inv nanoid st" and tm: "map_get (tb_timers st) i = Some (RequesterAcceptTimeout t)"
  shows "broker_inv nanoid (settle_requester t (RequesterRejected e) (clear_timeout (Some i) st))"
proof -
  have "settle_requester t (RequesterRejected e) (clear_timeout (Some i) st) = clear_timeout (Some i) (settle_requester t (RequesterRejected e) st)"
    by (auto simp: settle_requester_def clear_timeout_def split: option.split accept_call.split requester_answer.split)
  moreover have "broker_inv nanoid (clear_timeout (Some i) (settle_requester t (RequesterRejected e) st))"
    by (rule broker_inv_clear_action [OF broker_inv_settle_requester [OF inv], where a = "RequesterAcceptTimeout t"])
      (use tm in \<open>auto simp: settle_requester_def js_map.get_put split: option.splits accept_call.splits requester_answer.splits\<close>)
  ultimately show ?thesis by simp
qed

lemma broker_inv_timer_fired:
  assumes inv: "broker_inv nanoid st"
  shows "broker_inv nanoid (timer_fired mode i st)"
proof (cases "map_get (tb_timers st) i")
  case None
  with inv show ?thesis by (simp add: timer_fired_def)
next
  case (Some action)
  show ?thesis
  proof (cases action)
    case (TaskTimeout t)
    have "broker_inv nanoid (clear_timeout (Some i) st)"
      by (rule broker_inv_clear_action [OF inv, of "TaskTimeout t"]) (use Some TaskTimeout in auto)
    with Some TaskTimeout show ?thesis
      by (auto simp: timer_fired_def Let_def clear_timer handleTaskTimeout_def taskErrorHandler_def broker_inv_finish_task
          split: option.split runners_mode.split)
  qed (use inv Some in \<open>simp_all add: timer_fired_def Let_def clear_timer broker_inv_request_timeout
        broker_inv_runner_timeout broker_inv_requester_timeout\<close>)
qed

section \<open>Every step keeps the invariant\<close>

lemma broker_inv_microtask: "broker_inv nanoid st \<Longrightarrow> broker_inv nanoid (run_microtask m st)"
  by (simp add: run_microtask_def Let_def broker_inv_drop_task taskErrorHandler_def broker_inv_finish_task
      broker_inv_continue_settings split: microtask.split)

lemma broker_inv_onRunnerMessage:
  "broker_inv nanoid st \<Longrightarrow> inj nanoid \<Longrightarrow> broker_inv nanoid (onRunnerMessage nanoid now runnerId m st)"
  by (auto simp: onRunnerMessage_def handleRunnerAccept_def handleRunnerReject_def handleRunnerDeferred_def broker_inv_answers
      taskOffered_def broker_inv_settleTasks taskDoneHandler_def taskErrorHandler_def broker_inv_finish_task
      handleDataRequest_def handleNodeTypesRequest_def handleRpcRequest_def split: runner_message.split)

lemma broker_inv_onRequesterMessage:
  assumes inv: "broker_inv nanoid st" and "inj nanoid" and "fresh_request st m"
  shows "broker_inv nanoid (onRequesterMessage nanoid now requesterId m st)"
proof (cases m)
  case (RequesterTaskRequest requestId taskType)
  with assms show ?thesis by (simp add: broker_inv_request)
qed (use inv in \<open>simp_all add: onRequesterMessage_def handleRequesterAccept_def broker_inv_answers broker_inv_cancelTask
      handleRequesterDataResponse_def handleRequesterNodeTypesResponse_def handleRequesterRpcResponse_def broker_inv_respond\<close>)

lemma broker_step_inv:
  assumes "broker_step nanoid mode st st'" and "broker_inv nanoid st" and "inj nanoid"
  shows "broker_inv nanoid st'"
  using assms
  by (cases rule: broker_step.cases)
    (simp_all add: registerRunner_def broker_inv_deregisterRunner registerRequester_def deregisterRequester_def
      broker_inv_onRunnerMessage broker_inv_onRequesterMessage broker_inv_timer_fired broker_inv_resume broker_inv_microtask
      startDraining_def)

lemma broker_reach_inv:
  assumes "inj nanoid" and "(broker_step nanoid mode)\<^sup>*\<^sup>* new_broker st"
  shows "broker_inv nanoid st"
proof -
  have "state_machine new_broker (broker_step nanoid mode) (broker_inv nanoid)"
    by unfold_locales (auto intro: broker_inv_new broker_step_inv assms(1))
  from state_machine.reach_inv [OF this assms(2)] show ?thesis .
qed

section \<open>Nothing hangs\<close>

text \<open>The steps of the runtime alone: a timer fires, or a call goes on after its promise was settled.\<close>

inductive runtime_step :: "runners_mode \<Rightarrow> TaskBroker \<Rightarrow> TaskBroker \<Rightarrow> bool" for mode where
  "runtime_step mode st (timer_fired mode i st)"
| "runtime_step mode st (resume_accept t st)"

lemma runtime_steps:
  "runtime_step mode st st' \<Longrightarrow> broker_step nanoid mode st st'"
  by (auto elim!: runtime_step.cases intro: broker_step.timer broker_step.resume)

lemma two_steps:
  assumes "map_get (tb_calls (resume_accept t (timer_fired mode i st))) t = None"
  shows "\<exists>st'. (runtime_step mode)\<^sup>*\<^sup>* st st' \<and> map_get (tb_calls st') t = None"
proof -
  have "(runtime_step mode)\<^sup>*\<^sup>* st (resume_accept t (timer_fired mode i st))"
    by (meson converse_rtranclp_into_rtranclp r_into_rtranclp runtime_step.intros)
  with assms show ?thesis by blast
qed

lemma one_step:
  assumes "map_get (tb_calls (resume_accept t st)) t = None"
  shows "\<exists>st'. (runtime_step mode)\<^sup>*\<^sup>* st st' \<and> map_get (tb_calls st') t = None"
  using assms r_into_rtranclp [of "runtime_step mode", OF runtime_step.intros(2)] by blast

lemma calls_select [simp]:
  "tb_calls (messageRunner runnerId m st) = tb_calls st"
  "tb_calls (messageRequester requesterId q st) = tb_calls st"
  "tb_calls (suspend mt st) = tb_calls st"
  "tb_calls (set_request r request st) = tb_calls st"
  "tb_calls (set_timeout action st) = tb_calls st"
  "tb_calls (cancelTask t reason st) = tb_calls st"
  "tb_calls (failTask t e st) = tb_calls st"
  "tb_calls (end_call t st) = map_delete t (tb_calls st)"
  by (simp_all add: messageRunner_def messageRequester_def suspend_def set_request_def set_timeout_def cancelTask_def
      failTask_def drop_task_def end_call_def split: option.split)

lemma runner_rejected_ends: "map_get (tb_calls (runner_rejected t r e st)) t = None"
  by (simp add: runner_rejected_def Let_def map_of_map_delete split: reject_reason.split)

lemma sendTaskSettings_calls: "tb_calls (fst (sendTaskSettings t settings st)) = tb_calls st"
  by (auto simp: sendTaskSettings_def getRunnerOrFailTask_def Let_def split: option.split)

lemma requester_accepted_ends: "map_get (tb_calls (requester_accepted t settings st)) t = None"
  using sendTaskSettings_calls [of t settings "end_call t st"]
  by (simp add: requester_accepted_def split_beta map_of_map_delete split: sum.split)

lemma requester_rejected_ends: "map_get (tb_calls (requester_rejected t reason st)) t = None"
  by (simp add: requester_rejected_def map_of_map_delete)

lemma requester_call_ends:
  assumes inv: "broker_inv nanoid st" and t: "map_get (tb_calls st) t = Some (AwaitRequester a)"
  shows "\<exists>st'. (runtime_step mode)\<^sup>*\<^sup>* st st' \<and> map_get (tb_calls st') t = None"
proof (cases "a = RequesterPending")
  case False
  then have "map_get (tb_calls (resume_accept t st)) t = None"
    using t by (cases a) (simp_all add: resume_accept_def requester_accepted_ends requester_rejected_ends)
  then show ?thesis by (rule one_step)
next
  case True
  with inv t obtain i where "map_get (tb_timers st) i = Some (RequesterAcceptTimeout t)"
    unfolding broker_inv_def live_timers_def by (metis relied_on.simps(4))
  with t True have "map_get (tb_calls (resume_accept t (timer_fired mode i st))) t = None"
    by (simp add: timer_fired_def Let_def settle_requester_def resume_accept_def js_map.get_put requester_rejected_ends)
  then show ?thesis by (rule two_steps)
qed

lemma runner_call_ends:
  assumes inv: "broker_inv nanoid st" and inj: "inj nanoid" and t: "map_get (tb_calls st) t = Some (AwaitRunner offer r a)"
  shows "\<exists>st'. (runtime_step mode)\<^sup>*\<^sup>* st st' \<and> map_get (tb_calls st') t = None"
proof (cases a)
  case RunnerPending
  with inv t obtain i where "map_get (tb_timers st) i = Some (RunnerAcceptTimeout t)"
    unfolding broker_inv_def live_timers_def by (metis relied_on.simps(3))
  with t RunnerPending have "map_get (tb_calls (resume_accept t (timer_fired mode i st))) t = None"
    by (simp add: timer_fired_def Let_def settle_runner_def resume_accept_def js_map.get_put runner_rejected_ends)
  then show ?thesis by (rule two_steps)
next
  case (RunnerRejected e)
  with t have "map_get (tb_calls (resume_accept t st)) t = None" by (simp add: resume_accept_def runner_rejected_ends)
  then show ?thesis by (rule one_step)
next
  case RunnerAccepted
  let ?st = "resume_accept t st"
  have "map_get (tb_calls ?st) t \<in> {None, Some (AwaitRequester RequesterPending)}"
    using t RunnerAccepted
    by (auto simp: resume_accept_def runner_accepted_def Let_def map_of_map_delete js_map.get_put split: option.split)
  then show ?thesis
  proof
    assume "map_get (tb_calls ?st) t = None"
    then show ?thesis by (rule one_step)
  next
    assume "map_get (tb_calls ?st) t \<in> {Some (AwaitRequester RequesterPending)}"
    then obtain st' where "(runtime_step mode)\<^sup>*\<^sup>* ?st st'" "map_get (tb_calls st') t = None"
      using requester_call_ends [OF broker_inv_resume [OF inv], of t t] by blast
    then show ?thesis by (meson converse_rtranclp_into_rtranclp runtime_step.intros(2))
  qed
qed

lemma request_timer_fires:
  assumes inv: "broker_inv nanoid st" and r: "r \<in> set (tb_pendingTaskRequests st)"
  shows "\<exists>i. rq_timeout (tb_requestObj st r) = Some i \<and> map_get (tb_timers st) i \<noteq> None
    \<and> tb_pendingTaskRequests (timer_fired mode i st) = remove1 r (tb_pendingTaskRequests st)
    \<and> (rq_requesterId (tb_requestObj st r) \<in> set (tb_requesters st) \<longrightarrow>
        last (tb_sent (timer_fired mode i st)) = ToRequester (rq_requesterId (tb_requestObj st r))
          (RequestExpired (rq_requestId (tb_requestObj st r)) ''timeout''))"
proof -
  let ?id = "rq_requestId (tb_requestObj st r)"
  from inv r obtain i where i: "rq_timeout (tb_requestObj st r) = Some i" "map_get (tb_timers st) i = Some (RequestTimeout ?id)"
    unfolding broker_inv_def live_timers_def by blast
  have "find (\<lambda>p. rq_requestId (tb_requestObj st p) = ?id) (tb_pendingTaskRequests st) = Some r"
    using find_request [OF inv pending_in_flight [OF r]] r by simp
  with i show ?thesis
    by (simp add: timer_fired_def Let_def handleRequestTimeout_def messageRequester_def clear_timeout_def)
qed

section \<open>The matching is complete\<close>

lemma take_offer_None: "take_offer ty os = None \<longleftrightarrow> (\<forall>offer \<in> set os. of_taskType offer \<noteq> ty)"
  by (induction os) auto

lemma take_offer_Some:
  "take_offer ty os = Some (offer, rest) \<Longrightarrow> set os = insert offer (set rest) \<and> length os = length rest + 1"
  by (induction os arbitrary: rest) (auto split: if_splits)

definition settled :: "TaskBroker \<Rightarrow> nat \<Rightarrow> bool" where
  "settled st r \<longleftrightarrow> rq_acceptInProgress (tb_requestObj st r) = Some True
     \<or> (\<forall>offer \<in> set (tb_pendingTaskOffers st). of_taskType offer \<noteq> rq_taskType (tb_requestObj st r))"

text \<open>An offer that \<^verbatim>\<open>expireTasks\<close> keeps.\<close>

definition valid_offer :: "int \<Rightarrow> TaskOffer \<Rightarrow> bool" where
  "valid_offer now offer \<longleftrightarrow> of_validFor offer = - 1 \<or> now \<le> of_validUntil offer"

lemma settle_request_cases:
  obtains (same) "rq_acceptInProgress (tb_requestObj st r) = Some True" "settle_request nanoid r st = st"
  | (none) "take_offer (rq_taskType (tb_requestObj st r)) (tb_pendingTaskOffers st) = None"
      "settle_request nanoid r st = warnOnTaskTypeMismatch (tb_requestObj st r) st"
  | (taken) offer offers where "take_offer (rq_taskType (tb_requestObj st r)) (tb_pendingTaskOffers st) = Some (offer, offers)"
      "tb_pendingTaskOffers (settle_request nanoid r st) = offers" "tb_nanoids (settle_request nanoid r st) = tb_nanoids st + 1"
      "tb_requestObj (settle_request nanoid r st) = (tb_requestObj st)(r := (tb_requestObj st r)\<lparr>rq_acceptInProgress := Some True\<rparr>)"
      "map_get (tb_calls (settle_request nanoid r st)) = (map_get (tb_calls st))(nanoid (tb_nanoids st) \<mapsto> AwaitRunner offer r RunnerPending)"
proof (cases "rq_acceptInProgress (tb_requestObj st r) = Some True")
  case True
  then have "settle_request nanoid r st = st" by (simp add: settle_request_def Let_def)
  with True show thesis by (rule same)
next
  case False
  show thesis
  proof (cases "take_offer (rq_taskType (tb_requestObj st r)) (tb_pendingTaskOffers st)")
    case None
    with False show thesis by (intro none) (simp_all add: settle_request_def Let_def)
  next
    case (Some p)
    obtain offer offers where "p = (offer, offers)" by (cases p)
    with Some False show thesis
      by (intro taken [of offer offers])
        (simp_all add: settle_request_def Let_def acceptOffer_def messageRunner_def set_timeout_def set_request_def js_map.get_put)
  qed
qed

lemma warn_select [simp]:
  "tb_pendingTaskOffers (warnOnTaskTypeMismatch request st) = tb_pendingTaskOffers st"
  "tb_requestObj (warnOnTaskTypeMismatch request st) = tb_requestObj st"
  "tb_calls (warnOnTaskTypeMismatch request st) = tb_calls st"
  "tb_nanoids (warnOnTaskTypeMismatch request st) = tb_nanoids st"
  by (simp_all add: warnOnTaskTypeMismatch_def)

lemma settle_request_settles: "settled (settle_request nanoid r st) r"
  by (cases rule: settle_request_cases [of st r nanoid]) (auto simp: settled_def take_offer_None)

lemma settle_request_keeps: "settled st p \<Longrightarrow> settled (settle_request nanoid r st) p"
  by (cases rule: settle_request_cases [of st r nanoid]) (auto simp: settled_def dest: take_offer_Some)

lemma fold_settle_settles: "r \<in> set rs \<or> settled st r \<Longrightarrow> settled (fold (settle_request nanoid) rs st) r"
  by (induction rs arbitrary: st) (auto simp: settle_request_settles settle_request_keeps)

lemma fold_settle_counts:
  "length (tb_pendingTaskOffers (fold (settle_request nanoid) rs st)) + tb_nanoids (fold (settle_request nanoid) rs st)
     = length (tb_pendingTaskOffers st) + tb_nanoids st
   \<and> set (tb_pendingTaskOffers (fold (settle_request nanoid) rs st)) \<subseteq> set (tb_pendingTaskOffers st)
   \<and> (\<forall>r. rq_taskType (tb_requestObj (fold (settle_request nanoid) rs st) r) = rq_taskType (tb_requestObj st r))"
proof (induction rs arbitrary: st)
  case (Cons r rs)
  have "length (tb_pendingTaskOffers (settle_request nanoid r st)) + tb_nanoids (settle_request nanoid r st)
      = length (tb_pendingTaskOffers st) + tb_nanoids st
    \<and> set (tb_pendingTaskOffers (settle_request nanoid r st)) \<subseteq> set (tb_pendingTaskOffers st)
    \<and> (\<forall>p. rq_taskType (tb_requestObj (settle_request nanoid r st) p) = rq_taskType (tb_requestObj st p))"
    by (cases rule: settle_request_cases [of st r nanoid]) (auto dest: take_offer_Some)
  with Cons.IH [of "settle_request nanoid r st"] show ?case by auto
qed simp

lemma fold_settle_calls:
  assumes "map_get (tb_calls (fold (settle_request nanoid) rs st)) t = Some c"
  shows "map_get (tb_calls st) t = Some c \<or> (\<exists>offer r. c = AwaitRunner offer r RunnerPending \<and> r \<in> set rs
    \<and> offer \<in> set (tb_pendingTaskOffers st) \<and> of_taskType offer = rq_taskType (tb_requestObj st r))"
  using assms
proof (induction rs arbitrary: st)
  case (Cons r rs)
  let ?st = "settle_request nanoid r st"
  from Cons.IH [of ?st] Cons.prems have ih: "map_get (tb_calls ?st) t = Some c \<or> (\<exists>offer p. c = AwaitRunner offer p RunnerPending \<and> p \<in> set rs
    \<and> offer \<in> set (tb_pendingTaskOffers ?st) \<and> of_taskType offer = rq_taskType (tb_requestObj ?st p))" by simp
  have "map_get (tb_calls ?st) t = Some c \<Longrightarrow> map_get (tb_calls st) t = Some c \<or> (\<exists>offer. c = AwaitRunner offer r RunnerPending
    \<and> offer \<in> set (tb_pendingTaskOffers st) \<and> of_taskType offer = rq_taskType (tb_requestObj st r))"
    by (cases rule: settle_request_cases [of st r nanoid]) (auto dest: take_offer_Some take_offer_type split: if_splits)
  with ih fold_settle_counts [of nanoid "[r]" st] show ?case by auto
qed simp

section \<open>A runner disconnects\<close>

definition fail_of_runner :: "string \<Rightarrow> string \<Rightarrow> Task \<Rightarrow> TaskBroker \<Rightarrow> TaskBroker" where
  "fail_of_runner runnerId message task st = (if tk_runnerId task = runnerId then
      handleRunnerReject (tk_id task) (''The Task Runner ('' @ runnerId @ '') has disconnected: '' @ message)
        (failTask (tk_id task) (ErrorMessage message) st) else st)"

lemma fail_of_runner_select [simp]:
  "tb_knownRunners (fail_of_runner runnerId message task st) = tb_knownRunners st"
  "tb_requesters (fail_of_runner runnerId message task st) = tb_requesters st"
  "tb_pendingTaskOffers (fail_of_runner runnerId message task st) = tb_pendingTaskOffers st"
  "tb_pendingTaskRequests (fail_of_runner runnerId message task st) = tb_pendingTaskRequests st"
  by (simp_all add: fail_of_runner_def handleRunnerReject_def answer_runner_def settle_runner_def failTask_def drop_task_def
      messageRequester_def split: option.split accept_call.split runner_answer.split)

lemma fail_of_runner_task:
  assumes "map_get (tb_tasks st) (tk_id task) = Some task"
  shows "tb_tasks (fail_of_runner runnerId message task st)
      = (if tk_runnerId task = runnerId then map_delete (tk_id task) (tb_tasks st) else tb_tasks st)"
    and "tb_sent (fail_of_runner runnerId message task st) = tb_sent st @
      (if tk_runnerId task = runnerId \<and> tk_requesterId task \<in> set (tb_requesters st)
       then [ToRequester (tk_requesterId task) (TaskError (tk_id task) (ErrorMessage message))] else [])"
  using assms by (simp_all add: fail_of_runner_def handleRunnerReject_def answer_runner_def settle_runner_def failTask_def
      drop_task_def messageRequester_def split: option.split accept_call.split runner_answer.split)

lemma fold_fail_of_runner:
  assumes "distinct (map tk_id ts)" and "\<And>task. task \<in> set ts \<Longrightarrow> map_get (tb_tasks st) (tk_id task) = Some task"
  shows "tb_tasks (fold (fail_of_runner runnerId message) ts st)
      = filter (\<lambda>e. fst e \<notin> tk_id ` {task \<in> set ts. tk_runnerId task = runnerId}) (tb_tasks st)
    \<and> tb_sent (fold (fail_of_runner runnerId message) ts st) = tb_sent st
      @ map (\<lambda>task. ToRequester (tk_requesterId task) (TaskError (tk_id task) (ErrorMessage message)))
          (filter (\<lambda>task. tk_runnerId task = runnerId \<and> tk_requesterId task \<in> set (tb_requesters st)) ts)
    \<and> tb_knownRunners (fold (fail_of_runner runnerId message) ts st) = tb_knownRunners st
    \<and> tb_pendingTaskOffers (fold (fail_of_runner runnerId message) ts st) = tb_pendingTaskOffers st
    \<and> tb_pendingTaskRequests (fold (fail_of_runner runnerId message) ts st) = tb_pendingTaskRequests st"
  using assms
proof (induction ts arbitrary: st)
  case (Cons task ts)
  let ?st = "fail_of_runner runnerId message task st"
  have task: "map_get (tb_tasks st) (tk_id task) = Some task" using Cons.prems(2) by simp
  have "map_get (tb_tasks ?st) (tk_id v) = Some v" if "v \<in> set ts" for v
  proof -
    have "tk_id v \<noteq> tk_id task" using that Cons.prems(1) by (metis distinct.simps(2) image_eqI list.simps(9) list.set_map)
    with that Cons.prems(2) [of v] show ?thesis by (simp add: fail_of_runner_task(1) [OF task] map_of_map_delete)
  qed
  with Cons show ?case
    by (auto simp: fail_of_runner_task [OF task] map_delete_def intro!: filter_cong)
qed simp

lemma deregisterRunner_fold:
  "deregisterRunner runnerId message st = fold (fail_of_runner runnerId message) (values_of (tb_tasks st))
     (st\<lparr>tb_knownRunners := map_delete runnerId (tb_knownRunners st),
         tb_pendingTaskOffers := filter (\<lambda>offer. of_runnerId offer \<noteq> runnerId) (tb_pendingTaskOffers st)\<rparr>)"
  by (simp add: deregisterRunner_def Let_def fail_of_runner_def [abs_def])

lemma deregisterRunner_effect:
  assumes inv: "broker_inv nanoid st"
  shows "tb_tasks (deregisterRunner runnerId message st) = filter (\<lambda>e. tk_runnerId (snd e) \<noteq> runnerId) (tb_tasks st)
    \<and> tb_sent (deregisterRunner runnerId message st) = tb_sent st
      @ map (\<lambda>task. ToRequester (tk_requesterId task) (TaskError (tk_id task) (ErrorMessage message)))
          (filter (\<lambda>task. tk_runnerId task = runnerId \<and> tk_requesterId task \<in> set (tb_requesters st)) (values_of (tb_tasks st)))
    \<and> tb_knownRunners (deregisterRunner runnerId message st) = map_delete runnerId (tb_knownRunners st)
    \<and> tb_pendingTaskOffers (deregisterRunner runnerId message st)
      = filter (\<lambda>offer. of_runnerId offer \<noteq> runnerId) (tb_pendingTaskOffers st)
    \<and> tb_pendingTaskRequests (deregisterRunner runnerId message st) = tb_pendingTaskRequests st"
proof -
  have dist: "distinct (keys_of (tb_tasks st))" and key: "\<And>e. e \<in> set (tb_tasks st) \<Longrightarrow> tk_id (snd e) = fst e"
    using inv by (auto simp: broker_inv_def tasks_inv_def)
  have ids: "map tk_id (values_of (tb_tasks st)) = keys_of (tb_tasks st)" using key by simp
  have lookup: "map_get (tb_tasks st) (tk_id task) = Some task" if "task \<in> set (values_of (tb_tasks st))" for task
    using that dist key by (auto simp: map_of_eq_Some_iff)
  have "fst e \<in> tk_id ` {task \<in> set (values_of (tb_tasks st)). tk_runnerId task = runnerId} \<longleftrightarrow> tk_runnerId (snd e) = runnerId"
    if e: "e \<in> set (tb_tasks st)" for e
  proof -
    have same: "v = snd e" if "v \<in> set (values_of (tb_tasks st))" "fst e = tk_id v" for v
      using lookup [OF that(1)] that(2) map_of_is_SomeI [OF dist, of "fst e" "snd e"] e by (cases e) simp
    have "snd e \<in> set (values_of (tb_tasks st))" "fst e = tk_id (snd e)" using e key by auto
    then show ?thesis using same by (auto simp only: image_iff mem_Collect_eq Bex_def)
  qed
  then have "filter (\<lambda>e. fst e \<notin> tk_id ` {task \<in> set (values_of (tb_tasks st)). tk_runnerId task = runnerId}) (tb_tasks st)
      = filter (\<lambda>e. tk_runnerId (snd e) \<noteq> runnerId) (tb_tasks st)"
    by (intro filter_cong) auto
  moreover have "distinct (map tk_id (values_of (tb_tasks st)))" by (simp only: ids dist)
  note fold_fail_of_runner [OF this, of "st\<lparr>tb_knownRunners := map_delete runnerId (tb_knownRunners st),
         tb_pendingTaskOffers := filter (\<lambda>offer. of_runnerId offer \<noteq> runnerId) (tb_pendingTaskOffers st)\<rparr>" runnerId message]
  ultimately show ?thesis
    unfolding deregisterRunner_fold using lookup by simp
qed

section \<open>Properties\<close>

text \<open>
  C37. In every state the broker reaches, whatever the interleaving of messages, timers and resumed
  calls: pending requests are distinct and have different ids; a pending request whose acceptance is
  in progress is waited for by exactly one call of \<^verbatim>\<open>acceptOffer\<close>, and every such call holds an
  offer of the task type of its request; every task is stored under its own id. The generated
  ids are assumed not to repeat, and requesters not to reuse the id of a request in flight.
\<close>

theorem broker_invariant:
  assumes "inj nanoid" and "(broker_step nanoid mode)\<^sup>*\<^sup>* new_broker st"
  shows "distinct (map rq_requestId (pending_requests st))
    \<and> (\<forall>r \<in> set (tb_pendingTaskRequests st). rq_acceptInProgress (tb_requestObj st r) = Some True \<longrightarrow>
        (\<exists>!t. \<exists>offer a. map_get (tb_calls st) t = Some (AwaitRunner offer r a)))
    \<and> (\<forall>t offer r a. map_get (tb_calls st) t = Some (AwaitRunner offer r a) \<longrightarrow>
        of_taskType offer = rq_taskType (tb_requestObj st r))
    \<and> (\<forall>t task. map_get (tb_tasks st) t = Some task \<longrightarrow> tk_id task = t)"
proof (intro conjI ballI allI impI)
  note inv = broker_reach_inv [OF assms]
  then have c: "calls_inv nanoid st" by (simp add: broker_inv_def)
  have "inj_on (\<lambda>r. rq_requestId (tb_requestObj st r)) (set (tb_pendingTaskRequests st))"
    using inv by (auto simp: broker_inv_def requests_inv_def in_flight_def intro: inj_on_subset)
  then show "distinct (map rq_requestId (pending_requests st))"
    using inv by (simp add: pending_requests_def distinct_map comp_inj_on_iff broker_inv_def requests_inv_def o_def)
  show "\<exists>!t. \<exists>offer a. map_get (tb_calls st) t = Some (AwaitRunner offer r a)"
    if "r \<in> set (tb_pendingTaskRequests st)" "rq_acceptInProgress (tb_requestObj st r) = Some True" for r
    using lock_held [OF c that] call_unique [OF c] by blast
  show "of_taskType offer = rq_taskType (tb_requestObj st r)"
    if "map_get (tb_calls st) t = Some (AwaitRunner offer r a)" for t offer r a
    using call_lock [OF c that] by simp
  show "tk_id task = t" if "map_get (tb_tasks st) t = Some task" for t task
    using inv map_of_SomeD [OF that] by (auto simp: broker_inv_def tasks_inv_def)
qed

text \<open>An example: a requester asks for a task before a runner offers one.\<close>

definition ex_runner :: TaskRunner where
  "ex_runner = \<lparr>tr_id = ''run'', tr_name = None, tr_taskTypes = [''javascript'']\<rparr>"

definition ex_waiting :: TaskBroker where
  "ex_waiting = onRequesterMessage nat_str 0 ''req'' (RequesterTaskRequest ''r1'' ''javascript'')
     (registerRequester ''req'' (registerRunner ex_runner new_broker))"

definition ex_matched :: TaskBroker where
  "ex_matched = onRunnerMessage nat_str 0 ''run'' (RunnerTaskOffer ''o1'' ''javascript'' (- 1)) ex_waiting"

definition ex_running_task :: TaskBroker where
  "ex_running_task = resume_accept ''0'' (onRunnerMessage nat_str 0 ''run'' (RunnerTaskAccepted ''0'') ex_matched)"

lemma nat_str_inj: "inj nat_str" by (rule injI) simp

lemma ex_waiting_reach: "(broker_step nat_str InternalMode)\<^sup>*\<^sup>* new_broker ex_waiting"
proof -
  have reach: "(broker_step nat_str InternalMode)\<^sup>*\<^sup>* new_broker (registerRequester ''req'' (registerRunner ex_runner new_broker))"
    by (rule rtranclp.rtrancl_into_rtrancl [OF r_into_rtranclp]) (rule broker_step.register_runner broker_step.register_requester)+
  have fresh: "fresh_request (registerRequester ''req'' (registerRunner ex_runner new_broker)) (RequesterTaskRequest ''r1'' ''javascript'')"
    by (simp add: fresh_request_def in_flight_def registerRequester_def registerRunner_def messageRunner_def new_broker_def)
  have "broker_step nat_str InternalMode (registerRequester ''req'' (registerRunner ex_runner new_broker)) ex_waiting"
    unfolding ex_waiting_def using fresh by (rule broker_step.from_requester)
  with reach show ?thesis by (rule rtranclp.rtrancl_into_rtrancl)
qed

lemma ex_matched_reach: "(broker_step nat_str InternalMode)\<^sup>*\<^sup>* new_broker ex_matched"
  unfolding ex_matched_def by (rule rtranclp.rtrancl_into_rtrancl [OF ex_waiting_reach broker_step.from_runner])

lemma ex_running_task_reach: "(broker_step nat_str InternalMode)\<^sup>*\<^sup>* new_broker ex_running_task"
  unfolding ex_running_task_def
  by (rule rtranclp.rtrancl_into_rtrancl [OF rtranclp.rtrancl_into_rtrancl [OF ex_matched_reach broker_step.from_runner] broker_step.resume])

theorem broker_invariant_witness:
  "\<exists>!t. \<exists>offer a. map_get (tb_calls ex_matched) t = Some (AwaitRunner offer 1 a)"
proof -
  have "1 \<in> set (tb_pendingTaskRequests ex_matched)" "rq_acceptInProgress (tb_requestObj ex_matched 1) = Some True"
    by code_simp+
  with broker_invariant [OF nat_str_inj ex_matched_reach] show ?thesis by blast
qed

text \<open>
  No request hangs: in every reachable state a pending request has its own active timer, and
  when that fires exactly this request stops being pending and its requester, when it is registered, is
  told that the request expired.
\<close>

lemma pending_request_expires:
  assumes "inj nanoid" and "(broker_step nanoid mode)\<^sup>*\<^sup>* new_broker st" and "r \<in> set (tb_pendingTaskRequests st)"
  shows "\<exists>i. rq_timeout (tb_requestObj st r) = Some i \<and> map_get (tb_timers st) i \<noteq> None
    \<and> tb_pendingTaskRequests (timer_fired mode i st) = remove1 r (tb_pendingTaskRequests st)
    \<and> (rq_requesterId (tb_requestObj st r) \<in> set (tb_requesters st) \<longrightarrow>
        last (tb_sent (timer_fired mode i st)) = ToRequester (rq_requesterId (tb_requestObj st r))
          (RequestExpired (rq_requestId (tb_requestObj st r)) ''timeout''))"
  by (rule request_timer_fires [OF broker_reach_inv [OF assms(1,2)] assms(3)])

text \<open>
  C38. No call of \<^verbatim>\<open>acceptOffer\<close> hangs: from every reachable state in which a call is suspended, the
  runtime alone, by firing timers and resuming calls, without any further message of a runner or a
  requester, brings the call to its end.
\<close>

theorem acceptOffer_ends:
  assumes "inj nanoid" and "(broker_step nanoid mode)\<^sup>*\<^sup>* new_broker st" and "map_get (tb_calls st) t = Some c"
  shows "\<exists>st'. (runtime_step mode)\<^sup>*\<^sup>* st st' \<and> map_get (tb_calls st') t = None"
proof (cases c)
  case (AwaitRunner offer r a)
  with runner_call_ends [OF broker_reach_inv [OF assms(1,2)] assms(1)] assms(3) show ?thesis by blast
next
  case (AwaitRequester a)
  with requester_call_ends [OF broker_reach_inv [OF assms(1,2)]] assms(3) show ?thesis by blast
qed

theorem acceptOffer_ends_witness:
  "\<exists>st'. (runtime_step InternalMode)\<^sup>*\<^sup>* ex_running_task st' \<and> map_get (tb_calls st') ''0'' = None"
proof -
  have "map_get (tb_calls ex_running_task) ''0'' = Some (AwaitRequester RequesterPending)" by code_simp
  from acceptOffer_ends [OF nat_str_inj ex_running_task_reach this] show ?thesis .
qed

text \<open>
  \<^verbatim>\<open>settleTasks\<close> matches completely: afterwards no pending request that is not being accepted has
  an offer of its type left; only offers that had not expired are kept or accepted, every accepted
  offer starts one call (so the offers left and the new task ids add up to the unexpired offers), and every
  new call waits for the runner with an unexpired offer of the type of a pending request.
\<close>

lemma settleTasks_complete:
  "(\<forall>r \<in> set (tb_pendingTaskRequests st). settled (settleTasks nanoid now st) r)
    \<and> tb_pendingTaskRequests (settleTasks nanoid now st) = tb_pendingTaskRequests st
    \<and> set (tb_pendingTaskOffers (settleTasks nanoid now st)) \<subseteq> {offer \<in> set (tb_pendingTaskOffers st). valid_offer now offer}
    \<and> length (tb_pendingTaskOffers (settleTasks nanoid now st)) + tb_nanoids (settleTasks nanoid now st)
        = length (filter (valid_offer now) (tb_pendingTaskOffers st)) + tb_nanoids st
    \<and> (\<forall>t c. map_get (tb_calls (settleTasks nanoid now st)) t = Some c \<longrightarrow> map_get (tb_calls st) t = Some c
        \<or> (\<exists>offer r. c = AwaitRunner offer r RunnerPending \<and> r \<in> set (tb_pendingTaskRequests st)
            \<and> offer \<in> set (tb_pendingTaskOffers st) \<and> valid_offer now offer \<and> of_taskType offer = rq_taskType (tb_requestObj st r)))"
proof -
  let ?e = "expireTasks now st"
  have e: "tb_pendingTaskRequests ?e = tb_pendingTaskRequests st" "tb_calls ?e = tb_calls st" "tb_requestObj ?e = tb_requestObj st"
    "tb_nanoids ?e = tb_nanoids st" "tb_pendingTaskOffers ?e = filter (valid_offer now) (tb_pendingTaskOffers st)"
    by (simp_all add: expireTasks_def valid_offer_def [abs_def] linorder_not_less)
  have pend: "tb_pendingTaskRequests (fold (settle_request nanoid) rs s) = tb_pendingTaskRequests s" for rs s
    by (induction rs arbitrary: s) simp_all
  have "map_get (tb_calls st) t = Some c
      \<or> (\<exists>offer r. c = AwaitRunner offer r RunnerPending \<and> r \<in> set (tb_pendingTaskRequests st)
            \<and> offer \<in> set (tb_pendingTaskOffers st) \<and> valid_offer now offer \<and> of_taskType offer = rq_taskType (tb_requestObj st r))"
    if "map_get (tb_calls (settleTasks nanoid now st)) t = Some c" for t c
    using fold_settle_calls [of nanoid "tb_pendingTaskRequests st" ?e t c] that by (auto simp: settleTasks_def Let_def e)
  moreover have "settled (settleTasks nanoid now st) r" if "r \<in> set (tb_pendingTaskRequests st)" for r
    using that by (simp add: settleTasks_def Let_def e fold_settle_settles)
  ultimately show ?thesis
    using fold_settle_counts [of nanoid "tb_pendingTaskRequests st" ?e] pend
    by (auto simp: settleTasks_def Let_def e)
qed

text \<open>
  When a runner disconnects, the broker forgets it, its pending offers and exactly its tasks, tells
  the requester of each such task, in the order of the tasks, that it failed, and leaves the other offers and tasks
  and all pending requests as they are.
\<close>

lemma deregisterRunner_correct:
  assumes "inj nanoid" and "(broker_step nanoid mode)\<^sup>*\<^sup>* new_broker st"
  shows "tb_tasks (deregisterRunner runnerId message st) = filter (\<lambda>e. tk_runnerId (snd e) \<noteq> runnerId) (tb_tasks st)
    \<and> tb_sent (deregisterRunner runnerId message st) = tb_sent st
      @ map (\<lambda>task. ToRequester (tk_requesterId task) (TaskError (tk_id task) (ErrorMessage message)))
          (filter (\<lambda>task. tk_runnerId task = runnerId \<and> tk_requesterId task \<in> set (tb_requesters st)) (values_of (tb_tasks st)))
    \<and> tb_knownRunners (deregisterRunner runnerId message st) = map_delete runnerId (tb_knownRunners st)
    \<and> tb_pendingTaskOffers (deregisterRunner runnerId message st)
      = filter (\<lambda>offer. of_runnerId offer \<noteq> runnerId) (tb_pendingTaskOffers st)
    \<and> tb_pendingTaskRequests (deregisterRunner runnerId message st) = tb_pendingTaskRequests st"
  by (rule deregisterRunner_effect [OF broker_reach_inv [OF assms]])

end
