(* ===== verification/Restart_Loop.thy ===== *)
theory Restart_Loop
  imports N8n_Prelude
begin

text \<open>
  \<^verbatim>\<open>TaskRunnerProcessRestartLoopDetector\<close> of
  \<^verbatim>\<open>packages/cli/src/task-runners/task-runner-process-restart-loop-detector.ts\<close>: it counts the exits of the task runner
  process in a window of two seconds. Times are in milliseconds; \<^verbatim>\<open>Date.now()\<close> is read once per exit.

  The properties: what is reported is a loop (five exits within the window), and every nine exits within
  a window lead to a report.
\<close>

section \<open>The detector\<close>

record RestartLoopDetector =
  numRestarts :: nat
  firstRestartedAt :: int

definition MAX_RESTARTS :: nat where "MAX_RESTARTS = 5"

definition RESTARTS_WINDOW :: int where "RESTARTS_WINDOW = 2 * 1000"

definition new_detector :: "int \<Rightarrow> RestartLoopDetector" where
  "new_detector now = \<lparr>numRestarts = 0, firstRestartedAt = now\<rparr>"

definition reset :: "int \<Rightarrow> RestartLoopDetector \<Rightarrow> RestartLoopDetector" where
  "reset now d = d\<lparr>numRestarts := 0, firstRestartedAt := now\<rparr>"

definition increment :: "int \<Rightarrow> RestartLoopDetector \<Rightarrow> RestartLoopDetector" where
  "increment now d =
     (let d' = (if now > firstRestartedAt d + RESTARTS_WINDOW then reset now d else d)
      in d'\<lparr>numRestarts := numRestarts d' + 1\<rparr>)"

definition isMaxCountExceeded :: "RestartLoopDetector \<Rightarrow> bool" where
  "isMaxCountExceeded d \<longleftrightarrow> numRestarts d \<ge> MAX_RESTARTS"

definition msSinceFirstIncrement :: "int \<Rightarrow> RestartLoopDetector \<Rightarrow> int" where
  "msSinceFirstIncrement now d = now - firstRestartedAt d"

text \<open>The handler of \<^verbatim>\<open>exit\<close>: the event it emits carries the number of restarts and the time.\<close>

definition on_exit :: "int \<Rightarrow> RestartLoopDetector \<Rightarrow> RestartLoopDetector \<times> (nat \<times> int) option" where
  "on_exit now d =
     (let d' = increment now d
      in (d', if isMaxCountExceeded d' then Some (numRestarts d', msSinceFirstIncrement now d') else None))"

fun run_exits :: "int list \<Rightarrow> RestartLoopDetector \<Rightarrow> (nat \<times> int) option list" where
  "run_exits [] d = []"
| "run_exits (now # ts) d = (let (d', event) = on_exit now d in event # run_exits ts d')"

section \<open>The window\<close>

abbreviation detector_at :: "int list \<Rightarrow> int \<Rightarrow> nat \<Rightarrow> RestartLoopDetector" where
  "detector_at ts t0 k \<equiv> fold increment (take (Suc k) ts) (new_detector t0)"

lemma run_exits_nth:
  "k < length ts \<Longrightarrow> run_exits ts d ! k = snd (on_exit (ts ! k) (fold increment (take k ts) d))"
proof (induction ts arbitrary: d k)
  case (Cons now ts)
  then show ?case by (cases k) (simp_all add: on_exit_def Let_def)
qed simp

lemma length_run_exits [simp]: "length (run_exits ts d) = length ts"
  by (induction ts arbitrary: d) (simp_all add: split_beta)

lemma detected_iff:
  assumes "k < length ts"
  shows "run_exits ts (new_detector t0) ! k \<noteq> None \<longleftrightarrow> 5 \<le> numRestarts (detector_at ts t0 k)"
proof -
  have "detector_at ts t0 k = increment (ts ! k) (fold increment (take k ts) (new_detector t0))"
    using assms by (simp add: take_Suc_conv_app_nth)
  then show ?thesis
    by (simp add: run_exits_nth [OF assms] on_exit_def Let_def isMaxCountExceeded_def MAX_RESTARTS_def)
qed

text \<open>After exit \<open>k\<close> the detector counts the exits from \<open>r\<close> on, which lie in its window.\<close>

definition counts_from :: "int list \<Rightarrow> nat \<Rightarrow> nat \<Rightarrow> RestartLoopDetector \<Rightarrow> bool" where
  "counts_from ts k r d \<longleftrightarrow> r \<le> k \<and> numRestarts d = k - r + 1 \<and> firstRestartedAt d \<le> ts ! r
     \<and> ts ! k \<le> firstRestartedAt d + 2000 \<and> (0 < r \<longrightarrow> firstRestartedAt d = ts ! r)"

lemma counts_from_next:
  assumes "counts_from ts k r d" and "ts ! k \<le> ts ! Suc k"
  shows "if ts ! Suc k > firstRestartedAt d + 2000 then counts_from ts (Suc k) (Suc k) (increment (ts ! Suc k) d)
    else counts_from ts (Suc k) r (increment (ts ! Suc k) d)"
  using assms by (auto simp: counts_from_def increment_def reset_def RESTARTS_WINDOW_def Let_def)

lemma detector_counts:
  assumes "sorted ts" and "k < length ts" and "t0 \<le> ts ! 0"
  shows "\<exists>r. counts_from ts k r (detector_at ts t0 k)
    \<and> (0 < r \<longrightarrow> firstRestartedAt (detector_at ts t0 (r - 1)) + 2000 < ts ! r)"
  using assms(2)
proof (induction k)
  case 0
  then have "detector_at ts t0 0 = increment (ts ! 0) (new_detector t0)" by (cases ts) simp_all
  then have "counts_from ts 0 0 (detector_at ts t0 0)"
    using assms(3) by (auto simp: counts_from_def increment_def new_detector_def reset_def RESTARTS_WINDOW_def Let_def)
  then show ?case by blast
next
  case (Suc k)
  then obtain r where r: "counts_from ts k r (detector_at ts t0 k)"
    and reset: "0 < r \<longrightarrow> firstRestartedAt (detector_at ts t0 (r - 1)) + 2000 < ts ! r" by auto
  have le: "ts ! k \<le> ts ! Suc k" using assms(1) Suc.prems by (simp add: sorted_nth_mono)
  have step: "detector_at ts t0 (Suc k) = increment (ts ! Suc k) (detector_at ts t0 k)"
    using Suc.prems by (simp add: take_Suc_conv_app_nth [of "Suc k"])
  show ?case
  proof (cases "ts ! Suc k > firstRestartedAt (detector_at ts t0 k) + 2000")
    case True
    with counts_from_next [OF r le] have "counts_from ts (Suc k) (Suc k) (detector_at ts t0 (Suc k))" unfolding step by simp
    with True show ?thesis by (intro exI [of _ "Suc k"]) simp
  next
    case False
    with counts_from_next [OF r le] have "counts_from ts (Suc k) r (detector_at ts t0 (Suc k))" unfolding step by simp
    with reset show ?thesis by blast
  qed
qed

lemma detected_in_window:
  assumes sorted: "sorted ts" and k: "k < length ts" and t0: "t0 \<le> ts ! 0"
    and "run_exits ts (new_detector t0) ! k \<noteq> None"
  shows "4 \<le> k \<and> ts ! k - ts ! (k - 4) \<le> 2000"
proof -
  from detector_counts [OF sorted k t0] obtain r where r: "counts_from ts k r (detector_at ts t0 k)" by blast
  with assms(4) have "r + 4 \<le> k" unfolding detected_iff [OF k] by (simp add: counts_from_def)
  moreover from this have "ts ! r \<le> ts ! (k - 4)" using sorted k by (intro sorted_nth_mono) auto
  ultimately show ?thesis using r by (auto simp: counts_from_def)
qed

lemma window_detected:
  assumes sorted: "sorted ts" and k: "k < length ts" and t0: "t0 \<le> ts ! 0"
    and window: "8 \<le> k" "ts ! k - ts ! (k - 8) \<le> 2000"
  shows "\<exists>j \<in> {k - 8..k}. run_exits ts (new_detector t0) ! j \<noteq> None"
proof -
  from detector_counts [OF sorted k t0] obtain r where r: "counts_from ts k r (detector_at ts t0 k)"
    and reset: "0 < r \<longrightarrow> firstRestartedAt (detector_at ts t0 (r - 1)) + 2000 < ts ! r" by blast
  show ?thesis
  proof (cases "r + 4 \<le> k")
    case True
    with r have "run_exits ts (new_detector t0) ! k \<noteq> None" unfolding detected_iff [OF k] by (simp add: counts_from_def)
    then show ?thesis by (intro bexI [of _ k]) auto
  next
    case False
    define m where "m = r - 1"
    have rk: "r \<le> k" using r by (simp add: counts_from_def)
    have m: "r = Suc m" "m < length ts" "k \<le> m + 4" "m \<le> k" using False window(1) rk k by (auto simp: m_def)
    from detector_counts [OF sorted m(2) t0] obtain q where q: "counts_from ts m q (detector_at ts t0 m)" by blast
    have "ts ! r \<le> ts ! k" using sorted k rk by (intro sorted_nth_mono) auto
    with reset m(1) window(2) have early: "firstRestartedAt (detector_at ts t0 m) < ts ! (k - 8)" by simp
    have "q + 4 \<le> m"
    proof (cases "q = 0")
      case True
      then show ?thesis using m(3) window(1) by simp
    next
      case False
      with q early have "ts ! q < ts ! (k - 8)" by (simp add: counts_from_def)
      then have "q < k - 8" using sorted_nth_mono [OF sorted, of "k - 8" q] q m(2) by (force simp: counts_from_def)
      then show ?thesis using m(3) by simp
    qed
    with q have "run_exits ts (new_detector t0) ! m \<noteq> None" unfolding detected_iff [OF m(2)] by (simp add: counts_from_def)
    with m(3,4) show ?thesis by (intro bexI [of _ m]) auto
  qed
qed

section \<open>Property\<close>

text \<open>
  C40. For exits at nondecreasing times: when a restart loop is reported at an exit, this exit and the four before it
  lie within two seconds; and whenever an exit and the eight before it lie within two seconds, a restart
  loop is reported at one of them. (Five exits within the window are not always enough, since the window starts anew at
  the first exit after it has passed.)
\<close>

theorem restart_loop_bounds:
  assumes "sorted ts" and "k < length ts" and "t0 \<le> ts ! 0"
  shows "(run_exits ts (new_detector t0) ! k \<noteq> None \<longrightarrow> 4 \<le> k \<and> ts ! k - ts ! (k - 4) \<le> 2000)
    \<and> (8 \<le> k \<and> ts ! k - ts ! (k - 8) \<le> 2000 \<longrightarrow> (\<exists>j \<in> {k - 8..k}. run_exits ts (new_detector t0) ! j \<noteq> None))"
  using detected_in_window [OF assms] window_detected [OF assms] by blast

theorem restart_loop_bounds_witness:
  "(\<exists>j \<in> {0..8}. run_exits [0, 1, 2, 3, 4, 5, 6, 7, 8] (new_detector 0) ! j \<noteq> None)
   \<and> run_exits [1900, 2001, 2002, 2003, 2004] (new_detector 0) = [None, None, None, None, None]"
proof -
  have "sorted [0, 1, 2, 3, 4, 5, 6, 7, 8 :: int]" by simp
  from restart_loop_bounds [OF this, of 8 0]
  have "\<exists>j \<in> {0..8}. run_exits [0, 1, 2, 3, 4, 5, 6, 7, 8] (new_detector 0) ! j \<noteq> None" by simp
  moreover have "run_exits [1900, 2001, 2002, 2003, 2004] (new_detector 0) = [None, None, None, None, None]" by code_simp
  ultimately show ?thesis ..
qed

end
