(* ===== verification/Spec2Isabelle.thy ===== *)
theory Spec2Isabelle
  imports Partial_Execution_Run Workflow_Correct Engine_Requests_Correct Workflow_History_Correct Node_Grouping_Correct Structure_Validation Domain_Restrictions Workflow_Checksum From_AI_Correct Concurrency_Control Task_Broker_Correct Restart_Loop
begin

text \<open>
  A verification of the core of n8n, a workflow automation platform written in TypeScript. Paths are relative to
  \<^verbatim>\<open>src/packages\<close>.

  \<^bold>\<open>The parts and how they interact.\<close> A workflow (\<^verbatim>\<open>workflow/src/workflow.ts\<close>) is a set of named nodes and their
  connections by source node. The editor runs a part of a workflow by \<^verbatim>\<open>WorkflowExecute.runPartialWorkflow2\<close>
  (\<^verbatim>\<open>core/src/execution-engine/workflow-execute.ts\<close>): it turns the workflow into a \<^verbatim>\<open>DirectedGraph\<close>, chooses a
  trigger, removes disabled nodes, cuts out the sub-graph between the trigger and the destination, decides from the
  data of earlier runs which nodes must run again, and rebuilds the execution stack. \<^verbatim>\<open>WorkflowExecute.run\<close> starts a whole workflow with one
  entry on the stack. Both hand over to \<^verbatim>\<open>processRunExecutionData\<close>, whose loop takes entries from the stack, runs their
  nodes, stores the results in the run data, and adds the nodes that follow to the stack or, until all their inputs have
  data, to the waiting entries. A server limits how many
  executions run at once (\<^verbatim>\<open>cli/src/concurrency\<close>), and hands the code of Code nodes to task runners through a broker
  (\<^verbatim>\<open>cli/src/task-runners/task-broker\<close>), while a detector watches the restarts of the runner process. Before a workflow is run or saved it is checked: its
  structure (\<^verbatim>\<open>workflow/src/workflow-structure-validation.ts\<close>), the nodes put into a group, the hosts that a credential may
  be sent to, the arguments that a language model fills in by \<^verbatim>\<open>$fromAI\<close>; a checksum detects concurrent edits. Every
  save leaves a version, and \<^verbatim>\<open>cli/src/services/pruning\<close> thins out the versions by comparing neighbours
  (\<^verbatim>\<open>workflow/src/workflow-diff.ts\<close>).

  \<^bold>\<open>Theories, in the order of their imports.\<close>

  \<^item> \<open>N8n_Prelude\<close>: exceptions as the sum type \<open>'a res\<close> with \<open>bind_res\<close> and \<open>fold_res\<close>; JavaScript's \<^verbatim>\<open>Map\<close>,
    objects and \<^verbatim>\<open>Set\<close> as lists that keep the insertion order, their laws in the locale \<open>keyed_store\<close>, interpreted for
    maps and for objects; the locale \<open>graph_search\<close> for the recursive searches, interpreted for children and parents; the
    locales \<open>state_machine\<close> for reachable states and \<open>refined_machine\<close> for machines with inputs and outputs that refine another one, interpreted for
    the concurrency queue and the broker; array access out of range.

  \<^item> \<open>Workflow_Types\<close>: the records of \<^verbatim>\<open>workflow/src/interfaces.ts\<close>. Object identity of a node is its field
    \<open>node_ref\<close>, so that two nodes with equal fields are different objects.

  \<^item> \<open>Directed_Graph\<close>: the class of \<^verbatim>\<open>partial-execution-utils/directed-graph.ts\<close>, one definition per method, and the
    invariant \<open>wf_graph\<close> (nodes under their names, connections under their keys, both ends present), which every
    operation keeps. The searches are exact: \<open>getChildren\<close>, \<open>getParentConnections\<close>, \<open>depthFirstSearch\<close>.
    \<open>Tarjan_Components\<close> models \<^verbatim>\<open>getStronglyConnectedComponents\<close>: the returned components are disjoint and mutually
    reachable, and a component can be missed.

  \<^item> \<open>Partial_Execution\<close> and \<open>Source_Groups\<close>: the other files of \<^verbatim>\<open>partial-execution-utils\<close>.
    \<open>Partial_Execution_Correct\<close>, \<open>Subgraph_Correct\<close>, \<open>Disabled_Nodes\<close> and \<open>Source_Groups\<close> show what each step computes:
    the start nodes, the sub-graph, the paths through disabled nodes, the run data that is kept, the groups of
    incoming connections, the entries of the stack.

  \<^item> \<open>Connection_Maps\<close>: \<^verbatim>\<open>workflow/src/common\<close> (connections by destination, parents, children, AI roots).
    \<open>Workflow_Graph\<close> and \<open>Workflow_Correct\<close>: the class \<^verbatim>\<open>Workflow\<close> (renaming, searches, start node).
    \<open>Graph_Conversion\<close>: \<^verbatim>\<open>fromWorkflow\<close>, \<^verbatim>\<open>toWorkflow\<close> and the choice of the trigger.
    \<open>Extractable_Subgraph\<close>: \<^verbatim>\<open>workflow/src/graph/graph-utils.ts\<close>.

  \<^item> \<open>Partial_Run\<close>: \<^verbatim>\<open>runPartialWorkflow2\<close> up to the call of \<^verbatim>\<open>processRunExecutionData\<close>, with \<^verbatim>\<open>rewireGraph\<close> and \<^verbatim>\<open>isTool\<close>.
    The property of the composed steps is at the end of this theory. \<open>Partial_Execution_Run\<close> joins it with the execution loop:
    the graph of node objects and the connections by name have the same paths (\<open>fromWorkflow_graph\<close>), so that kept runs stay as they are;
    and only nodes to which enabled nodes lead from a start node are run, so that a partial execution does not get past a disabled node.

  \<^item> \<open>Execution_Stack\<close>: \<^verbatim>\<open>addNodeToBeExecuted\<close> with the waiting entries, the successors of a node, the release of waiting
    nodes and \<^verbatim>\<open>ensureInputData\<close>. \<open>Execution_Stack_Correct\<close> and \<open>Waiting_Release\<close>: the invariant of the waiting entries, the
    equivalence with a reference that joins inputs, the order of the successors, which nodes are released, and that no
    data is lost but in the case shown there.

  \<^item> \<open>Execution_Items\<close>: what the loop does with items (pairing, input and output of a node, the error output).
    \<open>Engine_Requests\<close>: \<^verbatim>\<open>requests-response.ts\<close>, by which an agent has its tools run. \<open>Execution_Loop\<close>: \<^verbatim>\<open>runNode\<close>, retries, one
    round of the loop (\<open>loop_round\<close>), the loop, the end and the start of an execution, each a function on
    \<open>exec_state\<close>, the fields of \<^verbatim>\<open>IRunExecutionData\<close> and the variables of \<^verbatim>\<open>processRunExecutionData\<close>.

  \<^item> \<open>Execution_Jobs\<close>: the jobs on the stack and in the waiting entries as a multiset; what the loop needs of the operations on them is
    the locale \<open>job_queue\<close>, interpreted for \<^verbatim>\<open>addSuccessors\<close> and the release of waiting nodes. \<open>Execution_Loop_Correct\<close> shows what
    one round keeps and that it makes the jobs smaller; \<open>Execution_Properties\<close> and \<open>Engine_Requests_Correct\<close> state the properties: the
    loop ends, records every run once and in order, respects the run filter and bounds the calls of a node,
    requests are served; a branch that ends last leaves waiting nodes behind; and two runs in which the settings of nodes are not respected.
    The invariant of the loop is for execution order \<^verbatim>\<open>v1\<close> and nodes that make no requests to the engine.

  \<^item> \<open>Concurrency_Control\<close>: queue, service, reservations. The queue keeps its limit and gives, event by event, the answers of a semaphore
    with a waiting list; \<^verbatim>\<open>remove\<close> breaks the limit.

  \<^item> \<open>Task_Broker\<close>, \<open>Task_Broker_Correct\<close>: the broker as a state machine. The \<^verbatim>\<open>async\<close> methods are cut at each
    \<^verbatim>\<open>await\<close>; suspended calls, timers and queued microtasks are fields of the state, and \<open>broker_step\<close> is the step relation
    of messages, timers and resumptions in any order. The invariant holds in every reachable state; requests
    expire and calls end.

  \<^item> \<open>Restart_Loop\<close>: \<^verbatim>\<open>task-runner-process-restart-loop-detector.ts\<close>.

  \<^item> \<open>Workflow_Diff\<close>, \<open>Workflow_Diff_Correct\<close>: \<^verbatim>\<open>workflow-diff.ts\<close> and \<^verbatim>\<open>connections-diff.ts\<close>: the comparison of nodes and of
    connections and the rules by which a version can be left out. \<open>Version_Grouping\<close>: the loop over the versions
    (\<^verbatim>\<open>groupWorkflows\<close>). \<open>Workflow_History\<close>, \<open>Workflow_History_Correct\<close>: the compaction service and the repository methods it
    calls, on a table of versions; what a list of rules promises to it is the locale \<open>compaction_rules\<close>, interpreted for the rules
    of both of its modes (optimizing and trimming).

  \<^item> \<open>Structure_Validation\<close>: \<^verbatim>\<open>workflow-structure-validation.ts\<close>; an accepted input has the type that the code claims for it.
    \<open>Node_Grouping\<close>, \<open>Node_Grouping_Correct\<close>: \<^verbatim>\<open>node-grouping-validation.ts\<close>, on top of \<open>Extractable_Subgraph\<close>.
    \<open>Domain_Restrictions\<close>: \<^verbatim>\<open>credential-domain-restrictions.ts\<close>. \<open>Workflow_Checksum\<close>: \<^verbatim>\<open>workflow-checksum.ts\<close>.
    \<open>From_AI_Calls\<close>, \<open>From_AI_Correct\<close>: \<^verbatim>\<open>from-ai-parse-utils.ts\<close>, the scanner of calls, the splitting and unquoting of arguments, and the
    test for expressions that may not be used.

  \<^bold>\<open>Termination.\<close> There is no fuel. Every loop and recursion of the model but one is a total function with a termination
  proof, by the nodes not yet visited (searches), the connections not yet used (source groups), the tries that are
  left, or the structure of the data. The execution loop may run forever on a workflow with a cycle, so \<open>executionLoop\<close> is a
  partial function into \<open>option\<close>; that it returns on workflows without cycles is a theorem.

  \<^bold>\<open>Parameters.\<close> Code outside of the modelled files is an argument: the registry of node types, \<^verbatim>\<open>getNodeParameters\<close>, the
  rewriting of expressions (\<^verbatim>\<open>applyAccessPatterns\<close>), \<^verbatim>\<open>localeCompare\<close>, \<^verbatim>\<open>nanoid\<close>, the clock, the license quota and the
  configuration. The newer parts add lodash's \<^verbatim>\<open>isEqual\<close> and \<^verbatim>\<open>pick\<close>, the parser of URLs, \<^verbatim>\<open>JSON.stringify\<close>, SHA-256,
  \<^verbatim>\<open>Number\<close> and \<^verbatim>\<open>jsonParse\<close>, the library zod (hypothesis \<open>zod_ok\<close>: it accepts what fits the workflow schema and returns a copy of it) and the order in which a
  query returns equal rows (hypothesis \<open>sql_ok\<close>). For the execution loop they are the fields of \<open>engine_env\<close>: what the code of a node answers in each call, the evaluation
  of expressions in node descriptions, the lookup of paired items, the issues of parameters, and when the execution is canceled or times
  out. The theorems hold for every such environment; those that exclude engine requests or cycles say so.

  \<^bold>\<open>Not modelled.\<close> Of the execution: hooks and what they throw, logging, error reports, telemetry tags, hints and times, static data, the
  conversion of binary data, \<^verbatim>\<open>establishExecutionContext\<close>, and the writing of run data by the code of nodes
  (\<^verbatim>\<open>addExecutionDataFunctions\<close> of sub-nodes). The timers and pauses of the compaction, \<^verbatim>\<open>generateZodSchema\<close> (calls of zod), the
  sliding window signal (event emitters). The nodes themselves (\<^verbatim>\<open>nodes-base\<close>, \<^verbatim>\<open>nodes-langchain\<close>: calls of external services);
  expressions and the sandbox that evaluates them; the database, the REST controllers and the queue of workers (I/O around third-party
  libraries); the editor; logging, telemetry and events.
\<close>

section \<open>Partial executions\<close>

lemma kept_index_below:
  assumes "map_get rd k = Some runs" and "td \<in> set runs" and "td_executionIndex td = Some i"
  shows "i < getNextExecutionIndex rd"
proof -
  have "runs \<in> snd ` set rd" using map_of_SomeD [OF assms(1)] by force
  with assms(2,3) have "i \<in> indices_of rd" by (auto simp: indices_of_def)
  then show ?thesis using finite_indices [of rd] by (auto simp: getNextExecutionIndex_max less_Suc_eq_le)
qed

text \<open>
  C5. The steps of a partial execution, composed as in \<^verbatim>\<open>runPartialWorkflow2\<close>, never fail on a well-formed graph
  (no name contains the separator of connection keys, no cycle of disabled nodes) in which main connections lead
  from the trigger to the destination, both enabled. They hand on a well-formed graph of enabled nodes with
  the trigger; distinct start nodes that the trigger reaches; the run data of exactly the nodes that are not downstream
  of a start node or a dirty node, nor a utility node that feeds one of these or an ancestor of one, so that no node that is about to run has run data; one stack entry per
  complete group of inputs of each start node; waiting entries only for start nodes; and an execution index above
  every index that is kept.
\<close>

theorem partial_execution_prepared:
  assumes "wf_graph g" and "plain_names g" and "acyclic (main_edges g \<inter> disabled_objs g \<times> disabled_objs g)"
    and "has_node_obj g trigger" and "has_node_obj g dest" and "\<not> is_disabled trigger" and "\<not> is_disabled dest"
    and "(trigger, dest) \<in> (main_edges g)\<^sup>*" and "run_data_typed g rd"
  shows "\<exists>p. plan_execution lc g trigger dest rd pd dirty = Inr p \<and> wf_graph (pp_graph p)
    \<and> trigger \<in> node_objs (pp_graph p) \<and> node_objs (pp_graph p) \<subseteq> node_objs g - disabled_objs g
    \<and> distinct (pp_startNodes p) \<and> set (pp_startNodes p) \<subseteq> (dg_edges (pp_graph p))\<^sup>* `` {trigger}
    \<and> map_get (pp_runData p) = map_get rd |` ({k. hasNode (pp_graph p) k}
        - stale_names (pp_graph p) ({n \<in> node_objs (pp_graph p). node_name n \<in> set dirty} \<union> set (pp_startNodes p)))
    \<and> (\<forall>n \<in> (dg_edges (pp_graph p))\<^sup>* `` set (pp_startNodes p). map_get (pp_runData p) (node_name n) = None)
    \<and> ss_nodeExecutionStack (pp_stack p)
        = concat (map (start_node_entries lc (pp_graph p) (pp_runData p) pd) (pp_startNodes p))
    \<and> set (keys_of (ss_waitingExecution (pp_stack p))) \<subseteq> node_name ` set (pp_startNodes p)
    \<and> (\<forall>k runs td i. map_get (pp_runData p) k = Some runs \<longrightarrow> td \<in> set runs \<longrightarrow> td_executionIndex td = Some i
        \<longrightarrow> i < pp_executionIndex p)"
proof -
  from plan_execution_spec [OF assms, of lc pd dirty] obtain p where
    p: "plan_execution lc g trigger dest rd pd dirty = Inr p" "wf_graph (pp_graph p)"
      "trigger \<in> node_objs (pp_graph p)" "node_objs (pp_graph p) \<subseteq> node_objs g - disabled_objs g"
      "distinct (pp_startNodes p)" "set (pp_startNodes p) \<subseteq> (dg_edges (pp_graph p))\<^sup>* `` {trigger}"
      "map_get (pp_runData p) = map_get rd |` ({k. hasNode (pp_graph p) k}
        - stale_names (pp_graph p) ({n \<in> node_objs (pp_graph p). node_name n \<in> set dirty} \<union> set (pp_startNodes p)))"
      "ss_nodeExecutionStack (pp_stack p)
        = concat (map (start_node_entries lc (pp_graph p) (pp_runData p) pd) (pp_startNodes p))"
      "set (keys_of (ss_waitingExecution (pp_stack p))) \<subseteq> node_name ` set (pp_startNodes p)"
    and index: "pp_executionIndex p = getNextExecutionIndex (pp_runData p)" by blast
  have "map_get (pp_runData p) (node_name n) = None" if "n \<in> (dg_edges (pp_graph p))\<^sup>* `` set (pp_startNodes p)" for n
    using stale_names_reach [OF that] by (simp add: p(7) stale_names_Un restrict_map_def)
  moreover have "i < pp_executionIndex p"
    if "map_get (pp_runData p) k = Some runs" "td \<in> set runs" "td_executionIndex td = Some i" for k runs td i
    unfolding index using that by (rule kept_index_below)
  ultimately show ?thesis using p by blast
qed

theorem partial_execution_prepared_witness:
  "\<exists>p. plan_execution (\<lambda>_ _. 0) ex_disabled ex_t ex_b [(''t'', [ex_run]), (''b'', [ex_run])] [] [''b''] = Inr p
     \<and> pp_startNodes p = [ex_b] \<and> pp_runData p = [(''t'', [ex_run])] \<and> pp_executionIndex p = 1
     \<and> map_get (pp_runData p) ''b'' = None"
proof -
  let ?plan = "plan_execution (\<lambda>_ _. 0) ex_disabled ex_t ex_b [(''t'', [ex_run]), (''b'', [ex_run])] [] [''b'']"
  have typed: "run_data_typed ex_disabled [(''t'', [ex_run]), (''b'', [ex_run])]" by code_simp
  have nodes: "has_node_obj ex_disabled ex_t" "has_node_obj ex_disabled ex_b" "\<not> is_disabled ex_t" "\<not> is_disabled ex_b"
    by code_simp+
  have "(ex_t, ex_b) \<in> (main_edges ex_disabled)\<^sup>*"
    unfolding ex_disabled_edges by (rule r_into_rtrancl [THEN rtrancl_into_rtrancl, of _ "ex_a\<lparr>node_disabled := Some True\<rparr>"]) auto
  from partial_execution_prepared [OF ex_disabled_wf ex_disabled_plain ex_disabled_acyclic nodes this typed,
      of "\<lambda>_ _. 0" "[]" "[''b'']"]
  obtain p where p: "?plan = Inr p"
    and clean: "\<forall>n \<in> (dg_edges (pp_graph p))\<^sup>* `` set (pp_startNodes p). map_get (pp_runData p) (node_name n) = None" by blast
  have "(case ?plan of Inr p \<Rightarrow> pp_startNodes p = [ex_b] \<and> pp_runData p = [(''t'', [ex_run])] \<and> pp_executionIndex p = 1 | _ \<Rightarrow> False)"
    by code_simp
  with p clean show ?thesis by (auto simp: ex_node_def)
qed

end
